(* ===== verification/Prelude.thy ===== *)
theory Prelude
  imports Main "HOL-Library.Word"
begin

text \<open>
  What the components share: the outcomes of a C function (\<open>err\<close>, \<open>'a res\<close>), the
  sequencing of two fallible steps (\<open>rbind\<close>), C strings as blocks of bytes with their
  terminator left implicit, the conversion of a \<open>size_t\<close> to an \<open>int\<close>, and the generic
  lemmas on lists the component proofs use.
\<close>

section \<open>Outcomes\<close>

text \<open>
  \<open>Abort msg\<close> is a call of \<open>ABORT(msg)\<close>; the other constructors stand for what C leaves
  undefined: an access outside an object, a read of a variable that was never written, a
  dereferenced null pointer, a node whose header the code did not expect (or a store into a
  string that is not a node), a variable argument of another type than the one fetched, an
  overflow of a signed integer. \<open>OutOfFuel\<close> is a recursion cut off by the model.
\<close>

datatype err =
    Abort string
  | OutOfBounds
  | Uninitialised
  | NullDeref
  | BadNode
  | BadArg
  | Overflow
  | OutOfFuel

type_synonym 'a res = "err + 'a"

definition rbind :: "'a res \<Rightarrow> ('a \<Rightarrow> 'b res) \<Rightarrow> 'b res" where
  "rbind m k = (case m of Inl e \<Rightarrow> Inl e | Inr x \<Rightarrow> k x)"

lemma rbind_Inr [simp]: "rbind (Inr x) k = k x"
  by (simp add: rbind_def)

lemma rbind_Inl [simp]: "rbind (Inl e) k = Inl e"
  by (simp add: rbind_def)

lemma rbind_eq_Inr: "rbind m k = Inr y \<longleftrightarrow> (\<exists>x. m = Inr x \<and> k x = Inr y)"
  by (cases m) simp_all

lemma rbind_InrE:
  assumes "rbind m k = Inr y"
  obtains x where "m = Inr x" "k x = Inr y"
  using assms by (auto simp: rbind_eq_Inr)

lemma rbind_cong [fundef_cong]:
  "m = m' \<Longrightarrow> (\<And>x. m' = Inr x \<Longrightarrow> k x = k' x) \<Longrightarrow> rbind m k = rbind m' k'"
  by (cases m') simp_all

lemma rbind_assoc: "rbind (rbind m f) g = rbind m (\<lambda>x. rbind (f x) g)"
  by (cases m) simp_all

section \<open>C strings\<close>

text \<open>
  A block of bytes \<open>s\<close> stands for the memory a \<open>char *\<close> points to, followed by one
  terminating NUL. \<open>c_char s k\<close> reads byte \<open>k\<close>.
\<close>

abbreviation NUL :: char where
  "NUL \<equiv> CHR 0x00"

definition c_char :: "char list \<Rightarrow> nat \<Rightarrow> char res" where
  "c_char s k = (if k < length s then Inr (s ! k) else if k = length s then Inr NUL else Inl OutOfBounds)"

definition strlen :: "char list \<Rightarrow> nat" where
  "strlen s = length (takeWhile (\<lambda>c. c \<noteq> NUL) s)"

definition memcpy_from :: "char list \<Rightarrow> nat \<Rightarrow> char list res" where
  "memcpy_from s n = (if n \<le> Suc (length s) then Inr (take n (s @ [NUL])) else Inl OutOfBounds)"

text \<open>\<open>strncpy(d, s + i, n)\<close>: at most \<open>n\<close> bytes up to the first NUL, padded with NULs.\<close>

definition strncpy_from :: "char list \<Rightarrow> nat \<Rightarrow> nat \<Rightarrow> char list res" where
  "strncpy_from s i n =
     (if i \<le> length s then
        let t = take n (takeWhile (\<lambda>c. c \<noteq> NUL) (drop i s)) in Inr (t @ replicate (n - length t) NUL)
      else Inl OutOfBounds)"

definition nul_free :: "char list \<Rightarrow> bool" where
  "nul_free s \<longleftrightarrow> NUL \<notin> set s"

lemma takeWhile_nul_free [simp]: "nul_free s \<Longrightarrow> takeWhile (\<lambda>c. c \<noteq> NUL) s = s"
  by (auto simp: nul_free_def takeWhile_eq_all_conv)

lemma strlen_nul_free [simp]: "nul_free s \<Longrightarrow> strlen s = length s"
  by (simp add: strlen_def)

lemma strlen_le: "strlen s \<le> length s"
  by (simp add: strlen_def length_takeWhile_le)

lemma nul_free_append [simp]: "nul_free (s @ t) \<longleftrightarrow> nul_free s \<and> nul_free t"
  by (auto simp: nul_free_def)

lemma nul_free_Nil [simp]: "nul_free []"
  by (simp add: nul_free_def)

lemma nul_free_Cons [simp]: "nul_free (c # s) \<longleftrightarrow> c \<noteq> NUL \<and> nul_free s"
  by (auto simp: nul_free_def)

lemma nul_free_take [intro]: "nul_free s \<Longrightarrow> nul_free (take n s)"
  by (auto simp: nul_free_def dest: in_set_takeD)

lemma nul_free_drop [intro]: "nul_free s \<Longrightarrow> nul_free (drop n s)"
  by (auto simp: nul_free_def dest: in_set_dropD)

lemma nul_free_nth: "nul_free s \<Longrightarrow> k < length s \<Longrightarrow> s ! k \<noteq> NUL"
  by (metis nul_free_def nth_mem)

lemma c_char_less [simp]: "k < length s \<Longrightarrow> c_char s k = Inr (s ! k)"
  by (simp add: c_char_def)

lemma memcpy_from_le [simp]: "n \<le> length s \<Longrightarrow> memcpy_from s n = Inr (take n s)"
  by (simp add: memcpy_from_def)

lemma strncpy_from_in [simp]:
  "nul_free s \<Longrightarrow> i + n \<le> length s \<Longrightarrow> strncpy_from s i n = Inr (take n (drop i s))"
  by (simp add: strncpy_from_def nul_free_drop Let_def)

section \<open>Machine integers\<close>

text \<open>
  \<open>size_t\<close> and \<open>unsigned long\<close> have 64 bits, \<open>int\<close> has 32. Lengths and indices are \<open>nat\<close>;
  where the source wraps or truncates, these conversions write it out.
\<close>

definition size_max :: nat where
  "size_max = 2 ^ 64"

definition size_add :: "nat \<Rightarrow> nat \<Rightarrow> nat" where
  "size_add a b = (a + b) mod size_max"

lemma size_add_small [simp]: "a + b < 2 ^ 64 \<Longrightarrow> size_add a b = a + b"
  by (simp add: size_add_def size_max_def)

definition int_of_size :: "nat \<Rightarrow> int" where
  "int_of_size n = (int n + 2 ^ 31) mod 2 ^ 32 - 2 ^ 31"

definition size_of_int :: "int \<Rightarrow> nat" where
  "size_of_int i = nat (i mod 2 ^ 64)"

definition long_of_size :: "nat \<Rightarrow> int" where
  "long_of_size n = (int n + 2 ^ 63) mod 2 ^ 64 - 2 ^ 63"

lemma int_of_size_small [simp]: "n < 2 ^ 31 \<Longrightarrow> int_of_size n = int n"
  by (simp add: int_of_size_def)

lemma size_of_int_nat [simp]: "0 \<le> i \<Longrightarrow> i < 2 ^ 64 \<Longrightarrow> size_of_int i = nat i"
  by (simp add: size_of_int_def)

section \<open>Lists\<close>

lemma take_drop_append_split:
  "i \<le> length xs \<Longrightarrow> length xs \<le> i + n \<Longrightarrow>
    take n (drop i (xs @ ys)) = drop i xs @ take (n - (length xs - i)) ys"
  by simp

lemma map_upt_drop: "i \<le> n \<Longrightarrow> drop i (map f [0..<n]) = map f [i..<n]"
  by (simp add: drop_map)

lemma take_drop_map_upt:
  "i + n \<le> m \<Longrightarrow> take n (drop i (map f [0..<m])) = map (\<lambda>j. f (i + j)) [0..<n]"
  by (rule nth_equalityI) simp_all

end
