(* ===== verification/Cord_Rep.thy ===== *)
theory Cord_Rep
  imports Prelude
begin

text \<open>
  The representation of cords of \<^verbatim>\<open>libs/gc/cord/cordbscs.c\<close>: the node types, the
  accessor macros, the representation invariant, and the string a cord stands for.

  A \<open>CORD\<close> is a \<open>const char *\<close>: null is the empty cord, a pointer to a non-NUL byte is a
  C string, and a pointer to a NUL byte is a node whose second byte says what it is. Nodes
  are never modified once built, so a pointer is modelled by the tree it points to.
\<close>

section \<open>Nodes\<close>

datatype fn_header = FN_HDR | SUBSTR_HDR

text \<open>
  \<open>Str s\<close> is a C string. \<open>Conc depth left_len len left right\<close> is \<open>struct Concatenation\<close>.
  \<open>Fnode header len f\<close> is \<open>struct Function\<close>, with \<open>f\<close> its function pointer and client
  data: \<open>ClientFn g\<close> a client's function closed over its data (which must be pure, as
  \<^verbatim>\<open>cord.h\<close> asks), \<open>IndexAccess x k\<close> and \<open>ApplyAccess x k\<close> the two access functions with
  their \<open>struct substr_args\<close>.
\<close>

datatype node =
    Str "char list"
  | Conc nat nat nat node node
  | Fnode fn_header nat cord_fn
and cord_fn =
    ClientFn "nat \<Rightarrow> char"
  | IndexAccess node nat
  | ApplyAccess node nat

type_synonym CORD = "node option"

definition MAX_DEPTH :: nat where
  "MAX_DEPTH = 48"

definition MAX_LEFT_LEN :: nat where
  "MAX_LEFT_LEN = 255"

text \<open>\<open>sizeof(CordRep)\<close> is 32 on the 64-bit targets: four chars, padding, a word, two pointers.\<close>

definition SHORT_LIMIT :: nat where
  "SHORT_LIMIT = 31"

definition SUBSTR_LIMIT :: nat where
  "SUBSTR_LIMIT = 10 * SHORT_LIMIT"

fun IS_STRING :: "node \<Rightarrow> bool" where
  "IS_STRING (Str _) = True"
| "IS_STRING _ = False"

fun LEN :: "node \<Rightarrow> nat" where
  "LEN (Conc _ _ n _ _) = n"
| "LEN (Fnode _ n _) = n"
| "LEN (Str s) = strlen s"

fun DEPTH :: "node \<Rightarrow> nat" where
  "DEPTH (Conc d _ _ _ _) = d"
| "DEPTH (Fnode _ _ _) = 0"
| "DEPTH (Str s) = 0"

definition GEN_LEN :: "node \<Rightarrow> nat" where
  "GEN_LEN x = (case x of Str s \<Rightarrow> strlen s | _ \<Rightarrow> LEN x)"

definition LEFT_LEN :: "nat \<Rightarrow> nat \<Rightarrow> node \<Rightarrow> node \<Rightarrow> nat" where
  "LEFT_LEN left_len len left right =
     (if left_len \<noteq> 0 then left_len
      else if IS_STRING left then len - GEN_LEN right
      else LEN left)"

definition CORD_len :: "CORD \<Rightarrow> nat" where
  "CORD_len x = (case x of None \<Rightarrow> 0 | Some n \<Rightarrow> GEN_LEN n)"

section \<open>Function nodes\<close>

fun CORD_index_access_fn :: "nat \<Rightarrow> node \<Rightarrow> nat \<Rightarrow> char res" where
  "CORD_index_access_fn i (Str s) sa_index = c_char s (i + sa_index)"
| "CORD_index_access_fn i _ sa_index = Inl BadNode"

text \<open>
  \<open>call_fn f i\<close> is the call \<open>(*(f -> fn))(i, f -> client_data)\<close>; its last equations are
  \<open>CORD_apply_access_fn\<close>.
\<close>

fun call_fn :: "cord_fn \<Rightarrow> nat \<Rightarrow> char res" where
  "call_fn (ClientFn g) i = Inr (g i)"
| "call_fn (IndexAccess x k) i = CORD_index_access_fn i x k"
| "call_fn (ApplyAccess (Fnode h n f) k) i = call_fn f (i + k)"
| "call_fn (ApplyAccess _ k) i = Inl BadNode"

fun from_fn_buf :: "cord_fn \<Rightarrow> nat \<Rightarrow> nat \<Rightarrow> char list option res" where
  "from_fn_buf f i 0 = Inr (Some [])"
| "from_fn_buf f i (Suc k) =
     rbind (call_fn f i) (\<lambda>c.
       if c = NUL then Inr None
       else rbind (from_fn_buf f (Suc i) k) (\<lambda>buf. Inr (map_option ((#) c) buf)))"

definition CORD_from_fn :: "cord_fn \<Rightarrow> nat \<Rightarrow> CORD res" where
  "CORD_from_fn f len =
     (if len \<le> 0 then Inr None
      else if len \<le> SHORT_LIMIT then
        rbind (from_fn_buf f 0 len) (\<lambda>buf.
          case buf of
            Some s \<Rightarrow> Inr (Some (Str s))
          | None \<Rightarrow> Inr (Some (Fnode FN_HDR len f)))
      else Inr (Some (Fnode FN_HDR len f)))"

section \<open>Invariant and abstraction\<close>

fun wf_node :: "node \<Rightarrow> bool" and wf_fn :: "fn_header \<Rightarrow> nat \<Rightarrow> cord_fn \<Rightarrow> bool" where
  "wf_node (Str s) \<longleftrightarrow> s \<noteq> [] \<and> nul_free s"
| "wf_node (Conc d ll n l r) \<longleftrightarrow>
     wf_node l \<and> wf_node r \<and> n = LEN l + LEN r \<and> d = Suc (max (DEPTH l) (DEPTH r)) \<and>
     ll = (if LEN l \<le> MAX_LEFT_LEN then LEN l else 0)"
| "wf_node (Fnode h n f) \<longleftrightarrow> 0 < n \<and> wf_fn h n f"
| "wf_fn h n (ClientFn g) \<longleftrightarrow> h = FN_HDR"
| "wf_fn h n (IndexAccess x k) \<longleftrightarrow> h = SUBSTR_HDR \<and> wf_node x \<and> IS_STRING x \<and> n + k \<le> LEN x \<and> LEN x < size_max"
| "wf_fn h n (ApplyAccess x k) \<longleftrightarrow> h = SUBSTR_HDR \<and> wf_node x \<and> (\<exists>h' n' f'. x = Fnode h' n' f') \<and>
     n + k \<le> LEN x \<and> LEN x < size_max"

definition fn_char :: "cord_fn \<Rightarrow> nat \<Rightarrow> char" where
  "fn_char f i = (case call_fn f i of Inr c \<Rightarrow> c | Inl _ \<Rightarrow> NUL)"

fun chars :: "node \<Rightarrow> char list" where
  "chars (Str s) = s"
| "chars (Conc _ _ _ l r) = chars l @ chars r"
| "chars (Fnode _ n f) = map (fn_char f) [0..<n]"

definition wf_cord :: "CORD \<Rightarrow> bool" where
  "wf_cord x = (case x of None \<Rightarrow> True | Some n \<Rightarrow> wf_node n)"

definition cord_chars :: "CORD \<Rightarrow> char list" where
  "cord_chars x = (case x of None \<Rightarrow> [] | Some n \<Rightarrow> chars n)"

definition cord_depth :: "CORD \<Rightarrow> nat" where
  "cord_depth x = (case x of None \<Rightarrow> 0 | Some n \<Rightarrow> DEPTH n)"

lemma cord_simps [simp]:
  "wf_cord None" "wf_cord (Some n) = wf_node n"
  "cord_chars None = []" "cord_chars (Some n) = chars n"
  "cord_depth None = 0" "cord_depth (Some n) = DEPTH n"
  "CORD_len None = 0" "CORD_len (Some n) = GEN_LEN n"
  by (simp_all add: wf_cord_def cord_chars_def cord_depth_def CORD_len_def)

lemma GEN_LEN_LEN [simp]: "GEN_LEN x = LEN x"
  by (cases x) (simp_all add: GEN_LEN_def)

lemma length_chars: "wf_node x \<Longrightarrow> length (chars x) = LEN x"
  by (induction x rule: chars.induct) auto

lemma LEN_pos: "wf_node x \<Longrightarrow> 0 < LEN x"
  by (induction x rule: chars.induct) auto

lemma length_cord_chars: "wf_cord x \<Longrightarrow> length (cord_chars x) = CORD_len x"
  by (cases x) (simp_all add: length_chars)

lemma LEFT_LEN_wf [simp]:
  "wf_node (Conc d ll n l r) \<Longrightarrow> LEFT_LEN ll n l r = LEN l"
  using LEN_pos [of l] by (auto simp: LEFT_LEN_def)

lemma call_fn_wf:
  "wf_fn h n f \<Longrightarrow> i < n \<Longrightarrow> call_fn f i = Inr (fn_char f i)"
proof (induction f i arbitrary: h n rule: call_fn.induct)
  case (2 x k i)
  then show ?case by (cases x) (auto simp: fn_char_def)
next
  case (3 h' n' f k i)
  have "call_fn f (i + k) = Inr (fn_char f (i + k))"
    using "3.prems" by (intro "3.IH" [of h' n']) auto
  then show ?case by (simp add: fn_char_def)
qed (auto simp: fn_char_def)

lemma from_fn_buf_wf:
  "wf_fn h n f \<Longrightarrow> i + k \<le> n \<Longrightarrow>
    from_fn_buf f i k =
      Inr (if nul_free (map (fn_char f) [i..<i + k]) then Some (map (fn_char f) [i..<i + k]) else None)"
proof (induction k arbitrary: i)
  case (Suc k)
  from Suc.prems have "call_fn f i = Inr (fn_char f i)"
    by (intro call_fn_wf [of h n]) auto
  moreover have "[i..<i + Suc k] = i # [Suc i..<Suc i + k]"
    by (simp add: upt_conv_Cons)
  ultimately show ?case
    using Suc.IH [of "Suc i"] Suc.prems by simp
qed simp

lemma fn_char_chars: "wf_node (Fnode h n f) \<Longrightarrow> i < n \<Longrightarrow> call_fn f i = Inr (chars (Fnode h n f) ! i)"
  by (simp add: call_fn_wf)

lemma CORD_from_fn_spec:
  assumes "wf_fn FN_HDR n f"
  shows "\<exists>x. CORD_from_fn f n = Inr x \<and> wf_cord x \<and> cord_chars x = map (fn_char f) [0..<n]"
  using assms from_fn_buf_wf [OF assms, of 0 n] by (simp add: CORD_from_fn_def)

end
