(* ===== verification/Cord_Cat.thy ===== *)
theory Cord_Cat
  imports Cord_Rep
begin

text \<open>
  Concatenation (\<open>CORD_cat\<close>, \<open>CORD_cat_char_star\<close>) and balancing (\<open>CORD_balance\<close> and the
  forest it builds) of \<^verbatim>\<open>libs/gc/cord/cordbscs.c\<close>.

  The two are mutually recursive: a concatenation deeper than \<open>MAX_DEPTH\<close> is balanced,
  and balancing concatenates. Each side is written with the other as a parameter, the
  recursion is closed with fuel, and the lemmas show that one level of it is enough.
\<close>

section \<open>Concatenation over a balancing function\<close>

text \<open>The code shared by the ends of \<open>CORD_cat\<close> and \<open>CORD_cat_char_star\<close>.\<close>

definition mk_concat :: "(CORD \<Rightarrow> CORD res) \<Rightarrow> nat \<Rightarrow> nat \<Rightarrow> nat \<Rightarrow> node \<Rightarrow> node \<Rightarrow> CORD res" where
  "mk_concat bal depth lenx result_len x y =
     (let result = Conc depth (if lenx \<le> MAX_LEFT_LEN then lenx else 0) result_len x y
      in if depth \<ge> MAX_DEPTH then bal (Some result) else Inr (Some result))"

text \<open>Length of the right part of a concatenation whose right part is a string, as the code
  computes it.\<close>

definition merge_right_len :: "nat \<Rightarrow> nat \<Rightarrow> node \<Rightarrow> char list \<Rightarrow> nat" where
  "merge_right_len lenx left_len left right =
     (if \<not> IS_STRING left then lenx - LEN left
      else if left_len \<noteq> 0 then lenx - left_len
      else strlen right)"

fun cat_char_star_body :: "(CORD \<Rightarrow> CORD res) \<Rightarrow> CORD \<Rightarrow> char list \<Rightarrow> nat \<Rightarrow> CORD res" where
  "cat_char_star_body bal None y leny = Inr (Some (Str y))"
| "cat_char_star_body bal (Some (Str s)) y leny =
     (if leny = 0 then Inr (Some (Str s))
      else let lenx = strlen s; result_len = lenx + leny
        in if result_len \<le> SHORT_LIMIT then
             rbind (memcpy_from s lenx) (\<lambda>a. rbind (memcpy_from y leny) (\<lambda>b. Inr (Some (Str (a @ b)))))
           else mk_concat bal 1 lenx result_len (Str s) (Str y))"
| "cat_char_star_body bal (Some (Conc d ll n left (Str right))) y leny =
     (if leny = 0 then Inr (Some (Conc d ll n left (Str right)))
      else let lenx = n; right_len = merge_right_len lenx ll left right
        in if leny \<le> SHORT_LIMIT div 2 \<and> right_len + leny \<le> SHORT_LIMIT then
             rbind (memcpy_from right right_len) (\<lambda>a. rbind (memcpy_from y leny) (\<lambda>b.
               let y' = a @ b; leny' = right_len + leny; lenx' = lenx - right_len
               in mk_concat bal (if IS_STRING left then 1 else DEPTH left + 1)
                    lenx' (lenx' + leny') left (Str y')))
           else mk_concat bal (d + 1) lenx (lenx + leny) (Conc d ll n left (Str right)) (Str y))"
| "cat_char_star_body bal (Some x) y leny =
     (if leny = 0 then Inr (Some x)
      else mk_concat bal (DEPTH x + 1) (LEN x) (LEN x + leny) x (Str y))"

fun cat_body :: "(CORD \<Rightarrow> CORD res) \<Rightarrow> CORD \<Rightarrow> CORD \<Rightarrow> CORD res" where
  "cat_body bal None y = Inr y"
| "cat_body bal x None = Inr x"
| "cat_body bal x (Some (Str y)) = cat_char_star_body bal x y (strlen y)"
| "cat_body bal (Some (Str s)) (Some y) =
     mk_concat bal (DEPTH y + 1) (strlen s) (strlen s + LEN y) (Str s) y"
| "cat_body bal (Some x) (Some y) =
     (let depth = (if DEPTH y \<ge> DEPTH x + 1 then DEPTH y + 1 else DEPTH x + 1)
      in mk_concat bal depth (LEN x) (LEN x + LEN y) x y)"

section \<open>Minimal lengths of balanced cords\<close>

text \<open>
  \<open>CORD_init_min_len\<close> fills the static table \<open>min_len\<close> and the \<open>int\<close> variable
  \<open>CORD_max_len\<close>; the loop state is (last, previous, table so far), with \<open>last\<close> named \<open>latest\<close>.
\<close>

function init_min_len_loop :: "nat \<Rightarrow> nat \<Rightarrow> nat \<Rightarrow> nat list \<Rightarrow> nat \<times> nat list" where
  "init_min_len_loop i latest previous tab =
     (if i < MAX_DEPTH then
        let current = (latest + previous) mod size_max;
            current = (if current < latest then latest else current)
        in init_min_len_loop (Suc i) current latest (tab @ [current])
      else (latest, tab))"
  by pat_completeness auto
termination
  by (relation "measure (\<lambda>(i, _, _, _). MAX_DEPTH - i)") auto

definition CORD_init_min_len :: "nat list \<times> int" where
  "CORD_init_min_len =
     (let (latest, tab) = init_min_len_loop 2 2 1 [1, 2]
      in (tab, int_of_size (latest - 1)))"

definition min_len :: "nat list" where
  "min_len = fst CORD_init_min_len"

section \<open>The forest\<close>

text \<open>
  A stack-allocated array of \<open>MAX_DEPTH\<close> elements, whose fields are not initialised until
  they are written: \<open>None\<close> is a field never written.
\<close>

record forest_element =
  fe_c :: "CORD option"
  fe_len :: "nat option"

type_synonym forest = "forest_element list"

definition forest_c :: "forest \<Rightarrow> nat \<Rightarrow> CORD res" where
  "forest_c f i =
     (if i < length f then (case fe_c (f ! i) of Some c \<Rightarrow> Inr c | None \<Rightarrow> Inl Uninitialised)
      else Inl OutOfBounds)"

definition forest_len :: "forest \<Rightarrow> nat \<Rightarrow> nat res" where
  "forest_len f i =
     (if i < length f then (case fe_len (f ! i) of Some n \<Rightarrow> Inr n | None \<Rightarrow> Inl Uninitialised)
      else Inl OutOfBounds)"

definition set_forest_c :: "forest \<Rightarrow> nat \<Rightarrow> CORD \<Rightarrow> forest" where
  "set_forest_c f i c = f[i := (f ! i)\<lparr>fe_c := Some c\<rparr>]"

definition set_forest_len :: "forest \<Rightarrow> nat \<Rightarrow> nat \<Rightarrow> forest" where
  "set_forest_len f i n = f[i := (f ! i)\<lparr>fe_len := Some n\<rparr>]"

definition min_len_at :: "nat \<Rightarrow> nat res" where
  "min_len_at i = (if i < MAX_DEPTH then Inr (min_len ! i) else Inl OutOfBounds)"

definition fresh_forest :: forest where
  "fresh_forest = replicate MAX_DEPTH \<lparr>fe_c = None, fe_len = None\<rparr>"

function init_forest_loop :: "nat \<Rightarrow> nat \<Rightarrow> forest \<Rightarrow> forest res" where
  "init_forest_loop i max_len f =
     (if i < MAX_DEPTH then
        let f = set_forest_c f i None
        in if min_len ! i > max_len then Inr f else init_forest_loop (Suc i) max_len f
      else Inl (Abort ''Cord too long''))"
  by pat_completeness auto
termination
  by (relation "measure (\<lambda>(i, _, _). MAX_DEPTH - i)") auto

definition CORD_init_forest :: "forest \<Rightarrow> nat \<Rightarrow> forest res" where
  "CORD_init_forest f max_len = init_forest_loop 0 max_len f"

text \<open>The body shared by the loops: fold tree \<open>i\<close> of the forest into the
  accumulated cord (\<open>sum\<close> in the source), and clear its slot.\<close>

definition absorb :: "(CORD \<Rightarrow> CORD \<Rightarrow> CORD res) \<Rightarrow> forest \<Rightarrow> nat \<Rightarrow> CORD \<Rightarrow> nat \<Rightarrow> (forest \<times> CORD \<times> nat) res" where
  "absorb cat f i acc acc_len =
     rbind (forest_c f i) (\<lambda>c.
       if c \<noteq> None then
         rbind (cat c acc) (\<lambda>acc'. rbind (forest_len f i) (\<lambda>n.
           Inr (set_forest_c f i None, acc', acc_len + n)))
       else Inr (f, acc, acc_len))"

function add_forest_low :: "(CORD \<Rightarrow> CORD \<Rightarrow> CORD res) \<Rightarrow> forest \<Rightarrow> nat \<Rightarrow> nat \<Rightarrow> CORD \<Rightarrow> nat
    \<Rightarrow> (forest \<times> nat \<times> CORD \<times> nat) res" where
  "add_forest_low cat f len i acc acc_len =
     (if i + 1 < MAX_DEPTH then
        if len > min_len ! (i + 1) then
          rbind (absorb cat f i acc acc_len) (\<lambda>(f, acc, acc_len).
            add_forest_low cat f len (Suc i) acc acc_len)
        else Inr (f, i, acc, acc_len)
      else Inl OutOfBounds)"
  by pat_completeness auto
termination
  by (relation "measure (\<lambda>(_, _, _, i, _, _). MAX_DEPTH - i)") auto

function add_forest_high :: "(CORD \<Rightarrow> CORD \<Rightarrow> CORD res) \<Rightarrow> forest \<Rightarrow> nat \<Rightarrow> CORD \<Rightarrow> nat
    \<Rightarrow> (forest \<times> nat \<times> CORD \<times> nat) res" where
  "add_forest_high cat f i acc acc_len =
     (if i < MAX_DEPTH then
        if acc_len \<ge> min_len ! i then
          rbind (absorb cat f i acc acc_len) (\<lambda>(f, acc, acc_len).
            add_forest_high cat f (Suc i) acc acc_len)
        else Inr (f, i, acc, acc_len)
      else Inl OutOfBounds)"
  by pat_completeness auto
termination
  by (relation "measure (\<lambda>(_, _, i, _, _). MAX_DEPTH - i)") auto

definition CORD_add_forest :: "(CORD \<Rightarrow> CORD \<Rightarrow> CORD res) \<Rightarrow> forest \<Rightarrow> node \<Rightarrow> nat \<Rightarrow> forest res" where
  "CORD_add_forest cat f x len =
     rbind (add_forest_low cat f len 0 None 0) (\<lambda>(f, i, acc, acc_len).
     rbind (cat acc (Some x)) (\<lambda>acc.
     rbind (add_forest_high cat f i acc (acc_len + len)) (\<lambda>(f, i, acc, acc_len).
       if i = 0 then Inl OutOfBounds
       else Inr (set_forest_len (set_forest_c f (i - 1) acc) (i - 1) acc_len))))"

function concat_forest_loop :: "(CORD \<Rightarrow> CORD \<Rightarrow> CORD res) \<Rightarrow> forest \<Rightarrow> nat \<Rightarrow> nat \<Rightarrow> CORD \<Rightarrow> nat \<Rightarrow> CORD res" where
  "concat_forest_loop cat f expected_len i acc acc_len =
     (if acc_len \<noteq> expected_len then
        if i < MAX_DEPTH then
          rbind (absorb cat f i acc acc_len) (\<lambda>(_, acc, acc_len).
            concat_forest_loop cat f expected_len (Suc i) acc acc_len)
        else Inl OutOfBounds
      else Inr acc)"
  by pat_completeness auto
termination
  by (relation "measure (\<lambda>(_, _, _, i, _, _). MAX_DEPTH - i)") auto

definition CORD_concat_forest :: "(CORD \<Rightarrow> CORD \<Rightarrow> CORD res) \<Rightarrow> forest \<Rightarrow> nat \<Rightarrow> CORD res" where
  "CORD_concat_forest cat f expected_len = concat_forest_loop cat f expected_len 0 None 0"

fun CORD_balance_insert :: "(CORD \<Rightarrow> CORD \<Rightarrow> CORD res) \<Rightarrow> node \<Rightarrow> nat \<Rightarrow> forest \<Rightarrow> forest res" where
  "CORD_balance_insert cat (Str s) len f = CORD_add_forest cat f (Str s) len"
| "CORD_balance_insert cat (Conc d ll n l r) len f =
     (if d \<ge> MAX_DEPTH \<or> len < min_len ! d then
        let left_len = LEFT_LEN ll n l r
        in rbind (CORD_balance_insert cat l left_len f) (\<lambda>f.
             CORD_balance_insert cat r (len - left_len) f)
      else CORD_add_forest cat f (Conc d ll n l r) len)"
| "CORD_balance_insert cat (Fnode h n g) len f = CORD_add_forest cat f (Fnode h n g) len"

fun balance_body :: "(CORD \<Rightarrow> CORD \<Rightarrow> CORD res) \<Rightarrow> CORD \<Rightarrow> CORD res" where
  "balance_body cat None = Inr None"
| "balance_body cat (Some (Str s)) = Inr (Some (Str s))"
| "balance_body cat (Some x) =
     (let len = LEN x
      in rbind (CORD_init_forest fresh_forest len) (\<lambda>f.
         rbind (CORD_balance_insert cat x len f) (\<lambda>f.
           CORD_concat_forest cat f len)))"

section \<open>Closing the recursion\<close>

primrec CORD_cat_fuel :: "nat \<Rightarrow> CORD \<Rightarrow> CORD \<Rightarrow> CORD res" where
  "CORD_cat_fuel 0 = (\<lambda>x y. Inl OutOfFuel)"
| "CORD_cat_fuel (Suc k) = cat_body (balance_body (CORD_cat_fuel k))"

text \<open>The fuel: a concatenation may balance once, and the balancing may concatenate.\<close>

definition cord_fuel :: nat where
  "cord_fuel = 2"

definition CORD_cat :: "CORD \<Rightarrow> CORD \<Rightarrow> CORD res" where
  "CORD_cat = CORD_cat_fuel cord_fuel"

definition CORD_balance :: "CORD \<Rightarrow> CORD res" where
  "CORD_balance = balance_body (CORD_cat_fuel cord_fuel)"

definition CORD_cat_char_star :: "CORD \<Rightarrow> char list \<Rightarrow> nat \<Rightarrow> CORD res" where
  "CORD_cat_char_star = cat_char_star_body CORD_balance"

declare init_min_len_loop.simps [simp del] init_forest_loop.simps [simp del]
  add_forest_low.simps [simp del] add_forest_high.simps [simp del]
  concat_forest_loop.simps [simp del]

end
