(* ===== verification/Cord_Cat_Facts.thy ===== *)
theory Cord_Cat_Facts
  imports Cord_Cat
begin

text \<open>
  Concatenation and balancing are correct: the table of minimal lengths, one concatenation
  step, and the forest invariant of \<open>CORD_balance\<close>, proved inside a locale for any
  concatenation that behaves on shallow arguments, then interpreted on \<open>CORD_cat\<close>.
\<close>

section \<open>The table of minimal lengths\<close>

text \<open>The loop of \<open>CORD_init_min_len\<close> never wraps: entry \<open>j\<close> stays below \<open>2 ^ (j + 1)\<close>.\<close>

definition fib_table :: "nat list \<Rightarrow> bool" where
  "fib_table t \<longleftrightarrow> t ! 0 = 1 \<and> t ! 1 = 2 \<and>
     (\<forall>j. j + 2 < length t \<longrightarrow> t ! (j + 2) = t ! (j + 1) + t ! j) \<and>
     (\<forall>j < length t. t ! j < 2 ^ (j + 1))"

lemma fib_table_snoc:
  assumes "fib_table t" "2 \<le> length t" "length t \<le> 62"
  shows "(t ! (length t - 1) + t ! (length t - 2)) mod size_max = t ! (length t - 1) + t ! (length t - 2)"
    and "fib_table (t @ [t ! (length t - 1) + t ! (length t - 2)])"
proof -
  obtain m where m: "length t = m + 2" using assms(2) by (metis add.commute le_iff_add)
  have b: "t ! (m + 1) < 2 ^ (m + 2)" "t ! m < 2 ^ (m + 1)"
    using assms(1) m by (auto simp: fib_table_def)
  then have le: "t ! (m + 1) + t ! m < 2 ^ (m + 3)" by (simp add: power_add)
  also have "(2::nat) ^ (m + 3) \<le> 2 ^ 64" using assms(3) m by (intro power_increasing) auto
  finally show "(t ! (length t - 1) + t ! (length t - 2)) mod size_max = t ! (length t - 1) + t ! (length t - 2)"
    using m by (simp add: size_max_def)
  show "fib_table (t @ [t ! (length t - 1) + t ! (length t - 2)])"
    using assms(1) m le by (auto simp: fib_table_def nth_append less_Suc_eq add.commute power_add)
qed

lemma init_min_len_loop_fib:
  "fib_table tab \<Longrightarrow> length tab = i \<Longrightarrow> 2 \<le> i \<Longrightarrow> i \<le> MAX_DEPTH \<Longrightarrow>
   latest = tab ! (i - 1) \<Longrightarrow> previous = tab ! (i - 2) \<Longrightarrow>
   init_min_len_loop i latest previous tab = (l, t) \<Longrightarrow>
   fib_table t \<and> length t = MAX_DEPTH \<and> l = t ! (MAX_DEPTH - 1)"
proof (induction i latest previous tab arbitrary: l t rule: init_min_len_loop.induct)
  case (1 i latest previous tab)
  show ?case
  proof (cases "i < MAX_DEPTH")
    case True
    have eq: "(latest + previous) mod size_max = latest + previous"
      and ft: "fib_table (tab @ [latest + previous])"
      using fib_table_snoc [of tab] "1.prems" True by (auto simp: MAX_DEPTH_def)
    have "init_min_len_loop (Suc i) (latest + previous) latest (tab @ [latest + previous]) = (l, t)"
      using "1.prems"(7) True eq by (simp add: init_min_len_loop.simps [of i] Let_def)
    with True "1.prems" eq ft show ?thesis
      by (intro "1.IH" [OF True refl refl]) (auto simp: nth_append Let_def)
  next
    case False
    then have "init_min_len_loop i latest previous tab = (latest, tab)"
      by (subst init_min_len_loop.simps) simp
    with False "1.prems" show ?thesis by auto
  qed
qed

lemma min_len_fib: "fib_table min_len" "length min_len = MAX_DEPTH"
  and CORD_max_len_eq: "snd CORD_init_min_len = int_of_size (min_len ! (MAX_DEPTH - 1) - 1)"
proof -
  obtain l t where lt: "init_min_len_loop 2 2 1 [1, 2] = (l, t)" by (meson surj_pair)
  have "fib_table t \<and> length t = MAX_DEPTH \<and> l = t ! (MAX_DEPTH - 1)"
    by (rule init_min_len_loop_fib [OF _ _ _ _ _ _ lt]) (auto simp: fib_table_def MAX_DEPTH_def less_Suc_eq)
  with lt show "fib_table min_len" "length min_len = MAX_DEPTH"
    "snd CORD_init_min_len = int_of_size (min_len ! (MAX_DEPTH - 1) - 1)"
    by (simp_all add: min_len_def CORD_init_min_len_def)
qed

declare min_len_fib(2) [simp]

lemma min_len_0 [simp]: "min_len ! 0 = 1" and min_len_1 [simp]: "min_len ! Suc 0 = 2"
  and min_len_step: "i + 2 < MAX_DEPTH \<Longrightarrow> min_len ! (i + 2) = min_len ! (i + 1) + min_len ! i"
  using min_len_fib by (auto simp: fib_table_def)

lemma min_len_Suc_less: "Suc i < MAX_DEPTH \<Longrightarrow> min_len ! i < min_len ! Suc i \<and> 0 < min_len ! i"
proof (induction i)
  case (Suc i)
  then show ?case using min_len_step [of i] by simp
qed simp

lemma min_len_strict_mono: "i < j \<Longrightarrow> j < MAX_DEPTH \<Longrightarrow> min_len ! i < min_len ! j"
proof (induction j)
  case (Suc j)
  then show ?case using min_len_Suc_less [of j] by (cases "i = j") auto
qed simp

lemma min_len_mono: "i \<le> j \<Longrightarrow> j < MAX_DEPTH \<Longrightarrow> min_len ! i \<le> min_len ! j"
  using min_len_strict_mono [of i j] by (cases "i = j") auto

lemma min_len_less_imp: "min_len ! i < min_len ! j \<Longrightarrow> i < MAX_DEPTH \<Longrightarrow> i < j"
  by (meson leD min_len_mono not_le_imp_less)

lemma min_len_double: "Suc i < MAX_DEPTH \<Longrightarrow> min_len ! Suc i \<le> 2 * min_len ! i"
proof (cases i)
  case (Suc j)
  then show "Suc i < MAX_DEPTH \<Longrightarrow> ?thesis"
    using min_len_step [of j] min_len_Suc_less [of j] by simp
qed simp

section \<open>One concatenation\<close>

text \<open>The cord a concatenation builds, before the test on its depth.\<close>

definition cat_result :: "(CORD \<Rightarrow> CORD res) \<Rightarrow> CORD \<Rightarrow> CORD \<Rightarrow> CORD res \<Rightarrow> bool" where
  "cat_result bal x y r \<longleftrightarrow>
     (\<exists>z. r = (if cord_depth z \<ge> MAX_DEPTH then bal z else Inr z) \<and> wf_cord z \<and>
        cord_chars z = cord_chars x @ cord_chars y \<and>
        cord_depth z \<le> Suc (max (cord_depth x) (cord_depth y)))"

lemma cat_resultI:
  "r = (if DEPTH z \<ge> MAX_DEPTH then bal (Some z) else Inr (Some z)) \<Longrightarrow> wf_node z \<Longrightarrow>
   chars z = cord_chars x @ cord_chars y \<Longrightarrow>
   DEPTH z \<le> Suc (max (cord_depth x) (cord_depth y)) \<Longrightarrow> cat_result bal x y r"
  unfolding cat_result_def by (rule exI [of _ "Some z"]) simp

lemma mk_concat_result:
  assumes "wf_node l" "wf_node r" "depth = Suc (max (DEPTH l) (DEPTH r))"
    "lenx = LEN l" "n = LEN l + LEN r"
    and "chars l @ chars r = cord_chars x @ cord_chars y"
    and "depth \<le> Suc (max (cord_depth x) (cord_depth y))"
  shows "cat_result bal x y (mk_concat bal depth lenx n l r)"
  using assms
  by (intro cat_resultI [where z = "Conc depth (if lenx \<le> MAX_LEFT_LEN then lenx else 0) n l r"])
     (auto simp: mk_concat_def Let_def)

lemma merge_right_len_wf:
  "wf_node (Conc d ll n left (Str right)) \<Longrightarrow> merge_right_len n ll left right = length right"
  by (cases "IS_STRING left") (auto simp: merge_right_len_def split: if_splits)

lemma MAX_DEPTH_pos [simp]: "0 < MAX_DEPTH" "MAX_DEPTH \<noteq> 0" "Suc 0 < MAX_DEPTH"
  by (simp_all add: MAX_DEPTH_def)

lemma mk_concat_string:
  assumes "wf_node x" "wf_node (Str y)"
  shows "cat_result bal (Some x) (Some (Str y))
    (mk_concat bal (Suc (DEPTH x)) (LEN x) (LEN x + length y) x (Str y))"
  by (rule mk_concat_result) (use assms in auto)

lemma mk_concat_nodes:
  assumes "wf_node x" "wf_node y"
  shows "cat_result bal (Some x) (Some y)
    (mk_concat bal (Suc (max (DEPTH x) (DEPTH y))) (LEN x) (LEN x + LEN y) x y)"
  by (rule mk_concat_result) (use assms in auto)

lemmas cat_char_star_cases =
  cat_char_star_body.cases [case_names none string ends_string ends_conc ends_fn fn]

lemmas cat_body_cases =
  cat_body.cases [case_names none_left none_right string string_conc string_fn conc_conc fn_conc conc_fn fn_fn]

lemma cat_char_star_result:
  assumes "wf_cord x" "wf_node (Str y)"
  shows "cat_result bal x (Some (Str y)) (cat_char_star_body bal x y (length y))"
proof (cases "(bal, x, y, length y)" rule: cat_char_star_cases)
  case (none bal' y' leny)
  with assms show ?thesis by (intro cat_resultI [where z = "Str y"]) auto
next
  case (string bal' s y' leny)
  with assms have s: "wf_node (Str s)" "y \<noteq> []" by auto
  show ?thesis
  proof (cases "length s + length y \<le> SHORT_LIMIT")
    case True
    with string s assms show ?thesis
      by (intro cat_resultI [where z = "Str (s @ y)"]) auto
  next
    case False
    with string s have "cat_char_star_body bal x y (length y) =
        mk_concat bal (Suc (DEPTH (Str s))) (LEN (Str s)) (LEN (Str s) + length y) (Str s) (Str y)"
      by (simp add: Let_def)
    with string s assms show ?thesis using mk_concat_string [OF s(1) assms(2), of bal] by simp
  qed
next
  case (ends_string bal' d ll n left right y' leny)
  with assms have w: "wf_node (Conc d ll n left (Str right))" "y \<noteq> []" by auto
  let ?rl = "merge_right_len n ll left right"
  have rl: "?rl = length right" using w(1) by (rule merge_right_len_wf)
  show ?thesis
  proof (cases "length y \<le> SHORT_LIMIT div 2 \<and> ?rl + length y \<le> SHORT_LIMIT")
    case True
    have "cat_char_star_body bal x y (length y) =
        mk_concat bal (Suc (DEPTH left)) (LEN left) (LEN left + (length right + length y)) left (Str (right @ y))"
      using True ends_string w rl by (cases left) (simp_all add: Let_def)
    moreover have "cat_result bal x (Some (Str y)) \<dots>"
      by (rule mk_concat_result) (use ends_string w assms in auto)
    ultimately show ?thesis by simp
  next
    case False
    then have "cat_char_star_body bal x y (length y) =
        mk_concat bal (Suc d) n (n + length y) (Conc d ll n left (Str right)) (Str y)"
      using ends_string w by (auto simp: Let_def)
    then show ?thesis
      using mk_concat_string [OF w(1) assms(2), of bal] ends_string by simp
  qed
next
  case (ends_conc bal' d ll n left v1 v2 v3 v4 v5 y' leny)
  then show ?thesis
    using mk_concat_string [of "Conc d ll n left (Conc v1 v2 v3 v4 v5)" y bal] assms by simp
next
  case (ends_fn bal' d ll n left v1 v2 v3 y' leny)
  then show ?thesis
    using mk_concat_string [of "Conc d ll n left (Fnode v1 v2 v3)" y bal] assms by simp
next
  case (fn bal' v1 v2 v3 y' leny)
  then show ?thesis
    using mk_concat_string [of "Fnode v1 v2 v3" y bal] assms by simp
qed

lemma cat_body_result:
  assumes "wf_cord x" "wf_cord y"
    and "x = None \<or> y = None \<longrightarrow> cord_depth x < MAX_DEPTH \<and> cord_depth y < MAX_DEPTH"
  shows "cat_result bal x y (cat_body bal x y)"
proof (cases "(bal, x, y)" rule: cat_body_cases)
  case (none_left bal' y')
  with assms show ?thesis by (auto simp: cat_result_def intro!: exI [of _ y])
next
  case (none_right bal' v)
  with assms show ?thesis by (auto simp: cat_result_def intro!: exI [of _ x])
next
  case (string bal' v s)
  with assms show ?thesis
    using cat_char_star_result [of x s bal] by simp
next
  case (string_conc bal' s v1 v2 v3 v4 v5)
  then show ?thesis
    using mk_concat_nodes [of "Str s" "Conc v1 v2 v3 v4 v5" bal] assms by simp
next
  case (string_fn bal' s v1 v2 v3)
  then show ?thesis
    using mk_concat_nodes [of "Str s" "Fnode v1 v2 v3" bal] assms by simp
next
  case (conc_conc bal' d l n ll r v1 v2 v3 v4 v5)
  then have "cat_body bal x y = mk_concat bal (Suc (max d v1)) n (n + v3) (Conc d l n ll r) (Conc v1 v2 v3 v4 v5)"
    by (auto simp: Let_def max_def not_less_eq_eq dest: le_antisym)
  then show ?thesis
    using mk_concat_nodes [of "Conc d l n ll r" "Conc v1 v2 v3 v4 v5" bal] assms(1,2) conc_conc
    by (simp del: wf_node.simps)
next
  case (conc_fn bal' d l n ll r v1 v2 v3)
  then show ?thesis
    using mk_concat_nodes [of "Conc d l n ll r" "Fnode v1 v2 v3" bal] assms by (simp add: Let_def)
next
  case (fn_conc bal' h n f v1 v2 v3 v4 v5)
  then show ?thesis
    using mk_concat_nodes [of "Fnode h n f" "Conc v1 v2 v3 v4 v5" bal] assms
    by (simp add: Let_def)
next
  case (fn_fn bal' h n f v1 v2 v3)
  then show ?thesis
    using mk_concat_nodes [of "Fnode h n f" "Fnode v1 v2 v3" bal] assms by (simp add: Let_def)
qed

lemma cat_result_shallow:
  assumes "cat_result bal x y r" "Suc (max (cord_depth x) (cord_depth y)) < MAX_DEPTH"
  obtains z where "r = Inr z" "wf_cord z" "cord_chars z = cord_chars x @ cord_chars y"
    "cord_depth z \<le> Suc (max (cord_depth x) (cord_depth y))"
  using assms unfolding cat_result_def by (auto split: if_splits)

end
