(* ===== verification/Cord_Balance.thy ===== *)
theory Cord_Balance
  imports Cord_Cat_Facts
begin

text \<open>
  Balancing is correct. The forest invariant of \<open>CORD_balance\<close> (the slots in use hold
  trees at least \<open>min_len ! i\<close> long and at most \<open>i + 1\<close> deep, the concatenation of the
  forest in decreasing order is the part scanned so far) is proved in the locale
  \<open>shallow_cat\<close> for any concatenation that works on shallow arguments, and then holds of
  \<open>CORD_cat\<close>.
\<close>

section \<open>What a forest holds\<close>

definition slot_chars :: "forest_element \<Rightarrow> char list" where
  "slot_chars e = (case fe_c e of Some (Some t) \<Rightarrow> chars t | _ \<Rightarrow> [])"

definition slot_ok :: "nat \<Rightarrow> forest_element \<Rightarrow> bool" where
  "slot_ok i e \<longleftrightarrow> fe_c e = Some None \<or>
     (\<exists>t. fe_c e = Some (Some t) \<and> wf_node t \<and> fe_len e = Some (LEN t) \<and>
        min_len ! i \<le> LEN t \<and> DEPTH t \<le> Suc i)"

definition forest_ok :: "nat \<Rightarrow> forest \<Rightarrow> bool" where
  "forest_ok m f \<longleftrightarrow> length f = MAX_DEPTH \<and> m < MAX_DEPTH \<and> (\<forall>i\<le>m. slot_ok i (f ! i))"

definition slots :: "forest \<Rightarrow> nat \<Rightarrow> nat \<Rightarrow> char list" where
  "slots f lo hi = concat (map (\<lambda>i. slot_chars (f ! i)) (rev [lo..<hi]))"

lemma slots_empty [simp]: "hi \<le> lo \<Longrightarrow> slots f lo hi = []"
  by (simp add: slots_def)

lemma slots_Suc: "lo \<le> hi \<Longrightarrow> slots f lo (Suc hi) = slot_chars (f ! hi) @ slots f lo hi"
  by (simp add: slots_def)

lemma slots_split: "lo \<le> k \<Longrightarrow> k \<le> hi \<Longrightarrow> slots f lo hi = slots f k hi @ slots f lo k"
proof -
  assume "lo \<le> k" "k \<le> hi"
  then have "[lo..<hi] = [lo..<k] @ [k..<hi]"
    by (metis le_Suc_ex upt_add_eq_append)
  then show ?thesis by (simp add: slots_def)
qed

lemma slots_cong: "(\<And>i. lo \<le> i \<Longrightarrow> i < hi \<Longrightarrow> f ! i = g ! i) \<Longrightarrow> slots f lo hi = slots g lo hi"
  by (auto simp: slots_def intro!: arg_cong [where f = concat])

lemma slots_none: "(\<And>i. lo \<le> i \<Longrightarrow> i < hi \<Longrightarrow> slot_chars (f ! i) = []) \<Longrightarrow> slots f lo hi = []"
  by (auto simp: slots_def)

lemma slots_peel: "lo < hi \<Longrightarrow> slots f lo hi = slots f (Suc lo) hi @ slot_chars (f ! lo)"
  using slots_split [of lo "Suc lo" hi f] slots_Suc [of lo lo f] by simp

section \<open>The loops, over a concatenation that works on shallow cords\<close>

locale shallow_cat =
  fixes cat :: "CORD \<Rightarrow> CORD \<Rightarrow> CORD res"
  assumes cat_shallow:
      "\<lbrakk>wf_cord x; wf_cord y; Suc (max (cord_depth x) (cord_depth y)) < MAX_DEPTH\<rbrakk> \<Longrightarrow>
        \<exists>z. cat x y = Inr z \<and> wf_cord z \<and> cord_chars z = cord_chars x @ cord_chars y \<and>
          cord_depth z \<le> Suc (max (cord_depth x) (cord_depth y))"
    and cat_empty: "cat None y = Inr y"
begin

lemma absorb_ok:
  assumes f: "forest_ok m f" "i \<le> m" and acc: "wf_cord acc"
    and d: "Suc (max (Suc i) (cord_depth acc)) < MAX_DEPTH"
  obtains f' acc' where "absorb cat f i acc (CORD_len acc) = Inr (f', acc', CORD_len acc')"
    "forest_ok m f'" "wf_cord acc'" "cord_chars acc' = slot_chars (f ! i) @ cord_chars acc"
    "slot_chars (f' ! i) = []" "\<And>j. j \<noteq> i \<Longrightarrow> f' ! j = f ! j"
    "acc' = acc \<or> min_len ! i + CORD_len acc \<le> CORD_len acc' \<and>
       cord_depth acc' \<le> Suc (max (Suc i) (cord_depth acc))"
proof -
  have i: "i < length f" "slot_ok i (f ! i)" using f by (auto simp: forest_ok_def)
  from i(2) consider (none) "fe_c (f ! i) = Some None"
    | (tree) t where "fe_c (f ! i) = Some (Some t)" "wf_node t" "fe_len (f ! i) = Some (LEN t)"
        "min_len ! i \<le> LEN t" "DEPTH t \<le> Suc i"
    by (auto simp: slot_ok_def)
  then show thesis
  proof cases
    case none
    with that [of f acc] f i show thesis
      by (simp add: absorb_def forest_c_def slot_chars_def acc)
  next
    case (tree t)
    have "Suc (max (cord_depth (Some t)) (cord_depth acc)) < MAX_DEPTH" using d tree(5) by auto
    with cat_shallow [of "Some t" acc] tree acc obtain z where z: "cat (Some t) acc = Inr z" "wf_cord z"
      "cord_chars z = chars t @ cord_chars acc" "cord_depth z \<le> Suc (max (DEPTH t) (cord_depth acc))"
      by auto
    have len: "CORD_len z = LEN t + CORD_len acc"
      using z(2,3) tree(2) acc by (simp flip: length_cord_chars length_chars)
    show thesis
    proof (rule that [of "set_forest_c f i None" z])
      show "absorb cat f i acc (CORD_len acc) = Inr (set_forest_c f i None, z, CORD_len z)"
        using i tree z len by (simp add: absorb_def forest_c_def forest_len_def)
      show "forest_ok m (set_forest_c f i None)"
        using f i by (auto simp: forest_ok_def set_forest_c_def nth_list_update slot_ok_def)
    qed (use z tree i len in \<open>auto simp: slot_chars_def set_forest_c_def\<close>)
  qed
qed

text \<open>The first loop of \<open>CORD_add_forest\<close>: the trees shorter than the new one are collected.\<close>

definition low_inv :: "nat \<Rightarrow> forest \<Rightarrow> forest \<Rightarrow> nat \<Rightarrow> CORD \<Rightarrow> bool" where
  "low_inv m f0 f i acc \<longleftrightarrow> forest_ok m f \<and> wf_cord acc \<and> cord_chars acc = slots f0 0 i \<and>
     (\<forall>j<i. slot_chars (f ! j) = []) \<and> (\<forall>j\<ge>i. f ! j = f0 ! j) \<and>
     (cord_depth acc \<le> i \<or> 0 < i \<and> cord_depth acc \<le> Suc i \<and> min_len ! (i - 1) \<le> CORD_len acc)"

lemma add_forest_low_ok:
  assumes "low_inv m f0 f i acc" "i = 0 \<or> min_len ! i < len" "len < min_len ! m" "m \<le> MAX_DEPTH - 2" "i \<le> m"
  shows "\<exists>f' i' acc'. add_forest_low cat f len i acc (CORD_len acc) = Inr (f', i', acc', CORD_len acc') \<and>
    low_inv m f0 f' i' acc' \<and> len \<le> min_len ! Suc i' \<and> (i' = 0 \<or> min_len ! i' < len)"
  using assms
proof (induction "MAX_DEPTH - i" arbitrary: i f acc)
  case 0
  then show ?case by (simp add: MAX_DEPTH_def)
next
  case (Suc k)
  have i1: "Suc i < MAX_DEPTH" using Suc.prems(4,5) by (auto simp: MAX_DEPTH_def)
  show ?case
  proof (cases "min_len ! Suc i < len")
    case True
    then have "Suc i < m"
      using min_len_less_imp [OF order.strict_trans [OF _ Suc.prems(3)] i1] by blast
    have inv: "forest_ok m f" "wf_cord acc" "cord_depth acc \<le> Suc i"
      using Suc.prems(1) by (auto simp: low_inv_def)
    have d: "Suc (max (Suc i) (cord_depth acc)) < MAX_DEPTH"
      using inv(3) \<open>Suc i < m\<close> Suc.prems(4) by auto
    from \<open>Suc i < m\<close> obtain f' acc' where a:
      "absorb cat f i acc (CORD_len acc) = Inr (f', acc', CORD_len acc')"
      "forest_ok m f'" "wf_cord acc'" "cord_chars acc' = slot_chars (f ! i) @ cord_chars acc"
      "slot_chars (f' ! i) = []" "\<And>j. j \<noteq> i \<Longrightarrow> f' ! j = f ! j"
      "acc' = acc \<or> min_len ! i + CORD_len acc \<le> CORD_len acc' \<and>
       cord_depth acc' \<le> Suc (max (Suc i) (cord_depth acc))"
      by (metis absorb_ok [OF inv(1) _ inv(2) d] Suc_lessD less_imp_le)
    have "low_inv m f0 f' (Suc i) acc'"
      using Suc.prems(1) a inv(3) by (auto simp: low_inv_def slots_Suc less_Suc_eq)
    moreover have "k = MAX_DEPTH - Suc i" using Suc.hyps(2) by linarith
    ultimately obtain f2 i2 acc2 where "add_forest_low cat f' len (Suc i) acc' (CORD_len acc') = Inr (f2, i2, acc2, CORD_len acc2)"
      "low_inv m f0 f2 i2 acc2" "len \<le> min_len ! Suc i2" "i2 = 0 \<or> min_len ! i2 < len"
      using Suc.hyps(1) [of "Suc i" f' acc'] True Suc.prems(3,4) \<open>Suc i < m\<close> by auto
    with a(1) True i1 show ?thesis by (subst add_forest_low.simps) simp
  next
    case False
    with i1 Suc.prems show ?thesis by (subst add_forest_low.simps) auto
  qed
qed

lemma add_forest_low_index:
  "add_forest_low cat f len i acc n = Inr (f', i', acc', n') \<Longrightarrow> i' < MAX_DEPTH"
proof (induction cat f len i acc n arbitrary: f' i' acc' n' rule: add_forest_low.induct)
  case (1 cat f len i acc n)
  from "1.prems" show ?case
    by (subst (asm) add_forest_low.simps)
       (auto split: if_splits simp: rbind_eq_Inr intro: "1.IH" [OF _ _ _ refl refl])
qed

text \<open>The second loop: the sum moves up until it fits the slot of its length.\<close>

definition high_inv :: "nat \<Rightarrow> char list \<Rightarrow> forest \<Rightarrow> nat \<Rightarrow> CORD \<Rightarrow> bool" where
  "high_inv m content f i acc \<longleftrightarrow> forest_ok m f \<and> wf_cord acc \<and>
     slots f i (Suc m) @ cord_chars acc = content \<and> (\<forall>j<i. slot_chars (f ! j) = []) \<and>
     cord_depth acc \<le> i + 2 \<and> min_len ! (cord_depth acc - 1) \<le> CORD_len acc \<and>
     0 < CORD_len acc \<and> (0 < i \<longrightarrow> min_len ! (i - 1) \<le> CORD_len acc)"

lemma high_inv_len:
  assumes "high_inv m content f i acc"
  shows "CORD_len acc \<le> length content"
  using assms by (auto simp: high_inv_def simp flip: length_cord_chars)

lemma high_inv_step:
  assumes h: "high_inv m content f i acc" "length content < min_len ! m" "m \<le> MAX_DEPTH - 2"
    and le: "min_len ! i \<le> CORD_len acc" "i < m"
  obtains f' acc' where "absorb cat f i acc (CORD_len acc) = Inr (f', acc', CORD_len acc')"
    "high_inv m content f' (Suc i) acc'"
proof -
  have inv: "forest_ok m f" "wf_cord acc" "cord_depth acc \<le> i + 2" "min_len ! (cord_depth acc - 1) \<le> CORD_len acc"
    using h(1) by (auto simp: high_inv_def)
  have m: "Suc m < MAX_DEPTH" using h(3) by (simp add: MAX_DEPTH_def)
  have "CORD_len acc < min_len ! m" using high_inv_len [OF h(1)] h(2) by simp
  then have "cord_depth acc - 1 < m"
    by (rule min_len_less_imp [OF order.strict_trans1 [OF inv(4)]]) (use inv(3) le(2) m in linarith)
  then have d: "Suc (max (Suc i) (cord_depth acc)) < MAX_DEPTH"
    using le(2) m by auto
  from le(2) obtain f' acc' where a: "absorb cat f i acc (CORD_len acc) = Inr (f', acc', CORD_len acc')"
      "forest_ok m f'" "wf_cord acc'" "cord_chars acc' = slot_chars (f ! i) @ cord_chars acc"
      "slot_chars (f' ! i) = []" "\<And>j. j \<noteq> i \<Longrightarrow> f' ! j = f ! j"
      "acc' = acc \<or> min_len ! i + CORD_len acc \<le> CORD_len acc' \<and>
       cord_depth acc' \<le> Suc (max (Suc i) (cord_depth acc))"
    by (metis absorb_ok [OF inv(1) _ inv(2) d] less_imp_le)
  have content: "slots f' (Suc i) (Suc m) @ cord_chars acc' = content"
    using h(1) a(4) slots_peel [of i "Suc m" f] slots_cong [of "Suc i" "Suc m" f' f] a(6) le(2)
    by (auto simp: high_inv_def)
  have bal: "cord_depth acc' \<le> Suc i + 2 \<and> min_len ! (cord_depth acc' - 1) \<le> CORD_len acc'"
  proof (cases "acc' = acc")
    case False
    with a(7) have len: "min_len ! i + CORD_len acc \<le> CORD_len acc'"
      and dep: "cord_depth acc' \<le> Suc (max (Suc i) (cord_depth acc))" by auto
    show ?thesis
    proof (cases "cord_depth acc \<le> Suc i")
      case True
      then have "min_len ! (cord_depth acc' - 1) \<le> min_len ! Suc i"
        using dep le(2) m by (intro min_len_mono) auto
      then show ?thesis using len le min_len_double [of i] m True dep by auto
    next
      case False
      then have di: "cord_depth acc = i + 2" using inv(3) by simp
      then have "Suc i < m" using \<open>cord_depth acc - 1 < m\<close> by simp
      then have "min_len ! (cord_depth acc' - 1) \<le> min_len ! (i + 2)"
        using dep di m by (intro min_len_mono) auto
      also have "\<dots> = min_len ! Suc i + min_len ! i" using min_len_step [of i] \<open>Suc i < m\<close> m by simp
      finally show ?thesis using len inv(4) di dep by simp
    qed
  qed (use inv in auto)
  have "CORD_len acc \<le> CORD_len acc'" using a(7) by auto
  with a content bal h(1) le show thesis
    by (intro that [OF a(1)]) (auto simp: high_inv_def less_Suc_eq)
qed

lemma add_forest_high_ok:
  assumes "high_inv m content f i acc" "length content < min_len ! m" "m \<le> MAX_DEPTH - 2" "i \<le> m"
  shows "\<exists>f' i' acc'. add_forest_high cat f i acc (CORD_len acc) = Inr (f', i', acc', CORD_len acc') \<and>
    high_inv m content f' i' acc' \<and> CORD_len acc' < min_len ! i' \<and> i' \<le> m"
  using assms
proof (induction "MAX_DEPTH - i" arbitrary: i f acc)
  case 0
  then show ?case by (simp add: MAX_DEPTH_def)
next
  case (Suc k)
  then have i: "i < MAX_DEPTH" by simp
  show ?case
  proof (cases "min_len ! i \<le> CORD_len acc")
    case True
    have "min_len ! i < min_len ! m" using high_inv_len [OF Suc.prems(1)] Suc.prems(2) True by simp
    then have "i < m" using i by (rule min_len_less_imp)
    with high_inv_step [OF Suc.prems(1-3) True] obtain f' acc'
      where a: "absorb cat f i acc (CORD_len acc) = Inr (f', acc', CORD_len acc')"
        "high_inv m content f' (Suc i) acc'" by blast
    have "k = MAX_DEPTH - Suc i" using Suc.hyps(2) by simp
    with Suc.hyps(1) [OF this a(2) Suc.prems(2,3)] \<open>i < m\<close> a(1) True i show ?thesis
      by (subst add_forest_high.simps) auto
  next
    case False
    with Suc.prems i show ?thesis by (subst add_forest_high.simps) auto
  qed
qed

text \<open>Between the loops the sum meets the new tree, which is balanced for its length.\<close>

lemma high_inv_start:
  assumes low: "low_inv m f0 f i acc" and empty: "i \<le> m" "m \<le> MAX_DEPTH - 2"
    and x: "wf_node x" "DEPTH x < MAX_DEPTH" "min_len ! DEPTH x \<le> LEN x"
    and i: "LEN x \<le> min_len ! Suc i" "i = 0 \<or> min_len ! i < LEN x" "i < m"
  obtains z where "cat acc (Some x) = Inr z" "high_inv m (slots f0 0 (Suc m) @ chars x) f i z"
    "CORD_len z = CORD_len acc + LEN x"
proof -
  have m: "Suc m < MAX_DEPTH" using empty by (simp add: MAX_DEPTH_def)
  have inv: "forest_ok m f" "wf_cord acc" "cord_chars acc = slots f0 0 i" "cord_depth acc \<le> Suc i"
    and bal: "cord_depth acc \<le> i \<or> 0 < i \<and> cord_depth acc \<le> Suc i \<and> min_len ! (i - 1) \<le> CORD_len acc"
    using low by (auto simp: low_inv_def)
  have dx: "DEPTH x \<le> Suc i"
  proof (rule ccontr)
    assume "\<not> DEPTH x \<le> Suc i"
    then have "min_len ! Suc i < min_len ! DEPTH x" using x(2) by (intro min_len_strict_mono) auto
    with x(3) i(1) show False by linarith
  qed
  have "Suc (max (cord_depth acc) (cord_depth (Some x))) < MAX_DEPTH"
    using inv(4) dx i(3) m by auto
  with cat_shallow [of acc "Some x"] inv(2) x(1) obtain z where z: "cat acc (Some x) = Inr z" "wf_cord z"
    "cord_chars z = cord_chars acc @ chars x" "cord_depth z \<le> Suc (max (cord_depth acc) (DEPTH x))"
    by auto
  have len: "CORD_len z = CORD_len acc + LEN x"
    using z(2,3) x(1) inv(2) by (simp flip: length_cord_chars length_chars)
  have mid: "min_len ! i \<le> LEN x" using i(2) LEN_pos [OF x(1)] by auto
  have eff: "min_len ! (cord_depth z - 1) \<le> CORD_len z"
  proof (cases "acc = None")
    case True
    then have "z = Some x" using z(1) cat_empty by auto
    then show ?thesis
      using x(2,3) min_len_mono [of "DEPTH x - 1" "DEPTH x"] by auto
  next
    case False
    show ?thesis
    proof (cases "cord_depth acc \<le> i")
      case True
      show ?thesis
      proof (cases "DEPTH x \<le> i")
        case True
        then have "min_len ! (cord_depth z - 1) \<le> min_len ! i"
          using z(4) \<open>cord_depth acc \<le> i\<close> i(3) m by (intro min_len_mono) auto
        with mid len show ?thesis by linarith
      next
        case False
        then have "min_len ! (cord_depth z - 1) \<le> min_len ! DEPTH x"
          using z(4) \<open>cord_depth acc \<le> i\<close> x(2) by (intro min_len_mono) auto
        with x(3) len show ?thesis by linarith
      qed
    next
      case False
      with bal have b: "0 < i" "min_len ! (i - 1) \<le> CORD_len acc" by auto
      have "min_len ! (cord_depth z - 1) \<le> min_len ! Suc i"
        using z(4) inv(4) dx i(3) m by (intro min_len_mono) auto
      also have "\<dots> = min_len ! i + min_len ! (i - 1)"
        using min_len_step [of "i - 1"] b(1) i(3) m by simp
      finally show ?thesis using b(2) mid len by linarith
    qed
  qed
  have same: "slots f i (Suc m) = slots f0 i (Suc m)"
    using low by (intro slots_cong) (auto simp: low_inv_def)
  have "0 < i \<longrightarrow> min_len ! (i - 1) \<le> CORD_len z"
    using min_len_mono [of "i - 1" i] mid len i(3) m by auto
  then have "high_inv m (slots f0 0 (Suc m) @ chars x) f i z"
    using low z inv same eff len LEN_pos [OF x(1)] dx slots_split [of 0 i "Suc m" f0] i(3)
    by (auto simp: high_inv_def low_inv_def)
  with z(1) len that show thesis by blast
qed

lemma add_forest_ok:
  assumes f: "forest_ok m f" "m \<le> MAX_DEPTH - 2"
    and x: "wf_node x" "DEPTH x < MAX_DEPTH" "min_len ! DEPTH x \<le> LEN x"
    and len: "length (slots f 0 (Suc m)) + LEN x < min_len ! m"
  obtains f' where "CORD_add_forest cat f x (LEN x) = Inr f'" "forest_ok m f'"
    "slots f' 0 (Suc m) = slots f 0 (Suc m) @ chars x"
proof -
  have m: "Suc m < MAX_DEPTH" using f(2) by (simp add: MAX_DEPTH_def)
  have "low_inv m f f 0 None" using f(1) by (simp add: low_inv_def)
  with add_forest_low_ok [of m f f 0 None "LEN x"] f(2) len obtain f1 i acc
    where low: "add_forest_low cat f (LEN x) 0 None 0 = Inr (f1, i, acc, CORD_len acc)"
      "low_inv m f f1 i acc" "LEN x \<le> min_len ! Suc i" "i = 0 \<or> min_len ! i < LEN x" by auto
  have "0 < m" using len LEN_pos [OF x(1)] by (cases m) auto
  then have "i < m"
  proof (cases "i = 0")
    case False
    then have "min_len ! i < min_len ! m" using low(4) len by linarith
    moreover have "i < MAX_DEPTH" using low(1) by (rule add_forest_low_index)
    ultimately show ?thesis by (rule min_len_less_imp)
  qed simp
  obtain z where z: "cat acc (Some x) = Inr z" "high_inv m (slots f 0 (Suc m) @ chars x) f1 i z"
      "CORD_len z = CORD_len acc + LEN x"
    using high_inv_start [OF low(2) less_imp_le [OF \<open>i < m\<close>] f(2) x low(3,4) \<open>i < m\<close>] by blast
  have bound: "length (slots f 0 (Suc m) @ chars x) < min_len ! m"
    using len x(1) by (simp add: length_chars)
  obtain f2 i2 y where high: "add_forest_high cat f1 i z (CORD_len z) = Inr (f2, i2, y, CORD_len y)"
      "high_inv m (slots f 0 (Suc m) @ chars x) f2 i2 y" "CORD_len y < min_len ! i2" "i2 \<le> m"
    using add_forest_high_ok [OF z(2) bound f(2)] \<open>i < m\<close> by auto
  obtain j where j: "i2 = Suc j" using high(2,3) by (cases i2) (auto simp: high_inv_def)
  obtain t where t: "y = Some t" using high(2) by (cases y) (auto simp: high_inv_def)
  have "cord_depth y - 1 < i2"
    using high m by (intro min_len_less_imp [OF order.strict_trans1 [OF _ high(3)]]) (auto simp: high_inv_def)
  then have dy: "DEPTH t \<le> Suc j" using j t by simp
  let ?f = "set_forest_len (set_forest_c f2 j y) j (CORD_len y)"
  have h: "forest_ok m f2" "wf_node t" "slots f2 (Suc j) (Suc m) @ chars t = slots f 0 (Suc m) @ chars x"
    "\<forall>k<Suc j. slot_chars (f2 ! k) = []" "min_len ! j \<le> LEN t"
    using high(2) j t by (auto simp: high_inv_def)
  have l: "length f2 = MAX_DEPTH" "j < MAX_DEPTH" "j \<le> m" using h(1) high(4) j m by (auto simp: forest_ok_def)
  have fj: "?f ! j = \<lparr>fe_c = Some y, fe_len = Some (CORD_len y)\<rparr>" "\<And>k. k \<noteq> j \<Longrightarrow> ?f ! k = f2 ! k"
    using l by (simp_all add: set_forest_len_def set_forest_c_def)
  show thesis
  proof (rule that [of ?f])
    show "CORD_add_forest cat f x (LEN x) = Inr ?f"
      using low(1) z(1,3) high(1) j by (simp add: CORD_add_forest_def)
    show "forest_ok m ?f"
      using h l fj dy t by (auto simp: forest_ok_def slot_ok_def set_forest_len_def set_forest_c_def
          nth_list_update)
    have "slots ?f 0 (Suc m) = slots ?f j (Suc m)"
      using slots_split [of 0 j "Suc m" ?f] l(3) h(4) fj(2) slots_none [of 0 j ?f] by auto
    also have "\<dots> = slots f2 (Suc j) (Suc m) @ chars t"
      using slots_peel [of j "Suc m" ?f] l(3) fj t slots_cong [of "Suc j" "Suc m" ?f f2]
      by (auto simp: slot_chars_def)
    finally show "slots ?f 0 (Suc m) = slots f 0 (Suc m) @ chars x" using h(3) by simp
  qed
qed

text \<open>The frontier of a cord goes into the forest in order.\<close>

lemma balance_insert_ok:
  assumes "forest_ok m f" "m \<le> MAX_DEPTH - 2" "wf_node x"
    and "length (slots f 0 (Suc m)) + LEN x < min_len ! m"
  shows "\<exists>f'. CORD_balance_insert cat x (LEN x) f = Inr f' \<and> forest_ok m f' \<and>
    slots f' 0 (Suc m) = slots f 0 (Suc m) @ chars x"
  using assms
proof (induction x arbitrary: f rule: chars.induct)
  case (1 s)
  have d: "DEPTH (Str s) < MAX_DEPTH" "min_len ! DEPTH (Str s) \<le> LEN (Str s)"
    using LEN_pos [OF "1.prems"(3)] by simp_all
  show ?case
    by (rule add_forest_ok [OF "1.prems"(1-3) d "1.prems"(4)]) (simp del: LEN.simps)
next
  case (2 d ll n l r)
  show ?case
  proof (cases "d \<ge> MAX_DEPTH \<or> n < min_len ! d")
    case True
    have w: "wf_node l" "wf_node r" "n = LEN l + LEN r" using "2.prems"(3) by auto
    have ll: "LEFT_LEN ll n l r = LEN l" using "2.prems"(3) by (rule LEFT_LEN_wf)
    obtain f1 where f1: "CORD_balance_insert cat l (LEN l) f = Inr f1" "forest_ok m f1"
      "slots f1 0 (Suc m) = slots f 0 (Suc m) @ chars l"
      using "2.IH"(1) [of f] "2.prems" w by auto
    obtain f2 where f2: "CORD_balance_insert cat r (LEN r) f1 = Inr f2" "forest_ok m f2"
      "slots f2 0 (Suc m) = slots f1 0 (Suc m) @ chars r"
      using "2.IH"(2) [of f1] "2.prems" w f1 by (auto simp: length_chars)
    from True ll w f1 f2 show ?thesis by (auto simp: Let_def)
  next
    case False
    then have d: "DEPTH (Conc d ll n l r) < MAX_DEPTH"
        "min_len ! DEPTH (Conc d ll n l r) \<le> LEN (Conc d ll n l r)"
      by simp_all
    show ?thesis
      by (rule add_forest_ok [OF "2.prems"(1-3) d "2.prems"(4)]) (use False in simp)
  qed
next
  case (3 h n g)
  have d: "DEPTH (Fnode h n g) < MAX_DEPTH" "min_len ! DEPTH (Fnode h n g) \<le> LEN (Fnode h n g)"
    using LEN_pos [OF "3.prems"(3)] by simp_all
  show ?case
    by (rule add_forest_ok [OF "3.prems"(1-3) d "3.prems"(4)]) (simp del: LEN.simps)
qed

text \<open>\<open>CORD_concat_forest\<close> collects the whole forest.\<close>

lemma concat_forest_loop_ok:
  assumes "forest_ok m f" "m \<le> MAX_DEPTH - 2" "length (slots f 0 (Suc m)) < min_len ! m" "i \<le> m"
    and "wf_cord acc" "cord_chars acc = slots f 0 i" "cord_depth acc \<le> Suc i"
    and "acc = None \<or> min_len ! (cord_depth acc - 2) \<le> CORD_len acc"
  shows "\<exists>z. concat_forest_loop cat f (length (slots f 0 (Suc m))) i acc (CORD_len acc) = Inr z \<and>
    wf_cord z \<and> cord_chars z = slots f 0 (Suc m) \<and> cord_depth z \<le> Suc m \<and>
    (z = None \<or> min_len ! (cord_depth z - 2) \<le> CORD_len z)"
  using assms
proof (induction "MAX_DEPTH - i" arbitrary: i acc)
  case 0
  then show ?case by (simp add: MAX_DEPTH_def)
next
  case (Suc k)
  let ?n = "length (slots f 0 (Suc m))"
  have split: "slots f 0 (Suc m) = slots f i (Suc m) @ cord_chars acc"
    using Suc.prems(4,6) slots_split [of 0 i "Suc m" f] by simp
  have accl: "CORD_len acc = length (cord_chars acc)" using Suc.prems(5) by (simp add: length_cord_chars)
  show ?case
  proof (cases "CORD_len acc = ?n")
    case True
    then have "slots f i (Suc m) = []" using split accl by simp
    then have "cord_chars acc = slots f 0 (Suc m)" using split by simp
    with True Suc.prems show ?thesis by (subst concat_forest_loop.simps) auto
  next
    case False
    have "i < m"
    proof (rule ccontr)
      assume "\<not> i < m"
      then have i: "i = m" using Suc.prems(4) by simp
      have "slot_ok m (f ! m)" using Suc.prems(1) by (simp add: forest_ok_def)
      moreover have "length (slot_chars (f ! m)) < min_len ! m"
        using Suc.prems(3) slots_Suc [of 0 m f] by simp
      ultimately have "slot_chars (f ! m) = []" by (auto simp: slot_ok_def slot_chars_def length_chars)
      with split accl False i show False by (simp add: slots_Suc)
    qed
    then have i: "i < MAX_DEPTH" "Suc (max (Suc i) (cord_depth acc)) < MAX_DEPTH"
      using Suc.prems(2,7) by (auto simp: MAX_DEPTH_def)
    obtain f' acc' where a: "absorb cat f i acc (CORD_len acc) = Inr (f', acc', CORD_len acc')"
      "wf_cord acc'" "cord_chars acc' = slot_chars (f ! i) @ cord_chars acc"
      "acc' = acc \<or> min_len ! i + CORD_len acc \<le> CORD_len acc' \<and>
         cord_depth acc' \<le> Suc (max (Suc i) (cord_depth acc))"
      using absorb_ok [OF Suc.prems(1,4,5) i(2)] by metis
    have "acc' = None \<or> min_len ! (cord_depth acc' - 2) \<le> CORD_len acc'"
    proof (cases "acc' = acc")
      case False
      then have "min_len ! (cord_depth acc' - 2) \<le> min_len ! i"
        using a(4) Suc.prems(7) i(1) by (intro min_len_mono) auto
      then show ?thesis using False a(4) by auto
    qed (use Suc.prems in auto)
    moreover have "cord_depth acc' \<le> Suc (Suc i)" using a(4) Suc.prems(7) by auto
    moreover have "k = MAX_DEPTH - Suc i" using Suc.hyps(2) by linarith
    ultimately have "\<exists>z. concat_forest_loop cat f ?n (Suc i) acc' (CORD_len acc') = Inr z \<and>
        wf_cord z \<and> cord_chars z = slots f 0 (Suc m) \<and> cord_depth z \<le> Suc m \<and>
        (z = None \<or> min_len ! (cord_depth z - 2) \<le> CORD_len z)"
      using Suc.hyps(1) [of "Suc i" acc'] Suc.prems(1-3) \<open>i < m\<close> a(2,3) Suc.prems(6)
      by (auto simp: slots_Suc)
    with a(1) False i(1) show ?thesis by (subst concat_forest_loop.simps) auto
  qed
qed

lemma init_forest_loop_ok:
  assumes "length f = MAX_DEPTH" "\<forall>j<i. fe_c (f ! j) = Some None" "max_len < min_len ! k"
    "i \<le> k" "k \<le> MAX_DEPTH - 2"
  shows "\<exists>m f'. init_forest_loop i max_len f = Inr f' \<and> forest_ok m f' \<and> m \<le> k \<and>
    max_len < min_len ! m \<and> slots f' 0 (Suc m) = []"
  using assms
proof (induction "MAX_DEPTH - i" arbitrary: i f)
  case 0
  then show ?case by (simp add: MAX_DEPTH_def)
next
  case (Suc d)
  let ?f = "set_forest_c f i None"
  have i: "i < MAX_DEPTH" using Suc.hyps(2) by simp
  have f: "length ?f = MAX_DEPTH" "\<forall>j<Suc i. fe_c (?f ! j) = Some None"
    using Suc.prems(1,2) i by (auto simp: set_forest_c_def nth_list_update less_Suc_eq)
  show ?case
  proof (cases "max_len < min_len ! i")
    case True
    have "forest_ok i ?f" using f i by (auto simp: forest_ok_def slot_ok_def)
    moreover have "slots ?f 0 (Suc i) = []" using f(2) by (intro slots_none) (auto simp: slot_chars_def)
    ultimately show ?thesis
      using True Suc.prems(4) i by (subst init_forest_loop.simps) (auto simp: Let_def)
  next
    case False
    then have "i < k" using Suc.prems(3,4) by (cases "i = k") auto
    moreover have "d = MAX_DEPTH - Suc i" using Suc.hyps(2) by linarith
    ultimately show ?thesis
      using Suc.hyps(1) [of "Suc i" ?f] Suc.prems(3,5) f False i
      by (subst init_forest_loop.simps) (auto simp: Let_def)
  qed
qed

theorem balance_body_ok:
  assumes "wf_cord x" "CORD_len x < min_len ! (MAX_DEPTH - 2)"
  shows "\<exists>z. balance_body cat x = Inr z \<and> wf_cord z \<and> cord_chars z = cord_chars x \<and>
    cord_depth z < MAX_DEPTH \<and> min_len ! (cord_depth z - 2) \<le> max 1 (CORD_len z)"
proof -
  have tree: "\<exists>z. rbind (CORD_init_forest fresh_forest (LEN t)) (\<lambda>f.
         rbind (CORD_balance_insert cat t (LEN t) f) (\<lambda>f. CORD_concat_forest cat f (LEN t))) = Inr z \<and>
       wf_cord z \<and> cord_chars z = chars t \<and> cord_depth z < MAX_DEPTH \<and> min_len ! (cord_depth z - 2) \<le> max 1 (CORD_len z)"
    if t: "wf_node t" "LEN t < min_len ! (MAX_DEPTH - 2)" for t
  proof -
    have "length fresh_forest = MAX_DEPTH" by (simp add: fresh_forest_def)
    then obtain m f where f: "CORD_init_forest fresh_forest (LEN t) = Inr f" "forest_ok m f"
        "m \<le> MAX_DEPTH - 2" "LEN t < min_len ! m" "slots f 0 (Suc m) = []"
      using init_forest_loop_ok [of fresh_forest 0 "LEN t" "MAX_DEPTH - 2"] t(2)
      by (auto simp: CORD_init_forest_def)
    obtain f' where f': "CORD_balance_insert cat t (LEN t) f = Inr f'" "forest_ok m f'"
        "slots f' 0 (Suc m) = chars t"
      using balance_insert_ok [OF f(2,3) t(1)] f(4,5) by auto
    have m: "Suc m < MAX_DEPTH" using f(3) by (simp add: MAX_DEPTH_def)
    with concat_forest_loop_ok [of m f' 0 None] f(3,4) f' t(1) f(1) show ?thesis
      by (auto simp: CORD_concat_forest_def length_chars)
  qed
  show ?thesis
  proof (cases x)
    case None
    then show ?thesis by simp
  next
    case (Some t)
    with assms tree [of t] show ?thesis
      by (cases t) (simp_all add: Let_def del: wf_node.simps)
  qed
qed

end

section \<open>The code's concatenation\<close>

lemma CORD_cat_fuel_result:
  assumes "wf_cord x" "wf_cord y" "cord_depth x < MAX_DEPTH" "cord_depth y < MAX_DEPTH"
  shows "cat_result (balance_body (CORD_cat_fuel k)) x y (CORD_cat_fuel (Suc k) x y)"
  using cat_body_result [OF assms(1,2)] assms(3,4) by simp

interpretation fuelled: shallow_cat "CORD_cat_fuel (Suc k)" for k
proof
  fix x y
  assume "wf_cord x" "wf_cord y" "Suc (max (cord_depth x) (cord_depth y)) < MAX_DEPTH"
  then show "\<exists>z. CORD_cat_fuel (Suc k) x y = Inr z \<and> wf_cord z \<and> cord_chars z = cord_chars x @ cord_chars y \<and>
      cord_depth z \<le> Suc (max (cord_depth x) (cord_depth y))"
    by (metis CORD_cat_fuel_result cat_result_shallow less_Suc_eq max.strict_boundedE Suc_lessD)
qed simp

lemma min_len_46: "min_len ! (MAX_DEPTH - 2) = 4807526976"
  and min_len_47: "min_len ! (MAX_DEPTH - 1) = 7778742049"
proof -
  have it: "((\<lambda>(a, b). (b, a + b)) ^^ i) (1, 2 :: int) = (int (min_len ! i), int (min_len ! Suc i))"
    if "Suc i < MAX_DEPTH" for i
    using that
  proof (induction i)
    case (Suc i)
    then show ?case using min_len_step [of i] by simp
  qed simp
  have "((\<lambda>(a, b). (b, a + b)) ^^ 46) (1, 2 :: int) = (4807526976, 7778742049)"
    by code_simp
  with it [of 46] show "min_len ! (MAX_DEPTH - 2) = 4807526976" "min_len ! (MAX_DEPTH - 1) = 7778742049"
    by (simp_all add: MAX_DEPTH_def del: funpow.simps)
qed

declare CORD_cat_fuel.simps [simp del]

section \<open>Cords a client can hold\<close>

text \<open>
  \<open>cord_ok x\<close>: well formed and less than \<open>MAX_DEPTH\<close> deep. Below \<open>CORD_LIMIT\<close>
  characters (about 4.8 billion) one level of balancing always brings the depth under the
  limit, so that the fuel of \<open>CORD_cat\<close> is enough.
\<close>

definition cord_ok :: "CORD \<Rightarrow> bool" where
  "cord_ok x \<longleftrightarrow> wf_cord x \<and> cord_depth x < MAX_DEPTH"

definition CORD_LIMIT :: nat where
  "CORD_LIMIT = 4807526976"

lemma cord_ok_None [simp]: "cord_ok None"
  by (simp add: cord_ok_def)

lemma cord_ok_wf: "cord_ok x \<Longrightarrow> wf_cord x"
  by (simp add: cord_ok_def)

lemma cord_ok_Str [simp]: "cord_ok (Some (Str s)) \<longleftrightarrow> s \<noteq> [] \<and> nul_free s"
  by (simp add: cord_ok_def)

lemma cord_ok_Fnode [simp]: "cord_ok (Some (Fnode h n f)) \<longleftrightarrow> wf_node (Fnode h n f)"
  by (simp add: cord_ok_def)

lemma cord_ok_child:
  assumes "cord_ok (Some (Conc d ll n l r))"
  shows "cord_ok (Some l)" "cord_ok (Some r)"
  using assms by (auto simp: cord_ok_def)

lemma CORD_balance_ok:
  assumes "wf_cord x" "CORD_len x < CORD_LIMIT"
  obtains z where "balance_body (CORD_cat_fuel (Suc k)) x = Inr z" "cord_ok z"
    "cord_chars z = cord_chars x" "min_len ! (cord_depth z - 2) \<le> max 1 (CORD_len z)"
  using fuelled.balance_body_ok [of x k] assms min_len_46
  by (auto simp: cord_ok_def CORD_LIMIT_def)

lemma cat_result_ok:
  assumes r: "cat_result (balance_body (CORD_cat_fuel (Suc k))) x y r"
    and len: "wf_cord x" "wf_cord y" "CORD_len x + CORD_len y < CORD_LIMIT"
  obtains z where "r = Inr z" "cord_ok z" "cord_chars z = cord_chars x @ cord_chars y"
proof -
  from r obtain z where z: "r = (if cord_depth z \<ge> MAX_DEPTH then balance_body (CORD_cat_fuel (Suc k)) z else Inr z)"
    "wf_cord z" "cord_chars z = cord_chars x @ cord_chars y"
    by (auto simp: cat_result_def)
  have "CORD_len z < CORD_LIMIT"
    using z(2,3) len by (simp flip: length_cord_chars)
  with z that CORD_balance_ok [OF z(2), of k] show thesis
    by (cases "cord_depth z \<ge> MAX_DEPTH") (auto simp: cord_ok_def)
qed

lemma CORD_cat_ok:
  assumes "cord_ok x" "cord_ok y" "CORD_len x + CORD_len y < CORD_LIMIT"
  obtains z where "CORD_cat x y = Inr z" "cord_ok z" "cord_chars z = cord_chars x @ cord_chars y"
proof -
  have "CORD_cat = CORD_cat_fuel (Suc (Suc 0))"
    by (simp add: CORD_cat_def cord_fuel_def numeral_2_eq_2)
  then show thesis
    using that assms cat_result_ok [OF CORD_cat_fuel_result [of x y "Suc 0"]]
    by (metis cord_ok_def)
qed

lemma CORD_cat_char_star_ok:
  assumes "cord_ok x" "wf_node (Str y)" "CORD_len x + length y < CORD_LIMIT"
  obtains z where "CORD_cat_char_star x y (length y) = Inr z" "cord_ok z" "cord_chars z = cord_chars x @ y"
proof -
  have "CORD_cat_char_star = cat_char_star_body (balance_body (CORD_cat_fuel (Suc (Suc 0))))"
    by (simp add: CORD_cat_char_star_def CORD_balance_def [abs_def] cord_fuel_def numeral_2_eq_2)
  moreover have "CORD_len x + CORD_len (Some (Str y)) < CORD_LIMIT" using assms(2,3) by simp
  ultimately show thesis
    using that assms(2) cat_result_ok [OF cat_char_star_result [OF cord_ok_wf [OF assms(1)] assms(2)]
        cord_ok_wf [OF assms(1)], of "Suc 0"]
    by auto
qed

end
