(* ===== verification/Cord_Substr.thy ===== *)
theory Cord_Substr
  imports Cord_Balance
begin

text \<open>
  Substrings of \<^verbatim>\<open>libs/gc/cord/cordbscs.c\<close>: \<open>CORD_substr_closure\<close>,
  \<open>CORD_substr_checked\<close> and \<open>CORD_substr\<close>, and that they return the substring they name.
\<close>

section \<open>The operations\<close>

text \<open>
  The function pointer a closure is built with is one of the two access functions, given
  here as the constructor that pairs it with its \<open>substr_args\<close>. The header is then
  overwritten in place: on a function node that marks it as a substring, on anything else
  it would damage the result.
\<close>

definition CORD_substr_closure :: "node \<Rightarrow> nat \<Rightarrow> nat \<Rightarrow> (node \<Rightarrow> nat \<Rightarrow> cord_fn) \<Rightarrow> CORD res" where
  "CORD_substr_closure x i n f =
     rbind (CORD_from_fn (f x i) n) (\<lambda>result.
       case result of
         Some (Fnode _ len g) \<Rightarrow> Inr (Some (Fnode SUBSTR_HDR len g))
       | Some _ \<Rightarrow> Inl BadNode
       | None \<Rightarrow> Inl NullDeref)"

text \<open>The loop over a function leaf; its counter \<open>j\<close> and limit are of type \<open>int\<close>.\<close>

function substr_fn_buf :: "cord_fn \<Rightarrow> int \<Rightarrow> int \<Rightarrow> char list option res" where
  "substr_fn_buf f j lim =
     (if j < lim then
        rbind (call_fn f (size_of_int j)) (\<lambda>c.
          if c = NUL then Inr None
          else rbind (substr_fn_buf f (j + 1) lim) (\<lambda>buf. Inr (map_option ((#) c) buf)))
      else Inr (Some []))"
  by pat_completeness auto
termination
  by (relation "measure (\<lambda>(_, j, lim). nat (lim - j))") auto

fun CORD_substr_checked :: "node \<Rightarrow> nat \<Rightarrow> nat \<Rightarrow> CORD res" where
  "CORD_substr_checked (Str s) i n =
     (if n > SUBSTR_LIMIT then CORD_substr_closure (Str s) i n IndexAccess
      else rbind (strncpy_from s i n) (\<lambda>t. Inr (Some (Str t))))"
| "CORD_substr_checked (Conc d ll len left right) i n =
     (let left_len = LEFT_LEN ll len left right; right_len = len - left_len
      in if i \<ge> left_len then
           if n = right_len then Inr (Some right)
           else CORD_substr_checked right (i - left_len) n
         else if size_add i n \<le> left_len then
           if n = left_len then Inr (Some left)
           else CORD_substr_checked left i n
         else
           let left_part_len = left_len - i
           in rbind (if i = 0 then Inr (Some left) else CORD_substr_checked left i left_part_len) (\<lambda>left_part.
              rbind (if size_add i n = right_len + left_len then Inr (Some right)
                     else CORD_substr_checked right 0 (n - left_part_len)) (\<lambda>right_part.
                CORD_cat left_part right_part)))"
| "CORD_substr_checked (Fnode h len f) i n =
     (if n > SUBSTR_LIMIT then
        (case f of
           IndexAccess x k \<Rightarrow> CORD_substr_closure x (size_add i k) n IndexAccess
         | ApplyAccess x k \<Rightarrow> CORD_substr_closure x (size_add i k) n ApplyAccess
         | ClientFn _ \<Rightarrow> CORD_substr_closure (Fnode h len f) i n ApplyAccess)
      else
        rbind (substr_fn_buf f (int_of_size i) (int_of_size (size_add i n))) (\<lambda>buf.
          case buf of
            None \<Rightarrow> CORD_substr_closure (Fnode h len f) i n ApplyAccess
          | Some t \<Rightarrow> Inr (Some (Str t))))"

definition CORD_substr :: "CORD \<Rightarrow> nat \<Rightarrow> nat \<Rightarrow> CORD res" where
  "CORD_substr x i n =
     (let len = CORD_len x
      in if i \<ge> len \<or> n \<le> 0 then Inr None
         else
           let n = (if size_add i n > len then len - i else n)
           in (case x of Some y \<Rightarrow> CORD_substr_checked y i n | None \<Rightarrow> Inl NullDeref))"

declare substr_fn_buf.simps [simp del]

section \<open>Correctness\<close>

lemma substr_fn_buf_wf:
  assumes "wf_fn h n f" "0 \<le> j" "nat lim \<le> n" "lim < 2 ^ 64"
  shows "substr_fn_buf f j lim =
    Inr (if nul_free (map (fn_char f) [nat j..<nat lim]) then Some (map (fn_char f) [nat j..<nat lim]) else None)"
  using assms
proof (induction f j lim rule: substr_fn_buf.induct)
  case (1 f j lim)
  show ?case
  proof (cases "j < lim")
    case True
    have c: "call_fn f (size_of_int j) = Inr (fn_char f (nat j))"
      using True "1.prems" call_fn_wf [OF "1.prems"(1), of "nat j"] by auto
    have u: "[nat j..<nat lim] = nat j # [nat (j + 1)..<nat lim]"
      using True "1.prems"(2) by (simp add: upt_conv_Cons nat_add_distrib)
    show ?thesis
    proof (cases "fn_char f (nat j) = NUL")
      case True
      then show ?thesis using \<open>j < lim\<close> c u by (subst substr_fn_buf.simps) simp
    next
      case False
      have "substr_fn_buf f (j + 1) lim = Inr (if nul_free (map (fn_char f) [nat (j + 1)..<nat lim])
          then Some (map (fn_char f) [nat (j + 1)..<nat lim]) else None)"
        using "1.prems" by (intro "1.IH" [OF True c False]) auto
      then show ?thesis using \<open>j < lim\<close> c u False by (subst substr_fn_buf.simps) simp
    qed
  next
    case False
    then show ?thesis by (subst substr_fn_buf.simps) simp
  qed
qed

text \<open>The result of a closure: a substring node over \<open>n\<close> characters from \<open>i\<close>.\<close>

definition substr_spec :: "node \<Rightarrow> nat \<Rightarrow> nat \<Rightarrow> CORD res \<Rightarrow> bool" where
  "substr_spec x i n r \<longleftrightarrow> (\<exists>z. r = Inr z \<and> cord_ok z \<and> cord_chars z = take n (drop i (chars x)))"

lemma substr_specI:
  "r = Inr z \<Longrightarrow> cord_ok z \<Longrightarrow> cord_chars z = take n (drop i (chars x)) \<Longrightarrow> substr_spec x i n r"
  by (auto simp: substr_spec_def)

lemma CORD_substr_closure_long:
  "SUBSTR_LIMIT < n \<Longrightarrow> CORD_substr_closure x i n f = Inr (Some (Fnode SUBSTR_HDR n (f x i)))"
  by (simp add: CORD_substr_closure_def CORD_from_fn_def SUBSTR_LIMIT_def SHORT_LIMIT_def)

lemma from_fn_buf_None:
  "\<lbrakk>i \<le> j; j < i + k; call_fn f j = Inr NUL; \<forall>l. i \<le> l \<and> l < i + k \<longrightarrow> (\<exists>c. call_fn f l = Inr c)\<rbrakk>
    \<Longrightarrow> from_fn_buf f i k = Inr None"
proof (induction k arbitrary: i)
  case (Suc k)
  obtain c where "call_fn f i = Inr c" using Suc.prems(2,4) by force
  with Suc show ?case by (cases "i = j") auto
qed simp

lemma CORD_substr_closure_nul:
  assumes "0 < n" "j < n" "call_fn (f x i) j = Inr NUL" "\<forall>l<n. \<exists>c. call_fn (f x i) l = Inr c"
  shows "CORD_substr_closure x i n f = Inr (Some (Fnode SUBSTR_HDR n (f x i)))"
  using assms from_fn_buf_None [of 0 j n "f x i"]
  by (simp add: CORD_substr_closure_def CORD_from_fn_def)

lemma index_access_spec:
  assumes "wf_node (Str s)" "0 < n" "i + n \<le> length s" "length s < size_max"
  shows "substr_spec (Str s) i n (Inr (Some (Fnode SUBSTR_HDR n (IndexAccess (Str s) i))))"
proof (rule substr_specI [OF refl])
  show "cord_chars (Some (Fnode SUBSTR_HDR n (IndexAccess (Str s) i))) = take n (drop i (chars (Str s)))"
    using assms(3) by (intro nth_equalityI) (auto simp: fn_char_def add.commute)
qed (use assms in \<open>auto simp: add.commute\<close>)

lemma apply_access_spec:
  assumes "wf_node (Fnode h len f)" "0 < n" "i + n \<le> len" "len < size_max"
  shows "substr_spec (Fnode h len f) i n (Inr (Some (Fnode SUBSTR_HDR n (ApplyAccess (Fnode h len f) i))))"
proof (rule substr_specI [OF refl])
  show "cord_chars (Some (Fnode SUBSTR_HDR n (ApplyAccess (Fnode h len f) i))) =
      take n (drop i (chars (Fnode h len f)))"
    using assms(3) by (auto simp: fn_char_def take_drop_map_upt add.commute)
qed (use assms in \<open>auto simp: add.commute\<close>)

text \<open>A substring of a substring node goes to the cord below it.\<close>

lemma substr_spec_shift:
  assumes "substr_spec x (i + k) n r" "take n (drop (i + k) (chars x)) = take n (drop i (chars y))"
  shows "substr_spec y i n r"
  using assms by (auto simp: substr_spec_def)

lemma nested_index_spec:
  assumes w: "wf_node (Fnode h len (IndexAccess x k))" "0 < n" "i + n \<le> len"
  shows "substr_spec (Fnode h len (IndexAccess x k)) i n
    (Inr (Some (Fnode SUBSTR_HDR n (IndexAccess x (i + k)))))"
proof -
  obtain s where s: "x = Str s" "wf_node (Str s)" "len + k \<le> length s" "length s < size_max"
    using w(1) by (cases x) auto
  have "take n (drop (i + k) (chars x)) = take n (drop i (chars (Fnode h len (IndexAccess x k))))"
    using s w(3) by (intro nth_equalityI) (auto simp: fn_char_def ac_simps)
  then show ?thesis
    using index_access_spec [OF s(2) w(2), of "i + k"] s w(3) by (auto intro: substr_spec_shift)
qed

lemma nested_apply_spec:
  assumes w: "wf_node (Fnode h len (ApplyAccess x k))" "0 < n" "i + n \<le> len"
  shows "substr_spec (Fnode h len (ApplyAccess x k)) i n
    (Inr (Some (Fnode SUBSTR_HDR n (ApplyAccess x (i + k)))))"
proof -
  obtain h' n' f' where x: "x = Fnode h' n' f'" "wf_node x" "len + k \<le> n'" "n' < size_max"
    using w(1) by (cases x) auto
  have "take n (drop (i + k) (chars x)) = take n (drop i (chars (Fnode h len (ApplyAccess x k))))"
    using x w(3) by (intro nth_equalityI) (auto simp: fn_char_def ac_simps)
  then show ?thesis
    using apply_access_spec [of h' n' f' n "i + k"] x w by (auto intro: substr_spec_shift)
qed

lemma size_max_bound: "n < 2 ^ 31 \<Longrightarrow> n < size_max" "n < size_max \<Longrightarrow> n < 2 ^ 64"
  by (simp_all add: size_max_def)

lemma short_fn_spec:
  assumes w: "wf_node (Fnode h len f)" "0 < n" "i + n \<le> len" "len < 2 ^ 31" "n \<le> SUBSTR_LIMIT"
  shows "substr_spec (Fnode h len f) i n (CORD_substr_checked (Fnode h len f) i n)"
proof -
  let ?t = "map (fn_char f) [i..<i + n]"
  have f: "wf_fn h len f" using w(1) by simp
  have buf: "substr_fn_buf f (int_of_size i) (int_of_size (size_add i n)) =
      Inr (if nul_free ?t then Some ?t else None)"
    using substr_fn_buf_wf [OF f, of "int i" "int (i + n)"] w(3,4) by (simp add: nat_add_distrib)
  have t: "?t = take n (drop i (chars (Fnode h len f)))"
    using w(3) by (intro nth_equalityI) auto
  show ?thesis
  proof (cases "nul_free ?t")
    case True
    with buf w(5) have "CORD_substr_checked (Fnode h len f) i n = Inr (Some (Str ?t))" by simp
    then show ?thesis using True t w(2) by (intro substr_specI) auto
  next
    case False
    then obtain j where j: "i \<le> j" "j < i + n" "fn_char f j = NUL"
      by (auto simp: nul_free_def)
    have call: "call_fn (ApplyAccess (Fnode h len f) i) l = Inr (fn_char f (l + i))" if "l < n" for l
      using call_fn_wf [OF f, of "l + i"] that w(3) by simp
    have "CORD_substr_closure (Fnode h len f) i n ApplyAccess =
        Inr (Some (Fnode SUBSTR_HDR n (ApplyAccess (Fnode h len f) i)))"
      using j call call [of "j - i"] by (intro CORD_substr_closure_nul [where j = "j - i"] w(2)) auto
    then have "CORD_substr_checked (Fnode h len f) i n =
        Inr (Some (Fnode SUBSTR_HDR n (ApplyAccess (Fnode h len f) i)))"
      using buf False w(5) by simp
    then show ?thesis using apply_access_spec [OF w(1-3)] w(4) size_max_bound(1) by simp
  qed
qed

lemma Fnode_substr_spec:
  assumes w: "wf_node (Fnode h len f)" "0 < n" "i + n \<le> len" "len < 2 ^ 31"
  shows "substr_spec (Fnode h len f) i n (CORD_substr_checked (Fnode h len f) i n)"
proof (cases "n > SUBSTR_LIMIT")
  case True
  show ?thesis
  proof (cases f)
    case (ClientFn g)
    then show ?thesis
      using True apply_access_spec [OF w(1-3)] size_max_bound(1) [OF w(4)]
      by (simp add: CORD_substr_closure_long)
  next
    case (IndexAccess x k)
    then have "i + k < 2 ^ 64" using w by (auto simp: size_max_def)
    then show ?thesis
      using IndexAccess True nested_index_spec w(1-3) by (simp add: CORD_substr_closure_long)
  next
    case (ApplyAccess x k)
    then have "i + k < 2 ^ 64" using w by (auto simp: size_max_def)
    then show ?thesis
      using ApplyAccess True nested_apply_spec w(1-3) by (simp add: CORD_substr_closure_long)
  qed
qed (use short_fn_spec [OF w] in simp)

theorem CORD_substr_checked_spec:
  "cord_ok (Some x) \<Longrightarrow> 0 < n \<Longrightarrow> i + n \<le> LEN x \<Longrightarrow> LEN x < 2 ^ 31 \<Longrightarrow>
    substr_spec x i n (CORD_substr_checked x i n)"
proof (induction x arbitrary: i n rule: chars.induct)
  case (1 s)
  then show ?case
    using index_access_spec [of s n i] size_max_bound(1)
    by (cases "n > SUBSTR_LIMIT")
       (auto simp: CORD_substr_closure_long nul_free_take nul_free_drop intro!: substr_specI)
next
  case (2 d ll len l r)
  have w: "wf_node (Conc d ll len l r)" using "2.prems"(1) by (simp add: cord_ok_def)
  have ok: "cord_ok (Some l)" "cord_ok (Some r)" using "2.prems"(1) by (auto dest: cord_ok_child)
  have len: "len = LEN l + LEN r" "LEFT_LEN ll len l r = LEN l" using w LEFT_LEN_wf by auto
  have lc: "length (chars l) = LEN l" "length (chars r) = LEN r"
    using w by (auto simp: length_chars)
  have add: "size_add i n = i + n" using "2.prems"(3,4) len by simp
  have small: "LEN l < 2 ^ 31" "LEN r < 2 ^ 31" using "2.prems"(4) len by auto
  consider (right) "LEN l \<le> i" | (left) "i < LEN l" "i + n \<le> LEN l" | (both) "i < LEN l" "LEN l < i + n"
    by linarith
  then show ?case
  proof cases
    case right
    show ?thesis
    proof (cases "n = LEN r")
      case True
      with right "2.prems"(3) len have "i = LEN l" by simp
      with True right len ok lc show ?thesis by (intro substr_specI [where z = "Some r"]) auto
    next
      case False
      have "substr_spec r (i - LEN l) n (CORD_substr_checked r (i - LEN l) n)"
        using right "2.prems" len small ok by (intro "2.IH"(2)) auto
      with right False len lc show ?thesis by (auto simp: substr_spec_def)
    qed
  next
    case left
    show ?thesis
    proof (cases "n = LEN l")
      case True
      with left have "i = 0" by simp
      with True left len ok lc add show ?thesis by (intro substr_specI [where z = "Some l"]) auto
    next
      case False
      have "substr_spec l i n (CORD_substr_checked l i n)"
        using left "2.prems" len small ok by (intro "2.IH"(1)) auto
      with left False len lc add show ?thesis by (auto simp: substr_spec_def)
    qed
  next
    case both
    let ?ln = "LEN l - i" let ?rn = "n - ?ln"
    obtain a where a: "(if i = 0 then Inr (Some l) else CORD_substr_checked l i ?ln) = Inr a" "cord_ok a"
        "cord_chars a = drop i (chars l)"
    proof (cases "i = 0")
      case False
      have "substr_spec l i ?ln (CORD_substr_checked l i ?ln)"
        using both "2.prems" len small ok by (intro "2.IH"(1)) auto
      with that False lc show thesis by (auto simp: substr_spec_def)
    qed (use that ok in auto)
    obtain b where b: "(if i + n = LEN r + LEN l then Inr (Some r) else CORD_substr_checked r 0 ?rn) = Inr b"
        "cord_ok b" "cord_chars b = take ?rn (chars r)"
    proof (cases "i + n = LEN r + LEN l")
      case True
      then have "?rn = LEN r" using both by simp
      with that True ok lc show thesis by auto
    next
      case False
      have "substr_spec r 0 ?rn (CORD_substr_checked r 0 ?rn)"
        using both "2.prems" len small ok by (intro "2.IH"(2)) auto
      with that False show thesis by (auto simp: substr_spec_def)
    qed
    have "CORD_len a + CORD_len b \<le> LEN l + LEN r"
      using a b lc by (simp flip: length_cord_chars [OF cord_ok_wf])
    then have "CORD_len a + CORD_len b < CORD_LIMIT"
      using "2.prems"(4) len by (simp add: CORD_LIMIT_def)
    with a(2) b(2) obtain z where z: "CORD_cat a b = Inr z" "cord_ok z"
        "cord_chars z = drop i (chars l) @ take ?rn (chars r)"
      using CORD_cat_ok a(3) b(3) by metis
    have "CORD_substr_checked (Conc d ll len l r) i n = CORD_cat a b"
      using both a(1) b(1) len add by (simp add: Let_def add.commute)
    with z both lc show ?thesis by (intro substr_specI) auto
  qed
next
  case (3 h len f)
  then show ?case using Fnode_substr_spec [of h len f n i] by (simp del: CORD_substr_checked.simps)
qed

lemma CORD_substr_spec:
  assumes "cord_ok x" "CORD_len x < 2 ^ 31" "i + n < 2 ^ 64"
  obtains z where "CORD_substr x i n = Inr z" "cord_ok z" "cord_chars z = take n (drop i (cord_chars x))"
proof (cases x)
  case None
  with that [of None] show thesis by (simp add: CORD_substr_def)
next
  case (Some y)
  have l: "length (chars y) = LEN y" using assms(1) Some by (simp add: cord_ok_def length_chars)
  show thesis
  proof (cases "i \<ge> LEN y \<or> n = 0")
    case True
    with that [of None] Some l show thesis by (auto simp: CORD_substr_def Let_def)
  next
    case False
    let ?n = "if i + n > LEN y then LEN y - i else n"
    have "substr_spec y i ?n (CORD_substr_checked y i ?n)"
      using assms(1,2) Some False by (intro CORD_substr_checked_spec) auto
    moreover have "CORD_substr x i n = CORD_substr_checked y i ?n"
      using False Some assms(3) by (simp add: CORD_substr_def Let_def)
    moreover have "take ?n (drop i (chars y)) = take n (drop i (chars y))" using l by auto
    ultimately show thesis using that Some by (auto simp: substr_spec_def)
  qed
qed

end
