(* ===== verification/Cord_Iter.thy ===== *)
theory Cord_Iter
  imports Cord_Substr
begin

text \<open>
  Traversal of cords by callbacks: \<open>CORD_iter5\<close>, \<open>CORD_iter\<close>, \<open>CORD_riter4\<close> and
  \<open>CORD_riter\<close> of \<^verbatim>\<open>libs/gc/cord/cordbscs.c\<close>. A callback takes a character (or, batched,
  a C string) and the client's data, and returns its \<open>int\<close> result with the new data, or
  fails; each traversal is the early-exit fold \<open>iter_list\<close> over the characters it names.
\<close>

type_synonym 'd iter_fn = "char \<Rightarrow> 'd \<Rightarrow> (int \<times> 'd) res"

type_synonym 'd batched_iter_fn = "char list \<Rightarrow> 'd \<Rightarrow> (int \<times> 'd) res"

section \<open>Operations\<close>

text \<open>The loop \<open>while (*p)\<close> over a C string, and its reference: the same over a list.\<close>

fun iter_list :: "'d iter_fn \<Rightarrow> char list \<Rightarrow> 'd \<Rightarrow> (int \<times> 'd) res" where
  "iter_list f1 [] d = Inr (0, d)"
| "iter_list f1 (c # cs) d =
     rbind (f1 c d) (\<lambda>(r, d). if r \<noteq> 0 then Inr (1, d) else iter_list f1 cs d)"

function iter_fn_loop :: "'d iter_fn \<Rightarrow> cord_fn \<Rightarrow> nat \<Rightarrow> nat \<Rightarrow> 'd \<Rightarrow> (int \<times> 'd) res" where
  "iter_fn_loop f1 f j lim d =
     (if j < lim then
        rbind (call_fn f j) (\<lambda>c. rbind (f1 c d) (\<lambda>(r, d).
          if r \<noteq> 0 then Inr (1, d) else iter_fn_loop f1 f (Suc j) lim d))
      else Inr (0, d))"
  by pat_completeness auto
termination
  by (relation "measure (\<lambda>(_, _, j, lim, _). lim - j)") auto

fun iter5_node :: "node \<Rightarrow> nat \<Rightarrow> 'd iter_fn \<Rightarrow> 'd batched_iter_fn option \<Rightarrow> 'd \<Rightarrow> (int \<times> 'd) res" where
  "iter5_node (Str s) i f1 f2 d =
     rbind (c_char s i) (\<lambda>c.
       if c = NUL then Inl (Abort ''2nd arg to CORD_iter5 too big'')
       else case f2 of
         Some g \<Rightarrow> g (drop i s) d
       | None \<Rightarrow> iter_list f1 (takeWhile (\<lambda>c. c \<noteq> NUL) (drop i s)) d)"
| "iter5_node (Conc dep ll len left right) i f1 f2 d =
     (let left_len = LEFT_LEN ll len left right
      in if i > 0 \<and> i \<ge> left_len then iter5_node right (i - left_len) f1 f2 d
         else rbind (iter5_node left i f1 f2 d) (\<lambda>(r, d).
           if r \<noteq> 0 then Inr (1, d) else iter5_node right 0 f1 f2 d))"
| "iter5_node (Fnode h len f) i f1 f2 d = iter_fn_loop f1 f i len d"

definition CORD_iter5 :: "CORD \<Rightarrow> nat \<Rightarrow> 'd iter_fn \<Rightarrow> 'd batched_iter_fn option \<Rightarrow> 'd \<Rightarrow> (int \<times> 'd) res" where
  "CORD_iter5 x i f1 f2 d = (case x of None \<Rightarrow> Inr (0, d) | Some y \<Rightarrow> iter5_node y i f1 f2 d)"

definition CORD_iter :: "CORD \<Rightarrow> 'd iter_fn \<Rightarrow> 'd \<Rightarrow> (int \<times> 'd) res" where
  "CORD_iter x f1 d = CORD_iter5 x 0 f1 None d"

text \<open>The backward loops count down and stop after index 0.\<close>

fun riter_string :: "'d iter_fn \<Rightarrow> char list \<Rightarrow> nat \<Rightarrow> 'd \<Rightarrow> (int \<times> 'd) res" where
  "riter_string f1 s p d =
     rbind (c_char s p) (\<lambda>c.
       if c = NUL then Inl (Abort ''2nd arg to CORD_riter4 too big'')
       else rbind (f1 c d) (\<lambda>(r, d).
         if r \<noteq> 0 then Inr (1, d)
         else if p = 0 then Inr (0, d)
         else riter_string f1 s (p - 1) d))"

fun riter_fn_loop :: "'d iter_fn \<Rightarrow> cord_fn \<Rightarrow> nat \<Rightarrow> 'd \<Rightarrow> (int \<times> 'd) res" where
  "riter_fn_loop f1 f j d =
     rbind (call_fn f j) (\<lambda>c. rbind (f1 c d) (\<lambda>(r, d).
       if r \<noteq> 0 then Inr (1, d)
       else if j = 0 then Inr (0, d)
       else riter_fn_loop f1 f (j - 1) d))"

fun riter4_node :: "node \<Rightarrow> nat \<Rightarrow> 'd iter_fn \<Rightarrow> 'd \<Rightarrow> (int \<times> 'd) res" where
  "riter4_node (Str s) i f1 d = riter_string f1 s i d"
| "riter4_node (Conc dep ll len left right) i f1 d =
     (let left_len = LEFT_LEN ll len left right
      in if i \<ge> left_len then
           rbind (riter4_node right (i - left_len) f1 d) (\<lambda>(r, d).
             if r \<noteq> 0 then Inr (1, d) else riter4_node left (left_len - 1) f1 d)
         else riter4_node left i f1 d)"
| "riter4_node (Fnode h len f) i f1 d = riter_fn_loop f1 f i d"

definition CORD_riter4 :: "CORD \<Rightarrow> nat \<Rightarrow> 'd iter_fn \<Rightarrow> 'd \<Rightarrow> (int \<times> 'd) res" where
  "CORD_riter4 x i f1 d = (case x of None \<Rightarrow> Inr (0, d) | Some y \<Rightarrow> riter4_node y i f1 d)"

definition CORD_riter :: "CORD \<Rightarrow> 'd iter_fn \<Rightarrow> 'd \<Rightarrow> (int \<times> 'd) res" where
  "CORD_riter x f1 d = CORD_riter4 x ((CORD_len x + size_max - 1) mod size_max) f1 d"

declare iter_fn_loop.simps [simp del] riter_string.simps [simp del] riter_fn_loop.simps [simp del]

section \<open>Correctness\<close>

text \<open>
  Two outcomes a client cannot tell apart but by the value of a nonzero result, with the data
  related by \<open>R False\<close> while the traversal goes on and by \<open>R True\<close> once a callback has
  stopped it.
\<close>

definition sim_iter :: "(bool \<Rightarrow> 'd \<Rightarrow> 'a \<Rightarrow> bool) \<Rightarrow> (int \<times> 'd) res \<Rightarrow> (int \<times> 'a) res \<Rightarrow> bool" where
  "sim_iter R a b \<longleftrightarrow> rel_sum (=) (\<lambda>(r, d) (r', d'). (r \<noteq> 0) = (r' \<noteq> 0) \<and> R (r \<noteq> 0) d d') a b"

text \<open>Two callbacks, and a batched and an unbatched one, that preserve such a relation.\<close>

definition sim_fn :: "(bool \<Rightarrow> 'd \<Rightarrow> 'a \<Rightarrow> bool) \<Rightarrow> 'd iter_fn \<Rightarrow> 'a iter_fn \<Rightarrow> bool" where
  "sim_fn R f1 h \<longleftrightarrow> (\<forall>c d a. R False d a \<longrightarrow> sim_iter R (f1 c d) (h c a))"

definition sim_batched :: "(bool \<Rightarrow> 'd \<Rightarrow> 'a \<Rightarrow> bool) \<Rightarrow> 'd batched_iter_fn option \<Rightarrow> 'a iter_fn \<Rightarrow> bool" where
  "sim_batched R f2 h \<longleftrightarrow>
     (\<forall>g s d a. f2 = Some g \<longrightarrow> nul_free s \<longrightarrow> s \<noteq> [] \<longrightarrow> R False d a \<longrightarrow> sim_iter R (g s d) (iter_list h s a))"

lemma iter_list_append:
  "iter_list f1 (xs @ ys) d =
     rbind (iter_list f1 xs d) (\<lambda>(r, d). if r \<noteq> 0 then Inr (1, d) else iter_list f1 ys d)"
proof (induction xs arbitrary: d)
  case (Cons x xs)
  then show ?case by (cases "f1 x d") (auto simp: split_beta rbind_assoc)
qed simp

lemma iter_list_result: "iter_list f1 xs d = Inr (r, d') \<Longrightarrow> r = 0 \<or> r = 1"
  by (induction f1 xs d rule: iter_list.induct) (auto simp: rbind_eq_Inr split: if_splits)

lemma sim_iter_bind:
  assumes "sim_iter R a b" "\<And>d d'. R False d d' \<Longrightarrow> sim_iter R (k d) (k' d')"
  shows "sim_iter R (rbind a (\<lambda>(r, d). if r \<noteq> 0 then Inr (1, d) else k d))
    (rbind b (\<lambda>(r, d). if r \<noteq> 0 then Inr (1, d) else k' d))"
  using assms by (cases a; cases b) (auto simp: sim_iter_def split: prod.splits)

lemma iter_list_sim:
  "sim_fn R f1 h \<Longrightarrow> R False d a \<Longrightarrow> sim_iter R (iter_list f1 xs d) (iter_list h xs a)"
proof (induction xs arbitrary: d a)
  case (Cons c xs)
  then have "sim_iter R (f1 c d) (h c a)" by (simp add: sim_fn_def)
  with Cons show ?case by (auto intro!: sim_iter_bind)
qed (simp add: sim_iter_def)

lemma iter_fn_loop_wf:
  assumes "wf_fn h n f" "lim \<le> n"
  shows "iter_fn_loop f1 f j lim d = iter_list f1 (map (fn_char f) [j..<lim]) d"
  using assms
proof (induction f1 f j lim d rule: iter_fn_loop.induct)
  case (1 f1 f j lim d)
  show ?case
  proof (cases "j < lim")
    case True
    then have c: "call_fn f j = Inr (fn_char f j)" using "1.prems" by (intro call_fn_wf [of h n]) auto
    show ?thesis
    proof (cases "f1 (fn_char f j) d")
      case (Inr rd)
      obtain r d' where rd: "rd = (r, d')" by (cases rd)
      show ?thesis
        using "1.IH" [OF True c] "1.prems" Inr rd True c
        by (subst iter_fn_loop.simps) (auto simp: upt_conv_Cons)
    qed (use True c in \<open>subst iter_fn_loop.simps, auto simp: upt_conv_Cons\<close>)
  qed (subst iter_fn_loop.simps, simp)
qed

lemma iter5_node_ok:
  assumes "sim_fn R f1 h" "sim_batched R f2 h"
  shows "wf_node x \<Longrightarrow> i < LEN x \<Longrightarrow> R False d a \<Longrightarrow>
    sim_iter R (iter5_node x i f1 f2 d) (iter_list h (drop i (chars x)) a)"
proof (induction x arbitrary: i d a rule: chars.induct)
  case (1 s)
  then have "nul_free (drop i s)" "drop i s \<noteq> []" "s ! i \<noteq> NUL" by (auto simp: nul_free_drop nul_free_nth)
  with 1 assms iter_list_sim [OF assms(1)] show ?case by (cases f2) (auto simp: sim_batched_def)
next
  case (2 dep ll len l r)
  have w: "wf_node l" "wf_node r" "len = LEN l + LEN r" "LEFT_LEN ll len l r = LEN l"
    "length (chars l) = LEN l" "0 < LEN r"
    using "2.prems"(1) LEFT_LEN_wf [OF "2.prems"(1)] by (auto simp: length_chars LEN_pos)
  show ?case
  proof (cases "i > 0 \<and> i \<ge> LEN l")
    case True
    have "sim_iter R (iter5_node r (i - LEN l) f1 f2 d) (iter_list h (drop (i - LEN l) (chars r)) a)"
      using "2.prems" True w by (intro "2.IH"(2)) auto
    with True w show ?thesis by auto
  next
    case False
    then have i: "i < LEN l" using LEN_pos [OF w(1)] by auto
    have l: "sim_iter R (iter5_node l i f1 f2 d) (iter_list h (drop i (chars l)) a)"
      using w i "2.prems"(3) by (intro "2.IH"(1)) auto
    have r: "sim_iter R (iter5_node r 0 f1 f2 d) (iter_list h (chars r) a)" if "R False d a" for d a
      using "2.IH"(2) [of 0 d a] w that by auto
    have "iter5_node (Conc dep ll len l r) i f1 f2 d = rbind (iter5_node l i f1 f2 d) (\<lambda>(r', d).
           if r' \<noteq> 0 then Inr (1, d) else iter5_node r 0 f1 f2 d)"
      using False w(4) by (auto simp: Let_def)
    moreover have "drop i (chars l @ chars r) = drop i (chars l) @ chars r" using i w(5) by simp
    ultimately show ?thesis using sim_iter_bind [OF l r] by (simp add: iter_list_append)
  qed
next
  case (3 h' n f)
  then have "drop i (chars (Fnode h' n f)) = map (fn_char f) [i..<n]" by (simp add: drop_map)
  with 3 iter_list_sim [OF assms(1)] show ?case by (simp add: iter_fn_loop_wf)
qed

lemma CORD_iter5_spec:
  assumes "wf_cord x" "i < CORD_len x" "sim_fn R f1 h" "sim_batched R f2 h" "R False d a"
  shows "sim_iter R (CORD_iter5 x i f1 f2 d) (iter_list h (drop i (cord_chars x)) a)"
  using assms iter5_node_ok [OF assms(3,4)] by (cases x) (auto simp: CORD_iter5_def)

lemma iter5_node_None:
  "wf_node x \<Longrightarrow> i < LEN x \<Longrightarrow> iter5_node x i f1 None d = iter_list f1 (drop i (chars x)) d"
proof (induction x arbitrary: i d rule: chars.induct)
  case (1 s)
  then have "nul_free (drop i s)" "s ! i \<noteq> NUL" by (auto simp: nul_free_drop nul_free_nth)
  with 1 show ?case by simp
next
  case (2 dep ll len l r)
  have w: "wf_node l" "wf_node r" "len = LEN l + LEN r" "LEFT_LEN ll len l r = LEN l"
    "length (chars l) = LEN l" "0 < LEN r"
    using "2.prems"(1) LEFT_LEN_wf [OF "2.prems"(1)] by (auto simp: length_chars LEN_pos)
  show ?case
  proof (cases "i > 0 \<and> i \<ge> LEN l")
    case True
    with "2.IH"(2) [of "i - LEN l"] "2.prems" w show ?thesis by auto
  next
    case False
    then have i: "i < LEN l" using LEN_pos [OF w(1)] by auto
    with False "2.IH"(1) [of i] "2.IH"(2) [of 0] w show ?thesis
      by (auto simp: Let_def iter_list_append cong: if_cong)
  qed
next
  case (3 h n f)
  then have "drop i (chars (Fnode h n f)) = map (fn_char f) [i..<n]" by (simp add: drop_map)
  with 3 show ?case by (simp add: iter_fn_loop_wf)
qed

lemma riter_string_ok:
  assumes "nul_free s" "p < length s"
  shows "riter_string f1 s p d = iter_list f1 (rev (take (Suc p) s)) d"
  using assms(2)
proof (induction p arbitrary: d)
  case 0
  then show ?case using assms(1) nul_free_nth [of s 0]
    by (subst riter_string.simps) (cases s, auto intro!: arg_cong [where f = "rbind _"])
next
  case (Suc p)
  have t: "rev (take (Suc (Suc p)) s) = s ! Suc p # rev (take (Suc p) s)"
    using Suc.prems by (simp add: take_Suc_conv_app_nth)
  then show ?case using Suc assms(1) nul_free_nth [of s "Suc p"]
    by (subst riter_string.simps) (auto intro!: arg_cong [where f = "rbind _"])
qed

lemma riter_fn_loop_ok:
  assumes "wf_fn h n f" "j < n"
  shows "riter_fn_loop f1 f j d = iter_list f1 (rev (map (fn_char f) [0..<Suc j])) d"
  using assms(2)
proof (induction j arbitrary: d)
  case 0
  then show ?case using call_fn_wf [OF assms(1), of 0]
    by (subst riter_fn_loop.simps) (auto intro!: arg_cong [where f = "rbind _"])
next
  case (Suc j)
  then show ?case using call_fn_wf [OF assms(1), of "Suc j"]
    by (subst riter_fn_loop.simps) (auto intro!: arg_cong [where f = "rbind _"])
qed

lemma riter4_node_ok:
  "wf_node x \<Longrightarrow> i < LEN x \<Longrightarrow> riter4_node x i f1 d = iter_list f1 (rev (take (Suc i) (chars x))) d"
proof (induction x arbitrary: i d rule: chars.induct)
  case (1 s)
  then show ?case by (simp add: riter_string_ok)
next
  case (2 dep ll len l r)
  have w: "wf_node l" "wf_node r" "len = LEN l + LEN r" "LEFT_LEN ll len l r = LEN l"
    "length (chars l) = LEN l" "0 < LEN l"
    using "2.prems"(1) LEFT_LEN_wf [OF "2.prems"(1)] by (auto simp: length_chars LEN_pos)
  show ?case
  proof (cases "i \<ge> LEN l")
    case True
    have "take (Suc i) (chars l @ chars r) = chars l @ take (Suc (i - LEN l)) (chars r)"
      using True w(5) by (simp add: Suc_diff_le)
    moreover have "riter4_node l (LEN l - 1) f1 d = iter_list f1 (rev (chars l)) d" for d
      using "2.IH"(1) [of "LEN l - 1" d] w by auto
    moreover have "riter4_node r (i - LEN l) f1 d = iter_list f1 (rev (take (Suc (i - LEN l)) (chars r))) d"
      using "2.IH"(2) [of "i - LEN l" d] "2.prems"(2) True w by auto
    ultimately show ?thesis using True w(4) by (simp add: Let_def iter_list_append cong: if_cong)
  next
    case False
    with "2.IH"(1) [of i d] w show ?thesis by auto
  qed
next
  case (3 h n f)
  then have "take (Suc i) (chars (Fnode h n f)) = map (fn_char f) [0..<Suc i]"
    by (simp add: take_map)
  with 3 show ?case by (simp add: riter_fn_loop_ok del: upt_Suc)
qed

lemma CORD_riter4_spec:
  assumes "wf_cord x" "i < CORD_len x"
  shows "CORD_riter4 x i f1 d = iter_list f1 (rev (take (Suc i) (cord_chars x))) d"
  using assms by (cases x) (auto simp: CORD_riter4_def riter4_node_ok)

lemma CORD_riter_spec:
  assumes "wf_cord x" "CORD_len x < size_max"
  shows "CORD_riter x f1 d = iter_list f1 (rev (cord_chars x)) d"
proof (cases x)
  case (Some y)
  have pos: "0 < LEN y" using assms(1) Some by (simp add: LEN_pos)
  have "(LEN y + size_max - 1) mod size_max = LEN y - 1"
    using pos assms(2) Some by (simp add: mod_if)
  then show ?thesis
    using assms Some pos riter4_node_ok [of y "LEN y - 1" f1 d]
    by (simp add: CORD_riter_def CORD_riter4_def length_chars)
qed (simp add: CORD_riter_def CORD_riter4_def)

end
