(* ===== verification/Cord_Pos.thy ===== *)
theory Cord_Pos
  imports Cord_Substr
begin

text \<open>
  Cord positions (\<open>CORD_pos\<close> of \<^verbatim>\<open>libs/gc/include/private/cord_pos.h\<close> and the position
  primitives at the end of \<^verbatim>\<open>libs/gc/cord/cordbscs.c\<close>): a path from the root of a cord to
  a leaf, with a window of characters of that leaf. Both versions of the operations are
  modelled, the macros the clients see and the functions of the same names (suffix \<open>_fn\<close>).
\<close>

section \<open>The position structure\<close>

record pe =
  pe_cord :: node
  pe_start_pos :: nat

datatype leaf_ptr = LeafString "char list" | LeafBuf

record cord_pos =
  cur_pos :: nat
  path_len :: int
  cur_leaf :: "leaf_ptr option"
  cur_start :: nat
  cur_end :: nat
  path :: "pe option list"
  function_buf :: "char option list"

definition CORD_POS_INVALID :: int where
  "CORD_POS_INVALID = 0x55555555"

definition FUNCTION_BUF_SZ :: nat where
  "FUNCTION_BUF_SZ = 8"

text \<open>A position no operation has initialised yet.\<close>

definition fresh_pos :: cord_pos where
  "fresh_pos = \<lparr>cur_pos = 0, path_len = 0, cur_leaf = None, cur_start = 0, cur_end = 0,
     path = replicate (MAX_DEPTH + 1) None, function_buf = replicate FUNCTION_BUF_SZ None\<rparr>"

definition get_pe :: "cord_pos \<Rightarrow> int \<Rightarrow> pe res" where
  "get_pe p k =
     (if 0 \<le> k \<and> k < int (length (path p)) then
        (case path p ! nat k of Some e \<Rightarrow> Inr e | None \<Rightarrow> Inl Uninitialised)
      else Inl OutOfBounds)"

definition set_pe :: "cord_pos \<Rightarrow> int \<Rightarrow> pe \<Rightarrow> cord_pos res" where
  "set_pe p k e =
     (if 0 \<le> k \<and> k < int (length (path p)) then Inr (p\<lparr>path := (path p)[nat k := Some e]\<rparr>)
      else Inl OutOfBounds)"

text \<open>\<open>cur_leaf[k]\<close>.\<close>

definition read_leaf :: "cord_pos \<Rightarrow> int \<Rightarrow> char res" where
  "read_leaf p k =
     (if k < 0 then Inl OutOfBounds
      else case cur_leaf p of
        None \<Rightarrow> Inl Uninitialised
      | Some (LeafString s) \<Rightarrow> c_char s (nat k)
      | Some LeafBuf \<Rightarrow>
          (if nat k < length (function_buf p) then
             (case function_buf p ! nat k of Some c \<Rightarrow> Inr c | None \<Rightarrow> Inl Uninitialised)
           else Inl OutOfBounds))"

section \<open>The hard cases\<close>

text \<open>The loop of \<open>CORD__extend_path\<close>, descending through the concatenations below \<open>top\<close>.\<close>

fun extend_loop :: "node \<Rightarrow> nat \<Rightarrow> nat \<Rightarrow> cord_pos \<Rightarrow> (node \<times> nat \<times> nat \<times> cord_pos) res" where
  "extend_loop (Conc d ll n left right) top_pos top_len p =
     (let left_len = LEFT_LEN ll n left right
      in if cur_pos p \<ge> top_pos + left_len then
           rbind (set_pe p (path_len p + 1) \<lparr>pe_cord = right, pe_start_pos = top_pos + left_len\<rparr>) (\<lambda>p.
             extend_loop right (top_pos + left_len) (top_len - left_len) (p\<lparr>path_len := path_len p + 1\<rparr>))
         else
           rbind (set_pe p (path_len p + 1) \<lparr>pe_cord = left, pe_start_pos = top_pos\<rparr>) (\<lambda>p.
             extend_loop left top_pos left_len (p\<lparr>path_len := path_len p + 1\<rparr>)))"
| "extend_loop node top_pos top_len p = Inr (node, top_pos, top_len, p)"

definition CORD__extend_path :: "cord_pos \<Rightarrow> cord_pos res" where
  "CORD__extend_path p =
     rbind (get_pe p (path_len p)) (\<lambda>e.
     rbind (extend_loop (pe_cord e) (pe_start_pos e) (GEN_LEN (pe_cord e)) p) (\<lambda>(node, top_pos, top_len, p).
       let p = (case node of
                  Str s \<Rightarrow> p\<lparr>cur_leaf := Some (LeafString s), cur_start := top_pos, cur_end := top_pos + top_len\<rparr>
                | _ \<Rightarrow> p\<lparr>cur_end := 0\<rparr>)
       in Inr (if cur_pos p \<ge> top_pos + top_len then p\<lparr>path_len := CORD_POS_INVALID\<rparr> else p)))"

definition CORD__pos_fetch :: "cord_pos \<Rightarrow> char res" where
  "CORD__pos_fetch p =
     rbind (get_pe p (path_len p)) (\<lambda>e.
       case pe_cord e of
         Fnode _ _ f \<Rightarrow>
           (if pe_start_pos e \<le> cur_pos p then call_fn f (cur_pos p - pe_start_pos e) else Inl OutOfBounds)
       | Conc _ _ _ _ _ \<Rightarrow> Inl (Abort ''CORD_pos_fetch: bad leaf'')
       | Str _ \<Rightarrow> Inl BadNode)"

function fill_function_buf :: "cord_fn \<Rightarrow> nat \<Rightarrow> nat \<Rightarrow> nat \<Rightarrow> nat \<Rightarrow> char option list \<Rightarrow> char option list res" where
  "fill_function_buf f start_pos cur i limit buf =
     (if i < limit then
        if i - cur < length buf then
          rbind (call_fn f (i - start_pos)) (\<lambda>c.
            fill_function_buf f start_pos cur (Suc i) limit (buf[i - cur := Some c]))
        else Inl OutOfBounds
      else Inr buf)"
  by pat_completeness auto
termination
  by (relation "measure (\<lambda>(_, _, _, i, limit, _). limit - i)") auto

text \<open>\<open>pop eq\<close>: pop the path while the start positions of its last two entries are equal
  (\<open>eq\<close>) or different.\<close>

function pop_path :: "bool \<Rightarrow> cord_pos \<Rightarrow> int \<Rightarrow> int res" where
  "pop_path eq p k =
     (if 0 < k then
        rbind (get_pe p k) (\<lambda>e. rbind (get_pe p (k - 1)) (\<lambda>e'.
          if (pe_start_pos e = pe_start_pos e') = eq then pop_path eq p (k - 1) else Inr k))
      else Inr k)"
  by pat_completeness auto
termination
  by (relation "measure (\<lambda>(_, _, k). nat k)") auto

definition CORD__next :: "cord_pos \<Rightarrow> cord_pos res" where
  "CORD__next p =
     rbind (get_pe p (path_len p)) (\<lambda>e.
       let cur = size_add (cur_pos p) 1; p = p\<lparr>cur_pos := cur\<rparr>;
           end_of_leaf =
             rbind (pop_path False p (path_len p)) (\<lambda>k.
               if k = 0 then Inr (p\<lparr>path_len := CORD_POS_INVALID\<rparr>)
               else CORD__extend_path (p\<lparr>path_len := k - 1\<rparr>))
       in case pe_cord e of
            Fnode _ len f \<Rightarrow>
              (let start_pos = pe_start_pos e; end_pos = start_pos + len
               in if cur < end_pos then
                    (let limit = (if cur + FUNCTION_BUF_SZ > end_pos then end_pos else cur + FUNCTION_BUF_SZ)
                     in rbind (fill_function_buf f start_pos cur cur limit (function_buf p)) (\<lambda>buf.
                          Inr (p\<lparr>function_buf := buf, cur_start := cur, cur_leaf := Some LeafBuf, cur_end := limit\<rparr>)))
                  else end_of_leaf)
          | Conc _ _ _ _ _ \<Rightarrow> Inl BadNode
          | Str _ \<Rightarrow> end_of_leaf)"

definition CORD__prev :: "cord_pos \<Rightarrow> cord_pos res" where
  "CORD__prev p =
     (if cur_pos p = 0 then Inr (p\<lparr>path_len := CORD_POS_INVALID\<rparr>)
      else
        let p = p\<lparr>cur_pos := cur_pos p - 1\<rparr>
        in rbind (get_pe p (path_len p)) (\<lambda>e.
             if cur_pos p \<ge> pe_start_pos e then Inr p
             else rbind (pop_path True p (path_len p)) (\<lambda>k.
               CORD__extend_path (p\<lparr>path_len := k - 1\<rparr>))))"

section \<open>The macros\<close>

definition CORD_pos_fetch :: "cord_pos \<Rightarrow> char res" where
  "CORD_pos_fetch p =
     (if cur_end p \<noteq> 0 then read_leaf p (int (cur_pos p) - int (cur_start p)) else CORD__pos_fetch p)"

definition CORD_next :: "cord_pos \<Rightarrow> cord_pos res" where
  "CORD_next p =
     (if size_add (cur_pos p) 1 < cur_end p then Inr (p\<lparr>cur_pos := size_add (cur_pos p) 1\<rparr>) else CORD__next p)"

definition CORD_prev :: "cord_pos \<Rightarrow> cord_pos res" where
  "CORD_prev p =
     (if cur_end p \<noteq> 0 \<and> cur_pos p > cur_start p then Inr (p\<lparr>cur_pos := cur_pos p - 1\<rparr>) else CORD__prev p)"

definition CORD_pos_to_index :: "cord_pos \<Rightarrow> nat" where
  "CORD_pos_to_index p = cur_pos p"

definition CORD_pos_to_cord :: "cord_pos \<Rightarrow> node res" where
  "CORD_pos_to_cord p = rbind (get_pe p 0) (\<lambda>e. Inr (pe_cord e))"

definition CORD_pos_valid :: "cord_pos \<Rightarrow> bool" where
  "CORD_pos_valid p \<longleftrightarrow> path_len p \<noteq> CORD_POS_INVALID"

definition CORD_pos_chars_left :: "cord_pos \<Rightarrow> int" where
  "CORD_pos_chars_left p = long_of_size (cur_end p) - long_of_size (cur_pos p)"

definition CORD_pos_advance :: "cord_pos \<Rightarrow> nat \<Rightarrow> cord_pos res" where
  "CORD_pos_advance p n = CORD_next (p\<lparr>cur_pos := size_add (cur_pos p) (n + size_max - 1)\<rparr>)"

section \<open>The functions\<close>

definition CORD_pos_fetch_fn :: "cord_pos \<Rightarrow> char res" where
  "CORD_pos_fetch_fn p =
     (if cur_start p \<le> cur_pos p \<and> cur_pos p < cur_end p then
        read_leaf p (int (cur_pos p) - int (cur_start p))
      else CORD__pos_fetch p)"

definition CORD_next_fn :: "cord_pos \<Rightarrow> cord_pos res" where
  "CORD_next_fn p =
     (if cur_pos p < (cur_end p + size_max - 1) mod size_max then Inr (p\<lparr>cur_pos := size_add (cur_pos p) 1\<rparr>)
      else CORD__next p)"

definition CORD_prev_fn :: "cord_pos \<Rightarrow> cord_pos res" where
  "CORD_prev_fn p =
     (if cur_end p \<noteq> 0 \<and> cur_pos p > cur_start p then Inr (p\<lparr>cur_pos := cur_pos p - 1\<rparr>) else CORD__prev p)"

definition CORD_set_pos :: "cord_pos \<Rightarrow> CORD \<Rightarrow> nat \<Rightarrow> cord_pos res" where
  "CORD_set_pos p x i =
     (case x of
        None \<Rightarrow> Inr (p\<lparr>path_len := CORD_POS_INVALID\<rparr>)
      | Some y \<Rightarrow>
          rbind (set_pe p 0 \<lparr>pe_cord = y, pe_start_pos = 0\<rparr>) (\<lambda>p.
            CORD__extend_path (p\<lparr>path_len := 0, cur_pos := i\<rparr>)))"

declare fill_function_buf.simps [simp del] pop_path.simps [simp del]

section \<open>The position invariant\<close>

text \<open>An entry of the path is the left or the right child of the entry before it.\<close>

definition path_step :: "pe \<Rightarrow> pe \<Rightarrow> bool" where
  "path_step e e' \<longleftrightarrow> (\<exists>d ll n l r. pe_cord e = Conc d ll n l r \<and>
     (e' = \<lparr>pe_cord = l, pe_start_pos = pe_start_pos e\<rparr> \<or>
      e' = \<lparr>pe_cord = r, pe_start_pos = pe_start_pos e + LEN l\<rparr>))"

definition path_ok :: "node \<Rightarrow> pe option list \<Rightarrow> nat \<Rightarrow> bool" where
  "path_ok x es k \<longleftrightarrow> cord_ok (Some x) \<and> LEN x < 2 ^ 64 \<and> length es = MAX_DEPTH + 1 \<and> k \<le> MAX_DEPTH \<and>
     es ! 0 = Some \<lparr>pe_cord = x, pe_start_pos = 0\<rparr> \<and>
     (\<forall>j<k. \<exists>e e'. es ! j = Some e \<and> es ! Suc j = Some e' \<and> path_step e e')"

text \<open>A node sits in a cord at offset \<open>s\<close>.\<close>

definition located :: "node \<Rightarrow> node \<Rightarrow> nat \<Rightarrow> bool" where
  "located x y s \<longleftrightarrow> wf_node y \<and> s + LEN y \<le> LEN x \<and> (\<forall>i<LEN y. chars x ! (s + i) = chars y ! i)"

lemma located_children:
  assumes "located x (Conc d ll n l r) s"
  shows "located x l s" "located x r (s + LEN l)"
  using assms
  by (auto simp: located_def nth_append length_chars add.assoc)

lemma path_entry:
  assumes "path_ok x es k" "j \<le> k"
  obtains e where "es ! j = Some e" "located x (pe_cord e) (pe_start_pos e)" "DEPTH (pe_cord e) + j \<le> DEPTH x"
proof -
  have "\<exists>e. es ! j = Some e \<and> located x (pe_cord e) (pe_start_pos e) \<and> DEPTH (pe_cord e) + j \<le> DEPTH x"
    using assms(2)
  proof (induction j)
    case 0
    then show ?case using assms(1) by (auto simp: path_ok_def located_def cord_ok_def)
  next
    case (Suc j)
    then obtain e where e: "es ! j = Some e" "located x (pe_cord e) (pe_start_pos e)"
      "DEPTH (pe_cord e) + j \<le> DEPTH x" by auto
    obtain e' where e': "es ! Suc j = Some e'" "path_step e e'"
    proof -
      have "j < k" using Suc.prems by simp
      with assms(1) have "\<exists>e e'. es ! j = Some e \<and> es ! Suc j = Some e' \<and> path_step e e'"
        unfolding path_ok_def by blast
      with e(1) that show thesis by auto
    qed
    from e'(2) obtain d ll n l r where c: "pe_cord e = Conc d ll n l r"
      "e' = \<lparr>pe_cord = l, pe_start_pos = pe_start_pos e\<rparr> \<or>
       e' = \<lparr>pe_cord = r, pe_start_pos = pe_start_pos e + LEN l\<rparr>"
      by (auto simp: path_step_def)
    have "d = Suc (max (DEPTH l) (DEPTH r))" using e(2) c(1) by (auto simp: located_def)
    with e c located_children [of x d ll n l r "pe_start_pos e"] e'(1) show ?case by auto
  qed
  then show thesis using that by blast
qed

definition window_ok :: "node \<Rightarrow> cord_pos \<Rightarrow> pe \<Rightarrow> bool" where
  "window_ok x p e \<longleftrightarrow>
     (cur_end p \<noteq> 0 \<longrightarrow> pe_start_pos e \<le> cur_start p \<and> cur_start p < cur_end p \<and>
        cur_end p \<le> pe_start_pos e + LEN (pe_cord e) \<and>
        (\<forall>k. cur_start p \<le> k \<and> k < cur_end p \<longrightarrow> read_leaf p (int k - int (cur_start p)) = Inr (chars x ! k))) \<and>
     (IS_STRING (pe_cord e) \<longrightarrow>
        cur_start p = pe_start_pos e \<and> cur_end p = pe_start_pos e + LEN (pe_cord e))"

definition pos_at :: "node \<Rightarrow> cord_pos \<Rightarrow> bool" where
  "pos_at x p \<longleftrightarrow> 0 \<le> path_len p \<and> path_ok x (path p) (nat (path_len p)) \<and>
     length (function_buf p) = FUNCTION_BUF_SZ \<and>
     (\<exists>e. path p ! nat (path_len p) = Some e \<and> (\<forall>d ll n l r. pe_cord e \<noteq> Conc d ll n l r) \<and>
        pe_start_pos e \<le> cur_pos p \<and> cur_pos p < pe_start_pos e + LEN (pe_cord e) \<and> window_ok x p e)"

text \<open>The window holds the current position: true while only moving forward.\<close>

definition pos_fwd :: "cord_pos \<Rightarrow> bool" where
  "pos_fwd p \<longleftrightarrow> cur_end p = 0 \<or> cur_start p \<le> cur_pos p \<and> cur_pos p < cur_end p"

lemma get_pe_path:
  assumes "path_ok x (path p) k" "j \<le> k"
  obtains e where "get_pe p (int j) = Inr e" "path p ! j = Some e"
    "located x (pe_cord e) (pe_start_pos e)" "DEPTH (pe_cord e) + j \<le> DEPTH x"
proof -
  obtain e where "path p ! j = Some e" "located x (pe_cord e) (pe_start_pos e)" "DEPTH (pe_cord e) + j \<le> DEPTH x"
    using assms by (rule path_entry)
  moreover have "j < length (path p)" using assms by (auto simp: path_ok_def)
  ultimately show thesis using that [of e] by (simp add: get_pe_def)
qed

section \<open>The path operations keep the invariant\<close>

lemma path_ok_le: "path_ok x es k \<Longrightarrow> j \<le> k \<Longrightarrow> path_ok x es j"
  by (auto simp: path_ok_def)

lemma path_ok_extend:
  assumes "path_ok x es k" "es ! k = Some e" "path_step e e'" "Suc k \<le> MAX_DEPTH"
  shows "path_ok x (es[Suc k := Some e']) (Suc k)"
proof -
  have "Suc k < length es" using assms(1,4) by (simp add: path_ok_def)
  then show ?thesis using assms by (auto simp: path_ok_def nth_list_update less_Suc_eq)
qed

lemma path_ok_step:
  assumes "path_ok x es k" "Suc j \<le> k"
  obtains e e' where "es ! j = Some e" "es ! Suc j = Some e'" "path_step e e'"
  using assms unfolding path_ok_def by (meson Suc_le_lessD)

lemma path_stepE:
  assumes "path_step e e'" "wf_node (pe_cord e)"
  obtains (left) d ll n l r where "pe_cord e = Conc d ll n l r" "pe_cord e' = l"
      "pe_start_pos e' = pe_start_pos e" "LEN l < LEN (pe_cord e)"
  | (right) d ll n l r where "pe_cord e = Conc d ll n l r" "pe_cord e' = r"
      "pe_start_pos e' = pe_start_pos e + LEN l" "0 < LEN l"
      "pe_start_pos e' + LEN (pe_cord e') = pe_start_pos e + LEN (pe_cord e)"
proof -
  from assms(1) obtain d ll n l r where c: "pe_cord e = Conc d ll n l r"
      "e' = \<lparr>pe_cord = l, pe_start_pos = pe_start_pos e\<rparr> \<or>
       e' = \<lparr>pe_cord = r, pe_start_pos = pe_start_pos e + LEN l\<rparr>"
    by (auto simp: path_step_def)
  have "0 < LEN l" "0 < LEN r" "n = LEN l + LEN r" using assms(2) c(1) by (auto simp: LEN_pos)
  with c(2) show thesis
    by (elim disjE) (auto intro: left [OF c(1)] right [OF c(1)] simp: c(1))
qed

definition is_conc :: "node \<Rightarrow> bool" where
  "is_conc y \<longleftrightarrow> (\<exists>d ll n l r. y = Conc d ll n l r)"

lemma pos_same_path: "path_len p = int k \<Longrightarrow> p\<lparr>path := path p, path_len := int k\<rparr> = p"
  by (cases p) auto

lemma extend_loop_leaf:
  assumes "path_ok x (path p) k" "path_len p = int k" "\<not> is_conc t"
    "path p ! k = Some \<lparr>pe_cord = t, pe_start_pos = s\<rparr>" "s \<le> cur_pos p"
  shows "\<exists>y s' es k'. extend_loop t s (LEN t) p = Inr (y, s', LEN y, p\<lparr>path := es, path_len := int k'\<rparr>) \<and>
    \<not> is_conc y \<and> path_ok x es k' \<and> es ! k' = Some \<lparr>pe_cord = y, pe_start_pos = s'\<rparr> \<and> s' \<le> cur_pos p \<and>
    (cur_pos p < s' + LEN y \<longleftrightarrow> cur_pos p < s + LEN t)"
proof -
  have "extend_loop t s (LEN t) p = Inr (t, s, LEN t, p)"
    using assms(3) by (cases t) (auto simp: is_conc_def)
  then show ?thesis
    using assms pos_same_path [OF assms(2)]
    by (intro exI [of _ t] exI [of _ s] exI [of _ "path p"] exI [of _ k]) simp
qed

lemma extend_loop_ok:
  assumes "path_ok x (path p) k" "path_len p = int k"
    "path p ! k = Some \<lparr>pe_cord = t, pe_start_pos = s\<rparr>" "s \<le> cur_pos p"
  shows "\<exists>y s' es k'. extend_loop t s (LEN t) p = Inr (y, s', LEN y, p\<lparr>path := es, path_len := int k'\<rparr>) \<and>
    \<not> is_conc y \<and> path_ok x es k' \<and> es ! k' = Some \<lparr>pe_cord = y, pe_start_pos = s'\<rparr> \<and> s' \<le> cur_pos p \<and>
    (cur_pos p < s' + LEN y \<longleftrightarrow> cur_pos p < s + LEN t)"
  using assms
proof (induction t arbitrary: s p k rule: chars.induct)
  case (2 d ll n l r)
  obtain e where e: "path p ! k = Some e" "located x (pe_cord e) (pe_start_pos e)" "DEPTH (pe_cord e) + k \<le> DEPTH x"
    using path_entry [OF "2.prems"(1) order.refl] by blast
  have w: "wf_node (Conc d ll n l r)" "LEFT_LEN ll n l r = LEN l" "n = LEN l + LEN r" "0 < LEN l" "0 < LEN r"
    using e(1,2) "2.prems"(3) LEFT_LEN_wf [of d ll n l r] by (auto simp: located_def LEN_pos)
  have k: "Suc k \<le> MAX_DEPTH" "k < MAX_DEPTH"
    using e(1,3) "2.prems"(1,3) w(1) by (auto simp: path_ok_def cord_ok_def)
  have len: "length (path p) = MAX_DEPTH + 1" using "2.prems"(1) by (simp add: path_ok_def)
  have st: "set_pe p (path_len p + 1) e' = Inr (p\<lparr>path := (path p)[Suc k := Some e']\<rparr>)" for e'
    using len k "2.prems"(2) by (simp add: set_pe_def nat_add_distrib)
  have sub: "n - LEN l = LEN r" "path_len p + 1 = int (Suc k)" using w(3) "2.prems"(2) by simp_all
  show ?case
  proof (cases "cur_pos p \<ge> s + LEN l")
    case True
    let ?e = "\<lparr>pe_cord = r, pe_start_pos = s + LEN l\<rparr>"
    let ?p = "p\<lparr>path := (path p)[Suc k := Some ?e], path_len := int (Suc k)\<rparr>"
    have ok: "path_ok x (path ?p) (Suc k)"
      using path_ok_extend [OF "2.prems"(1,3), of ?e] k(1) by (auto simp: path_step_def)
    have "extend_loop (Conc d ll n l r) s (LEN (Conc d ll n l r)) p = extend_loop r (s + LEN l) (LEN r) ?p"
      using True st [of ?e] by (simp add: w(2) sub Let_def del: of_nat_Suc)
    moreover have "\<exists>y s' es k'. extend_loop r (s + LEN l) (LEN r) ?p = Inr (y, s', LEN y, ?p\<lparr>path := es, path_len := int k'\<rparr>) \<and>
        \<not> is_conc y \<and> path_ok x es k' \<and> es ! k' = Some \<lparr>pe_cord = y, pe_start_pos = s'\<rparr> \<and> s' \<le> cur_pos ?p \<and>
        (cur_pos ?p < s' + LEN y \<longleftrightarrow> cur_pos ?p < s + LEN l + LEN r)"
    proof (rule "2.IH"(2))
      show "path ?p ! Suc k = Some \<lparr>pe_cord = r, pe_start_pos = s + LEN l\<rparr>" using len k by simp
    qed (use ok True in simp_all)
    ultimately show ?thesis using w(3) by (simp add: add.assoc)
  next
    case False
    let ?e = "\<lparr>pe_cord = l, pe_start_pos = s\<rparr>"
    let ?p = "p\<lparr>path := (path p)[Suc k := Some ?e], path_len := int (Suc k)\<rparr>"
    have ok: "path_ok x (path ?p) (Suc k)"
      using path_ok_extend [OF "2.prems"(1,3), of ?e] k(1) by (auto simp: path_step_def)
    have "extend_loop (Conc d ll n l r) s (LEN (Conc d ll n l r)) p = extend_loop l s (LEN l) ?p"
      using False st [of ?e] by (simp add: w(2) sub Let_def del: of_nat_Suc)
    moreover have "\<exists>y s' es k'. extend_loop l s (LEN l) ?p = Inr (y, s', LEN y, ?p\<lparr>path := es, path_len := int k'\<rparr>) \<and>
        \<not> is_conc y \<and> path_ok x es k' \<and> es ! k' = Some \<lparr>pe_cord = y, pe_start_pos = s'\<rparr> \<and> s' \<le> cur_pos ?p \<and>
        (cur_pos ?p < s' + LEN y \<longleftrightarrow> cur_pos ?p < s + LEN l)"
    proof (rule "2.IH"(1))
      show "path ?p ! Suc k = Some \<lparr>pe_cord = l, pe_start_pos = s\<rparr>" using len k by simp
    qed (use ok "2.prems"(4) in simp_all)
    ultimately show ?thesis using w(3) False by simp
  qed
qed (rule extend_loop_leaf; simp add: is_conc_def)+

lemma located_read:
  assumes "located x (Str t) s" "s \<le> k" "k < s + LEN (Str t)"
  shows "c_char t (k - s) = Inr (chars x ! k)"
proof -
  have "k - s < length t" using assms by (auto simp: located_def)
  moreover have "chars x ! (s + (k - s)) = t ! (k - s)"
    using assms unfolding located_def by (metis add_less_imp_less_left chars.simps(1) le_add_diff_inverse)
  ultimately show ?thesis using assms(2) by simp
qed

lemma CORD__extend_path_ok:
  assumes p: "path_ok x (path p) k" "path_len p = int k" "length (function_buf p) = FUNCTION_BUF_SZ"
    and e: "path p ! k = Some e" "pe_start_pos e \<le> cur_pos p"
  obtains p' where "CORD__extend_path p = Inr p'" "cur_pos p' = cur_pos p"
    "cur_pos p < pe_start_pos e + LEN (pe_cord e) \<Longrightarrow> pos_at x p' \<and> pos_fwd p'"
    "pe_start_pos e + LEN (pe_cord e) \<le> cur_pos p \<Longrightarrow> \<not> CORD_pos_valid p'"
proof -
  let ?t = "pe_cord e" and ?s = "pe_start_pos e"
  have get: "get_pe p (path_len p) = Inr e"
    using get_pe_path [OF p(1) order.refl] e(1) p(2) by auto
  obtain y s es k' where loop:
    "extend_loop ?t ?s (LEN ?t) p = Inr (y, s, LEN y, p\<lparr>path := es, path_len := int k'\<rparr>)"
    "\<not> is_conc y" "path_ok x es k'" "es ! k' = Some \<lparr>pe_cord = y, pe_start_pos = s\<rparr>" "s \<le> cur_pos p"
    "cur_pos p < s + LEN y \<longleftrightarrow> cur_pos p < ?s + LEN ?t"
    using extend_loop_ok [OF p(1,2), of ?t ?s] e by (cases e) auto
  have loc: "located x y s" using path_entry [OF loop(3) order.refl] loop(4) by force
  define q where "q = (case y of
      Str t \<Rightarrow> p\<lparr>path := es, path_len := int k', cur_leaf := Some (LeafString t), cur_start := s, cur_end := s + LEN y\<rparr>
    | _ \<Rightarrow> p\<lparr>path := es, path_len := int k', cur_end := 0\<rparr>)"
  have q: "path q = es" "path_len q = int k'" "cur_pos q = cur_pos p" "function_buf q = function_buf p"
    by (cases y; simp add: q_def)+
  have ext: "CORD__extend_path p = Inr (if s + LEN y \<le> cur_pos p then q\<lparr>path_len := CORD_POS_INVALID\<rparr> else q)"
    using get loop(1) q(3) by (cases y) (simp_all add: CORD__extend_path_def q_def Let_def)
  show thesis
  proof (cases "cur_pos p < s + LEN y")
    case True
    have "window_ok x q \<lparr>pe_cord = y, pe_start_pos = s\<rparr>"
    proof (cases y)
      case (Str t)
      have "0 < LEN y" using loc by (auto simp: located_def LEN_pos)
      with Str located_read [of x t s] loc show ?thesis
        by (auto simp: window_ok_def q_def read_leaf_def nat_diff_distrib')
    qed (use loop(2) in \<open>auto simp: window_ok_def q_def is_conc_def\<close>)
    then have "pos_at x q" using True q loop p(3) by (auto simp: pos_at_def is_conc_def)
    moreover have "pos_fwd q" using True loop(5) by (cases y) (auto simp: pos_fwd_def q_def)
    ultimately show thesis using that [of q] ext True loop(6) q(3) by auto
  next
    case False
    then show thesis
      using that [of "q\<lparr>path_len := CORD_POS_INVALID\<rparr>"] ext loop(6) q(3) by (auto simp: CORD_pos_valid_def)
  qed
qed

lemma pop_path_cong:
  assumes "path p = path q"
  shows "pop_path eq p k = pop_path eq q k"
proof (induction "nat k" arbitrary: k)
  case 0
  then show ?case by (simp add: pop_path.simps [of eq _ k])
next
  case (Suc n)
  have "get_pe p = get_pe q" using assms by (simp add: get_pe_def fun_eq_iff)
  moreover have "pop_path eq p (k - 1) = pop_path eq q (k - 1)" using Suc.hyps by simp
  ultimately show ?case by (simp add: pop_path.simps [of eq _ k] cong: if_cong)
qed

text \<open>Popping stops at the root or at an entry whose parent starts elsewhere (or at the same
  place), without changing the end (or the start) of the part of the cord popped to.\<close>

lemma pop_path_ok:
  assumes "path_ok x (path p) k" "path p ! k = Some e"
  shows "\<exists>j e'. pop_path eq p (int k) = Inr (int j) \<and> j \<le> k \<and> path p ! j = Some e' \<and>
    (if eq then pe_start_pos e' = pe_start_pos e
     else pe_start_pos e' + LEN (pe_cord e') = pe_start_pos e + LEN (pe_cord e)) \<and>
    (\<forall>i e''. j = Suc i \<longrightarrow> path p ! i = Some e'' \<longrightarrow> (pe_start_pos e' = pe_start_pos e'') = (\<not> eq))"
  using assms
proof (induction k arbitrary: e)
  case 0
  then show ?case by (subst pop_path.simps) auto
next
  case (Suc k)
  obtain f f' where f: "path p ! k = Some f" "path p ! Suc k = Some f'" "path_step f f'"
    using path_ok_step [OF Suc.prems(1), of k] by auto
  have e: "e = f'" using f(2) Suc.prems(2) by simp
  have wf: "wf_node (pe_cord f)"
    using path_entry [OF Suc.prems(1), of k] f(1) by (force simp: located_def)
  have get: "get_pe p (int (Suc k)) = Inr e" "get_pe p (int (Suc k) - 1) = Inr f"
    using get_pe_path [OF Suc.prems(1) order.refl] get_pe_path [OF Suc.prems(1), of k] f e by force+
  have step: "pop_path eq p (int (Suc k)) =
      (if (pe_start_pos e = pe_start_pos f) = eq then pop_path eq p (int k) else Inr (int (Suc k)))"
    using get by (subst pop_path.simps) simp
  show ?case
  proof (cases "(pe_start_pos e = pe_start_pos f) = eq")
    case True
    have "if eq then pe_start_pos f = pe_start_pos e
        else pe_start_pos f + LEN (pe_cord f) = pe_start_pos e + LEN (pe_cord e)"
      by (rule path_stepE [OF f(3) wf]) (use True e in auto)
    with Suc.IH [OF path_ok_le [OF Suc.prems(1)] f(1)] step True show ?thesis
      by (auto simp: le_Suc_eq)
  next
    case False
    with step f e show ?thesis by (intro exI [of _ "Suc k"] exI [of _ e]) auto
  qed
qed

section \<open>The operations\<close>

lemma cur_pos_irrelevant [simp]:
  "read_leaf (p\<lparr>cur_pos := c\<rparr>) k = read_leaf p k"
  "get_pe (p\<lparr>cur_pos := c\<rparr>) j = get_pe p j"
  by (auto simp: read_leaf_def get_pe_def split: option.splits leaf_ptr.splits)

lemma window_ok_cur_pos [simp]: "window_ok x (p\<lparr>cur_pos := c\<rparr>) e = window_ok x p e"
  by (simp add: window_ok_def)

lemma pos_atE:
  assumes "pos_at x p"
  obtains k e where "path_len p = int k" "path_ok x (path p) k" "length (function_buf p) = FUNCTION_BUF_SZ"
    "path p ! k = Some e" "get_pe p (path_len p) = Inr e" "\<not> is_conc (pe_cord e)"
    "pe_start_pos e \<le> cur_pos p" "cur_pos p < pe_start_pos e + LEN (pe_cord e)" "window_ok x p e"
    "located x (pe_cord e) (pe_start_pos e)" "k \<le> MAX_DEPTH"
proof -
  obtain k where k: "path_len p = int k" using assms by (metis pos_at_def nonneg_int_cases)
  obtain e where e: "path p ! k = Some e" "path_ok x (path p) k"  "length (function_buf p) = FUNCTION_BUF_SZ"
    "\<not> is_conc (pe_cord e)" "pe_start_pos e \<le> cur_pos p" "cur_pos p < pe_start_pos e + LEN (pe_cord e)"
    "window_ok x p e"
    using assms k by (auto simp: pos_at_def is_conc_def)
  moreover have "get_pe p (path_len p) = Inr e" "located x (pe_cord e) (pe_start_pos e)"
    using get_pe_path [OF e(2) order.refl] e(1) k by auto
  moreover have "k \<le> MAX_DEPTH" using e(2) by (simp add: path_ok_def)
  ultimately show thesis using that k by blast
qed

lemma pos_at_valid: "pos_at x p \<Longrightarrow> CORD_pos_valid p"
  by (erule pos_atE) (auto simp: CORD_pos_valid_def CORD_POS_INVALID_def MAX_DEPTH_def)

lemma pos_at_less: "pos_at x p \<Longrightarrow> cur_pos p < LEN x"
  by (erule pos_atE) (auto simp: located_def)

lemma pos_at_size_add: "pos_at x p \<Longrightarrow> size_add (cur_pos p) (Suc 0) = Suc (cur_pos p)"
  using pos_at_less [of x p] by (intro trans [OF size_add_small]) (auto simp: pos_at_def path_ok_def)

lemma pos_at_cord: "pos_at x p \<Longrightarrow> CORD_pos_to_cord p = Inr x"
  by (erule pos_atE) (auto simp: CORD_pos_to_cord_def get_pe_def path_ok_def)

lemma CORD__pos_fetch_ok:
  assumes "pos_at x p" "cur_end p = 0"
  shows "CORD__pos_fetch p = Inr (chars x ! cur_pos p)"
  using assms(1)
proof (rule pos_atE)
  fix k e
  assume e: "get_pe p (path_len p) = Inr e" "\<not> is_conc (pe_cord e)" "pe_start_pos e \<le> cur_pos p"
    "cur_pos p < pe_start_pos e + LEN (pe_cord e)" "window_ok x p e" "located x (pe_cord e) (pe_start_pos e)"
  obtain h n f where f: "pe_cord e = Fnode h n f"
    using e(2,4,5) assms(2) by (cases "pe_cord e") (auto simp: is_conc_def window_ok_def)
  have i: "cur_pos p - pe_start_pos e < n" using e(3,4) f by auto
  have "wf_node (Fnode h n f)" using e(6) f by (simp add: located_def)
  then have "call_fn f (cur_pos p - pe_start_pos e) = Inr (chars (Fnode h n f) ! (cur_pos p - pe_start_pos e))"
    using i by (rule fn_char_chars)
  also have "chars (Fnode h n f) ! (cur_pos p - pe_start_pos e) = chars x ! cur_pos p"
    using e(3,6) f i unfolding located_def by (metis LEN.simps(2) le_add_diff_inverse)
  finally show ?thesis using e(1,3) f by (simp add: CORD__pos_fetch_def)
qed

lemma CORD_pos_fetch_ok:
  assumes "pos_at x p" "pos_fwd p"
  shows "CORD_pos_fetch p = Inr (chars x ! cur_pos p)"
proof (cases "cur_end p = 0")
  case True
  with CORD__pos_fetch_ok [OF assms(1)] show ?thesis by (simp add: CORD_pos_fetch_def)
next
  case False
  show ?thesis
    by (rule pos_atE [OF assms(1)]) (use False assms(2) in \<open>auto simp: window_ok_def pos_fwd_def CORD_pos_fetch_def\<close>)
qed

lemma fill_function_buf_ok:
  assumes "wf_fn h n f" "limit \<le> start + n" "start \<le> cur" "limit \<le> cur + length buf" "cur \<le> i" "i \<le> limit"
  shows "\<exists>buf'. fill_function_buf f start cur i limit buf = Inr buf' \<and> length buf' = length buf \<and>
    (\<forall>k. cur \<le> k \<and> k < i \<longrightarrow> buf' ! (k - cur) = buf ! (k - cur)) \<and>
    (\<forall>k. i \<le> k \<and> k < limit \<longrightarrow> buf' ! (k - cur) = Some (fn_char f (k - start)))"
  using assms
proof (induction "limit - i" arbitrary: i buf)
  case 0
  then show ?case by (subst fill_function_buf.simps) auto
next
  case (Suc d)
  then have i: "i < limit" by simp
  have c: "call_fn f (i - start) = Inr (fn_char f (i - start))"
    using Suc.prems i by (intro call_fn_wf [of h n]) auto
  have "\<exists>buf'. fill_function_buf f start cur (Suc i) limit (buf[i - cur := Some (fn_char f (i - start))]) = Inr buf' \<and>
      length buf' = length buf \<and>
      (\<forall>k. cur \<le> k \<and> k < Suc i \<longrightarrow> buf' ! (k - cur) = buf[i - cur := Some (fn_char f (i - start))] ! (k - cur)) \<and>
      (\<forall>k. Suc i \<le> k \<and> k < limit \<longrightarrow> buf' ! (k - cur) = Some (fn_char f (k - start)))"
    using Suc.hyps(1) [of "Suc i" "buf[i - cur := Some (fn_char f (i - start))]"] Suc.hyps(2) Suc.prems i by simp
  then obtain buf' where b: "fill_function_buf f start cur (Suc i) limit (buf[i - cur := Some (fn_char f (i - start))]) = Inr buf'"
      "length buf' = length buf"
      "\<And>k. cur \<le> k \<Longrightarrow> k < Suc i \<Longrightarrow> buf' ! (k - cur) = buf[i - cur := Some (fn_char f (i - start))] ! (k - cur)"
      "\<And>k. Suc i \<le> k \<Longrightarrow> k < limit \<Longrightarrow> buf' ! (k - cur) = Some (fn_char f (k - start))"
    by blast
  have len: "i - cur < length buf" using Suc.prems i by auto
  have "buf' ! (i - cur) = Some (fn_char f (i - start))" using b(3) [of i] len Suc.prems by simp
  moreover have "buf' ! (k - cur) = buf ! (k - cur)" if "cur \<le> k" "k < i" for k
    using b(3) [of k] that by (simp add: nth_list_update)
  moreover have "buf' ! (k - cur) = Some (fn_char f (k - start))" if "i \<le> k" "k < limit" for k
    using b(4) [of k] that calculation(1) by (cases "k = i") auto
  ultimately show ?case
    using b(1,2) i c len by (subst fill_function_buf.simps) auto
qed

text \<open>Moving on from the last character of a leaf.\<close>

lemma end_of_leaf_ok:
  assumes p: "path_ok x (path p) k" "path_len p = int k" "length (function_buf p) = FUNCTION_BUF_SZ"
    and e: "path p ! k = Some e" "cur_pos p = pe_start_pos e + LEN (pe_cord e)"
  obtains p' where
    "rbind (pop_path False p (path_len p)) (\<lambda>k. if k = 0 then Inr (p\<lparr>path_len := CORD_POS_INVALID\<rparr>)
       else CORD__extend_path (p\<lparr>path_len := k - 1\<rparr>)) = Inr p'"
    "if cur_pos p < LEN x then pos_at x p' \<and> pos_fwd p' \<and> cur_pos p' = cur_pos p else \<not> CORD_pos_valid p'"
proof -
  obtain j e' where j: "pop_path False p (int k) = Inr (int j)" "j \<le> k" "path p ! j = Some e'"
    "pe_start_pos e' + LEN (pe_cord e') = pe_start_pos e + LEN (pe_cord e)"
    "\<And>i e''. j = Suc i \<Longrightarrow> path p ! i = Some e'' \<Longrightarrow> pe_start_pos e' = pe_start_pos e''"
    using pop_path_ok [OF p(1) e(1), of False] by auto
  show thesis
  proof (cases j)
    case 0
    have "e' = \<lparr>pe_cord = x, pe_start_pos = 0\<rparr>" using p(1) j(3) 0 by (simp add: path_ok_def)
    then have "cur_pos p = LEN x" using j(4) e(2) by simp
    then show thesis using that [of "p\<lparr>path_len := CORD_POS_INVALID\<rparr>"] j(1) 0 p(2)
      by (simp add: CORD_pos_valid_def)
  next
    case (Suc i)
    obtain f where f: "path p ! i = Some f" "path_step f e'"
      using path_ok_step [OF p(1), of i] j(2,3) Suc by auto
    have loc: "located x (pe_cord f) (pe_start_pos f)"
      using path_entry [OF p(1), of i] j(2) f(1) Suc by force
    have eq: "pe_start_pos e' = pe_start_pos f" using j(5) [OF Suc f(1)] .
    then have lt: "cur_pos p < pe_start_pos f + LEN (pe_cord f)"
      using path_stepE [OF f(2)] loc j(4) e(2) unfolding located_def
      by (metis add_cancel_right_right add_less_cancel_left less_irrefl)
    have le: "pe_start_pos f \<le> cur_pos p" using e(2) j(4) eq by simp
    have "path_ok x (path (p\<lparr>path_len := int i\<rparr>)) i" using path_ok_le [OF p(1)] j(2) Suc by simp
    then obtain p' where p': "CORD__extend_path (p\<lparr>path_len := int i\<rparr>) = Inr p'" "cur_pos p' = cur_pos p"
      "pos_at x p' \<and> pos_fwd p'"
      using CORD__extend_path_ok [of x "p\<lparr>path_len := int i\<rparr>" i f] f(1) le lt p(3) by auto
    moreover have "cur_pos p < LEN x" using lt loc by (simp add: located_def)
    ultimately show thesis using that [of p'] j(1) Suc p(2) by simp
  qed
qed

lemma CORD__next_ok:
  assumes "pos_at x p"
    and last: "\<And>e. get_pe p (path_len p) = Inr e \<Longrightarrow> IS_STRING (pe_cord e) \<Longrightarrow>
       Suc (cur_pos p) = pe_start_pos e + LEN (pe_cord e)"
  obtains p' where "CORD__next p = Inr p'"
    "if Suc (cur_pos p) < LEN x then pos_at x p' \<and> pos_fwd p' \<and> cur_pos p' = Suc (cur_pos p)
     else \<not> CORD_pos_valid p'"
proof -
  from assms(1) obtain k e where e: "path_len p = int k" "path_ok x (path p) k"
    "length (function_buf p) = FUNCTION_BUF_SZ" "path p ! k = Some e" "get_pe p (path_len p) = Inr e"
    "\<not> is_conc (pe_cord e)" "pe_start_pos e \<le> cur_pos p" "cur_pos p < pe_start_pos e + LEN (pe_cord e)"
    "window_ok x p e" "located x (pe_cord e) (pe_start_pos e)"
    by (rule pos_atE)
  let ?p = "p\<lparr>cur_pos := Suc (cur_pos p)\<rparr>"
  show thesis
  proof (cases "Suc (cur_pos p) < pe_start_pos e + LEN (pe_cord e)")
    case True
    then obtain h n f where f: "pe_cord e = Fnode h n f"
      using e(6) last [OF e(5)] by (cases "pe_cord e") (auto simp: is_conc_def)
    let ?s = "pe_start_pos e" and ?c = "Suc (cur_pos p)"
    define limit where "limit = (if ?c + FUNCTION_BUF_SZ > ?s + n then ?s + n else ?c + FUNCTION_BUF_SZ)"
    have wf: "wf_node (Fnode h n f)" using e(10) f by (simp add: located_def)
    have lim: "limit \<le> ?s + n" "limit \<le> ?c + FUNCTION_BUF_SZ" "?c < limit"
      using True f by (auto simp: limit_def FUNCTION_BUF_SZ_def)
    obtain buf where buf: "fill_function_buf f ?s ?c ?c limit (function_buf p) = Inr buf"
        "length buf = FUNCTION_BUF_SZ" "\<And>k. ?c \<le> k \<Longrightarrow> k < limit \<Longrightarrow> buf ! (k - ?c) = Some (fn_char f (k - ?s))"
      using fill_function_buf_ok [of h n f limit ?s ?c "function_buf p" ?c] wf lim e(3,7) by auto
    let ?q = "?p\<lparr>function_buf := buf, cur_start := ?c, cur_leaf := Some LeafBuf, cur_end := limit\<rparr>"
    have nxt: "CORD__next p = Inr ?q"
      using e(5) f True buf(1) pos_at_size_add [OF assms(1)] by (simp add: CORD__next_def Let_def limit_def)
    have "read_leaf ?q (int k - int ?c) = Inr (chars x ! k)" if k: "?c \<le> k" "k < limit" for k
    proof -
      have "chars x ! k = chars (Fnode h n f) ! (k - ?s)"
        using e(7,10) f k lim(1) unfolding located_def
        by (metis LEN.simps(2) Suc_leD add_less_imp_less_left le_add_diff_inverse le_trans order.strict_trans2)
      also have "\<dots> = fn_char f (k - ?s)" using k lim(1) e(7) by simp
      finally show ?thesis
        using buf(2) buf(3) [OF k] k lim(2) by (simp add: read_leaf_def nat_diff_distrib' flip: of_nat_Suc)
    qed
    then have "window_ok x ?q e" using lim e(7) f by (auto simp: window_ok_def)
    then have "pos_at x ?q"
      using e(1,2,4,6,7) True buf(2) f by (auto simp: pos_at_def is_conc_def)
    moreover have "pos_fwd ?q" using lim(3) by (simp add: pos_fwd_def)
    moreover have "?c < LEN x" using True e(10) by (simp add: located_def)
    ultimately show thesis using that [of ?q] nxt by simp
  next
    case False
    then have pp: "path_ok x (path ?p) k" "path_len ?p = int k" "length (function_buf ?p) = FUNCTION_BUF_SZ"
      "path ?p ! k = Some e" "cur_pos ?p = pe_start_pos e + LEN (pe_cord e)" using e by simp_all
    obtain p' where p':
        "rbind (pop_path False ?p (path_len ?p)) (\<lambda>k. if k = 0 then Inr (?p\<lparr>path_len := CORD_POS_INVALID\<rparr>)
           else CORD__extend_path (?p\<lparr>path_len := k - 1\<rparr>)) = Inr p'"
        "if cur_pos ?p < LEN x then pos_at x p' \<and> pos_fwd p' \<and> cur_pos p' = cur_pos ?p
         else \<not> CORD_pos_valid p'"
      by (rule end_of_leaf_ok [OF pp])
    have "CORD__next p = Inr p'"
      using e(5,6) p'(1) False pos_at_size_add [OF assms(1)]
      by (cases "pe_cord e") (simp_all add: CORD__next_def Let_def is_conc_def)
    with that p'(2) show thesis by simp
  qed
qed

lemma CORD_next_ok:
  assumes "pos_at x p"
  obtains p' where "CORD_next p = Inr p'"
    "if Suc (cur_pos p) < LEN x then pos_at x p' \<and> cur_pos p' = Suc (cur_pos p) \<and> (pos_fwd p \<longrightarrow> pos_fwd p')
     else \<not> CORD_pos_valid p'"
proof (cases "Suc (cur_pos p) < cur_end p")
  case True
  let ?p = "p\<lparr>cur_pos := Suc (cur_pos p)\<rparr>"
  from assms have "pos_at x ?p \<and> Suc (cur_pos p) < LEN x \<and> (pos_fwd p \<longrightarrow> pos_fwd ?p)"
    by (rule pos_atE) (use True in \<open>auto simp: pos_at_def is_conc_def pos_fwd_def located_def window_ok_def\<close>)
  with True that [of ?p] show thesis by (simp add: CORD_next_def pos_at_size_add [OF assms])
next
  case False
  have "Suc (cur_pos p) = pe_start_pos e + LEN (pe_cord e)"
    if "get_pe p (path_len p) = Inr e" "IS_STRING (pe_cord e)" for e
    by (rule pos_atE [OF assms]) (use that False in \<open>auto simp: window_ok_def\<close>)
  with CORD__next_ok [OF assms] obtain p' where "CORD__next p = Inr p'"
    "if Suc (cur_pos p) < LEN x then pos_at x p' \<and> pos_fwd p' \<and> cur_pos p' = Suc (cur_pos p)
     else \<not> CORD_pos_valid p'" by blast
  with False that [of p'] show thesis
    by (auto simp: CORD_next_def pos_at_size_add [OF assms] split: if_splits)
qed

lemma CORD_set_pos_ok:
  assumes "cord_ok (Some x)" "LEN x < 2 ^ 64" "length (path p) = MAX_DEPTH + 1"
    "length (function_buf p) = FUNCTION_BUF_SZ"
  obtains p' where "CORD_set_pos p (Some x) i = Inr p'"
    "if i < LEN x then pos_at x p' \<and> pos_fwd p' \<and> cur_pos p' = i else \<not> CORD_pos_valid p'"
proof -
  let ?e = "\<lparr>pe_cord = x, pe_start_pos = 0\<rparr>"
  let ?p = "p\<lparr>path := (path p)[0 := Some ?e], path_len := 0, cur_pos := i\<rparr>"
  have "path_ok x (path ?p) 0" using assms(1-3) by (simp add: path_ok_def)
  with CORD__extend_path_ok [of x ?p 0 ?e] assms(3,4) obtain p' where p': "CORD__extend_path ?p = Inr p'"
    "cur_pos p' = i" "i < LEN x \<Longrightarrow> pos_at x p' \<and> pos_fwd p'" "LEN x \<le> i \<Longrightarrow> \<not> CORD_pos_valid p'"
    by auto
  have "CORD_set_pos p (Some x) i = Inr p'"
    using p'(1) assms(3) by (simp add: CORD_set_pos_def set_pe_def)
  with that [of p'] p' show thesis by auto
qed

lemma CORD_prev_ok:
  assumes "pos_at x p"
  obtains p' where "CORD_prev p = Inr p'"
    "if 0 < cur_pos p then pos_at x p' \<and> cur_pos p' = cur_pos p - 1 else \<not> CORD_pos_valid p'"
proof -
  from assms obtain k e where e: "path_len p = int k" "path_ok x (path p) k"
    "length (function_buf p) = FUNCTION_BUF_SZ" "path p ! k = Some e" "get_pe p (path_len p) = Inr e"
    "\<not> is_conc (pe_cord e)" "pe_start_pos e \<le> cur_pos p" "cur_pos p < pe_start_pos e + LEN (pe_cord e)"
    "window_ok x p e" "located x (pe_cord e) (pe_start_pos e)"
    by (rule pos_atE)
  let ?p = "p\<lparr>cur_pos := cur_pos p - 1\<rparr>"
  have pop: "pop_path True ?p j = pop_path True p j" for j
    by (rule pop_path_cong) simp
  have get: "get_pe ?p (path_len ?p) = Inr e" using e(5) by simp
  consider (stay) "0 < cur_pos p" "pe_start_pos e \<le> cur_pos p - 1"
    | (out) "0 < cur_pos p" "cur_pos p = pe_start_pos e" | (first) "cur_pos p = 0"
    using e(7) by linarith
  then show thesis
  proof cases
    case stay
    have "pos_at x ?p"
      using e stay by (auto simp: pos_at_def is_conc_def)
    moreover have "CORD_prev p = Inr ?p"
      using stay get by (auto simp: CORD_prev_def CORD__prev_def Let_def)
    ultimately show thesis using that [of ?p] stay by simp
  next
    case out
    obtain j e' where j: "pop_path True p (int k) = Inr (int j)" "j \<le> k" "path p ! j = Some e'"
      "pe_start_pos e' = pe_start_pos e"
      "\<And>i e''. j = Suc i \<Longrightarrow> path p ! i = Some e'' \<Longrightarrow> pe_start_pos e' \<noteq> pe_start_pos e''"
      using pop_path_ok [OF e(2,4), of True] by auto
    obtain i where i: "j = Suc i"
      using j(3,4) out e(2) by (cases j) (auto simp: path_ok_def)
    obtain f where f: "path p ! i = Some f" "path_step f e'"
      using path_ok_step [OF e(2), of i] j(2,3) i by auto
    have loc: "located x (pe_cord f) (pe_start_pos f)"
      using path_entry [OF e(2), of i] j(2) f(1) i by force
    have lt: "pe_start_pos f < cur_pos p \<and> cur_pos p \<le> pe_start_pos f + LEN (pe_cord f)"
    proof (rule path_stepE [OF f(2)])
      show "wf_node (pe_cord f)" using loc by (simp add: located_def)
    qed (use j(4) j(5) [OF i f(1)] out(2) in auto)
    let ?q = "?p\<lparr>path_len := int i\<rparr>"
    have q: "path_ok x (path ?q) i" "path_len ?q = int i" "length (function_buf ?q) = FUNCTION_BUF_SZ"
      "path ?q ! i = Some f" "pe_start_pos f \<le> cur_pos ?q" "cur_pos ?q < pe_start_pos f + LEN (pe_cord f)"
      using path_ok_le [OF e(2)] j(2) i f(1) lt e(3) by auto
    obtain p' where p': "CORD__extend_path ?q = Inr p'" "cur_pos p' = cur_pos p - 1" "pos_at x p'"
      by (rule CORD__extend_path_ok [OF q(1-5)]) (use q(6) in auto)
    have "\<not> (cur_end p \<noteq> 0 \<and> cur_start p < cur_pos p)" using e(9) out by (auto simp: window_ok_def)
    then have "CORD_prev p = CORD__prev p" by (auto simp: CORD_prev_def)
    also have "\<dots> = Inr p'"
      using out get pop j(1) e(1) i p'(1) by (simp add: CORD__prev_def Let_def)
    finally have "CORD_prev p = Inr p'" .
    with that [of p'] p' out show thesis by simp
  next
    case first
    then show thesis
      using that [of "p\<lparr>path_len := CORD_POS_INVALID\<rparr>"]
      by (simp add: CORD_prev_def CORD__prev_def CORD_pos_valid_def)
  qed
qed

end
