(* ===== verification/Cord_Cursor.thy ===== *)
theory Cord_Cursor
  imports Cord_Pos
begin

text \<open>
  The contract of cord positions as their clients use it. \<open>cursor\<close> is the contract of a
  forward traversal (the macro \<open>CORD_FOR\<close> of \<^verbatim>\<open>libs/gc/include/cord.h\<close> and the loops of
  \<^verbatim>\<open>cordxtra.c\<close> that fetch and step); \<open>windowed_cursor\<close> adds the cached window of
  characters that \<open>CORD_cmp\<close> and \<open>CORD_ncmp\<close> compare in blocks. The client loops are defined
  over the operations of a cursor and proved once in the locales; positions are the instance.
\<close>

section \<open>Client loops\<close>

text \<open>
  \<open>CORD_FOR (pos, cord)\<close> with a body that folds the fetched character into \<open>d\<close>; the fuel
  bounds the number of tests of the loop.
\<close>

fun for_loop :: "('p \<Rightarrow> bool) \<Rightarrow> ('p \<Rightarrow> char res) \<Rightarrow> ('p \<Rightarrow> 'p res) \<Rightarrow> (char \<Rightarrow> 'd \<Rightarrow> 'd) \<Rightarrow> nat \<Rightarrow> 'p \<Rightarrow> 'd \<Rightarrow> 'd res" where
  "for_loop valid fetch step body 0 p d = Inl OutOfFuel"
| "for_loop valid fetch step body (Suc k) p d =
     (if valid p then
        rbind (fetch p) (\<lambda>c. rbind (step p) (\<lambda>p. for_loop valid fetch step body k p (body c d)))
      else Inr d)"

text \<open>\<open>n\<close> times: fetch a character, shift it into \<open>d\<close>, step.\<close>

fun shift_in :: "('p \<Rightarrow> char res) \<Rightarrow> ('p \<Rightarrow> 'p res) \<Rightarrow> (char \<Rightarrow> 'd \<Rightarrow> 'd) \<Rightarrow> nat \<Rightarrow> 'p \<Rightarrow> 'd \<Rightarrow> ('d \<times> 'p) res" where
  "shift_in fetch step body 0 p d = Inr (d, p)"
| "shift_in fetch step body (Suc n) p d =
     rbind (fetch p) (\<lambda>c. rbind (step p) (\<lambda>p. shift_in fetch step body n p (body c d)))"

text \<open>\<open>char\<close> is signed on the targets; the string functions compare as \<open>unsigned char\<close>.\<close>

definition uchar :: "char \<Rightarrow> int" where
  "uchar c = int (of_char c)"

definition schar :: "char \<Rightarrow> int" where
  "schar c = (if uchar c < 128 then uchar c else uchar c - 256)"

text \<open>\<open>strncmp\<close> on two blocks given by the functions that read them.\<close>

fun strncmp_at :: "(nat \<Rightarrow> char res) \<Rightarrow> (nat \<Rightarrow> char res) \<Rightarrow> nat \<Rightarrow> nat \<Rightarrow> int res" where
  "strncmp_at rx ry k n =
     (if n = 0 then Inr 0
      else rbind (rx k) (\<lambda>c. rbind (ry k) (\<lambda>d.
        if c \<noteq> d then Inr (uchar c - uchar d)
        else if c = NUL then Inr 0
        else strncmp_at rx ry (Suc k) (n - 1))))"

declare strncmp_at.simps [simp del]

datatype 'p cmp_step = Differ int | Go 'p 'p

text \<open>One character of each, then both step.\<close>

definition cmp_char :: "('p \<Rightarrow> char res) \<Rightarrow> ('p \<Rightarrow> 'p res) \<Rightarrow> 'p \<Rightarrow> 'p \<Rightarrow> 'p cmp_step res" where
  "cmp_char fetch step x y =
     rbind (fetch x) (\<lambda>c. rbind (fetch y) (\<lambda>d.
       if c \<noteq> d then Inr (Differ (schar c - schar d))
       else rbind (step x) (\<lambda>x. rbind (step y) (\<lambda>y. Inr (Go x y)))))"

text \<open>\<open>avail\<close> characters of each, then both advance by as many.\<close>

definition cmp_block :: "('p \<Rightarrow> nat \<Rightarrow> char res) \<Rightarrow> ('p \<Rightarrow> nat \<Rightarrow> 'p res) \<Rightarrow> nat \<Rightarrow> 'p \<Rightarrow> 'p \<Rightarrow> 'p cmp_step res" where
  "cmp_block addr advance avail x y =
     rbind (strncmp_at (addr x) (addr y) 0 avail) (\<lambda>r.
       if r \<noteq> 0 then Inr (Differ r)
       else rbind (advance x avail) (\<lambda>x. rbind (advance y avail) (\<lambda>y. Inr (Go x y))))"

text \<open>
  The loops of \<open>CORD_cmp\<close> and \<open>CORD_ncmp\<close>; \<open>left\<close> is the number of cached characters the
  loop believes a position has (0 for none). The fuel bounds the number of iterations.
\<close>

fun cmp_loop :: "('p \<Rightarrow> bool) \<Rightarrow> ('p \<Rightarrow> char res) \<Rightarrow> ('p \<Rightarrow> 'p res) \<Rightarrow> ('p \<Rightarrow> nat) \<Rightarrow> ('p \<Rightarrow> nat \<Rightarrow> char res) \<Rightarrow>
    ('p \<Rightarrow> nat \<Rightarrow> 'p res) \<Rightarrow> nat \<Rightarrow> 'p \<Rightarrow> 'p \<Rightarrow> int res" where
  "cmp_loop valid fetch step left addr advance 0 x y = Inl OutOfFuel"
| "cmp_loop valid fetch step left addr advance (Suc k) x y =
     (if \<not> valid x then (if valid y then Inr (-1) else Inr 0)
      else if \<not> valid y then Inr 1
      else
        rbind (if left x = 0 \<or> left y = 0 then cmp_char fetch step x y
               else cmp_block addr advance (if left x > left y then left y else left x) x y) (\<lambda>s.
          case s of Differ r \<Rightarrow> Inr r
          | Go x y \<Rightarrow> cmp_loop valid fetch step left addr advance k x y))"

fun ncmp_loop :: "('p \<Rightarrow> bool) \<Rightarrow> ('p \<Rightarrow> char res) \<Rightarrow> ('p \<Rightarrow> 'p res) \<Rightarrow> ('p \<Rightarrow> nat) \<Rightarrow> ('p \<Rightarrow> nat \<Rightarrow> char res) \<Rightarrow>
    ('p \<Rightarrow> nat \<Rightarrow> 'p res) \<Rightarrow> nat \<Rightarrow> nat \<Rightarrow> nat \<Rightarrow> 'p \<Rightarrow> 'p \<Rightarrow> int res" where
  "ncmp_loop valid fetch step left addr advance 0 count len x y = Inl OutOfFuel"
| "ncmp_loop valid fetch step left addr advance (Suc k) count len x y =
     (if count < len then
        if \<not> valid x then (if valid y then Inr (-1) else Inr 0)
        else if \<not> valid y then Inr 1
        else if left x = 0 \<or> left y = 0 then
          rbind (cmp_char fetch step x y) (\<lambda>s.
            case s of Differ r \<Rightarrow> Inr r
            | Go x y \<Rightarrow> ncmp_loop valid fetch step left addr advance k (count + 1) len x y)
        else
          let avail = (if left x > left y then left y else left x);
              count = count + avail;
              avail = (if count > len then avail - (count - len) else avail)
          in rbind (cmp_block addr advance avail x y) (\<lambda>s.
            case s of Differ r \<Rightarrow> Inr r
            | Go x y \<Rightarrow> ncmp_loop valid fetch step left addr advance k count len x y)
      else Inr 0)"

section \<open>Comparison results\<close>

text \<open>
  \<open>agrees r xs ys\<close>: \<open>r\<close> compares \<open>xs\<close> with \<open>ys\<close>. At the first difference the code takes the
  difference of either the signed or the unsigned characters.
\<close>

inductive agrees :: "int \<Rightarrow> char list \<Rightarrow> char list \<Rightarrow> bool" where
  both_end: "agrees 0 [] []"
| first_ends: "r < 0 \<Longrightarrow> agrees r [] (d # ys)"
| second_ends: "0 < r \<Longrightarrow> agrees r (c # xs) []"
| differ: "c \<noteq> d \<Longrightarrow> r = uchar c - uchar d \<or> r = schar c - schar d \<Longrightarrow> agrees r (c # xs) (d # ys)"
| same: "agrees r xs ys \<Longrightarrow> agrees r (c # xs) (c # ys)"

inductive_simps agrees_simps [simp]:
  "agrees r [] []" "agrees r [] (d # ys)" "agrees r (c # xs) []" "agrees r (c # xs) (d # ys)"

lemma uchar_eq [simp]: "uchar c = uchar d \<longleftrightarrow> c = d"
  by (simp add: uchar_def)

lemma uchar_bounds: "0 \<le> uchar c" "uchar c < 256"
  using nat_of_char_less_256 [of c] by (simp_all add: uchar_def)

lemma schar_eq [simp]: "schar c = schar d \<longleftrightarrow> c = d"
  using uchar_bounds [of c] uchar_bounds [of d] by (auto simp: schar_def split: if_splits)

lemma agrees_zero: "agrees r xs ys \<Longrightarrow> r = 0 \<longleftrightarrow> xs = ys"
  by (induction rule: agrees.induct) auto

lemma agrees_append: "agrees r xs ys \<Longrightarrow> agrees r (p @ xs) (p @ ys)"
  by (induction p) auto

lemma agrees_extend:
  "agrees r xs ys \<Longrightarrow> length xs = length ys \<Longrightarrow> r \<noteq> 0 \<Longrightarrow> agrees r (xs @ as) (ys @ bs)"
  by (induction rule: agrees.induct) auto

definition ascii :: "char list \<Rightarrow> bool" where
  "ascii s \<longleftrightarrow> (\<forall>c\<in>set s. uchar c < 128)"

lemma ascii_schar: "uchar c < 128 \<Longrightarrow> schar c = uchar c"
  by (simp add: schar_def)

lemma ascii_Cons [simp]: "ascii (c # s) \<longleftrightarrow> uchar c < 128 \<and> ascii s"
  by (auto simp: ascii_def)

lemma agrees_lex:
  "agrees r xs ys \<Longrightarrow> ascii xs \<Longrightarrow> ascii ys \<Longrightarrow> r < 0 \<longleftrightarrow> (xs, ys) \<in> lexord {(c, d). uchar c < uchar d}"
proof (induction rule: agrees.induct)
  case (differ c d r xs ys)
  then have "r = uchar c - uchar d" by (auto simp: ascii_schar)
  with differ show ?case by simp
qed simp_all

lemma strncmp_at_ok:
  assumes "\<forall>j<k + n. rx j = Inr (xs ! j) \<and> xs ! j \<noteq> NUL" "\<forall>j<k + n. ry j = Inr (ys ! j) \<and> ys ! j \<noteq> NUL"
    "k + n \<le> length xs" "k + n \<le> length ys"
  obtains r where "strncmp_at rx ry k n = Inr r"
    "r = 0 \<Longrightarrow> take n (drop k xs) = take n (drop k ys)" "r \<noteq> 0 \<Longrightarrow> agrees r (drop k xs) (drop k ys)"
    "r \<noteq> 0 \<Longrightarrow> agrees r (take n (drop k xs)) (take n (drop k ys))"
proof -
  have "\<exists>r. strncmp_at rx ry k n = Inr r \<and> (r = 0 \<longrightarrow> take n (drop k xs) = take n (drop k ys)) \<and>
      (r \<noteq> 0 \<longrightarrow> agrees r (drop k xs) (drop k ys) \<and> agrees r (take n (drop k xs)) (take n (drop k ys)))"
    using assms
  proof (induction n arbitrary: k)
    case 0
    then show ?case by (subst strncmp_at.simps) simp
  next
    case (Suc n)
    have d: "drop k xs = xs ! k # drop (Suc k) xs" "drop k ys = ys ! k # drop (Suc k) ys"
      using Suc.prems(3,4) by (simp_all add: Cons_nth_drop_Suc)
    obtain r where "strncmp_at rx ry (Suc k) n = Inr r"
      "r = 0 \<longrightarrow> take n (drop (Suc k) xs) = take n (drop (Suc k) ys)"
      "r \<noteq> 0 \<longrightarrow> agrees r (drop (Suc k) xs) (drop (Suc k) ys) \<and>
        agrees r (take n (drop (Suc k) xs)) (take n (drop (Suc k) ys))"
      using Suc.IH [of "Suc k"] Suc.prems by auto
    then show ?case
      using Suc.prems by (subst strncmp_at.simps) (auto simp: d)
  qed
  with that show thesis by blast
qed

section \<open>The contracts\<close>

locale cursor =
  fixes at :: "'p \<Rightarrow> char list \<Rightarrow> nat \<Rightarrow> bool"
    and valid :: "'p \<Rightarrow> bool"
    and fetch :: "'p \<Rightarrow> char res"
    and step :: "'p \<Rightarrow> 'p res"
  assumes at_less: "at p xs i \<Longrightarrow> i < length xs"
    and at_valid: "at p xs i \<Longrightarrow> valid p"
    and fetch_at: "at p xs i \<Longrightarrow> fetch p = Inr (xs ! i)"
    and step_at: "at p xs i \<Longrightarrow>
      \<exists>p'. step p = Inr p' \<and> (if Suc i < length xs then at p' xs (Suc i) else \<not> valid p')"
begin

definition here :: "'p \<Rightarrow> char list \<Rightarrow> nat \<Rightarrow> bool" where
  "here p xs i \<longleftrightarrow> (if i < length xs then at p xs i else i = length xs \<and> \<not> valid p)"

lemma here_at: "here p xs i \<Longrightarrow> i < length xs \<Longrightarrow> at p xs i"
  by (simp add: here_def)

lemma here_valid: "here p xs i \<Longrightarrow> valid p \<longleftrightarrow> i < length xs"
  by (auto simp: here_def at_valid split: if_splits)

lemma step_here:
  assumes "at p xs i"
  obtains p' where "step p = Inr p'" "here p' xs (Suc i)"
  using step_at [OF assms] at_less [OF assms] by (auto simp: here_def split: if_splits)

lemma for_loop_ok:
  "here p xs i \<Longrightarrow> length xs - i < k \<Longrightarrow> for_loop valid fetch step body k p d = Inr (fold body (drop i xs) d)"
proof (induction k arbitrary: p i d)
  case (Suc k)
  show ?case
  proof (cases "i < length xs")
    case True
    then have a: "at p xs i" using Suc.prems(1) by (rule here_at [rotated])
    obtain p' where p': "step p = Inr p'" "here p' xs (Suc i)" by (rule step_here [OF a])
    have "for_loop valid fetch step body k p' (body (xs ! i) d) = Inr (fold body (drop (Suc i) xs) (body (xs ! i) d))"
      using Suc.IH [OF p'(2)] Suc.prems(2) True by simp
    with a p'(1) True show ?thesis
      by (simp add: at_valid fetch_at flip: Cons_nth_drop_Suc)
  next
    case False
    with Suc.prems here_valid [OF Suc.prems(1)] show ?thesis by simp
  qed
qed simp

lemma shift_in_ok:
  assumes "here p xs i" "i + n \<le> length xs"
  obtains p' where "shift_in fetch step body n p d = Inr (fold body (take n (drop i xs)) d, p')" "here p' xs (i + n)"
proof -
  have "\<exists>p'. shift_in fetch step body n p d = Inr (fold body (take n (drop i xs)) d, p') \<and> here p' xs (i + n)"
    using assms
  proof (induction n arbitrary: p i d)
    case (Suc n)
    then have a: "at p xs i" by (intro here_at) auto
    obtain p' where p': "step p = Inr p'" "here p' xs (Suc i)" by (rule step_here [OF a])
    obtain q where "shift_in fetch step body n p' (body (xs ! i) d) =
        Inr (fold body (take n (drop (Suc i) xs)) (body (xs ! i) d), q)" "here q xs (Suc i + n)"
      using Suc.IH [OF p'(2), of "body (xs ! i) d"] Suc.prems(2) by auto
    moreover have "take (Suc n) (drop i xs) = xs ! i # take n (drop (Suc i) xs)"
      using Suc.prems(2) by (simp flip: Cons_nth_drop_Suc)
    ultimately show ?case using a p'(1) by (simp add: fetch_at)
  qed simp
  with that show thesis by blast
qed

lemma cmp_char_ok:
  assumes "at x xs i" "at y ys j"
  obtains (differ) r where "cmp_char fetch step x y = Inr (Differ r)" "agrees r (drop i xs) (drop j ys)"
      "xs ! i \<noteq> ys ! j" "r = schar (xs ! i) - schar (ys ! j)"
  | (go) x' y' where "cmp_char fetch step x y = Inr (Go x' y')" "here x' xs (Suc i)" "here y' ys (Suc j)"
      "xs ! i = ys ! j"
proof -
  obtain x' where x': "step x = Inr x'" "here x' xs (Suc i)" by (rule step_here [OF assms(1)])
  obtain y' where y': "step y = Inr y'" "here y' ys (Suc j)" by (rule step_here [OF assms(2)])
  have "drop i xs = xs ! i # drop (Suc i) xs" "drop j ys = ys ! j # drop (Suc j) ys"
    using at_less [OF assms(1)] at_less [OF assms(2)] by (simp_all add: Cons_nth_drop_Suc)
  with differ [of "schar (xs ! i) - schar (ys ! j)"] go [of x' y'] x' y' show thesis
    by (cases "xs ! i = ys ! j") (simp_all add: cmp_char_def fetch_at [OF assms(1)] fetch_at [OF assms(2)])
qed

end


locale windowed_cursor = cursor at valid fetch step
  for at :: "'p \<Rightarrow> char list \<Rightarrow> nat \<Rightarrow> bool" and valid fetch step +
  fixes left :: "'p \<Rightarrow> nat"
    and addr :: "'p \<Rightarrow> nat \<Rightarrow> char res"
    and advance :: "'p \<Rightarrow> nat \<Rightarrow> 'p res"
  assumes window_at: "at p xs i \<Longrightarrow> i + left p \<le> length xs"
    and addr_at: "at p xs i \<Longrightarrow> k < left p \<Longrightarrow> addr p k = Inr (xs ! (i + k))"
    and advance_at: "at p xs i \<Longrightarrow> 0 < n \<Longrightarrow> n \<le> left p \<Longrightarrow>
      \<exists>p'. advance p n = Inr p' \<and> (if i + n < length xs then at p' xs (i + n) else \<not> valid p')"
begin

lemma advance_here:
  assumes "at p xs i" "0 < n" "n \<le> left p"
  obtains p' where "advance p n = Inr p'" "here p' xs (i + n)"
  using advance_at [OF assms] window_at [OF assms(1)] assms(3) by (auto simp: here_def split: if_splits)

lemma cmp_block_ok:
  assumes "at x xs i" "at y ys j" "0 < n" "n \<le> left x" "n \<le> left y" "nul_free xs" "nul_free ys"
  obtains (differ) r where "cmp_block addr advance n x y = Inr (Differ r)" "r \<noteq> 0"
      "agrees r (drop i xs) (drop j ys)" "agrees r (take n (drop i xs)) (take n (drop j ys))"
  | (go) x' y' where "cmp_block addr advance n x y = Inr (Go x' y')" "here x' xs (i + n)" "here y' ys (j + n)"
      "take n (drop i xs) = take n (drop j ys)"
proof -
  have w: "i + n \<le> length xs" "j + n \<le> length ys"
    using window_at [OF assms(1)] window_at [OF assms(2)] assms(4,5) by simp_all
  have rx: "\<forall>k<0 + n. addr x k = Inr (drop i xs ! k) \<and> drop i xs ! k \<noteq> NUL"
    using assms(1,4,6) w by (auto simp: addr_at nul_free_nth)
  have ry: "\<forall>k<0 + n. addr y k = Inr (drop j ys ! k) \<and> drop j ys ! k \<noteq> NUL"
    using assms(2,5,7) w by (auto simp: addr_at nul_free_nth)
  obtain r where r: "strncmp_at (addr x) (addr y) 0 n = Inr r"
      "r = 0 \<Longrightarrow> take n (drop 0 (drop i xs)) = take n (drop 0 (drop j ys))"
      "r \<noteq> 0 \<Longrightarrow> agrees r (drop 0 (drop i xs)) (drop 0 (drop j ys))"
      "r \<noteq> 0 \<Longrightarrow> agrees r (take n (drop 0 (drop i xs))) (take n (drop 0 (drop j ys)))"
    by (rule strncmp_at_ok [OF rx ry]) (use w in auto)
  obtain x' where x': "advance x n = Inr x'" "here x' xs (i + n)"
    by (rule advance_here [OF assms(1,3,4)])
  obtain y' where y': "advance y n = Inr y'" "here y' ys (j + n)"
    by (rule advance_here [OF assms(2,3,5)])
  show thesis
  proof (cases "r = 0")
    case True
    with r(1,2) x' y' show thesis by (intro go [of x' y']) (simp_all add: cmp_block_def)
  next
    case False
    with r show thesis by (intro differ [of r]) (simp_all add: cmp_block_def)
  qed
qed

text \<open>The end tests of both loops.\<close>

lemma end_agrees:
  assumes "here x xs i" "here y ys j" "\<not> (valid x \<and> valid y)"
  shows "agrees (if \<not> valid x then (if valid y then -1 else 0) else 1) (drop i xs) (drop j ys)"
proof -
  have "valid x \<Longrightarrow> drop i xs = xs ! i # drop (Suc i) xs" "valid y \<Longrightarrow> drop j ys = ys ! j # drop (Suc j) ys"
    "\<not> valid x \<Longrightarrow> drop i xs = []" "\<not> valid y \<Longrightarrow> drop j ys = []"
    using here_valid [OF assms(1)] here_valid [OF assms(2)] by (simp_all add: Cons_nth_drop_Suc)
  with assms(3) show ?thesis by auto
qed

lemma cmp_loop_ok:
  assumes "nul_free xs" "nul_free ys"
  shows "here x xs i \<Longrightarrow> here y ys j \<Longrightarrow> length xs - i < k \<Longrightarrow>
    \<exists>r. cmp_loop valid fetch step left addr advance k x y = Inr r \<and> agrees r (drop i xs) (drop j ys)"
proof (induction k arbitrary: x y i j)
  case (Suc k)
  show ?case
  proof (cases "valid x \<and> valid y")
    case False
    with end_agrees [OF Suc.prems(1,2) False] show ?thesis by auto
  next
    case True
    then have i: "i < length xs" "j < length ys" and a: "at x xs i" "at y ys j"
      using here_valid [OF Suc.prems(1)] here_valid [OF Suc.prems(2)] Suc.prems(1,2) here_at by auto
    define n where "n = (if left x > left y then left y else left x)"
    show ?thesis
    proof (cases "left x = 0 \<or> left y = 0")
      case one: True
      from a show ?thesis
      proof (cases rule: cmp_char_ok)
        case (differ r)
        with True one show ?thesis by auto
      next
        case (go x' y')
        have "length xs - Suc i < k" using Suc.prems(3) i by simp
        from Suc.IH [OF go(2,3) this] obtain r where
          "cmp_loop valid fetch step left addr advance k x' y' = Inr r" "agrees r (drop (Suc i) xs) (drop (Suc j) ys)"
          by blast
        with True one go i show ?thesis by (auto simp flip: Cons_nth_drop_Suc)
      qed
    next
      case block: False
      then have n: "0 < n" "n \<le> left x" "n \<le> left y" by (auto simp: n_def)
      from a n assms show ?thesis
      proof (cases rule: cmp_block_ok)
        case (differ r)
        with True block show ?thesis by (auto simp: n_def)
      next
        case (go x' y')
        have "length xs - (i + n) < k" using Suc.prems(3) i n by simp
        from Suc.IH [OF go(2,3) this] obtain r where r:
          "cmp_loop valid fetch step left addr advance k x' y' = Inr r" "agrees r (drop (i + n) xs) (drop (j + n) ys)"
          by blast
        have "drop i xs = take n (drop i xs) @ drop (i + n) xs" "drop j ys = take n (drop i xs) @ drop (j + n) ys"
          using go(4) by (metis append_take_drop_id drop_drop add.commute)+
        then have "agrees r (drop i xs) (drop j ys)" using agrees_append r(2) by metis
        with True block go(1) r(1) show ?thesis by (auto simp: n_def)
      qed
    qed
  qed
qed simp

lemma take_split_at: "p \<le> n \<Longrightarrow> take n (drop i zs) = take p (drop i zs) @ take (n - p) (drop (i + p) zs)"
  using take_add [of p "n - p" "drop i zs"] by (simp add: add.commute)

lemma end_agrees_take:
  assumes "here x xs i" "here y ys j" "\<not> (valid x \<and> valid y)" "0 < n"
  shows "agrees (if \<not> valid x then (if valid y then -1 else 0) else 1) (take n (drop i xs)) (take n (drop j ys))"
proof -
  have "valid x \<Longrightarrow> drop i xs = xs ! i # drop (Suc i) xs" "valid y \<Longrightarrow> drop j ys = ys ! j # drop (Suc j) ys"
    "\<not> valid x \<Longrightarrow> drop i xs = []" "\<not> valid y \<Longrightarrow> drop j ys = []"
    using here_valid [OF assms(1)] here_valid [OF assms(2)] by (simp_all add: Cons_nth_drop_Suc)
  with assms(3,4) show ?thesis by (cases n) auto
qed

lemma ncmp_loop_ok:
  assumes "nul_free xs" "nul_free ys"
  shows "here x xs i \<Longrightarrow> here y ys j \<Longrightarrow> len - count < k \<Longrightarrow>
    \<exists>r. ncmp_loop valid fetch step left addr advance k count len x y = Inr r \<and>
      agrees r (take (len - count) (drop i xs)) (take (len - count) (drop j ys))"
proof (induction k arbitrary: x y i j count)
  case (Suc k)
  consider (stop) "\<not> count < len" | (ends) "count < len" "\<not> (valid x \<and> valid y)"
    | (more) "count < len" "valid x" "valid y" by blast
  then show ?case
  proof cases
    case ends
    with end_agrees_take [OF Suc.prems(1,2) ends(2), of "len - count"] show ?thesis by auto
  next
    case more
    then have i: "i < length xs" "j < length ys" and a: "at x xs i" "at y ys j"
      using here_valid [OF Suc.prems(1)] here_valid [OF Suc.prems(2)] Suc.prems(1,2) here_at by auto
    define m where "m = (if left x > left y then left y else left x)"
    define n where "n = (if count + m > len then m - (count + m - len) else m)"
    have split: "take (len - count) (drop i xs) = take p (drop i xs) @ take (len - (count + p)) (drop (i + p) xs)"
      "take (len - count) (drop j ys) = take p (drop j ys) @ take (len - (count + p)) (drop (j + p) ys)"
      if "p \<le> len - count" for p
      using that take_split_at [of p "len - count"] by simp_all
    show ?thesis
    proof (cases "left x = 0 \<or> left y = 0")
      case one: True
      from a show ?thesis
      proof (cases rule: cmp_char_ok)
        case (differ r)
        have "agrees r (take (len - count) (drop i xs)) (take (len - count) (drop j ys))"
          using differ(3,4) more(1) i by (cases "len - count") (auto simp flip: Cons_nth_drop_Suc)
        with differ(1) more one show ?thesis by auto
      next
        case (go x' y')
        have "len - (count + 1) < k" using Suc.prems(3) more(1) by simp
        from Suc.IH [OF go(2,3) this] obtain r where r:
          "ncmp_loop valid fetch step left addr advance k (count + 1) len x' y' = Inr r"
          "agrees r (take (len - (count + 1)) (drop (Suc i) xs)) (take (len - (count + 1)) (drop (Suc j) ys))"
          by blast
        have "agrees r (take (len - count) (drop i xs)) (take (len - count) (drop j ys))"
          using r(2) go(4) split [of 1] more(1) i by (simp flip: Cons_nth_drop_Suc)
        with more one go(1) r(1) show ?thesis by auto
      qed
    next
      case block: False
      then have n: "0 < n" "n \<le> left x" "n \<le> left y" "n \<le> len - count"
        using more(1) by (auto simp: n_def m_def)
      have le: "i + n \<le> length xs" "j + n \<le> length ys"
        using window_at [OF a(1)] window_at [OF a(2)] n by simp_all
      have step: "ncmp_loop valid fetch step left addr advance (Suc k) count len x y =
          rbind (cmp_block addr advance n x y) (\<lambda>s. case s of Differ r \<Rightarrow> Inr r
            | Go x y \<Rightarrow> ncmp_loop valid fetch step left addr advance k (count + m) len x y)"
        using more block unfolding n_def m_def by (simp add: Let_def)
      from a n(1-3) assms show ?thesis
      proof (cases rule: cmp_block_ok)
        case (differ r)
        have "agrees r (take (len - count) (drop i xs)) (take (len - count) (drop j ys))"
          unfolding split [OF n(4)] by (rule agrees_extend [OF differ(4) _ differ(2)]) (use le in simp)
        with differ(1) step show ?thesis by auto
      next
        case (go x' y')
        have nm: "len - (count + m) = len - (count + n)" "0 < m" using block by (auto simp: n_def m_def)
        then have "len - (count + m) < k" using Suc.prems(3) more(1) by simp
        from Suc.IH [OF go(2,3) this] obtain r where r:
          "ncmp_loop valid fetch step left addr advance k (count + m) len x' y' = Inr r"
          "agrees r (take (len - (count + m)) (drop (i + n) xs)) (take (len - (count + m)) (drop (j + n) ys))"
          by blast
        have "agrees r (take (len - count) (drop i xs)) (take (len - count) (drop j ys))"
          unfolding split [OF n(4)] go(4) using r(2) nm(1) by (simp add: agrees_append)
        with step go(1) r(1) show ?thesis by auto
      qed
    qed
  qed simp
qed simp

end

section \<open>Positions are cursors\<close>

definition at_pos :: "(node \<Rightarrow> bool) \<Rightarrow> cord_pos \<Rightarrow> char list \<Rightarrow> nat \<Rightarrow> bool" where
  "at_pos P p xs i \<longleftrightarrow>
     (\<exists>x. P x \<and> pos_at x p \<and> pos_fwd p \<and> LEN x < 2 ^ 63 \<and> xs = chars x \<and> i = cur_pos p)"

text \<open>\<open>CORD_pos_cur_char_addr(p)[k]\<close>, and the two readings of \<open>CORD_pos_chars_left\<close>: a
  \<open>long\<close> tested against 0, as \<open>CORD_ncmp\<close> has it, and a \<open>size_t\<close>, as \<open>CORD_cmp\<close> has it.\<close>

definition pos_char :: "cord_pos \<Rightarrow> nat \<Rightarrow> char res" where
  "pos_char p k = read_leaf p (int (cur_pos p) - int (cur_start p) + int k)"

definition left_long :: "cord_pos \<Rightarrow> nat" where
  "left_long p = nat (CORD_pos_chars_left p)"

definition left_size :: "cord_pos \<Rightarrow> nat" where
  "left_size p = size_of_int (CORD_pos_chars_left p)"

lemma long_of_size_small [simp]: "n < 2 ^ 63 \<Longrightarrow> long_of_size n = int n"
  by (simp add: long_of_size_def)

lemma pos_window:
  assumes "pos_at x p" "pos_fwd p" "cur_end p \<noteq> 0"
  shows "cur_start p \<le> cur_pos p" "cur_pos p < cur_end p" "cur_end p \<le> LEN x"
    "\<And>k. cur_pos p + k < cur_end p \<Longrightarrow> pos_char p k = Inr (chars x ! (cur_pos p + k))"
    "\<And>k. cur_pos p + k < cur_end p \<Longrightarrow> pos_at x (p\<lparr>cur_pos := cur_pos p + k\<rparr>)"
    "\<And>k. cur_pos p + k < cur_end p \<Longrightarrow> pos_fwd (p\<lparr>cur_pos := cur_pos p + k\<rparr>)"
proof -
  show w: "cur_start p \<le> cur_pos p" "cur_pos p < cur_end p" using assms(2,3) by (auto simp: pos_fwd_def)
  from assms(1) obtain k e where e: "path_len p = int k" "path_ok x (path p) k"
    "length (function_buf p) = FUNCTION_BUF_SZ" "path p ! k = Some e" "get_pe p (path_len p) = Inr e"
    "\<not> is_conc (pe_cord e)" "pe_start_pos e \<le> cur_pos p" "cur_pos p < pe_start_pos e + LEN (pe_cord e)"
    "window_ok x p e" "located x (pe_cord e) (pe_start_pos e)"
    by (rule pos_atE)
  show "cur_end p \<le> LEN x" using e(9,10) assms(3) by (auto simp: window_ok_def located_def)
  show "pos_char p k = Inr (chars x ! (cur_pos p + k))" if "cur_pos p + k < cur_end p" for k
  proof -
    have "read_leaf p (int (cur_pos p + k) - int (cur_start p)) = Inr (chars x ! (cur_pos p + k))"
      using e(9) assms(3) w that unfolding window_ok_def by (meson le_add1 le_trans)
    then show ?thesis by (simp add: pos_char_def algebra_simps)
  qed
  show "pos_at x (p\<lparr>cur_pos := cur_pos p + k\<rparr>)" if "cur_pos p + k < cur_end p" for k
    using e that assms(3) by (auto simp: pos_at_def is_conc_def window_ok_def)
  show "pos_fwd (p\<lparr>cur_pos := cur_pos p + k\<rparr>)" if "cur_pos p + k < cur_end p" for k
    using w that by (auto simp: pos_fwd_def)
qed

lemma left_long_eq:
  assumes "pos_at x p" "LEN x < 2 ^ 63" "pos_fwd p"
  shows "left_long p = cur_end p - cur_pos p"
proof (cases "cur_end p = 0")
  case True
  have "cur_pos p < 2 ^ 63" using pos_at_less [OF assms(1)] assms(2) by simp
  with True show ?thesis by (simp add: left_long_def CORD_pos_chars_left_def)
next
  case False
  have "cur_pos p < 2 ^ 63" "cur_end p < 2 ^ 63"
    using pos_at_less [OF assms(1)] pos_window(3) [OF assms(1,3) False] assms(2) by simp_all
  with False show ?thesis by (simp add: left_long_def CORD_pos_chars_left_def nat_diff_distrib')
qed

interpretation pos: cursor "at_pos P" CORD_pos_valid CORD_pos_fetch CORD_next for P
proof unfold_locales
  fix p xs i assume "at_pos P p xs i"
  then obtain x where x: "P x" "pos_at x p" "pos_fwd p" "LEN x < 2 ^ 63" "xs = chars x" "i = cur_pos p"
    by (auto simp: at_pos_def)
  have l: "length xs = LEN x" using x(2,5) by (auto simp: pos_at_def path_ok_def cord_ok_def length_chars)
  show "i < length xs" using x(6) pos_at_less [OF x(2)] l by simp
  show "CORD_pos_valid p" using x(2) by (rule pos_at_valid)
  show "CORD_pos_fetch p = Inr (xs ! i)" using CORD_pos_fetch_ok [OF x(2,3)] x(5,6) by simp
  from x(2) obtain p' where "CORD_next p = Inr p'"
    "if Suc (cur_pos p) < LEN x then pos_at x p' \<and> cur_pos p' = Suc (cur_pos p) \<and> (pos_fwd p \<longrightarrow> pos_fwd p')
     else \<not> CORD_pos_valid p'" by (rule CORD_next_ok)
  with x l show "\<exists>p'. CORD_next p = Inr p' \<and>
      (if Suc i < length xs then at_pos P p' xs (Suc i) else \<not> CORD_pos_valid p')"
    by (auto simp: at_pos_def)
qed

interpretation pos: windowed_cursor "at_pos P" CORD_pos_valid CORD_pos_fetch CORD_next left_long pos_char CORD_pos_advance for P
proof unfold_locales
  fix p xs i assume a: "at_pos P p xs i"
  then obtain x where x: "P x" "pos_at x p" "pos_fwd p" "LEN x < 2 ^ 63" "xs = chars x" "i = cur_pos p"
    by (auto simp: at_pos_def)
  note w = pos_window [OF x(2,3)] and left = left_long_eq [OF x(2,4,3)]
  have l: "length xs = LEN x" using x(2,5) by (auto simp: pos_at_def path_ok_def cord_ok_def length_chars)
  show "i + left_long p \<le> length xs"
    using w left l x(6) pos.at_less [OF a] by (cases "cur_end p = 0") auto
  show "pos_char p k = Inr (xs ! (i + k))" if "k < left_long p" for k
    using w(4) [of k] left x(5,6) that by auto
  show "\<exists>p'. CORD_pos_advance p n = Inr p' \<and>
      (if i + n < length xs then at_pos P p' xs (i + n) else \<not> CORD_pos_valid p')"
    if n: "0 < n" "n \<le> left_long p" for n
  proof -
    let ?q = "p\<lparr>cur_pos := cur_pos p + (n - 1)\<rparr>"
    have e: "cur_end p \<noteq> 0" "cur_pos p + (n - 1) < cur_end p" using n left by auto
    have "cur_pos p + n < 2 ^ 64" using e w(3) x(4) n by auto
    then have "size_add (cur_pos p) (n + size_max - 1) = cur_pos p + (n - 1)"
      using n by (cases n) (simp_all add: size_add_def size_max_def mod_if)
    then have adv: "CORD_pos_advance p n = CORD_next ?q" by (simp add: CORD_pos_advance_def)
    have "at_pos P ?q xs (cur_pos ?q)"
      using x w(5,6) [OF e] by (auto simp: at_pos_def)
    then have "\<exists>p'. CORD_next ?q = Inr p' \<and>
        (if Suc (cur_pos ?q) < length xs then at_pos P p' xs (Suc (cur_pos ?q)) else \<not> CORD_pos_valid p')"
      by (rule pos.step_at)
    moreover have "Suc (cur_pos ?q) = i + n" using n x(6) by simp
    ultimately show ?thesis unfolding adv by (simp only:)
  qed
qed

text \<open>
  Without function leaves there is always a window, and the two readings agree.
\<close>

fun all_strings :: "node \<Rightarrow> bool" where
  "all_strings (Str s) = True"
| "all_strings (Conc d ll n l r) \<longleftrightarrow> all_strings l \<and> all_strings r"
| "all_strings (Fnode h n f) = False"

lemma path_all_strings:
  assumes "path_ok x es k" "all_strings x"
  shows "j \<le> k \<Longrightarrow> es ! j = Some e \<Longrightarrow> all_strings (pe_cord e)"
proof (induction j arbitrary: e)
  case 0
  with assms show ?case by (simp add: path_ok_def)
next
  case (Suc j)
  obtain e' where "es ! j = Some e'" "path_step e' e"
    using path_ok_step [OF assms(1) Suc.prems(1)] Suc.prems(2) by auto
  with Suc.IH [of e'] Suc.prems(1) show ?case by (auto simp: path_step_def)
qed

lemma left_size_eq:
  assumes "at_pos all_strings p xs i"
  shows "left_size p = left_long p"
proof -
  from assms obtain x where x: "all_strings x" "pos_at x p" "pos_fwd p" "LEN x < 2 ^ 63"
    by (auto simp: at_pos_def)
  from x(2) obtain k e where e: "path_len p = int k" "path_ok x (path p) k" "path p ! k = Some e"
    "cur_pos p < pe_start_pos e + LEN (pe_cord e)" "window_ok x p e" "\<not> is_conc (pe_cord e)"
    by (rule pos_atE)
  have "IS_STRING (pe_cord e)"
    using path_all_strings [OF e(2) x(1) le_refl e(3)] e(6) by (cases "pe_cord e") (auto simp: is_conc_def)
  then have "cur_pos p < cur_end p" "cur_end p \<noteq> 0" using e(4,5) by (auto simp: window_ok_def)
  moreover have "cur_pos p < 2 ^ 63" "cur_end p < 2 ^ 63"
    using pos_at_less [OF x(2)] pos_window(3) [OF x(2,3) calculation(2)] x(4) by simp_all
  ultimately show ?thesis
    by (simp add: left_size_def left_long_def CORD_pos_chars_left_def)
qed

interpretation spos: windowed_cursor "at_pos all_strings" CORD_pos_valid CORD_pos_fetch CORD_next left_size pos_char CORD_pos_advance
  by unfold_locales
    (use left_size_eq pos.window_at pos.addr_at pos.advance_at in \<open>auto simp del: One_nat_def\<close>)

lemma CORD_set_pos_here:
  assumes "cord_ok (Some x)" "LEN x < 2 ^ 63" "length (path p) = MAX_DEPTH + 1"
    "length (function_buf p) = FUNCTION_BUF_SZ" "P x" "i \<le> LEN x"
  obtains p' where "CORD_set_pos p (Some x) i = Inr p'" "pos.here P p' (chars x) i"
proof -
  have l: "length (chars x) = LEN x" using assms(1) by (simp add: cord_ok_def length_chars)
  have lt: "LEN x < 2 ^ 64" using assms(2) by simp
  obtain p' where "CORD_set_pos p (Some x) i = Inr p'"
    "if i < LEN x then pos_at x p' \<and> pos_fwd p' \<and> cur_pos p' = i else \<not> CORD_pos_valid p'"
    by (rule CORD_set_pos_ok [OF assms(1) lt assms(3,4)])
  then show thesis using that [of p'] assms(2,5,6) l by (auto simp: pos.here_def at_pos_def split: if_splits)
qed

lemma fresh_pos_sizes [simp]: "length (path fresh_pos) = MAX_DEPTH + 1" "length (function_buf fresh_pos) = FUNCTION_BUF_SZ"
  by (simp_all add: fresh_pos_def)

section \<open>The traversal macro\<close>

definition CORD_FOR :: "(char \<Rightarrow> 'd \<Rightarrow> 'd) \<Rightarrow> CORD \<Rightarrow> 'd \<Rightarrow> 'd res" where
  "CORD_FOR body x d =
     rbind (CORD_set_pos fresh_pos x 0) (\<lambda>p.
       for_loop CORD_pos_valid CORD_pos_fetch CORD_next body (Suc (CORD_len x)) p d)"

lemma CORD_FOR_ok:
  assumes "cord_ok x" "CORD_len x < 2 ^ 63"
  shows "CORD_FOR body x d = Inr (fold body (cord_chars x) d)"
proof (cases x)
  case None
  then show ?thesis by (simp add: CORD_FOR_def CORD_set_pos_def CORD_pos_valid_def)
next
  case (Some y)
  obtain p where p: "CORD_set_pos fresh_pos (Some y) 0 = Inr p" "pos.here (\<lambda>_. True) p (chars y) 0"
    by (rule CORD_set_pos_here [of y fresh_pos "\<lambda>_. True" 0]) (use assms Some in auto)
  have "length (chars y) = LEN y" using assms(1) Some by (simp add: cord_ok_def length_chars)
  with pos.for_loop_ok [OF p(2), of "Suc (LEN y)" body d] p(1) Some show ?thesis
    by (simp add: CORD_FOR_def del: for_loop.simps)
qed

end
