(* ===== verification/Cord_Build.thy ===== *)
theory Cord_Build
  imports Cord_Cursor
begin

text \<open>
  The operations that build cords on top of the primitives: \<open>CORD_chars\<close>, \<open>CORD_cat_char\<close>,
  \<open>CORD_catn\<close> and \<open>CORD_from_file_eager\<close> of \<^verbatim>\<open>libs/gc/cord/cordxtra.c\<close>, and the
  extensible cords of \<^verbatim>\<open>libs/gc/include/ec.h\<close>. They rely on concatenation through the
  contract \<open>cord_builder\<close> only; \<open>CORD_cat\<close> and \<open>CORD_cat_char_star\<close> are its instance.
\<close>

section \<open>Constant cords\<close>

text \<open>A character passed through the client data pointer, sign-extended and truncated.\<close>

definition char_to_data :: "char \<Rightarrow> nat" where
  "char_to_data c = size_of_int (schar c)"

definition CORD_nul_func :: "nat \<Rightarrow> nat \<Rightarrow> char" where
  "CORD_nul_func i client_data = char_of (client_data mod 256)"

definition CORD_chars :: "char \<Rightarrow> nat \<Rightarrow> CORD res" where
  "CORD_chars c i = CORD_from_fn (ClientFn (\<lambda>j. CORD_nul_func j (char_to_data c))) i"

definition CORD_nul :: "nat \<Rightarrow> CORD res" where
  "CORD_nul n = CORD_chars NUL n"

definition CORD_cat_char :: "CORD \<Rightarrow> char \<Rightarrow> CORD res" where
  "CORD_cat_char x c =
     (if c = NUL then rbind (CORD_nul 1) (\<lambda>y. CORD_cat x y)
      else CORD_cat_char_star x [c] 1)"

text \<open>The loop of \<open>CORD_catn\<close> over its arguments.\<close>

fun catn_loop :: "('c \<Rightarrow> 'c \<Rightarrow> 'c res) \<Rightarrow> 'c \<Rightarrow> 'c list \<Rightarrow> 'c res" where
  "catn_loop cat result [] = Inr result"
| "catn_loop cat result (x # xs) = rbind (cat result x) (\<lambda>result. catn_loop cat result xs)"

definition CORD_catn :: "CORD list \<Rightarrow> CORD res" where
  "CORD_catn args = catn_loop CORD_cat None args"

section \<open>Extensible cords\<close>

definition CORD_BUFSZ :: nat where
  "CORD_BUFSZ = 128"

record 'c ec =
  ec_cord :: 'c
  ec_bufptr :: nat
  ec_buf :: "char option list"

text \<open>Reading the first \<open>n\<close> bytes of a buffer.\<close>

fun read_buf :: "char option list \<Rightarrow> nat \<Rightarrow> char list res" where
  "read_buf buf 0 = Inr []"
| "read_buf [] (Suc n) = Inl OutOfBounds"
| "read_buf (None # buf) (Suc n) = Inl Uninitialised"
| "read_buf (Some c # buf) (Suc n) = rbind (read_buf buf n) (\<lambda>s. Inr (c # s))"

definition ec_init :: "'c \<Rightarrow> 'c ec" where
  "ec_init c = \<lparr>ec_cord = c, ec_bufptr = 0, ec_buf = replicate (CORD_BUFSZ + 1) None\<rparr>"

definition ec_flush_buf :: "('c \<Rightarrow> char list \<Rightarrow> nat \<Rightarrow> 'c res) \<Rightarrow> 'c ec \<Rightarrow> 'c ec res" where
  "ec_flush_buf cat_str x =
     (let len = ec_bufptr x
      in if len = 0 then Inr x
         else rbind (read_buf (ec_buf x) len) (\<lambda>s.
              rbind (cat_str (ec_cord x) s len) (\<lambda>c.
                Inr (x\<lparr>ec_cord := c, ec_bufptr := 0\<rparr>))))"

definition ec_to_cord :: "('c \<Rightarrow> char list \<Rightarrow> nat \<Rightarrow> 'c res) \<Rightarrow> 'c ec \<Rightarrow> 'c res" where
  "ec_to_cord cat_str x = rbind (ec_flush_buf cat_str x) (\<lambda>x. Inr (ec_cord x))"

definition ec_append :: "('c \<Rightarrow> char list \<Rightarrow> nat \<Rightarrow> 'c res) \<Rightarrow> 'c ec \<Rightarrow> char \<Rightarrow> 'c ec res" where
  "ec_append cat_str x c =
     rbind (if ec_bufptr x = CORD_BUFSZ then ec_flush_buf cat_str x else Inr x) (\<lambda>x.
       if ec_bufptr x < length (ec_buf x) then
         Inr (x\<lparr>ec_buf := (ec_buf x)[ec_bufptr x := Some c], ec_bufptr := Suc (ec_bufptr x)\<rparr>)
       else Inl OutOfBounds)"

definition ec_append_cord :: "('c \<Rightarrow> char list \<Rightarrow> nat \<Rightarrow> 'c res) \<Rightarrow> ('c \<Rightarrow> 'c \<Rightarrow> 'c res) \<Rightarrow> 'c ec \<Rightarrow> 'c \<Rightarrow> 'c ec res" where
  "ec_append_cord cat_str cat x s =
     rbind (ec_flush_buf cat_str x) (\<lambda>x.
       rbind (cat (ec_cord x) s) (\<lambda>c. Inr (x\<lparr>ec_cord := c\<rparr>)))"

definition CORD_ec_init :: "CORD ec" where
  "CORD_ec_init = ec_init None"

definition CORD_ec_flush_buf :: "CORD ec \<Rightarrow> CORD ec res" where
  "CORD_ec_flush_buf = ec_flush_buf CORD_cat_char_star"

definition CORD_ec_to_cord :: "CORD ec \<Rightarrow> CORD res" where
  "CORD_ec_to_cord = ec_to_cord CORD_cat_char_star"

definition CORD_ec_append :: "CORD ec \<Rightarrow> char \<Rightarrow> CORD ec res" where
  "CORD_ec_append = ec_append CORD_cat_char_star"

definition CORD_ec_append_cord :: "CORD ec \<Rightarrow> CORD \<Rightarrow> CORD ec res" where
  "CORD_ec_append_cord = ec_append_cord CORD_cat_char_star CORD_cat"

section \<open>Reading a file\<close>

text \<open>
  The file is the list of the bytes \<open>getc\<close> will return before EOF. A run of NULs becomes one
  function leaf; the character after the run is then appended.
\<close>

function from_file_loop :: "('c \<Rightarrow> char list \<Rightarrow> nat \<Rightarrow> 'c res) \<Rightarrow> ('c \<Rightarrow> 'c \<Rightarrow> 'c res) \<Rightarrow> (nat \<Rightarrow> 'c res) \<Rightarrow>
    char list \<Rightarrow> 'c ec \<Rightarrow> 'c ec res" where
  "from_file_loop cat_str cat nul [] x = Inr x"
| "from_file_loop cat_str cat nul (c # f) x =
     (if c = NUL then
        let count = Suc (length (takeWhile (\<lambda>c. c = NUL) f))
        in rbind (ec_flush_buf cat_str x) (\<lambda>x.
           rbind (nul count) (\<lambda>s.
           rbind (cat (ec_cord x) s) (\<lambda>y.
             case dropWhile (\<lambda>c. c = NUL) f of
               [] \<Rightarrow> Inr (x\<lparr>ec_cord := y\<rparr>)
             | c' # f' \<Rightarrow> rbind (ec_append cat_str (x\<lparr>ec_cord := y\<rparr>) c') (\<lambda>x.
                 from_file_loop cat_str cat nul f' x))))
      else rbind (ec_append cat_str x c) (\<lambda>x. from_file_loop cat_str cat nul f x))"
  by pat_completeness auto
termination
proof (relation "measure (\<lambda>(_, _, _, f, _). length f)", goal_cases)
  case (2 cat_str cat nul c f x count x' s y c' f' x'')
  then show ?case using length_dropWhile_le [of "\<lambda>c. c = NUL" f] by simp
qed simp_all

definition CORD_from_file_eager :: "char list \<Rightarrow> CORD res" where
  "CORD_from_file_eager f =
     rbind (from_file_loop CORD_cat_char_star CORD_cat CORD_nul f CORD_ec_init) (\<lambda>x.
     rbind (CORD_ec_to_cord x) (\<lambda>c. CORD_balance c))"

declare from_file_loop.simps [simp del]

section \<open>The contract of concatenation\<close>

locale cord_builder =
  fixes ok :: "'c \<Rightarrow> bool"
    and content :: "'c \<Rightarrow> char list"
    and limit :: nat
    and emp :: 'c
    and cat :: "'c \<Rightarrow> 'c \<Rightarrow> 'c res"
    and cat_str :: "'c \<Rightarrow> char list \<Rightarrow> nat \<Rightarrow> 'c res"
    and nul :: "nat \<Rightarrow> 'c res"
  assumes emp_ok: "ok emp" "content emp = []"
    and cat_ok: "ok x \<Longrightarrow> ok y \<Longrightarrow> length (content x) + length (content y) < limit \<Longrightarrow>
      \<exists>z. cat x y = Inr z \<and> ok z \<and> content z = content x @ content y"
    and cat_str_ok: "ok x \<Longrightarrow> s \<noteq> [] \<Longrightarrow> nul_free s \<Longrightarrow> length (content x) + length s < limit \<Longrightarrow>
      \<exists>z. cat_str x s (length s) = Inr z \<and> ok z \<and> content z = content x @ s"
    and nul_ok: "0 < n \<Longrightarrow> \<exists>z. nul n = Inr z \<and> ok z \<and> content z = replicate n NUL"
begin

lemma catn_loop_ok:
  "ok r \<Longrightarrow> list_all ok xs \<Longrightarrow> length (content r) + length (concat (map content xs)) < limit \<Longrightarrow>
    \<exists>z. catn_loop cat r xs = Inr z \<and> ok z \<and> content z = content r @ concat (map content xs)"
proof (induction xs arbitrary: r)
  case (Cons x xs)
  obtain z where z: "cat r x = Inr z" "ok z" "content z = content r @ content x"
    using cat_ok [of r x] Cons.prems by auto
  with Cons.IH [of z] Cons.prems show ?case by auto
qed simp

text \<open>\<open>holds x t\<close>: the extensible cord \<open>x\<close> stands for the text \<open>t\<close>.\<close>

definition holds :: "'c ec \<Rightarrow> char list \<Rightarrow> bool" where
  "holds x t \<longleftrightarrow> ok (ec_cord x) \<and> length (ec_buf x) = CORD_BUFSZ + 1 \<and> ec_bufptr x \<le> CORD_BUFSZ \<and>
     (\<exists>s. length s = ec_bufptr x \<and> nul_free s \<and> take (ec_bufptr x) (ec_buf x) = map Some s \<and>
        t = content (ec_cord x) @ s)"

lemma read_buf_ok: "take n buf = map Some s \<Longrightarrow> length s = n \<Longrightarrow> read_buf buf n = Inr s"
proof (induction buf n arbitrary: s rule: read_buf.induct)
  case (4 c buf n)
  then show ?case by (cases s) auto
qed auto

lemma init_holds: "holds (ec_init emp) []"
  by (simp add: holds_def ec_init_def emp_ok)

lemma flush_holds:
  assumes "holds x t" "length t < limit"
  obtains x' where "ec_flush_buf cat_str x = Inr x'" "holds x' t" "ec_bufptr x' = 0" "content (ec_cord x') = t"
proof -
  from assms(1) obtain s where s: "ok (ec_cord x)" "length (ec_buf x) = CORD_BUFSZ + 1" "length s = ec_bufptr x"
    "nul_free s" "take (ec_bufptr x) (ec_buf x) = map Some s" "t = content (ec_cord x) @ s"
    by (auto simp: holds_def)
  show thesis
  proof (cases "s = []")
    case True
    then have "ec_bufptr x = 0" "content (ec_cord x) = t" using s(3,6) by simp_all
    with assms(1) show thesis by (intro that [of x]) (simp_all add: ec_flush_buf_def)
  next
    case False
    obtain z where z: "cat_str (ec_cord x) s (length s) = Inr z" "ok z" "content z = content (ec_cord x) @ s"
      using cat_str_ok [OF s(1) False s(4)] s(6) assms(2) by auto
    let ?y = "x\<lparr>ec_cord := z, ec_bufptr := 0\<rparr>"
    have "ec_flush_buf cat_str x = Inr ?y"
      using False s(3) read_buf_ok [OF s(5,3)] z(1) by (auto simp: ec_flush_buf_def Let_def)
    moreover have "holds ?y t" using z s(2,6) by (simp add: holds_def)
    ultimately show thesis using that [of ?y] z(3) s(6) by simp
  qed
qed

lemma to_cord_ok:
  assumes "holds x t" "length t < limit"
  obtains z where "ec_to_cord cat_str x = Inr z" "ok z" "content z = t"
proof -
  obtain y where y: "ec_flush_buf cat_str x = Inr y" "holds y t" "content (ec_cord y) = t"
    by (rule flush_holds [OF assms])
  then show thesis using that [of "ec_cord y"] by (simp add: ec_to_cord_def holds_def)
qed

lemma append_holds:
  assumes "holds x t" "length t < limit" "c \<noteq> NUL"
  obtains x' where "ec_append cat_str x c = Inr x'" "holds x' (t @ [c])"
proof -
  have put: "holds (y\<lparr>ec_buf := (ec_buf y)[ec_bufptr y := Some c], ec_bufptr := Suc (ec_bufptr y)\<rparr>) (t @ [c])"
    "ec_bufptr y < length (ec_buf y)"
    if y: "holds y t" "ec_bufptr y < CORD_BUFSZ" for y
  proof -
    from y(1) obtain s where s: "ok (ec_cord y)" "length (ec_buf y) = CORD_BUFSZ + 1" "length s = ec_bufptr y"
      "nul_free s" "take (ec_bufptr y) (ec_buf y) = map Some s" "t = content (ec_cord y) @ s"
      by (auto simp: holds_def)
    show "ec_bufptr y < length (ec_buf y)" using y(2) s(2) by simp
    then have "take (Suc (ec_bufptr y)) ((ec_buf y)[ec_bufptr y := Some c]) = map Some (s @ [c])"
      using s(5) by (simp add: take_Suc_conv_app_nth)
    with s assms(3) y(2) show "holds (y\<lparr>ec_buf := (ec_buf y)[ec_bufptr y := Some c], ec_bufptr := Suc (ec_bufptr y)\<rparr>) (t @ [c])"
      by (auto simp: holds_def intro!: exI [of _ "s @ [c]"])
  qed
  show thesis
  proof (cases "ec_bufptr x = CORD_BUFSZ")
    case True
    obtain y where y: "ec_flush_buf cat_str x = Inr y" "holds y t" "ec_bufptr y = 0"
      by (rule flush_holds [OF assms(1,2)])
    have "ec_bufptr y < CORD_BUFSZ" using y(3) by (simp add: CORD_BUFSZ_def)
    from that [OF _ put(1) [OF y(2) this]] put(2) [OF y(2) this] True y(1) show thesis
      by (simp add: ec_append_def)
  next
    case False
    then have "ec_bufptr x < CORD_BUFSZ" using assms(1) by (simp add: holds_def)
    from that [OF _ put(1) [OF assms(1) this]] put(2) [OF assms(1) this] False show thesis
      by (simp add: ec_append_def)
  qed
qed

lemma append_cord_holds:
  assumes "holds x t" "ok s" "length t + length (content s) < limit"
  obtains x' where "ec_append_cord cat_str cat x s = Inr x'" "holds x' (t @ content s)"
proof -
  have "length t < limit" using assms(3) by simp
  then obtain y where y: "ec_flush_buf cat_str x = Inr y" "holds y t" "ec_bufptr y = 0" "content (ec_cord y) = t"
    by (rule flush_holds [OF assms(1)])
  have "ok (ec_cord y)" using y(2) by (simp add: holds_def)
  then obtain z where z: "cat (ec_cord y) s = Inr z" "ok z" "content z = t @ content s"
    using cat_ok [of "ec_cord y" s] y(4) assms(2,3) by auto
  let ?z = "y\<lparr>ec_cord := z\<rparr>"
  have "ec_append_cord cat_str cat x s = Inr ?z" using y(1) z(1) by (simp add: ec_append_cord_def)
  moreover have "holds ?z (t @ content s)" using y(2,3) z by (simp add: holds_def)
  ultimately show thesis by (rule that)
qed

lemma takeWhile_NUL: "takeWhile (\<lambda>c. c = NUL) f = replicate (length (takeWhile (\<lambda>c. c = NUL) f)) NUL"
  by (induction f) auto

lemma from_file_loop_ok:
  "holds x t \<Longrightarrow> length t + length f < limit \<Longrightarrow>
    \<exists>x'. from_file_loop cat_str cat nul f x = Inr x' \<and> holds x' (t @ f)"
proof (induction "length f" arbitrary: f x t rule: less_induct)
  case less
  show ?case
  proof (cases f)
    case Nil
    with less.prems show ?thesis by (simp add: from_file_loop.simps)
  next
    case (Cons c g)
    have lt: "length t < limit" using less.prems(2) by simp
    show ?thesis
    proof (cases "c = NUL")
      case False
      obtain y where "ec_append cat_str x c = Inr y" "holds y (t @ [c])"
        by (rule append_holds [OF less.prems(1) lt False])
      moreover from this(2) have "\<exists>x'. from_file_loop cat_str cat nul g y = Inr x' \<and> holds x' ((t @ [c]) @ g)"
        by (rule less.hyps [rotated]) (use Cons less.prems(2) in auto)
      ultimately show ?thesis using Cons False by (auto simp: from_file_loop.simps)
    next
      case True
      define k where "k = length (takeWhile (\<lambda>c. c = NUL) g)"
      have g: "g = replicate k NUL @ dropWhile (\<lambda>c. c = NUL) g"
        using takeWhile_dropWhile_id [of "\<lambda>c. c = NUL" g] takeWhile_NUL [of g] by (simp add: k_def)
      have len: "length g = k + length (dropWhile (\<lambda>c. c = NUL) g)"
        by (subst g) simp
      obtain y where y: "ec_flush_buf cat_str x = Inr y" "holds y t" "ec_bufptr y = 0" "content (ec_cord y) = t"
        by (rule flush_holds [OF less.prems(1) lt])
      obtain s where s: "nul (Suc k) = Inr s" "ok s" "content s = replicate (Suc k) NUL"
        using nul_ok [of "Suc k"] by auto
      obtain z where z: "cat (ec_cord y) s = Inr z" "ok z" "content z = t @ replicate (Suc k) NUL"
        using cat_ok [of "ec_cord y" s] y(2,4) s less.prems(2) len Cons by (auto simp: holds_def)
      have h: "holds (y\<lparr>ec_cord := z\<rparr>) (t @ replicate (Suc k) NUL)"
        using y z by (auto simp: holds_def)
      show ?thesis
      proof (cases "dropWhile (\<lambda>c. c = NUL) g")
        case Nil
        with g h Cons True y(1) s(1) z(1) show ?thesis
          by (auto simp: from_file_loop.simps Let_def k_def [symmetric])
      next
        case (Cons c' f')
        have c': "c' \<noteq> NUL" using hd_dropWhile [of "\<lambda>c. c = NUL" g] Cons by auto
        have lt': "length (t @ replicate (Suc k) NUL) < limit" using less.prems(2) len \<open>f = c # g\<close> by simp
        obtain w where w: "ec_append cat_str (y\<lparr>ec_cord := z\<rparr>) c' = Inr w" "holds w ((t @ replicate (Suc k) NUL) @ [c'])"
          by (rule append_holds [OF h lt' c'])
        have "\<exists>x'. from_file_loop cat_str cat nul f' w = Inr x' \<and> holds x' (((t @ replicate (Suc k) NUL) @ [c']) @ f')"
          by (rule less.hyps [OF _ w(2)]) (use len Cons \<open>f = c # g\<close> less.prems(2) in auto)
        moreover have "((t @ replicate (Suc k) NUL) @ [c']) @ f' = t @ f"
          using g Cons \<open>f = c # g\<close> True by simp
        ultimately show ?thesis
          using Cons \<open>f = c # g\<close> True y(1) s(1) z(1) w(1)
          by (auto simp: from_file_loop.simps Let_def k_def [symmetric])
      qed
    qed
  qed
qed

end

section \<open>Cords are the instance\<close>

lemma uchar_char_of: "char_of (nat (uchar c)) = c"
  by (simp add: uchar_def)

lemma char_to_data_mod: "char_to_data c mod 256 = nat (uchar c)"
proof -
  have "int (char_to_data c) = schar c mod 2 ^ 64"
    by (simp add: char_to_data_def size_of_int_def)
  then have "int (char_to_data c) mod 256 = schar c mod 2 ^ 64 mod 256" by simp
  also have "\<dots> = schar c mod 256" by (rule mod_mod_cancel) simp
  also have "\<dots> = uchar c mod 256" by (simp add: schar_def)
  also have "\<dots> = uchar c" using uchar_bounds [of c] by simp
  finally show ?thesis by (metis nat_int of_nat_mod of_nat_numeral)
qed

lemma CORD_nul_func_char [simp]: "CORD_nul_func j (char_to_data c) = c"
  by (simp only: CORD_nul_func_def char_to_data_mod uchar_char_of)

lemma CORD_from_fn_depth: "CORD_from_fn f n = Inr x \<Longrightarrow> cord_depth x = 0"
  by (cases "from_fn_buf f 0 n") (auto simp: CORD_from_fn_def split: if_splits option.splits)

lemma CORD_chars_ok:
  obtains z where "CORD_chars c n = Inr z" "cord_ok z" "cord_chars z = replicate n c"
proof -
  let ?f = "ClientFn (\<lambda>j. CORD_nul_func j (char_to_data c))"
  have "wf_fn FN_HDR n ?f" by simp
  then obtain x where x: "CORD_from_fn ?f n = Inr x" "wf_cord x" "cord_chars x = map (fn_char ?f) [0..<n]"
    using CORD_from_fn_spec by blast
  have "map (fn_char ?f) [0..<n] = replicate n c"
    by (rule nth_equalityI) (simp_all add: fn_char_def)
  with x CORD_from_fn_depth [OF x(1)] show thesis
    by (intro that [of x]) (simp_all add: CORD_chars_def cord_ok_def MAX_DEPTH_def)
qed

interpretation cords: cord_builder cord_ok cord_chars CORD_LIMIT None CORD_cat CORD_cat_char_star CORD_nul
proof unfold_locales
  show "cord_ok None" "cord_chars None = []" by simp_all
  fix x y s assume x: "cord_ok x"
  note len = length_cord_chars [OF cord_ok_wf]
  show "\<exists>z. CORD_cat x y = Inr z \<and> cord_ok z \<and> cord_chars z = cord_chars x @ cord_chars y"
    if y: "cord_ok y" "length (cord_chars x) + length (cord_chars y) < CORD_LIMIT"
  proof -
    have "CORD_len x + CORD_len y < CORD_LIMIT" using y(2) len [OF x] len [OF y(1)] by simp
    from CORD_cat_ok [OF x y(1) this] show ?thesis by metis
  qed
  show "\<exists>z. CORD_cat_char_star x s (length s) = Inr z \<and> cord_ok z \<and> cord_chars z = cord_chars x @ s"
    if s: "s \<noteq> []" "nul_free s" "length (cord_chars x) + length s < CORD_LIMIT"
  proof -
    have "wf_node (Str s)" "CORD_len x + length s < CORD_LIMIT" using s len [OF x] by simp_all
    from CORD_cat_char_star_ok [OF x this] show ?thesis by metis
  qed
next
  show "\<exists>z. CORD_nul n = Inr z \<and> cord_ok z \<and> cord_chars z = replicate n NUL" for n
    using CORD_chars_ok [of NUL n] by (metis CORD_nul_def)
qed

lemma CORD_cat_char_ok:
  assumes "cord_ok x" "CORD_len x + 1 < CORD_LIMIT"
  shows "\<exists>z. CORD_cat_char x c = Inr z \<and> cord_ok z \<and> cord_chars z = cord_chars x @ [c]"
proof (cases "c = NUL")
  case True
  obtain s where s: "CORD_nul 1 = Inr s" "cord_ok s" "cord_chars s = [NUL]"
    using cords.nul_ok [of 1] by auto
  have "length (cord_chars x) + length (cord_chars s) < CORD_LIMIT"
    using assms s(3) by (simp add: length_cord_chars cord_ok_wf)
  from cords.cat_ok [OF assms(1) s(2) this] s(1,3) True show ?thesis by (simp add: CORD_cat_char_def)
next
  case False
  with cords.cat_str_ok [OF assms(1), of "[c]"] assms show ?thesis
    by (simp add: CORD_cat_char_def length_cord_chars cord_ok_wf)
qed

lemma CORD_catn_ok:
  assumes "list_all cord_ok xs" "length (concat (map cord_chars xs)) < CORD_LIMIT"
  obtains z where "CORD_catn xs = Inr z" "cord_ok z" "cord_chars z = concat (map cord_chars xs)"
  using cords.catn_loop_ok [of None xs] assms that by (auto simp: CORD_catn_def)

lemma CORD_from_file_eager_ok:
  assumes "length f < CORD_LIMIT"
  obtains z where "CORD_from_file_eager f = Inr z" "cord_ok z" "cord_chars z = f"
proof -
  obtain x where x: "from_file_loop CORD_cat_char_star CORD_cat CORD_nul f CORD_ec_init = Inr x" "cords.holds x f"
    using cords.from_file_loop_ok [OF cords.init_holds] assms by (auto simp: CORD_ec_init_def)
  obtain c where c: "CORD_ec_to_cord x = Inr c" "cord_ok c" "cord_chars c = f"
    using cords.to_cord_ok [OF x(2) assms] by (auto simp: CORD_ec_to_cord_def)
  have "CORD_len c < CORD_LIMIT" using assms c(2,3) by (simp add: cord_ok_wf flip: length_cord_chars)
  then obtain z where "CORD_balance c = Inr z" "cord_ok z" "cord_chars z = f"
    using CORD_balance_ok [OF cord_ok_wf [OF c(2)], of "Suc 0"] c(3)
    by (auto simp: CORD_balance_def cord_fuel_def numeral_2_eq_2)
  with x(1) c(1) that [of z] show thesis by (simp add: CORD_from_file_eager_def)
qed

end
