(* ===== verification/Cord_Client.thy ===== *)
theory Cord_Client
  imports Cord_Iter Cord_Build
begin

text \<open>
  Functions on cords that do not look inside them, of \<^verbatim>\<open>libs/gc/cord/cordxtra.c\<close>: copying
  to C strings (\<open>CORD_fill_buf\<close>, \<open>CORD_to_char_star\<close>, \<open>CORD_from_char_star\<close>,
  \<open>CORD_to_const_char_star\<close>), \<open>CORD_fetch\<close>, the comparisons \<open>CORD_cmp\<close> and \<open>CORD_ncmp\<close>,
  and the searches \<open>CORD_chr\<close> and \<open>CORD_rchr\<close>.
\<close>

section \<open>Copying to a buffer\<close>

record fill_data =
  fd_len :: nat
  fd_count :: nat
  fd_buf :: "char option list"

definition CORD_fill_proc :: "fill_data iter_fn" where
  "CORD_fill_proc c d =
     (let count = fd_count d
      in if count < length (fd_buf d) then
           let d = d\<lparr>fd_buf := (fd_buf d)[count := Some c], fd_count := count + 1\<rparr>
           in if count + 1 \<ge> fd_len d then Inr (1, d) else Inr (0, d)
         else Inl OutOfBounds)"

text \<open>The loop of \<open>CORD_batched_fill_proc\<close>; it stores the terminator of the string too.\<close>

fun batched_fill_loop :: "char list \<Rightarrow> nat \<Rightarrow> nat \<Rightarrow> char option list \<Rightarrow> (int \<times> nat \<times> char option list) res" where
  "batched_fill_loop [] count mx buf =
     (if count < length buf then Inr (0, count, buf[count := Some NUL]) else Inl OutOfBounds)"
| "batched_fill_loop (c # t) count mx buf =
     (if count < length buf then
        let buf = buf[count := Some c]
        in if c = NUL then Inr (0, count, buf)
           else if count + 1 \<ge> mx then Inr (1, count + 1, buf)
           else batched_fill_loop t (count + 1) mx buf
      else Inl OutOfBounds)"

definition CORD_batched_fill_proc :: "fill_data batched_iter_fn" where
  "CORD_batched_fill_proc s d =
     rbind (batched_fill_loop s (fd_count d) (fd_len d) (fd_buf d)) (\<lambda>(r, count, buf).
       Inr (r, d\<lparr>fd_count := count, fd_buf := buf\<rparr>))"

definition CORD_fill_buf :: "CORD \<Rightarrow> nat \<Rightarrow> nat \<Rightarrow> char option list \<Rightarrow> char option list res" where
  "CORD_fill_buf x i len buf =
     rbind (CORD_iter5 x i CORD_fill_proc (Some CORD_batched_fill_proc)
              \<lparr>fd_len = len, fd_count = 0, fd_buf = buf\<rparr>) (\<lambda>(_, d). Inr (fd_buf d))"

text \<open>
  The string in a block that it fills: the characters before the terminator, which has to be the
  last byte. A block that lacks it is no C string: whoever reads it runs over its end.
\<close>

definition block_string :: "char option list \<Rightarrow> char list res" where
  "block_string buf =
     rbind (read_buf buf (length buf)) (\<lambda>s.
       if s \<noteq> [] \<and> last s = NUL then Inr (butlast s) else Inl OutOfBounds)"

definition CORD_to_char_star :: "CORD \<Rightarrow> char list res" where
  "CORD_to_char_star x =
     (let len = CORD_len x; result = replicate (len + 1) None
      in rbind (CORD_fill_buf x 0 len result) (\<lambda>result. block_string (result[len := Some NUL])))"

definition CORD_from_char_star :: "char list \<Rightarrow> CORD res" where
  "CORD_from_char_star s =
     (let len = strlen s
      in if len = 0 then Inr None else rbind (memcpy_from s len) (\<lambda>r. Inr (Some (Str r))))"

definition CORD_to_const_char_star :: "CORD \<Rightarrow> char list res" where
  "CORD_to_const_char_star x =
     (case x of
        None \<Rightarrow> Inr []
      | Some (Str s) \<Rightarrow> Inr s
      | Some y \<Rightarrow> CORD_to_char_star (Some y))"

definition CORD_fetch :: "CORD \<Rightarrow> nat \<Rightarrow> char res" where
  "CORD_fetch x i =
     rbind (CORD_set_pos fresh_pos x i) (\<lambda>xpos.
       if \<not> CORD_pos_valid xpos then Inl (Abort ''bad index?'') else CORD_pos_fetch xpos)"

section \<open>Comparison\<close>

fun c_strcmp :: "char list \<Rightarrow> char list \<Rightarrow> int" where
  "c_strcmp [] [] = 0"
| "c_strcmp [] (d # t) = 0 - uchar d"
| "c_strcmp (c # s) [] = uchar c - 0"
| "c_strcmp (c # s) (d # t) =
     (if c \<noteq> d then uchar c - uchar d else if c = NUL then 0 else c_strcmp s t)"

text \<open>\<open>avail\<close> and \<open>yavail\<close> are declared \<open>size_t\<close> here, and \<open>long\<close> in \<open>CORD_ncmp\<close>.\<close>

definition cmp_nodes :: "node \<Rightarrow> node \<Rightarrow> int res" where
  "cmp_nodes x y =
     (case (x, y) of
        (Str s, Str t) \<Rightarrow> Inr (c_strcmp s t)
      | _ \<Rightarrow>
          rbind (CORD_set_pos fresh_pos (Some x) 0) (\<lambda>xpos.
          rbind (CORD_set_pos fresh_pos (Some y) 0) (\<lambda>ypos.
            cmp_loop CORD_pos_valid CORD_pos_fetch CORD_next left_size pos_char CORD_pos_advance
              (Suc (GEN_LEN x)) xpos ypos)))"

definition CORD_cmp :: "CORD \<Rightarrow> CORD \<Rightarrow> int res" where
  "CORD_cmp x y =
     (case y of
        None \<Rightarrow> Inr (if x \<noteq> None then 1 else 0)
      | Some y' \<Rightarrow> (case x of None \<Rightarrow> Inr (-1) | Some x' \<Rightarrow> cmp_nodes x' y'))"

definition CORD_ncmp :: "CORD \<Rightarrow> nat \<Rightarrow> CORD \<Rightarrow> nat \<Rightarrow> nat \<Rightarrow> int res" where
  "CORD_ncmp x x_start y y_start len =
     rbind (CORD_set_pos fresh_pos x x_start) (\<lambda>xpos.
     rbind (CORD_set_pos fresh_pos y y_start) (\<lambda>ypos.
       ncmp_loop CORD_pos_valid CORD_pos_fetch CORD_next left_long pos_char CORD_pos_advance
         (Suc len) 0 len xpos ypos))"

section \<open>Searching for a character\<close>

record chr_data =
  cd_pos :: nat
  cd_target :: char

definition CORD_NOT_FOUND :: nat where
  "CORD_NOT_FOUND = size_max - 1"

definition CORD_chr_proc :: "chr_data iter_fn" where
  "CORD_chr_proc c d =
     (if c = cd_target d then Inr (1, d) else Inr (0, d\<lparr>cd_pos := size_add (cd_pos d) 1\<rparr>))"

definition CORD_rchr_proc :: "chr_data iter_fn" where
  "CORD_rchr_proc c d =
     (if c = cd_target d then Inr (1, d) else Inr (0, d\<lparr>cd_pos := size_add (cd_pos d) (size_max - 1)\<rparr>))"

text \<open>\<open>strchr\<close> finds the terminator when it looks for NUL.\<close>

definition c_strchr :: "char list \<Rightarrow> char \<Rightarrow> nat option" where
  "c_strchr s c =
     (let t = takeWhile (\<lambda>d. d \<noteq> NUL) s
      in if c \<in> set t then Some (length (takeWhile (\<lambda>d. d \<noteq> c) t))
         else if c = NUL then Some (length t) else None)"

definition CORD_batched_chr_proc :: "chr_data batched_iter_fn" where
  "CORD_batched_chr_proc s d =
     (case c_strchr s (cd_target d) of
        None \<Rightarrow> Inr (0, d\<lparr>cd_pos := size_add (cd_pos d) (strlen s)\<rparr>)
      | Some occ \<Rightarrow> Inr (1, d\<lparr>cd_pos := size_add (cd_pos d) occ\<rparr>))"

definition char_of_int :: "int \<Rightarrow> char" where
  "char_of_int c = char_of (nat (c mod 256))"

definition CORD_chr :: "CORD \<Rightarrow> nat \<Rightarrow> int \<Rightarrow> nat res" where
  "CORD_chr x i c =
     rbind (CORD_iter5 x i CORD_chr_proc (Some CORD_batched_chr_proc)
              \<lparr>cd_pos = i, cd_target = char_of_int c\<rparr>) (\<lambda>(r, d).
       if r \<noteq> 0 then Inr (cd_pos d) else Inr CORD_NOT_FOUND)"

definition CORD_rchr :: "CORD \<Rightarrow> nat \<Rightarrow> int \<Rightarrow> nat res" where
  "CORD_rchr x i c =
     rbind (CORD_riter4 x i CORD_rchr_proc \<lparr>cd_pos = i, cd_target = char_of_int c\<rparr>) (\<lambda>(r, d).
       if r \<noteq> 0 then Inr (cd_pos d) else Inr CORD_NOT_FOUND)"

section \<open>Correctness of the copies\<close>

text \<open>Reference callback: collect characters until there are \<open>L\<close>.\<close>

definition collect :: "nat \<Rightarrow> char list iter_fn" where
  "collect L c a = Inr (if L \<le> length a + 1 then 1 else 0, a @ [c])"

definition fill_rel :: "nat \<Rightarrow> nat \<Rightarrow> bool \<Rightarrow> fill_data \<Rightarrow> char list \<Rightarrow> bool" where
  "fill_rel L B stopped d a \<longleftrightarrow> fd_len d = L \<and> fd_count d = length a \<and> length (fd_buf d) = B \<and>
     length a \<le> B \<and> take (length a) (fd_buf d) = map Some a \<and> (\<not> stopped \<longrightarrow> length a < L)"

lemma iter_collect:
  "length a < L \<Longrightarrow> iter_list (collect L) xs a = Inr (if L \<le> length a + length xs then 1 else 0, take L (a @ xs))"
proof (induction xs arbitrary: a)
  case (Cons c xs)
  then have "L - length a = Suc (L - Suc (length a))" by simp
  with Cons.prems Cons.IH [of "a @ [c]"] show ?case
    by (cases "L \<le> Suc (length a)") (simp_all add: collect_def)
qed simp

lemma take_Suc_update:
  "k < length buf \<Longrightarrow> take k buf = map Some a \<Longrightarrow> take (Suc k) (buf[k := Some c]) = map Some a @ [Some c]"
  by (simp add: take_Suc_conv_app_nth)

lemma fill_sim: "L \<le> B \<Longrightarrow> sim_fn (fill_rel L B) CORD_fill_proc (collect L)"
  by (auto simp: sim_fn_def sim_iter_def fill_rel_def CORD_fill_proc_def collect_def Let_def
      intro!: take_Suc_update)

lemma batched_fill_loop_ok:
  assumes "L \<le> length buf" "length a < L" "take (length a) buf = map Some a" "nul_free s"
  obtains r a' r' buf' where "batched_fill_loop s (length a) L buf = Inr (r, length a', buf')"
    "iter_list (collect L) s a = Inr (r', a')" "(r \<noteq> 0) = (r' \<noteq> 0)"
    "take (length a') buf' = map Some a'" "length buf' = length buf" "length a' \<le> length buf" "r = 0 \<Longrightarrow> length a' < L"
proof -
  have "\<exists>r a' r' buf'. batched_fill_loop s (length a) L buf = Inr (r, length a', buf') \<and>
      iter_list (collect L) s a = Inr (r', a') \<and> (r \<noteq> 0) = (r' \<noteq> 0) \<and>
      take (length a') buf' = map Some a' \<and> length buf' = length buf \<and> length a' \<le> length buf \<and>
      (r = 0 \<longrightarrow> length a' < L)"
    using assms
  proof (induction s arbitrary: a buf)
    case Nil
    then show ?case by (intro exI [of _ 0] exI [of _ a]) auto
  next
    case (Cons c s)
    have t: "take (Suc (length a)) (buf[length a := Some c]) = map Some (a @ [c])"
      using Cons.prems take_Suc_update [of "length a" buf a c] by simp
    show ?case
    proof (cases "L \<le> length a + 1")
      case True
      have "batched_fill_loop (c # s) (length a) L buf = Inr (1, length (a @ [c]), buf[length a := Some c])"
        using True Cons.prems by simp
      moreover have "iter_list (collect L) (c # s) a = Inr (1, a @ [c])" using True by (simp add: collect_def)
      ultimately show ?thesis using t True Cons.prems(1,2)
        by (intro exI [of _ 1] exI [of _ "a @ [c]"] exI [of _ "buf[length a := Some c]"]) auto
    next
      case False
      have "\<exists>r a' r' buf'. batched_fill_loop s (length (a @ [c])) L (buf[length a := Some c]) = Inr (r, length a', buf') \<and>
          iter_list (collect L) s (a @ [c]) = Inr (r', a') \<and> (r \<noteq> 0) = (r' \<noteq> 0) \<and>
          take (length a') buf' = map Some a' \<and> length buf' = length (buf[length a := Some c]) \<and>
          length a' \<le> length (buf[length a := Some c]) \<and> (r = 0 \<longrightarrow> length a' < L)"
        by (rule Cons.IH) (use False t Cons.prems in auto)
      moreover have "collect L c a = Inr (0, a @ [c])" using False by (simp add: collect_def)
      ultimately show ?thesis using False Cons.prems by simp
    qed
  qed
  with that show thesis by blast
qed

lemma fill_batched_sim:
  assumes "L \<le> B"
  shows "sim_batched (fill_rel L B) (Some CORD_batched_fill_proc) (collect L)"
proof -
  have "sim_iter (fill_rel L B) (CORD_batched_fill_proc s d) (iter_list (collect L) s a)"
    if "nul_free s" "fill_rel L B False d a" for s d a
  proof -
    from that(2) have d: "L \<le> length (fd_buf d)" "length a < L" "take (length a) (fd_buf d) = map Some a"
      using assms by (auto simp: fill_rel_def)
    obtain r a' r' buf' where "batched_fill_loop s (length a) L (fd_buf d) = Inr (r, length a', buf')"
      "iter_list (collect L) s a = Inr (r', a')" "(r \<noteq> 0) = (r' \<noteq> 0)"
      "take (length a') buf' = map Some a'" "length buf' = length (fd_buf d)" "length a' \<le> length (fd_buf d)"
      "r = 0 \<Longrightarrow> length a' < L"
      by (rule batched_fill_loop_ok [OF d \<open>nul_free s\<close>]) blast
    with \<open>fill_rel L B False d a\<close> show ?thesis
      by (auto simp: CORD_batched_fill_proc_def sim_iter_def fill_rel_def)
  qed
  then show ?thesis by (simp add: sim_batched_def)
qed

lemma CORD_fill_buf_ok:
  assumes "wf_cord x" "i + len \<le> CORD_len x" "0 < len" "len \<le> length buf"
  shows "\<exists>buf'. CORD_fill_buf x i len buf = Inr buf' \<and> length buf' = length buf \<and>
    take len buf' = map Some (take len (drop i (cord_chars x)))"
proof -
  let ?d = "\<lparr>fd_len = len, fd_count = 0, fd_buf = buf\<rparr>"
  have i: "i < CORD_len x" using assms(2,3) by simp
  have "fill_rel len (length buf) False ?d []" using assms(3) by (simp add: fill_rel_def)
  from CORD_iter5_spec [OF assms(1) i fill_sim [OF assms(4)] fill_batched_sim [OF assms(4)] this]
  have sim: "sim_iter (fill_rel len (length buf)) (CORD_iter5 x i CORD_fill_proc (Some CORD_batched_fill_proc) ?d)
      (Inr (1, take len (drop i (cord_chars x))))"
    using assms by (simp add: iter_collect length_cord_chars le_diff_conv2)
  have "length (take len (drop i (cord_chars x))) = len"
    using assms by (simp add: length_cord_chars)
  with sim show ?thesis
    by (auto simp: sim_iter_def rel_sum.simps fill_rel_def CORD_fill_buf_def)
qed

lemma block_string_ok:
  assumes "take n buf = map Some s" "length buf = Suc n"
  shows "block_string (buf[n := Some NUL]) = Inr s"
proof -
  have "buf[n := Some NUL] = map Some (s @ [NUL])"
    using assms by (simp add: upd_conv_take_nth_drop)
  then have "read_buf (buf[n := Some NUL]) (length (buf[n := Some NUL])) = Inr (s @ [NUL])"
    by (intro cords.read_buf_ok) simp_all
  then show ?thesis by (simp add: block_string_def)
qed

lemma CORD_to_char_star_ok:
  assumes "wf_cord x"
  shows "CORD_to_char_star x = Inr (cord_chars x)"
proof -
  let ?n = "CORD_len x"
  obtain buf where "CORD_fill_buf x 0 ?n (replicate (?n + 1) None) = Inr buf" "length buf = Suc ?n"
    "take ?n buf = map Some (cord_chars x)"
  proof (cases "?n = 0")
    case True
    then have x: "x = None" using assms LEN_pos [of "the x"] by (cases x) auto
    show ?thesis by (rule that [of "[None]"]) (simp_all add: x CORD_fill_buf_def CORD_iter5_def)
  next
    case False
    then obtain buf where "CORD_fill_buf x 0 ?n (replicate (?n + 1) None) = Inr buf" "length buf = Suc ?n"
      "take ?n buf = map Some (cord_chars x)"
      using CORD_fill_buf_ok [OF assms, of 0 ?n "replicate (?n + 1) None"] assms by (auto simp: length_cord_chars)
    then show ?thesis by (rule that)
  qed
  then show ?thesis using block_string_ok [of ?n buf "cord_chars x"] by (simp add: CORD_to_char_star_def Let_def)
qed

lemma CORD_from_char_star_ok:
  assumes "nul_free s"
  obtains z where "CORD_from_char_star s = Inr z" "cord_ok z" "cord_chars z = s"
  using assms that [of None] that [of "Some (Str s)"]
  by (cases "s = []") (simp_all add: CORD_from_char_star_def)

lemma CORD_to_const_char_star_ok:
  "wf_cord x \<Longrightarrow> CORD_to_const_char_star x = Inr (cord_chars x)"
  using CORD_to_char_star_ok [of x]
  by (auto simp: CORD_to_const_char_star_def split: option.splits node.splits)

lemma CORD_fetch_ok:
  assumes "cord_ok x" "CORD_len x < 2 ^ 63"
  shows "CORD_fetch x i =
    (if i < CORD_len x then Inr (cord_chars x ! i) else Inl (Abort ''bad index?''))"
proof (cases x)
  case None
  then show ?thesis by (simp add: CORD_fetch_def CORD_set_pos_def CORD_pos_valid_def)
next
  case (Some y)
  have y: "cord_ok (Some y)" "LEN y < 2 ^ 64" using assms Some by auto
  obtain p where "CORD_set_pos fresh_pos (Some y) i = Inr p"
    "if i < LEN y then pos_at y p \<and> pos_fwd p \<and> cur_pos p = i else \<not> CORD_pos_valid p"
    by (rule CORD_set_pos_ok [OF y fresh_pos_sizes])
  with Some show ?thesis
    using CORD_pos_fetch_ok [of y p] pos_at_valid [of y p]
    by (auto simp: CORD_fetch_def split: if_splits)
qed

section \<open>Correctness of the searches\<close>

definition seek :: "char \<Rightarrow> nat iter_fn" where
  "seek t c k = Inr (if c = t then (1, k) else (0, k + 1))"

definition chr_rel :: "char \<Rightarrow> nat \<Rightarrow> bool \<Rightarrow> chr_data \<Rightarrow> nat \<Rightarrow> bool" where
  "chr_rel t i stopped d k \<longleftrightarrow> cd_target d = t \<and> cd_pos d = (i + k) mod size_max"

lemma iter_seek:
  "iter_list (seek t) xs k = Inr (if t \<in> set xs then 1 else 0, k + length (takeWhile (\<lambda>c. c \<noteq> t) xs))"
  by (induction xs arbitrary: k) (auto simp: seek_def)

lemma chr_sim: "sim_fn (chr_rel t i) CORD_chr_proc (seek t)"
  by (auto simp: sim_fn_def sim_iter_def chr_rel_def CORD_chr_proc_def seek_def size_add_def mod_simps)

lemma takeWhile_notin: "t \<notin> set s \<Longrightarrow> takeWhile (\<lambda>c. c \<noteq> t) s = s"
  by (induction s) auto

lemma chr_batched_sim:
  assumes "t \<noteq> NUL"
  shows "sim_batched (chr_rel t i) (Some CORD_batched_chr_proc) (seek t)"
  using assms
  by (auto simp: sim_batched_def sim_iter_def chr_rel_def CORD_batched_chr_proc_def c_strchr_def
      iter_seek size_add_def mod_simps takeWhile_notin algebra_simps)

lemma CORD_chr_ok:
  assumes "cord_ok x" "i < CORD_len x" "CORD_len x < 2 ^ 64" "char_of_int c = t" "t \<noteq> NUL"
  shows "CORD_chr x i c = Inr (if t \<in> set (drop i (cord_chars x))
    then i + length (takeWhile (\<lambda>d. d \<noteq> t) (drop i (cord_chars x))) else CORD_NOT_FOUND)"
proof -
  let ?ys = "drop i (cord_chars x)"
  have "chr_rel t i False \<lparr>cd_pos = i, cd_target = t\<rparr> 0"
    using assms(2,3) by (simp add: chr_rel_def size_max_def)
  from CORD_iter5_spec [OF cord_ok_wf [OF assms(1)] assms(2) chr_sim chr_batched_sim [OF assms(5)] this]
  have sim: "sim_iter (chr_rel t i) (CORD_iter5 x i CORD_chr_proc (Some CORD_batched_chr_proc) \<lparr>cd_pos = i, cd_target = t\<rparr>)
     (Inr (if t \<in> set ?ys then 1 else 0, length (takeWhile (\<lambda>c. c \<noteq> t) ?ys)))"
    by (simp add: iter_seek)
  have "length (takeWhile (\<lambda>c. c \<noteq> t) ?ys) \<le> length ?ys" by (rule length_takeWhile_le)
  then have "i + length (takeWhile (\<lambda>c. c \<noteq> t) ?ys) < size_max"
    using assms(2,3) length_cord_chars [OF cord_ok_wf [OF assms(1)]] by (simp add: size_max_def)
  with sim show ?thesis
    by (auto simp: CORD_chr_def assms(4) sim_iter_def rel_sum.simps chr_rel_def split: if_splits)
qed

lemma iter_rchr:
  "length ys \<le> Suc p \<Longrightarrow> p < size_max \<Longrightarrow>
    \<exists>d. iter_list CORD_rchr_proc ys \<lparr>cd_pos = p, cd_target = t\<rparr> = Inr (if t \<in> set ys then 1 else 0, d) \<and>
      (t \<in> set ys \<longrightarrow> cd_pos d = p - length (takeWhile (\<lambda>c. c \<noteq> t) ys))"
proof (induction ys arbitrary: p)
  case (Cons c ys)
  show ?case
  proof (cases "c = t")
    case True
    then show ?thesis by (simp add: CORD_rchr_proc_def)
  next
    case False
    show ?thesis
    proof (cases p)
      case 0
      with Cons.prems False show ?thesis by (auto simp: CORD_rchr_proc_def)
    next
      case (Suc q)
      then have "size_add p (size_max - 1) = q"
        using Cons.prems(2) by (simp add: size_add_def mod_if)
      with Cons.IH [of q] Cons.prems Suc False show ?thesis
        by (auto simp: CORD_rchr_proc_def)
    qed
  qed
qed simp

lemma CORD_rchr_ok:
  assumes "cord_ok x" "i < CORD_len x" "CORD_len x < 2 ^ 64" "char_of_int c = t"
  shows "CORD_rchr x i c = Inr (let ys = rev (take (Suc i) (cord_chars x)) in
    if t \<in> set ys then i - length (takeWhile (\<lambda>d. d \<noteq> t) ys) else CORD_NOT_FOUND)"
proof -
  let ?ys = "rev (take (Suc i) (cord_chars x))"
  have "length ?ys \<le> Suc i" by simp
  moreover have "i < size_max" using assms(2,3) by (simp add: size_max_def)
  ultimately obtain d where
    "iter_list CORD_rchr_proc ?ys \<lparr>cd_pos = i, cd_target = t\<rparr> = Inr (if t \<in> set ?ys then 1 else 0, d)"
    "t \<in> set ?ys \<Longrightarrow> cd_pos d = i - length (takeWhile (\<lambda>c. c \<noteq> t) ?ys)"
    using iter_rchr by blast
  then show ?thesis
    by (auto simp: CORD_rchr_def assms(4) CORD_riter4_spec [OF cord_ok_wf [OF assms(1)] assms(2)] Let_def)
qed

section \<open>Correctness of the comparisons\<close>

lemma c_strcmp_agrees: "nul_free s \<Longrightarrow> nul_free t \<Longrightarrow> agrees (c_strcmp s t) s t"
proof (induction s t rule: c_strcmp.induct)
  case (2 d t)
  with uchar_bounds [of d] show ?case using uchar_eq [of d NUL] by (simp add: uchar_def)
next
  case (3 c s)
  with uchar_bounds [of c] show ?case using uchar_eq [of c NUL] by (simp add: uchar_def)
qed auto

lemma CORD_set_pos_start:
  assumes "cord_ok x" "CORD_len x < 2 ^ 63"
  obtains p where "CORD_set_pos fresh_pos x i = Inr p"
    "pos.here (\<lambda>y. x = Some y) p (cord_chars x) (if i < CORD_len x then i else CORD_len x)"
proof (cases x)
  case None
  with that [of "fresh_pos\<lparr>path_len := CORD_POS_INVALID\<rparr>"] show thesis
    by (simp add: CORD_set_pos_def pos.here_def CORD_pos_valid_def)
next
  case (Some y)
  have y: "cord_ok (Some y)" "LEN y < 2 ^ 64" "length (chars y) = LEN y" "LEN y < 2 ^ 63"
    using assms Some by (auto simp: cord_ok_def length_chars)
  obtain p where "CORD_set_pos fresh_pos (Some y) i = Inr p"
    "if i < LEN y then pos_at y p \<and> pos_fwd p \<and> cur_pos p = i else \<not> CORD_pos_valid p"
    by (rule CORD_set_pos_ok [OF y(1,2) fresh_pos_sizes])
  with that [of p] y Some show thesis
    by (auto simp: pos.here_def at_pos_def split: if_splits)
qed

lemma here_weaken:
  "pos.here P p xs i \<Longrightarrow> (\<And>x. P x \<Longrightarrow> Q x) \<Longrightarrow> pos.here Q p xs i"
  by (auto simp: pos.here_def at_pos_def split: if_splits)

lemma CORD_ncmp_ok:
  assumes "cord_ok x" "CORD_len x < 2 ^ 63" "nul_free (cord_chars x)"
    and "cord_ok y" "CORD_len y < 2 ^ 63" "nul_free (cord_chars y)"
  shows "\<exists>r. CORD_ncmp x i y j n = Inr r \<and>
    agrees r (take n (drop i (cord_chars x))) (take n (drop j (cord_chars y)))"
proof -
  let ?i = "if i < CORD_len x then i else CORD_len x" and ?j = "if j < CORD_len y then j else CORD_len y"
  obtain p where p: "CORD_set_pos fresh_pos x i = Inr p" "pos.here (\<lambda>_. True) p (cord_chars x) ?i"
    using CORD_set_pos_start [OF assms(1,2), of i] here_weaken by metis
  obtain q where q: "CORD_set_pos fresh_pos y j = Inr q" "pos.here (\<lambda>_. True) q (cord_chars y) ?j"
    using CORD_set_pos_start [OF assms(4,5), of j] here_weaken by metis
  have d: "drop ?i (cord_chars x) = drop i (cord_chars x)" "drop ?j (cord_chars y) = drop j (cord_chars y)"
    using assms(1,4) by (simp_all add: length_cord_chars cord_ok_wf)
  have "n - 0 < Suc n" by simp
  from pos.ncmp_loop_ok [OF assms(3,6) p(2) q(2) this] d p(1) q(1) show ?thesis
    by (simp add: CORD_ncmp_def del: ncmp_loop.simps)
qed

lemma CORD_cmp_strings:
  assumes "cord_ok (Some x)" "LEN x < 2 ^ 63" "all_strings x"
    and "cord_ok (Some y)" "LEN y < 2 ^ 63" "all_strings y"
  shows "\<exists>r. CORD_cmp (Some x) (Some y) = Inr r \<and> agrees r (chars x) (chars y)"
proof -
  have nf: "wf_node z \<Longrightarrow> all_strings z \<Longrightarrow> nul_free (chars z)" for z
    by (induction z rule: all_strings.induct) auto
  have w: "wf_node x" "wf_node y" using assms(1,4) by (simp_all add: cord_ok_def)
  obtain p where p: "CORD_set_pos fresh_pos (Some x) 0 = Inr p" "pos.here all_strings p (chars x) 0"
    using CORD_set_pos_here [OF assms(1,2) fresh_pos_sizes, of all_strings 0] assms(3) by auto
  obtain q where q: "CORD_set_pos fresh_pos (Some y) 0 = Inr q" "pos.here all_strings q (chars y) 0"
    using CORD_set_pos_here [OF assms(4,5) fresh_pos_sizes, of all_strings 0] assms(6) by auto
  have "length (chars x) - 0 < Suc (LEN x)" using w(1) by (simp add: length_chars)
  from spos.cmp_loop_ok [OF nf [OF w(1) assms(3)] nf [OF w(2) assms(6)] p(2) q(2) this]
  have loop: "\<exists>r. cmp_loop CORD_pos_valid CORD_pos_fetch CORD_next left_size pos_char CORD_pos_advance
        (Suc (LEN x)) p q = Inr r \<and> agrees r (chars x) (chars y)" by simp
  show ?thesis
  proof (cases "\<exists>s t. x = Str s \<and> y = Str t")
    case True
    with w c_strcmp_agrees show ?thesis by (auto simp: CORD_cmp_def cmp_nodes_def)
  next
    case False
    then have "cmp_nodes x y = cmp_loop CORD_pos_valid CORD_pos_fetch CORD_next left_size pos_char
        CORD_pos_advance (Suc (LEN x)) p q"
      using p(1) q(1) by (auto simp: cmp_nodes_def split: node.splits simp del: cmp_loop.simps)
    with loop show ?thesis by (simp add: CORD_cmp_def)
  qed
qed

end
