(* ===== verification/Cord_Print.thy ===== *)
theory Cord_Print
  imports Cord_Client
begin

text \<open>
  Formatted output to cords, \<open>CORD_vsprintf\<close> of \<^verbatim>\<open>libs/gc/cord/cordprnt.c\<close>. The variable
  arguments are a list; the C library's \<open>vsprintf\<close> is a parameter \<open>vs\<close> from a conversion
  specification and the arguments to the text (\<open>None\<close> for an error). A result \<open>Inr None\<close> is
  the return value -1.
\<close>

section \<open>Arguments and specifications\<close>

datatype va =
    VaInt int
  | VaLong int
  | VaDouble nat
  | VaPtr "char list"
  | VaCord CORD
  | VaIntPtr
  | VaLongPtr
  | VaShortPtr

definition CONV_SPEC_LEN :: nat where "CONV_SPEC_LEN = 50"
definition CONV_RESULT_LEN :: int where "CONV_RESULT_LEN = 50"
definition NONE :: int where "NONE = -1"
definition VARIABLE :: int where "VARIABLE = -2"

definition ec_len :: "CORD ec \<Rightarrow> int" where
  "ec_len x = int_of_size (size_add (CORD_len (ec_cord x)) (ec_bufptr x))"

record conv =
  cv_width :: int
  cv_prec :: int
  cv_left :: bool
  cv_long :: int
  cv_number :: int
  cv_saw_period :: bool
  cv_saw_number :: bool

definition conv_init :: conv where
  "conv_init = \<lparr>cv_width = NONE, cv_prec = NONE, cv_left = False, cv_long = 0,
     cv_number = 0, cv_saw_period = False, cv_saw_number = False\<rparr>"

definition add_digit :: "conv \<Rightarrow> char \<Rightarrow> conv res" where
  "add_digit cv c =
     (let k = cv_number cv * 10 + (uchar c - 48)
      in if - (2 ^ 31) \<le> k \<and> k < 2 ^ 31 then Inr (cv\<lparr>cv_number := k, cv_saw_number := True\<rparr>)
         else Inl Overflow)"

text \<open>One pass of the \<open>switch\<close>: go on with new values, finish, or fail.\<close>

datatype spec_step = Continue conv | Finish | Fail

definition conv_char :: "conv \<Rightarrow> char \<Rightarrow> spec_step res" where
  "conv_char cv c =
     (if c = CHR ''*'' then Inr (Continue (cv\<lparr>cv_saw_number := True, cv_number := VARIABLE\<rparr>))
      else if c = CHR ''0'' \<and> \<not> cv_saw_number cv then Inr (Continue cv)
      else if c \<in> set ''0123456789'' then rbind (add_digit cv c) (\<lambda>cv. Inr (Continue cv))
      else if c = CHR ''.'' then
        (let cv = cv\<lparr>cv_saw_period := True\<rparr>;
             cv = (if cv_saw_number cv then cv\<lparr>cv_width := cv_number cv, cv_saw_number := False\<rparr> else cv)
         in Inr (Continue (cv\<lparr>cv_number := 0\<rparr>)))
      else if c \<in> set ''lL'' then Inr (Continue (cv\<lparr>cv_long := 1, cv_number := 0\<rparr>))
      else if c = CHR ''h'' then Inr (Continue (cv\<lparr>cv_long := -1, cv_number := 0\<rparr>))
      else if c \<in> set '' +#'' then Inr (Continue (cv\<lparr>cv_number := 0\<rparr>))
      else if c = CHR ''-'' then Inr (Continue (cv\<lparr>cv_left := True, cv_number := 0\<rparr>))
      else if c \<in> set ''diouxXfeEgGcCsSpnr'' then Inr Finish
      else Inr Fail)"

definition conv_done :: "conv \<Rightarrow> conv" where
  "conv_done cv =
     (if cv_saw_number cv then
        if cv_saw_period cv then cv\<lparr>cv_prec := cv_number cv\<rparr>
        else cv\<lparr>cv_prec := NONE, cv_width := cv_number cv\<rparr>
      else cv\<lparr>cv_prec := NONE\<rparr>)"

text \<open>\<open>buf\<close> holds the characters stored so far; its NUL is implicit.\<close>

function extract_loop :: "cord_pos \<Rightarrow> char list \<Rightarrow> conv \<Rightarrow> (cord_pos \<times> (char list \<times> conv) option) res" where
  "extract_loop source buf cv =
     (if \<not> CORD_pos_valid source then Inr (source, None)
      else if length buf \<ge> CONV_SPEC_LEN then Inr (source, None)
      else
        rbind (CORD_pos_fetch source) (\<lambda>current.
        let buf' = buf @ [current]
        in rbind (conv_char cv current) (\<lambda>s.
          case s of
            Fail \<Rightarrow> Inr (source, None)
          | Finish \<Rightarrow> Inr (source, Some (buf', conv_done cv))
          | Continue cv \<Rightarrow> rbind (CORD_next source) (\<lambda>source. extract_loop source buf' cv))))"
  by pat_completeness auto
termination
  by (relation "measure (\<lambda>(_, buf, _). CONV_SPEC_LEN - length buf)") auto

definition extract_conv_spec :: "cord_pos \<Rightarrow> (cord_pos \<times> (char list \<times> conv) option) res" where
  "extract_conv_spec source = extract_loop source ''%'' conv_init"

section \<open>The conversions\<close>

record pr =
  pr_result :: "CORD ec"
  pr_args :: "va list"
  pr_stores :: "int list"

text \<open>\<open>va_arg\<close>, at the three types the code fetches by itself.\<close>

fun arg_int :: "va list \<Rightarrow> (int \<times> va list) res" where
  "arg_int (VaInt i # a) = Inr (i, a)"
| "arg_int _ = Inl BadArg"

fun arg_cord :: "va list \<Rightarrow> (CORD \<times> va list) res" where
  "arg_cord (VaCord x # a) = Inr (x, a)"
| "arg_cord _ = Inl BadArg"

fun arg_ptr :: "va list \<Rightarrow> (char list \<times> va list) res" where
  "arg_ptr (VaPtr s # a) = Inr (s, a)"
| "arg_ptr _ = Inl BadArg"

text \<open>A width or precision given as \<open>*\<close> is fetched.\<close>

definition resolve :: "int \<Rightarrow> va list \<Rightarrow> (int \<times> va list) res" where
  "resolve k a = (if k = VARIABLE then arg_int a else Inr (k, a))"

fun append_chars :: "CORD ec \<Rightarrow> char list \<Rightarrow> CORD ec res" where
  "append_chars x [] = Inr x"
| "append_chars x (c # s) = rbind (CORD_ec_append x c) (\<lambda>x. append_chars x s)"

text \<open>\<open>%n\<close>: the stores through the pointer arguments are collected in \<open>pr_stores\<close>.\<close>

definition conv_n :: "conv \<Rightarrow> pr \<Rightarrow> pr res" where
  "conv_n cv st =
     (case pr_args st of
        [] \<Rightarrow> Inl BadArg
      | v # a \<Rightarrow>
          if v = (if cv_long cv = 0 then VaIntPtr else if cv_long cv > 0 then VaLongPtr else VaShortPtr) then
            let n = ec_len (pr_result st);
                n = (if v = VaShortPtr then (n + 2 ^ 15) mod 2 ^ 16 - 2 ^ 15 else n)
            in Inr (st\<lparr>pr_args := a, pr_stores := pr_stores st @ [n]\<rparr>)
          else Inl BadArg)"

text \<open>
  \<open>%r\<close>. \<open>len > prec\<close> and \<open>len < width\<close> compare a \<open>size_t\<close> with an \<open>int\<close>, which is converted
  to \<open>size_t\<close>; an allocation of \<open>2 ^ 63\<close> bytes or more returns a null pointer.
\<close>

definition blanks :: "nat \<Rightarrow> char list res" where
  "blanks n = (if n + 1 < 2 ^ 63 then Inr (replicate n CHR '' '') else Inl NullDeref)"

definition conv_r :: "conv \<Rightarrow> pr \<Rightarrow> pr option res" where
  "conv_r cv st =
     rbind (resolve (cv_width cv) (pr_args st)) (\<lambda>(width, a).
     rbind (resolve (cv_prec cv) a) (\<lambda>(prec, a).
     rbind (arg_cord a) (\<lambda>(arg, a).
       let len = CORD_len arg
       in if prec \<noteq> NONE \<and> len > size_of_int prec \<and> prec < 0 then Inr None
          else
            rbind (if prec \<noteq> NONE \<and> len > size_of_int prec then
                     rbind (CORD_substr arg 0 (size_of_int prec)) (\<lambda>arg. Inr (arg, size_of_int prec))
                   else Inr (arg, len)) (\<lambda>(arg, len).
            rbind (if width \<noteq> NONE \<and> len < size_of_int width then
                     rbind (blanks (size_of_int width - len)) (\<lambda>b.
                       if cv_left cv then CORD_cat arg (Some (Str b)) else CORD_cat (Some (Str b)) arg)
                   else Inr arg) (\<lambda>arg.
            rbind (CORD_ec_append_cord (pr_result st) arg) (\<lambda>x.
              Inr (Some (st\<lparr>pr_result := x, pr_args := a\<rparr>))))))))"

text \<open>The argument the standard conversions consume; \<open>None\<close> is the default case.\<close>

definition arg_std :: "char \<Rightarrow> int \<Rightarrow> va list \<Rightarrow> va list option res" where
  "arg_std current long_arg a =
     (if current \<in> set ''diouxXc'' then
        (case a of
           VaInt _ # a \<Rightarrow> (if long_arg \<le> 0 then Inr (Some a) else Inl BadArg)
         | VaLong _ # a \<Rightarrow> (if long_arg > 0 then Inr (Some a) else Inl BadArg)
         | _ \<Rightarrow> Inl BadArg)
      else if current \<in> set ''sp'' then (case a of VaPtr _ # a \<Rightarrow> Inr (Some a) | _ \<Rightarrow> Inl BadArg)
      else if current \<in> set ''feEgG'' then (case a of VaDouble _ # a \<Rightarrow> Inr (Some a) | _ \<Rightarrow> Inl BadArg)
      else Inr None)"

text \<open>\<open>vsprintf(buf, ...)\<close> writes a text and its terminator at index \<open>k\<close> of a buffer.\<close>

definition store_text :: "char option list \<Rightarrow> nat \<Rightarrow> char list \<Rightarrow> char option list res" where
  "store_text buf k s =
     (if k + length s + 1 \<le> length buf
      then Inr (take k buf @ map Some (s @ [NUL]) @ drop (k + length s + 1) buf)
      else Inl OutOfBounds)"

definition conv_std :: "(char list \<Rightarrow> va list \<Rightarrow> char list option) \<Rightarrow> char \<Rightarrow> char list \<Rightarrow> conv \<Rightarrow> pr \<Rightarrow> pr option res" where
  "conv_std vs current conv_spec cv st =
     rbind (resolve (cv_width cv) (pr_args st)) (\<lambda>(width, a).
     rbind (resolve (cv_prec cv) a) (\<lambda>(prec, a).
       let size = (if width \<noteq> NONE then width else 0);
           size = (if prec \<noteq> NONE \<and> prec > size then prec else size);
           max_size = size + CONV_RESULT_LEN;
           heap = (max_size \<ge> int CORD_BUFSZ)
       in if max_size \<ge> 2 ^ 31 then Inl Overflow else
          rbind (if \<not> heap \<and> int CORD_BUFSZ - int (ec_bufptr (pr_result st)) < max_size
                 then CORD_ec_flush_buf (pr_result st) else Inr (pr_result st)) (\<lambda>x.
          rbind (arg_std current (cv_long cv) a) (\<lambda>a.
            case a of
              None \<Rightarrow> Inr None
            | Some a \<Rightarrow>
                (case vs conv_spec (pr_args st) of
                   None \<Rightarrow> Inr None
                 | Some text \<Rightarrow>
                     rbind (if heap then
                              rbind (store_text (replicate (nat (max_size + 1)) None) 0 text) (\<lambda>_.
                                append_chars x (takeWhile (\<lambda>c. c \<noteq> NUL) text))
                            else
                              rbind (store_text (ec_buf x) (ec_bufptr x) text) (\<lambda>buf.
                                Inr (x\<lparr>ec_buf := buf, ec_bufptr := ec_bufptr x + length text\<rparr>))) (\<lambda>x.
                       Inr (Some (st\<lparr>pr_result := x, pr_args := a\<rparr>))))))))"

definition conv_one :: "(char list \<Rightarrow> va list \<Rightarrow> char list option) \<Rightarrow> char \<Rightarrow> char list \<Rightarrow> conv \<Rightarrow> pr \<Rightarrow> pr option res" where
  "conv_one vs current conv_spec cv st =
     (if current = CHR ''n'' then rbind (conv_n cv st) (\<lambda>st. Inr (Some st))
      else if current = CHR ''r'' then conv_r cv st
      else if current = CHR ''c'' \<and> cv_width cv = NONE \<and> cv_prec cv = NONE then
        rbind (arg_int (pr_args st)) (\<lambda>(i, a).
        rbind (CORD_ec_append (pr_result st) (char_of_int i)) (\<lambda>x.
          Inr (Some (st\<lparr>pr_result := x, pr_args := a\<rparr>))))
      else if current = CHR ''s'' \<and> cv_width cv = NONE \<and> cv_prec cv = NONE then
        rbind (arg_ptr (pr_args st)) (\<lambda>(s, a).
        rbind (append_chars (pr_result st) (takeWhile (\<lambda>c. c \<noteq> NUL) s)) (\<lambda>x.
          Inr (Some (st\<lparr>pr_result := x, pr_args := a\<rparr>))))
      else conv_std vs current conv_spec cv st)"

section \<open>The loop over the format\<close>

fun vsprintf_loop :: "(char list \<Rightarrow> va list \<Rightarrow> char list option) \<Rightarrow> nat \<Rightarrow> cord_pos \<Rightarrow> pr \<Rightarrow> pr option res" where
  "vsprintf_loop vs 0 pos st = Inl OutOfFuel"
| "vsprintf_loop vs (Suc k) pos st =
     (if \<not> CORD_pos_valid pos then Inr (Some st)
      else
        rbind (CORD_pos_fetch pos) (\<lambda>current.
          if current = CHR ''%'' then
            rbind (CORD_next pos) (\<lambda>pos.
              if \<not> CORD_pos_valid pos then Inr None
              else
                rbind (CORD_pos_fetch pos) (\<lambda>current.
                  if current = CHR ''%'' then
                    rbind (CORD_ec_append (pr_result st) current) (\<lambda>x.
                    rbind (CORD_next pos) (\<lambda>pos. vsprintf_loop vs k pos (st\<lparr>pr_result := x\<rparr>)))
                  else
                    rbind (extract_conv_spec pos) (\<lambda>(pos, spec).
                      case spec of
                        None \<Rightarrow> Inr None
                      | Some (conv_spec, cv) \<Rightarrow>
                          rbind (CORD_pos_fetch pos) (\<lambda>current.
                          rbind (conv_one vs current conv_spec cv st) (\<lambda>r.
                            case r of
                              None \<Rightarrow> Inr None
                            | Some st \<Rightarrow> rbind (CORD_next pos) (\<lambda>pos. vsprintf_loop vs k pos st))))))
          else
            rbind (CORD_ec_append (pr_result st) current) (\<lambda>x.
            rbind (CORD_next pos) (\<lambda>pos. vsprintf_loop vs k pos (st\<lparr>pr_result := x\<rparr>)))))"

text \<open>The result: the cord, the count returned, and the values stored by \<open>%n\<close>.\<close>

definition CORD_vsprintf :: "(char list \<Rightarrow> va list \<Rightarrow> char list option) \<Rightarrow> CORD \<Rightarrow> va list \<Rightarrow> (CORD \<times> int \<times> int list) option res" where
  "CORD_vsprintf vs format args =
     rbind (CORD_set_pos fresh_pos format 0) (\<lambda>pos.
     rbind (vsprintf_loop vs (Suc (CORD_len format)) pos
              \<lparr>pr_result = CORD_ec_init, pr_args = args, pr_stores = []\<rparr>) (\<lambda>r.
       case r of
         None \<Rightarrow> Inr None
       | Some st \<Rightarrow>
           let count = ec_len (pr_result st)
           in rbind (CORD_ec_to_cord (pr_result st)) (\<lambda>c.
              rbind (CORD_balance c) (\<lambda>out. Inr (Some (out, count, pr_stores st))))))"

declare extract_loop.simps [simp del]

section \<open>The specification buffer\<close>

lemma extract_loop_bound:
  "length buf \<le> CONV_SPEC_LEN \<Longrightarrow> extract_loop source buf cv = Inr (source', Some (spec, cv')) \<Longrightarrow>
    length buf \<le> length spec \<and> length spec \<le> CONV_SPEC_LEN"
proof (induction source buf cv rule: extract_loop.induct)
  case (1 source buf cv)
  have v: "CORD_pos_valid source" "length buf < CONV_SPEC_LEN"
    using "1.prems"(2) by (auto simp: extract_loop.simps [of source] split: if_splits)
  then obtain c where c: "CORD_pos_fetch source = Inr c"
    using "1.prems"(2) by (cases "CORD_pos_fetch source") (auto simp: extract_loop.simps [of source])
  then obtain s where s: "conv_char cv c = Inr s"
    using "1.prems"(2) v by (cases "conv_char cv c") (auto simp: extract_loop.simps [of source])
  show ?case
  proof (cases s)
    case (Continue cv2)
    with "1.prems"(2) v c s obtain source2 where n: "CORD_next source = Inr source2"
      "extract_loop source2 (buf @ [c]) cv2 = Inr (source', Some (spec, cv'))"
      by (auto simp: extract_loop.simps [of source] elim!: rbind_InrE)
    have "length (buf @ [c]) \<le> length spec \<and> length spec \<le> CONV_SPEC_LEN"
      using v c s Continue n by (intro "1.IH" [of c "buf @ [c]" s cv2 source2]) auto
    then show ?thesis by simp
  qed (use "1.prems"(2) v c s in \<open>auto simp: extract_loop.simps [of source]\<close>)
qed

lemma extract_conv_spec_bound:
  "extract_conv_spec source = Inr (source', Some (spec, cv)) \<Longrightarrow> length spec \<le> CONV_SPEC_LEN"
  using extract_loop_bound [of "''%''" source conv_init source' spec cv]
  by (simp add: extract_conv_spec_def CONV_SPEC_LEN_def)

section \<open>Plain conversions\<close>

text \<open>
  What a format of literal characters, \<open>%%\<close>, \<open>%c\<close>, \<open>%s\<close> and \<open>%r\<close> stands for; \<open>None\<close> for any
  other format or for arguments that do not fit.
\<close>

fun fmt :: "char list \<Rightarrow> va list \<Rightarrow> char list option" where
  "fmt [] args = Some []"
| "fmt (c # f) args =
     (if c \<noteq> CHR ''%'' then map_option ((#) c) (fmt f args)
      else case f of
        [] \<Rightarrow> None
      | d # f' \<Rightarrow>
          if d = CHR ''%'' then map_option ((#) d) (fmt f' args)
          else case args of
            VaInt i # a \<Rightarrow>
              if d = CHR ''c'' \<and> char_of_int i \<noteq> NUL then map_option ((#) (char_of_int i)) (fmt f' a) else None
          | VaPtr s # a \<Rightarrow>
              if d = CHR ''s'' then map_option ((@) (takeWhile (\<lambda>c. c \<noteq> NUL) s)) (fmt f' a) else None
          | VaCord x # a \<Rightarrow>
              if d = CHR ''r'' \<and> cord_ok x then map_option ((@) (cord_chars x)) (fmt f' a) else None
          | _ \<Rightarrow> None)"

lemma append_chars_holds:
  "cords.holds x t \<Longrightarrow> length t + length s < CORD_LIMIT \<Longrightarrow> nul_free s \<Longrightarrow>
    \<exists>x'. append_chars x s = Inr x' \<and> cords.holds x' (t @ s)"
proof (induction s arbitrary: x t)
  case (Cons c s)
  have "length t < CORD_LIMIT" "c \<noteq> NUL" using Cons.prems by simp_all
  then obtain y where "ec_append CORD_cat_char_star x c = Inr y" "cords.holds y (t @ [c])"
    by (rule cords.append_holds [OF Cons.prems(1)])
  with Cons.IH [of y "t @ [c]"] Cons.prems(2,3) show ?case by (simp add: CORD_ec_append_def)
qed simp

text \<open>An extensible cord after one conversion has produced \<open>u\<close>.\<close>

definition prints :: "pr \<Rightarrow> char list \<Rightarrow> pr \<Rightarrow> va list \<Rightarrow> bool" where
  "prints st t st' a \<longleftrightarrow> cords.holds (pr_result st') t \<and> pr_args st' = a \<and> pr_stores st' = pr_stores st"

definition plain_conv :: conv where
  "plain_conv = conv_done conv_init"

lemma plain_conv_simps [simp]: "cv_width plain_conv = NONE" "cv_prec plain_conv = NONE" "cv_long plain_conv = 0"
  by (simp_all add: plain_conv_def conv_done_def conv_init_def)

lemma extract_plain:
  assumes "at_pos P pos xs i" "xs ! i \<in> set ''csr''"
  shows "extract_conv_spec pos = Inr (pos, Some (''%'' @ [xs ! i], plain_conv))"
proof -
  have "conv_char conv_init (xs ! i) = Inr Finish" using assms(2) by (auto simp: conv_char_def)
  with pos.at_valid [OF assms(1)] pos.fetch_at [OF assms(1)] show ?thesis
    by (simp add: extract_conv_spec_def extract_loop.simps [of pos] CONV_SPEC_LEN_def plain_conv_def)
qed

lemma resolve_NONE [simp]: "resolve NONE a = Inr (NONE, a)"
  by (simp add: resolve_def NONE_def VARIABLE_def)

lemma conv_c_ok:
  assumes "cords.holds (pr_result st) t" "length t < CORD_LIMIT" "pr_args st = VaInt i # a" "char_of_int i \<noteq> NUL"
  obtains st' where "conv_one vs CHR ''c'' spec plain_conv st = Inr (Some st')" "prints st (t @ [char_of_int i]) st' a"
proof -
  obtain x where "ec_append CORD_cat_char_star (pr_result st) (char_of_int i) = Inr x"
    "cords.holds x (t @ [char_of_int i])" by (rule cords.append_holds [OF assms(1,2,4)])
  with assms(3) that [of "st\<lparr>pr_result := x, pr_args := a\<rparr>"] show thesis
    by (simp add: conv_one_def prints_def CORD_ec_append_def)
qed

lemma conv_s_ok:
  assumes "cords.holds (pr_result st) t" "pr_args st = VaPtr s # a" "u = takeWhile (\<lambda>c. c \<noteq> NUL) s"
    "length t + length u < CORD_LIMIT"
  obtains st' where "conv_one vs CHR ''s'' spec plain_conv st = Inr (Some st')" "prints st (t @ u) st' a"
proof -
  have "nul_free u" using assms(3) by (auto simp: nul_free_def dest: set_takeWhileD)
  with append_chars_holds [OF assms(1,4)] obtain x where "append_chars (pr_result st) u = Inr x" "cords.holds x (t @ u)"
    by blast
  with assms(2,3) that [of "st\<lparr>pr_result := x, pr_args := a\<rparr>"] show thesis
    by (simp add: conv_one_def prints_def)
qed

lemma conv_r_ok:
  assumes "cords.holds (pr_result st) t" "pr_args st = VaCord x # a" "cord_ok x"
    "length t + length (cord_chars x) < CORD_LIMIT"
  obtains st' where "conv_one vs CHR ''r'' spec plain_conv st = Inr (Some st')" "prints st (t @ cord_chars x) st' a"
proof -
  obtain y where "ec_append_cord CORD_cat_char_star CORD_cat (pr_result st) x = Inr y"
    "cords.holds y (t @ cord_chars x)" by (rule cords.append_cord_holds [OF assms(1,3,4)])
  with assms(2) that [of "st\<lparr>pr_result := y, pr_args := a\<rparr>"] show thesis
    by (simp add: conv_one_def conv_r_def prints_def CORD_ec_append_cord_def)
qed

lemma fmt_conv:
  assumes "fmt (CHR ''%'' # d # f) args = Some u" "d \<noteq> CHR ''%''"
  obtains (c) i a u' where "args = VaInt i # a" "d = CHR ''c''" "char_of_int i \<noteq> NUL" "fmt f a = Some u'"
      "u = char_of_int i # u'"
  | (s) t a u' where "args = VaPtr t # a" "d = CHR ''s''" "fmt f a = Some u'"
      "u = takeWhile (\<lambda>c. c \<noteq> NUL) t @ u'"
  | (r) x a u' where "args = VaCord x # a" "d = CHR ''r''" "cord_ok x" "fmt f a = Some u'" "u = cord_chars x @ u'"
  using assms by (auto split: list.splits va.splits if_splits)

lemma conv_one_ok:
  assumes "cords.holds (pr_result st) t" "fmt (CHR ''%'' # d # f) (pr_args st) = Some u" "d \<noteq> CHR ''%''"
    "length t + length u < CORD_LIMIT"
  obtains st' v u' where "conv_one vs d spec plain_conv st = Inr (Some st')" "prints st (t @ v) st' (pr_args st')"
    "fmt f (pr_args st') = Some u'" "u = v @ u'" "d \<in> set ''csr''"
  using assms(2,3)
proof (cases rule: fmt_conv)
  case (c i a u')
  have "length t < CORD_LIMIT" using assms(4) by simp
  then obtain st' where "conv_one vs CHR ''c'' spec plain_conv st = Inr (Some st')" "prints st (t @ [char_of_int i]) st' a"
    by (rule conv_c_ok [OF assms(1) _ c(1,3)])
  with c that show thesis by (auto simp: prints_def)
next
  case (s w a u')
  have "length t + length (takeWhile (\<lambda>c. c \<noteq> NUL) w) < CORD_LIMIT" using assms(4) s(4) by simp
  then obtain st' where "conv_one vs CHR ''s'' spec plain_conv st = Inr (Some st')"
    "prints st (t @ takeWhile (\<lambda>c. c \<noteq> NUL) w) st' a"
    by (rule conv_s_ok [OF assms(1) s(1) refl])
  with s that show thesis by (auto simp: prints_def)
next
  case (r x a u')
  have "length t + length (cord_chars x) < CORD_LIMIT" using assms(4) r(5) by simp
  then obtain st' where "conv_one vs CHR ''r'' spec plain_conv st = Inr (Some st')" "prints st (t @ cord_chars x) st' a"
    by (rule conv_r_ok [OF assms(1) r(1,3)])
  with r that show thesis by (auto simp: prints_def)
qed

lemma vsprintf_loop_ok:
  assumes "nul_free xs"
  shows "pos.here P p xs i \<Longrightarrow> length xs - i < k \<Longrightarrow> cords.holds (pr_result st) t \<Longrightarrow>
    fmt (drop i xs) (pr_args st) = Some u \<Longrightarrow> length t + length u < CORD_LIMIT \<Longrightarrow>
    \<exists>st'. vsprintf_loop vs k p st = Inr (Some st') \<and> cords.holds (pr_result st') (t @ u) \<and> pr_stores st' = pr_stores st"
proof (induction k arbitrary: p i st t u)
  case (Suc k)
  show ?case
  proof (cases "i < length xs")
    case False
    with Suc.prems pos.here_valid [OF Suc.prems(1)] show ?thesis by auto
  next
    case True
    then have a: "at_pos P p xs i" using Suc.prems(1) by (intro pos.here_at)
    obtain q where q: "CORD_next p = Inr q" "pos.here P q xs (Suc i)" by (rule pos.step_here [OF a])
    have d: "drop i xs = xs ! i # drop (Suc i) xs" using True by (simp add: Cons_nth_drop_Suc)
    note run = pos.at_valid [OF a] pos.fetch_at [OF a] q(1)
    have lt: "length t < CORD_LIMIT" using Suc.prems(5) by simp
    have put: "\<exists>st'. rbind (CORD_ec_append (pr_result st) c) (\<lambda>x. rbind (Inr r) (\<lambda>pos.
          vsprintf_loop vs k pos (st\<lparr>pr_result := x\<rparr>))) = Inr (Some st') \<and>
          cords.holds (pr_result st') (t @ u) \<and> pr_stores st' = pr_stores st"
      if h: "pos.here P r xs j" "c \<noteq> NUL" "fmt (drop j xs) (pr_args st) = Some u'" "u = c # u'" "i < j" for r j c u'
    proof -
      obtain x where x: "ec_append CORD_cat_char_star (pr_result st) c = Inr x" "cords.holds x (t @ [c])"
        by (rule cords.append_holds [OF Suc.prems(3) lt h(2)])
      have "\<exists>st'. vsprintf_loop vs k r (st\<lparr>pr_result := x\<rparr>) = Inr (Some st') \<and>
          cords.holds (pr_result st') ((t @ [c]) @ u') \<and> pr_stores st' = pr_stores (st\<lparr>pr_result := x\<rparr>)"
        by (rule Suc.IH [OF h(1)]) (use x h Suc.prems(2,5) True in auto)
      with x(1) h(4) show ?thesis by (simp add: CORD_ec_append_def)
    qed
    show ?thesis
    proof (cases "xs ! i = CHR ''%''")
      case False
      with Suc.prems(4) d obtain u' where "fmt (drop (Suc i) xs) (pr_args st) = Some u'" "u = xs ! i # u'" by auto
      with put [OF q(2), of "xs ! i" u'] False run nul_free_nth [OF assms True] show ?thesis by simp
    next
      case percent: True
      then have i2: "Suc i < length xs" using Suc.prems(4) d by (cases "Suc i < length xs") auto
      then have a2: "at_pos P q xs (Suc i)" using q(2) by (intro pos.here_at)
      obtain r where r: "CORD_next q = Inr r" "pos.here P r xs (Suc (Suc i))" by (rule pos.step_here [OF a2])
      note run2 = pos.at_valid [OF a2] pos.fetch_at [OF a2] r(1)
      have d2: "drop i xs = CHR ''%'' # xs ! Suc i # drop (Suc (Suc i)) xs"
        using d percent i2 by (simp add: Cons_nth_drop_Suc)
      show ?thesis
      proof (cases "xs ! Suc i = CHR ''%''")
        case True
        with Suc.prems(4) d2 obtain u' where "fmt (drop (Suc (Suc i)) xs) (pr_args st) = Some u'" "u = CHR ''%'' # u'"
          by auto
        with put [OF r(2), of "CHR ''%''" u'] True percent run run2 show ?thesis by simp
      next
        case False
        obtain st' v u' where s: "conv_one vs (xs ! Suc i) (''%'' @ [xs ! Suc i]) plain_conv st = Inr (Some st')"
          "prints st (t @ v) st' (pr_args st')" "fmt (drop (Suc (Suc i)) xs) (pr_args st') = Some u'" "u = v @ u'"
          "xs ! Suc i \<in> set ''csr''"
          using conv_one_ok [OF Suc.prems(3) Suc.prems(4) [unfolded d2] False Suc.prems(5)] by blast
        have "\<exists>st''. vsprintf_loop vs k r st' = Inr (Some st'') \<and>
            cords.holds (pr_result st'') ((t @ v) @ u') \<and> pr_stores st'' = pr_stores st'"
          by (rule Suc.IH [OF r(2)]) (use s Suc.prems(2,5) True in \<open>auto simp: prints_def\<close>)
        then show ?thesis
          using False percent run run2 s(1,2,4) extract_plain [OF a2 s(5)] by (simp add: prints_def)
      qed
    qed
  qed
qed simp

lemma CORD_vsprintf_ok:
  assumes "cord_ok format" "CORD_len format < 2 ^ 63" "nul_free (cord_chars format)"
    "fmt (cord_chars format) args = Some u" "length u < CORD_LIMIT"
  shows "\<exists>out. CORD_vsprintf vs format args = Inr (Some (out, int_of_size (length u), [])) \<and>
    cord_ok out \<and> cord_chars out = u"
proof -
  let ?st = "\<lparr>pr_result = CORD_ec_init, pr_args = args, pr_stores = []\<rparr>"
  obtain p where p1: "CORD_set_pos fresh_pos format 0 = Inr p"
    and p2: "pos.here (\<lambda>y. format = Some y) p (cord_chars format) (if 0 < CORD_len format then 0 else CORD_len format)"
    by (rule CORD_set_pos_start [OF assms(1,2)])
  then have here: "pos.here (\<lambda>y. format = Some y) p (cord_chars format) 0" by (simp split: if_splits)
  have "\<exists>st'. vsprintf_loop vs (Suc (CORD_len format)) p ?st = Inr (Some st') \<and>
      cords.holds (pr_result st') ([] @ u) \<and> pr_stores st' = pr_stores ?st"
    by (rule vsprintf_loop_ok [OF assms(3) here])
      (use assms cords.init_holds in \<open>auto simp: length_cord_chars cord_ok_wf CORD_ec_init_def\<close>)
  then obtain st' where st': "vsprintf_loop vs (Suc (CORD_len format)) p ?st = Inr (Some st')"
    "cords.holds (pr_result st') u" "pr_stores st' = []" by auto
  have len: "ec_len (pr_result st') = int_of_size (length u)"
  proof -
    have "length u = CORD_len (ec_cord (pr_result st')) + ec_bufptr (pr_result st')"
      using st'(2) by (auto simp: cords.holds_def length_cord_chars cord_ok_wf)
    moreover from this have "length u = size_add (CORD_len (ec_cord (pr_result st'))) (ec_bufptr (pr_result st'))"
      using assms(5) by (simp add: CORD_LIMIT_def)
    ultimately show ?thesis by (simp add: ec_len_def)
  qed
  obtain c where c: "CORD_ec_to_cord (pr_result st') = Inr c" "cord_ok c" "cord_chars c = u"
    using cords.to_cord_ok [OF st'(2) assms(5)] by (auto simp: CORD_ec_to_cord_def)
  have "CORD_len c < CORD_LIMIT" using c assms(5) by (simp add: cord_ok_wf flip: length_cord_chars)
  then obtain z where "CORD_balance c = Inr z" "cord_ok z" "cord_chars z = u"
    using CORD_balance_ok [OF cord_ok_wf [OF c(2)], of "Suc 0"] c(3)
    by (auto simp: CORD_balance_def cord_fuel_def numeral_2_eq_2)
  with p1 st' len c show ?thesis
    by (simp add: CORD_vsprintf_def Let_def del: vsprintf_loop.simps)
qed

end
