(* ===== verification/Cord_Limits.thy ===== *)
theory Cord_Limits
  imports Cord_Client Cord_Print
begin

text \<open>
  Inputs on which the cord library departs from its documentation: each lemma evaluates the
  model of the code on one such input.
\<close>

text \<open>A function that always returns the same character, as a leaf of length \<open>n\<close>.\<close>

definition const_leaf :: "char \<Rightarrow> nat \<Rightarrow> node" where
  "const_leaf c n = Fnode FN_HDR n (ClientFn (\<lambda>_. c))"

lemma const_leaf_wf: "0 < n \<Longrightarrow> wf_node (const_leaf c n)"
  by (simp add: const_leaf_def)

lemma char_of_0: "char_of (0 :: nat) = NUL"
  by (simp add: char_of_def)

text \<open>\<open>CORD_chr\<close> looking for NUL finds the terminator of a string leaf.\<close>

lemma CORD_chr_terminator: "CORD_chr (Some (Str ''abc'')) 0 0 = Inr 3"
  by (simp add: CORD_chr_def CORD_iter5_def CORD_batched_chr_proc_def c_strchr_def char_of_int_def
      size_add_def size_max_def char_of_0)

text \<open>The function \<open>CORD_next\<close> walks off the end of a function leaf.\<close>

lemma CORD_next_fn_overrun:
  "rbind (CORD_set_pos fresh_pos (Some (const_leaf CHR ''d'' 1)) 0) CORD_next_fn =
     Inr (fresh_pos\<lparr>path := (path fresh_pos)[0 := Some \<lparr>pe_cord = const_leaf CHR ''d'' 1, pe_start_pos = 0\<rparr>],
       cur_pos := 1\<rparr>)"
  by (simp add: CORD_set_pos_def set_pe_def fresh_pos_def CORD__extend_path_def get_pe_def const_leaf_def
      CORD_next_fn_def size_max_def size_add_def Let_def)

text \<open>The empty concatenation of nothing with the empty string is not a cord.\<close>

lemma CORD_cat_char_star_empty:
  "CORD_cat_char_star None '''' 0 = Inr (Some (Str ''''))" "\<not> wf_cord (Some (Str ''''))"
  by (simp_all add: CORD_cat_char_star_def cat_char_star_body.simps)

text \<open>A substring whose end reaches \<open>2 ^ 31\<close> of a function leaf.\<close>

lemma CORD_substr_int_index:
  "CORD_substr (Some (const_leaf CHR ''d'' (2 ^ 31 + 40))) (2 ^ 31 - 1) 2 = Inr (Some (Str ''''))"
  by (simp add: CORD_substr_def const_leaf_def size_add_def size_max_def SUBSTR_LIMIT_def SHORT_LIMIT_def
      int_of_size_def substr_fn_buf.simps)

text \<open>A length so large that the end of the substring wraps around.\<close>

lemma CORD_substr_wraps:
  "CORD_substr (Some (Str ''abc'')) 1 (2 ^ 64 - 1) =
     Inr (Some (Fnode SUBSTR_HDR (2 ^ 64 - 1) (IndexAccess (Str ''abc'') 1)))"
  by (simp add: CORD_substr_def size_add_def size_max_def strlen_def CORD_substr_closure_long SUBSTR_LIMIT_def SHORT_LIMIT_def)

text \<open>\<open>CORD_cmp\<close> on equal texts, one of which has a function leaf after a string leaf.\<close>

definition mixed_cord :: node where
  "mixed_cord = Conc 1 3 4 (Str ''abc'') (const_leaf CHR ''d'' 1)"

lemma mixed_cord_chars: "wf_node mixed_cord" "chars mixed_cord = ''abcd''"
  by (simp_all add: mixed_cord_def const_leaf_def fn_char_def MAX_LEFT_LEN_def)

lemmas cmp_loop_numeral = cmp_loop.simps(2) [where k = "pred_numeral k" for k, folded numeral_eq_Suc]
lemmas ncmp_loop_numeral = ncmp_loop.simps(2) [where k = "pred_numeral k" for k, folded numeral_eq_Suc]

lemmas pos_eval = CORD_set_pos_def set_pe_def CORD__extend_path_def get_pe_def LEFT_LEN_def Let_def
  CORD_pos_valid_def CORD_POS_INVALID_def left_size_def left_long_def CORD_pos_chars_left_def long_of_size_def
  size_of_int_def cmp_block_def cmp_char_def strncmp_at.simps pos_char_def read_leaf_def c_char_def
  CORD_pos_advance_def CORD_next_def CORD__next_def CORD_pos_fetch_def CORD__pos_fetch_def size_add_def size_max_def
  pop_path.simps FUNCTION_BUF_SZ_def MAX_DEPTH_def fill_function_buf.simps uchar_def

lemma CORD_cmp_function_leaf:
  "CORD_cmp (Some mixed_cord) (Some (Str ''abcd'')) = Inr (-100)"
  by (simp add: CORD_cmp_def cmp_nodes_def mixed_cord_def const_leaf_def fresh_pos_def
      cmp_loop_numeral pos_eval)

text \<open>\<open>CORD_ncmp\<close> on texts that differ after a NUL: \<open>strncmp\<close> stops at the NUL.\<close>

definition nul_leaf :: "char \<Rightarrow> node" where
  "nul_leaf c = Fnode FN_HDR 3 (ClientFn (\<lambda>i. if i = 2 then c else NUL))"

lemma nul_leaf_chars: "wf_node (nul_leaf c)" "chars (nul_leaf c) = [NUL, NUL, c]"
  by (simp_all add: nul_leaf_def fn_char_def upt_conv_Cons)

lemma CORD_ncmp_after_nul:
  "CORD_ncmp (Some (nul_leaf CHR ''a'')) 0 (Some (nul_leaf CHR ''b'')) 0 3 = Inr 0"
  by (simp add: CORD_ncmp_def nul_leaf_def fresh_pos_def ncmp_loop_numeral pos_eval)

text \<open>Stepping back onto a character before the window of a function leaf, then reading it.\<close>

lemma CORD_prev_then_fetch:
  "rbind (CORD_set_pos fresh_pos (Some (const_leaf CHR ''d'' 3)) 0) (\<lambda>p.
   rbind (CORD_next p) (\<lambda>p. rbind (CORD_prev p) CORD_pos_fetch)) = Inl OutOfBounds"
  by (simp add: const_leaf_def fresh_pos_def pos_eval CORD_prev_def CORD__prev_def)

lemmas vsprintf_numeral = vsprintf_loop.simps(2) [where k = "pred_numeral k" for k, folded numeral_eq_Suc]

text \<open>A negative width, left adjustment in C, is an impossible allocation here.\<close>

lemma CORD_vsprintf_negative_width:
  "CORD_vsprintf vs (Some (Str ''%*r'')) [VaInt (-5), VaCord None] = Inl NullDeref"
  by (simp add: CORD_vsprintf_def fresh_pos_def vsprintf_numeral pos_eval extract_conv_spec_def
      extract_loop.simps conv_init_def conv_char_def CONV_SPEC_LEN_def conv_done_def conv_one_def conv_r_def
      resolve_def VARIABLE_def NONE_def blanks_def)

text \<open>A text longer than \<open>CONV_RESULT_LEN\<close> overruns the buffer of the extensible cord.\<close>

lemma CORD_vsprintf_long_text:
  assumes "vs ''%1s'' [VaPtr s] = Some s" "129 \<le> length s"
  shows "CORD_vsprintf vs (Some (Str ''%1s'')) [VaPtr s] = Inl OutOfBounds"
  using assms
  by (simp add: CORD_vsprintf_def fresh_pos_def vsprintf_numeral pos_eval extract_conv_spec_def
      extract_loop.simps conv_init_def conv_char_def CONV_SPEC_LEN_def conv_done_def conv_one_def conv_std_def
      resolve_def VARIABLE_def NONE_def CONV_RESULT_LEN_def CORD_BUFSZ_def CORD_ec_init_def ec_init_def
      arg_std_def store_text_def add_digit_def)

end
