(* ===== verification/Cord_Str.thy ===== *)
theory Cord_Str
  imports Cord_Client
begin

unbundle bit_operations_syntax

text \<open>
  \<open>CORD_str\<close> of \<^verbatim>\<open>libs/gc/cord/cordxtra.c\<close>: substring search with a window of the last
  characters in a 64-bit word, compared under a mask, and \<open>CORD_ncmp\<close> for the rest.
\<close>

section \<open>The search\<close>

text \<open>\<open>buf <<= 8; buf |= (unsigned char)c\<close>\<close>

definition shift_char :: "char \<Rightarrow> 64 word \<Rightarrow> 64 word" where
  "shift_char c buf = push_bit 8 buf OR word_of_int (uchar c)"

definition shift_ones :: "64 word \<Rightarrow> 64 word" where
  "shift_ones msk = push_bit 8 msk OR 0xff"

text \<open>The first loop: \<open>n\<close> characters from index \<open>i\<close> of \<open>s_start\<close> and from the position.\<close>

fun str_init :: "char list \<Rightarrow> nat \<Rightarrow> nat \<Rightarrow> 64 word \<Rightarrow> 64 word \<Rightarrow> 64 word \<Rightarrow> cord_pos \<Rightarrow>
    (64 word \<times> 64 word \<times> 64 word \<times> cord_pos) res" where
  "str_init s_start i 0 msk s_buf x_buf xpos = Inr (msk, s_buf, x_buf, xpos)"
| "str_init s_start i (Suc n) msk s_buf x_buf xpos =
     rbind (c_char s_start i) (\<lambda>c.
     rbind (CORD_pos_fetch xpos) (\<lambda>d.
     rbind (CORD_next xpos) (\<lambda>xpos.
       str_init s_start (Suc i) n (shift_ones msk) (shift_char c s_buf) (shift_char d x_buf) xpos)))"

text \<open>The second loop; the fuel bounds the number of candidate positions.\<close>

fun str_loop :: "nat \<Rightarrow> CORD \<Rightarrow> CORD \<Rightarrow> nat \<Rightarrow> nat \<Rightarrow> nat \<Rightarrow> 64 word \<Rightarrow> 64 word \<Rightarrow> 64 word \<Rightarrow> cord_pos \<Rightarrow> nat \<Rightarrow> nat res" where
  "str_loop 0 x s xlen slen start_len msk s_buf x_buf xpos match_pos = Inl OutOfFuel"
| "str_loop (Suc k) x s xlen slen start_len msk s_buf x_buf xpos match_pos =
     rbind (if x_buf AND msk = s_buf then
              if slen = start_len then Inr True
              else rbind (CORD_ncmp x (match_pos + start_len) s start_len (slen - start_len)) (\<lambda>r. Inr (r = 0))
            else Inr False) (\<lambda>found.
       if found then Inr match_pos
       else if match_pos = xlen - slen then Inr CORD_NOT_FOUND
       else
         rbind (CORD_pos_fetch xpos) (\<lambda>d.
         rbind (CORD_next xpos) (\<lambda>xpos.
           str_loop k x s xlen slen start_len msk s_buf (shift_char d x_buf) xpos (Suc match_pos))))"

text \<open>\<open>sizeof(unsigned long)\<close>\<close>

definition SIZEOF_LONG :: nat where
  "SIZEOF_LONG = 8"

definition CORD_str :: "CORD \<Rightarrow> nat \<Rightarrow> CORD \<Rightarrow> nat res" where
  "CORD_str x start s =
     (let xlen = CORD_len x
      in case s of
        None \<Rightarrow> Inr start
      | Some s' \<Rightarrow>
          rbind (case s' of
              Str t \<Rightarrow> Inr (t, strlen t)
            | _ \<Rightarrow> rbind (CORD_substr s 0 SIZEOF_LONG) (\<lambda>u.
                     rbind (CORD_to_char_star u) (\<lambda>t. Inr (t, CORD_len s)))) (\<lambda>(s_start, slen).
          if xlen < start \<or> xlen - start < slen then Inr CORD_NOT_FOUND
          else
            let start_len = (if slen > SIZEOF_LONG then SIZEOF_LONG else slen)
            in rbind (CORD_set_pos fresh_pos x start) (\<lambda>xpos.
               rbind (str_init s_start 0 start_len 0 0 0 xpos) (\<lambda>(msk, s_buf, x_buf, xpos).
                 str_loop (Suc (xlen - slen - start)) x s xlen slen start_len msk s_buf x_buf xpos start))))"

section \<open>The window as a number\<close>

text \<open>The bytes of a string as a number, most significant first.\<close>

definition bytes_val :: "char list \<Rightarrow> int" where
  "bytes_val s = fold (\<lambda>c v. 256 * v + uchar c) s 0"

lemma fold_bytes: "fold (\<lambda>c v. 256 * v + uchar c) s v = 256 ^ length s * v + bytes_val s"
proof (induction s arbitrary: v)
  case (Cons c s)
  have "bytes_val (c # s) = 256 ^ length s * uchar c + bytes_val s"
    using Cons.IH [of "uchar c"] by (simp add: bytes_val_def)
  with Cons.IH [of "256 * v + uchar c"] show ?case by (simp add: algebra_simps)
qed (simp add: bytes_val_def)

lemma bytes_val_append: "bytes_val (s @ t) = 256 ^ length t * bytes_val s + bytes_val t"
  using fold_bytes [of t "bytes_val s"] by (simp add: bytes_val_def)

lemma bytes_val_Cons: "bytes_val (c # t) = 256 ^ length t * uchar c + bytes_val t"
  using bytes_val_append [of "[c]" t] by (simp add: bytes_val_def)

lemma bytes_val_bounds: "0 \<le> bytes_val s" "bytes_val s < 256 ^ length s"
proof (induction s)
  case (Cons c s)
  {
    case 1
    show ?case using Cons uchar_bounds [of c] by (simp add: bytes_val_Cons)
  next
    case 2
    have "256 ^ length s * uchar c \<le> 256 ^ length s * (255 :: int)"
      by (rule mult_left_mono) (use uchar_bounds [of c] in simp_all)
    with Cons(2) have "256 ^ length s * uchar c + bytes_val s < 256 ^ length s * 255 + 256 ^ length s" by linarith
    then show ?case by (simp add: bytes_val_Cons)
  }
qed (simp_all add: bytes_val_def)

lemma bytes_val_inj: "length s = length t \<Longrightarrow> bytes_val s = bytes_val t \<Longrightarrow> s = t"
proof (induction s t rule: list_induct2')
  case (4 c s d t)
  let ?b = "256 ^ length t :: int"
  have len: "length s = length t" using 4 by simp
  have b: "0 \<le> bytes_val s" "bytes_val s < ?b" "0 \<le> bytes_val t" "bytes_val t < ?b"
    using bytes_val_bounds [of s] bytes_val_bounds [of t] len by simp_all
  have eq: "?b * uchar c + bytes_val s = ?b * uchar d + bytes_val t"
    using 4 len by (simp add: bytes_val_Cons)
  have "(?b * uchar c + bytes_val s) div ?b = (?b * uchar d + bytes_val t) div ?b" using eq by simp
  then have "uchar c = uchar d" using b by simp
  with eq 4 len show ?case by simp
qed auto

lemma bytes_val_window: "length s = n \<Longrightarrow> bytes_val (t @ s) mod 256 ^ n = bytes_val s"
  using bytes_val_bounds [of s] by (simp add: bytes_val_append)

lemma uint_shift_char: "uint (shift_char c b) = (256 * uint b + uchar c) mod 2 ^ 64"
proof -
  have "push_bit 8 b AND word_of_int (uchar c) = 0"
  proof (rule bit_eqI)
    fix n
    have "n < 8 \<or> \<not> bit (uchar c) n"
    proof (cases "n < 8")
      case False
      then have "uchar c < 2 ^ n"
        using uchar_bounds [of c] power_increasing [of 8 n "2 :: int"] by simp
      with uchar_bounds [of c] show ?thesis
        by (simp add: bit_iff_odd)
    qed simp
    then show "bit (push_bit 8 b AND word_of_int (uchar c)) n = bit (0 :: 64 word) n"
      by (auto simp: bit_and_iff bit_push_bit_iff bit_word_of_int_iff)
  qed
  then have "shift_char c b = push_bit 8 b + word_of_int (uchar c)"
    by (simp add: shift_char_def disjunctive_add_eq_or)
  also have "\<dots> = word_of_int (256 * uint b + uchar c)"
    by (simp add: push_bit_eq_mult)
  finally have "shift_char c b = word_of_int (256 * uint b + uchar c)" .
  moreover have "uint (word_of_int k :: 64 word) = k mod 2 ^ 64" for k
    by (simp add: uint_word_of_int)
  ultimately show ?thesis by (simp only:)
qed

lemma uint_shift_chars: "uint (fold shift_char s b) = (256 ^ length s * uint b + bytes_val s) mod 2 ^ 64"
proof (induction s arbitrary: b)
  case (Cons c s)
  have "(256 ^ length s * ((256 * uint b + uchar c) mod 2 ^ 64) + bytes_val s) mod 2 ^ 64 =
      (256 ^ length s * (256 * uint b + uchar c) + bytes_val s) mod 2 ^ 64"
    by (metis mod_add_left_eq mod_mult_right_eq)
  with Cons.IH [of "shift_char c b"] show ?case
    by (simp add: uint_shift_char bytes_val_Cons algebra_simps)
next
  case Nil
  have "uint b < 2 ^ 64" using uint_bounded [of b] by simp
  then show ?case by (simp add: bytes_val_def)
qed

lemma shift_ones_mask: "(shift_ones ^^ n) 0 = mask (8 * n)"
proof (induction n)
  case (Suc n)
  have ff: "0xff = (mask 8 :: 64 word)" by (simp add: mask_eq_exp_minus_1)
  have "push_bit 8 (mask k) OR mask 8 = (mask (k + 8) :: 64 word)" for k
    by (rule bit_eqI) (auto simp: bit_or_iff bit_push_bit_iff bit_mask_iff)
  with Suc ff show ?case by (simp add: shift_ones_def add.commute)
qed simp

lemma window_eq:
  assumes "length s = n" "n \<le> 8" "n \<le> length t"
  shows "fold shift_char t 0 AND mask (8 * n) = fold shift_char s 0 \<longleftrightarrow> drop (length t - n) t = s"
proof -
  let ?w = "drop (length t - n) t"
  have pow: "(256 :: int) ^ n = 2 ^ (8 * n)" by (simp add: power_mult)
  have dvd: "(2 :: int) ^ (8 * n) dvd 2 ^ 64" using assms(2) by (intro le_imp_power_dvd) simp
  have w: "length ?w = n" using assms(3) by simp
  have "uint (fold shift_char t 0 AND mask (8 * n)) = uint (fold shift_char t 0) mod 2 ^ (8 * n)"
    by (metis take_bit_eq_mask unsigned_take_bit_eq take_bit_eq_mod)
  also have "\<dots> = bytes_val t mod 2 ^ (8 * n)"
    using dvd by (simp only: uint_shift_chars) (simp add: mod_mod_cancel)
  also have "\<dots> = bytes_val ?w"
    using bytes_val_window [OF w, of "take (length t - n) t"] by (simp add: pow)
  finally have x: "uint (fold shift_char t 0 AND mask (8 * n)) = bytes_val ?w" .
  have "bytes_val s < 2 ^ 64"
    using bytes_val_bounds(2) [of s] assms(1,2) power_increasing [of "8 * n" 64 "2 :: int"] pow by simp
  then have "uint (fold shift_char s 0) = bytes_val s"
    using bytes_val_bounds(1) [of s] by (simp add: uint_shift_chars)
  with x have "fold shift_char t 0 AND mask (8 * n) = fold shift_char s 0 \<longleftrightarrow> bytes_val ?w = bytes_val s"
    by (metis word_uint_eqI)
  also have "\<dots> \<longleftrightarrow> ?w = s" using bytes_val_inj [of ?w s] w assms(1) by auto
  finally show ?thesis .
qed

section \<open>Correctness of the search\<close>

lemma str_init_ok:
  assumes "pos.here P p xs i" "i + n \<le> length xs" "k + n \<le> length s_start"
  obtains p' where "str_init s_start k n msk s_buf x_buf p =
      Inr ((shift_ones ^^ n) msk, fold shift_char (take n (drop k s_start)) s_buf, fold shift_char (take n (drop i xs)) x_buf, p')"
    "pos.here P p' xs (i + n)"
proof -
  have "\<exists>p'. str_init s_start k n msk s_buf x_buf p =
      Inr ((shift_ones ^^ n) msk, fold shift_char (take n (drop k s_start)) s_buf, fold shift_char (take n (drop i xs)) x_buf, p') \<and>
    pos.here P p' xs (i + n)"
    using assms
  proof (induction n arbitrary: k i p msk s_buf x_buf)
    case (Suc n)
    then have a: "at_pos P p xs i" by (intro pos.here_at) auto
    obtain q where q: "CORD_next p = Inr q" "pos.here P q xs (Suc i)" by (rule pos.step_here [OF a])
    have d: "take (Suc n) (drop k s_start) = s_start ! k # take n (drop (Suc k) s_start)"
      "take (Suc n) (drop i xs) = xs ! i # take n (drop (Suc i) xs)"
      using Suc.prems(2,3) by (simp_all flip: Cons_nth_drop_Suc)
    have "\<exists>p'. str_init s_start (Suc k) n (shift_ones msk) (shift_char (s_start ! k) s_buf) (shift_char (xs ! i) x_buf) q =
      Inr ((shift_ones ^^ n) (shift_ones msk), fold shift_char (take n (drop (Suc k) s_start)) (shift_char (s_start ! k) s_buf),
        fold shift_char (take n (drop (Suc i) xs)) (shift_char (xs ! i) x_buf), p') \<and> pos.here P p' xs (Suc i + n)"
      by (rule Suc.IH [OF q(2)]) (use Suc.prems(2,3) in simp_all)
    with q(1) Suc.prems(3) pos.fetch_at [OF a] show ?case
      by (simp add: d funpow_swap1)
  qed simp
  with that show thesis by blast
qed

definition occurs :: "char list \<Rightarrow> char list \<Rightarrow> nat \<Rightarrow> bool" where
  "occurs xs ss p \<longleftrightarrow> take (length ss) (drop p xs) = ss"

definition first_occurrence :: "char list \<Rightarrow> char list \<Rightarrow> nat \<Rightarrow> nat" where
  "first_occurrence xs ss start =
     (case find (occurs xs ss) [start..<Suc (length xs - length ss)] of Some p \<Rightarrow> p | None \<Rightarrow> CORD_NOT_FOUND)"

lemma occurs_split:
  assumes "n \<le> length ss" "p + length ss \<le> length xs"
  shows "occurs xs ss p \<longleftrightarrow> take n (drop p xs) = take n ss \<and> take (length ss - n) (drop (p + n) xs) = drop n ss"
proof -
  have "occurs xs ss p \<longleftrightarrow> take n (drop p xs) @ take (length ss - n) (drop (p + n) xs) = take n ss @ drop n ss"
    using pos.take_split_at [OF assms(1), of p xs] by (simp add: occurs_def)
  also have "\<dots> \<longleftrightarrow> take n (drop p xs) = take n ss \<and> take (length ss - n) (drop (p + n) xs) = drop n ss"
    by (rule append_eq_append_conv) (use assms in simp)
  finally show ?thesis .
qed

lemma str_loop_ok:
  fixes x s :: CORD
  defines "xs \<equiv> cord_chars x" and "ss \<equiv> cord_chars s"
  assumes x: "cord_ok x" "CORD_len x < 2 ^ 63" "nul_free xs"
    and s: "cord_ok s" "CORD_len s < 2 ^ 63" "nul_free ss"
    and len: "n \<le> length ss" "n \<le> 8" "0 < n" "n = length ss \<or> n = 8" "start + length ss \<le> length xs"
  shows "start \<le> m \<Longrightarrow> m + length ss \<le> length xs \<Longrightarrow> length xs - length ss - m < k \<Longrightarrow>
    pos.here (\<lambda>_. True) p xs (m + n) \<Longrightarrow>
    str_loop k x s (length xs) (length ss) n (mask (8 * n)) (fold shift_char (take n ss) 0)
      (fold shift_char (take (m + n - start) (drop start xs)) 0) p m =
    Inr (case find (occurs xs ss) [m..<Suc (length xs - length ss)] of Some p \<Rightarrow> p | None \<Rightarrow> CORD_NOT_FOUND)"
proof (induction k arbitrary: p m)
  case (Suc k)
  let ?t = "take (m + n - start) (drop start xs)"
  have t: "length ?t = m + n - start" "drop (length ?t - n) ?t = take n (drop m xs)"
    using Suc.prems(1,2) len by (simp_all add: drop_take)
  have win: "fold shift_char ?t 0 AND mask (8 * n) = fold shift_char (take n ss) 0 \<longleftrightarrow> take n (drop m xs) = take n ss"
  proof -
    have "length (take n ss) = n" "n \<le> length ?t" using len(1) t(1) Suc.prems(1) by auto
    from window_eq [OF this(1) len(2) this(2)] show ?thesis unfolding t(2) .
  qed
  obtain r where r: "CORD_ncmp x (m + n) s n (length ss - n) = Inr r"
    "r = 0 \<longleftrightarrow> take (length ss - n) (drop (m + n) xs) = drop n ss"
  proof -
    obtain r where "CORD_ncmp x (m + n) s n (length ss - n) = Inr r"
      "agrees r (take (length ss - n) (drop (m + n) xs)) (take (length ss - n) (drop n ss))"
      using CORD_ncmp_ok [of x s "m + n" n "length ss - n"] x s unfolding xs_def ss_def by blast
    with that [of r] agrees_zero show thesis by auto
  qed
  have found: "(if fold shift_char ?t 0 AND mask (8 * n) = fold shift_char (take n ss) 0 then
              if length ss = n then Inr True
              else rbind (CORD_ncmp x (m + n) s n (length ss - n)) (\<lambda>r. Inr (r = 0))
            else Inr False) = (Inr (occurs xs ss m) :: bool res)"
    using r Suc.prems(2) by (auto simp: win occurs_split [OF len(1) Suc.prems(2)])
  have upt: "[m..<Suc (length xs - length ss)] = m # [Suc m..<Suc (length xs - length ss)]"
    using Suc.prems(2) by (intro upt_conv_Cons) simp
  show ?case
  proof (cases "occurs xs ss m \<or> m = length xs - length ss")
    case True
    with found upt show ?thesis by auto
  next
    case False
    then have lt: "m + n < length xs" "Suc m + length ss \<le> length xs" using Suc.prems(2) len(1) by auto
    then have a: "at_pos (\<lambda>_. True) p xs (m + n)" using Suc.prems(4) by (intro pos.here_at)
    obtain q where q: "CORD_next p = Inr q" "pos.here (\<lambda>_. True) q xs (Suc (m + n))" by (rule pos.step_here [OF a])
    have t': "take (Suc m + n - start) (drop start xs) = ?t @ [xs ! (m + n)]"
      using lt Suc.prems(1) by (simp add: Suc_diff_le take_Suc_conv_app_nth)
    have "str_loop k x s (length xs) (length ss) n (mask (8 * n)) (fold shift_char (take n ss) 0)
        (fold shift_char (take (Suc m + n - start) (drop start xs)) 0) q (Suc m) =
      Inr (case find (occurs xs ss) [Suc m..<Suc (length xs - length ss)] of Some p \<Rightarrow> p | None \<Rightarrow> CORD_NOT_FOUND)"
      using q(2) lt Suc.prems(1,3) False by (intro Suc.IH) auto
    with False found upt q(1) pos.fetch_at [OF a] show ?thesis unfolding t' by simp
  qed
qed simp

lemma CORD_str_ok:
  assumes x: "cord_ok x" "CORD_len x < 2 ^ 63" "nul_free (cord_chars x)"
    and s: "cord_ok (Some s)" "LEN s < 2 ^ 31" "nul_free (chars s)"
  shows "CORD_str x start (Some s) = Inr (first_occurrence (cord_chars x) (chars s) start)"
proof -
  let ?xs = "cord_chars x" and ?ss = "chars s"
  define n where "n = (if length ?ss > SIZEOF_LONG then SIZEOF_LONG else length ?ss)"
  have l: "length ?xs = CORD_len x" "length ?ss = LEN s" "?ss \<noteq> []" "0 < LEN s" "LEN s < 2 ^ 63"
    using x(1) s(1,2) LEN_pos [of s] length_chars [of s] by (auto simp: cord_ok_def length_cord_chars)
  obtain s_start where s_start: "(case s of
              Str t \<Rightarrow> Inr (t, strlen t)
            | _ \<Rightarrow> rbind (CORD_substr (Some s) 0 SIZEOF_LONG) (\<lambda>u.
                     rbind (CORD_to_char_star u) (\<lambda>t. Inr (t, CORD_len (Some s))))) = Inr (s_start, length ?ss)"
    "take n s_start = take n ?ss" "n \<le> length s_start"
  proof (cases "IS_STRING s")
    case True
    then obtain t where "s = Str t" by (cases s) auto
    with that [of t] s(1) show thesis by (simp add: n_def)
  next
    case False
    have "CORD_len (Some s) < 2 ^ 31" "0 + SIZEOF_LONG < 2 ^ 64" using s(2) by (simp_all add: SIZEOF_LONG_def)
    then obtain u where u: "CORD_substr (Some s) 0 SIZEOF_LONG = Inr u" "cord_ok u"
        "cord_chars u = take SIZEOF_LONG (drop 0 (cord_chars (Some s)))"
      by (rule CORD_substr_spec [OF s(1)])
    have "CORD_to_char_star u = Inr (take SIZEOF_LONG ?ss)"
      using CORD_to_char_star_ok [OF cord_ok_wf [OF u(2)]] u(3) by simp
    then have "(case s of Str t \<Rightarrow> Inr (t, strlen t)
            | _ \<Rightarrow> rbind (CORD_substr (Some s) 0 SIZEOF_LONG) (\<lambda>u.
                     rbind (CORD_to_char_star u) (\<lambda>t. Inr (t, CORD_len (Some s))))) =
          Inr (take SIZEOF_LONG ?ss, length ?ss)"
      using False u(1) l(2) by (cases s) simp_all
    then show thesis by (rule that) (simp_all add: n_def)
  qed
  have str: "CORD_str x start (Some s) =
      (if CORD_len x < start \<or> CORD_len x - start < length ?ss then Inr CORD_NOT_FOUND
       else rbind (CORD_set_pos fresh_pos x start) (\<lambda>xpos.
            rbind (str_init s_start 0 n 0 0 0 xpos) (\<lambda>(msk, s_buf, x_buf, xpos).
              str_loop (Suc (CORD_len x - length ?ss - start)) x (Some s) (CORD_len x) (length ?ss) n msk s_buf x_buf xpos start)))"
    using s_start(1) by (simp add: CORD_str_def n_def Let_def del: str_loop.simps)
  show ?thesis
  proof (cases "CORD_len x < start \<or> CORD_len x - start < length ?ss")
    case True
    then have "\<not> occurs ?xs ?ss p" if "start \<le> p" for p
      using that l(1) l(3) by (auto simp: occurs_def dest: arg_cong [of _ _ length])
    then have "find (occurs ?xs ?ss) [start..<Suc (length ?xs - length ?ss)] = None"
      by (auto simp: find_None_iff)
    with True str show ?thesis by (simp add: first_occurrence_def)
  next
    case False
    then have start: "start + length ?ss \<le> length ?xs" "start < CORD_len x" using l by auto
    obtain p where p1: "CORD_set_pos fresh_pos x start = Inr p"
      and p2: "pos.here (\<lambda>y. x = Some y) p ?xs (if start < CORD_len x then start else CORD_len x)"
      by (rule CORD_set_pos_start [OF x(1,2)])
    have "pos.here (\<lambda>_. True) p ?xs start" using here_weaken [OF p2] start(2) by simp
    note p = p1 this
    have n: "n \<le> length ?ss" "n \<le> 8" "0 < n" "n = length ?ss \<or> n = 8"
      using l(2,4) by (auto simp: n_def SIZEOF_LONG_def)
    have i: "start + n \<le> length ?xs" "0 + n \<le> length s_start" using start(1) n(1) s_start(3) by simp_all
    obtain q where q: "str_init s_start 0 n 0 0 0 p = Inr ((shift_ones ^^ n) 0, fold shift_char (take n (drop 0 s_start)) 0,
        fold shift_char (take n (drop start ?xs)) 0, q)" "pos.here (\<lambda>_. True) q ?xs (start + n)"
      by (rule str_init_ok [OF p(2) i])
    have "str_loop (Suc (length ?xs - length ?ss - start)) x (Some s) (length ?xs) (length (cord_chars (Some s))) n
        (mask (8 * n)) (fold shift_char (take n (cord_chars (Some s))) 0)
        (fold shift_char (take (start + n - start) (drop start ?xs)) 0) q start =
      Inr (case find (occurs ?xs (cord_chars (Some s))) [start..<Suc (length ?xs - length (cord_chars (Some s)))] of
          Some p \<Rightarrow> p | None \<Rightarrow> CORD_NOT_FOUND)"
    proof (rule str_loop_ok [OF x s(1)])
      show "pos.here (\<lambda>_. True) q ?xs (start + n)" by (rule q(2))
      show "CORD_len (Some s) < 2 ^ 63" using l(5) by simp
    qed (use s(3) n start(1) in simp_all)
    then show ?thesis
      using False str p(1) q(1) s_start(2) l(1)
      by (simp add: first_occurrence_def shift_ones_mask del: str_loop.simps)
  qed
qed

end
