(* ===== verification/Cord_File.thy ===== *)
theory Cord_File
  imports Cord_Build
begin

text \<open>
  Cords over files, of \<^verbatim>\<open>libs/gc/cord/cordxtra.c\<close>: the direct-mapped cache of a lazily
  read file (\<open>lf_state\<close>, \<open>refill_cache\<close>, \<open>CORD_lf_func\<close>) and the choice between reading
  eagerly and lazily (\<open>CORD_from_file\<close>). A \<open>FILE\<close> is its contents with a read offset.
\<close>

section \<open>Files\<close>

record FILE =
  contents :: "char list"
  offset :: nat

definition fseek :: "FILE \<Rightarrow> nat \<Rightarrow> FILE" where
  "fseek f k = f\<lparr>offset := k\<rparr>"

definition fread :: "FILE \<Rightarrow> nat \<Rightarrow> char list \<times> FILE" where
  "fread f n = (let d = take n (drop (offset f) (contents f)) in (d, f\<lparr>offset := offset f + length d\<rparr>))"

section \<open>The cache\<close>

definition LOG_CACHE_SZ :: nat where "LOG_CACHE_SZ = 14"
definition CACHE_SZ :: nat where "CACHE_SZ = 2 ^ LOG_CACHE_SZ"
definition LOG_LINE_SZ :: nat where "LOG_LINE_SZ = 9"
definition LINE_SZ :: nat where "LINE_SZ = 2 ^ LOG_LINE_SZ"

record cache_line =
  tag :: nat
  data :: "char list"

record lf_state =
  lf_file :: FILE
  lf_current :: nat
  lf_cache :: "cache_line option list"

text \<open>Masks and shifts of non-negative numbers, as remainders and quotients.\<close>

definition MOD_CACHE_SZ :: "nat \<Rightarrow> nat" where "MOD_CACHE_SZ n = n mod CACHE_SZ"
definition MOD_LINE_SZ :: "nat \<Rightarrow> nat" where "MOD_LINE_SZ n = n mod LINE_SZ"
definition DIV_LINE_SZ :: "nat \<Rightarrow> nat" where "DIV_LINE_SZ n = n div LINE_SZ"
definition LINE_START :: "nat \<Rightarrow> nat" where "LINE_START n = n - n mod LINE_SZ"

text \<open>Runs with the allocation lock held; the line is replaced, never modified.\<close>

definition refill_cache :: "lf_state \<Rightarrow> nat \<Rightarrow> (char \<times> lf_state) res" where
  "refill_cache state file_pos =
     (let line_start = LINE_START file_pos;
          line_no = DIV_LINE_SZ (MOD_CACHE_SZ file_pos);
          f = (if line_start \<noteq> lf_current state then fseek (lf_file state) line_start else lf_file state);
          (d, f) = fread f LINE_SZ
      in if length d \<le> file_pos - line_start then Inl (Abort ''fread failed'')
         else if line_no < length (lf_cache state) then
           Inr (d ! MOD_LINE_SZ file_pos,
                \<lparr>lf_file = f, lf_current = line_start + LINE_SZ,
                 lf_cache = (lf_cache state)[line_no := Some \<lparr>tag = DIV_LINE_SZ file_pos, data = d\<rparr>]\<rparr>)
         else Inl OutOfBounds)"

definition CORD_lf_func :: "nat \<Rightarrow> lf_state \<Rightarrow> (char \<times> lf_state) res" where
  "CORD_lf_func i state =
     (let k = DIV_LINE_SZ (MOD_CACHE_SZ i)
      in if k < length (lf_cache state) then
           (case lf_cache state ! k of
              None \<Rightarrow> refill_cache state i
            | Some cl \<Rightarrow>
                if tag cl \<noteq> DIV_LINE_SZ i then refill_cache state i
                else if MOD_LINE_SZ i < length (data cl) then Inr (data cl ! MOD_LINE_SZ i, state)
                else Inl Uninitialised)
         else Inl OutOfBounds)"

definition lf_init :: "FILE \<Rightarrow> lf_state" where
  "lf_init f = \<lparr>lf_file = fseek f 0, lf_current = 0, lf_cache = replicate (CACHE_SZ div LINE_SZ) None\<rparr>"

text \<open>The character at \<open>i\<close> as the client function of the cord sees it in a state.\<close>

definition lf_char :: "lf_state \<Rightarrow> nat \<Rightarrow> char" where
  "lf_char state i = (case CORD_lf_func i state of Inr (c, _) \<Rightarrow> c | Inl _ \<Rightarrow> NUL)"

definition CORD_from_file_lazy_inner :: "FILE \<Rightarrow> nat \<Rightarrow> CORD res" where
  "CORD_from_file_lazy_inner f len = CORD_from_fn (ClientFn (lf_char (lf_init f))) len"

definition CORD_from_file_lazy :: "FILE \<Rightarrow> CORD res" where
  "CORD_from_file_lazy f = CORD_from_file_lazy_inner f (length (contents f))"

definition LAZY_THRESHOLD :: nat where
  "LAZY_THRESHOLD = 128 * 1024 + 1"

definition CORD_from_file :: "FILE \<Rightarrow> CORD res" where
  "CORD_from_file f =
     (let len = length (contents f)
      in if len < LAZY_THRESHOLD then CORD_from_file_eager (contents f)
         else CORD_from_file_lazy_inner f len)"

section \<open>Correctness\<close>

text \<open>
  The cache holds only true lines in their slots; the file pointer is where \<open>lf_current\<close>
  says, unless the last line read was cut short by the end of the file.
\<close>

definition lf_ok :: "lf_state \<Rightarrow> bool" where
  "lf_ok st \<longleftrightarrow> length (lf_cache st) = CACHE_SZ div LINE_SZ \<and>
     (offset (lf_file st) = lf_current st \<or> length (contents (lf_file st)) < lf_current st) \<and>
     (\<forall>k<length (lf_cache st). \<forall>cl. lf_cache st ! k = Some cl \<longrightarrow>
        data cl = take LINE_SZ (drop (tag cl * LINE_SZ) (contents (lf_file st))))"

lemmas line_defs = LINE_SZ_def LOG_LINE_SZ_def CACHE_SZ_def LOG_CACHE_SZ_def MOD_CACHE_SZ_def
  MOD_LINE_SZ_def DIV_LINE_SZ_def LINE_START_def

lemma line_start: "LINE_START i = DIV_LINE_SZ i * LINE_SZ" "LINE_START i + MOD_LINE_SZ i = i" "MOD_LINE_SZ i < LINE_SZ"
  by (simp_all add: line_defs minus_mod_eq_div_mult)

lemma line_no: "DIV_LINE_SZ (MOD_CACHE_SZ i) < CACHE_SZ div LINE_SZ"
  by (simp add: line_defs)

lemma line_char:
  "i < length s \<Longrightarrow> take LINE_SZ (drop (DIV_LINE_SZ i * LINE_SZ) s) ! MOD_LINE_SZ i = s ! i \<and>
    MOD_LINE_SZ i < length (take LINE_SZ (drop (DIV_LINE_SZ i * LINE_SZ) s))"
  using line_start [of i] by (auto simp flip: line_start(1))

lemma lf_init_ok: "lf_ok (lf_init f)" "contents (lf_file (lf_init f)) = contents f"
  by (simp_all add: lf_ok_def lf_init_def fseek_def)

lemma refill_cache_ok:
  assumes "lf_ok st" "i < length (contents (lf_file st))"
  shows "\<exists>st'. refill_cache st i = Inr (contents (lf_file st) ! i, st') \<and> lf_ok st' \<and>
    contents (lf_file st') = contents (lf_file st)"
proof -
  let ?s = "contents (lf_file st)" and ?l = "LINE_START i"
  let ?d = "take LINE_SZ (drop ?l ?s)"
  define f where "f = (if ?l \<noteq> lf_current st then fseek (lf_file st) ?l else lf_file st)"
  have le: "?l \<le> i" using line_start(2) [of i] by simp
  have off: "offset f = ?l" "contents f = ?s"
    using assms le by (auto simp: f_def fseek_def lf_ok_def)
  have rd: "fread f LINE_SZ = (?d, f\<lparr>offset := ?l + length ?d\<rparr>)"
    by (simp add: fread_def off Let_def)
  have c: "?d ! MOD_LINE_SZ i = ?s ! i" "MOD_LINE_SZ i < length ?d"
    using line_char [OF assms(2)] by (simp_all only: line_start(1))
  have "i - ?l = MOD_LINE_SZ i" using line_start(2) [of i] by simp
  then have d: "\<not> length ?d \<le> i - ?l" using c(2) by auto
  let ?st = "\<lparr>lf_file = f\<lparr>offset := ?l + length ?d\<rparr>, lf_current = ?l + LINE_SZ,
      lf_cache = (lf_cache st)[DIV_LINE_SZ (MOD_CACHE_SZ i) := Some \<lparr>tag = DIV_LINE_SZ i, data = ?d\<rparr>]\<rparr>"
  have "refill_cache st i = Inr (?s ! i, ?st)"
    using rd d c(1) line_no [of i] assms(1) by (simp add: refill_cache_def Let_def lf_ok_def flip: f_def)
  moreover have "lf_ok ?st"
    unfolding lf_ok_def
  proof (intro conjI allI impI)
    show "length (lf_cache ?st) = CACHE_SZ div LINE_SZ" using assms(1) by (simp add: lf_ok_def)
    show "offset (lf_file ?st) = lf_current ?st \<or> length (contents (lf_file ?st)) < lf_current ?st"
      using off(2) by auto
    fix k cl assume "k < length (lf_cache ?st)" "lf_cache ?st ! k = Some cl"
    then show "data cl = take LINE_SZ (drop (tag cl * LINE_SZ) (contents (lf_file ?st)))"
      using assms(1) off(2) line_no [of i] line_start(1) [of i]
      by (auto simp: lf_ok_def nth_list_update split: if_splits)
  qed
  ultimately show ?thesis using off(2) by simp
qed

lemma CORD_lf_func_ok:
  assumes "lf_ok st" "i < length (contents (lf_file st))"
  shows "\<exists>st'. CORD_lf_func i st = Inr (contents (lf_file st) ! i, st') \<and> lf_ok st' \<and>
    contents (lf_file st') = contents (lf_file st)"
proof -
  let ?k = "DIV_LINE_SZ (MOD_CACHE_SZ i)"
  have k: "?k < length (lf_cache st)" using assms(1) line_no [of i] by (simp add: lf_ok_def)
  have hit: "data cl ! MOD_LINE_SZ i = contents (lf_file st) ! i \<and> MOD_LINE_SZ i < length (data cl)"
    if "lf_cache st ! ?k = Some cl" "tag cl = DIV_LINE_SZ i" for cl
    using that assms k line_char [OF assms(2)] by (simp add: lf_ok_def)
  show ?thesis
    using refill_cache_ok [OF assms] hit k assms(1)
    by (auto simp: CORD_lf_func_def Let_def split: option.splits)
qed

lemma lf_char_ok: "lf_ok st \<Longrightarrow> i < length (contents (lf_file st)) \<Longrightarrow> lf_char st i = contents (lf_file st) ! i"
  using CORD_lf_func_ok [of st i] by (auto simp: lf_char_def)

text \<open>Any sequence of reads, whatever lines it evicts, returns the characters of the file.\<close>

fun lf_reads :: "nat list \<Rightarrow> lf_state \<Rightarrow> (char list \<times> lf_state) res" where
  "lf_reads [] st = Inr ([], st)"
| "lf_reads (i # js) st =
     rbind (CORD_lf_func i st) (\<lambda>(c, st). rbind (lf_reads js st) (\<lambda>(cs, st). Inr (c # cs, st)))"

lemma lf_reads_ok:
  assumes "lf_ok st" "\<forall>i\<in>set js. i < length (contents (lf_file st))"
  shows "\<exists>st'. lf_reads js st = Inr (map ((!) (contents (lf_file st))) js, st') \<and> lf_ok st' \<and>
    contents (lf_file st') = contents (lf_file st)"
  using assms
proof (induction js arbitrary: st)
  case (Cons i js)
  obtain st' where "CORD_lf_func i st = Inr (contents (lf_file st) ! i, st')" "lf_ok st'"
    "contents (lf_file st') = contents (lf_file st)"
    using CORD_lf_func_ok [of st i] Cons.prems by auto
  with Cons.IH [of st'] Cons.prems(2) show ?case by auto
qed simp

lemma CORD_from_file_ok:
  assumes "length (contents f) < 2 ^ 63"
  shows "\<exists>z. CORD_from_file f = Inr z \<and> cord_ok z \<and> cord_chars z = contents f"
proof (cases "length (contents f) < LAZY_THRESHOLD")
  case True
  then have "length (contents f) < CORD_LIMIT" by (simp add: LAZY_THRESHOLD_def CORD_LIMIT_def)
  then obtain z where "CORD_from_file_eager (contents f) = Inr z" "cord_ok z" "cord_chars z = contents f"
    by (rule CORD_from_file_eager_ok)
  with True show ?thesis by (simp add: CORD_from_file_def)
next
  case False
  let ?g = "ClientFn (lf_char (lf_init f))" and ?n = "length (contents f)"
  have "wf_fn FN_HDR ?n ?g" by simp
  then obtain z where z: "CORD_from_fn ?g ?n = Inr z" "wf_cord z" "cord_chars z = map (fn_char ?g) [0..<?n]"
    using CORD_from_fn_spec by blast
  have "map (fn_char ?g) [0..<?n] = contents f"
    by (rule nth_equalityI) (simp_all add: fn_char_def lf_char_ok lf_init_ok)
  with z False CORD_from_fn_depth [OF z(1)] show ?thesis
    by (simp add: CORD_from_file_def CORD_from_file_lazy_inner_def cord_ok_def MAX_DEPTH_def)
qed

end
