(* ===== verification/Cord_Properties.thy ===== *)
theory Cord_Properties
  imports Cord_Limits Cord_Str Cord_File
begin

text \<open>
  The properties of the cord library, stated over the operations and proved from the lemmas of
  the component theories, each with an instance on a concrete input.
\<close>

section \<open>Concatenation and balancing\<close>

text \<open>
  C1: \<open>CORD_cat\<close> refines the concatenation of texts: below the length limit it always
  returns a cord a client can hold, whatever rebalancing it had to do, and the text of
  the result is the first text followed by the second.
\<close>

theorem CORD_cat_refines_append:
  assumes "cord_ok x" "cord_ok y" "CORD_len x + CORD_len y < CORD_LIMIT"
  shows "\<exists>z. CORD_cat x y = Inr z \<and> cord_ok z \<and> cord_chars z = cord_chars x @ cord_chars y"
  using CORD_cat_ok [OF assms] by metis

lemma CORD_cat_refines_append_witness:
  "\<exists>z. CORD_cat (Some (Str ''ab'')) (Some (const_leaf CHR ''c'' 2)) = Inr z \<and> cord_ok z \<and> cord_chars z = ''abcc''"
  using CORD_cat_refines_append [of "Some (Str ''ab'')" "Some (const_leaf CHR ''c'' 2)"]
  by (simp add: CORD_LIMIT_def const_leaf_def fn_char_def upt_conv_Cons)

text \<open>
  C2: \<open>CORD_balance\<close> returns a cord with the same text that is shallow: its depth is less
  than \<open>MAX_DEPTH\<close>, and a depth of \<open>d\<close> needs at least the \<open>d - 2\<close>-th Fibonacci length.
\<close>

theorem CORD_balance_shallow:
  assumes "wf_cord x" "CORD_len x < CORD_LIMIT"
  shows "\<exists>z. CORD_balance x = Inr z \<and> cord_ok z \<and> cord_chars z = cord_chars x \<and>
    min_len ! (cord_depth z - 2) \<le> max 1 (CORD_len z)"
proof -
  obtain z where "balance_body (CORD_cat_fuel (Suc (Suc 0))) x = Inr z" "cord_ok z"
    "cord_chars z = cord_chars x" "min_len ! (cord_depth z - 2) \<le> max 1 (CORD_len z)"
    by (rule CORD_balance_ok [OF assms])
  then show ?thesis by (auto simp: CORD_balance_def cord_fuel_def numeral_2_eq_2)
qed

lemma CORD_balance_shallow_witness:
  "\<exists>z. CORD_balance (Some (Conc 1 1 2 (Str ''a'') (Str ''b''))) = Inr z \<and> cord_ok z \<and> cord_chars z = ''ab''"
  using CORD_balance_shallow [of "Some (Conc 1 1 2 (Str ''a'') (Str ''b''))"]
  by (auto simp: CORD_LIMIT_def MAX_LEFT_LEN_def)

text \<open>
  C3: \<open>CORD_substr\<close> returns the cord of the \<open>n\<close> characters from index \<open>i\<close>, clipped to
  the text, for texts below \<open>2 ^ 31\<close> and ranges that do not wrap.
\<close>

theorem CORD_substr_is_slice:
  assumes "cord_ok x" "CORD_len x < 2 ^ 31" "i + n < 2 ^ 64"
  shows "\<exists>z. CORD_substr x i n = Inr z \<and> cord_ok z \<and> cord_chars z = take n (drop i (cord_chars x))"
  using CORD_substr_spec [OF assms] by metis

lemma CORD_substr_is_slice_witness:
  "\<exists>z. CORD_substr (Some (Conc 1 2 5 (Str ''ab'') (Str ''cde''))) 1 3 = Inr z \<and> cord_ok z \<and> cord_chars z = ''bcd''"
  using CORD_substr_is_slice [of "Some (Conc 1 2 5 (Str ''ab'') (Str ''cde''))" 1 3]
  by (auto simp: cord_ok_def MAX_LEFT_LEN_def MAX_DEPTH_def)

section \<open>Traversal\<close>

text \<open>
  C4: \<open>CORD_riter4\<close> is the early-exit fold of the callback over the characters from index
  \<open>i\<close> down to 0, and \<open>CORD_iter5\<close> the same from \<open>i\<close> to the end, when the batched callback
  agrees with the callback on characters.
\<close>

theorem CORD_iter_is_fold:
  assumes "wf_cord x" "i < CORD_len x"
    and "\<And>g s d. f2 = Some g \<Longrightarrow> nul_free s \<Longrightarrow> s \<noteq> [] \<Longrightarrow> g s d = iter_list f1 s d"
    and "\<And>c d. f1 c d = Inr (0, k c d) \<or> f1 c d = Inr (1, k c d)"
  shows "CORD_riter4 x i f1 d = iter_list f1 (rev (take (Suc i) (cord_chars x))) d \<and>
    (\<exists>r d'. CORD_iter5 x i f1 f2 d = Inr (r, d') \<and>
      iter_list f1 (drop i (cord_chars x)) d = Inr (if r = 0 then 0 else 1, d'))"
proof -
  let ?R = "\<lambda>_ :: bool. (=)"
  have refl: "sim_iter ?R a a" for a by (cases a) (auto simp: sim_iter_def)
  then have f: "sim_fn ?R f1 f1" by (auto simp: sim_fn_def)
  have g: "sim_batched ?R f2 f1"
    using assms(3) refl by (auto simp: sim_batched_def)
  have total: "\<exists>r d'. iter_list f1 xs d = Inr (r, d') \<and> (r = 0 \<or> r = 1)" for xs d
  proof (induction xs arbitrary: d)
    case (Cons c xs)
    with assms(4) [of c d] show ?case by auto
  qed simp
  have "sim_iter ?R (CORD_iter5 x i f1 f2 d) (iter_list f1 (drop i (cord_chars x)) d)"
    by (rule CORD_iter5_spec [OF assms(1,2) f g]) simp
  with total [of "drop i (cord_chars x)" d] CORD_riter4_spec [OF assms(1,2)] show ?thesis
    by (auto simp: sim_iter_def rel_sum.simps)
qed

lemma CORD_iter_is_fold_witness:
  "CORD_riter4 (Some (Str ''abc'')) 1 (\<lambda>c d. Inr (0, c # d)) [] = Inr (0, ''ab'')"
  using CORD_iter_is_fold [of "Some (Str ''abc'')" 1 None "\<lambda>c d. Inr (0, c # d)" "\<lambda>c d. c # d" "[]"]
  by (simp add: numeral_2_eq_2)

text \<open>
  C5: the traversal macro \<open>CORD_FOR\<close> visits every character of the cord once, in order,
  and stops: its body is folded over the text.
\<close>

theorem CORD_FOR_visits_all:
  assumes "cord_ok x" "CORD_len x < 2 ^ 63"
  shows "CORD_FOR (\<lambda>c d. d @ [c]) x [] = Inr (cord_chars x)"
proof -
  have "fold (\<lambda>c d. d @ [c]) cs ds = ds @ cs" for cs ds :: "char list"
    by (induction cs arbitrary: ds) simp_all
  then show ?thesis by (simp add: CORD_FOR_ok [OF assms])
qed

lemma CORD_FOR_visits_all_witness:
  "CORD_FOR (\<lambda>c d. d @ [c]) (Some mixed_cord) [] = Inr ''abcd''"
  using CORD_FOR_visits_all [of "Some mixed_cord"] mixed_cord_chars
  by (simp add: cord_ok_def mixed_cord_def MAX_DEPTH_def)

text \<open>
  C6: a position at index \<open>i\<close> of a cord moves to \<open>i + 1\<close> by \<open>CORD_next\<close> and back to \<open>i\<close>
  by \<open>CORD_prev\<close>, and becomes invalid past either end; the path stays within its
  \<open>MAX_DEPTH + 1\<close> entries throughout.
\<close>

theorem CORD_next_prev:
  assumes "pos_at x p"
  shows "(\<exists>q. CORD_next p = Inr q \<and>
      (if Suc (cur_pos p) < LEN x then
         pos_at x q \<and> cur_pos q = Suc (cur_pos p) \<and> (\<exists>r. CORD_prev q = Inr r \<and> pos_at x r \<and> cur_pos r = cur_pos p)
       else \<not> CORD_pos_valid q)) \<and>
    (\<exists>q. CORD_prev p = Inr q \<and> (if 0 < cur_pos p then pos_at x q \<and> cur_pos q = cur_pos p - 1 else \<not> CORD_pos_valid q))"
proof -
  obtain q where q: "CORD_next p = Inr q"
    "if Suc (cur_pos p) < LEN x then pos_at x q \<and> cur_pos q = Suc (cur_pos p) \<and> (pos_fwd p \<longrightarrow> pos_fwd q)
     else \<not> CORD_pos_valid q" by (rule CORD_next_ok [OF assms])
  have prev: "\<exists>r. CORD_prev q = Inr r \<and> (if 0 < cur_pos q then pos_at x r \<and> cur_pos r = cur_pos q - 1 else \<not> CORD_pos_valid r)"
    if "pos_at x q" for q
    using CORD_prev_ok [OF that] by metis
  from q prev [OF assms] prev [of q] show ?thesis by (auto split: if_splits)
qed

lemma CORD_next_prev_witness:
  "\<exists>p q. CORD_set_pos fresh_pos (Some (Str ''ab'')) 0 = Inr p \<and> CORD_next p = Inr q \<and> pos_at (Str ''ab'') q"
proof -
  obtain p where p: "CORD_set_pos fresh_pos (Some (Str ''ab'')) 0 = Inr p" "pos_at (Str ''ab'') p" "cur_pos p = 0"
    by (rule CORD_set_pos_ok [of "Str ''ab''" fresh_pos 0]) simp_all
  from CORD_next_prev [OF p(2)] p show ?thesis by auto
qed

section \<open>Searching and comparing\<close>



text \<open>
  C8: on texts without NULs \<open>CORD_ncmp\<close> always returns, and returns 0 exactly when the
  two slices it compares are equal; on ASCII texts its sign is the lexicographic order.
\<close>

theorem CORD_ncmp_compares:
  assumes "cord_ok x" "CORD_len x < 2 ^ 63" "nul_free (cord_chars x)"
    and "cord_ok y" "CORD_len y < 2 ^ 63" "nul_free (cord_chars y)"
  shows "\<exists>r. CORD_ncmp x i y j n = Inr r \<and>
    (r = 0 \<longleftrightarrow> take n (drop i (cord_chars x)) = take n (drop j (cord_chars y))) \<and>
    (ascii (cord_chars x) \<and> ascii (cord_chars y) \<longrightarrow>
      (r < 0 \<longleftrightarrow> (take n (drop i (cord_chars x)), take n (drop j (cord_chars y))) \<in> lexord {(c, d). uchar c < uchar d}))"
proof -
  obtain r where r: "CORD_ncmp x i y j n = Inr r"
    "agrees r (take n (drop i (cord_chars x))) (take n (drop j (cord_chars y)))"
    using CORD_ncmp_ok [OF assms] by blast
  have "ascii s \<Longrightarrow> ascii (take n (drop k s))" for s k
    by (auto simp: ascii_def dest: in_set_takeD in_set_dropD)
  with r agrees_zero [OF r(2)] agrees_lex [OF r(2)] show ?thesis by auto
qed

lemma CORD_ncmp_compares_witness:
  "\<exists>r. CORD_ncmp (Some (Str ''abc'')) 1 (Some (Str ''xbc'')) 1 5 = Inr r \<and> r = 0"
  using CORD_ncmp_compares [of "Some (Str ''abc'')" "Some (Str ''xbc'')" 1 1 5] by auto

text \<open>
  On cords built of strings only, \<open>CORD_cmp\<close> agrees with the comparison of the texts.
  (With function leaves it need not: \<open>CORD_cmp_function_leaf\<close>.)
\<close>

theorem CORD_cmp_compares_strings:
  assumes "cord_ok (Some x)" "LEN x < 2 ^ 63" "all_strings x"
    and "cord_ok (Some y)" "LEN y < 2 ^ 63" "all_strings y"
  shows "\<exists>r. CORD_cmp (Some x) (Some y) = Inr r \<and> (r = 0 \<longleftrightarrow> chars x = chars y)"
  using CORD_cmp_strings [OF assms] agrees_zero by blast

lemma CORD_cmp_compares_strings_witness:
  "\<exists>r. CORD_cmp (Some (Conc 1 1 2 (Str ''a'') (Str ''b''))) (Some (Str ''ab'')) = Inr r \<and> r = 0"
  using CORD_cmp_compares_strings [of "Conc 1 1 2 (Str ''a'') (Str ''b'')" "Str ''ab''"]
  by (auto simp: cord_ok_def MAX_LEFT_LEN_def MAX_DEPTH_def)

text \<open>
  \<open>CORD_chr\<close> and \<open>CORD_rchr\<close> find the first occurrence at or after \<open>i\<close> and the last
  at or before \<open>i\<close> of a character other than NUL.
\<close>

theorem CORD_chr_rchr_find:
  assumes "cord_ok x" "i < CORD_len x" "CORD_len x < 2 ^ 64" "char_of_int c \<noteq> NUL"
  defines "t \<equiv> char_of_int c"
  shows "CORD_chr x i c = Inr (if t \<in> set (drop i (cord_chars x))
      then i + length (takeWhile (\<lambda>d. d \<noteq> t) (drop i (cord_chars x))) else CORD_NOT_FOUND) \<and>
    CORD_rchr x i c = Inr (if t \<in> set (take (Suc i) (cord_chars x))
      then i - length (takeWhile (\<lambda>d. d \<noteq> t) (rev (take (Suc i) (cord_chars x)))) else CORD_NOT_FOUND)"
  using CORD_chr_ok [OF assms(1-3) refl assms(4)] CORD_rchr_ok [OF assms(1-3) refl]
  by (simp add: t_def Let_def)

lemma CORD_chr_rchr_find_witness:
  "CORD_chr (Some (Str ''abab'')) 1 97 = Inr 2 \<and> CORD_rchr (Some (Str ''abab'')) 1 97 = Inr 0"
proof -
  have "char_of_int 97 = CHR ''a''" by (simp add: char_of_int_def char_of_def bit_iff_odd)
  with CORD_chr_rchr_find [of "Some (Str ''abab'')" 1 97] show ?thesis by simp
qed

section \<open>Conversions\<close>

text \<open>
  C9: a C string without NULs made into a cord by \<open>CORD_from_char_star\<close> and copied back by
  \<open>CORD_to_char_star\<close> is unchanged; \<open>CORD_to_char_star\<close> of any legal cord, with
  concatenations, function leaves and NULs in it, fills a block of one byte more than the text with
  the text and a terminator; and if the text has no NUL, \<open>CORD_from_char_star\<close> of the copy
  is a legal cord with the same text.
\<close>

theorem char_star_round_trip:
  assumes "nul_free s" "cord_ok x"
  shows "rbind (CORD_from_char_star s) CORD_to_char_star = Inr s \<and>
    CORD_to_char_star x = Inr (cord_chars x) \<and>
    (nul_free (cord_chars x) \<longrightarrow>
      (\<exists>z. rbind (CORD_to_char_star x) CORD_from_char_star = Inr z \<and> cord_ok z \<and> cord_chars z = cord_chars x))"
proof -
  note to = CORD_to_char_star_ok [OF cord_ok_wf]
  obtain z where z: "CORD_from_char_star s = Inr z" "cord_ok z" "cord_chars z = s"
    by (rule CORD_from_char_star_ok [OF assms(1)])
  have "\<exists>z. CORD_from_char_star (cord_chars x) = Inr z \<and> cord_ok z \<and> cord_chars z = cord_chars x"
    if "nul_free (cord_chars x)"
    by (rule CORD_from_char_star_ok [OF that]) blast
  then show ?thesis using z to [OF z(2)] to [OF assms(2)] by simp
qed

lemma char_star_round_trip_witness:
  "CORD_to_char_star (Some (Conc 1 2 5 (Str ''ab'') (Str ''cde''))) = Inr ''abcde'' \<and>
   rbind (CORD_from_char_star ''abc'') CORD_to_char_star = Inr ''abc''"
proof -
  have "cord_ok (Some (Conc 1 2 5 (Str ''ab'') (Str ''cde'')))"
    by (simp add: cord_ok_def MAX_LEFT_LEN_def MAX_DEPTH_def)
  from char_star_round_trip [OF _ this, of "''abc''"] show ?thesis by simp
qed

text \<open>
  \<open>CORD_from_file\<close>, whether it reads the file eagerly or through the cache, makes a
  cord whose text is the contents of the file.
\<close>

theorem CORD_from_file_contents:
  assumes "length (contents f) < 2 ^ 63"
  shows "\<exists>z. CORD_from_file f = Inr z \<and> cord_ok z \<and> cord_chars z = contents f"
  using assms by (rule CORD_from_file_ok)

lemma CORD_from_file_contents_witness:
  "\<exists>z. CORD_from_file \<lparr>contents = [CHR ''a'', NUL, NUL, CHR ''b''], offset = 3\<rparr> = Inr z \<and>
    cord_chars z = [CHR ''a'', NUL, NUL, CHR ''b'']"
  using CORD_from_file_contents [of "\<lparr>contents = [CHR ''a'', NUL, NUL, CHR ''b''], offset = 3\<rparr>"] by auto

text \<open>
  C10: any sequence of reads of a lazily read file, whatever cache lines it evicts and in
  whatever order, returns the characters of the file, and keeps the cache coherent.
\<close>

theorem lazy_file_reads:
  assumes "lf_ok st" "\<forall>i\<in>set js. i < length (contents (lf_file st))"
  shows "\<exists>st'. lf_reads js st = Inr (map ((!) (contents (lf_file st))) js, st') \<and> lf_ok st'"
  using lf_reads_ok [OF assms] by blast

lemma lazy_file_reads_witness:
  "\<exists>st'. lf_reads [1, 0] (lf_init \<lparr>contents = ''xy'', offset = 0\<rparr>) = Inr (''yx'', st') \<and> lf_ok st'"
  using lazy_file_reads [of "lf_init \<lparr>contents = ''xy'', offset = 0\<rparr>" "[1, 0]"]
  by (auto simp: lf_init_ok)

text \<open>
  C11: \<open>CORD_vsprintf\<close> on a format of literal characters, \<open>%%\<close>, \<open>%c\<close>, \<open>%s\<close> and \<open>%r\<close>
  produces the text the format stands for, and returns its length.
\<close>

theorem CORD_vsprintf_plain:
  assumes "cord_ok format" "CORD_len format < 2 ^ 63" "nul_free (cord_chars format)"
    "fmt (cord_chars format) args = Some u" "length u < 2 ^ 31"
  shows "\<exists>out. CORD_vsprintf vs format args = Inr (Some (out, int (length u), [])) \<and> cord_ok out \<and> cord_chars out = u"
  using CORD_vsprintf_ok [OF assms(1-4), of vs] assms(5) by (simp add: CORD_LIMIT_def)

lemma CORD_vsprintf_plain_witness:
  "\<exists>out. CORD_vsprintf (\<lambda>_ _. None) (Some (Str ''%s=%%'')) [VaPtr ''ab''] = Inr (Some (out, 4, [])) \<and>
    cord_chars out = ''ab=%''"
  using CORD_vsprintf_plain [of "Some (Str ''%s=%%'')" "[VaPtr ''ab'']" "''ab=%''" "\<lambda>_ _. None"] by auto

text \<open>
  The copy of a conversion specification never overruns its buffer of
  \<open>CONV_SPEC_LEN + 1\<close> bytes.
\<close>

theorem conv_spec_fits:
  assumes "extract_conv_spec source = Inr (source', Some (spec, cv))"
  shows "length spec \<le> CONV_SPEC_LEN"
  using assms by (rule extract_conv_spec_bound)

lemma conv_spec_fits_witness:
  "\<exists>p q spec cv. CORD_set_pos fresh_pos (Some (Str ''5d'')) 0 = Inr p \<and>
    extract_conv_spec p = Inr (q, Some (spec, cv)) \<and> length spec \<le> CONV_SPEC_LEN"
proof -
  let ?p = "fresh_pos\<lparr>path := (path fresh_pos)[0 := Some \<lparr>pe_cord = Str ''5d'', pe_start_pos = 0\<rparr>],
      cur_leaf := Some (LeafString ''5d''), cur_end := 2\<rparr>"
  have p: "CORD_set_pos fresh_pos (Some (Str ''5d'')) 0 = Inr ?p"
    by (simp add: pos_eval fresh_pos_def)
  have "\<exists>q spec cv. extract_conv_spec ?p = Inr (q, Some (spec, cv))"
    by (simp add: pos_eval fresh_pos_def extract_conv_spec_def extract_loop.simps conv_init_def conv_char_def
        CONV_SPEC_LEN_def add_digit_def)
  with conv_spec_fits p show ?thesis by blast
qed

end
