(* ===== verification/Iron_Mem.thy ===== *)
theory Iron_Mem
  imports Prelude
begin

text \<open>
  The memory that the Ironclad headers (\<^verbatim>\<open>include/ironclad/*.hpp\<close>) point into: blocks of bytes
  at addresses, with reads and writes that fail outside a live block. The functions of the C
  library that the headers call (\<open>memcpy\<close>, \<open>strlen\<close> and their like) are written over it as
  the C standard describes them.
\<close>

section \<open>Blocks\<close>

record block =
  bk_base :: nat
  bk_bytes :: "8 word list"

type_synonym mem = "block list"

definition covers :: "nat \<Rightarrow> nat \<Rightarrow> block \<Rightarrow> bool" where
  "covers a n b \<longleftrightarrow> bk_base b \<le> a \<and> a + n \<le> bk_base b + length (bk_bytes b)"

text \<open>The null pointer is address 0; no block contains it, none wraps around, none overlaps another.\<close>

fun mem_ok :: "mem \<Rightarrow> bool" where
  "mem_ok [] \<longleftrightarrow> True"
| "mem_ok (b # m) \<longleftrightarrow>
     0 < bk_base b \<and> bk_base b + length (bk_bytes b) \<le> size_max \<and>
     (\<forall>c\<in>set m. bk_base b + length (bk_bytes b) \<le> bk_base c \<or> bk_base c + length (bk_bytes c) \<le> bk_base b) \<and>
     mem_ok m"

definition live :: "mem \<Rightarrow> nat \<Rightarrow> nat \<Rightarrow> bool" where
  "live m a n \<longleftrightarrow> n = 0 \<or> (\<exists>b\<in>set m. covers a n b)"

fun rd :: "mem \<Rightarrow> nat \<Rightarrow> nat \<Rightarrow> 8 word list res" where
  "rd [] a n = (if n = 0 then Inr [] else Inl OutOfBounds)"
| "rd (b # m) a n =
     (if n = 0 then Inr []
      else if covers a n b then Inr (take n (drop (a - bk_base b) (bk_bytes b)))
      else rd m a n)"

fun wr :: "mem \<Rightarrow> nat \<Rightarrow> 8 word list \<Rightarrow> mem res" where
  "wr [] a vs = (if vs = [] then Inr [] else Inl OutOfBounds)"
| "wr (b # m) a vs =
     (if vs = [] then Inr (b # m)
      else if covers a (length vs) b then
        let k = a - bk_base b
        in Inr (b\<lparr>bk_bytes := take k (bk_bytes b) @ vs @ drop (k + length vs) (bk_bytes b)\<rparr> # m)
      else rbind (wr m a vs) (\<lambda>m. Inr (b # m)))"

text \<open>The byte at an address, if it is live.\<close>

fun byte_at :: "mem \<Rightarrow> nat \<Rightarrow> 8 word option" where
  "byte_at [] a = None"
| "byte_at (b # m) a = (if covers a 1 b then Some (bk_bytes b ! (a - bk_base b)) else byte_at m a)"

definition layout :: "mem \<Rightarrow> (nat \<times> nat) list" where
  "layout m = map (\<lambda>b. (bk_base b, length (bk_bytes b))) m"

text \<open>The bytes from an address to the end of its block.\<close>

fun rest :: "mem \<Rightarrow> nat \<Rightarrow> 8 word list" where
  "rest [] a = []"
| "rest (b # m) a = (if covers a 1 b then drop (a - bk_base b) (bk_bytes b) else rest m a)"

section \<open>Library functions\<close>

text \<open>\<open>malloc\<close> at an address the allocator chose, and \<open>free\<close>.\<close>

definition place :: "mem \<Rightarrow> nat \<Rightarrow> 8 word list \<Rightarrow> mem" where
  "place m a vs = \<lparr>bk_base = a, bk_bytes = vs\<rparr> # m"

definition c_free :: "mem \<Rightarrow> nat \<Rightarrow> mem res" where
  "c_free m a =
     (if a = 0 then Inr m
      else if a \<in> set (map bk_base m) then Inr (filter (\<lambda>b. bk_base b \<noteq> a) m)
      else Inl BadArg)"

definition c_string :: "mem \<Rightarrow> nat \<Rightarrow> 8 word list res" where
  "c_string m a =
     (let vs = rest m a in if 0 \<in> set vs then Inr (takeWhile (\<lambda>v. v \<noteq> 0) vs) else Inl OutOfBounds)"

definition c_strlen :: "mem \<Rightarrow> nat \<Rightarrow> nat res" where
  "c_strlen m a = rbind (c_string m a) (\<lambda>s. Inr (length s))"

text \<open>\<open>memchr\<close> reads one byte after the other and stops at the first match.\<close>

definition c_memchr :: "mem \<Rightarrow> nat \<Rightarrow> 8 word \<Rightarrow> nat \<Rightarrow> nat option res" where
  "c_memchr m a c n =
     (let vs = take n (rest m a); k = length (takeWhile (\<lambda>v. v \<noteq> c) vs)
      in if k < length vs then Inr (Some (a + k)) else if length vs = n then Inr None else Inl OutOfBounds)"

definition c_memset :: "mem \<Rightarrow> nat \<Rightarrow> 8 word \<Rightarrow> nat \<Rightarrow> mem res" where
  "c_memset m a c n = wr m a (replicate n c)"

definition c_memmove :: "mem \<Rightarrow> nat \<Rightarrow> nat \<Rightarrow> nat \<Rightarrow> mem res" where
  "c_memmove m d s n = rbind (rd m s n) (wr m d)"

text \<open>\<open>memcpy\<close> of overlapping ranges is undefined.\<close>

definition c_memcpy :: "mem \<Rightarrow> nat \<Rightarrow> nat \<Rightarrow> nat \<Rightarrow> mem res" where
  "c_memcpy m d s n = (if 0 < n \<and> d < s + n \<and> s < d + n then Inl BadArg else c_memmove m d s n)"

text \<open>The sign of a comparison of bytes; the standard promises no more than the sign.\<close>

fun cmp_bytes :: "8 word list \<Rightarrow> 8 word list \<Rightarrow> int" where
  "cmp_bytes [] [] = 0"
| "cmp_bytes [] (w # ws) = -1"
| "cmp_bytes (v # vs) [] = 1"
| "cmp_bytes (v # vs) (w # ws) = (if v < w then -1 else if w < v then 1 else cmp_bytes vs ws)"

definition c_memcmp :: "mem \<Rightarrow> nat \<Rightarrow> nat \<Rightarrow> nat \<Rightarrow> int res" where
  "c_memcmp m a b n = rbind (rd m a n) (\<lambda>v. rbind (rd m b n) (\<lambda>w. Inr (cmp_bytes v w)))"

definition c_strcmp2 :: "mem \<Rightarrow> nat \<Rightarrow> nat \<Rightarrow> int res" where
  "c_strcmp2 m a b = rbind (c_string m a) (\<lambda>v. rbind (c_string m b) (\<lambda>w. Inr (cmp_bytes v w)))"

text \<open>The first \<open>n\<close> bytes of an array, up to a NUL if there is one.\<close>

definition c_nstring :: "mem \<Rightarrow> nat \<Rightarrow> nat \<Rightarrow> 8 word list res" where
  "c_nstring m a n =
     (let vs = take n (rest m a); s = takeWhile (\<lambda>v. v \<noteq> 0) vs
      in if length s < length vs \<or> length vs = n then Inr s else Inl OutOfBounds)"

definition c_strncmp :: "mem \<Rightarrow> nat \<Rightarrow> nat \<Rightarrow> nat \<Rightarrow> int res" where
  "c_strncmp m a b n = rbind (c_nstring m a n) (\<lambda>v. rbind (c_nstring m b n) (\<lambda>w. Inr (cmp_bytes v w)))"

definition c_strcpy :: "mem \<Rightarrow> nat \<Rightarrow> nat \<Rightarrow> mem res" where
  "c_strcpy m d s = rbind (c_string m s) (\<lambda>t. wr m d (t @ [0]))"

definition c_strncpy :: "mem \<Rightarrow> nat \<Rightarrow> nat \<Rightarrow> nat \<Rightarrow> mem res" where
  "c_strncpy m d s n = rbind (c_nstring m s n) (\<lambda>t. wr m d (t @ replicate (n - length t) 0))"

definition c_strcat :: "mem \<Rightarrow> nat \<Rightarrow> nat \<Rightarrow> mem res" where
  "c_strcat m d s =
     rbind (c_string m d) (\<lambda>u. rbind (c_string m s) (\<lambda>t. wr m (d + length u) (t @ [0])))"

definition c_strncat :: "mem \<Rightarrow> nat \<Rightarrow> nat \<Rightarrow> nat \<Rightarrow> mem res" where
  "c_strncat m d s n =
     rbind (c_string m d) (\<lambda>u. rbind (c_nstring m s n) (\<lambda>t. wr m (d + length u) (t @ [0])))"

definition c_strchr2 :: "mem \<Rightarrow> nat \<Rightarrow> 8 word \<Rightarrow> nat option res" where
  "c_strchr2 m a c =
     rbind (c_string m a) (\<lambda>s.
       let k = length (takeWhile (\<lambda>v. v \<noteq> c) (s @ [0]))
       in Inr (if k \<le> length s then Some (a + k) else None))"

section \<open>Laws\<close>

lemma layout_length: "layout m = layout m' \<Longrightarrow> length m = length m'"
  by (metis layout_def length_map)

lemma layout_Cons [simp]: "layout (b # m) = (bk_base b, length (bk_bytes b)) # layout m"
  by (simp add: layout_def)

lemma live_layout: "live m a n \<longleftrightarrow> n = 0 \<or> (\<exists>(b, k)\<in>set (layout m). b \<le> a \<and> a + n \<le> b + k)"
  by (auto simp: live_def covers_def layout_def)

lemma mem_ok_layout: "layout m = layout m' \<Longrightarrow> mem_ok m = mem_ok m'"
proof (induction m arbitrary: m')
  case (Cons b m)
  then obtain c m2 where m': "m' = c # m2" by (cases m') (auto simp: layout_def)
  have "(\<forall>c\<in>set m. P (bk_base c) (length (bk_bytes c))) = (\<forall>(b, k)\<in>set (layout m). P b k)" for P m
    by (auto simp: layout_def)
  from this [of m "\<lambda>x k. bk_base b + length (bk_bytes b) \<le> x \<or> x + k \<le> bk_base b"]
    this [of m2 "\<lambda>x k. bk_base b + length (bk_bytes b) \<le> x \<or> x + k \<le> bk_base b"]
    Cons.prems Cons.IH [of m2] m' show ?case by simp
qed (simp add: layout_def)

lemma live_le: "live m a n \<Longrightarrow> b + k \<le> a + n \<Longrightarrow> a \<le> b \<Longrightarrow> live m b k"
  unfolding live_def covers_def by (cases "k = 0"; cases "n = 0") force+

lemma live_zero [simp]: "live m a 0"
  by (simp add: live_def)

lemma live_pos: "live m a n \<Longrightarrow> 0 < n \<Longrightarrow> mem_ok m \<Longrightarrow> 0 < a \<and> a + n \<le> size_max"
  by (induction m) (auto simp: live_def covers_def)

lemma rd_live: "live m a n \<Longrightarrow> \<exists>vs. rd m a n = Inr vs \<and> length vs = n"
  by (induction m) (auto simp: live_def covers_def min_def)

lemma rd_not_live: "\<not> live m a n \<Longrightarrow> rd m a n = Inl OutOfBounds"
  by (induction m) (auto simp: live_def)

lemma rd_eq_Inr: "rd m a n = Inr vs \<Longrightarrow> live m a n \<and> length vs = n"
  using rd_live [of m a n] rd_not_live [of m a n] by (cases "live m a n") auto

lemma wr_live: "live m a (length vs) \<Longrightarrow> \<exists>m'. wr m a vs = Inr m' \<and> layout m' = layout m"
proof (induction m)
  case (Cons b m)
  show ?case
  proof (cases "vs = [] \<or> covers a (length vs) b")
    case True
    then show ?thesis by (auto simp: covers_def Let_def)
  next
    case False
    with Cons.prems have "live m a (length vs)" by (auto simp: live_def)
    with Cons.IH False show ?thesis by auto
  qed
qed (simp add: live_def)

lemma wr_not_live: "\<not> live m a (length vs) \<Longrightarrow> wr m a vs = Inl OutOfBounds"
  by (induction m) (auto simp: live_def)

lemma wr_layout: "wr m a vs = Inr m' \<Longrightarrow> layout m' = layout m \<and> live m a (length vs)"
  using wr_live [of m a vs] wr_not_live [of m a vs] by (cases "live m a (length vs)") auto

lemma byte_at_live: "(byte_at m a = None) = (\<not> live m a 1)"
  by (induction m) (auto simp: live_def)

text \<open>In a memory without overlaps the block of a byte does not matter.\<close>

lemma byte_at_block:
  "mem_ok m \<Longrightarrow> b \<in> set m \<Longrightarrow> covers a 1 b \<Longrightarrow> byte_at m a = Some (bk_bytes b ! (a - bk_base b))"
proof (induction m)
  case (Cons c m)
  then have "covers a 1 c \<longrightarrow> b = c" by (fastforce simp: covers_def)
  with Cons show ?case by auto
qed simp

definition slice :: "mem \<Rightarrow> nat \<Rightarrow> nat \<Rightarrow> 8 word list" where
  "slice m a n = map (\<lambda>i. the (byte_at m (a + i))) [0..<n]"

lemma length_slice [simp]: "length (slice m a n) = n"
  by (simp add: slice_def)

lemma nth_slice [simp]: "i < n \<Longrightarrow> slice m a n ! i = the (byte_at m (a + i))"
  by (simp add: slice_def)

lemma slice_zero [simp]: "slice m a 0 = []"
  by (simp add: slice_def)

lemma slice_add: "slice m a (n + k) = slice m a n @ slice m (a + n) k"
  by (rule nth_equalityI) (auto simp: nth_append)

lemma rd_block: "rd m a n = Inr vs \<Longrightarrow> 0 < n \<Longrightarrow> \<exists>b\<in>set m. covers a n b \<and> vs = take n (drop (a - bk_base b) (bk_bytes b))"
  by (induction m) (auto split: if_splits)

lemma rd_slice: 
  assumes "mem_ok m" "live m a n"
  shows "rd m a n = Inr (slice m a n)"
proof (cases "n = 0")
  case True
  then show ?thesis by (cases m) auto
next
  case False
  obtain vs where vs: "rd m a n = Inr vs" "length vs = n" using rd_live [OF assms(2)] by auto
  then obtain b where b: "b \<in> set m" "covers a n b" "vs = take n (drop (a - bk_base b) (bk_bytes b))"
    using rd_block False by blast
  have "vs = slice m a n"
  proof (rule nth_equalityI)
    fix i assume i: "i < length vs"
    with b(2) vs(2) have "covers (a + i) 1 b" by (auto simp: covers_def)
    with byte_at_block [OF assms(1) b(1)] b vs(2) i show "vs ! i = slice m a n ! i"
      by (simp add: covers_def)
  qed (simp add: vs(2))
  with vs show ?thesis by simp
qed

lemma wr_byte_at:
  "mem_ok m \<Longrightarrow> wr m a vs = Inr m' \<Longrightarrow>
    byte_at m' x = (if a \<le> x \<and> x < a + length vs then Some (vs ! (x - a)) else byte_at m x)"
proof (induction m arbitrary: m')
  case (Cons b m)
  consider "vs = []" | "vs \<noteq> []" "covers a (length vs) b" | "\<not> (vs = [] \<or> covers a (length vs) b)" by blast
  then show ?case
  proof cases
    case 1
    with Cons.prems show ?thesis by auto
  next
    case 2
    let ?k = "a - bk_base b"
    have m': "m' = b\<lparr>bk_bytes := take ?k (bk_bytes b) @ vs @ drop (?k + length vs) (bk_bytes b)\<rparr> # m"
      using Cons.prems(2) 2 by (simp add: Let_def)
    have a: "bk_base b \<le> a" "a + length vs \<le> bk_base b + length (bk_bytes b)"
      using 2 by (auto simp: covers_def)
    show ?thesis
    proof (cases "covers x 1 b")
      case True
      then have "(take ?k (bk_bytes b) @ vs @ drop (?k + length vs) (bk_bytes b)) ! (x - bk_base b) =
          (if a \<le> x \<and> x < a + length vs then vs ! (x - a) else bk_bytes b ! (x - bk_base b))"
        using a by (auto simp: covers_def nth_append min_def)
      with True a show ?thesis by (simp add: m' covers_def)
    next
      case False
      with a show ?thesis by (auto simp: m' covers_def)
    qed
  next
    case 3
    then obtain m2 where m2: "wr m a vs = Inr m2" "m' = b # m2"
      using Cons.prems(2) by (auto simp: rbind_eq_Inr)
    then obtain c where c: "c \<in> set m" "covers a (length vs) c"
      using wr_layout [OF m2(1)] 3 by (auto simp: live_def)
    with Cons.prems(1) have "a \<le> x \<and> x < a + length vs \<Longrightarrow> \<not> covers x 1 b"
      by (fastforce simp: covers_def)
    with Cons.IH [OF _ m2(1)] Cons.prems(1) m2(2) show ?thesis by auto
  qed
qed (auto split: if_splits)

text \<open>The two laws of a store: a read sees the write before it, and nothing else changes.\<close>

lemma slice_wr:
  assumes "mem_ok m" "wr m a vs = Inr m'"
  shows "slice m' a (length vs) = vs"
  by (rule nth_equalityI) (simp_all add: wr_byte_at [OF assms])

lemma slice_wr_other:
  assumes "mem_ok m" "wr m a vs = Inr m'" "b + n \<le> a \<or> a + length vs \<le> b"
  shows "slice m' b n = slice m b n"
  by (rule nth_equalityI) (use assms(3) in \<open>auto simp: wr_byte_at [OF assms(1,2)]\<close>)

lemma wr_ok:
  assumes "mem_ok m" "live m a (length vs)"
  obtains m' where "wr m a vs = Inr m'" "layout m' = layout m" "mem_ok m'"
  using wr_live [OF assms(2)] mem_ok_layout assms(1) by metis

lemma rest_block: "live m a 1 \<Longrightarrow> \<exists>b\<in>set m. covers a 1 b \<and> rest m a = drop (a - bk_base b) (bk_bytes b)"
  by (induction m) (auto simp: live_def)

text \<open>The bytes up to the end of the block are live and are what a read returns.\<close>

lemma rest_live: "live m a (length (rest m a))"
proof (cases "live m a 1")
  case True
  then obtain b where "b \<in> set m" "covers a 1 b" "rest m a = drop (a - bk_base b) (bk_bytes b)"
    using rest_block by blast
  then show ?thesis by (auto simp: live_def covers_def)
next
  case False
  then have "rest m a = []" by (induction m) (auto simp: live_def)
  then show ?thesis by simp
qed

lemma rest_slice:
  assumes "mem_ok m" "live m a n"
  shows "n \<le> length (rest m a)" "take n (rest m a) = slice m a n"
proof -
  have "n \<le> length (rest m a) \<and> take n (rest m a) = slice m a n"
  proof (cases "n = 0")
    case False
    then have "live m a 1" using assms(2) live_le [of m a n a 1] by simp
    then obtain c where c: "c \<in> set m" "covers a 1 c" "rest m a = drop (a - bk_base c) (bk_bytes c)"
      using rest_block by blast
    obtain b where b: "b \<in> set m" "covers a n b" using assms(2) False by (auto simp: live_def)
    have one: "b = c \<or> bk_base b + length (bk_bytes b) \<le> bk_base c \<or> bk_base c + length (bk_bytes c) \<le> bk_base b"
      if "mem_ok m" "b \<in> set m" "c \<in> set m" for b c m
      using that by (induction m) auto
    have "b = c" using one [OF assms(1) b(1) c(1)] b(2) c(2) False by (auto simp: covers_def)
    moreover have "rest m a ! i = the (byte_at m (a + i))" if "i < length (rest m a)" for i
    proof -
      have "covers (a + i) 1 c" using that c by (auto simp: covers_def)
      with byte_at_block [OF assms(1) c(1)] c that show ?thesis by (simp add: covers_def)
    qed
    ultimately show ?thesis
      using b(2) c(2,3) by (auto simp: covers_def intro!: nth_equalityI)
  qed simp
  then show "n \<le> length (rest m a)" "take n (rest m a) = slice m a n" by auto
qed

end
