(* ===== verification/Iron_Ptr.thy ===== *)
theory Iron_Ptr
  imports Iron_Mem
begin

text \<open>
  The singleton pointers of the Ironclad headers: \<open>ptr<T>\<close> of \<^verbatim>\<open>ptr.hpp\<close>, which holds addresses
  of the heap and of globals, and \<open>lptr<T>\<close> of \<^verbatim>\<open>lptr.hpp\<close>, which may also hold addresses of the
  stack. An object of type \<open>T\<close> has the size \<open>sz\<close>. The macro \<open>GETSP\<close> reads the stack pointer;
  a constructor that uses it takes its value as the argument \<open>sp\<close>. An \<open>assert\<close> that fails is
  the error \<open>Abort\<close>.
\<close>

unbundle bit_operations_syntax

definition c_assert :: "string \<Rightarrow> bool \<Rightarrow> 'a res \<Rightarrow> 'a res" where
  "c_assert msg c r = (if c then r else Inl (Abort msg))"

lemma c_assert_True [simp]: "c_assert msg True r = r"
  by (simp add: c_assert_def)

lemma c_assert_False [simp]: "c_assert msg False r = Inl (Abort msg)"
  by (simp add: c_assert_def)

lemma c_assert_Inr: "c_assert msg c r = Inr x \<longleftrightarrow> c \<and> r = Inr x"
  by (simp add: c_assert_def)

text \<open>The difference of two addresses in objects of size \<open>sz\<close>; they lie in one array.\<close>

definition ptr_difference :: "nat \<Rightarrow> nat \<Rightarrow> nat \<Rightarrow> int" where
  "ptr_difference sz a b = (int a - int b) div int sz"

section \<open>\<open>lptr\<close>\<close>

record lptr =
  l_data :: nat
  l_tb :: nat

definition lptr_null :: "nat \<Rightarrow> lptr" where
  "lptr_null sp = \<lparr>l_data = 0, l_tb = sp\<rparr>"

definition lptr_of_raw :: "nat \<Rightarrow> nat \<Rightarrow> lptr" where
  "lptr_of_raw sp new_data =
     (let tb = sp; tb = (if new_data < tb then tb OR 1 else tb) in \<lparr>l_data = new_data, l_tb = tb\<rparr>)"

text \<open>The copy constructors, from \<open>lptr<T>\<close> and from \<open>lptr<U>\<close>.\<close>

definition lptr_copy :: "nat \<Rightarrow> lptr \<Rightarrow> lptr" where
  "lptr_copy sp other =
     (let tb = sp; tb = (if l_data other < tb then tb OR 1 else tb) in \<lparr>l_data = l_data other, l_tb = tb\<rparr>)"

definition lptr_notOnStack :: "lptr \<Rightarrow> bool" where
  "lptr_notOnStack p \<longleftrightarrow> l_tb p AND 1 \<noteq> 0"

text \<open>\<open>operator->\<close> and \<open>operator*\<close> give the address of the object they reach.\<close>

definition lptr_deref :: "lptr \<Rightarrow> nat res" where
  "lptr_deref p = c_assert ''data != NULL'' (l_data p \<noteq> 0) (Inr (l_data p))"

definition lptr_minus :: "nat \<Rightarrow> lptr \<Rightarrow> lptr \<Rightarrow> int" where
  "lptr_minus sz p q = ptr_difference sz (l_data p) (l_data q)"

definition lptr_assign :: "lptr \<Rightarrow> lptr \<Rightarrow> lptr res" where
  "lptr_assign self other =
     c_assert ''other.data == NULL || (other.tb & 1) || (tb ^ 1) <= (size_t)other.data''
       (l_data other = 0 \<or> l_tb other AND 1 \<noteq> 0 \<or> (l_tb self XOR 1) \<le> l_data other)
       (Inr \<lparr>l_data = l_data other,
          l_tb = (if l_tb other XOR 1 \<noteq> 0 then l_tb self OR 1
                  else if l_tb self AND 1 \<noteq> 0 then l_tb self XOR 1 else l_tb self OR 1)\<rparr>)"

definition lptr_can_accept :: "lptr \<Rightarrow> nat \<Rightarrow> bool" where
  "lptr_can_accept p addr \<longleftrightarrow> addr = 0 \<or> (l_tb p XOR 1) \<le> addr"

definition lptr_convert_to_raw :: "lptr \<Rightarrow> nat" where
  "lptr_convert_to_raw p = l_data p"

text \<open>The conversion to \<open>unspecified_bool_type\<close> and \<open>operator!\<close>.\<close>

definition lptr_bool :: "lptr \<Rightarrow> bool" where
  "lptr_bool p \<longleftrightarrow> l_data p \<noteq> 0"

definition lptr_not :: "lptr \<Rightarrow> bool" where
  "lptr_not p \<longleftrightarrow> l_data p = 0"

definition lptr_eq :: "lptr \<Rightarrow> lptr \<Rightarrow> bool" where
  "lptr_eq p q \<longleftrightarrow> l_data p = l_data q"

definition lptr_eq_raw :: "lptr \<Rightarrow> nat \<Rightarrow> bool" where
  "lptr_eq_raw p a \<longleftrightarrow> l_data p = a"

definition lptr_ne :: "lptr \<Rightarrow> lptr \<Rightarrow> bool" where
  "lptr_ne p q \<longleftrightarrow> l_data p \<noteq> l_data q"

definition lptr_ne_raw :: "lptr \<Rightarrow> nat \<Rightarrow> bool" where
  "lptr_ne_raw p a \<longleftrightarrow> l_data p \<noteq> a"

section \<open>\<open>ptr\<close>\<close>

record ptr =
  p_data :: nat

definition ptr_null :: ptr where
  "ptr_null = \<lparr>p_data = 0\<rparr>"

definition ptr_of_raw :: "nat \<Rightarrow> ptr" where
  "ptr_of_raw new_data = \<lparr>p_data = new_data\<rparr>"

definition ptr_copy :: "ptr \<Rightarrow> ptr" where
  "ptr_copy other = \<lparr>p_data = p_data other\<rparr>"

text \<open>The conversion to \<open>lptr<T>\<close>, and the constructor from it.\<close>

definition lptr_of_ptr :: "nat \<Rightarrow> ptr \<Rightarrow> lptr" where
  "lptr_of_ptr sp p = (let newPtr = lptr_of_raw sp (p_data p) in newPtr\<lparr>l_tb := l_tb newPtr OR 1\<rparr>)"

definition ptr_of_lptr :: "lptr \<Rightarrow> ptr res" where
  "ptr_of_lptr other =
     (let p = \<lparr>p_data = l_data other\<rparr> in c_assert ''other.notOnStack()'' (lptr_notOnStack other) (Inr p))"

definition ptr_deref :: "ptr \<Rightarrow> nat res" where
  "ptr_deref p = c_assert ''data != NULL'' (p_data p \<noteq> 0) (Inr (p_data p))"

definition ptr_minus :: "nat \<Rightarrow> ptr \<Rightarrow> ptr \<Rightarrow> int" where
  "ptr_minus sz p q = ptr_difference sz (p_data p) (p_data q)"

definition ptr_assign :: "ptr \<Rightarrow> ptr \<Rightarrow> ptr" where
  "ptr_assign self other = self\<lparr>p_data := p_data other\<rparr>"

text \<open>\<open>gc\<close> says whether the library is built with the collector (\<open>_HAVE_BDW_GC\<close>).\<close>

definition ptr_free :: "bool \<Rightarrow> mem \<Rightarrow> ptr \<Rightarrow> (mem \<times> ptr) res" where
  "ptr_free gc m p =
     rbind (if gc then Inr m else c_free m (p_data p)) (\<lambda>m. Inr (m, p\<lparr>p_data := 0\<rparr>))"

definition ptr_convert_to_raw :: "ptr \<Rightarrow> nat" where
  "ptr_convert_to_raw p = p_data p"

definition ptr_bool :: "ptr \<Rightarrow> bool" where
  "ptr_bool p \<longleftrightarrow> p_data p \<noteq> 0"

definition ptr_not :: "ptr \<Rightarrow> bool" where
  "ptr_not p \<longleftrightarrow> p_data p = 0"

definition ptr_eq :: "ptr \<Rightarrow> ptr \<Rightarrow> bool" where
  "ptr_eq p q \<longleftrightarrow> p_data p = p_data q"

definition ptr_eq_raw :: "ptr \<Rightarrow> nat \<Rightarrow> bool" where
  "ptr_eq_raw p a \<longleftrightarrow> p_data p = a"

definition ptr_ne :: "ptr \<Rightarrow> ptr \<Rightarrow> bool" where
  "ptr_ne p q \<longleftrightarrow> p_data p \<noteq> p_data q"

definition ptr_ne_raw :: "ptr \<Rightarrow> nat \<Rightarrow> bool" where
  "ptr_ne_raw p a \<longleftrightarrow> p_data p \<noteq> a"

section \<open>The mark in the lowest bit\<close>

text \<open>
  Stack pointers are even; the lowest bit of \<open>tb\<close> marks an address that is not on the stack.
\<close>

lemma even_or_one: "even (n :: nat) \<Longrightarrow> n OR Suc 0 = Suc n"
  by (simp add: or_Suc_0_eq)

lemma odd_or_one: "odd (n :: nat) \<Longrightarrow> n OR Suc 0 = n"
  by (simp add: or_Suc_0_eq)

lemma even_xor_one: "even (n :: nat) \<Longrightarrow> n XOR Suc 0 = Suc n"
  by (simp add: xor_Suc_0_eq)

lemma odd_xor_one: "odd (n :: nat) \<Longrightarrow> n XOR Suc 0 = n - 1"
  by (simp add: xor_Suc_0_eq)

lemma even_and_one: "even (n :: nat) \<Longrightarrow> n AND Suc 0 = 0"
  by (simp add: and_Suc_0_eq)

lemma odd_and_one: "odd (n :: nat) \<Longrightarrow> n AND Suc 0 = 1"
  by (simp add: and_Suc_0_eq odd_iff_mod_2_eq_one)

lemmas mark_simps = even_or_one odd_or_one even_xor_one odd_xor_one even_and_one odd_and_one mod2_eq_if

lemma lptr_of_raw_even:
  "even sp \<Longrightarrow> lptr_of_raw sp a = \<lparr>l_data = a, l_tb = if a < sp then Suc sp else sp\<rparr>"
  by (simp add: lptr_of_raw_def mark_simps)

lemma lptr_copy_raw: "lptr_copy sp p = lptr_of_raw sp (l_data p)"
  by (simp add: lptr_copy_def lptr_of_raw_def)

lemma lptr_of_raw_mark: "even sp \<Longrightarrow> lptr_notOnStack (lptr_of_raw sp a) = (a < sp)"
  by (simp add: lptr_notOnStack_def lptr_of_raw_even mark_simps)

text \<open>An assignment to a pointer whose bound is \<open>sp\<close>, marked or not.\<close>

lemma lptr_assign_ok:
  assumes "even sp" "l_tb p = sp \<or> l_tb p = Suc sp" "lptr_assign p q = Inr p'"
  shows "l_data p' = l_data q" "l_tb p' = sp \<or> l_tb p' = Suc sp"
    "l_data q = 0 \<or> lptr_notOnStack q \<or> sp \<le> l_data q"
  using assms
  by (auto simp: lptr_assign_def c_assert_Inr lptr_notOnStack_def mark_simps split: if_splits)

end
