(* ===== verification/Iron_Aptr.thy ===== *)
theory Iron_Aptr
  imports Iron_Ptr
begin

text \<open>
  The array pointers of the Ironclad headers: \<open>aptr<T>\<close> of \<^verbatim>\<open>aptr.hpp\<close>, for the heap and globals,
  and \<open>laptr<T>\<close> of \<^verbatim>\<open>laptr.hpp\<close>, which may point into the stack. Both keep a base address, an
  index and a size in elements, both of type \<open>long\<close>, and check the index on every access.
  Arithmetic on them wraps at 64 bits.
\<close>

definition long_wrap :: "int \<Rightarrow> int" where
  "long_wrap i = (i + 2 ^ 63) mod 2 ^ 64 - 2 ^ 63"

definition ulong :: "int \<Rightarrow> int" where
  "ulong i = i mod 2 ^ 64"

text \<open>The address of \<open>data + index\<close> for elements of size \<open>sz\<close>.\<close>

definition elem_addr :: "nat \<Rightarrow> nat \<Rightarrow> int \<Rightarrow> nat" where
  "elem_addr sz data index = nat (ulong (int data + index * int sz))"

text \<open>\<open>BOUNDS_CHECK\<close> and \<open>BOUNDS_CHECK_INDEX\<close> of \<^verbatim>\<open>common.hpp\<close>.\<close>

definition BOUNDS_CHECK :: "int \<Rightarrow> int \<Rightarrow> 'a res \<Rightarrow> 'a res" where
  "BOUNDS_CHECK index bound r = c_assert ''index >= 0 && index < size'' (index \<ge> 0 \<and> index < bound) r"

definition BOUNDS_CHECK_INDEX :: "int \<Rightarrow> int \<Rightarrow> int \<Rightarrow> 'a res \<Rightarrow> 'a res" where
  "BOUNDS_CHECK_INDEX index bound idx r =
     c_assert ''index + idx >= 0 && index + idx < size''
       (long_wrap (index + idx) \<ge> 0 \<and> long_wrap (index + idx) < bound) r"

section \<open>\<open>laptr\<close>\<close>

record laptr =
  la_data :: nat
  la_index :: int
  la_size :: int
  la_tb :: nat

text \<open>
  \<open>this\<close> is the address of the pointer object itself: that, and not the data, is what
  \<open>checkStackBoundGlobal\<close> compares.
\<close>

definition laptr_checkStackBoundGlobal :: "nat \<Rightarrow> laptr \<Rightarrow> laptr" where
  "laptr_checkStackBoundGlobal this p = (if this < la_tb p then p\<lparr>la_tb := la_tb p OR 1\<rparr> else p)"

definition laptr_null :: "nat \<Rightarrow> laptr" where
  "laptr_null sp = \<lparr>la_data = 0, la_index = 0, la_size = 0, la_tb = sp\<rparr>"

definition laptr_make :: "nat \<Rightarrow> nat \<Rightarrow> nat \<Rightarrow> int \<Rightarrow> int \<Rightarrow> laptr" where
  "laptr_make sp this data bound index =
     laptr_checkStackBoundGlobal this \<lparr>la_data = data, la_index = index, la_size = bound, la_tb = sp\<rparr>"

definition laptr_make0 :: "nat \<Rightarrow> nat \<Rightarrow> nat \<Rightarrow> int \<Rightarrow> laptr" where
  "laptr_make0 sp this data bound =
     laptr_checkStackBoundGlobal this \<lparr>la_data = data, la_index = 0, la_size = bound, la_tb = sp\<rparr>"

definition laptr_copy :: "nat \<Rightarrow> nat \<Rightarrow> laptr \<Rightarrow> laptr" where
  "laptr_copy sp this other =
     laptr_checkStackBoundGlobal this
       \<lparr>la_data = la_data other, la_index = la_index other, la_size = la_size other, la_tb = sp\<rparr>"

definition laptr_notOnStack :: "laptr \<Rightarrow> bool" where
  "laptr_notOnStack p \<longleftrightarrow> la_tb p AND 1 \<noteq> 0"

definition laptr_dataNotOnStack :: "laptr \<Rightarrow> nat \<Rightarrow> bool" where
  "laptr_dataNotOnStack p other \<longleftrightarrow> other \<le> la_tb p"

definition laptr_setAsGlobal :: "laptr \<Rightarrow> laptr" where
  "laptr_setAsGlobal p = p\<lparr>la_tb := la_tb p OR 1\<rparr>"

text \<open>\<open>++p\<close>, \<open>--p\<close>, \<open>p++\<close>, \<open>p--\<close>; the last two also return the old pointer, a copy.\<close>

definition laptr_inc :: "laptr \<Rightarrow> laptr" where
  "laptr_inc p = p\<lparr>la_index := long_wrap (la_index p + 1)\<rparr>"

definition laptr_dec :: "laptr \<Rightarrow> laptr" where
  "laptr_dec p = p\<lparr>la_index := long_wrap (la_index p - 1)\<rparr>"

definition laptr_post_inc :: "nat \<Rightarrow> nat \<Rightarrow> laptr \<Rightarrow> laptr \<times> laptr" where
  "laptr_post_inc sp this p = (let ret = laptr_copy sp this p in (ret, laptr_inc p))"

definition laptr_post_dec :: "nat \<Rightarrow> nat \<Rightarrow> laptr \<Rightarrow> laptr \<times> laptr" where
  "laptr_post_dec sp this p = (let ret = laptr_copy sp this p in (ret, laptr_dec p))"

definition laptr_deref :: "nat \<Rightarrow> laptr \<Rightarrow> nat res" where
  "laptr_deref sz p = BOUNDS_CHECK (la_index p) (la_size p) (Inr (elem_addr sz (la_data p) (la_index p)))"

definition laptr_add_assign :: "laptr \<Rightarrow> int \<Rightarrow> laptr" where
  "laptr_add_assign p op = p\<lparr>la_index := long_wrap (la_index p + op)\<rparr>"

definition laptr_sub_assign :: "laptr \<Rightarrow> int \<Rightarrow> laptr" where
  "laptr_sub_assign p op = p\<lparr>la_index := long_wrap (la_index p - op)\<rparr>"

definition laptr_minus :: "nat \<Rightarrow> laptr \<Rightarrow> laptr \<Rightarrow> int" where
  "laptr_minus sz p q =
     ptr_difference sz (elem_addr sz (la_data p) (la_index p)) (elem_addr sz (la_data q) (la_index q))"

definition laptr_sub :: "nat \<Rightarrow> nat \<Rightarrow> laptr \<Rightarrow> nat \<Rightarrow> laptr" where
  "laptr_sub sp this p diff =
     (let new_ptr = laptr_make0 sp this (la_data p) (la_size p)
      in new_ptr\<lparr>la_index := long_wrap (la_index p - int diff)\<rparr>)"

definition laptr_add :: "nat \<Rightarrow> nat \<Rightarrow> laptr \<Rightarrow> nat \<Rightarrow> laptr" where
  "laptr_add sp this p diff =
     (let new_ptr = laptr_make0 sp this (la_data p) (la_size p)
      in new_ptr\<lparr>la_index := long_wrap (la_index p + int diff)\<rparr>)"

definition laptr_assign :: "laptr \<Rightarrow> laptr \<Rightarrow> laptr res" where
  "laptr_assign self other =
     c_assert ''other.data == NULL || (other.tb & 1) || (tb ^ 1) <= (size_t)other.data''
       (la_data other = 0 \<or> la_tb other AND 1 \<noteq> 0 \<or> (la_tb self XOR 1) \<le> la_data other)
       (Inr \<lparr>la_data = la_data other, la_index = la_index other, la_size = la_size other,
          la_tb = (if la_tb other XOR 1 \<noteq> 0 then la_tb self OR 1
                   else if la_tb self AND 1 \<noteq> 0 then la_tb self XOR 1 else la_tb self OR 1)\<rparr>)"

text \<open>\<open>operator[]\<close>; its argument is an \<open>unsigned int\<close>.\<close>

definition laptr_at :: "nat \<Rightarrow> laptr \<Rightarrow> nat \<Rightarrow> nat res" where
  "laptr_at sz p idx =
     c_assert ''data != NULL'' (la_data p \<noteq> 0)
       (BOUNDS_CHECK_INDEX (la_index p) (la_size p) (int idx)
          (Inr (elem_addr sz (la_data p) (long_wrap (la_index p + int idx)))))"

definition laptr_convert_to_raw :: "nat \<Rightarrow> laptr \<Rightarrow> nat" where
  "laptr_convert_to_raw sz p = elem_addr sz (la_data p) (la_index p)"

text \<open>The sum of a \<open>long\<close> and a \<open>size_t\<close> is unsigned, and so are both comparisons.\<close>

definition laptr_spatialCheck :: "nat \<Rightarrow> laptr \<Rightarrow> nat \<Rightarrow> bool" where
  "laptr_spatialCheck sz p numBytes \<longleftrightarrow>
     ulong (la_index p + int (numBytes div sz)) \<ge> 0 \<and> ulong (la_index p + int (numBytes div sz)) \<le> ulong (la_size p)"

definition laptr_bool :: "laptr \<Rightarrow> bool" where
  "laptr_bool p \<longleftrightarrow> la_data p \<noteq> 0"

definition laptr_not :: "laptr \<Rightarrow> bool" where
  "laptr_not p \<longleftrightarrow> la_data p = 0"

definition laptr_offset :: "nat \<Rightarrow> nat \<Rightarrow> laptr \<Rightarrow> nat \<Rightarrow> laptr" where
  "laptr_offset sp this p idx = laptr_make sp this (la_data p) (la_size p) (long_wrap (la_index p + int idx))"

definition lptr_of_laptr :: "nat \<Rightarrow> nat \<Rightarrow> laptr \<Rightarrow> lptr res" where
  "lptr_of_laptr sz sp p =
     (let newPtr = lptr_of_raw sp (elem_addr sz (la_data p) (la_index p))
      in if la_data p \<noteq> 0
         then c_assert ''index >= 0 && index < size'' (la_index p \<ge> 0 \<and> la_index p < la_size p) (Inr newPtr)
         else Inr newPtr)"

text \<open>Comparisons compare the addresses.\<close>

definition laptr_eq :: "nat \<Rightarrow> laptr \<Rightarrow> laptr \<Rightarrow> bool" where
  "laptr_eq sz p q \<longleftrightarrow> elem_addr sz (la_data p) (la_index p) = elem_addr sz (la_data q) (la_index q)"

definition laptr_eq_raw :: "nat \<Rightarrow> laptr \<Rightarrow> nat \<Rightarrow> bool" where
  "laptr_eq_raw sz p a \<longleftrightarrow> elem_addr sz (la_data p) (la_index p) = a"

definition laptr_ne :: "nat \<Rightarrow> laptr \<Rightarrow> laptr \<Rightarrow> bool" where
  "laptr_ne sz p q \<longleftrightarrow> elem_addr sz (la_data p) (la_index p) \<noteq> elem_addr sz (la_data q) (la_index q)"

definition laptr_ne_raw :: "nat \<Rightarrow> laptr \<Rightarrow> nat \<Rightarrow> bool" where
  "laptr_ne_raw sz p a \<longleftrightarrow> elem_addr sz (la_data p) (la_index p) \<noteq> a"

definition laptr_less :: "nat \<Rightarrow> laptr \<Rightarrow> laptr \<Rightarrow> bool" where
  "laptr_less sz p q \<longleftrightarrow> elem_addr sz (la_data p) (la_index p) < elem_addr sz (la_data q) (la_index q)"

definition laptr_le :: "nat \<Rightarrow> laptr \<Rightarrow> laptr \<Rightarrow> bool" where
  "laptr_le sz p q \<longleftrightarrow> elem_addr sz (la_data p) (la_index p) \<le> elem_addr sz (la_data q) (la_index q)"

definition laptr_greater :: "nat \<Rightarrow> laptr \<Rightarrow> laptr \<Rightarrow> bool" where
  "laptr_greater sz p q \<longleftrightarrow> elem_addr sz (la_data p) (la_index p) > elem_addr sz (la_data q) (la_index q)"

definition laptr_ge :: "nat \<Rightarrow> laptr \<Rightarrow> laptr \<Rightarrow> bool" where
  "laptr_ge sz p q \<longleftrightarrow> elem_addr sz (la_data p) (la_index p) \<ge> elem_addr sz (la_data q) (la_index q)"

section \<open>\<open>aptr\<close>\<close>

record aptr =
  a_data :: nat
  a_index :: int
  a_size :: int

definition aptr_null :: aptr where
  "aptr_null = \<lparr>a_data = 0, a_index = 0, a_size = 0\<rparr>"

definition aptr_make0 :: "nat \<Rightarrow> int \<Rightarrow> aptr" where
  "aptr_make0 data bound = \<lparr>a_data = data, a_index = 0, a_size = bound\<rparr>"

definition aptr_make :: "nat \<Rightarrow> int \<Rightarrow> int \<Rightarrow> aptr" where
  "aptr_make data bound index = \<lparr>a_data = data, a_index = index, a_size = bound\<rparr>"

definition aptr_copy :: "aptr \<Rightarrow> aptr" where
  "aptr_copy other = \<lparr>a_data = a_data other, a_index = a_index other, a_size = a_size other\<rparr>"

definition aptr_begin :: "nat \<Rightarrow> aptr \<Rightarrow> nat" where
  "aptr_begin sz p = elem_addr sz (a_data p) (a_index p)"

definition aptr_end :: "nat \<Rightarrow> aptr \<Rightarrow> nat" where
  "aptr_end sz p = elem_addr sz (a_data p) (a_size p)"

definition aptr_from_laptr :: "aptr \<Rightarrow> laptr \<Rightarrow> aptr res" where
  "aptr_from_laptr p other =
     (let p = \<lparr>a_data = la_data other, a_index = la_index other, a_size = la_size other\<rparr>
      in c_assert ''other.notOnStack()'' (laptr_notOnStack other) (Inr p))"

definition aptr_deref :: "nat \<Rightarrow> aptr \<Rightarrow> nat res" where
  "aptr_deref sz p = BOUNDS_CHECK (a_index p) (a_size p) (Inr (elem_addr sz (a_data p) (a_index p)))"

definition aptr_inc :: "aptr \<Rightarrow> aptr" where
  "aptr_inc p = p\<lparr>a_index := long_wrap (a_index p + 1)\<rparr>"

definition aptr_dec :: "aptr \<Rightarrow> aptr" where
  "aptr_dec p = p\<lparr>a_index := long_wrap (a_index p - 1)\<rparr>"

definition aptr_post_inc :: "aptr \<Rightarrow> aptr \<times> aptr" where
  "aptr_post_inc p = (let ret = aptr_copy p in (ret, aptr_inc p))"

definition aptr_post_dec :: "aptr \<Rightarrow> aptr \<times> aptr" where
  "aptr_post_dec p = (let ret = aptr_copy p in (ret, aptr_dec p))"

definition aptr_add_assign :: "aptr \<Rightarrow> int \<Rightarrow> aptr" where
  "aptr_add_assign p op = p\<lparr>a_index := long_wrap (a_index p + op)\<rparr>"

definition aptr_sub_assign :: "aptr \<Rightarrow> int \<Rightarrow> aptr" where
  "aptr_sub_assign p op = p\<lparr>a_index := long_wrap (a_index p - op)\<rparr>"

definition aptr_minus :: "nat \<Rightarrow> aptr \<Rightarrow> aptr \<Rightarrow> int" where
  "aptr_minus sz p q =
     ptr_difference sz (elem_addr sz (a_data p) (a_index p)) (elem_addr sz (a_data q) (a_index q))"

definition aptr_sub :: "aptr \<Rightarrow> nat \<Rightarrow> aptr" where
  "aptr_sub p diff =
     (let new_ptr = aptr_make0 (a_data p) (a_size p) in new_ptr\<lparr>a_index := long_wrap (a_index p - int diff)\<rparr>)"

definition aptr_add :: "aptr \<Rightarrow> nat \<Rightarrow> aptr" where
  "aptr_add p diff =
     (let new_ptr = aptr_make0 (a_data p) (a_size p) in new_ptr\<lparr>a_index := long_wrap (a_index p + int diff)\<rparr>)"

definition aptr_assign :: "aptr \<Rightarrow> aptr \<Rightarrow> aptr" where
  "aptr_assign self other = self\<lparr>a_data := a_data other, a_size := a_size other, a_index := a_index other\<rparr>"

text \<open>\<open>operator[]\<close>; its argument is an \<open>int\<close>.\<close>

definition aptr_at :: "nat \<Rightarrow> aptr \<Rightarrow> int \<Rightarrow> nat res" where
  "aptr_at sz p idx =
     BOUNDS_CHECK_INDEX (a_index p) (a_size p) idx
       (Inr (elem_addr sz (a_data p) (long_wrap (a_index p + idx))))"

definition aptr_free :: "bool \<Rightarrow> mem \<Rightarrow> aptr \<Rightarrow> (mem \<times> aptr) res" where
  "aptr_free gc m p =
     rbind (if gc then Inr m else c_free m (a_data p)) (\<lambda>m. Inr (m, p\<lparr>a_data := 0\<rparr>))"

definition aptr_convert_to_raw :: "nat \<Rightarrow> aptr \<Rightarrow> nat" where
  "aptr_convert_to_raw sz p = elem_addr sz (a_data p) (a_index p)"

text \<open>The first comparison is of \<open>long\<close>, the second of \<open>unsigned long\<close>.\<close>

definition aptr_spatialCheck :: "nat \<Rightarrow> aptr \<Rightarrow> nat \<Rightarrow> bool" where
  "aptr_spatialCheck sz p numBytes \<longleftrightarrow>
     long_wrap (a_index p + int (numBytes div sz)) \<ge> 0 \<and>
     ulong (a_index p + int (numBytes div sz)) \<le> ulong (a_size p)"

definition aptr_bool :: "aptr \<Rightarrow> bool" where
  "aptr_bool p \<longleftrightarrow> a_data p \<noteq> 0"

definition aptr_not :: "aptr \<Rightarrow> bool" where
  "aptr_not p \<longleftrightarrow> a_data p = 0"

definition aptr_offset :: "aptr \<Rightarrow> nat \<Rightarrow> aptr" where
  "aptr_offset p idx =
     (let newPtr = aptr_make0 (a_data p) (a_size p) in newPtr\<lparr>a_index := long_wrap (a_index p + int idx)\<rparr>)"

definition ptr_of_aptr :: "nat \<Rightarrow> aptr \<Rightarrow> ptr res" where
  "ptr_of_aptr sz p =
     (let r = Inr (ptr_of_raw (elem_addr sz (a_data p) (a_index p)))
      in if a_data p \<noteq> 0 then BOUNDS_CHECK (a_index p) (a_size p) r else r)"

definition laptr_of_aptr :: "nat \<Rightarrow> nat \<Rightarrow> aptr \<Rightarrow> laptr" where
  "laptr_of_aptr sp this p =
     (let newPtr = laptr_make sp this (a_data p) (a_size p) (a_index p)
      in newPtr\<lparr>la_tb := la_tb newPtr OR 1\<rparr>)"

definition aptr_eq :: "nat \<Rightarrow> aptr \<Rightarrow> aptr \<Rightarrow> bool" where
  "aptr_eq sz p q \<longleftrightarrow> elem_addr sz (a_data p) (a_index p) = elem_addr sz (a_data q) (a_index q)"

definition aptr_eq_raw :: "nat \<Rightarrow> aptr \<Rightarrow> nat \<Rightarrow> bool" where
  "aptr_eq_raw sz p a \<longleftrightarrow> elem_addr sz (a_data p) (a_index p) = a"

definition aptr_ne :: "nat \<Rightarrow> aptr \<Rightarrow> aptr \<Rightarrow> bool" where
  "aptr_ne sz p q \<longleftrightarrow> elem_addr sz (a_data p) (a_index p) \<noteq> elem_addr sz (a_data q) (a_index q)"

definition aptr_ne_raw :: "nat \<Rightarrow> aptr \<Rightarrow> nat \<Rightarrow> bool" where
  "aptr_ne_raw sz p a \<longleftrightarrow> elem_addr sz (a_data p) (a_index p) \<noteq> a"

definition aptr_less :: "nat \<Rightarrow> aptr \<Rightarrow> aptr \<Rightarrow> bool" where
  "aptr_less sz p q \<longleftrightarrow> elem_addr sz (a_data p) (a_index p) < elem_addr sz (a_data q) (a_index q)"

definition aptr_le :: "nat \<Rightarrow> aptr \<Rightarrow> aptr \<Rightarrow> bool" where
  "aptr_le sz p q \<longleftrightarrow> elem_addr sz (a_data p) (a_index p) \<le> elem_addr sz (a_data q) (a_index q)"

definition aptr_greater :: "nat \<Rightarrow> aptr \<Rightarrow> aptr \<Rightarrow> bool" where
  "aptr_greater sz p q \<longleftrightarrow> elem_addr sz (a_data p) (a_index p) > elem_addr sz (a_data q) (a_index q)"

definition aptr_ge :: "nat \<Rightarrow> aptr \<Rightarrow> aptr \<Rightarrow> bool" where
  "aptr_ge sz p q \<longleftrightarrow> elem_addr sz (a_data p) (a_index p) \<ge> elem_addr sz (a_data q) (a_index q)"

section \<open>Checked accesses\<close>

lemma long_wrap_small [simp]: "- (2 ^ 63) \<le> i \<Longrightarrow> i < 2 ^ 63 \<Longrightarrow> long_wrap i = i"
  by (simp add: long_wrap_def)

lemma ulong_small [simp]: "0 \<le> i \<Longrightarrow> i < 2 ^ 64 \<Longrightarrow> ulong i = i"
  by (simp add: ulong_def)

lemma ulong_nat: "n < 2 ^ 64 \<Longrightarrow> nat (ulong (int n)) = n"
  by (subst ulong_small) simp_all

lemma long_wrap_range: "- (2 ^ 63) \<le> long_wrap i" "long_wrap i < 2 ^ 63"
  by (simp_all add: long_wrap_def)

text \<open>An address inside an array of \<open>n\<close> elements at \<open>data\<close>.\<close>

lemma elem_addr_in:
  assumes "0 \<le> i" "i < int n" "data + n * sz \<le> size_max" "0 < sz"
  shows "elem_addr sz data i = data + nat i * sz"
proof -
  have "data + (nat i + 1) * sz \<le> data + n * sz" using assms by (intro add_left_mono mult_right_mono) auto
  with assms have "data + nat i * sz < 2 ^ 64" by (simp add: size_max_def)
  then have lt: "data + nat i * sz < 2 ^ 64" .
  have e: "int data + i * int sz = int (data + nat i * sz)" using assms(1) by simp
  from lt show ?thesis unfolding elem_addr_def e by (rule ulong_nat)
qed

text \<open>
  What a checked array pointer points to: nothing (a null pointer has size 0), or as many live
  elements as its size says.
\<close>

definition array_ok :: "nat \<Rightarrow> mem \<Rightarrow> nat \<Rightarrow> int \<Rightarrow> bool" where
  "array_ok sz m data bd \<longleftrightarrow>
     0 < sz \<and> (bd = 0 \<or> 0 < bd \<and> bd < 2 ^ 63 \<and> 0 < data \<and> live m data (nat bd * sz) \<and> data + nat bd * sz \<le> size_max)"

definition aptr_ok :: "nat \<Rightarrow> mem \<Rightarrow> aptr \<Rightarrow> bool" where
  "aptr_ok sz m p \<longleftrightarrow> array_ok sz m (a_data p) (a_size p)"

definition laptr_ok :: "nat \<Rightarrow> mem \<Rightarrow> laptr \<Rightarrow> bool" where
  "laptr_ok sz m p \<longleftrightarrow> array_ok sz m (la_data p) (la_size p)"

lemma array_ok_elem:
  assumes "array_ok sz m data bd" "0 \<le> i" "i < bd"
  shows "elem_addr sz data i = data + nat i * sz" "live m (elem_addr sz data i) sz" "0 < elem_addr sz data i"
proof -
  have s: "0 < bd" "0 < data" "live m data (nat bd * sz)" "data + nat bd * sz \<le> size_max" "0 < sz"
    using assms by (auto simp: array_ok_def)
  show e: "elem_addr sz data i = data + nat i * sz"
    using elem_addr_in [of i "nat bd" data sz] assms s by simp
  have "(nat i + 1) * sz \<le> nat bd * sz" using assms by (intro mult_right_mono) auto
  then show "live m (elem_addr sz data i) sz"
    using live_le [OF s(3), of "data + nat i * sz" sz] by (simp add: e)
  show "0 < elem_addr sz data i" using s by (simp add: e)
qed

lemma array_ok_layout: "layout m = layout m' \<Longrightarrow> array_ok sz m data bd = array_ok sz m' data bd"
  by (simp add: array_ok_def live_layout)

text \<open>An access with index \<open>k\<close> from the current element either reaches a live element or aborts.\<close>

lemma aptr_at_eq:
  "aptr_at sz p k =
     (if 0 \<le> long_wrap (a_index p + k) \<and> long_wrap (a_index p + k) < a_size p
      then Inr (elem_addr sz (a_data p) (long_wrap (a_index p + k)))
      else Inl (Abort ''index + idx >= 0 && index + idx < size''))"
  by (auto simp: aptr_at_def BOUNDS_CHECK_INDEX_def c_assert_def)

lemma laptr_at_eq:
  "laptr_at sz p k =
     (if la_data p = 0 then Inl (Abort ''data != NULL'')
      else if 0 \<le> long_wrap (la_index p + int k) \<and> long_wrap (la_index p + int k) < la_size p
      then Inr (elem_addr sz (la_data p) (long_wrap (la_index p + int k)))
      else Inl (Abort ''index + idx >= 0 && index + idx < size''))"
  by (auto simp: laptr_at_def BOUNDS_CHECK_INDEX_def c_assert_def)

lemma aptr_at_live:
  assumes "aptr_ok sz m p" "aptr_at sz p k = Inr a"
  shows "live m a sz" "0 < a"
  using assms array_ok_elem(2,3) [of sz m "a_data p" "a_size p" "long_wrap (a_index p + k)"]
  by (auto simp: aptr_at_eq aptr_ok_def simp del: neq0_conv split: if_splits)

lemma laptr_at_live:
  assumes "laptr_ok sz m p" "laptr_at sz p k = Inr a"
  shows "live m a sz" "0 < a"
  using assms array_ok_elem(2,3) [of sz m "la_data p" "la_size p" "long_wrap (la_index p + int k)"]
  by (auto simp: laptr_at_eq laptr_ok_def simp del: neq0_conv split: if_splits)

lemma aptr_deref_live:
  assumes "aptr_ok sz m p" "aptr_deref sz p = Inr a"
  shows "live m a sz" "0 < a"
  using assms array_ok_elem(2,3) [of sz m "a_data p" "a_size p" "a_index p"]
  by (auto simp: aptr_deref_def BOUNDS_CHECK_def c_assert_Inr aptr_ok_def)

lemma laptr_deref_live:
  assumes "laptr_ok sz m p" "laptr_deref sz p = Inr a"
  shows "live m a sz" "0 < a"
  using assms array_ok_elem(2,3) [of sz m "la_data p" "la_size p" "la_index p"]
  by (auto simp: laptr_deref_def BOUNDS_CHECK_def c_assert_Inr laptr_ok_def)

section \<open>Arithmetic\<close>

text \<open>What holds of \<open>p + k\<close> inside the array of \<open>p\<close>.\<close>

lemma aptr_arith_add:
  assumes "aptr_ok sz m p" "0 \<le> a_index p" "a_index p + int k < a_size p"
  shows "aptr_ok sz m (aptr_add p k) \<and> aptr_deref sz (aptr_add p k) = aptr_at sz p (int k) \<and>
    aptr_minus sz (aptr_add p k) p = int k \<and> aptr_sub (aptr_add p k) k = p \<and>
    aptr_less sz p (aptr_add p k) = (0 < k) \<and> aptr_eq sz p (aptr_add p k) = (k = 0)"
proof -
  let ?i = "a_index p"
  have ok: "array_ok sz m (a_data p) (a_size p)" using assms(1) by (simp add: aptr_ok_def)
  then have sz: "0 < sz" "a_size p < 2 ^ 63" using assms(2,3) by (auto simp: array_ok_def)
  have w: "long_wrap (?i + int k) = ?i + int k" "long_wrap ?i = ?i" using assms(2,3) sz(2) by simp_all
  have q: "aptr_add p k = \<lparr>a_data = a_data p, a_index = ?i + int k, a_size = a_size p\<rparr>"
    by (simp add: aptr_add_def aptr_make0_def Let_def w)
  have e: "elem_addr sz (a_data p) (?i + int k) = a_data p + nat ?i * sz + k * sz"
    "elem_addr sz (a_data p) ?i = a_data p + nat ?i * sz"
    using array_ok_elem(1) [OF ok, of "?i + int k"] array_ok_elem(1) [OF ok, of ?i] assms(2,3)
    by (simp_all add: nat_add_distrib add_mult_distrib)
  have "aptr_sub (aptr_add p k) k = p" by (simp add: q aptr_sub_def aptr_make0_def Let_def w)
  moreover have "aptr_deref sz (aptr_add p k) = aptr_at sz p (int k)"
    using assms(2,3) by (simp add: q aptr_deref_def aptr_at_def BOUNDS_CHECK_def BOUNDS_CHECK_INDEX_def w)
  moreover have "aptr_minus sz (aptr_add p k) p = int k"
    using sz(1) by (simp add: q aptr_minus_def ptr_difference_def e)
  ultimately show ?thesis
    using ok sz(1) by (simp add: q aptr_ok_def aptr_less_def aptr_eq_def e)
qed

section \<open>The interface of a checked array pointer\<close>

text \<open>
  What the memory and string functions rely on: \<open>at p c\<close> is \<open>p[c]\<close> for a counter \<open>c\<close> of type
  \<open>size_t\<close>; \<open>room p\<close> counts the elements from the current one on, which start at \<open>first p\<close>.
\<close>

locale checked_array =
  fixes sz :: nat
    and at :: "'p \<Rightarrow> nat \<Rightarrow> nat res"
    and ok :: "mem \<Rightarrow> 'p \<Rightarrow> bool"
    and first :: "'p \<Rightarrow> nat"
    and room :: "'p \<Rightarrow> nat"
  assumes at_live: "ok m p \<Longrightarrow> at p c = Inr a \<Longrightarrow> live m a sz"
    and at_abort: "at p c = Inl e \<Longrightarrow> \<exists>s. e = Abort s"
    and at_room: "ok m p \<Longrightarrow> c < room p \<Longrightarrow> at p c = Inr (first p + c * sz)"
    and room_live: "ok m p \<Longrightarrow> live m (first p) (room p * sz)"
    and ok_layout: "ok m p \<Longrightarrow> layout m' = layout m \<Longrightarrow> ok m' p"

text \<open>The counter \<open>c\<close> is converted to \<open>int\<close> or to \<open>unsigned int\<close>.\<close>

definition aptr_index :: "nat \<Rightarrow> aptr \<Rightarrow> nat \<Rightarrow> nat res" where
  "aptr_index sz p c = aptr_at sz p (int_of_size c)"

definition laptr_index :: "nat \<Rightarrow> laptr \<Rightarrow> nat \<Rightarrow> nat res" where
  "laptr_index sz p c = laptr_at sz p (c mod 2 ^ 32)"

definition aptr_room :: "aptr \<Rightarrow> nat" where
  "aptr_room p = (if 0 \<le> a_index p then min (nat (a_size p - a_index p)) (2 ^ 31) else 0)"

definition laptr_room :: "laptr \<Rightarrow> nat" where
  "laptr_room p = (if 0 \<le> la_index p then min (nat (la_size p - la_index p)) (2 ^ 32) else 0)"

definition aptr_first :: "nat \<Rightarrow> aptr \<Rightarrow> nat" where
  "aptr_first sz p = a_data p + nat (a_index p) * sz"

definition laptr_first :: "nat \<Rightarrow> laptr \<Rightarrow> nat" where
  "laptr_first sz p = la_data p + nat (la_index p) * sz"

text \<open>The elements from an index on are part of the array.\<close>

lemma array_ok_from:
  assumes "array_ok sz m data bd" "0 \<le> i" "n \<le> nat (bd - i)"
  shows "live m (data + nat i * sz) (n * sz)"
proof (cases "n = 0")
  case False
  with assms have l: "live m data (nat bd * sz)" "nat i + n \<le> nat bd" by (auto simp: array_ok_def)
  from l(2) have "(nat i + n) * sz \<le> nat bd * sz" by (rule mult_right_mono) simp
  then show ?thesis
    by (intro live_le [OF l(1)]) (simp_all add: add_mult_distrib)
qed simp

lemma array_room_elem:
  assumes "array_ok sz m data bd" "0 \<le> i" "c < nat (bd - i)"
  shows "long_wrap (i + int c) = i + int c" "i + int c < bd" "elem_addr sz data (i + int c) = data + nat i * sz + c * sz"
proof -
  have b: "i + int c < bd" "bd < 2 ^ 63" using assms by (auto simp: array_ok_def)
  then show "long_wrap (i + int c) = i + int c" "i + int c < bd" using assms(2) by simp_all
  show "elem_addr sz data (i + int c) = data + nat i * sz + c * sz"
    using array_ok_elem(1) [OF assms(1), of "i + int c"] assms(2) b
    by (simp add: nat_add_distrib add_mult_distrib)
qed

interpretation heap_array: checked_array sz "aptr_index sz" "aptr_ok sz" "aptr_first sz" aptr_room for sz
proof
  show "live m a sz" if "aptr_ok sz m p" "aptr_index sz p c = Inr a" for m p c a
    using aptr_at_live(1) that by (simp add: aptr_index_def)
  show "\<exists>s. e = Abort s" if "aptr_index sz p c = Inl e" for p c e
    using that by (auto simp: aptr_index_def aptr_at_eq split: if_splits)
  show "aptr_index sz p c = Inr (aptr_first sz p + c * sz)" if "aptr_ok sz m p" "c < aptr_room p" for m p c
  proof -
    have c: "0 \<le> a_index p" "c < nat (a_size p - a_index p)" "c < 2 ^ 31"
      using that(2) by (auto simp: aptr_room_def split: if_splits)
    from array_room_elem [OF that(1) [unfolded aptr_ok_def] c(1,2)] c show ?thesis
      by (simp add: aptr_index_def aptr_at_eq aptr_first_def)
  qed
  show "live m (aptr_first sz p) (aptr_room p * sz)" if "aptr_ok sz m p" for m p
  proof (cases "0 \<le> a_index p")
    case True
    then have "aptr_room p \<le> nat (a_size p - a_index p)" by (simp add: aptr_room_def)
    from array_ok_from [OF that [unfolded aptr_ok_def] True this] show ?thesis by (simp add: aptr_first_def)
  qed (simp add: aptr_room_def)
  show "aptr_ok sz m' p" if "aptr_ok sz m p" "layout m' = layout m" for m m' p
    using that(1) array_ok_layout [OF that(2)] by (simp add: aptr_ok_def)
qed

interpretation stack_array: checked_array sz "laptr_index sz" "laptr_ok sz" "laptr_first sz" laptr_room for sz
proof
  show "live m a sz" if "laptr_ok sz m p" "laptr_index sz p c = Inr a" for m p c a
    using laptr_at_live(1) that by (simp add: laptr_index_def)
  show "\<exists>s. e = Abort s" if "laptr_index sz p c = Inl e" for p c e
    using that by (auto simp: laptr_index_def laptr_at_eq split: if_splits)
  show "laptr_index sz p c = Inr (laptr_first sz p + c * sz)" if "laptr_ok sz m p" "c < laptr_room p" for m p c
  proof -
    have c: "0 \<le> la_index p" "c < nat (la_size p - la_index p)" "c < 2 ^ 32"
      using that(2) by (auto simp: laptr_room_def split: if_splits)
    then have "la_data p \<noteq> 0" using that(1) by (auto simp: laptr_ok_def array_ok_def)
    with array_room_elem [OF that(1) [unfolded laptr_ok_def] c(1,2)] c show ?thesis
      by (simp add: laptr_index_def laptr_at_eq laptr_first_def)
  qed
  show "live m (laptr_first sz p) (laptr_room p * sz)" if "laptr_ok sz m p" for m p
  proof (cases "0 \<le> la_index p")
    case True
    then have "laptr_room p \<le> nat (la_size p - la_index p)" by (simp add: laptr_room_def)
    from array_ok_from [OF that [unfolded laptr_ok_def] True this] show ?thesis by (simp add: laptr_first_def)
  qed (simp add: laptr_room_def)
  show "laptr_ok sz m' p" if "laptr_ok sz m p" "layout m' = layout m" for m m' p
    using that(1) array_ok_layout [OF that(2)] by (simp add: laptr_ok_def)
qed

end
