(* ===== verification/Iron_Memops.thy ===== *)
theory Iron_Memops
  imports Iron_Aptr
begin

text \<open>
  The memory functions of \<^verbatim>\<open>safe_mem.hpp\<close>: \<open>zero\<close>, \<open>fill\<close>, \<open>copy\<close> and \<open>clone\<close>, loops over the
  elements of checked array pointers, and the specialisation of \<open>copy\<close> to \<open>int\<close>, which calls
  \<open>memcpy\<close>.
\<close>

section \<open>The loops\<close>

fun for_each :: "(nat \<Rightarrow> mem \<Rightarrow> mem res) \<Rightarrow> nat \<Rightarrow> nat \<Rightarrow> mem \<Rightarrow> mem res" where
  "for_each body c 0 m = Inr m"
| "for_each body c (Suc k) m = rbind (body c m) (for_each body (Suc c) k)"

text \<open>
  \<open>zero_helper<T>::zero\<close> assigns 0, or calls the method \<open>zero\<close> if \<open>T\<close> has one (\<open>has_zero\<close>),
  which is then a function of the address of the object.
\<close>

definition zero_helper :: "(nat \<Rightarrow> mem \<Rightarrow> mem res) option \<Rightarrow> nat \<Rightarrow> nat \<Rightarrow> mem \<Rightarrow> mem res" where
  "zero_helper zero_method sz val m =
     (case zero_method of None \<Rightarrow> wr m val (replicate sz 0) | Some zero \<Rightarrow> zero val m)"

definition zero_loop :: "('p \<Rightarrow> nat \<Rightarrow> nat res) \<Rightarrow> (nat \<Rightarrow> mem \<Rightarrow> mem res) \<Rightarrow> 'p \<Rightarrow> nat \<Rightarrow> mem \<Rightarrow> mem res" where
  "zero_loop at zero p n m = for_each (\<lambda>c m. rbind (at p c) (\<lambda>a. zero a m)) 0 n m"

definition fill_loop :: "('p \<Rightarrow> nat \<Rightarrow> nat res) \<Rightarrow> 'p \<Rightarrow> 8 word list \<Rightarrow> nat \<Rightarrow> mem \<Rightarrow> mem res" where
  "fill_loop at p v n m = for_each (\<lambda>c m. rbind (at p c) (\<lambda>a. wr m a v)) 0 n m"

definition copy_loop :: "('p \<Rightarrow> nat \<Rightarrow> nat res) \<Rightarrow> ('q \<Rightarrow> nat \<Rightarrow> nat res) \<Rightarrow> (8 word list \<Rightarrow> 8 word list) \<Rightarrow> nat \<Rightarrow>
    'p \<Rightarrow> 'q \<Rightarrow> nat \<Rightarrow> mem \<Rightarrow> mem res" where
  "copy_loop at_dest at_src cons sz dest src n m =
     for_each (\<lambda>c m. rbind (at_dest dest c) (\<lambda>a. rbind (at_src src c) (\<lambda>b.
       rbind (rd m b sz) (\<lambda>v. wr m a (cons v))))) 0 n m"

section \<open>The functions\<close>

definition aptr_zero :: "nat \<Rightarrow> (nat \<Rightarrow> mem \<Rightarrow> mem res) option \<Rightarrow> aptr \<Rightarrow> nat \<Rightarrow> mem \<Rightarrow> mem res" where
  "aptr_zero sz z p n m = zero_loop (aptr_index sz) (zero_helper z sz) p n m"

definition laptr_zero :: "nat \<Rightarrow> (nat \<Rightarrow> mem \<Rightarrow> mem res) option \<Rightarrow> laptr \<Rightarrow> nat \<Rightarrow> mem \<Rightarrow> mem res" where
  "laptr_zero sz z p n m = zero_loop (laptr_index sz) (zero_helper z sz) p n m"

definition aptr_fill :: "nat \<Rightarrow> aptr \<Rightarrow> 8 word list \<Rightarrow> nat \<Rightarrow> mem \<Rightarrow> (aptr \<times> mem) res" where
  "aptr_fill sz p v n m = rbind (fill_loop (aptr_index sz) p v n m) (\<lambda>m. Inr (p, m))"

text \<open>Assignment of a \<open>T\<close> copies its bytes; \<open>clone\<close> calls the copy constructor \<open>cons\<close> instead.\<close>

definition copy_heap_heap :: "nat \<Rightarrow> aptr \<Rightarrow> aptr \<Rightarrow> nat \<Rightarrow> mem \<Rightarrow> mem res" where
  "copy_heap_heap sz dest src n m = copy_loop (aptr_index sz) (aptr_index sz) id sz dest src n m"

definition copy_heap_stack :: "nat \<Rightarrow> aptr \<Rightarrow> laptr \<Rightarrow> nat \<Rightarrow> mem \<Rightarrow> mem res" where
  "copy_heap_stack sz dest src n m = copy_loop (aptr_index sz) (laptr_index sz) id sz dest src n m"

definition copy_stack_stack :: "nat \<Rightarrow> laptr \<Rightarrow> laptr \<Rightarrow> nat \<Rightarrow> mem \<Rightarrow> mem res" where
  "copy_stack_stack sz dest src n m = copy_loop (laptr_index sz) (laptr_index sz) id sz dest src n m"

definition clone :: "nat \<Rightarrow> (8 word list \<Rightarrow> 8 word list) \<Rightarrow> aptr \<Rightarrow> aptr \<Rightarrow> nat \<Rightarrow> mem \<Rightarrow> (aptr \<times> mem) res" where
  "clone sz cons dest src n m =
     rbind (copy_loop (aptr_index sz) (aptr_index sz) cons sz dest src n m) (\<lambda>m. Inr (dest, m))"

text \<open>
  The specialisations to \<open>int\<close>, of 4 bytes: the results of the two checks are not used. The
  byte count wraps.
\<close>

definition copy_int :: "aptr \<Rightarrow> aptr \<Rightarrow> nat \<Rightarrow> mem \<Rightarrow> mem res" where
  "copy_int dest src n m =
     (let _ = aptr_spatialCheck 4 dest (n * 4 mod size_max);
          _ = aptr_spatialCheck 4 src (n * 4 mod size_max)
      in c_memcpy m (aptr_convert_to_raw 4 dest) (aptr_convert_to_raw 4 src) (n * 4 mod size_max))"

definition copy_int_stack :: "laptr \<Rightarrow> laptr \<Rightarrow> nat \<Rightarrow> mem \<Rightarrow> mem res" where
  "copy_int_stack dest src n m =
     (let _ = laptr_spatialCheck 4 dest (n * 4 mod size_max);
          _ = laptr_spatialCheck 4 src (n * 4 mod size_max)
      in c_memcpy m (laptr_convert_to_raw 4 dest) (laptr_convert_to_raw 4 src) (n * 4 mod size_max))"

section \<open>Faults\<close>

text \<open>
  A result that is not a fault: the memory keeps its blocks, or an assertion stopped the
  program.
\<close>

definition no_fault :: "mem \<Rightarrow> mem res \<Rightarrow> bool" where
  "no_fault m r = (case r of Inr m' \<Rightarrow> layout m' = layout m | Inl e \<Rightarrow> \<exists>s. e = Abort s)"

lemma no_fault_Inr [simp]: "no_fault m (Inr m') \<longleftrightarrow> layout m' = layout m"
  by (simp add: no_fault_def)

lemma no_fault_Abort [simp]: "no_fault m (Inl (Abort s))"
  by (simp add: no_fault_def)

lemma no_fault_bounds: "no_fault m r \<Longrightarrow> r \<noteq> Inl OutOfBounds"
  by (auto simp: no_fault_def)

lemma no_fault_bind:
  "no_fault m r \<Longrightarrow> (\<And>m'. r = Inr m' \<Longrightarrow> layout m' = layout m \<Longrightarrow> no_fault m' (k m')) \<Longrightarrow> no_fault m (rbind r k)"
  by (cases r) (auto simp: no_fault_def split: sum.splits)

lemma for_each_no_fault:
  assumes "\<And>c m'. layout m' = layout m \<Longrightarrow> no_fault m' (body c m')"
  shows "no_fault m (for_each body c k m)"
  using assms
proof (induction k arbitrary: c m)
  case (Suc k)
  show ?case
    unfolding for_each.simps(2)
    by (rule no_fault_bind [OF Suc.prems [OF refl]], rule Suc.IH) (use Suc.prems in auto)
qed simp

lemma for_each_ok:
  assumes "\<And>c m. I c m \<Longrightarrow> c < n \<Longrightarrow> \<exists>m'. body c m = Inr m' \<and> I (Suc c) m'" "I c m" "c + k = n"
  shows "\<exists>m'. for_each body c k m = Inr m' \<and> I n m'"
  using assms(2,3)
proof (induction k arbitrary: c m)
  case (Suc k)
  then obtain m' where "body c m = Inr m'" "I (Suc c) m'" using assms(1) [of c m] by auto
  with Suc.IH [of "Suc c" m'] Suc.prems show ?case by simp
qed simp

lemma for_each_append:
  "for_each body c (j + k) m = rbind (for_each body c j m) (for_each body (c + j) k)"
proof (induction j arbitrary: c m)
  case (Suc j)
  then show ?case by (cases "body c m") simp_all
qed simp

lemma wr_no_fault: "live m a (length v) \<Longrightarrow> no_fault m (wr m a v)"
  using wr_live [of m a v] by auto

section \<open>Setting elements\<close>

text \<open>
  The first \<open>n\<close> elements of size \<open>sz\<close> from address \<open>b\<close> were set, element \<open>i\<close> to \<open>f i\<close>, and
  nothing else changed.
\<close>

definition elements_set :: "nat \<Rightarrow> nat \<Rightarrow> nat \<Rightarrow> (nat \<Rightarrow> 8 word list) \<Rightarrow> mem \<Rightarrow> mem \<Rightarrow> bool" where
  "elements_set sz b n f m m' \<longleftrightarrow>
     layout m' = layout m \<and> (\<forall>i<n. slice m' (b + i * sz) sz = f i) \<and>
     (\<forall>x. x < b \<or> b + n * sz \<le> x \<longrightarrow> byte_at m' x = byte_at m x)"

lemma elements_set_0 [simp]: "elements_set sz b 0 f m m"
  by (simp add: elements_set_def)

lemma elements_set_layout: "elements_set sz b n f m m' \<Longrightarrow> layout m' = layout m"
  by (simp add: elements_set_def)

lemma elements_set_Suc:
  assumes "mem_ok m" "elements_set sz b c f m m1" "wr m1 (b + c * sz) (f c) = Inr m2" "length (f c) = sz"
  shows "elements_set sz b (Suc c) f m m2"
proof -
  have ok: "mem_ok m1" using mem_ok_layout [OF elements_set_layout [OF assms(2)]] assms(1) by simp
  have "slice m2 (b + i * sz) sz = f i" if "i < Suc c" for i
  proof (cases "i = c")
    case True
    with slice_wr [OF ok assms(3)] assms(4) show ?thesis by simp
  next
    case False
    with that have "(i + 1) * sz \<le> c * sz" by (intro mult_right_mono) auto
    then have "b + i * sz + sz \<le> b + c * sz" by simp
    with slice_wr_other [OF ok assms(3), of "b + i * sz" sz] assms(2) that False show ?thesis
      by (simp add: elements_set_def)
  qed
  moreover have "byte_at m2 x = byte_at m x" if "x < b \<or> b + Suc c * sz \<le> x" for x
    using wr_byte_at [OF ok assms(3), of x] that assms(2,4) by (auto simp: elements_set_def)
  ultimately show ?thesis
    using wr_layout [OF assms(3)] assms(2) by (simp add: elements_set_def)
qed

section \<open>Loops over one array\<close>

context checked_array
begin

lemma fill_safe:
  assumes "ok m p" "length v = sz"
  shows "no_fault m (fill_loop at p v n m)"
  unfolding fill_loop_def
proof (rule for_each_no_fault)
  fix c m' assume "layout m' = layout m"
  with assms(1) have "ok m' p" by (rule ok_layout)
  then show "no_fault m' (rbind (at p c) (\<lambda>a. wr m' a v))"
    using at_live [of m' p c] at_abort [of p c] wr_no_fault [of m' _ v] assms(2)
    by (cases "at p c") (auto simp: no_fault_def)
qed

lemma fill_sets:
  assumes "ok m p" "mem_ok m" "length v = sz" "n \<le> room p"
  shows "\<exists>m'. fill_loop at p v n m = Inr m' \<and> elements_set sz (first p) n (\<lambda>_. v) m m'"
  unfolding fill_loop_def
proof (rule for_each_ok)
  fix c m1 assume c: "elements_set sz (first p) c (\<lambda>_. v) m m1" "c < n"
  then have ok: "ok m1 p" using ok_layout [OF assms(1)] by (simp add: elements_set_def)
  have at: "at p c = Inr (first p + c * sz)" using at_room [OF ok] c assms(4) by simp
  then obtain m2 where m2: "wr m1 (first p + c * sz) v = Inr m2"
    using wr_live at_live [OF ok at] assms(3) by blast
  then show "\<exists>m2. rbind (at p c) (\<lambda>a. wr m1 a v) = Inr m2 \<and> elements_set sz (first p) (Suc c) (\<lambda>_. v) m m2"
    using elements_set_Suc [OF assms(2) c(1) m2] assms(3) at by simp
qed simp_all

text \<open>A fill of more elements than there are stops where the access does.\<close>

lemma fill_overruns:
  assumes "ok m p" "mem_ok m" "length v = sz" "at p (room p) = Inl e" "room p < n"
  shows "fill_loop at p v n m = Inl e"
proof -
  obtain k where n: "n = room p + Suc k" using less_imp_Suc_add [OF assms(5)] by auto
  obtain m' where "fill_loop at p v (room p) m = Inr m'" using fill_sets [OF assms(1-3) order_refl] by blast
  then have "for_each (\<lambda>c m. rbind (at p c) (\<lambda>a. wr m a v)) 0 (room p) m = Inr m'" by (simp only: fill_loop_def)
  with assms(4) show ?thesis unfolding n fill_loop_def for_each_append by simp
qed

lemma zero_is_fill: "zero_loop at (zero_helper None sz) p n m = fill_loop at p (replicate sz 0) n m"
  by (simp add: zero_loop_def fill_loop_def zero_helper_def)

end

text \<open>
  The access after the last element aborts, unless the counter is then negative as an
  \<open>int\<close>.
\<close>

lemma aptr_room_stops:
  assumes "aptr_ok sz m p" "long_wrap (a_index p) = a_index p" "aptr_room p < 2 ^ 31"
  shows "aptr_index sz p (aptr_room p) = Inl (Abort ''index + idx >= 0 && index + idx < size'')"
proof -
  have i: "- (2 ^ 63) \<le> a_index p" "a_index p < 2 ^ 63" using long_wrap_range [of "a_index p"] assms(2) by simp_all
  have "a_size p < 2 ^ 63" using assms(1) by (auto simp: aptr_ok_def array_ok_def)
  with i assms(3) have "\<not> (0 \<le> long_wrap (a_index p + int (aptr_room p)) \<and> long_wrap (a_index p + int (aptr_room p)) < a_size p)"
    by (auto simp: aptr_room_def min_def)
  with assms(3) show ?thesis by (simp add: aptr_index_def aptr_at_eq)
qed

section \<open>Loops over two arrays\<close>

text \<open>
  The destination is checked before the source. A copy runs upwards, so it may overlap a
  source that does not start below the destination.
\<close>

locale array_copy =
  d: checked_array sz at_dest ok_dest first_dest room_dest +
  s: checked_array sz at_src ok_src first_src room_src
  for sz :: nat
    and at_dest :: "'p \<Rightarrow> nat \<Rightarrow> nat res" and ok_dest :: "mem \<Rightarrow> 'p \<Rightarrow> bool"
    and first_dest :: "'p \<Rightarrow> nat" and room_dest :: "'p \<Rightarrow> nat"
    and at_src :: "'q \<Rightarrow> nat \<Rightarrow> nat res" and ok_src :: "mem \<Rightarrow> 'q \<Rightarrow> bool"
    and first_src :: "'q \<Rightarrow> nat" and room_src :: "'q \<Rightarrow> nat"

context array_copy
begin

lemma copy_safe:
  assumes "ok_dest m p" "ok_src m q" "\<And>v. length v = sz \<Longrightarrow> length (cons v) = sz"
  shows "no_fault m (copy_loop at_dest at_src cons sz p q n m)"
  unfolding copy_loop_def
proof (rule for_each_no_fault)
  fix c m' assume l: "layout m' = layout m"
  then have ok: "ok_dest m' p" "ok_src m' q" using d.ok_layout [OF assms(1)] s.ok_layout [OF assms(2)] by auto
  show "no_fault m' (rbind (at_dest p c) (\<lambda>a. rbind (at_src q c) (\<lambda>b. rbind (rd m' b sz) (\<lambda>v. wr m' a (cons v)))))"
  proof (cases "at_dest p c")
    case (Inr a)
    note a = Inr
    show ?thesis
    proof (cases "at_src q c")
      case (Inr b)
      then obtain v where v: "rd m' b sz = Inr v" "length v = sz" using rd_live s.at_live [OF ok(2)] by blast
      then show ?thesis
        using a Inr wr_no_fault [of m' a "cons v"] d.at_live [OF ok(1) a] assms(3) by simp
    next
      case (Inl e)
      with a s.at_abort [OF Inl] show ?thesis by auto
    qed
  next
    case (Inl e)
    with d.at_abort [OF Inl] show ?thesis by auto
  qed
qed

lemma copy_copies:
  assumes "ok_dest m p" "ok_src m q" "mem_ok m" "\<And>v. length v = sz \<Longrightarrow> length (cons v) = sz"
    "n \<le> room_dest p" "n \<le> room_src q"
    and apart: "first_dest p \<le> first_src q \<or> first_src q + n * sz \<le> first_dest p"
  shows "\<exists>m'. copy_loop at_dest at_src cons sz p q n m = Inr m' \<and>
    elements_set sz (first_dest p) n (\<lambda>i. cons (slice m (first_src q + i * sz) sz)) m m'"
  unfolding copy_loop_def
proof (rule for_each_ok [where I = "\<lambda>c. elements_set sz (first_dest p) c (\<lambda>i. cons (slice m (first_src q + i * sz) sz)) m"])
  fix c m1 assume c: "elements_set sz (first_dest p) c (\<lambda>i. cons (slice m (first_src q + i * sz) sz)) m m1" "c < n"
  let ?a = "first_dest p + c * sz" and ?b = "first_src q + c * sz"
  have l: "layout m1 = layout m" using c(1) by (simp add: elements_set_def)
  then have ok: "ok_dest m1 p" "ok_src m1 q" "mem_ok m1"
    using d.ok_layout [OF assms(1) l] s.ok_layout [OF assms(2) l] mem_ok_layout [OF l] assms(3) by auto
  have at: "at_dest p c = Inr ?a" "at_src q c = Inr ?b"
    using d.at_room [OF ok(1)] s.at_room [OF ok(2)] c(2) assms(5,6) by auto
  have "(c + 1) * sz \<le> n * sz" using c(2) by (intro mult_right_mono) auto
  then have "x < first_dest p \<or> first_dest p + c * sz \<le> x" if "?b \<le> x" "x < ?b + sz" for x
    using apart that by auto
  then have "byte_at m1 x = byte_at m x" if "?b \<le> x" "x < ?b + sz" for x
    using c(1) that unfolding elements_set_def by blast
  then have "slice m1 ?b sz = slice m ?b sz" unfolding slice_def by (intro map_cong) simp_all
  then have rd: "rd m1 ?b sz = Inr (slice m ?b sz)"
    using rd_slice [OF ok(3) s.at_live [OF ok(2) at(2)]] by simp
  obtain m2 where m2: "wr m1 ?a (cons (slice m ?b sz)) = Inr m2"
    using wr_live [of m1 ?a "cons (slice m ?b sz)"] d.at_live [OF ok(1) at(1)] assms(4) by auto
  show "\<exists>m2. rbind (at_dest p c) (\<lambda>a. rbind (at_src q c) (\<lambda>b. rbind (rd m1 b sz) (\<lambda>v. wr m1 a (cons v)))) = Inr m2 \<and>
      elements_set sz (first_dest p) (Suc c) (\<lambda>i. cons (slice m (first_src q + i * sz) sz)) m m2"
    using elements_set_Suc [OF assms(3) c(1) m2] at rd m2 assms(4) by simp
qed simp_all

end

interpretation heap_heap: array_copy sz "aptr_index sz" "aptr_ok sz" "aptr_first sz" aptr_room
    "aptr_index sz" "aptr_ok sz" "aptr_first sz" aptr_room for sz ..

interpretation heap_stack: array_copy sz "aptr_index sz" "aptr_ok sz" "aptr_first sz" aptr_room
    "laptr_index sz" "laptr_ok sz" "laptr_first sz" laptr_room for sz ..

interpretation stack_stack: array_copy sz "laptr_index sz" "laptr_ok sz" "laptr_first sz" laptr_room
    "laptr_index sz" "laptr_ok sz" "laptr_first sz" laptr_room for sz ..

end
