(* ===== verification/Iron_Array.thy ===== *)
theory Iron_Array
  imports Iron_Memops
begin

text \<open>
  The containers of the Ironclad headers: \<open>array<T,N>\<close> of \<^verbatim>\<open>array.hpp\<close>, \<open>matrix<T>\<close> of
  \<^verbatim>\<open>matrix.hpp\<close> and \<open>varray<T>\<close> of \<^verbatim>\<open>varray.hpp\<close>.
\<close>

section \<open>\<open>array\<close>\<close>

text \<open>An array object: the address of its elements, which is its own, and \<open>ARRAY_N\<close>.\<close>

record arr =
  ar_data :: nat
  ar_n :: nat

text \<open>\<open>init_array\<close> stores the values one after the other; it knows no bound.\<close>

fun init_array :: "nat \<Rightarrow> nat \<Rightarrow> nat \<Rightarrow> 8 word list list \<Rightarrow> mem \<Rightarrow> mem res" where
  "init_array sz data c [] m = Inr m"
| "init_array sz data c (it # static_init) m =
     rbind (wr m (elem_addr sz data (int c)) it) (init_array sz data (Suc c) static_init)"

text \<open>The constructor zeroes the elements, then runs \<open>init_array\<close> once for each value.\<close>

definition array_init :: "nat \<Rightarrow> arr \<Rightarrow> 8 word list list \<Rightarrow> mem \<Rightarrow> mem res" where
  "array_init sz a static_init m =
     rbind (wr m (ar_data a) (replicate (ar_n a * sz) 0)) (\<lambda>m.
       for_each (\<lambda>_. init_array sz (ar_data a) 0 static_init) 0 (length static_init) m)"

definition array_getSize :: "arr \<Rightarrow> nat" where
  "array_getSize a = ar_n a"

definition array_deref :: "arr \<Rightarrow> nat" where
  "array_deref a = ar_data a"

definition array_at :: "nat \<Rightarrow> arr \<Rightarrow> nat \<Rightarrow> nat res" where
  "array_at sz a index = c_assert ''index < ARRAY_N'' (index < ar_n a) (Inr (elem_addr sz (ar_data a) (int index)))"

definition array_notOnStack :: "nat \<Rightarrow> arr \<Rightarrow> bool" where
  "array_notOnStack sp a = (let newPtr = laptr_null sp in laptr_dataNotOnStack newPtr (ar_data a))"

definition laptr_of_array :: "nat \<Rightarrow> nat \<Rightarrow> arr \<Rightarrow> laptr" where
  "laptr_of_array sp this a =
     (let newPtr = laptr_make0 sp this (ar_data a) (int (ar_n a))
      in if laptr_dataNotOnStack newPtr (ar_data a) then laptr_setAsGlobal newPtr else newPtr)"

definition array_add :: "nat \<Rightarrow> nat \<Rightarrow> arr \<Rightarrow> nat \<Rightarrow> laptr" where
  "array_add sp this a diff = laptr_make sp this (ar_data a) (int (ar_n a)) (long_wrap (int diff))"

text \<open>\<open>getAptr\<close> and \<open>getConstAptr\<close>.\<close>

definition array_getAptr :: "nat \<Rightarrow> arr \<Rightarrow> aptr res" where
  "array_getAptr sp a =
     (let newPtr = aptr_make0 (ar_data a) (int (ar_n a))
      in c_assert ''notOnStack()'' (array_notOnStack sp a) (Inr newPtr))"

definition array_offset :: "nat \<Rightarrow> nat \<Rightarrow> arr \<Rightarrow> nat \<Rightarrow> laptr res" where
  "array_offset sp this a index =
     (let newP = laptr_make sp this (ar_data a) (int (ar_n a)) (int index)
      in c_assert ''index < ARRAY_N'' (index < ar_n a) (Inr newP))"

definition array_offsetAptr :: "nat \<Rightarrow> arr \<Rightarrow> nat \<Rightarrow> aptr res" where
  "array_offsetAptr sp a index =
     (let newP = aptr_make (ar_data a) (int (ar_n a)) (int index)
      in c_assert ''index < ARRAY_N'' (index < ar_n a) (c_assert ''notOnStack()'' (array_notOnStack sp a) (Inr newP)))"

text \<open>\<open>zero()\<close>, which passes \<open>offset(0)\<close> to the function of \<^verbatim>\<open>safe_mem.hpp\<close>.\<close>

definition array_zero :: "nat \<Rightarrow> nat \<Rightarrow> nat \<Rightarrow> (nat \<Rightarrow> mem \<Rightarrow> mem res) option \<Rightarrow> arr \<Rightarrow> mem \<Rightarrow> mem res" where
  "array_zero sz sp this z a m = rbind (array_offset sp this a 0) (\<lambda>p. laptr_zero sz z p (ar_n a) m)"

section \<open>\<open>matrix\<close>\<close>

record matrix =
  mx_data :: nat
  mx_x :: nat
  mx_y :: nat

definition matrix_null :: matrix where
  "matrix_null = \<lparr>mx_data = 0, mx_x = 0, mx_y = 0\<rparr>"

definition matrix_make :: "nat \<Rightarrow> nat \<Rightarrow> nat \<Rightarrow> matrix" where
  "matrix_make data x_size y_size = \<lparr>mx_data = data, mx_x = x_size, mx_y = y_size\<rparr>"

text \<open>\<open>operator()\<close>; the combined index is a \<open>size_t\<close>.\<close>

definition matrix_index :: "matrix \<Rightarrow> nat \<Rightarrow> nat \<Rightarrow> nat" where
  "matrix_index mat x y = (y * mx_x mat + x) mod size_max"

definition matrix_at :: "nat \<Rightarrow> matrix \<Rightarrow> nat \<Rightarrow> nat \<Rightarrow> nat res" where
  "matrix_at sz mat x y =
     c_assert ''x < x_size && y < y_size'' (x < mx_x mat \<and> y < mx_y mat)
       (Inr (elem_addr sz (mx_data mat) (int (matrix_index mat x y))))"

definition matrix_free :: "bool \<Rightarrow> mem \<Rightarrow> matrix \<Rightarrow> (mem \<times> matrix) res" where
  "matrix_free gc m mat =
     rbind (if gc then Inr m else c_free m (mx_data mat)) (\<lambda>m. Inr (m, mat\<lparr>mx_data := 0\<rparr>))"

section \<open>\<open>varray\<close>\<close>

text \<open>The object at the end of a structure: its size field and the address of its elements.\<close>

record varray =
  va_size :: nat
  va_data :: nat

definition varray_make :: "nat \<Rightarrow> varray" where
  "varray_make data = \<lparr>va_size = 1, va_data = data\<rparr>"

text \<open>The constructor from values reads the field \<open>size\<close>, which nothing has initialised.\<close>

definition varray_init :: "8 word list list \<Rightarrow> mem \<Rightarrow> mem res" where
  "varray_init static_init m = (if static_init = [] then Inr m else Inl Uninitialised)"

definition varray_getSize :: "varray \<Rightarrow> nat" where
  "varray_getSize v = va_size v"

definition varray_at :: "nat \<Rightarrow> varray \<Rightarrow> nat \<Rightarrow> nat res" where
  "varray_at sz v index = c_assert ''index < size'' (index < va_size v) (Inr (elem_addr sz (va_data v) (int index)))"

definition aptr_of_varray :: "varray \<Rightarrow> aptr" where
  "aptr_of_varray v = aptr_make0 (va_data v) (long_wrap (int (va_size v)))"

section \<open>Accesses\<close>

text \<open>An array object is live storage for its elements.\<close>

definition arr_ok :: "nat \<Rightarrow> mem \<Rightarrow> arr \<Rightarrow> bool" where
  "arr_ok sz m a \<longleftrightarrow> 0 < ar_n a \<and> array_ok sz m (ar_data a) (int (ar_n a))"

lemma laptr_make_simps [simp]:
  "la_data (laptr_make sp this d n i) = d" "la_size (laptr_make sp this d n i) = n"
  "la_index (laptr_make sp this d n i) = i"
  by (simp_all add: laptr_make_def laptr_checkStackBoundGlobal_def)

lemma laptr_make0_simps [simp]:
  "la_data (laptr_make0 sp this d n) = d" "la_size (laptr_make0 sp this d n) = n"
  "la_index (laptr_make0 sp this d n) = 0"
  by (simp_all add: laptr_make0_def laptr_checkStackBoundGlobal_def)

lemma array_at_ok:
  assumes "arr_ok sz m a"
  shows "array_at sz a i = (if i < ar_n a then Inr (ar_data a + i * sz) else Inl (Abort ''index < ARRAY_N''))"
    "i < ar_n a \<Longrightarrow> live m (ar_data a + i * sz) sz"
  using array_ok_elem(1,2) [of sz m "ar_data a" "int (ar_n a)" "int i"] assms
  by (auto simp: array_at_def arr_ok_def c_assert_def)

text \<open>Every pointer made from an array is a checked pointer into it.\<close>

lemma array_pointers_ok:
  assumes "arr_ok sz m a"
  shows "laptr_ok sz m (laptr_of_array sp this a)" "laptr_ok sz m (array_add sp this a d)"
    "array_offset sp this a i = Inr p \<Longrightarrow> laptr_ok sz m p"
    "array_getAptr sp a = Inr q \<Longrightarrow> aptr_ok sz m q" "array_offsetAptr sp a i = Inr q \<Longrightarrow> aptr_ok sz m q"
  using assms
  by (auto simp: arr_ok_def laptr_ok_def aptr_ok_def laptr_of_array_def Let_def laptr_setAsGlobal_def
      array_add_def array_offset_def c_assert_Inr array_getAptr_def aptr_make0_def array_offsetAptr_def aptr_make_def)

text \<open>A heap pointer is made only from an array outside the stack.\<close>

lemma array_getAptr_off_stack: "array_getAptr sp a = Inr q \<Longrightarrow> a_data q \<le> sp"
  by (auto simp: array_getAptr_def Let_def c_assert_Inr array_notOnStack_def laptr_dataNotOnStack_def
      laptr_null_def aptr_make0_def)

lemma array_offsetAptr_off_stack: "array_offsetAptr sp a i = Inr q \<Longrightarrow> a_data q \<le> sp"
  by (auto simp: array_offsetAptr_def Let_def c_assert_Inr array_notOnStack_def laptr_dataNotOnStack_def
      laptr_null_def aptr_make_def)

text \<open>Dereferencing \<open>offset(i)\<close> is the access with index \<open>i\<close>.\<close>

lemma array_offset_deref: "array_offset sp this a i = Inr p \<Longrightarrow> laptr_deref sz p = array_at sz a i"
  by (auto simp: array_offset_def Let_def c_assert_Inr laptr_deref_def BOUNDS_CHECK_def array_at_def)

section \<open>Initialisation\<close>

lemma init_array_sets:
  assumes "array_ok sz m data (int k)" "mem_ok m" "c + length vs \<le> k" "\<forall>v\<in>set vs. length v = sz"
    "elements_set sz data c f m m1" "\<And>i. i < length vs \<Longrightarrow> f (c + i) = vs ! i"
  shows "\<exists>m2. init_array sz data c vs m1 = Inr m2 \<and> elements_set sz data (c + length vs) f m m2"
  using assms(3-6)
proof (induction vs arbitrary: c m1)
  case (Cons v vs)
  have e: "elem_addr sz data (int c) = data + c * sz" "live m1 (data + c * sz) (length v)"
    using array_ok_elem(1,2) [OF assms(1), of "int c"] Cons.prems elements_set_layout [OF Cons.prems(3)]
    by (auto simp: live_layout)
  then obtain m2 where m2: "wr m1 (data + c * sz) v = Inr m2" using wr_live by blast
  then have "elements_set sz data (Suc c) f m m2"
    using elements_set_Suc [OF assms(2) Cons.prems(3), of m2] Cons.prems(2) Cons.prems(4) [of 0] by simp
  moreover have "f (Suc c + i) = vs ! i" if "i < length vs" for i using Cons.prems(4) [of "Suc i"] that by simp
  ultimately show ?case using Cons.IH [of "Suc c" m2] Cons.prems(1,2) m2 e by simp
qed simp

lemma array_init_contents:
  assumes "arr_ok sz m a" "mem_ok m" "length vs \<le> ar_n a" "\<forall>v\<in>set vs. length v = sz"
  shows "\<exists>m'. array_init sz a vs m = Inr m' \<and>
    elements_set sz (ar_data a) (ar_n a) (\<lambda>i. if i < length vs then vs ! i else replicate sz 0) m m'"
proof -
  let ?n = "ar_n a" and ?d = "ar_data a"
  let ?f = "\<lambda>i. if i < length vs then vs ! i else replicate sz 0"
  have ok: "array_ok sz m ?d (int ?n)" using assms(1) by (simp add: arr_ok_def)
  have "live m ?d (?n * sz)" using array_ok_from [OF ok, of 0 ?n] by simp
  then obtain m0 where m0: "wr m ?d (replicate (?n * sz) 0) = Inr m0"
    using wr_live [of m ?d "replicate (?n * sz) 0"] by auto
  have z: "slice m0 (?d + i * sz) sz = replicate sz 0" if "i < ?n" for i
  proof (rule nth_equalityI)
    fix j assume j: "j < length (slice m0 (?d + i * sz) sz)"
    have "(i + 1) * sz \<le> ?n * sz" using that by (intro mult_right_mono) auto
    with j show "slice m0 (?d + i * sz) sz ! j = replicate sz 0 ! j"
      by (simp add: wr_byte_at [OF assms(2) m0])
  qed simp
  let ?I = "\<lambda>m1. elements_set sz ?d ?n (\<lambda>i. replicate sz 0) m m1 \<or> elements_set sz ?d ?n ?f m m1"
  have start: "?I m0"
    using z wr_layout [OF m0] wr_byte_at [OF assms(2) m0] by (auto simp: elements_set_def)
  have pass: "\<exists>m2. init_array sz ?d 0 vs m1 = Inr m2 \<and> elements_set sz ?d ?n ?f m m2" if I: "?I m1" for m1
  proof -
    have l: "layout m1 = layout m" using I elements_set_layout by blast
    have ok1: "array_ok sz m1 ?d (int ?n)" "mem_ok m1"
      using ok array_ok_layout [OF l] mem_ok_layout [OF l] assms(2) by simp_all
    obtain m2 where m2: "init_array sz ?d 0 vs m1 = Inr m2" "elements_set sz ?d (length vs) ((!) vs) m1 m2"
      using init_array_sets [OF ok1, of 0 vs "(!) vs" m1] assms(3,4) by auto
    have "slice m2 (?d + i * sz) sz = ?f i" if i: "i < ?n" for i
    proof (cases "i < length vs")
      case False
      then have "length vs * sz \<le> i * sz" by (intro mult_right_mono) auto
      then have "?d + length vs * sz \<le> x" if "?d + i * sz \<le> x" for x using that by linarith
      then have "byte_at m2 x = byte_at m1 x" if "?d + i * sz \<le> x" for x
        using m2(2) that by (auto simp: elements_set_def)
      then have "slice m2 (?d + i * sz) sz = slice m1 (?d + i * sz) sz" unfolding slice_def by (intro map_cong) simp_all
      with False I i show ?thesis by (auto simp: elements_set_def)
    qed (use m2(2) in \<open>simp add: elements_set_def\<close>)
    moreover have "byte_at m2 x = byte_at m x" if "x < ?d \<or> ?d + ?n * sz \<le> x" for x
    proof -
      have "length vs * sz \<le> ?n * sz" using assms(3) by (intro mult_right_mono) auto
      with that have "x < ?d \<or> ?d + length vs * sz \<le> x" by linarith
      then have "byte_at m2 x = byte_at m1 x" using m2(2) by (auto simp: elements_set_def)
      with I that show ?thesis by (auto simp: elements_set_def)
    qed
    ultimately show ?thesis using m2 l by (auto simp: elements_set_def)
  qed
  show ?thesis
  proof (cases vs)
    case Nil
    with start m0 show ?thesis by (auto simp: array_init_def)
  next
    case (Cons v ws)
    obtain m1 where m1: "init_array sz ?d 0 vs m0 = Inr m1" "elements_set sz ?d ?n ?f m m1" using pass [OF start] by blast
    have "\<exists>m'. for_each (\<lambda>_. init_array sz ?d 0 vs) 1 (length ws) m1 = Inr m' \<and> elements_set sz ?d ?n ?f m m'"
      using for_each_ok [where I = "\<lambda>_. elements_set sz ?d ?n ?f m" and body = "\<lambda>_. init_array sz ?d 0 vs"
          and n = "Suc (length ws)" and c = 1 and k = "length ws" and m = m1] pass m1(2) by auto
    with m0 m1(1) Cons show ?thesis by (simp add: array_init_def)
  qed
qed

text \<open>\<open>zero()\<close> clears every element.\<close>

lemma array_zero_clears:
  assumes "arr_ok sz m a" "mem_ok m" "ar_n a \<le> 2 ^ 32"
  shows "\<exists>m'. array_zero sz sp this None a m = Inr m' \<and>
    elements_set sz (ar_data a) (ar_n a) (\<lambda>_. replicate sz 0) m m'"
proof -
  let ?p = "laptr_make sp this (ar_data a) (int (ar_n a)) 0"
  have p: "laptr_ok sz m ?p" "ar_n a \<le> laptr_room ?p" "laptr_first sz ?p = ar_data a"
    using assms by (auto simp: arr_ok_def laptr_ok_def laptr_room_def laptr_first_def)
  from stack_array.fill_sets [OF p(1) assms(2) _ p(2), of "replicate sz 0"] p(3) assms(1) show ?thesis
    by (simp add: array_zero_def array_offset_def laptr_zero_def stack_array.zero_is_fill arr_ok_def)
qed

section \<open>Matrices\<close>

text \<open>The elements of a matrix are live, and their number does not wrap.\<close>

definition matrix_ok :: "nat \<Rightarrow> mem \<Rightarrow> matrix \<Rightarrow> bool" where
  "matrix_ok sz m mat \<longleftrightarrow> array_ok sz m (mx_data mat) (int (mx_x mat * mx_y mat))"

lemma matrix_index_less:
  assumes "x < mx_x mat" "y < mx_y mat"
  shows "y * mx_x mat + x < mx_x mat * mx_y mat"
proof -
  have "y * mx_x mat + x < (y + 1) * mx_x mat" using assms(1) by simp
  also have "\<dots> \<le> mx_y mat * mx_x mat" using assms(2) by (intro mult_right_mono) auto
  finally show ?thesis by (simp add: mult.commute)
qed

lemma matrix_at_ok:
  assumes "matrix_ok sz m mat" "x < mx_x mat" "y < mx_y mat"
  shows "matrix_at sz mat x y = Inr (mx_data mat + (y * mx_x mat + x) * sz)"
    "live m (mx_data mat + (y * mx_x mat + x) * sz) sz"
proof -
  have i: "y * mx_x mat + x < mx_x mat * mx_y mat" using matrix_index_less [OF assms(2,3)] .
  have s: "int (mx_x mat * mx_y mat) < 2 ^ 63" using assms(1) i by (auto simp: matrix_ok_def array_ok_def)
  then have "mx_x mat * mx_y mat < 2 ^ 63" by (metis of_nat_less_iff of_nat_numeral of_nat_power)
  with i have "matrix_index mat x y = y * mx_x mat + x" by (simp add: matrix_index_def size_max_def)
  with array_ok_elem(1,2) [OF assms(1) [unfolded matrix_ok_def], of "int (y * mx_x mat + x)"] i assms(2,3)
  show "matrix_at sz mat x y = Inr (mx_data mat + (y * mx_x mat + x) * sz)"
    "live m (mx_data mat + (y * mx_x mat + x) * sz) sz"
    by (simp_all add: matrix_at_def del: of_nat_add of_nat_mult)
qed

text \<open>Different coordinates are different elements.\<close>

lemma matrix_at_inj:
  assumes "matrix_ok sz m mat" "x < mx_x mat" "y < mx_y mat" "x' < mx_x mat" "y' < mx_y mat"
    "matrix_at sz mat x y = matrix_at sz mat x' y'"
  shows "x = x' \<and> y = y'"
proof -
  have sz: "0 < sz" using assms(1) by (simp add: matrix_ok_def array_ok_def)
  then have "y * mx_x mat + x = y' * mx_x mat + x'"
    using assms(6) matrix_at_ok(1) [OF assms(1-3)] matrix_at_ok(1) [OF assms(1,4,5)] by simp
  then have "(y * mx_x mat + x) div mx_x mat = (y' * mx_x mat + x') div mx_x mat"
    "(y * mx_x mat + x) mod mx_x mat = (y' * mx_x mat + x') mod mx_x mat" by simp_all
  then show ?thesis using assms(2,4) by simp
qed

section \<open>Variable-sized arrays\<close>

definition varray_ok :: "nat \<Rightarrow> mem \<Rightarrow> varray \<Rightarrow> bool" where
  "varray_ok sz m v \<longleftrightarrow> array_ok sz m (va_data v) (int (va_size v))"

lemma varray_at_live:
  assumes "varray_ok sz m v" "varray_at sz v i = Inr a"
  shows "live m a sz" "aptr_ok sz m (aptr_of_varray v)"
proof -
  show "live m a sz"
    using assms array_ok_elem(2) [of sz m "va_data v" "int (va_size v)" "int i"]
    by (auto simp: varray_ok_def varray_at_def c_assert_Inr)
  have "int (va_size v) < 2 ^ 63" using assms(1) by (auto simp: varray_ok_def array_ok_def)
  with assms(1) show "aptr_ok sz m (aptr_of_varray v)"
    by (simp add: aptr_ok_def aptr_of_varray_def aptr_make0_def varray_ok_def)
qed

end
