(* ===== verification/Iron_String.thy ===== *)
theory Iron_String
  imports Iron_Memops
begin

text \<open>
  The string and memory wrappers of \<^verbatim>\<open>safe_string.hpp\<close>: each checks its arguments and then calls
  the function of the C library on the raw addresses. Characters are bytes, so the pointers
  here have elements of size 1, but for the four memory functions at the end.
\<close>

definition str_literal_size :: "mem \<Rightarrow> nat \<Rightarrow> nat res" where
  "str_literal_size m str = rbind (c_strlen m str) (\<lambda>n. Inr (n + 1))"

definition WRAP_LITERAL :: "mem \<Rightarrow> nat \<Rightarrow> aptr res" where
  "WRAP_LITERAL m x = rbind (str_literal_size m x) (\<lambda>n. Inr (aptr_make0 x (int n)))"

text \<open>The checks look at \<open>getSize()\<close> bytes from the current element on.\<close>

definition NULL_TERM_CHECK :: "mem \<Rightarrow> aptr \<Rightarrow> 'a res \<Rightarrow> 'a res" where
  "NULL_TERM_CHECK m s r =
     rbind (c_memchr m (aptr_convert_to_raw 1 s) 0 (nat (ulong (a_size s)))) (\<lambda>found.
       c_assert ''memchr(s, 0, s.getSize()) != NULL'' (found \<noteq> None) r)"

fun strlen_loop :: "mem \<Rightarrow> nat \<Rightarrow> nat \<Rightarrow> nat \<Rightarrow> nat res" where
  "strlen_loop m raw_str c 0 = Inl (Abort ''false'')"
| "strlen_loop m raw_str c (Suc k) =
     rbind (rd m (raw_str + c) 1) (\<lambda>v. if v = [0] then Inr c else strlen_loop m raw_str (Suc c) k)"

definition safe_strlen :: "mem \<Rightarrow> aptr \<Rightarrow> nat res" where
  "safe_strlen m str = strlen_loop m (aptr_convert_to_raw 1 str) 0 (nat (ulong (a_size str)))"

text \<open>\<open>int len = strlen(...)\<close>, then converted back to \<open>size_t\<close>.\<close>

definition int_strlen :: "mem \<Rightarrow> aptr \<Rightarrow> nat res" where
  "int_strlen m src = rbind (c_strlen m (aptr_convert_to_raw 1 src)) (\<lambda>n. Inr (size_of_int (int_of_size n)))"

definition safe_strcat :: "mem \<Rightarrow> aptr \<Rightarrow> aptr \<Rightarrow> (aptr \<times> mem) res" where
  "safe_strcat m dst src =
     NULL_TERM_CHECK m src (rbind (int_strlen m src) (\<lambda>len.
       c_assert ''dst.spatialCheck(len)'' (aptr_spatialCheck 1 dst len)
         (rbind (c_strcat m (aptr_convert_to_raw 1 dst) (aptr_convert_to_raw 1 src)) (\<lambda>m. Inr (dst, m)))))"

definition safe_strcat_stack :: "mem \<Rightarrow> laptr \<Rightarrow> aptr \<Rightarrow> (laptr \<times> mem) res" where
  "safe_strcat_stack m dst src =
     NULL_TERM_CHECK m src (rbind (int_strlen m src) (\<lambda>len.
       c_assert ''dst.spatialCheck(len)'' (laptr_spatialCheck 1 dst len)
         (rbind (c_strcat m (laptr_convert_to_raw 1 dst) (aptr_convert_to_raw 1 src)) (\<lambda>m. Inr (dst, m)))))"

definition safe_strncat :: "mem \<Rightarrow> aptr \<Rightarrow> aptr \<Rightarrow> nat \<Rightarrow> (aptr \<times> mem) res" where
  "safe_strncat m dst src num =
     NULL_TERM_CHECK m src
       (c_assert ''dst.spatialCheck(num)'' (aptr_spatialCheck 1 dst num)
         (rbind (c_strncat m (aptr_convert_to_raw 1 dst) (aptr_convert_to_raw 1 src) num) (\<lambda>m. Inr (dst, m))))"

definition safe_strcmp :: "mem \<Rightarrow> aptr \<Rightarrow> aptr \<Rightarrow> int res" where
  "safe_strcmp m str1 str2 =
     NULL_TERM_CHECK m str1 (NULL_TERM_CHECK m str2
       (c_strcmp2 m (aptr_convert_to_raw 1 str1) (aptr_convert_to_raw 1 str2)))"

text \<open>The results of the two checks are not used.\<close>

definition safe_strncmp :: "mem \<Rightarrow> aptr \<Rightarrow> aptr \<Rightarrow> nat \<Rightarrow> int res" where
  "safe_strncmp m str1 str2 num =
     (let _ = aptr_spatialCheck 1 str1 num; _ = aptr_spatialCheck 1 str2 num
      in c_strncmp m (aptr_convert_to_raw 1 str1) (aptr_convert_to_raw 1 str2) num)"

text \<open>
  \<open>strtok\<close> of the C library is an argument: it returns the address of a token, or 0, and the
  memory with the token terminated. \<open>oldString\<close> is the static variable of the function.
\<close>

definition safe_strtok :: "(mem \<Rightarrow> nat \<Rightarrow> nat \<Rightarrow> (nat \<times> mem) res) \<Rightarrow> mem \<Rightarrow> aptr \<Rightarrow> aptr \<Rightarrow> aptr \<Rightarrow>
    (aptr \<times> aptr \<times> mem) res" where
  "safe_strtok strtok m oldString str del =
     (let check = (\<lambda>s r. if aptr_ne_raw 1 s 0 then NULL_TERM_CHECK m s r else r);
          oldString' = (if aptr_ne_raw 1 str 0 then str else oldString)
      in check str (check del
           (rbind (strtok m (aptr_convert_to_raw 1 str) (aptr_convert_to_raw 1 del)) (\<lambda>(result, m).
             if result \<noteq> 0 then
               let index = int result - int (aptr_convert_to_raw 1 oldString')
               in Inr (aptr_make (aptr_convert_to_raw 1 oldString') (a_size oldString') index, oldString', m)
             else Inr (aptr_null, oldString', m)))))"

definition safe_strcpy :: "mem \<Rightarrow> aptr \<Rightarrow> aptr \<Rightarrow> (aptr \<times> mem) res" where
  "safe_strcpy m str1 str2 =
     NULL_TERM_CHECK m str2 (rbind (c_strlen m (aptr_convert_to_raw 1 str2)) (\<lambda>len.
       c_assert ''str1.spatialCheck(len)'' (aptr_spatialCheck 1 str1 len)
         (rbind (c_strcpy m (aptr_convert_to_raw 1 str1) (aptr_convert_to_raw 1 str2)) (\<lambda>m. Inr (aptr_copy str1, m)))))"

definition safe_strncpy :: "mem \<Rightarrow> aptr \<Rightarrow> aptr \<Rightarrow> nat \<Rightarrow> (aptr \<times> mem) res" where
  "safe_strncpy m str1 str2 num =
     c_assert ''str1.getSize() >= num'' (ulong (a_size str1) \<ge> int num)
       (c_assert ''str2.getSize() >= num'' (ulong (a_size str2) \<ge> int num)
         (rbind (c_strncpy m (aptr_convert_to_raw 1 str1) (aptr_convert_to_raw 1 str2) num) (\<lambda>m. Inr (aptr_copy str1, m))))"

text \<open>The character is an \<open>int\<close>, of which \<open>strchr\<close> takes the low byte.\<close>

definition safe_strchr :: "mem \<Rightarrow> aptr \<Rightarrow> int \<Rightarrow> aptr res" where
  "safe_strchr m str character =
     NULL_TERM_CHECK m str (rbind (c_strchr2 m (aptr_convert_to_raw 1 str) (word_of_int character)) (\<lambda>result.
       case result of
         Some a \<Rightarrow> (let index = int a - int (aptr_convert_to_raw 1 str) in Inr (aptr_make a (a_size str) index))
       | None \<Rightarrow> Inr aptr_null))"

text \<open>The memory functions; the size is in bytes.\<close>

definition safe_memset :: "nat \<Rightarrow> mem \<Rightarrow> aptr \<Rightarrow> int \<Rightarrow> nat \<Rightarrow> (aptr \<times> mem) res" where
  "safe_memset sz m p v n =
     c_assert ''p.spatialCheck(size)'' (aptr_spatialCheck sz p n)
       (rbind (c_memset m (aptr_convert_to_raw sz p) (word_of_int v) n) (\<lambda>m. Inr (p, m)))"

definition safe_memcpy :: "nat \<Rightarrow> mem \<Rightarrow> aptr \<Rightarrow> aptr \<Rightarrow> nat \<Rightarrow> (aptr \<times> mem) res" where
  "safe_memcpy sz m dest src n =
     c_assert ''src.spatialCheck(size)'' (aptr_spatialCheck sz src n)
       (c_assert ''dest.spatialCheck(size)'' (aptr_spatialCheck sz dest n)
         (rbind (c_memcpy m (aptr_convert_to_raw sz dest) (aptr_convert_to_raw sz src) n) (\<lambda>m. Inr (dest, m))))"

definition safe_memmove :: "nat \<Rightarrow> mem \<Rightarrow> aptr \<Rightarrow> aptr \<Rightarrow> nat \<Rightarrow> (aptr \<times> mem) res" where
  "safe_memmove sz m dest src n =
     c_assert ''src.spatialCheck(size)'' (aptr_spatialCheck sz src n)
       (c_assert ''dest.spatialCheck(size)'' (aptr_spatialCheck sz dest n)
         (rbind (c_memmove m (aptr_convert_to_raw sz dest) (aptr_convert_to_raw sz src) n) (\<lambda>m. Inr (dest, m))))"

definition safe_memcmp :: "nat \<Rightarrow> mem \<Rightarrow> aptr \<Rightarrow> aptr \<Rightarrow> nat \<Rightarrow> int res" where
  "safe_memcmp sz m ptr1 ptr2 n =
     c_assert ''ptr1.spatialCheck(size)'' (aptr_spatialCheck sz ptr1 n)
       (c_assert ''ptr2.spatialCheck(size)'' (aptr_spatialCheck sz ptr2 n)
         (c_memcmp m (aptr_convert_to_raw sz ptr1) (aptr_convert_to_raw sz ptr2) n))"

section \<open>The spatial check\<close>

text \<open>
  With an index that is not negative and a size that is a multiple of the element size, the
  check accepts exactly the sizes that fit into the array from the current element on.
\<close>

lemma raw_ok:
  assumes "aptr_ok sz m p" "0 \<le> a_index p" "a_index p < a_size p"
  shows "aptr_convert_to_raw sz p = aptr_first sz p"
  using array_ok_elem(1) [of sz m "a_data p" "a_size p" "a_index p"] assms
  by (simp add: aptr_convert_to_raw_def aptr_first_def aptr_ok_def)

lemma spatialCheck_fits:
  assumes "aptr_ok sz m p" "0 \<le> a_index p" "n = k * sz" "n < 2 ^ 63" "a_index p < 2 ^ 62" "k < 2 ^ 62"
  shows "aptr_spatialCheck sz p n \<longleftrightarrow> a_index p + int k \<le> a_size p"
proof -
  have sz: "0 < sz" "0 \<le> a_size p" "a_size p < 2 ^ 63" using assms(1) by (auto simp: aptr_ok_def array_ok_def)
  with assms show ?thesis by (simp add: aptr_spatialCheck_def)
qed

text \<open>Bytes that fit are live.\<close>

lemma fits_live:
  assumes "aptr_ok sz m p" "0 \<le> a_index p" "a_index p + int k \<le> a_size p" "0 < k"
  shows "live m (aptr_convert_to_raw sz p) (k * sz)"
proof -
  have raw: "aptr_convert_to_raw sz p = aptr_first sz p" using raw_ok [OF assms(1,2)] assms(3,4) by simp
  have "k \<le> nat (a_size p - a_index p)" using assms(2,3) by simp
  from array_ok_from [OF assms(1) [unfolded aptr_ok_def] assms(2) this] show ?thesis
    by (simp add: raw aptr_first_def)
qed

text \<open>The arguments on which the memory functions are safe.\<close>

definition range_arg :: "nat \<Rightarrow> mem \<Rightarrow> aptr \<Rightarrow> nat \<Rightarrow> bool" where
  "range_arg sz m p n \<longleftrightarrow>
     aptr_ok sz m p \<and> 0 \<le> a_index p \<and> a_index p < 2 ^ 62 \<and> sz dvd n \<and> 0 < n \<and> n < 2 ^ 62"

lemma range_arg_live:
  assumes "range_arg sz m p n" "aptr_spatialCheck sz p n"
  shows "live m (aptr_convert_to_raw sz p) n"
proof -
  obtain k where k: "n = k * sz" using assms(1) by (auto simp: range_arg_def dvd_def mult.commute)
  have sz: "0 < sz" using assms(1) by (simp add: range_arg_def aptr_ok_def array_ok_def)
  have "k * 1 \<le> k * sz" using sz by (intro mult_left_mono) auto
  then have "k < 2 ^ 62" using k assms(1) unfolding range_arg_def by linarith
  moreover have "0 < k" using k assms(1) by (auto simp: range_arg_def)
  ultimately show ?thesis
    using fits_live [of sz m p k] spatialCheck_fits [of sz m p n k] k assms by (auto simp: range_arg_def)
qed

lemma safe_memset_ok:
  assumes "range_arg sz m p n" "mem_ok m"
  shows "case safe_memset sz m p v n of
      Inl e \<Rightarrow> \<not> aptr_spatialCheck sz p n \<and> (\<exists>s. e = Abort s)
    | Inr (q, m') \<Rightarrow> q = p \<and> aptr_spatialCheck sz p n \<and>
        elements_set n (aptr_convert_to_raw sz p) 1 (\<lambda>_. replicate n (word_of_int v)) m m'"
proof (cases "aptr_spatialCheck sz p n")
  case True
  let ?a = "aptr_convert_to_raw sz p" and ?v = "replicate n (word_of_int v)"
  obtain m' where m': "wr m ?a ?v = Inr m'" using wr_live [of m ?a ?v] range_arg_live [OF assms(1) True] by auto
  have "elements_set n ?a 1 (\<lambda>_. ?v) m m'"
    using elements_set_Suc [OF assms(2), of n ?a 0 "\<lambda>_. ?v" m m'] m' by simp
  with True m' show ?thesis by (simp add: safe_memset_def c_memset_def)
qed (simp add: safe_memset_def)

text \<open>\<open>memmove\<close> moves the bytes that were there before the call, overlapping or not.\<close>

lemma safe_memmove_ok:
  assumes "range_arg sz m p n" "range_arg sz m q n" "mem_ok m"
    "aptr_spatialCheck sz p n" "aptr_spatialCheck sz q n"
  shows "\<exists>m'. safe_memmove sz m p q n = Inr (p, m') \<and>
    elements_set n (aptr_convert_to_raw sz p) 1 (\<lambda>_. slice m (aptr_convert_to_raw sz q) n) m m'"
proof -
  let ?a = "aptr_convert_to_raw sz p" and ?b = "aptr_convert_to_raw sz q"
  have rd: "rd m ?b n = Inr (slice m ?b n)" using rd_slice [OF assms(3) range_arg_live [OF assms(2,5)]] .
  obtain m' where m': "wr m ?a (slice m ?b n) = Inr m'"
    using wr_live [of m ?a "slice m ?b n"] range_arg_live [OF assms(1,4)] by auto
  have "elements_set n ?a 1 (\<lambda>_. slice m ?b n) m m'"
    using elements_set_Suc [OF assms(3), of n ?a 0 "\<lambda>_. slice m ?b n" m m'] m' by simp
  with rd m' assms(4,5) show ?thesis by (simp add: safe_memmove_def c_memmove_def)
qed

lemma safe_memcpy_ok:
  assumes "range_arg sz m p n" "range_arg sz m q n" "mem_ok m"
    "aptr_spatialCheck sz p n" "aptr_spatialCheck sz q n"
    "aptr_convert_to_raw sz p + n \<le> aptr_convert_to_raw sz q \<or> aptr_convert_to_raw sz q + n \<le> aptr_convert_to_raw sz p"
  shows "safe_memcpy sz m p q n = safe_memmove sz m p q n"
  using assms(4-6) by (auto simp: safe_memcpy_def safe_memmove_def c_memcpy_def)

section \<open>Strings\<close>

text \<open>A pointer to the first character of an array that holds a string.\<close>

definition string_arg :: "mem \<Rightarrow> aptr \<Rightarrow> 8 word list \<Rightarrow> bool" where
  "string_arg m p s \<longleftrightarrow>
     aptr_ok 1 m p \<and> a_index p = 0 \<and> int (length s) < a_size p \<and> 0 \<notin> set s \<and>
     slice m (a_data p) (length s + 1) = s @ [0]"

lemma raw_start: "aptr_ok 1 m p \<Longrightarrow> a_index p = 0 \<Longrightarrow> 0 < a_size p \<Longrightarrow> aptr_convert_to_raw (Suc 0) p = a_data p"
  using raw_ok [of "Suc 0" m p] by (simp add: aptr_first_def)

lemma size_live: "aptr_ok 1 m p \<Longrightarrow> n \<le> nat (a_size p) \<Longrightarrow> live m (a_data p) n"
  using array_ok_from [of 1 m "a_data p" "a_size p" 0 n] by (simp add: aptr_ok_def)

lemma takeWhile_upto: "0 \<notin> set s \<Longrightarrow> takeWhile (\<lambda>v. v \<noteq> (0 :: 8 word)) (s @ 0 # t) = s"
  by (induction s) auto

text \<open>What the bytes from the start of a string argument to the end of its block look like.\<close>

lemma string_arg_rest:
  assumes "mem_ok m" "string_arg m p s"
  shows "\<exists>t. rest m (a_data p) = s @ 0 # t \<and> nat (a_size p) \<le> length (rest m (a_data p))"
proof -
  have p: "aptr_ok 1 m p" "length s + 1 \<le> nat (a_size p)" "slice m (a_data p) (length s + 1) = s @ [0]"
    using assms(2) by (auto simp: string_arg_def)
  have "take (length s + 1) (rest m (a_data p)) = s @ [0]"
    using rest_slice(2) [OF assms(1) size_live [OF p(1,2)]] p(3) by simp
  then have "rest m (a_data p) = (s @ [0]) @ drop (length s + 1) (rest m (a_data p))"
    by (metis append_take_drop_id)
  with rest_slice(1) [OF assms(1) size_live [OF p(1) order_refl]] show ?thesis by auto
qed

lemma string_arg_c_string:
  assumes "mem_ok m" "string_arg m p s"
  shows "aptr_convert_to_raw (Suc 0) p = a_data p" "c_string m (a_data p) = Inr s"
    "NULL_TERM_CHECK m p r = r"
proof -
  show raw: "aptr_convert_to_raw (Suc 0) p = a_data p" using assms(2) raw_start [of m p] by (simp add: string_arg_def)
  obtain t where t: "rest m (a_data p) = s @ 0 # t" "nat (a_size p) \<le> length (rest m (a_data p))"
    using string_arg_rest [OF assms] by blast
  have s: "0 \<notin> set s" "int (length s) < a_size p" using assms(2) by (auto simp: string_arg_def)
  then show "c_string m (a_data p) = Inr s" by (simp add: c_string_def t(1) takeWhile_upto)
  have sz: "a_size p < 2 ^ 63" using assms(2) s(2) by (auto simp: string_arg_def aptr_ok_def array_ok_def)
  then have n: "nat (ulong (a_size p)) = nat (a_size p)" using s(2) by simp
  obtain k where k: "nat (a_size p) = length s + Suc k" using s(2) by (metis add_Suc_right less_imp_Suc_add zless_nat_eq_int_zless)
  have "take (nat (a_size p)) (rest m (a_data p)) = s @ 0 # take k t" by (simp add: t(1) k)
  with s(1) show "NULL_TERM_CHECK m p r = r"
    by (simp add: NULL_TERM_CHECK_def c_memchr_def raw n takeWhile_upto)
qed

lemma strlen_loop_ok:
  assumes "mem_ok m" "live m a (c + k)"
  shows "strlen_loop m a c k =
    (let v = drop c (slice m a (c + k)) in
     if 0 \<in> set v then Inr (c + length (takeWhile (\<lambda>x. x \<noteq> 0) v)) else Inl (Abort ''false''))"
  using assms(2)
proof (induction k arbitrary: c)
  case (Suc k)
  have "live m (a + c) 1" using Suc.prems live_le [of m a "c + Suc k" "a + c" 1] by simp
  then have rd: "rd m (a + c) 1 = Inr [the (byte_at m (a + c))]"
    using rd_slice [OF assms(1)] by (simp add: slice_def)
  have v: "drop c (slice m a (Suc (c + k))) = the (byte_at m (a + c)) # drop (Suc c) (slice m a (Suc (c + k)))"
    by (simp add: Cons_nth_drop_Suc [symmetric])
  show ?case
    using Suc.IH [of "Suc c"] Suc.prems rd by (simp add: v Let_def)
qed simp

text \<open>\<open>safe_strlen\<close> on the start of an array: the length of the string in it, or an abort.\<close>

lemma safe_strlen_ok:
  assumes "mem_ok m" "aptr_ok 1 m p" "a_index p = 0" "0 < a_size p"
  shows "safe_strlen m p =
    (let v = slice m (a_data p) (nat (a_size p)) in
     if 0 \<in> set v then Inr (length (takeWhile (\<lambda>x. x \<noteq> 0) v)) else Inl (Abort ''false''))"
proof -
  have "a_size p < 2 ^ 63" using assms(2,4) by (auto simp: aptr_ok_def array_ok_def)
  then have n: "nat (ulong (a_size p)) = nat (a_size p)" using assms(4) by simp
  show ?thesis
    using strlen_loop_ok [OF assms(1), of "a_data p" 0 "nat (a_size p)"] size_live [OF assms(2) order_refl]
    by (simp add: safe_strlen_def raw_start [OF assms(2-4)] n Let_def)
qed

text \<open>A string argument in the words of the length function, and after a write beside it.\<close>

lemma string_arg_strlen:
  assumes "mem_ok m" "string_arg m p s"
  shows "safe_strlen m p = Inr (length s)"
proof -
  have p: "aptr_ok 1 m p" "a_index p = 0" "int (length s) < a_size p" "0 \<notin> set s"
    "slice m (a_data p) (length s + 1) = s @ [0]"
    using assms(2) by (auto simp: string_arg_def)
  define k where "k = nat (a_size p) - (length s + 1)"
  then have k: "nat (a_size p) = (length s + 1) + k" using p(3) by simp
  have "slice m (a_data p) (nat (a_size p)) = slice m (a_data p) (length s + 1) @ slice m (a_data p + (length s + 1)) k"
    unfolding k by (rule slice_add)
  then have "slice m (a_data p) (nat (a_size p)) = s @ 0 # slice m (a_data p + (length s + 1)) k"
    unfolding p(5) by simp
  with safe_strlen_ok [OF assms(1) p(1,2)] p(3,4) show ?thesis by (simp add: takeWhile_upto)
qed

lemma string_arg_wr_other:
  assumes "mem_ok m" "wr m a vs = Inr m'" "string_arg m q s"
    "a_data q + (length s + 1) \<le> a \<or> a + length vs \<le> a_data q"
  shows "string_arg m' q s"
proof -
  have l: "layout m' = layout m" using wr_layout [OF assms(2)] by simp
  show ?thesis
    using slice_wr_other [OF assms(1,2,4)] array_ok_layout [OF l] assms(3) by (simp add: string_arg_def aptr_ok_def)
qed

text \<open>
  \<open>safe_strcpy\<close> with room for the terminator makes a copy of the string; the check in the
  code does not ask for that room.
\<close>

lemma safe_strcpy_ok:
  assumes "mem_ok m" "string_arg m q s" "aptr_ok 1 m p" "a_index p = 0" "int (length s) < a_size p"
  shows "\<exists>m'. safe_strcpy m p q = Inr (p, m') \<and> string_arg m' p s \<and> wr m (a_data p) (s @ [0]) = Inr m'"
proof -
  have sz: "a_size p < 2 ^ 63" "0 < a_size p" using assms(3,5) by (auto simp: aptr_ok_def array_ok_def)
  have chk: "aptr_spatialCheck (Suc 0) p (length s)" using assms(4,5) sz by (simp add: aptr_spatialCheck_def)
  have raw: "aptr_convert_to_raw (Suc 0) p = a_data p" using raw_start [OF assms(3,4) sz(2)] .
  have "live m (a_data p) (length (s @ [0]))" using size_live [OF assms(3)] assms(5) by simp
  then obtain m' where m': "wr m (a_data p) (s @ [0]) = Inr m'" "layout m' = layout m" using wr_live by blast
  have "string_arg m' p s"
    using slice_wr [OF assms(1) m'(1)] assms(2-5) array_ok_layout [OF m'(2)]
    by (simp add: string_arg_def aptr_ok_def)
  with m' chk raw show ?thesis
    by (simp add: string_arg_c_string [OF assms(1,2)] safe_strcpy_def c_strlen_def c_strcpy_def aptr_copy_def)
qed

text \<open>Comparison of two strings, with the sign of the lexicographic order of their bytes.\<close>

lemma cmp_bytes_lexord:
  "cmp_bytes v w = 0 \<longleftrightarrow> v = w" "cmp_bytes v w < 0 \<longleftrightarrow> (v, w) \<in> lexord {(x, y). x < y}"
  by (induction v w rule: cmp_bytes.induct) auto

lemma safe_strcmp_ok:
  assumes "mem_ok m" "string_arg m p s" "string_arg m q t"
  shows "safe_strcmp m p q = Inr (cmp_bytes s t)"
  by (simp add: safe_strcmp_def c_strcmp2_def string_arg_c_string [OF assms(1,2)] string_arg_c_string [OF assms(1,3)])

end
