(* ===== verification/Iron_Util.thy ===== *)
theory Iron_Util
  imports Iron_Array Iron_String
begin

text \<open>
  The allocation functions of \<^verbatim>\<open>util.hpp\<close>, the casts of \<^verbatim>\<open>casts.hpp\<close> and the wrappers of
  \<^verbatim>\<open>safe_io.hpp\<close> whose checks decide what they access.

  The allocator (\<open>IC_MALLOC\<close>, \<open>malloc\<close> or the collector's) is an argument \<open>alloc\<close>: given the
  memory and a size it returns an address, 0 when there is no memory, and the memory with the
  new block. A constructor of \<open>T\<close> is an argument \<open>ctor\<close>, a function of the address of the
  object.
\<close>

section \<open>Allocation\<close>

type_synonym allocator = "mem \<Rightarrow> nat \<Rightarrow> nat \<times> mem"
type_synonym constructor = "nat \<Rightarrow> mem \<Rightarrow> mem res"

text \<open>\<open>new(buffer) T[n]\<close> constructs the elements in order.\<close>

definition construct_all :: "constructor \<Rightarrow> nat \<Rightarrow> nat \<Rightarrow> nat \<Rightarrow> mem \<Rightarrow> mem res" where
  "construct_all ctor sz buffer n m = for_each (\<lambda>c. ctor (buffer + c * sz)) 0 n m"

definition new_ptr :: "allocator \<Rightarrow> constructor \<Rightarrow> nat \<Rightarrow> mem \<Rightarrow> (ptr \<times> mem) res" where
  "new_ptr alloc ctor sz m =
     (let (buffer, m) = alloc m sz in rbind (ctor buffer m) (\<lambda>m. Inr (ptr_of_raw buffer, m)))"

definition new_array :: "allocator \<Rightarrow> constructor \<Rightarrow> nat \<Rightarrow> nat \<Rightarrow> mem \<Rightarrow> (aptr \<times> mem) res" where
  "new_array alloc ctor sz n m =
     (let (buffer, m) = alloc m (n * sz mod size_max)
      in rbind (construct_all ctor sz buffer n m) (\<lambda>m. Inr (aptr_make0 buffer (long_wrap (int n)), m)))"

definition new_matrix :: "allocator \<Rightarrow> constructor \<Rightarrow> nat \<Rightarrow> nat \<Rightarrow> nat \<Rightarrow> mem \<Rightarrow> (matrix \<times> mem) res" where
  "new_matrix alloc ctor sz x_size y_size m =
     c_assert ''x_size > 0 && y_size > 0'' (x_size > 0 \<and> y_size > 0)
       (let (buffer, m) = alloc m (sz * x_size * y_size mod size_max)
        in rbind (construct_all ctor sz buffer (x_size * y_size mod size_max) m) (\<lambda>m.
             Inr (matrix_make buffer x_size y_size, m)))"

text \<open>A \<open>size_t\<close> as its eight bytes, the lowest first.\<close>

definition le64 :: "nat \<Rightarrow> 8 word list" where
  "le64 n = map (\<lambda>i. word_of_nat (n div 256 ^ i)) [0..<8]"

text \<open>
  \<open>new_variable_ptr\<close> writes the size at the place where the size field of a \<open>varray\<close> at the
  end of \<open>S\<close> is taken to be; \<open>ssz\<close> is \<open>sizeof(S)\<close>.
\<close>

definition new_variable_ptr :: "allocator \<Rightarrow> constructor \<Rightarrow> nat \<Rightarrow> nat \<Rightarrow> nat \<Rightarrow> mem \<Rightarrow> (ptr \<times> mem) res" where
  "new_variable_ptr alloc ctor ssz sz vSize m =
     (let (buffer, m) = alloc m ((ssz - sz + vSize * sz) mod size_max)
      in rbind (ctor buffer m) (\<lambda>m.
         let sizeLoc = buffer + ssz - sz - 8
         in rbind (wr m sizeLoc (le64 vSize)) (\<lambda>m.
            rbind (rd m sizeLoc 8) (\<lambda>v.
              c_assert ''*size != 0 && buffer != 0'' (v \<noteq> replicate 8 0 \<and> buffer \<noteq> 0)
                (c_assert ''buffer != 0'' (buffer \<noteq> 0) (Inr (ptr_of_raw buffer, m)))))))"

function align_loop :: "nat \<Rightarrow> nat \<Rightarrow> nat" where
  "align_loop align buffer = (if 0 < align \<and> buffer mod align \<noteq> 0 then align_loop align (Suc buffer) else buffer)"
  by pat_completeness auto
termination
  by (relation "measure (\<lambda>(align, buffer). (align - buffer mod align) mod align)")
    (auto simp: mod_Suc intro!: diff_less_mono2)

definition new_aligned_array :: "allocator \<Rightarrow> constructor \<Rightarrow> nat \<Rightarrow> nat \<Rightarrow> nat \<Rightarrow> mem \<Rightarrow> (aptr \<times> mem) res" where
  "new_aligned_array alloc ctor sz n align m =
     (let (buffer, m) = alloc m ((n * sz + align) mod size_max)
      in if align = 0 then Inl BadArg
         else let buffer = align_loop align buffer
           in rbind (construct_all ctor sz buffer n m) (\<lambda>m. Inr (aptr_make0 buffer (long_wrap (int n)), m)))"

definition construct_ptr :: "nat \<Rightarrow> ptr" where
  "construct_ptr p = ptr_of_raw p"

definition construct_aptr :: "nat \<Rightarrow> nat \<Rightarrow> aptr" where
  "construct_aptr p n = aptr_make0 p (long_wrap (int n))"

text \<open>The lowest-addressed byte of an \<open>int\<close>, on a little-endian or a big-endian machine.\<close>

definition first_byte :: "bool \<Rightarrow> nat \<Rightarrow> nat" where
  "first_byte little_endian n = (if little_endian then n mod 256 else n div 2 ^ 24 mod 256)"

definition isSystemLittleEndian :: "bool \<Rightarrow> bool" where
  "isSystemLittleEndian little_endian = (let test = 0 in first_byte little_endian test \<noteq> 0)"

text \<open>The new array of pointers, one for each argument string.\<close>

fun handleArgv :: "mem \<Rightarrow> nat list \<Rightarrow> aptr list res" where
  "handleArgv m [] = Inr []"
| "handleArgv m (a # argv) = rbind (WRAP_LITERAL m a) (\<lambda>p. rbind (handleArgv m argv) (\<lambda>ps. Inr (p # ps)))"

text \<open>\<open>new\<close> throws when there is no memory; it does not return null.\<close>

definition cpp_new :: "allocator \<Rightarrow> nat \<Rightarrow> mem \<Rightarrow> (nat \<times> mem) res" where
  "cpp_new alloc n m = (let (buffer, m) = alloc m n in if buffer = 0 then Inl (Abort ''bad_alloc'') else Inr (buffer, m))"

definition calloc_ptr :: "allocator \<Rightarrow> constructor \<Rightarrow> nat \<Rightarrow> mem \<Rightarrow> (ptr \<times> mem) res" where
  "calloc_ptr alloc ctor sz m =
     rbind (cpp_new alloc sz m) (\<lambda>(buffer, m).
     rbind (ctor buffer m) (\<lambda>m.
     rbind (c_memset m buffer 0 sz) (\<lambda>m.
     rbind (ctor buffer m) (\<lambda>m. Inr (ptr_of_raw buffer, m)))))"

definition safe_calloc :: "allocator \<Rightarrow> constructor \<Rightarrow> nat \<Rightarrow> nat \<Rightarrow> mem \<Rightarrow> (aptr \<times> mem) res" where
  "safe_calloc alloc ctor sz num m =
     rbind (cpp_new alloc (num * sz mod size_max) m) (\<lambda>(buffer, m).
     rbind (c_memset m buffer 0 (num * sz mod size_max)) (\<lambda>m.
     rbind (construct_all ctor sz buffer num m) (\<lambda>m. Inr (aptr_make0 buffer (long_wrap (int num)), m))))"

definition safe_realloc :: "bool \<Rightarrow> allocator \<Rightarrow> constructor \<Rightarrow> nat \<Rightarrow> aptr \<Rightarrow> nat \<Rightarrow> mem \<Rightarrow> (aptr \<times> mem) res" where
  "safe_realloc gc alloc ctor sz oldPtr n m =
     c_assert ''size > 0'' (n > 0)
       (rbind (aptr_free gc m oldPtr) (\<lambda>(m, oldPtr).
          let newSize = n div sz
          in rbind (cpp_new alloc (newSize * sz) m) (\<lambda>(buffer, m).
             rbind (construct_all ctor sz buffer newSize m) (\<lambda>m.
               let newPtr = aptr_make0 buffer (long_wrap (int newSize))
               in rbind (c_memcpy m (aptr_convert_to_raw sz newPtr) (aptr_convert_to_raw sz oldPtr) n) (\<lambda>m.
                    Inr (newPtr, m))))))"

text \<open>\<open>buf\<close> is what \<open>mmap\<close> returned.\<close>

definition safe_mmap :: "nat \<Rightarrow> nat \<Rightarrow> aptr" where
  "safe_mmap buf len = (if len = 0 then aptr_null else aptr_make0 buf (long_wrap (int len)))"

text \<open>\<open>reduce2\<close>, over the function \<open>f\<close> and the addition \<open>add\<close> of the type \<open>T3\<close>.\<close>

fun reduce_loop :: "nat \<Rightarrow> nat \<Rightarrow> (8 word list \<Rightarrow> 8 word list \<Rightarrow> 'v) \<Rightarrow> ('v \<Rightarrow> 'v \<Rightarrow> 'v) \<Rightarrow> nat \<Rightarrow> nat \<Rightarrow> int \<Rightarrow> nat \<Rightarrow>
    'v \<Rightarrow> mem \<Rightarrow> 'v res" where
  "reduce_loop sz1 sz2 f add i1 i2 i 0 v m = Inr v"
| "reduce_loop sz1 sz2 f add i1 i2 i (Suc k) v m =
     rbind (rd m (elem_addr sz1 i1 i) sz1) (\<lambda>x. rbind (rd m (elem_addr sz2 i2 i) sz2) (\<lambda>y.
       reduce_loop sz1 sz2 f add i1 i2 (i + 1) k (add v (f x y)) m))"

definition reduce2 :: "nat \<Rightarrow> nat \<Rightarrow> nat \<Rightarrow> (8 word list \<Rightarrow> 8 word list \<Rightarrow> 'v) \<Rightarrow> ('v \<Rightarrow> 'v \<Rightarrow> 'v) \<Rightarrow>
    aptr \<Rightarrow> aptr \<Rightarrow> int \<Rightarrow> int \<Rightarrow> 'v \<Rightarrow> mem \<Rightarrow> 'v res" where
  "reduce2 sz1 sz2 sz3 f add input1 input2 start fin init m =
     c_assert ''input1.spatialCheck(start * sizeof(T2))'' (aptr_spatialCheck sz1 input1 (nat (ulong (start * int sz2))))
     (c_assert ''input1.spatialCheck(end * sizeof(T2))'' (aptr_spatialCheck sz1 input1 (nat (ulong (fin * int sz2))))
     (c_assert ''input2.spatialCheck(start * sizeof(T3))'' (aptr_spatialCheck sz2 input2 (nat (ulong (start * int sz3))))
     (c_assert ''input2.spatialCheck(end * sizeof(T3))'' (aptr_spatialCheck sz2 input2 (nat (ulong (fin * int sz3))))
       (reduce_loop sz1 sz2 f add (aptr_convert_to_raw sz1 input1) (aptr_convert_to_raw sz2 input2)
          start (nat (fin - start)) init m))))"

section \<open>Casts\<close>

definition internal_cast_ptr :: "ptr \<Rightarrow> ptr" where
  "internal_cast_ptr p = ptr_of_raw (ptr_convert_to_raw p)"

text \<open>From elements of size \<open>t\<close> to elements of size \<open>u\<close>; \<open>getSize() * sizeof(T)\<close> is unsigned.\<close>

definition internal_cast_aptr :: "nat \<Rightarrow> nat \<Rightarrow> aptr \<Rightarrow> aptr" where
  "internal_cast_aptr t u p =
     (let newSize = long_wrap (ulong (a_size p * int t) div int u) in aptr_make (a_data p) newSize (a_index p))"

definition internal_cast_laptr :: "nat \<Rightarrow> nat \<Rightarrow> nat \<Rightarrow> nat \<Rightarrow> laptr \<Rightarrow> laptr" where
  "internal_cast_laptr sp this t u p =
     (let newSize = long_wrap (ulong (la_size p * int t) div int u)
      in laptr_make sp this (la_data p) newSize (la_index p))"

text \<open>\<open>dyn\<close> is \<open>dynamic_cast\<close> on addresses; it returns 0 when the object is not of the class.\<close>

definition cast_ptr :: "(nat \<Rightarrow> nat) \<Rightarrow> ptr \<Rightarrow> ptr" where
  "cast_ptr dyn p = ptr_of_raw (dyn (ptr_convert_to_raw p))"

definition cast_double_uint :: "ptr \<Rightarrow> ptr" where
  "cast_double_uint p = internal_cast_ptr p"

definition cnst_cast_ptr :: "ptr \<Rightarrow> ptr" where
  "cnst_cast_ptr p = ptr_of_raw (ptr_convert_to_raw p)"

definition cast_aptr :: "(nat \<Rightarrow> nat) \<Rightarrow> aptr \<Rightarrow> aptr" where
  "cast_aptr dyn p = aptr_make (dyn (a_data p)) (a_size p) (a_index p)"

definition cast_uchar_char :: "aptr \<Rightarrow> aptr" where
  "cast_uchar_char = internal_cast_aptr 1 1"

definition cast_int_char :: "aptr \<Rightarrow> aptr" where
  "cast_int_char = internal_cast_aptr 4 1"

definition cast_double_char :: "aptr \<Rightarrow> aptr" where
  "cast_double_char = internal_cast_aptr 8 1"

definition cast_float_char :: "aptr \<Rightarrow> aptr" where
  "cast_float_char = internal_cast_aptr 4 1"

definition cast_uint_uchar :: "aptr \<Rightarrow> aptr" where
  "cast_uint_uchar = internal_cast_aptr 4 1"

definition cast_uchar_ushort :: "aptr \<Rightarrow> aptr" where
  "cast_uchar_ushort = internal_cast_aptr 1 2"

definition cast_char_uchar :: "aptr \<Rightarrow> aptr" where
  "cast_char_uchar = internal_cast_aptr 1 1"

definition cast_uint_ushort :: "aptr \<Rightarrow> aptr" where
  "cast_uint_ushort = internal_cast_aptr 4 2"

definition cnst_cast_aptr :: "aptr \<Rightarrow> aptr" where
  "cnst_cast_aptr p = aptr_make (a_data p) (a_size p) (a_index p)"

definition cast_lptr :: "(nat \<Rightarrow> nat) \<Rightarrow> nat \<Rightarrow> lptr \<Rightarrow> lptr" where
  "cast_lptr dyn sp p = lptr_of_raw sp (dyn (lptr_convert_to_raw p))"

definition cast_laptr :: "(nat \<Rightarrow> nat) \<Rightarrow> nat \<Rightarrow> nat \<Rightarrow> laptr \<Rightarrow> laptr" where
  "cast_laptr dyn sp this p = laptr_make sp this (dyn (la_data p)) (la_size p) (la_index p)"

definition cast_uchar_char_stack :: "nat \<Rightarrow> nat \<Rightarrow> laptr \<Rightarrow> laptr" where
  "cast_uchar_char_stack sp this = internal_cast_laptr sp this 1 1"

definition cast_long_uchar_stack :: "nat \<Rightarrow> nat \<Rightarrow> laptr \<Rightarrow> laptr" where
  "cast_long_uchar_stack sp this = internal_cast_laptr sp this 8 1"

section \<open>Streams\<close>

text \<open>
  A stream is the bytes still to be read, or the bytes written so far. \<open>fread\<close> stores what
  there is, up to \<open>size * count\<close> bytes, and returns the number of whole elements.
\<close>

definition safe_fread :: "nat \<Rightarrow> aptr \<Rightarrow> nat \<Rightarrow> nat \<Rightarrow> 8 word list \<Rightarrow> mem \<Rightarrow> (nat \<times> 8 word list \<times> mem) res" where
  "safe_fread sz p size' count stream m =
     c_assert ''size == sizeof(T)'' (size' = sz)
       (c_assert ''ptr.spatialCheck(count)'' (aptr_spatialCheck sz p count)
         (let bytes = take (size' * count) stream
          in rbind (wr m (aptr_convert_to_raw sz p) bytes) (\<lambda>m.
               Inr (length bytes div size', drop (size' * count) stream, m))))"

definition safe_fread_stack :: "nat \<Rightarrow> laptr \<Rightarrow> nat \<Rightarrow> nat \<Rightarrow> 8 word list \<Rightarrow> mem \<Rightarrow> (nat \<times> 8 word list \<times> mem) res" where
  "safe_fread_stack sz p size' count stream m =
     c_assert ''size == sizeof(T)'' (size' = sz)
       (c_assert ''ptr.spatialCheck(count)'' (laptr_spatialCheck sz p count)
         (let bytes = take (size' * count) stream
          in rbind (wr m (laptr_convert_to_raw sz p) bytes) (\<lambda>m.
               Inr (length bytes div size', drop (size' * count) stream, m))))"

definition safe_fwrite :: "nat \<Rightarrow> aptr \<Rightarrow> nat \<Rightarrow> nat \<Rightarrow> 8 word list \<Rightarrow> mem \<Rightarrow> (nat \<times> 8 word list) res" where
  "safe_fwrite sz p size' count stream m =
     c_assert ''size == sizeof(T)'' (size' = sz)
       (c_assert ''ptr.spatialCheck(count)'' (aptr_spatialCheck sz p count)
         (rbind (rd m (aptr_convert_to_raw sz p) (sz * count)) (\<lambda>bytes. Inr (count, stream @ bytes))))"

definition safe_fwrite_stack :: "nat \<Rightarrow> laptr \<Rightarrow> nat \<Rightarrow> nat \<Rightarrow> 8 word list \<Rightarrow> mem \<Rightarrow> (nat \<times> 8 word list) res" where
  "safe_fwrite_stack sz p size' count stream m =
     c_assert ''size == sizeof(T)'' (size' = sz)
       (c_assert ''ptr.spatialCheck(count)'' (laptr_spatialCheck sz p count)
         (rbind (rd m (laptr_convert_to_raw sz p) (sz * count)) (\<lambda>bytes. Inr (count, stream @ bytes))))"

text \<open>The line \<open>fgets\<close> reads: up to \<open>num - 1\<close> bytes, to the first newline or the end.\<close>

definition fgets_line :: "nat \<Rightarrow> 8 word list \<Rightarrow> 8 word list" where
  "fgets_line num stream =
     (let vs = take (num - 1) stream; l = takeWhile (\<lambda>v. v \<noteq> 10) vs
      in if length l < length vs then l @ [10] else l)"

definition safe_fgets :: "aptr \<Rightarrow> int \<Rightarrow> bool \<Rightarrow> 8 word list \<Rightarrow> mem \<Rightarrow> (aptr \<times> 8 word list \<times> mem) res" where
  "safe_fgets str num have_stream stream m =
     c_assert ''str != NULL'' (aptr_ne_raw 1 str 0)
       (c_assert ''stream != NULL'' have_stream
         (c_assert ''str.spatialCheck(num)'' (aptr_spatialCheck 1 str (size_of_int num))
           (let l = fgets_line (nat num) stream
            in if l = [] then Inr (aptr_null, stream, m)
               else rbind (wr m (aptr_convert_to_raw 1 str) (l @ [0])) (\<lambda>m.
                      Inr (aptr_make0 (aptr_convert_to_raw 1 str) (a_size str), drop (length l) stream, m)))))"

text \<open>
  The check of \<open>safe_printf\<close>, \<open>safe_fprintf\<close> and \<open>safe_fscanf\<close>: no more percent signs in the
  format than arguments.
\<close>

fun percent_loop :: "mem \<Rightarrow> aptr \<Rightarrow> nat \<Rightarrow> nat \<Rightarrow> nat \<Rightarrow> nat res" where
  "percent_loop m format c 0 total_args = Inr total_args"
| "percent_loop m format c (Suc k) total_args =
     rbind (aptr_index 1 format c) (\<lambda>a. rbind (rd m a 1) (\<lambda>v.
       percent_loop m format (Suc c) k (if v = [37] then Suc total_args else total_args)))"

definition format_check :: "mem \<Rightarrow> aptr \<Rightarrow> nat \<Rightarrow> 'a res \<Rightarrow> 'a res" where
  "format_check m format nargs r =
     rbind (safe_strlen m format) (\<lambda>n. rbind (percent_loop m format 0 n 0) (\<lambda>total_args.
       c_assert ''sizeof...(Args) >= total_args'' (nargs \<ge> total_args) r))"

declare align_loop.simps [simp del]

section \<open>Allocated storage\<close>

text \<open>What an allocator promises: no memory, or a fresh block of the size asked for.\<close>

definition alloc_ok :: "allocator \<Rightarrow> bool" where
  "alloc_ok alloc \<longleftrightarrow>
     (\<forall>m n. mem_ok m \<longrightarrow> alloc m n = (0, m) \<or>
       (\<exists>a vs. alloc m n = (a, place m a vs) \<and> length vs = n \<and> mem_ok (place m a vs)))"

lemma alloc_okE:
  assumes "alloc_ok alloc" "mem_ok m" "fst (alloc m n) \<noteq> 0"
  obtains a vs where "alloc m n = (a, place m a vs)" "length vs = n" "mem_ok (place m a vs)"
proof -
  have "alloc m n = (0, m) \<or> (\<exists>a vs. alloc m n = (a, place m a vs) \<and> length vs = n \<and> mem_ok (place m a vs))"
    using assms(1,2) unfolding alloc_ok_def by blast
  with assms(3) that show thesis by auto
qed

lemma place_live: "n \<le> length vs \<Longrightarrow> live (place m a vs) a n"
  by (auto simp: live_def place_def covers_def)

text \<open>A constructor that keeps the memory's blocks and reports no error.\<close>

definition ctor_ok :: "constructor \<Rightarrow> nat \<Rightarrow> bool" where
  "ctor_ok ctor sz \<longleftrightarrow> (\<forall>a m. live m a sz \<and> mem_ok m \<longrightarrow> (\<exists>m'. ctor a m = Inr m' \<and> layout m' = layout m))"

lemma construct_all_ok:
  assumes "ctor_ok ctor sz" "mem_ok m" "live m a (n * sz)"
  shows "\<exists>m'. construct_all ctor sz a n m = Inr m' \<and> layout m' = layout m"
  unfolding construct_all_def
proof (rule for_each_ok [where I = "\<lambda>_ m'. layout m' = layout m"])
  fix c m1 assume l: "layout m1 = layout m" and c: "c < n"
  have "(c + 1) * sz \<le> n * sz" using c by (intro mult_right_mono) auto
  then have "live m (a + c * sz) sz" by (intro live_le [OF assms(3)]) auto
  with l have "live m1 (a + c * sz) sz" by (simp add: live_layout)
  moreover have "mem_ok m1" using assms(2) mem_ok_layout [OF l] by simp
  ultimately have "\<exists>m'. ctor (a + c * sz) m1 = Inr m' \<and> layout m' = layout m1"
    using assms(1) unfolding ctor_ok_def by blast
  with l show "\<exists>m'. ctor (a + c * sz) m1 = Inr m' \<and> layout m' = layout m" by simp
qed simp_all

text \<open>An array whose size in bytes does not wrap, and for which there is memory.\<close>

lemma new_array_ok:
  assumes "alloc_ok alloc" "ctor_ok ctor sz" "mem_ok m" "0 < sz" "n * sz < size_max" "n < 2 ^ 63"
    "fst (alloc m (n * sz)) \<noteq> 0"
  shows "\<exists>p m'. new_array alloc ctor sz n m = Inr (p, m') \<and> aptr_ok sz m' p \<and> mem_ok m' \<and>
    a_index p = 0 \<and> a_size p = int n"
proof -
  obtain a vs where a: "alloc m (n * sz) = (a, place m a vs)" "length vs = n * sz" "mem_ok (place m a vs)"
    by (rule alloc_okE [OF assms(1,3,7)])
  obtain m' where m': "construct_all ctor sz a n (place m a vs) = Inr m'" "layout m' = layout (place m a vs)"
    using construct_all_ok [OF assms(2) a(3) place_live, of n] a(2) by auto
  have "0 < a" "a + n * sz \<le> size_max" using a(2,3) by (auto simp: place_def)
  moreover have "live m' a (n * sz)" using place_live [of "n * sz" vs m a] a(2) m'(2) by (simp add: live_layout)
  ultimately have "aptr_ok sz m' (aptr_make0 a (int n))"
    using assms(4,6) by (auto simp: aptr_ok_def aptr_make0_def array_ok_def)
  then show ?thesis
    using a m' assms(5,6) mem_ok_layout [OF m'(2)] by (simp add: new_array_def aptr_make0_def)
qed

lemma new_matrix_ok:
  assumes "alloc_ok alloc" "ctor_ok ctor sz" "mem_ok m" "0 < sz" "0 < x" "0 < y" "sz * x * y < size_max" "x * y < 2 ^ 63"
    "fst (alloc m (sz * x * y)) \<noteq> 0"
  shows "\<exists>mat m'. new_matrix alloc ctor sz x y m = Inr (mat, m') \<and> matrix_ok sz m' mat \<and> mx_x mat = x \<and> mx_y mat = y"
proof -
  obtain a vs where a: "alloc m (sz * x * y) = (a, place m a vs)" "length vs = sz * x * y" "mem_ok (place m a vs)"
    by (rule alloc_okE [OF assms(1,3,9)])
  have n: "sz * x * y = x * y * sz" by simp
  obtain m' where m': "construct_all ctor sz a (x * y) (place m a vs) = Inr m'" "layout m' = layout (place m a vs)"
    using construct_all_ok [OF assms(2) a(3) place_live, of "x * y"] a(2) n by auto
  have "0 < a" "a + x * y * sz \<le> size_max" using a(2,3) n by (auto simp: place_def)
  moreover have "live m' a (x * y * sz)"
    using place_live [of "x * y * sz" vs m a] a(2) m'(2) n by (simp add: live_layout)
  moreover have "int x * int y < 2 ^ 63" using assms(8) by (metis of_nat_less_iff of_nat_mult of_nat_numeral of_nat_power)
  ultimately have "matrix_ok sz m' (matrix_make a x y)"
    using assms(4-6) by (auto simp: matrix_ok_def matrix_make_def array_ok_def nat_mult_distrib)
  moreover have "x * y mod size_max = x * y" using assms(8) by (simp add: size_max_def)
  ultimately show ?thesis
    using a m' assms(5-7) by (simp add: new_matrix_def matrix_make_def)
qed

text \<open>The alignment loop stops at the next multiple.\<close>

lemma align_loop_next:
  assumes "0 < align"
  shows "align_loop align a mod align = 0 \<and> a \<le> align_loop align a \<and> align_loop align a < a + align"
proof -
  have "align_loop align a mod align = 0 \<and> align_loop align a = a + (align - a mod align) mod align"
    using assms
  proof (induction align a rule: align_loop.induct)
    case (1 align a)
    show ?case
    proof (cases "a mod align = 0")
      case True
      with 1 show ?thesis by (simp add: align_loop.simps [of align a])
    next
      case False
      have lt: "a mod align < align" using 1 by simp
      have e: "Suc a + (align - Suc a mod align) mod align = a + (align - a mod align) mod align"
        using False lt by (cases "Suc (a mod align) = align") (auto simp: mod_Suc)
      have s: "align_loop align a = align_loop align (Suc a)"
        using False 1 by (simp add: align_loop.simps [of align a])
      have "0 < align \<and> a mod align \<noteq> 0" using False 1 by simp
      from "1.IH" [OF this 1(2)] show ?thesis unfolding s e .
    qed
  qed
  then have "align_loop align a mod align = 0" "align_loop align a = a + (align - a mod align) mod align" by blast+
  moreover have "(align - a mod align) mod align < align" using assms by simp
  ultimately show ?thesis by linarith
qed

lemma new_aligned_array_ok:
  assumes "alloc_ok alloc" "ctor_ok ctor sz" "mem_ok m" "0 < sz" "0 < align" "n * sz + align < size_max" "n < 2 ^ 63"
    "fst (alloc m (n * sz + align)) \<noteq> 0"
  shows "\<exists>p m'. new_aligned_array alloc ctor sz n align m = Inr (p, m') \<and> aptr_ok sz m' p \<and>
    a_size p = int n \<and> a_data p mod align = 0"
proof -
  obtain a vs where a: "alloc m (n * sz + align) = (a, place m a vs)" "length vs = n * sz + align" "mem_ok (place m a vs)"
    by (rule alloc_okE [OF assms(1,3,8)])
  let ?b = "align_loop align a"
  have b: "?b mod align = 0" "a \<le> ?b" "?b < a + align" using align_loop_next [OF assms(5), of a] by auto
  have l: "live (place m a vs) ?b (n * sz)"
    by (rule live_le [OF place_live [of "n * sz + align" vs]]) (use a(2) b in auto)
  obtain m' where m': "construct_all ctor sz ?b n (place m a vs) = Inr m'" "layout m' = layout (place m a vs)"
    using construct_all_ok [OF assms(2) a(3) l] by blast
  have "0 < a" "a + (n * sz + align) \<le> size_max" using a(2,3) by (auto simp: place_def)
  moreover have "live m' ?b (n * sz)" using l m'(2) by (simp add: live_layout)
  ultimately have "aptr_ok sz m' (aptr_make0 ?b (int n))"
    using assms(4,7) b by (auto simp: aptr_ok_def aptr_make0_def array_ok_def)
  then show ?thesis
    using a m' assms(5-7) b by (simp add: new_aligned_array_def aptr_make0_def)
qed

section \<open>Casts and streams\<close>

text \<open>A cast to elements of another size keeps the array inside its bytes.\<close>

lemma array_ok_cast:
  assumes "array_ok t m data k" "0 < u" "k * int t < 2 ^ 63"
  shows "array_ok u m data (long_wrap (ulong (k * int t) div int u))"
proof -
  have k: "0 \<le> k" using assms(1) by (auto simp: array_ok_def)
  define n where "n = nat k * t div u"
  have d: "ulong (k * int t) div int u = int n"
    using k assms(3) by (simp add: n_def zdiv_int)
  have le: "n * u \<le> nat k * t" by (simp add: n_def)
  have "n * 1 \<le> n * u" using assms(2) by (intro mult_left_mono) auto
  with le assms(3) k have "int n < 2 ^ 63" by (smt (verit) nat_0_le of_nat_le_iff of_nat_mult mult.right_neutral)
  then have w: "long_wrap (ulong (k * int t) div int u) = int n" by (simp add: d)
  show ?thesis
  proof (cases "n = 0")
    case False
    then have "0 < k" using k le assms(2) by (cases "k = 0") auto
    then have "0 < data" "live m data (nat k * t)" "data + nat k * t \<le> size_max" using assms(1) by (auto simp: array_ok_def)
    with le False \<open>int n < 2 ^ 63\<close> assms(2) show ?thesis
      unfolding w array_ok_def using live_le [of m data "nat k * t" data "n * u"] by auto
  qed (use w assms(2) in \<open>simp add: array_ok_def\<close>)
qed

lemma internal_cast_ok:
  "aptr_ok t m p \<Longrightarrow> 0 < u \<Longrightarrow> a_size p * int t < 2 ^ 63 \<Longrightarrow> aptr_ok u m (internal_cast_aptr t u p)"
  "laptr_ok t m q \<Longrightarrow> 0 < u \<Longrightarrow> la_size q * int t < 2 ^ 63 \<Longrightarrow> laptr_ok u m (internal_cast_laptr sp this t u q)"
  using array_ok_cast [of t m "a_data p" "a_size p" u] array_ok_cast [of t m "la_data q" "la_size q" u]
  by (simp_all add: aptr_ok_def internal_cast_aptr_def aptr_make_def laptr_ok_def internal_cast_laptr_def)

text \<open>
  The check counts bytes, so it is right for a stream of elements of one byte.
\<close>

lemma safe_fread_ok:
  assumes "range_arg 1 m p n" "mem_ok m" "aptr_spatialCheck 1 p n"
  shows "\<exists>m'. safe_fread 1 p 1 n stream m = Inr (min n (length stream), drop n stream, m') \<and>
    elements_set (min n (length stream)) (aptr_convert_to_raw 1 p) 1 (\<lambda>_. take n stream) m m'"
proof -
  let ?v = "take n stream" and ?a = "aptr_convert_to_raw (Suc 0) p"
  have "live m ?a (length ?v)"
    using range_arg_live [OF assms(1,3)] live_le [of m ?a n ?a "length ?v"] by simp
  then obtain m' where m': "wr m ?a ?v = Inr m'" using wr_live by blast
  have "elements_set (min n (length stream)) ?a 1 (\<lambda>_. ?v) m m'"
    using elements_set_Suc [OF assms(2), of "min n (length stream)" ?a 0 "\<lambda>_. ?v" m m'] m' by (simp add: min.commute)
  with m' assms(3) show ?thesis by (simp add: safe_fread_def min.commute)
qed

end
