(* ===== verification/Iron_Stack.thy ===== *)
theory Iron_Stack
  imports Iron_Ptr
begin

text \<open>
  The temporal safety that \<open>lptr<T>\<close> is for: no pointer to a stack location outlives its frame.
  Programs are sequences of calls, returns, declarations and assignments of pointers, run on
  a stack that grows towards lower addresses; the operations on pointers are those of
  \<^verbatim>\<open>lptr.hpp\<close>.
\<close>

section \<open>The machine\<close>

text \<open>
  A frame has its lowest address \<open>fr_lo\<close>, which is the stack pointer of the function, and the
  pointers declared in it, each with a mark that says whether it was assigned to since its
  declaration. Between the locals of a frame and the frame of its caller lies the linkage
  area of \<open>link\<close> bytes (return address and saved frame pointer), which holds no variable; a
  constructor reads the stack pointer below its own linkage area.
\<close>

record frame =
  fr_lo :: nat
  fr_vars :: "(lptr \<times> bool) list"

type_synonym stack = "frame list"

text \<open>The value \<open>GETSP\<close> has in a constructor called from the top frame.\<close>

definition getsp :: "nat \<Rightarrow> frame \<Rightarrow> nat" where
  "getsp link f = fr_lo f - link"

text \<open>
  \<open>nameable link limit hi s a\<close>: a program in state \<open>s\<close> can take the address \<open>a\<close>: null, an
  address of the heap or of a global (below \<open>limit\<close>), or a local of a frame. The frames are
  listed from the newest; the oldest one ends at \<open>hi\<close>.
\<close>

fun local_in :: "nat \<Rightarrow> nat \<Rightarrow> stack \<Rightarrow> nat \<Rightarrow> bool" where
  "local_in link hi [] a \<longleftrightarrow> False"
| "local_in link hi [f] a \<longleftrightarrow> fr_lo f \<le> a \<and> a < hi"
| "local_in link hi (f # g # s) a \<longleftrightarrow> (fr_lo f \<le> a \<and> a + link < fr_lo g) \<or> local_in link hi (g # s) a"

definition nameable :: "nat \<Rightarrow> nat \<Rightarrow> nat \<Rightarrow> stack \<Rightarrow> nat \<Rightarrow> bool" where
  "nameable link limit hi s a \<longleftrightarrow> a < limit \<or> local_in link hi s a"

text \<open>
  The steps. A function is entered with a stack pointer below the caller's linkage area; a
  pointer is declared from an address, or as a copy of a pointer; a pointer is assigned from
  an address, for which the compiler makes a temporary \<open>lptr\<close> (\<open>l = &x\<close>), or from a pointer
  that was not assigned to since its declaration (\<open>l = m\<close>). A failed assertion is no step:
  the program stops. \<open>Assign\<close> is less than \<open>lptr::operator=\<close> accepts: a pointer that was assigned to
  has lost its mark (lptr.hpp:171) and is not a source here, because the address of a local escapes
  through it (lemma \<open>Iron_Limits.assigned_lptr_escapes\<close>).
\<close>

inductive step :: "nat \<Rightarrow> nat \<Rightarrow> nat \<Rightarrow> stack \<Rightarrow> stack \<Rightarrow> bool" for link limit hi where
  Call: "even lo \<Longrightarrow> limit + link \<le> lo \<Longrightarrow> lo + link \<le> fr_lo f \<Longrightarrow>
    step link limit hi (f # s) (\<lparr>fr_lo = lo, fr_vars = []\<rparr> # f # s)"
| Return: "s \<noteq> [] \<Longrightarrow> step link limit hi (f # s) s"
| Declare: "nameable link limit hi (f # s) a \<Longrightarrow>
    step link limit hi (f # s) (f\<lparr>fr_vars := fr_vars f @ [(lptr_of_raw (getsp link f) a, False)]\<rparr> # s)"
| Copy: "g \<in> set (f # s) \<Longrightarrow> v \<in> set (fr_vars g) \<Longrightarrow>
    step link limit hi (f # s) (f\<lparr>fr_vars := fr_vars f @ [(lptr_copy (getsp link f) (fst v), False)]\<rparr> # s)"
| Assign_raw: "nameable link limit hi s a \<Longrightarrow> i < length s \<Longrightarrow> k < length (fr_vars (s ! i)) \<Longrightarrow>
    lptr_assign (fst (fr_vars (s ! i) ! k)) (lptr_of_raw (getsp link (hd s)) a) = Inr p \<Longrightarrow>
    step link limit hi s (s[i := (s ! i)\<lparr>fr_vars := (fr_vars (s ! i))[k := (p, True)]\<rparr>])"
| Assign: "g \<in> set s \<Longrightarrow> (q, False) \<in> set (fr_vars g) \<Longrightarrow> i < length s \<Longrightarrow> k < length (fr_vars (s ! i)) \<Longrightarrow>
    lptr_assign (fst (fr_vars (s ! i) ! k)) q = Inr p \<Longrightarrow>
    step link limit hi s (s[i := (s ! i)\<lparr>fr_vars := (fr_vars (s ! i))[k := (p, True)]\<rparr>])"

inductive reachable :: "nat \<Rightarrow> nat \<Rightarrow> nat \<Rightarrow> stack \<Rightarrow> bool" for link limit hi where
  Start: "even link \<Longrightarrow> 0 < limit \<Longrightarrow> even lo \<Longrightarrow> limit + link \<le> lo \<Longrightarrow> lo < hi \<Longrightarrow> reachable link limit hi [\<lparr>fr_lo = lo, fr_vars = []\<rparr>]"
| Step: "reachable link limit hi s \<Longrightarrow> step link limit hi s t \<Longrightarrow> reachable link limit hi t"

section \<open>The invariant\<close>

text \<open>The frames lie one below the other, with their linkage areas between them.\<close>

fun frames_ok :: "nat \<Rightarrow> nat \<Rightarrow> nat \<Rightarrow> stack \<Rightarrow> bool" where
  "frames_ok link limit hi [] \<longleftrightarrow> False"
| "frames_ok link limit hi [f] \<longleftrightarrow> even (fr_lo f) \<and> limit + link \<le> fr_lo f \<and> fr_lo f < hi"
| "frames_ok link limit hi (f # g # s) \<longleftrightarrow>
     even (fr_lo f) \<and> limit + link \<le> fr_lo f \<and> fr_lo f + link \<le> fr_lo g \<and> frames_ok link limit hi (g # s)"

text \<open>
  A pointer declared in a frame has the bound \<open>sp\<close> of the frame; it names an address below the
  limit or a local of its frame or of an older one, the frames \<open>s\<close>; and as long as it was
  not assigned to, its mark is right.
\<close>

definition var_ok :: "nat \<Rightarrow> nat \<Rightarrow> nat \<Rightarrow> nat \<Rightarrow> stack \<Rightarrow> lptr \<times> bool \<Rightarrow> bool" where
  "var_ok link limit hi sp s v \<longleftrightarrow>
     (l_tb (fst v) = sp \<or> l_tb (fst v) = Suc sp) \<and> nameable link limit hi s (l_data (fst v)) \<and>
     (\<not> snd v \<longrightarrow> lptr_notOnStack (fst v) = (l_data (fst v) < limit))"

definition vars_ok :: "nat \<Rightarrow> nat \<Rightarrow> nat \<Rightarrow> stack \<Rightarrow> bool" where
  "vars_ok link limit hi s \<longleftrightarrow>
     (\<forall>i<length s. \<forall>v\<in>set (fr_vars (s ! i)). var_ok link limit hi (getsp link (s ! i)) (drop i s) v)"

definition stack_ok :: "nat \<Rightarrow> nat \<Rightarrow> nat \<Rightarrow> stack \<Rightarrow> bool" where
  "stack_ok link limit hi s \<longleftrightarrow> even link \<and> 0 < limit \<and> frames_ok link limit hi s \<and> vars_ok link limit hi s"

text \<open>Both the frames and the locals depend on the addresses of the frames only.\<close>

lemma frames_ok_cong: "map fr_lo s = map fr_lo t \<Longrightarrow> frames_ok link limit hi s = frames_ok link limit hi t"
proof (induction link limit hi s arbitrary: t rule: frames_ok.induct)
  case (3 link limit hi f g s)
  then obtain f' g' t' where t: "t = f' # g' # t'" "fr_lo f' = fr_lo f" "fr_lo g' = fr_lo g" "map fr_lo t' = map fr_lo s"
    by (auto simp: map_eq_Cons_conv)
  with "3.IH" [of "g' # t'"] show ?case by simp
qed (auto simp: map_eq_Cons_conv)

lemma local_in_cong: "map fr_lo s = map fr_lo t \<Longrightarrow> local_in link hi s a = local_in link hi t a"
  by (induction link hi s a arbitrary: t rule: local_in.induct) (auto simp: map_eq_Cons_conv)

lemma frames_ok_nth:
  "frames_ok link limit hi s \<Longrightarrow> i < length s \<Longrightarrow>
    even (fr_lo (s ! i)) \<and> limit + link \<le> fr_lo (s ! i) \<and> fr_lo (hd s) \<le> fr_lo (s ! i)"
proof (induction link limit hi s arbitrary: i rule: frames_ok.induct)
  case (3 link limit hi f g s)
  then show ?case by (cases i) (auto, fastforce)
qed auto

lemma local_in_bound:
  "frames_ok link limit hi s \<Longrightarrow> local_in link hi s a \<Longrightarrow> fr_lo (hd s) \<le> a"
  by (induction link limit hi s rule: frames_ok.induct) auto

lemma frames_ok_drop: "frames_ok link limit hi s \<Longrightarrow> i < length s \<Longrightarrow> frames_ok link limit hi (drop i s)"
proof (induction link limit hi s arbitrary: i rule: frames_ok.induct)
  case (3 link limit hi f g s)
  then show ?case by (cases i) auto
qed auto

text \<open>A local that is not below the bound of frame \<open>i\<close> belongs to frame \<open>i\<close> or to an older one.\<close>

lemma local_in_drop:
  "frames_ok link limit hi s \<Longrightarrow> i < length s \<Longrightarrow> local_in link hi s a \<Longrightarrow> getsp link (s ! i) \<le> a \<Longrightarrow>
    local_in link hi (drop i s) a"
proof (induction link limit hi s arbitrary: i rule: frames_ok.induct)
  case (3 link limit hi f g s)
  show ?case
  proof (cases i)
    case (Suc j)
    have j: "frames_ok link limit hi (g # s)" "j < length (g # s)" "getsp link ((g # s) ! j) \<le> a"
      using 3 Suc by auto
    from frames_ok_nth [OF j(1,2)] have "fr_lo g \<le> fr_lo ((g # s) ! j)" by simp
    with j(3) have "\<not> a + link < fr_lo g" by (simp add: getsp_def)
    with 3 have "local_in link hi (g # s) a" by auto
    with "3.IH" [OF j(1,2) _ j(3)] Suc show ?thesis by simp
  qed (use 3 in simp)
qed auto

lemma local_in_mono:
  "frames_ok link limit hi s \<Longrightarrow> i < length s \<Longrightarrow> local_in link hi (drop i s) a \<Longrightarrow> local_in link hi s a"
proof (induction link limit hi s arbitrary: i rule: frames_ok.induct)
  case (3 link limit hi f g s)
  then show ?case by (cases i) auto
qed auto

text \<open>Replacing the pointers of one frame.\<close>

lemma vars_ok_update:
  assumes "stack_ok link limit hi s" "i < length s"
    "\<forall>v\<in>set vs. var_ok link limit hi (getsp link (s ! i)) (drop i s) v"
  shows "stack_ok link limit hi (s[i := (s ! i)\<lparr>fr_vars := vs\<rparr>])"
proof -
  let ?t = "s[i := (s ! i)\<lparr>fr_vars := vs\<rparr>]"
  have lo: "map fr_lo ?t = map fr_lo s"
    using assms(2) by (auto simp: map_update intro!: nth_equalityI) (metis length_map list_update_id nth_list_update nth_map)
  have var: "var_ok link limit hi sp (drop j ?t) v = var_ok link limit hi sp (drop j s) v" for sp j v
    using local_in_cong [of "drop j ?t" "drop j s"] lo by (simp add: var_ok_def nameable_def drop_map [symmetric])
  have "vars_ok link limit hi ?t"
    unfolding vars_ok_def
  proof (intro allI impI ballI)
    fix j v assume "j < length ?t" "v \<in> set (fr_vars (?t ! j))"
    with assms show "var_ok link limit hi (getsp link (?t ! j)) (drop j ?t) v"
      unfolding var by (cases "j = i") (auto simp: stack_ok_def vars_ok_def getsp_def)
  qed
  with assms(1) frames_ok_cong [OF lo] show ?thesis by (simp add: stack_ok_def)
qed

lemma stack_okD:
  assumes "stack_ok link limit hi s" "i < length s" 
  shows "even (getsp link (s ! i))" "limit \<le> getsp link (s ! i)" 
    "v \<in> set (fr_vars (s ! i)) \<Longrightarrow> var_ok link limit hi (getsp link (s ! i)) (drop i s) v"
  using assms frames_ok_nth [of link limit hi s i]
  by (auto simp: stack_ok_def vars_ok_def getsp_def)

text \<open>A pointer made from an address taken in the state has the right mark.\<close>

lemma raw_mark:
  assumes "stack_ok link limit hi s" "nameable link limit hi s a"
  shows "lptr_notOnStack (lptr_of_raw (getsp link (hd s)) a) = (a < limit)"
proof -
  have s: "s \<noteq> []" using assms(1) by (auto simp: stack_ok_def)
  then have sp: "even (getsp link (hd s))" "limit \<le> getsp link (hd s)"
    using stack_okD [OF assms(1), of 0] by (auto simp: hd_conv_nth)
  have "a < limit \<or> fr_lo (hd s) \<le> a"
    using assms local_in_bound by (auto simp: nameable_def stack_ok_def)
  with sp show ?thesis by (auto simp: lptr_of_raw_mark getsp_def)
qed

text \<open>What an accepted assignment leaves in a pointer of frame \<open>i\<close>.\<close>

lemma assigned_ok:
  assumes s: "stack_ok link limit hi s" "i < length s" "v \<in> set (fr_vars (s ! i))"
    and q: "nameable link limit hi s (l_data q)" "lptr_notOnStack q = (l_data q < limit)"
    and p: "lptr_assign (fst v) q = Inr p"
  shows "var_ok link limit hi (getsp link (s ! i)) (drop i s) (p, True)"
proof -
  let ?sp = "getsp link (s ! i)"
  have v: "var_ok link limit hi ?sp (drop i s) v" using stack_okD [OF s(1,2)] s(3) by simp
  have p': "l_data p = l_data q" "l_tb p = ?sp \<or> l_tb p = Suc ?sp" "l_data q = 0 \<or> lptr_notOnStack q \<or> ?sp \<le> l_data q"
    using lptr_assign_ok [OF _ _ p, of ?sp] stack_okD [OF s(1,2)] v by (auto simp: var_ok_def)
  have "nameable link limit hi (drop i s) (l_data q)"
    using p'(3) q s local_in_drop [of link limit hi s i "l_data q"] by (auto simp: nameable_def stack_ok_def)
  with p' show ?thesis by (simp add: var_ok_def)
qed

lemma step_ok: "step link limit hi s t \<Longrightarrow> stack_ok link limit hi s \<Longrightarrow> stack_ok link limit hi t"
proof (induction rule: step.induct)
  case (Call lo f s)
  then have "vars_ok link limit hi (\<lparr>fr_lo = lo, fr_vars = []\<rparr> # f # s)"
    by (auto simp: stack_ok_def vars_ok_def nth_Cons split: nat.splits)
  with Call show ?case by (simp add: stack_ok_def)
next
  case (Return s f)
  then obtain g u where s: "s = g # u" by (cases s) auto
  have "vars_ok link limit hi s"
    using Return.prems unfolding stack_ok_def vars_ok_def by (auto dest: spec [of _ "Suc i" for i])
  with Return s show ?case by (simp add: stack_ok_def)
next
  case (Declare f s a)
  have "\<forall>v\<in>set (fr_vars f @ [(lptr_of_raw (getsp link f) a, False)]). var_ok link limit hi (getsp link f) (f # s) v"
    using stack_okD [OF Declare.prems, of 0] Declare.hyps raw_mark [OF Declare.prems Declare.hyps]
    by (auto simp: var_ok_def lptr_of_raw_even)
  then show ?case using vars_ok_update [OF Declare.prems, of 0] by simp
next
  case (Copy g f s v)
  then obtain i where i: "i < length (f # s)" "g = (f # s) ! i" by (metis in_set_conv_nth)
  have "var_ok link limit hi (getsp link g) (drop i (f # s)) v" using stack_okD [OF Copy.prems i(1)] i(2) Copy.hyps by simp
  then have n: "nameable link limit hi (f # s) (l_data (fst v))"
    using local_in_mono [OF _ i(1), of link limit hi] Copy.prems by (auto simp: var_ok_def nameable_def stack_ok_def)
  have "\<forall>v\<in>set (fr_vars f @ [(lptr_copy (getsp link f) (fst v), False)]). var_ok link limit hi (getsp link f) (f # s) v"
    using stack_okD [OF Copy.prems, of 0] n raw_mark [OF Copy.prems n]
    by (auto simp: var_ok_def lptr_of_raw_even lptr_copy_raw)
  then show ?case using vars_ok_update [OF Copy.prems, of 0] by simp
next
  case (Assign_raw s a i k p)
  have sp: "even (getsp link (hd s))" using stack_okD(1) [OF Assign_raw.prems, of 0] Assign_raw.hyps(2) by (cases s) auto
  have "var_ok link limit hi (getsp link (s ! i)) (drop i s) (p, True)"
    by (rule assigned_ok [OF Assign_raw.prems Assign_raw.hyps(2) _ _ _ Assign_raw.hyps(4)])
      (use Assign_raw.hyps raw_mark [OF Assign_raw.prems Assign_raw.hyps(1)] sp in \<open>auto simp: lptr_of_raw_even\<close>)
  then show ?case
    using stack_okD(3) [OF Assign_raw.prems Assign_raw.hyps(2)] set_update_subset_insert [of "fr_vars (s ! i)" k "(p, True)"]
    by (intro vars_ok_update [OF Assign_raw.prems Assign_raw.hyps(2)]) blast
next
  case (Assign g s q i k p)
  then obtain j where j: "j < length s" "g = s ! j" by (metis in_set_conv_nth)
  then have q: "var_ok link limit hi (getsp link g) (drop j s) (q, False)"
    using stack_okD(3) [OF Assign.prems j(1)] Assign.hyps(2) by simp
  have "var_ok link limit hi (getsp link (s ! i)) (drop i s) (p, True)"
    by (rule assigned_ok [OF Assign.prems Assign.hyps(3) _ _ _ Assign.hyps(5)])
      (use Assign q local_in_mono [OF _ j(1), of link limit hi] in \<open>auto simp: var_ok_def nameable_def stack_ok_def\<close>)
  then show ?case
    using stack_okD(3) [OF Assign.prems Assign.hyps(3)] set_update_subset_insert [of "fr_vars (s ! i)" k "(p, True)"]
    by (intro vars_ok_update [OF Assign.prems Assign.hyps(3)]) blast
qed

lemma reachable_ok: "reachable link limit hi s \<Longrightarrow> stack_ok link limit hi s"
proof (induction rule: reachable.induct)
  case (Start lo)
  then show ?case by (simp add: stack_ok_def vars_ok_def)
next
  case (Step s t)
  then show ?case using step_ok by blast
qed

text \<open>The pointers of every frame name nothing that goes away before the frame.\<close>

lemma reachable_names:
  assumes "reachable link limit hi s" "i < length s" "v \<in> set (fr_vars (s ! i))"
  shows "nameable link limit hi (drop i s) (l_data (fst v))"
  using stack_okD(3) [OF reachable_ok [OF assms(1)] assms(2,3)] by (simp add: var_ok_def)

end
