(* ===== verification/Iron_Limits.thy ===== *)
theory Iron_Limits
  imports Iron_Util Iron_Stack
begin

text \<open>
  Inputs on which the Ironclad headers do not keep their promise of safety: each lemma
  evaluates the model of the code on one such input. The memory of the examples is one block
  of four bytes at address 100.
\<close>

definition four :: mem where
  "four = [\<lparr>bk_base = 100, bk_bytes = [1, 2, 3, 0]\<rparr>]"

lemma four_ok: "mem_ok four"
  by (simp add: four_def size_max_def)

lemmas mem_eval = four_def covers_def Let_def aptr_convert_to_raw_def elem_addr_def aptr_spatialCheck_def
  aptr_make0_def aptr_make_def NULL_TERM_CHECK_def c_memchr_def

section \<open>Null pointers with a size\<close>

text \<open>\<open>free()\<close> clears the address but not the size, so the bounds check lets the null pointer pass.\<close>

lemma aptr_free_keeps_size:
  "rbind (aptr_free True m (aptr_make0 100 1)) (\<lambda>(m, p). aptr_deref sz p) = Inr 0"
  by (simp add: aptr_free_def aptr_make0_def aptr_deref_def BOUNDS_CHECK_def elem_addr_def)

text \<open>A null pointer that was advanced converts to a \<open>ptr\<close> that is not null.\<close>

lemma null_aptr_to_ptr: "rbind (ptr_of_aptr 4 (aptr_inc aptr_null)) ptr_deref = Inr 4"
  by (simp add: ptr_of_aptr_def aptr_inc_def aptr_null_def elem_addr_def ptr_of_raw_def ptr_deref_def)

text \<open>A dynamic cast that fails leaves a null pointer of the old size.\<close>

lemma failed_cast_keeps_size: "aptr_deref sz (cast_aptr (\<lambda>_. 0) (aptr_make0 100 1)) = Inr 0"
  by (simp add: cast_aptr_def aptr_make0_def aptr_make_def aptr_deref_def BOUNDS_CHECK_def elem_addr_def)

text \<open>\<open>new_array\<close> does not look at the result of the allocator.\<close>

lemma new_array_no_memory:
  "new_array (\<lambda>m _. (0, m)) (\<lambda>_ m. Inr m) 4 1 m = Inr (aptr_make0 0 1, m)" "aptr_deref 4 (aptr_make0 0 1) = Inr 0"
  by (simp_all add: new_array_def construct_all_def aptr_make0_def aptr_deref_def BOUNDS_CHECK_def elem_addr_def)

text \<open>A number of elements whose size in bytes wraps: a block of no bytes for \<open>2 ^ 62\<close> elements.\<close>

lemma new_array_wraps: "(2 ^ 62 * 4) mod size_max = (0 :: nat)"
  by (simp add: size_max_def)

section \<open>Pointers to the stack\<close>

text \<open>
  \<open>other.tb ^ 1\<close> is meant to test a bit but is not zero, so every assignment marks the pointer
  as one that is not on the stack: it then converts to a \<open>ptr\<close>, \<dots>
\<close>

lemma assigned_lptr_is_marked:
  "rbind (lptr_assign (lptr_null 1000) (lptr_of_raw 1000 2000)) ptr_of_lptr = Inr \<lparr>p_data = 2000\<rparr>"
  by (simp add: lptr_null_def lptr_of_raw_even lptr_assign_def mark_simps ptr_of_lptr_def lptr_notOnStack_def)

text \<open>
  \<dots> and it can be assigned to a pointer of an older frame. Here a function with the bound
  500 assigns the address 600 of one of its locals to a local pointer, and that to a pointer
  of its caller, whose bound is 1000.
\<close>

lemma assigned_lptr_escapes:
  "rbind (lptr_assign (lptr_null 500) (lptr_of_raw 500 600)) (lptr_assign (lptr_null 1000)) =
     Inr \<lparr>l_data = 600, l_tb = 1001\<rparr>"
  by (simp add: lptr_null_def lptr_of_raw_even lptr_assign_def mark_simps)

text \<open>
  A copy of a pointer to the heap loses its mark, because the constructor compares the
  address of the pointer object; the assignment of the copy then fails.
\<close>

lemma laptr_copy_loses_mark:
  "laptr_notOnStack (laptr_of_aptr 1000 1008 (aptr_make0 100 1))"
  "laptr_assign (laptr_null 1000) (laptr_copy 1000 1008 (laptr_of_aptr 1000 1008 (aptr_make0 100 1))) =
     Inl (Abort ''other.data == NULL || (other.tb & 1) || (tb ^ 1) <= (size_t)other.data'')"
  by (simp_all add: laptr_of_aptr_def aptr_make0_def laptr_make_def laptr_checkStackBoundGlobal_def laptr_notOnStack_def
      mark_simps laptr_copy_def laptr_null_def laptr_assign_def)

section \<open>Checks that accept too much\<close>

text \<open>A negative index: three bytes from the element before the array on.\<close>

lemma memset_before_array:
  "safe_memset 1 four (aptr_dec (aptr_make0 100 4)) 0 3 = Inl OutOfBounds"
  by (simp add: mem_eval safe_memset_def aptr_dec_def c_memset_def)

text \<open>A size that is not a multiple of the element size: the rest is not counted.\<close>

lemma memset_rounds_down:
  "safe_memset 4 four (aptr_make0 100 1) 0 7 = Inl OutOfBounds"
  by (simp add: mem_eval safe_memset_def c_memset_def)

text \<open>The specialised \<open>copy\<close> of \<open>int\<close> drops the results of its checks.\<close>

lemma copy_int_unchecked: "copy_int (aptr_make0 100 1) (aptr_make0 200 1) 1 four = Inl OutOfBounds"
  by (simp add: mem_eval copy_int_def c_memcpy_def c_memmove_def size_max_def)

text \<open>\<open>safe_strcpy\<close> does not count the terminator of the string of three bytes at 100.\<close>

lemma strcpy_terminator:
  "safe_strcpy (place four 200 [0, 0, 0]) (aptr_make0 200 3) (aptr_make0 100 4) = Inl OutOfBounds"
  by (simp add: mem_eval safe_strcpy_def place_def c_strlen_def c_string_def c_strcpy_def)

text \<open>\<open>safe_strcat\<close> does not count the string that is in the destination.\<close>

lemma strcat_destination:
  "safe_strcat (place four 200 [7, 7, 7, 0]) (aptr_make0 200 4) (aptr_make0 100 4) = Inl OutOfBounds"
  by (simp add: mem_eval safe_strcat_def place_def int_strlen_def c_strlen_def c_string_def c_strcat_def)

text \<open>The check for a terminator looks \<open>getSize()\<close> bytes ahead whatever the index is.\<close>

lemma null_term_check_overruns:
  "NULL_TERM_CHECK [\<lparr>bk_base = 100, bk_bytes = [1, 2]\<rparr>] (aptr_inc (aptr_make0 100 2)) r = Inl OutOfBounds"
  by (simp add: mem_eval aptr_inc_def)

text \<open>\<open>safe_strchr\<close> adds the offset of the character twice.\<close>

lemma strchr_offset_twice:
  "rbind (safe_strchr four (aptr_make0 100 4) 2) (\<lambda>p. Inr (aptr_convert_to_raw 1 p)) = Inr 102"
  by (simp add: mem_eval safe_strchr_def c_strchr2_def c_string_def)

text \<open>\<open>safe_strncpy\<close> compares with the size of the array, not with the room left.\<close>

lemma strncpy_ignores_index:
  "safe_strncpy (place four 200 [5, 5]) (aptr_inc (aptr_make0 200 2)) (aptr_make0 100 4) 2 = Inl OutOfBounds"
  by (simp add: mem_eval safe_strncpy_def place_def c_strncpy_def c_nstring_def aptr_inc_def)

text \<open>\<open>safe_fread\<close> hands a number of elements to a check that takes a number of bytes.\<close>

lemma fread_counts_bytes:
  "safe_fread 4 (aptr_make0 100 1) 4 2 [9, 9, 9, 9, 9, 9, 9, 9] four = Inl OutOfBounds"
  by (simp add: mem_eval safe_fread_def)

text \<open>More values than the array has elements.\<close>

lemma array_init_overruns:
  "array_init 4 \<lparr>ar_data = 100, ar_n = 1\<rparr> [[1, 0, 0, 0], [2, 0, 0, 0]] four = Inl OutOfBounds"
  by (simp add: mem_eval array_init_def numeral_eq_Suc)

section \<open>Other functions\<close>

text \<open>\<open>safe_realloc\<close> frees the old block, then copies from the null pointer that is left.\<close>

lemma realloc_copies_freed:
  assumes "mem_ok m" "alloc_ok alloc" "ctor_ok ctor sz" "a_index p = 0" "a_data p = 0 \<or> gc" "0 < n"
  shows "\<exists>e. safe_realloc gc alloc ctor sz p n m = Inl e"
proof -
  let ?k = "n div sz"
  have raw: "aptr_convert_to_raw sz (p\<lparr>a_data := 0\<rparr>) = 0"
    using assms(4) by (simp add: aptr_convert_to_raw_def elem_addr_def)
  have free: "aptr_free gc m p = Inr (m, p\<lparr>a_data := 0\<rparr>)"
    using assms(5) by (auto simp: aptr_free_def c_free_def)
  show ?thesis
  proof (cases "fst (alloc m (?k * sz)) = 0")
    case True
    then obtain m' where "alloc m (?k * sz) = (0, m')" by (cases "alloc m (?k * sz)") auto
    with free assms(6) show ?thesis by (simp add: safe_realloc_def cpp_new_def)
  next
    case False
    obtain a vs where a: "alloc m (?k * sz) = (a, place m a vs)" "length vs = ?k * sz" "mem_ok (place m a vs)"
      by (rule alloc_okE [OF assms(2,1) False])
    obtain m' where m': "construct_all ctor sz a ?k (place m a vs) = Inr m'" "layout m' = layout (place m a vs)"
      using construct_all_ok [OF assms(3) a(3) place_live, of ?k] a(2) by auto
    have "\<not> live m' 0 n" using live_pos [of m' 0 n] mem_ok_layout [OF m'(2)] a(3) assms(6) by auto
    then have "\<exists>e. c_memcpy m' d 0 n = Inl e" for d
      by (auto simp: c_memcpy_def c_memmove_def rd_not_live)
    then obtain e where e: "c_memcpy m' (aptr_convert_to_raw sz (aptr_make0 a (long_wrap (int ?k)))) 0 n = Inl e"
      by blast
    with free a False m' raw assms(6) show ?thesis by (simp add: safe_realloc_def cpp_new_def Let_def)
  qed
qed

text \<open>\<open>isSystemLittleEndian\<close> looks at a byte of 0.\<close>

lemma never_little_endian: "\<not> isSystemLittleEndian little_endian"
  by (simp add: isSystemLittleEndian_def first_byte_def)

text \<open>A cast from \<open>int\<close> to \<open>char\<close> keeps the index, so the pointer moves back.\<close>

lemma cast_moves_pointer:
  "aptr_convert_to_raw 4 (aptr_inc (aptr_make0 100 2)) = 104"
  "aptr_convert_to_raw 1 (cast_int_char (aptr_inc (aptr_make0 100 2))) = 101"
  by (simp_all add: mem_eval aptr_inc_def cast_int_char_def internal_cast_aptr_def)

text \<open>
  \<open>new_variable_ptr\<close> for a \<open>varray<char>\<close>: the structure is padded to 16 bytes, its size field
  is at 0, and the size is written at 7.
\<close>

lemma new_variable_ptr_padding:
  "new_variable_ptr (\<lambda>m n. (200, place m 200 (replicate n 0))) (\<lambda>_ m. Inr m) 16 1 1 [] =
     Inr (\<lparr>p_data = 200\<rparr>, [\<lparr>bk_base = 200, bk_bytes = [0, 0, 0, 0, 0, 0, 0, 1, 0, 0, 0, 0, 0, 0, 0, 0]\<rparr>])"
proof -
  have "le64 1 = [1, 0, 0, 0, 0, 0, 0, 0]" by (simp add: le64_def upt_conv_Cons)
  moreover have "16 mod size_max = 16" by (simp add: size_max_def)
  moreover have "replicate 16 (0 :: 8 word) = [0, 0, 0, 0, 0, 0, 0, 0, 0, 0, 0, 0, 0, 0, 0, 0]"
    by (simp add: numeral_eq_Suc)
  moreover have "replicate 8 (0 :: 8 word) = [0, 0, 0, 0, 0, 0, 0, 0]"
    by (simp add: numeral_eq_Suc)
  ultimately show ?thesis
    by (simp add: new_variable_ptr_def place_def covers_def Let_def ptr_of_raw_def)
qed

text \<open>\<open>safe_mmap\<close> takes the number of bytes for the number of elements.\<close>

lemma mmap_size: "a_size (safe_mmap 4096 4096) = 4096"
  by (simp add: safe_mmap_def aptr_make0_def)

end
