(* ===== verification/Iron_Properties.thy ===== *)
theory Iron_Properties
  imports Iron_Limits
begin

text \<open>
  The properties of the Ironclad headers, each with its statement in words and an instance at
  a concrete input.
\<close>

section \<open>Pointers\<close>

text \<open>
  C12: no pointer to the stack outlives its frame: in every state that a program can reach by
  calls, returns, declarations and the checked assignments of \<open>step\<close>, a pointer variable of the
  frame \<open>i\<close> holds null, an address outside the stack, or the address of a local of frame \<open>i\<close> or of
  an older frame. The source of such an assignment is an address, or a pointer that was not itself
  assigned to since its declaration (the flag \<open>False\<close>). Assignments from a pointer that was
  assigned to are excluded: lptr.hpp:171 marks every assigned pointer as not on the stack, and a
  second assignment then lets the address of a local escape to an older frame (lemma
  \<open>Iron_Limits.assigned_lptr_escapes\<close>).
\<close>

theorem lptr_no_dangling:
  assumes "reachable link limit hi s" "i < length s" "v \<in> set (fr_vars (s ! i))"
  shows "nameable link limit hi (drop i s) (l_data (fst v))"
  using assms by (rule reachable_names)

text \<open>A caller with a local pointer, and a callee that assigns to it the address 2010 of the caller's frame.\<close>

lemma lptr_no_dangling_witness:
  "\<exists>p. reachable 16 1000 3000 [\<lparr>fr_lo = 1900, fr_vars = []\<rparr>, \<lparr>fr_lo = 2000, fr_vars = [(p, True)]\<rparr>] \<and>
    l_data p = 2010 \<and> nameable 16 1000 3000 [\<lparr>fr_lo = 2000, fr_vars = [(p, True)]\<rparr>] (l_data p)"
proof -
  let ?f = "\<lparr>fr_lo = 2000, fr_vars = []\<rparr>" and ?q = "lptr_of_raw 1984 0"
  let ?g = "\<lparr>fr_lo = 1900, fr_vars = []\<rparr>" and ?p = "\<lparr>l_data = 2010, l_tb = 1985\<rparr>"
  have "reachable 16 1000 3000 [?f]" by (rule reachable.Start) simp_all
  then have "reachable 16 1000 3000 [\<lparr>fr_lo = 2000, fr_vars = [(?q, False)]\<rparr>]"
    using step.Declare [of 16 1000 3000 ?f "[]" 0] reachable.Step by (auto simp: nameable_def getsp_def)
  then have "reachable 16 1000 3000 [?g, \<lparr>fr_lo = 2000, fr_vars = [(?q, False)]\<rparr>]"
    using step.Call [of 1900 1000 16 "\<lparr>fr_lo = 2000, fr_vars = [(?q, False)]\<rparr>" 3000 "[]"] reachable.Step by fastforce
  then have r: "reachable 16 1000 3000 [?g, \<lparr>fr_lo = 2000, fr_vars = [(?p, True)]\<rparr>]"
    using step.Assign_raw [of 16 1000 3000 "[?g, \<lparr>fr_lo = 2000, fr_vars = [(?q, False)]\<rparr>]" 2010 "Suc 0" 0 ?p] reachable.Step
    by (fastforce simp: nameable_def getsp_def lptr_of_raw_even lptr_assign_def mark_simps)
  from lptr_no_dangling [OF r, of 1 "(?p, True)"] r show ?thesis by auto
qed

text \<open>
  C13: an access through an \<open>aptr\<close> reaches a live element of its array exactly when the index
  is in range, and stops the program by an assertion otherwise.
\<close>

theorem aptr_access_safe:
  assumes "aptr_ok sz m p"
  shows "case aptr_at sz p k of
      Inr a \<Rightarrow> 0 \<le> long_wrap (a_index p + k) \<and> long_wrap (a_index p + k) < a_size p \<and>
        a = a_data p + nat (long_wrap (a_index p + k)) * sz \<and> a \<noteq> 0 \<and> live m a sz
    | Inl e \<Rightarrow> \<not> (0 \<le> long_wrap (a_index p + k) \<and> long_wrap (a_index p + k) < a_size p) \<and> (\<exists>s. e = Abort s)"
  using array_ok_elem [of sz m "a_data p" "a_size p" "long_wrap (a_index p + k)"] assms
  by (auto simp: aptr_at_eq aptr_ok_def)

lemma four_array: "aptr_ok 1 four \<lparr>a_data = 100, a_index = i, a_size = 4\<rparr>"
  by (auto simp: aptr_ok_def array_ok_def four_def live_def covers_def size_max_def)

lemma aptr_access_safe_witness:
  "aptr_at 1 (aptr_make0 100 4) 3 = Inr 103 \<and> live four 103 1 \<and> (\<exists>s. aptr_at 1 (aptr_make0 100 4) 4 = Inl (Abort s))"
  using aptr_access_safe [OF four_array [of 0], of 3] aptr_access_safe [OF four_array [of 0], of 4]
  by (auto simp: aptr_make0_def aptr_at_eq elem_addr_def)

text \<open>
  The same for an \<open>laptr\<close>, for \<open>operator[]\<close> with an unsigned index and for \<open>operator*\<close>.
\<close>

theorem laptr_access_safe:
  assumes "laptr_ok sz m p"
  shows "(case laptr_at sz p k of
      Inr a \<Rightarrow> 0 \<le> long_wrap (la_index p + int k) \<and> long_wrap (la_index p + int k) < la_size p \<and>
        a = la_data p + nat (long_wrap (la_index p + int k)) * sz \<and> live m a sz
    | Inl e \<Rightarrow> \<not> (0 \<le> long_wrap (la_index p + int k) \<and> long_wrap (la_index p + int k) < la_size p \<and> la_data p \<noteq> 0) \<and>
        (\<exists>s. e = Abort s)) \<and>
    (case laptr_deref sz p of
      Inr a \<Rightarrow> 0 \<le> la_index p \<and> la_index p < la_size p \<and> a = la_data p + nat (la_index p) * sz \<and> live m a sz
    | Inl e \<Rightarrow> \<not> (0 \<le> la_index p \<and> la_index p < la_size p) \<and> (\<exists>s. e = Abort s))"
  using array_ok_elem [of sz m "la_data p" "la_size p" "long_wrap (la_index p + int k)"]
    array_ok_elem [of sz m "la_data p" "la_size p" "la_index p"] assms
  by (auto simp: laptr_at_eq laptr_ok_def laptr_deref_def BOUNDS_CHECK_def c_assert_def)

lemma laptr_access_safe_witness:
  "laptr_deref 1 (laptr_make 1000 1008 100 4 2) = Inr 102 \<and> live four 102 1 \<and>
    (\<exists>s. laptr_at 1 (laptr_make 1000 1008 100 4 2) 2 = Inl (Abort s))"
proof -
  have ok: "laptr_ok 1 four (laptr_make 1000 1008 100 4 2)" using four_array [of 2] by (simp add: laptr_ok_def aptr_ok_def)
  from laptr_access_safe [OF ok, of 2] show ?thesis
    by (auto simp: laptr_at_eq laptr_deref_def BOUNDS_CHECK_def elem_addr_def)
qed



section \<open>Memory functions\<close>

text \<open>
  \<open>fill\<close> of \<open>n\<close> elements sets exactly the first \<open>n\<close> elements from the current one and
  changes nothing else, or, if there are fewer, stops by an assertion; \<open>zero\<close> is a fill with
  zero bytes. (The bound on the room is that of the counter's conversion to \<open>int\<close>.)
\<close>

theorem aptr_fill_exact:
  assumes "aptr_ok sz m p" "mem_ok m" "length v = sz" "long_wrap (a_index p) = a_index p" "aptr_room p < 2 ^ 31"
  shows "(if n \<le> aptr_room p
      then \<exists>m'. aptr_fill sz p v n m = Inr (p, m') \<and> elements_set sz (aptr_first sz p) n (\<lambda>_. v) m m'
      else \<exists>s. aptr_fill sz p v n m = Inl (Abort s)) \<and>
    rbind (aptr_zero sz None p n m) (\<lambda>m'. Inr (p, m')) = aptr_fill sz p (replicate sz 0) n m"
  using heap_array.fill_sets [OF assms(1-3), of n] heap_array.fill_overruns [OF assms(1-3) aptr_room_stops [OF assms(1,4,5)], of n]
  by (auto simp: aptr_fill_def aptr_zero_def heap_array.zero_is_fill)

lemma aptr_fill_exact_witness:
  "(\<exists>m'. aptr_fill 1 (aptr_make 100 4 2) [7] 2 four = Inr (aptr_make 100 4 2, m') \<and>
      elements_set 1 102 2 (\<lambda>_. [7]) four m') \<and>
    (\<exists>s. aptr_fill 1 (aptr_make 100 4 2) [7] 3 four = Inl (Abort s))"
  using aptr_fill_exact [OF four_array [of 2] four_ok, of "[7]" 2] aptr_fill_exact [OF four_array [of 2] four_ok, of "[7]" 3]
  by (simp add: aptr_make_def aptr_room_def aptr_first_def)



text \<open>
  The copies that read or write stack arrays never touch memory outside the two arrays,
  for any number of elements, and between arrays that have that many elements make an exact
  copy.
\<close>

theorem stack_copy_exact:
  assumes "aptr_ok sz m p" "laptr_ok sz m q" "laptr_ok sz m r" "mem_ok m"
  shows "no_fault m (copy_heap_stack sz p q n m) \<and> no_fault m (copy_stack_stack sz r q n m) \<and>
    (n \<le> laptr_room q \<and> n \<le> aptr_room p \<and>
      (aptr_first sz p \<le> laptr_first sz q \<or> laptr_first sz q + n * sz \<le> aptr_first sz p) \<longrightarrow>
     (\<exists>m'. copy_heap_stack sz p q n m = Inr m' \<and>
        elements_set sz (aptr_first sz p) n (\<lambda>i. slice m (laptr_first sz q + i * sz) sz) m m')) \<and>
    (n \<le> laptr_room q \<and> n \<le> laptr_room r \<and>
      (laptr_first sz r \<le> laptr_first sz q \<or> laptr_first sz q + n * sz \<le> laptr_first sz r) \<longrightarrow>
     (\<exists>m'. copy_stack_stack sz r q n m = Inr m' \<and>
        elements_set sz (laptr_first sz r) n (\<lambda>i. slice m (laptr_first sz q + i * sz) sz) m m'))"
  using heap_stack.copy_safe [OF assms(1,2), where cons = id and n = n] heap_stack.copy_copies [OF assms(1,2,4), where cons = id and n = n]
    stack_stack.copy_safe [OF assms(3,2), where cons = id and n = n] stack_stack.copy_copies [OF assms(3,2,4), where cons = id and n = n]
  by (simp add: copy_heap_stack_def copy_stack_stack_def)

lemma stack_copy_exact_witness:
  "\<exists>m'. copy_heap_stack 1 (aptr_make0 100 4) (laptr_make 1000 1008 100 4 2) 2 four = Inr m' \<and>
    elements_set 1 100 2 (\<lambda>i. slice four (102 + i) 1) four m'"
proof -
  have ok: "laptr_ok 1 four (laptr_make 1000 1008 100 4 2)" using four_array [of 2] by (simp add: laptr_ok_def aptr_ok_def)
  from stack_copy_exact [OF four_array [of 0] ok ok four_ok, of 2] show ?thesis
    by (simp add: aptr_make0_def aptr_room_def aptr_first_def laptr_room_def laptr_first_def)
qed

section \<open>Containers\<close>

text \<open>
  The constructor of \<open>array\<close> from at most \<open>ARRAY_N\<close> values stores them in order,
  followed by zeroes, and changes nothing else.
\<close>

theorem array_init_exact:
  assumes "arr_ok sz m a" "mem_ok m" "length vs \<le> ar_n a" "\<forall>v\<in>set vs. length v = sz"
  shows "\<exists>m'. array_init sz a vs m = Inr m' \<and>
    elements_set sz (ar_data a) (ar_n a) (\<lambda>i. if i < length vs then vs ! i else replicate sz 0) m m'"
  using assms by (rule array_init_contents)

lemma four_arr: "arr_ok 2 four \<lparr>ar_data = 100, ar_n = 2\<rparr>"
  by (simp add: arr_ok_def array_ok_def four_def live_def covers_def size_max_def)

lemma array_init_exact_witness:
  "\<exists>m'. array_init 2 \<lparr>ar_data = 100, ar_n = 2\<rparr> [[8, 9]] four = Inr m' \<and>
    elements_set 2 100 2 (\<lambda>i. if i < 1 then [[8, 9]] ! i else replicate 2 0) four m'"
  using array_init_exact [OF four_arr four_ok, of "[[8, 9]]"] by simp

text \<open>
  C16: an \<open>array\<close> gives access to its elements only: an index is in range or the program
  stops, the pointers made from the array are checked pointers into it, and one that may be
  kept in the heap is made only when the array lies below the stack pointer.
\<close>

theorem array_access_safe:
  assumes "arr_ok sz m a"
  shows "(case array_at sz a i of
      Inr x \<Rightarrow> i < ar_n a \<and> x = ar_data a + i * sz \<and> live m x sz
    | Inl e \<Rightarrow> \<not> i < ar_n a \<and> (\<exists>s. e = Abort s)) \<and>
    laptr_ok sz m (laptr_of_array sp this a) \<and> laptr_ok sz m (array_add sp this a i) \<and>
    (\<forall>p. array_offset sp this a i = Inr p \<longrightarrow> laptr_ok sz m p \<and> laptr_deref sz p = array_at sz a i) \<and>
    (\<forall>q. array_getAptr sp a = Inr q \<or> array_offsetAptr sp a i = Inr q \<longrightarrow> aptr_ok sz m q \<and> a_data q \<le> sp)"
  using array_at_ok [OF assms, of i] array_pointers_ok [OF assms, where sp = sp] array_offset_deref [of sp this a i]
    array_getAptr_off_stack [of sp a] array_offsetAptr_off_stack [of sp a i]
  by auto

lemma array_access_safe_witness:
  "(\<exists>s. array_at 2 \<lparr>ar_data = 100, ar_n = 2\<rparr> 2 = Inl (Abort s)) \<and> live four 102 2 \<and>
    aptr_ok 2 four (aptr_make0 100 2)"
  using array_access_safe [OF four_arr, of 2 1000 1008] array_access_safe [OF four_arr, of 1 1000 1008]
  by (auto simp: array_at_def array_getAptr_def array_notOnStack_def laptr_dataNotOnStack_def laptr_null_def elem_addr_def)

text \<open>
  C17: \<open>matrix\<close>: an access in range reaches a live element of the flattened array, different
  coordinates reach different elements, and any other access stops the program.
\<close>

theorem matrix_access_safe:
  assumes "matrix_ok sz m mat"
  shows "(case matrix_at sz mat x y of
      Inr a \<Rightarrow> x < mx_x mat \<and> y < mx_y mat \<and> a = mx_data mat + (y * mx_x mat + x) * sz \<and> live m a sz
    | Inl e \<Rightarrow> \<not> (x < mx_x mat \<and> y < mx_y mat) \<and> (\<exists>s. e = Abort s)) \<and>
    (\<forall>x' y' a. matrix_at sz mat x y = Inr a \<and> matrix_at sz mat x' y' = Inr a \<longrightarrow> x = x' \<and> y = y')"
proof -
  have in_range: "matrix_at sz mat x y = Inr a \<Longrightarrow> x < mx_x mat \<and> y < mx_y mat" for x y a
    by (simp add: matrix_at_def c_assert_Inr)
  then have "\<forall>x' y' a. matrix_at sz mat x y = Inr a \<and> matrix_at sz mat x' y' = Inr a \<longrightarrow> x = x' \<and> y = y'"
    using matrix_at_inj [OF assms] by metis
  then show ?thesis
    using matrix_at_ok [OF assms, of x y] by (cases "x < mx_x mat \<and> y < mx_y mat") (auto simp: matrix_at_def)
qed

lemma matrix_access_safe_witness:
  "live four 103 1 \<and> (\<exists>s. matrix_at 1 (matrix_make 100 2 2) 2 0 = Inl (Abort s))"
proof -
  have ok: "matrix_ok 1 four (matrix_make 100 2 2)"
    by (simp add: matrix_ok_def matrix_make_def array_ok_def four_def live_def covers_def size_max_def)
  have "matrix_at 1 (matrix_make 100 2 2) 1 1 = Inr 103"
    by (simp add: matrix_at_def matrix_make_def matrix_index_def elem_addr_def size_max_def)
  with matrix_access_safe [OF ok, of 1 1] have "live four 103 1" by simp
  moreover from matrix_access_safe [OF ok, of 2 0] have "\<exists>s. matrix_at 1 (matrix_make 100 2 2) 2 0 = Inl (Abort s)"
    by (simp add: matrix_at_def matrix_make_def)
  ultimately show ?thesis by blast
qed

section \<open>Strings\<close>

text \<open>
  \<open>safe_strlen\<close> on the start of an array returns the number of characters before the
  first NUL, and stops the program when there is none; it never reads outside the array.
\<close>

theorem safe_strlen_exact:
  assumes "mem_ok m" "aptr_ok 1 m p" "a_index p = 0" "0 < a_size p"
  shows "safe_strlen m p =
    (let v = slice m (a_data p) (nat (a_size p)) in
     if 0 \<in> set v then Inr (length (takeWhile (\<lambda>x. x \<noteq> 0) v)) else Inl (Abort ''false''))"
  using assms by (rule safe_strlen_ok)

lemma safe_strlen_exact_witness: "safe_strlen four (aptr_make0 100 4) = Inr 3"
  using safe_strlen_exact [OF four_ok four_array [of 0]]
  by (simp add: aptr_make0_def slice_def upt_conv_Cons four_def covers_def Let_def)

text \<open>
  C18: a string copied by \<open>safe_strcpy\<close> to an array with room for it and its terminator is
  the same string: \<open>safe_strcmp\<close> says they are equal and \<open>safe_strlen\<close> gives its length.
\<close>

theorem strcpy_round_trip:
  assumes "mem_ok m" "string_arg m q s" "aptr_ok 1 m p" "a_index p = 0" "int (length s) < a_size p"
    and "a_data q + (length s + 1) \<le> a_data p \<or> a_data p + (length s + 1) \<le> a_data q"
  shows "\<exists>m'. safe_strcpy m p q = Inr (p, m') \<and> safe_strcmp m' p q = Inr 0 \<and> safe_strlen m' p = Inr (length s)"
proof -
  obtain m' where m': "safe_strcpy m p q = Inr (p, m')" "string_arg m' p s" "wr m (a_data p) (s @ [0]) = Inr m'"
    using safe_strcpy_ok [OF assms(1-5)] by blast
  have ok: "mem_ok m'" using mem_ok_layout wr_layout [OF m'(3)] assms(1) by metis
  have "string_arg m' q s" using string_arg_wr_other [OF assms(1) m'(3) assms(2)] assms(6) by simp
  with m' ok show ?thesis
    using string_arg_strlen [OF ok m'(2)] safe_strcmp_ok [OF ok m'(2)] cmp_bytes_lexord(1) [of s s] by auto
qed

lemma four_string: "string_arg four \<lparr>a_data = 100, a_index = 0, a_size = 4\<rparr> [1, 2, 3]"
  using four_array [of 0] by (simp add: string_arg_def slice_def upt_conv_Cons four_def covers_def)

lemma strcpy_round_trip_witness:
  "\<exists>m'. safe_strcpy (place four 200 [0, 0, 0, 0]) (aptr_make0 200 4) (aptr_make0 100 4) = Inr (aptr_make0 200 4, m') \<and>
    safe_strlen m' (aptr_make0 200 4) = Inr 3"
proof -
  let ?m = "place four 200 [0, 0, 0, 0]"
  have m: "mem_ok ?m" by (simp add: place_def four_def size_max_def)
  have q: "string_arg ?m \<lparr>a_data = 100, a_index = 0, a_size = 4\<rparr> [1, 2, 3]"
    by (simp add: string_arg_def aptr_ok_def array_ok_def place_def four_def live_def covers_def size_max_def
        slice_def upt_conv_Cons)
  have p: "aptr_ok 1 ?m \<lparr>a_data = 200, a_index = 0, a_size = 4\<rparr>"
    by (simp add: aptr_ok_def array_ok_def place_def live_def covers_def size_max_def)
  from strcpy_round_trip [OF m q p] show ?thesis by (auto simp: aptr_make0_def)
qed

text \<open>
  The sign of \<open>safe_strcmp\<close> on two strings is that of the lexicographic order of their
  bytes.
\<close>

theorem safe_strcmp_order:
  assumes "mem_ok m" "string_arg m p s" "string_arg m q t"
  shows "\<exists>r. safe_strcmp m p q = Inr r \<and> (r = 0 \<longleftrightarrow> s = t) \<and> (r < 0 \<longleftrightarrow> (s, t) \<in> lexord {(x, y). x < y})"
  using safe_strcmp_ok [OF assms] cmp_bytes_lexord [of s t] by auto

lemma safe_strcmp_order_witness: "safe_strcmp four (aptr_make0 100 4) (aptr_make0 100 4) = Inr 0"
  using safe_strcmp_order [OF four_ok four_string four_string] by (simp add: aptr_make0_def)

text \<open>
  C19: \<open>safe_memset\<close> and \<open>safe_memmove\<close> through checked pointers whose index is not negative, on
  ranges of one or more whole elements that the spatial check accepts, write exactly the bytes asked
  for, as long as the index and the number of bytes are below \<open>2 ^ 62\<close>;
  \<open>safe_memmove\<close> moves the bytes that were there before, overlapping or not. A range the check
  refuses stops the program. A negative index is excluded by \<open>range_arg\<close>: \<open>spatialCheck\<close> accepts it
  (aptr.hpp:289), and \<open>safe_memset\<close> then writes before the array (lemma
  \<open>Iron_Limits.memset_before_array\<close>).
\<close>

theorem memory_functions_exact:
  assumes "range_arg sz m p n" "range_arg sz m q n" "mem_ok m"
  shows "(case safe_memset sz m p v n of
      Inl e \<Rightarrow> \<not> aptr_spatialCheck sz p n \<and> (\<exists>s. e = Abort s)
    | Inr (r, m') \<Rightarrow> r = p \<and> aptr_spatialCheck sz p n \<and>
        elements_set n (aptr_convert_to_raw sz p) 1 (\<lambda>_. replicate n (word_of_int v)) m m') \<and>
    (if aptr_spatialCheck sz p n \<and> aptr_spatialCheck sz q n
     then \<exists>m'. safe_memmove sz m p q n = Inr (p, m') \<and>
       elements_set n (aptr_convert_to_raw sz p) 1 (\<lambda>_. slice m (aptr_convert_to_raw sz q) n) m m'
     else \<exists>s. safe_memmove sz m p q n = Inl (Abort s))"
  using safe_memset_ok [OF assms(1,3), of v] safe_memmove_ok [OF assms]
  by (auto simp: safe_memmove_def c_assert_def)

lemma memory_functions_exact_witness:
  "\<exists>m'. safe_memmove 1 four (aptr_make 100 4 1) (aptr_make0 100 4) 3 = Inr (aptr_make 100 4 1, m') \<and>
    elements_set 3 101 1 (\<lambda>_. slice four 100 3) four m'"
proof -
  have a: "range_arg 1 four (aptr_make 100 4 1) 3" "range_arg 1 four (aptr_make0 100 4) 3"
    using four_array [of 1] four_array [of 0] by (simp_all add: range_arg_def aptr_make_def aptr_make0_def)
  from memory_functions_exact [OF a four_ok] show ?thesis
    by (simp add: aptr_spatialCheck_def aptr_make_def aptr_make0_def aptr_convert_to_raw_def elem_addr_def)
qed

section \<open>Allocation, casts and streams\<close>

text \<open>
  When the size in bytes does not wrap and the allocator has memory, \<open>new_array\<close> returns
  a checked pointer to the start of an array of as many elements, every one of which can be
  accessed.
\<close>

theorem new_array_usable:
  assumes "alloc_ok alloc" "ctor_ok ctor sz" "mem_ok m" "0 < sz" "n * sz < size_max" "n < 2 ^ 63"
    "fst (alloc m (n * sz)) \<noteq> 0"
  shows "\<exists>p m'. new_array alloc ctor sz n m = Inr (p, m') \<and> aptr_ok sz m' p \<and> mem_ok m' \<and>
    (\<forall>k. (0 \<le> k \<and> k < int n) = (\<exists>a. aptr_deref sz (p\<lparr>a_index := k\<rparr>) = Inr a))"
proof -
  obtain p m' where p: "new_array alloc ctor sz n m = Inr (p, m')" "aptr_ok sz m' p" "mem_ok m'" "a_size p = int n"
    using new_array_ok [OF assms] by blast
  then show ?thesis by (auto simp: aptr_deref_def BOUNDS_CHECK_def c_assert_def)
qed

text \<open>An allocator that puts a block above all the others, and a constructor that does nothing.\<close>

definition bump :: allocator where
  "bump m n = (let a = Suc (foldr (\<lambda>b. max (bk_base b + length (bk_bytes b))) m 0)
    in if a + n \<le> size_max then (a, place m a (replicate n 0)) else (0, m))"

lemma bump_above: "b \<in> set m \<Longrightarrow> bk_base b + length (bk_bytes b) \<le> foldr (\<lambda>b. max (bk_base b + length (bk_bytes b))) m (0 :: nat)"
  by (induction m) auto

lemma bump_ok: "alloc_ok bump"
  unfolding alloc_ok_def
proof (intro allI impI)
  fix m :: mem and n :: nat assume m: "mem_ok m"
  let ?a = "Suc (foldr (\<lambda>b. max (bk_base b + length (bk_bytes b))) m 0)"
  have "\<forall>b\<in>set m. bk_base b + length (bk_bytes b) \<le> ?a" using bump_above by (auto intro: le_SucI)
  with m have "mem_ok (place m ?a (replicate n 0))" if "?a + n \<le> size_max" using that by (auto simp: place_def)
  then show "bump m n = (0, m) \<or> (\<exists>a vs. bump m n = (a, place m a vs) \<and> length vs = n \<and> mem_ok (place m a vs))"
    by (auto simp: bump_def Let_def)
qed

lemma new_array_usable_witness:
  "\<exists>p m'. new_array bump (\<lambda>_ m. Inr m) 4 5 four = Inr (p, m') \<and> aptr_ok 4 m' p \<and> mem_ok m'"
proof -
  have "ctor_ok (\<lambda>_ m. Inr m) 4" by (simp add: ctor_ok_def)
  moreover have "fst (bump four (5 * 4)) \<noteq> 0" by (simp add: bump_def four_def Let_def size_max_def)
  ultimately show ?thesis using new_array_usable [OF bump_ok _ four_ok, of "\<lambda>_ m. Inr m" 4 5] by (auto simp: size_max_def)
qed

text \<open>
  C20: the alignment loop of \<open>new_aligned_array\<close> stops at the next multiple of a positive
  \<open>align\<close>. When the size in bytes, \<open>n * sz + align\<close>, does not wrap, \<open>n\<close> fits a \<open>long\<close> and the allocator succeeds, that leaves room for
  the whole array in the block: the result is aligned and can be accessed. The code checks
  neither (util.hpp:187, as \<open>new_array\<close>, see \<open>Iron_Limits.new_array_wraps\<close> and
  \<open>Iron_Limits.new_array_no_memory\<close>).
\<close>

theorem new_aligned_array_usable:
  assumes "alloc_ok alloc" "ctor_ok ctor sz" "mem_ok m" "0 < sz" "0 < align" "n * sz + align < size_max" "n < 2 ^ 63"
    "fst (alloc m (n * sz + align)) \<noteq> 0"
  shows "\<exists>p m'. new_aligned_array alloc ctor sz n align m = Inr (p, m') \<and> aptr_ok sz m' p \<and>
    a_size p = int n \<and> a_data p mod align = 0 \<and>
    (\<forall>a. align_loop align a mod align = 0 \<and> a \<le> align_loop align a \<and> align_loop align a < a + align)"
proof -
  have "\<forall>a. align_loop align a mod align = 0 \<and> a \<le> align_loop align a \<and> align_loop align a < a + align"
    using align_loop_next [OF assms(5)] by blast
  with new_aligned_array_ok [OF assms] show ?thesis by simp
qed

lemma new_aligned_array_usable_witness:
  "\<exists>p m'. new_aligned_array bump (\<lambda>_ m. Inr m) 4 5 16 four = Inr (p, m') \<and> a_data p mod 16 = 0"
proof -
  have "ctor_ok (\<lambda>_ m. Inr m) 4" by (simp add: ctor_ok_def)
  moreover have "fst (bump four (5 * 4 + 16)) \<noteq> 0" by (simp add: bump_def four_def Let_def size_max_def)
  ultimately show ?thesis
    using new_aligned_array_usable [OF bump_ok _ four_ok, of "\<lambda>_ m. Inr m" 4 16 5] by (auto simp: size_max_def)
qed

text \<open>
  C21: \<open>internal_cast\<close> of an \<open>aptr\<close>, which the casts between arithmetic types are made of, keeps a
  checked pointer to an array of fewer than \<open>2 ^ 63\<close> bytes checked: the new size, rounded down,
  stays inside the bytes of the array. (The index is not scaled, so the pointer may be at another
  address: lemma \<open>Iron_Limits.cast_moves_pointer\<close>.) The generic \<open>cast\<close> of an \<open>aptr\<close> (casts.hpp:97, \<open>cast_aptr\<close>) is
  not meant: it keeps the size as it is, also when \<open>dynamic_cast\<close> gives null (lemma
  \<open>Iron_Limits.failed_cast_keeps_size\<close>).
\<close>

theorem cast_keeps_bounds:
  assumes "aptr_ok t m p" "0 < u" "a_size p * int t < 2 ^ 63"
  shows "aptr_ok u m (internal_cast_aptr t u p) \<and> a_size (internal_cast_aptr t u p) * int u \<le> a_size p * int t"
proof -
  have "0 \<le> a_size p" using assms(1) by (auto simp: aptr_ok_def array_ok_def)
  then have "0 \<le> a_size p * int t" by simp
  moreover define k where "k = a_size p * int t"
  moreover have mult: "k div int u * int u \<le> k"
    using assms(2) by (simp add: minus_mod_eq_div_mult [symmetric])
  ultimately have k: "0 \<le> k" "k < 2 ^ 63" "ulong k = k" using assms(3) by simp_all
  then have d: "0 \<le> k div int u" using assms(2) by (simp add: pos_imp_zdiv_nonneg_iff)
  then have "k div int u * 1 \<le> k div int u * int u" using assms(2) by (intro mult_left_mono) auto
  with d mult k have "long_wrap (k div int u) = k div int u" by (intro long_wrap_small) linarith+
  with mult k(3) have "a_size (internal_cast_aptr t u p) * int u \<le> a_size p * int t"
    by (simp add: internal_cast_aptr_def aptr_make_def k_def)
  with internal_cast_ok(1) [OF assms] show ?thesis by blast
qed

lemma cast_keeps_bounds_witness: "aptr_ok 2 four (cast_uchar_ushort (aptr_make0 100 4))"
  using cast_keeps_bounds [OF four_array [of 0], of 2] by (simp add: cast_uchar_ushort_def aptr_make0_def)

text \<open>
  \<open>safe_fread\<close> into an array of bytes stores what the stream has, up to the number asked
  for, returns how many that were, and leaves the rest of the stream.
\<close>

theorem safe_fread_bytes:
  assumes "range_arg 1 m p n" "mem_ok m" "aptr_spatialCheck 1 p n"
  shows "\<exists>m'. safe_fread 1 p 1 n stream m = Inr (min n (length stream), drop n stream, m') \<and>
    elements_set (min n (length stream)) (aptr_convert_to_raw 1 p) 1 (\<lambda>_. take n stream) m m'"
  using assms by (rule safe_fread_ok)

lemma safe_fread_bytes_witness:
  "\<exists>m'. safe_fread 1 (aptr_make0 100 4) 1 3 [7, 8] four = Inr (2, [], m') \<and> elements_set 2 100 1 (\<lambda>_. [7, 8]) four m'"
proof -
  have a: "range_arg 1 four (aptr_make0 100 4) 3" using four_array [of 0] by (simp add: range_arg_def aptr_make0_def)
  from safe_fread_bytes [OF a four_ok, of "[7, 8]"] show ?thesis
    by (simp add: aptr_spatialCheck_def aptr_make0_def aptr_convert_to_raw_def elem_addr_def numeral_2_eq_2)
qed

end
