(* ===== verification/GC_Headers.thy ===== *)
theory GC_Headers
  imports Prelude
begin

text \<open>
  Heap block headers of the collector (\<^verbatim>\<open>libs/gc/headers.c\<close> and
  \<^verbatim>\<open>libs/gc/include/private/gc_hdrs.h\<close>, with the hashed top level of 64-bit targets): the
  two-level index from blocks to headers, its list of bottom indices in address order, the
  forwarding counts inside large objects, and the searches for the neighbours of a block.
  Addresses of blocks are block numbers (the address divided by \<open>HBLKSIZE\<close>); headers and
  bottom indices are numbered in the order of their allocation.
\<close>

section \<open>Constants and data\<close>

definition LOG_HBLKSIZE :: nat where "LOG_HBLKSIZE = 12"
definition HBLKSIZE :: nat where "HBLKSIZE = 4096"
definition GRANULE_BYTES :: nat where "GRANULE_BYTES = 16"
definition BOTTOM_SZ :: nat where "BOTTOM_SZ = 1024"
definition TOP_SZ :: nat where "TOP_SZ = 2048"
definition MAX_JUMP :: nat where "MAX_JUMP = HBLKSIZE - 1"
definition MINHINCR :: nat where "MINHINCR = 16"

lemma index_sizes_pos [simp]: "0 < BOTTOM_SZ" "0 < TOP_SZ"
  by (simp_all add: BOTTOM_SZ_def TOP_SZ_def)

record hdr =
  hb_next :: nat
  hb_prev :: nat
  hb_block :: nat
  hb_obj_kind :: nat
  hb_free :: bool
  hb_ignore_off_page :: bool
  hb_last_reclaimed :: nat
  hb_sz :: nat
  hb_descr :: nat
  hb_large_block :: bool
  hb_map :: "nat list option"
  hb_n_marks :: nat
  hb_marks :: "nat set"

text \<open>An entry of a bottom index: 0, a forwarding count, or a pointer to a header.\<close>

datatype entry = Nil_entry | Jump nat | Hdr nat

record bottom_index =
  bi_index :: "entry list"
  asc_link :: "nat option"
  desc_link :: "nat option"
  key :: nat
  hash_link :: nat

text \<open>
  \<open>bis ! 0\<close> is \<open>GC_all_nils\<close>; a null pointer to a bottom index is \<open>None\<close>. \<open>os_mem\<close> holds the
  addresses \<open>GET_MEM\<close> will return, 0 for a failure.
\<close>

record headers =
  bis :: "bottom_index list"
  top_index :: "nat list"
  all_bis :: "nat option"
  all_bis_end :: "nat option"
  hdrs :: "hdr list"
  hdr_free_list :: "nat list"
  scratch_free :: nat
  scratch_end :: nat
  scratch_last_end :: nat
  os_mem :: "nat list"

section \<open>Scratch memory\<close>

definition GET_MEM :: "nat \<Rightarrow> 'a headers_scheme \<Rightarrow> nat \<times> 'a headers_scheme" where
  "GET_MEM bytes st =
     (case os_mem st of [] \<Rightarrow> (0, st) | a # as \<Rightarrow> (a, st\<lparr>os_mem := as\<rparr>))"

function GC_scratch_alloc :: "nat \<Rightarrow> 'a headers_scheme \<Rightarrow> nat \<times> 'a headers_scheme" where
  "GC_scratch_alloc n st =
     (let result = scratch_free st;
          bytes = (n + (GRANULE_BYTES - 1)) div GRANULE_BYTES * GRANULE_BYTES;
          st1 = st\<lparr>scratch_free := scratch_free st + bytes\<rparr>
      in if scratch_free st1 \<le> scratch_end st1 then (result, st1)
         else
           let bytes_to_get = MINHINCR * HBLKSIZE
           in if bytes_to_get \<le> bytes then
                let (result, st2) = GET_MEM bytes st1
                in (result, st2\<lparr>scratch_free := scratch_free st2 - bytes, scratch_last_end := result + bytes\<rparr>)
              else
                let (result, st2) = GET_MEM bytes_to_get st1
                in if result = 0 then
                     let (result, st3) = GET_MEM bytes (st2\<lparr>scratch_free := scratch_free st2 - bytes\<rparr>)
                     in (result, st3)
                   else
                     GC_scratch_alloc bytes
                       (st2\<lparr>scratch_free := result, scratch_end := result + bytes_to_get,
                            scratch_last_end := result + bytes_to_get\<rparr>))"
  by pat_completeness auto
termination
  by (relation "measure (\<lambda>(_, st). length (os_mem st))") (auto simp: GET_MEM_def split: list.splits)

declare GC_scratch_alloc.simps [simp del]

definition fresh_hdr :: hdr where
  "fresh_hdr = \<lparr>hb_next = 0, hb_prev = 0, hb_block = 0, hb_obj_kind = 0, hb_free = False,
     hb_ignore_off_page = False, hb_last_reclaimed = 0, hb_sz = 0, hb_descr = 0,
     hb_large_block = False, hb_map = None, hb_n_marks = 0, hb_marks = {}\<rparr>"

text \<open>\<open>sizeof(hdr)\<close> and \<open>sizeof(bottom_index)\<close>.\<close>

definition SIZEOF_HDR :: nat where "SIZEOF_HDR = 112"
definition SIZEOF_BI :: nat where "SIZEOF_BI = 8 * BOTTOM_SZ + 32"

definition alloc_hdr :: "'a headers_scheme \<Rightarrow> nat option \<times> 'a headers_scheme" where
  "alloc_hdr st =
     (case hdr_free_list st of
        [] \<Rightarrow>
          let (p, st) = GC_scratch_alloc SIZEOF_HDR st
          in if p = 0 then (None, st)
             else (Some (length (hdrs st)), st\<lparr>hdrs := hdrs st @ [fresh_hdr]\<rparr>)
      | h # hs \<Rightarrow> (Some h, st\<lparr>hdr_free_list := hs\<rparr>))"

definition free_hdr :: "nat \<Rightarrow> 'a headers_scheme \<Rightarrow> 'a headers_scheme" where
  "free_hdr h st = st\<lparr>hdr_free_list := h # hdr_free_list st\<rparr>"

section \<open>The index\<close>

definition nil_bi :: bottom_index where
  "nil_bi = \<lparr>bi_index = replicate BOTTOM_SZ Nil_entry, asc_link = None, desc_link = None, key = 0, hash_link = 0\<rparr>"

text \<open>\<open>GC_init_headers\<close>; the result is false if the table of nils could not be allocated.\<close>

definition GC_init_headers :: "'a headers_scheme \<Rightarrow> bool \<times> 'a headers_scheme" where
  "GC_init_headers st =
     (let (p, st) = GC_scratch_alloc SIZEOF_BI st
      in (p \<noteq> 0, st\<lparr>bis := [nil_bi], top_index := replicate TOP_SZ 0\<rparr>))"

text \<open>Walking a hash chain; every link leads to an older bottom index.\<close>

fun find_bi :: "bottom_index list \<Rightarrow> nat \<Rightarrow> nat \<Rightarrow> nat \<Rightarrow> nat" where
  "find_bi bs hi 0 p = 0"
| "find_bi bs hi (Suc k) p =
     (if key (bs ! p) \<noteq> hi \<and> p \<noteq> 0 then find_bi bs hi k (hash_link (bs ! p)) else p)"

definition GET_BI :: "'a headers_scheme \<Rightarrow> nat \<Rightarrow> nat" where
  "GET_BI st blk =
     (let hi = blk div BOTTOM_SZ
      in find_bi (bis st) hi (length (bis st)) (top_index st ! (hi mod TOP_SZ)))"

definition HDR :: "'a headers_scheme \<Rightarrow> nat \<Rightarrow> entry" where
  "HDR st blk = bi_index (bis st ! GET_BI st blk) ! (blk mod BOTTOM_SZ)"

definition upd_bi :: "nat \<Rightarrow> (bottom_index \<Rightarrow> bottom_index) \<Rightarrow> 'a headers_scheme \<Rightarrow> 'a headers_scheme" where
  "upd_bi p f st = st\<lparr>bis := (bis st)[p := f (bis st ! p)]\<rparr>"

definition SET_HDR :: "nat \<Rightarrow> entry \<Rightarrow> 'a headers_scheme \<Rightarrow> 'a headers_scheme" where
  "SET_HDR blk e st =
     upd_bi (GET_BI st blk) (\<lambda>b. b\<lparr>bi_index := (bi_index b)[blk mod BOTTOM_SZ := e]\<rparr>) st"

fun IS_FORWARDING_ADDR_OR_NIL :: "entry \<Rightarrow> bool" where
  "IS_FORWARDING_ADDR_OR_NIL (Hdr h) = False"
| "IS_FORWARDING_ADDR_OR_NIL _ = True"

text \<open>The place of a new key in the list of bottom indices: its neighbours.\<close>

fun walk_asc :: "bottom_index list \<Rightarrow> nat \<Rightarrow> nat \<Rightarrow> nat option \<Rightarrow> nat option \<Rightarrow> nat option \<times> nat option" where
  "walk_asc bs hi (Suc k) pi (Some p) =
     (if key (bs ! p) < hi then walk_asc bs hi k (Some p) (asc_link (bs ! p)) else (pi, Some p))"
| "walk_asc bs hi _ pi p = (pi, p)"

definition link_bi :: "nat \<Rightarrow> nat \<Rightarrow> 'a headers_scheme \<Rightarrow> 'a headers_scheme" where
  "link_bi r hi st =
     (let (pi, p) = walk_asc (bis st) hi (length (bis st)) None (all_bis st);
          st = upd_bi r (\<lambda>b. b\<lparr>desc_link := pi\<rparr>) st;
          st = (case p of None \<Rightarrow> st\<lparr>all_bis_end := Some r\<rparr> | Some p \<Rightarrow> upd_bi p (\<lambda>b. b\<lparr>desc_link := Some r\<rparr>) st);
          st = upd_bi r (\<lambda>b. b\<lparr>asc_link := p\<rparr>) st
      in case pi of None \<Rightarrow> st\<lparr>all_bis := Some r\<rparr> | Some q \<Rightarrow> upd_bi q (\<lambda>b. b\<lparr>asc_link := Some r\<rparr>) st)"

definition get_index :: "nat \<Rightarrow> 'a headers_scheme \<Rightarrow> bool \<times> 'a headers_scheme" where
  "get_index blk st =
     (let hi = blk div BOTTOM_SZ; i = hi mod TOP_SZ; old = top_index st ! i
      in if GET_BI st blk \<noteq> 0 then (True, st)
         else
           let (p, st) = GC_scratch_alloc SIZEOF_BI st
           in if p = 0 then (False, st)
              else
                let r = length (bis st);
                    st = st\<lparr>bis := bis st @ [nil_bi\<lparr>hash_link := old, key := hi\<rparr>], top_index := (top_index st)[i := r]\<rparr>
                in (True, link_bi r hi st))"

definition GC_install_header :: "nat \<Rightarrow> 'a headers_scheme \<Rightarrow> nat option \<times> 'a headers_scheme" where
  "GC_install_header h st =
     (let (ok, st) = get_index h st
      in if \<not> ok then (None, st)
         else
           let (result, st) = alloc_hdr st
           in case result of
                None \<Rightarrow> (None, st)
              | Some r \<Rightarrow> (Some r, SET_HDR h (Hdr r) st))"

text \<open>The bottom indices of the blocks \<open>h, h + BOTTOM_SZ, \<dots>\<close> below \<open>lim\<close>.\<close>

function get_indices :: "nat \<Rightarrow> nat \<Rightarrow> 'a headers_scheme \<Rightarrow> bool \<times> 'a headers_scheme" where
  "get_indices h lim st =
     (if h < lim then
        let (ok, st) = get_index h st in if \<not> ok then (False, st) else get_indices (h + BOTTOM_SZ) lim st
      else (True, st))"
  by pat_completeness auto
termination
  by (relation "measure (\<lambda>(h, lim, _). lim - h)") (auto simp: BOTTOM_SZ_def)

fun set_jumps :: "nat \<Rightarrow> nat list \<Rightarrow> 'a headers_scheme \<Rightarrow> 'a headers_scheme" where
  "set_jumps h [] st = st"
| "set_jumps h (b # bs) st =
     (let i = b - h in set_jumps h bs (SET_HDR b (Jump (if i > MAX_JUMP then MAX_JUMP else i)) st))"

text \<open>\<open>n\<close> is the number of blocks of the \<open>sz\<close> bytes, a multiple of \<open>HBLKSIZE\<close>.\<close>

definition GC_install_counts :: "nat \<Rightarrow> nat \<Rightarrow> 'a headers_scheme \<Rightarrow> bool \<times> 'a headers_scheme" where
  "GC_install_counts h n st =
     (let (ok, st) = get_indices h (h + n) st
      in if \<not> ok then (False, st)
         else
           let (ok, st) = get_index (h + n - 1) st
           in if \<not> ok then (False, st) else (True, set_jumps h [Suc h..<h + n] st))"

definition GC_remove_header :: "nat \<Rightarrow> 'a headers_scheme \<Rightarrow> 'a headers_scheme res" where
  "GC_remove_header h st =
     (case HDR st h of
        Hdr r \<Rightarrow> Inr (SET_HDR h Nil_entry (free_hdr r st))
      | Nil_entry \<Rightarrow> Inl NullDeref
      | Jump d \<Rightarrow> Inl BadArg)"

fun set_nils :: "nat list \<Rightarrow> 'a headers_scheme \<Rightarrow> 'a headers_scheme" where
  "set_nils [] st = st"
| "set_nils (b # bs) st = set_nils bs (SET_HDR b Nil_entry st)"

definition GC_remove_counts :: "nat \<Rightarrow> nat \<Rightarrow> 'a headers_scheme \<Rightarrow> 'a headers_scheme" where
  "GC_remove_counts h n st = set_nils [Suc h..<h + n] st"

section \<open>Searching for blocks\<close>

definition is_free :: "'a headers_scheme \<Rightarrow> nat \<Rightarrow> bool" where
  "is_free st r = hb_free (hdrs st ! r)"

text \<open>One bottom index, upwards: skipping forwarding counts, nils and free blocks.\<close>

fun scan_up :: "'a headers_scheme \<Rightarrow> entry list \<Rightarrow> nat \<Rightarrow> nat \<Rightarrow> nat option" where
  "scan_up st es 0 j = None"
| "scan_up st es (Suc k) j =
     (if j < BOTTOM_SZ then
        (case es ! j of
           Hdr r \<Rightarrow>
             if \<not> is_free st r then Some j else scan_up st es k (j + hb_sz (hdrs st ! r) div HBLKSIZE)
         | _ \<Rightarrow> scan_up st es k (Suc j))
      else None)"

fun next_up :: "'a headers_scheme \<Rightarrow> nat \<Rightarrow> nat option \<Rightarrow> nat \<Rightarrow> nat option" where
  "next_up st (Suc k) (Some p) j =
     (case scan_up st (bi_index (bis st ! p)) (Suc BOTTOM_SZ) j of
        Some j \<Rightarrow> Some (key (bis st ! p) * BOTTOM_SZ + j)
      | None \<Rightarrow> next_up st k (asc_link (bis st ! p)) 0)"
| "next_up st _ _ j = None"

fun first_from :: "bottom_index list \<Rightarrow> nat \<Rightarrow> nat \<Rightarrow> nat option \<Rightarrow> nat option" where
  "first_from bs hi (Suc k) (Some p) =
     (if key (bs ! p) < hi then first_from bs hi k (asc_link (bs ! p)) else Some p)"
| "first_from bs hi _ p = p"

definition GC_next_used_block :: "'a headers_scheme \<Rightarrow> nat \<Rightarrow> nat option" where
  "GC_next_used_block st h =
     (let n = length (bis st); bi = GET_BI st h
      in if bi = 0 then next_up st n (first_from (bis st) (h div BOTTOM_SZ) n (all_bis st)) 0
         else next_up st n (Some bi) (h mod BOTTOM_SZ))"

text \<open>The same downwards; free blocks count.\<close>

fun scan_down :: "entry list \<Rightarrow> nat \<Rightarrow> int \<Rightarrow> nat option" where
  "scan_down es 0 j = None"
| "scan_down es (Suc k) j =
     (if j \<ge> 0 then
        (case es ! nat j of
           Nil_entry \<Rightarrow> scan_down es k (j - 1)
         | Jump d \<Rightarrow> scan_down es k (j - int d)
         | Hdr r \<Rightarrow> Some (nat j))
      else None)"

fun prev_down :: "'a headers_scheme \<Rightarrow> nat \<Rightarrow> nat option \<Rightarrow> nat \<Rightarrow> nat option" where
  "prev_down st (Suc k) (Some p) j =
     (case scan_down (bi_index (bis st ! p)) (Suc BOTTOM_SZ) (int j) of
        Some j \<Rightarrow> Some (key (bis st ! p) * BOTTOM_SZ + j)
      | None \<Rightarrow> prev_down st k (desc_link (bis st ! p)) (BOTTOM_SZ - 1))"
| "prev_down st _ _ j = None"

fun last_upto :: "bottom_index list \<Rightarrow> nat \<Rightarrow> nat \<Rightarrow> nat option \<Rightarrow> nat option" where
  "last_upto bs hi (Suc k) (Some p) =
     (if key (bs ! p) > hi then last_upto bs hi k (desc_link (bs ! p)) else Some p)"
| "last_upto bs hi _ p = p"

definition GC_prev_block :: "'a headers_scheme \<Rightarrow> nat \<Rightarrow> nat option" where
  "GC_prev_block st h =
     (let n = length (bis st); bi = GET_BI st h
      in if bi = 0 then prev_down st n (last_upto (bis st) (h div BOTTOM_SZ) n (all_bis_end st)) (BOTTOM_SZ - 1)
         else prev_down st n (Some bi) (h mod BOTTOM_SZ))"

text \<open>\<open>GC_apply_to_all_blocks\<close>: the blocks it visits, in order.\<close>

fun visit_down :: "'a headers_scheme \<Rightarrow> entry list \<Rightarrow> nat \<Rightarrow> int \<Rightarrow> nat list" where
  "visit_down st es 0 j = []"
| "visit_down st es (Suc k) j =
     (if j \<ge> 0 then
        (case es ! nat j of
           Hdr r \<Rightarrow> (if \<not> is_free st r then [nat j] else []) @ visit_down st es k (j - 1)
         | Nil_entry \<Rightarrow> visit_down st es k (j - 1)
         | Jump d \<Rightarrow> visit_down st es k (j - int d))
      else [])"

fun visit_all :: "'a headers_scheme \<Rightarrow> nat \<Rightarrow> nat option \<Rightarrow> nat list" where
  "visit_all st (Suc k) (Some p) =
     map (\<lambda>j. key (bis st ! p) * BOTTOM_SZ + j)
         (visit_down st (bi_index (bis st ! p)) (Suc BOTTOM_SZ) (int BOTTOM_SZ - 1)) @
       visit_all st k (asc_link (bis st ! p))"
| "visit_all st _ _ = []"

definition GC_apply_to_all_blocks :: "(nat \<Rightarrow> 's \<Rightarrow> 's) \<Rightarrow> 'a headers_scheme \<Rightarrow> 's \<Rightarrow> 's" where
  "GC_apply_to_all_blocks f st = fold f (visit_all st (length (bis st)) (all_bis st))"

text \<open>
  \<open>GC_header_cache_miss\<close> for the byte address \<open>p\<close>: the header, whether \<open>p\<close> goes to the black
  list, and whether the cache entry is filled. \<open>ALL_INTERIOR_POINTERS\<close> is a flag.
\<close>

fun object_start :: "'a headers_scheme \<Rightarrow> nat \<Rightarrow> nat \<Rightarrow> (nat \<times> entry)" where
  "object_start st 0 cur = (cur, HDR st cur)"
| "object_start st (Suc k) cur =
     (case HDR st cur of
        Hdr r \<Rightarrow> (cur, Hdr r)
      | Jump d \<Rightarrow> object_start st k (cur - d)
      | Nil_entry \<Rightarrow> object_start st k cur)"

record cache_result =
  cr_hdr :: "nat option"
  cr_blacklist :: bool
  cr_cached :: bool

definition GC_header_cache_miss :: "bool \<Rightarrow> 'a headers_scheme \<Rightarrow> nat \<Rightarrow> cache_result" where
  "GC_header_cache_miss all_interior st p =
     (let blk = p div HBLKSIZE; no = \<lparr>cr_hdr = None, cr_blacklist = False, cr_cached = False\<rparr>
      in case HDR st blk of
           Hdr r \<Rightarrow>
             if is_free st r then no\<lparr>cr_blacklist := True\<rparr>
             else \<lparr>cr_hdr = Some r, cr_blacklist = False, cr_cached = True\<rparr>
         | Nil_entry \<Rightarrow> no\<lparr>cr_blacklist := True\<rparr>
         | Jump d \<Rightarrow>
             if all_interior then
               (case object_start st blk (blk - d) of
                  (current, Hdr r) \<Rightarrow>
                    if hb_ignore_off_page (hdrs st ! r) then no
                    else if is_free st r \<or> p - current * HBLKSIZE \<ge> hb_sz (hdrs st ! r)
                    then no\<lparr>cr_blacklist := True\<rparr>
                    else no\<lparr>cr_hdr := Some r\<rparr>
                | _ \<Rightarrow> no)
             else no)"

section \<open>The header cache\<close>

text \<open>The direct-mapped cache of the marker; an entry with the block address 0 is empty.\<close>

record hdr_cache_entry =
  block_addr :: nat
  hce_hdr :: "nat option"

definition HDR_CACHE_SIZE :: nat where "HDR_CACHE_SIZE = 8"

definition INIT_HDR_CACHE :: "hdr_cache_entry list" where
  "INIT_HDR_CACHE = replicate HDR_CACHE_SIZE \<lparr>block_addr = 0, hce_hdr = None\<rparr>"

text \<open>
  \<open>HC_GET_HDR\<close>: the header (\<open>None\<close> is the jump to the exit label), whether the pointer goes to
  the black list, and the cache.
\<close>

definition HC_GET_HDR :: "bool \<Rightarrow> 'a headers_scheme \<Rightarrow> hdr_cache_entry list \<Rightarrow> nat \<Rightarrow>
    nat option \<times> bool \<times> hdr_cache_entry list" where
  "HC_GET_HDR all_interior st cache p =
     (let i = p div HBLKSIZE mod HDR_CACHE_SIZE; hce = cache ! i
      in if block_addr hce = p div HBLKSIZE then (hce_hdr hce, False, cache)
         else
           let r = GC_header_cache_miss all_interior st p
           in (cr_hdr r, cr_blacklist r,
               if cr_cached r then cache[i := \<lparr>block_addr = p div HBLKSIZE, hce_hdr = cr_hdr r\<rparr>] else cache))"

section \<open>The index invariant\<close>

function chain :: "bottom_index list \<Rightarrow> nat \<Rightarrow> nat list" where
  "chain bs p = (if p = 0 \<or> p \<le> hash_link (bs ! p) then [] else p # chain bs (hash_link (bs ! p)))"
  by pat_completeness auto
termination
  by (relation "measure (\<lambda>(_, p). p)") auto

declare chain.simps [simp del]

text \<open>A stretch of the doubly linked list, from \<open>s\<close> (with \<open>pr\<close> before it) to \<open>e\<close>.\<close>

fun seg :: "bottom_index list \<Rightarrow> nat option \<Rightarrow> nat option \<Rightarrow> nat list \<Rightarrow> nat option \<Rightarrow> bool" where
  "seg bs pr s [] e \<longleftrightarrow> s = e"
| "seg bs pr s (q # qs) e \<longleftrightarrow>
     s = Some q \<and> desc_link (bs ! q) = pr \<and> seg bs (Some q) (asc_link (bs ! q)) qs e"

definition last_opt :: "nat option \<Rightarrow> nat list \<Rightarrow> nat option" where
  "last_opt pr qs = (if qs = [] then pr else Some (last qs))"

definition index_ok :: "'a headers_scheme \<Rightarrow> bool" where
  "index_ok st \<longleftrightarrow> bis st \<noteq> [] \<and> bi_index (bis st ! 0) = replicate BOTTOM_SZ Nil_entry \<and>
     (\<forall>p<length (bis st). length (bi_index (bis st ! p)) = BOTTOM_SZ \<and>
        (p \<noteq> 0 \<longrightarrow> hash_link (bis st ! p) < p)) \<and>
     length (top_index st) = TOP_SZ \<and>
     (\<forall>i<TOP_SZ. top_index st ! i < length (bis st) \<and>
        set (chain (bis st) (top_index st ! i)) =
          {p. 0 < p \<and> p < length (bis st) \<and> key (bis st ! p) mod TOP_SZ = i}) \<and>
     inj_on (\<lambda>p. key (bis st ! p)) {0<..<length (bis st)} \<and>
     (\<exists>qs. seg (bis st) None (all_bis st) qs None \<and> all_bis_end st = last_opt None qs \<and>
        set qs = {0<..<length (bis st)} \<and> sorted_wrt (\<lambda>p q. key (bis st ! p) < key (bis st ! q)) qs)"

lemma index_okD:
  assumes "index_ok st"
  shows "bis st \<noteq> []" "0 < length (bis st)" "bi_index (bis st ! 0) = replicate BOTTOM_SZ Nil_entry"
    "\<And>p. p < length (bis st) \<Longrightarrow> length (bi_index (bis st ! p)) = BOTTOM_SZ"
    "\<And>p. p < length (bis st) \<Longrightarrow> p \<noteq> 0 \<Longrightarrow> hash_link (bis st ! p) < p"
    "length (top_index st) = TOP_SZ" "\<And>i. i < TOP_SZ \<Longrightarrow> top_index st ! i < length (bis st)"
    "\<And>i. i < TOP_SZ \<Longrightarrow> set (chain (bis st) (top_index st ! i)) =
        {p. 0 < p \<and> p < length (bis st) \<and> key (bis st ! p) mod TOP_SZ = i}"
    "\<And>p q. 0 < p \<Longrightarrow> p < length (bis st) \<Longrightarrow> 0 < q \<Longrightarrow> q < length (bis st) \<Longrightarrow>
        key (bis st ! p) = key (bis st ! q) \<Longrightarrow> p = q"
    "\<exists>qs. seg (bis st) None (all_bis st) qs None \<and> all_bis_end st = last_opt None qs \<and>
        set qs = {0<..<length (bis st)} \<and> sorted_wrt (\<lambda>p q. key (bis st ! p) < key (bis st ! q)) qs"
proof -
  note i = assms [unfolded index_ok_def]
  show "bis st \<noteq> []" "0 < length (bis st)" "bi_index (bis st ! 0) = replicate BOTTOM_SZ Nil_entry"
    "length (top_index st) = TOP_SZ" using i by blast+
  show "length (bi_index (bis st ! p)) = BOTTOM_SZ" if "p < length (bis st)" for p using i that by blast
  show "hash_link (bis st ! p) < p" if "p < length (bis st)" "p \<noteq> 0" for p using i that by blast
  show "top_index st ! j < length (bis st)" if "j < TOP_SZ" for j using i that by blast
  show "set (chain (bis st) (top_index st ! j)) = {p. 0 < p \<and> p < length (bis st) \<and> key (bis st ! p) mod TOP_SZ = j}"
    if "j < TOP_SZ" for j using i that by blast
  show "p = q" if "0 < p" "p < length (bis st)" "0 < q" "q < length (bis st)" "key (bis st ! p) = key (bis st ! q)" for p q
    using i that unfolding inj_on_def by (meson greaterThanLessThan_iff)
  show "\<exists>qs. seg (bis st) None (all_bis st) qs None \<and> all_bis_end st = last_opt None qs \<and>
        set qs = {0<..<length (bis st)} \<and> sorted_wrt (\<lambda>p q. key (bis st ! p) < key (bis st ! q)) qs"
    using i by blast
qed

lemma chain_mem: "q \<in> set (chain bs p) \<Longrightarrow> 0 < q \<and> q \<le> p"
proof (induction p rule: less_induct)
  case (less p)
  show ?case
  proof (cases "p = 0 \<or> p \<le> hash_link (bs ! p)")
    case True
    with less.prems show ?thesis by (simp add: chain.simps [of bs p])
  next
    case False
    then consider "q = p" | "q \<in> set (chain bs (hash_link (bs ! p)))"
      using less.prems by (auto simp: chain.simps [of bs p])
    then show ?thesis using False less.IH [of "hash_link (bs ! p)"] by cases auto
  qed
qed

lemma find_bi_chain:
  assumes "\<forall>p<length bs. p \<noteq> 0 \<longrightarrow> hash_link (bs ! p) < p"
  shows "p < length bs \<Longrightarrow> p < k \<Longrightarrow>
    find_bi bs hi k p = (case find (\<lambda>q. key (bs ! q) = hi) (chain bs p) of Some q \<Rightarrow> q | None \<Rightarrow> 0)"
proof (induction k arbitrary: p)
  case (Suc k)
  show ?case
  proof (cases "p = 0")
    case False
    with Suc.prems assms have "hash_link (bs ! p) < p" by simp
    with Suc False show ?thesis by (auto simp: chain.simps [of bs p])
  qed (simp add: chain.simps)
qed simp

lemma index_ok_GET_BI:
  assumes "index_ok st"
  shows "GET_BI st blk = (case find (\<lambda>q. key (bis st ! q) = blk div BOTTOM_SZ)
      (chain (bis st) (top_index st ! (blk div BOTTOM_SZ mod TOP_SZ))) of Some q \<Rightarrow> q | None \<Rightarrow> 0)"
proof -
  have "top_index st ! (blk div BOTTOM_SZ mod TOP_SZ) < length (bis st)"
    using index_okD(7) [OF assms] by simp
  then show ?thesis unfolding GET_BI_def Let_def
    by (intro find_bi_chain) (use index_okD(5) [OF assms] in auto)
qed

lemma GET_BI_iff:
  assumes "index_ok st"
  shows "GET_BI st blk = q \<and> q \<noteq> 0 \<longleftrightarrow> 0 < q \<and> q < length (bis st) \<and> key (bis st ! q) = blk div BOTTOM_SZ"
proof -
  let ?i = "blk div BOTTOM_SZ mod TOP_SZ" and ?P = "\<lambda>q. key (bis st ! q) = blk div BOTTOM_SZ"
  let ?c = "chain (bis st) (top_index st ! ?i)"
  have c: "set ?c = {p. 0 < p \<and> p < length (bis st) \<and> key (bis st ! p) mod TOP_SZ = ?i}"
    by (rule index_okD(8) [OF assms]) simp
  show ?thesis
  proof (cases "find ?P ?c")
    case None
    then have no: "\<And>p. p \<in> set ?c \<Longrightarrow> \<not> ?P p" by (auto simp: find_None_iff)
    have "\<not> (0 < q \<and> q < length (bis st) \<and> ?P q)"
    proof
      assume q: "0 < q \<and> q < length (bis st) \<and> ?P q"
      then have "q \<in> set ?c" unfolding c by simp
      with no q show False by blast
    qed
    with None show ?thesis by (auto simp: index_ok_GET_BI [OF assms])
  next
    case (Some r)
    then have r: "r \<in> set ?c" "?P r" by (auto simp: find_Some_iff)
    then have r': "0 < r" "r < length (bis st)" using c by auto
    have "GET_BI st blk = r" using Some by (simp add: index_ok_GET_BI [OF assms])
    moreover have "q = r" if "0 < q" "q < length (bis st)" "?P q"
      using index_okD(9) [OF assms, of q r] r' r(2) that by simp
    ultimately show ?thesis using r r' by auto
  qed
qed

lemma GET_BI_less: "index_ok st \<Longrightarrow> GET_BI st blk < length (bis st)"
  using GET_BI_iff [of st blk "GET_BI st blk"] index_okD(2) [of st] by (cases "GET_BI st blk") simp_all

text \<open>Blocks with a bottom index: those whose entry may be set.\<close>

definition indexed :: "'a headers_scheme \<Rightarrow> nat \<Rightarrow> bool" where
  "indexed st blk \<longleftrightarrow> GET_BI st blk \<noteq> 0"

lemma indexed_iff: "index_ok st \<Longrightarrow> indexed st blk \<longleftrightarrow> (\<exists>q\<in>{0<..<length (bis st)}. key (bis st ! q) = blk div BOTTOM_SZ)"
  unfolding indexed_def using GET_BI_iff [of st blk] by (metis greaterThanLessThan_iff neq0_conv)

lemma HDR_not_indexed: "index_ok st \<Longrightarrow> \<not> indexed st blk \<Longrightarrow> HDR st blk = Nil_entry"
  using index_okD(3) [of st] by (simp add: HDR_def indexed_def)

section \<open>Setting an entry\<close>

text \<open>Changes of the entries only.\<close>

lemma upd_bi_simps [simp]:
  "bis (upd_bi p f st) = (bis st)[p := f (bis st ! p)]"
  "top_index (upd_bi p f st) = top_index st"
  "all_bis (upd_bi p f st) = all_bis st" "all_bis_end (upd_bi p f st) = all_bis_end st"
  "hdrs (upd_bi p f st) = hdrs st" "hdr_free_list (upd_bi p f st) = hdr_free_list st"
  by (simp_all add: upd_bi_def)

lemma chain_cong:
  "(\<And>q. hash_link (bs ! q) = hash_link (bs' ! q)) \<Longrightarrow> chain bs p = chain bs' p"
proof (induction p rule: less_induct)
  case (less p)
  then show ?case by (cases "p = 0 \<or> p \<le> hash_link (bs ! p)") (auto simp: chain.simps [of _ p])
qed

lemma seg_cong:
  "(\<And>q. q \<in> set qs \<Longrightarrow> asc_link (bs ! q) = asc_link (bs' ! q) \<and> desc_link (bs ! q) = desc_link (bs' ! q)) \<Longrightarrow>
    seg bs pr s qs e = seg bs' pr s qs e"
  by (induction bs pr s qs e rule: seg.induct) auto

lemma SET_HDR_bis:
  "bis (SET_HDR blk e st) = (bis st)[GET_BI st blk := (bis st ! GET_BI st blk)
     \<lparr>bi_index := (bi_index (bis st ! GET_BI st blk))[blk mod BOTTOM_SZ := e]\<rparr>]"
  by (simp add: SET_HDR_def)

lemma SET_HDR_simps [simp]:
  "top_index (SET_HDR blk e st) = top_index st" "all_bis (SET_HDR blk e st) = all_bis st"
  "all_bis_end (SET_HDR blk e st) = all_bis_end st" "hdrs (SET_HDR blk e st) = hdrs st"
  "hdr_free_list (SET_HDR blk e st) = hdr_free_list st" "length (bis (SET_HDR blk e st)) = length (bis st)"
  by (simp_all add: SET_HDR_def)

lemma nth_update_field:
  assumes "f y = f (xs ! i)"
  shows "f (xs[i := y] ! q) = f (xs ! q)"
proof (cases "q = i \<and> i < length xs")
  case False
  then show ?thesis by (metis list_update_beyond linorder_not_less nth_list_update_neq)
qed (use assms in simp)

lemma SET_HDR_fields [simp]:
  "key (bis (SET_HDR blk e st) ! q) = key (bis st ! q)"
  "hash_link (bis (SET_HDR blk e st) ! q) = hash_link (bis st ! q)"
  "asc_link (bis (SET_HDR blk e st) ! q) = asc_link (bis st ! q)"
  "desc_link (bis (SET_HDR blk e st) ! q) = desc_link (bis st ! q)"
  "length (bi_index (bis (SET_HDR blk e st) ! q)) = length (bi_index (bis st ! q))"
  unfolding SET_HDR_bis by (rule nth_update_field [of "\<lambda>b. length (bi_index b)"] nth_update_field; simp)+

lemma SET_HDR_find: "find_bi (bis (SET_HDR blk e st)) hi k p = find_bi (bis st) hi k p"
  by (induction k arbitrary: p) simp_all

lemma SET_HDR_GET_BI [simp]: "GET_BI (SET_HDR blk e st) b = GET_BI st b"
  by (simp add: GET_BI_def SET_HDR_find)

lemma SET_HDR_ok:
  assumes "index_ok st" "indexed st blk"
  shows "index_ok (SET_HDR blk e st)"
proof -
  have chain: "chain (bis (SET_HDR blk e st)) p = chain (bis st) p" for p
    by (rule chain_cong) simp
  have seg: "seg (bis (SET_HDR blk e st)) pr s qs e' = seg (bis st) pr s qs e'" for pr s qs e'
    by (rule seg_cong) simp
  have b0: "bi_index (bis (SET_HDR blk e st) ! 0) = bi_index (bis st ! 0)"
    using assms(2) by (simp add: SET_HDR_bis indexed_def)
  have ne: "bis (SET_HDR blk e st) \<noteq> [] \<longleftrightarrow> bis st \<noteq> []"
    by (simp add: SET_HDR_bis)
  show ?thesis using assms(1) unfolding index_ok_def SET_HDR_simps SET_HDR_fields chain seg b0 ne .
qed

lemma HDR_SET_HDR:
  assumes "index_ok st" "indexed st blk"
  shows "HDR (SET_HDR blk e st) b = (if b = blk then e else HDR st b)"
proof -
  have l: "GET_BI st blk < length (bis st)" using assms(1) by (rule GET_BI_less)
  then have len: "length (bi_index (bis st ! GET_BI st blk)) = BOTTOM_SZ"
    using assms(1) by (auto simp: index_ok_def)
  show ?thesis
  proof (cases "GET_BI st b = GET_BI st blk")
    case True
    with assms(2) have "key (bis st ! GET_BI st blk) = b div BOTTOM_SZ" "key (bis st ! GET_BI st blk) = blk div BOTTOM_SZ"
      using GET_BI_iff [OF assms(1), of b "GET_BI st blk"] GET_BI_iff [OF assms(1), of blk "GET_BI st blk"]
      by (simp_all add: indexed_def)
    then have "b mod BOTTOM_SZ = blk mod BOTTOM_SZ \<longleftrightarrow> b = blk"
      by (metis div_mult_mod_eq)
    with True l len show ?thesis
      by (cases "b mod BOTTOM_SZ = blk mod BOTTOM_SZ") (simp_all add: HDR_def SET_HDR_bis)
  next
    case False
    then show ?thesis by (auto simp: HDR_def SET_HDR_bis)
  qed
qed

end
