(* ===== verification/GC_Index.thy ===== *)
theory GC_Index
  imports GC_Headers
begin

text \<open>
  The index of block headers as a map from blocks to entries: every operation keeps the
  invariant of the two levels (hash chains and the list in address order) and changes the
  map at the blocks it names only.
\<close>

section \<open>Insertion into the list of bottom indices\<close>

definition hd_opt :: "nat list \<Rightarrow> nat option" where
  "hd_opt qs = (case qs of [] \<Rightarrow> None | q # _ \<Rightarrow> Some q)"

lemma opt_simps [simp]:
  "hd_opt [] = None" "hd_opt (q # qs) = Some q" "last_opt pr [] = pr" "last_opt pr (q # qs) = last_opt (Some q) qs"
  by (simp_all add: hd_opt_def last_opt_def)

lemma last_opt_last: "qs \<noteq> [] \<Longrightarrow> last_opt pr qs = Some (last qs)"
  by (simp add: last_opt_def)

lemma last_opt_append [simp]: "last_opt pr (xs @ ys) = last_opt (last_opt pr xs) ys"
  by (simp add: last_opt_def)

lemma seg_start: "seg bs pr s qs None \<Longrightarrow> s = hd_opt qs"
  by (cases qs) auto

text \<open>The walk splits the list at the first key that is not smaller.\<close>

lemma walk_asc_split:
  "seg bs pr s qs None \<Longrightarrow> length qs \<le> k \<Longrightarrow>
    walk_asc bs hi k pi s = (last_opt pi (takeWhile (\<lambda>q. key (bs ! q) < hi) qs), hd_opt (dropWhile (\<lambda>q. key (bs ! q) < hi) qs))"
proof (induction qs arbitrary: pr s pi k)
  case (Cons q qs)
  then obtain k' where "k = Suc k'" by (cases k) auto
  with Cons show ?case by auto
qed (cases k; simp)

lemma seg_insert:
  assumes "seg bs pr s (xs @ ys) None" "distinct (xs @ ys)" "r \<notin> set (xs @ ys)"
    and "\<And>q. q \<in> set (xs @ ys) \<Longrightarrow> asc_link (bs' ! q) = (if last_opt None xs = Some q then Some r else asc_link (bs ! q))"
    and "\<And>q. q \<in> set (xs @ ys) \<Longrightarrow> desc_link (bs' ! q) = (if hd_opt ys = Some q then Some r else desc_link (bs ! q))"
    and "asc_link (bs' ! r) = hd_opt ys" "desc_link (bs' ! r) = last_opt pr xs"
  shows "seg bs' pr (if xs = [] then Some r else s) (xs @ r # ys) None"
  using assms
proof (induction xs arbitrary: pr s)
  case Nil
  have s: "s = hd_opt ys" using Nil.prems(1) seg_start by fastforce
  have "seg bs' (Some r) s ys None"
  proof (cases ys)
    case (Cons y zs)
    have "seg bs' (Some y) (asc_link (bs ! y)) zs None = seg bs (Some y) (asc_link (bs ! y)) zs None"
      using Nil.prems(2,4,5) Cons by (intro seg_cong) auto
    with Nil.prems(1,4,5) Cons show ?thesis by simp
  qed (use s in simp)
  with s Nil.prems show ?case by simp
next
  case (Cons x xs)
  have x: "s = Some x" "desc_link (bs ! x) = pr" "seg bs (Some x) (asc_link (bs ! x)) (xs @ ys) None"
    using Cons.prems(1) by simp_all
  have "hd_opt ys \<noteq> Some x" using Cons.prems(2) by (cases ys) auto
  then have d: "desc_link (bs' ! x) = pr" using Cons.prems(5) [of x] x(2) by simp
  have "asc_link (bs' ! x) = (if xs = [] then Some r else asc_link (bs ! x))"
    using Cons.prems(4) [of x] Cons.prems(2) by (auto simp: last_opt_def)
  moreover have "seg bs' (Some x) (if xs = [] then Some r else asc_link (bs ! x)) (xs @ r # ys) None"
  proof (rule Cons.IH [OF x(3)])
    fix q assume q: "q \<in> set (xs @ ys)"
    show "asc_link (bs' ! q) = (if last_opt None xs = Some q then Some r else asc_link (bs ! q))"
    proof (cases "xs = []")
      case True
      with q Cons.prems(2) have "q \<noteq> x" by auto
      with True q Cons.prems(4) [of q] show ?thesis by simp
    qed (use q Cons.prems(4) [of q] in \<open>simp add: last_opt_def\<close>)
    show "desc_link (bs' ! q) = (if hd_opt ys = Some q then Some r else desc_link (bs ! q))"
      using q Cons.prems(5) [of q] by simp
  qed (use Cons.prems in auto)
  ultimately show ?case using x(1) d by simp
qed

text \<open>The fields after \<open>link_bi\<close>.\<close>

lemma link_bi_fields:
  assumes "walk_asc (bis st) hi (length (bis st)) None (all_bis st) = (pi, p)" "r < length (bis st)"
    "\<And>q. pi = Some q \<Longrightarrow> q < length (bis st) \<and> q \<noteq> r" "\<And>q. p = Some q \<Longrightarrow> q < length (bis st) \<and> q \<noteq> r"
  shows "length (bis (link_bi r hi st)) = length (bis st)" "top_index (link_bi r hi st) = top_index st"
    "key (bis (link_bi r hi st) ! q) = key (bis st ! q)"
    "hash_link (bis (link_bi r hi st) ! q) = hash_link (bis st ! q)"
    "bi_index (bis (link_bi r hi st) ! q) = bi_index (bis st ! q)"
    "asc_link (bis (link_bi r hi st) ! q) = (if q = r then p else if pi = Some q then Some r else asc_link (bis st ! q))"
    "desc_link (bis (link_bi r hi st) ! q) = (if q = r then pi else if p = Some q then Some r else desc_link (bis st ! q))"
    "all_bis (link_bi r hi st) = (if pi = None then Some r else all_bis st)"
    "all_bis_end (link_bi r hi st) = (if p = None then Some r else all_bis_end st)"
    "hdrs (link_bi r hi st) = hdrs st" "hdr_free_list (link_bi r hi st) = hdr_free_list st"
proof -
  have [simp]: "length (bis (st\<lparr>all_bis_end := e\<rparr>)) = length (bis st)" for e by simp
  show "length (bis (link_bi r hi st)) = length (bis st)" "top_index (link_bi r hi st) = top_index st"
    "hdrs (link_bi r hi st) = hdrs st" "hdr_free_list (link_bi r hi st) = hdr_free_list st"
    "all_bis (link_bi r hi st) = (if pi = None then Some r else all_bis st)"
    "all_bis_end (link_bi r hi st) = (if p = None then Some r else all_bis_end st)"
    by (cases pi; cases p; simp add: link_bi_def assms(1) Let_def)+
  show "key (bis (link_bi r hi st) ! q) = key (bis st ! q)"
    "hash_link (bis (link_bi r hi st) ! q) = hash_link (bis st ! q)"
    "bi_index (bis (link_bi r hi st) ! q) = bi_index (bis st ! q)"
    by (cases pi; cases p; simp add: link_bi_def assms(1) Let_def nth_update_field)+
  show "asc_link (bis (link_bi r hi st) ! q) = (if q = r then p else if pi = Some q then Some r else asc_link (bis st ! q))"
    using assms(2-4) by (cases pi; cases p) (auto simp: link_bi_def assms(1) Let_def nth_list_update)
  show "desc_link (bis (link_bi r hi st) ! q) = (if q = r then pi else if p = Some q then Some r else desc_link (bis st ! q))"
    using assms(2-4) by (cases pi; cases p) (auto simp: link_bi_def assms(1) Let_def nth_list_update)
qed

section \<open>\<open>get_index\<close>\<close>

text \<open>Scratch memory is not part of the index.\<close>

definition same_index :: "'a headers_scheme \<Rightarrow> 'b headers_scheme \<Rightarrow> bool" where
  "same_index st st' \<longleftrightarrow> bis st = bis st' \<and> top_index st = top_index st' \<and> all_bis st = all_bis st' \<and>
     all_bis_end st = all_bis_end st' \<and> hdrs st = hdrs st' \<and> hdr_free_list st = hdr_free_list st'"

lemma GET_MEM_same: "GET_MEM n st = (a, st') \<Longrightarrow> same_index st' st \<and> (a \<noteq> 0 \<longrightarrow> length (os_mem st') < length (os_mem st))"
  by (auto simp: GET_MEM_def same_index_def split: list.splits)

lemma scratch_alloc_same: "same_index (snd (GC_scratch_alloc n st)) st"
proof (induction "length (os_mem st)" arbitrary: n st rule: less_induct)
  case less
  let ?bytes = "(n + (GRANULE_BYTES - 1)) div GRANULE_BYTES * GRANULE_BYTES"
  let ?st1 = "st\<lparr>scratch_free := scratch_free st + ?bytes\<rparr>"
  obtain a st2 where g: "GET_MEM ?bytes ?st1 = (a, st2)" by fastforce
  obtain b st3 where h: "GET_MEM (MINHINCR * HBLKSIZE) ?st1 = (b, st3)" by fastforce
  obtain c st4 where k: "GET_MEM ?bytes (st3\<lparr>scratch_free := scratch_free st3 - ?bytes\<rparr>) = (c, st4)" by fastforce
  note same = GET_MEM_same [OF g] GET_MEM_same [OF h] GET_MEM_same [OF k]
  let ?st5 = "st3\<lparr>scratch_free := b, scratch_end := b + MINHINCR * HBLKSIZE, scratch_last_end := b + MINHINCR * HBLKSIZE\<rparr>"
  have rec: "b \<noteq> 0 \<Longrightarrow> same_index (snd (GC_scratch_alloc ?bytes ?st5)) ?st5" by (rule less) (use same in simp)
  have eq: "GC_scratch_alloc n st =
      (if scratch_free st + ?bytes \<le> scratch_end st then (scratch_free st, ?st1)
       else if MINHINCR * HBLKSIZE \<le> ?bytes then (a, st2\<lparr>scratch_free := scratch_free st2 - ?bytes, scratch_last_end := a + ?bytes\<rparr>)
       else if b = 0 then (c, st4) else GC_scratch_alloc ?bytes ?st5)"
    unfolding GC_scratch_alloc.simps [of n st] Let_def headers.simps g h k prod.case by simp
  consider "scratch_free st + ?bytes \<le> scratch_end st" | "\<not> scratch_free st + ?bytes \<le> scratch_end st" "MINHINCR * HBLKSIZE \<le> ?bytes"
    | "\<not> scratch_free st + ?bytes \<le> scratch_end st" "\<not> MINHINCR * HBLKSIZE \<le> ?bytes" "b = 0"
    | "\<not> scratch_free st + ?bytes \<le> scratch_end st" "\<not> MINHINCR * HBLKSIZE \<le> ?bytes" "b \<noteq> 0" by blast
  then show ?case
  proof cases
    case 4
    then have "GC_scratch_alloc n st = GC_scratch_alloc ?bytes ?st5" unfolding eq by (simp only: if_False)
    with rec [OF 4(3)] same(2) show ?thesis by (simp add: same_index_def)
  qed (use same in \<open>simp_all add: eq same_index_def\<close>)
qed

lemma same_indexD:
  "same_index st st' \<Longrightarrow> bis st = bis st'" "same_index st st' \<Longrightarrow> hdrs st = hdrs st'"
  "same_index st st' \<Longrightarrow> hdr_free_list st = hdr_free_list st'" "same_index st st' \<Longrightarrow> HDR st b = HDR st' b"
  "same_index st st' \<Longrightarrow> index_ok st = index_ok st'" "same_index st st' \<Longrightarrow> GET_BI st b = GET_BI st' b"
  by (auto simp: same_index_def HDR_def GET_BI_def index_ok_def)

lemma chain_0 [simp]: "chain bs 0 = []"
  by (simp add: chain.simps)

lemma chain_append: "p < length bs \<Longrightarrow> \<forall>q<length bs. q \<noteq> 0 \<longrightarrow> hash_link (bs ! q) < q \<Longrightarrow> chain (bs @ cs) p = chain bs p"
proof (induction p rule: less_induct)
  case (less p)
  then show ?case by (cases "p = 0") (auto simp: chain.simps [of _ p] nth_append)
qed

text \<open>The state in which \<open>get_index\<close> has added a bottom index to the hash table.\<close>

definition with_bi :: "nat \<Rightarrow> 'a headers_scheme \<Rightarrow> 'a headers_scheme" where
  "with_bi hi st =
     (let i = hi mod TOP_SZ
      in st\<lparr>bis := bis st @ [nil_bi\<lparr>hash_link := top_index st ! i, key := hi\<rparr>], top_index := (top_index st)[i := length (bis st)]\<rparr>)"

lemma get_index_eq:
  assumes "GC_scratch_alloc SIZEOF_BI st = (p, st1)"
  shows "get_index blk st = (if GET_BI st blk \<noteq> 0 then (True, st) else if p = 0 then (False, st1)
    else (True, link_bi (length (bis st1)) (blk div BOTTOM_SZ) (with_bi (blk div BOTTOM_SZ) st1)))"
proof -
  have "top_index st1 = top_index st" using scratch_alloc_same [of SIZEOF_BI st] assms by (simp add: same_index_def)
  then show ?thesis by (simp add: get_index_def with_bi_def Let_def assms)
qed

lemma with_bi_link:
  assumes ok: "index_ok st" and new: "GET_BI st blk = 0"
  defines "hi \<equiv> blk div BOTTOM_SZ"
  defines "n \<equiv> length (bis st)"
  defines "st' \<equiv> link_bi n hi (with_bi hi st)"
  shows "index_ok st' \<and> length (bis st') = Suc n \<and> key (bis st' ! n) = hi \<and> hdrs st' = hdrs st \<and> hdr_free_list st' = hdr_free_list st \<and>
    (\<forall>q<n. key (bis st' ! q) = key (bis st ! q) \<and> bi_index (bis st' ! q) = bi_index (bis st ! q)) \<and>
    bi_index (bis st' ! n) = replicate BOTTOM_SZ Nil_entry"
proof -
  let ?w = "with_bi hi st" and ?i = "hi mod TOP_SZ"
  note D = index_okD [OF ok]
  have n0: "0 < n" using D(2) by (simp add: n_def)
  have wbis: "bis ?w = bis st @ [nil_bi\<lparr>hash_link := top_index st ! ?i, key := hi\<rparr>]"
    "all_bis ?w = all_bis st" "all_bis_end ?w = all_bis_end st" "hdrs ?w = hdrs st" "hdr_free_list ?w = hdr_free_list st"
    "top_index ?w = (top_index st)[?i := n]"
    by (simp_all add: with_bi_def Let_def n_def)
  then have old: "bis ?w ! q = bis st ! q" if "q < n" for q using that by (simp add: nth_append n_def)
  have at_n: "bis ?w ! n = nil_bi\<lparr>hash_link := top_index st ! ?i, key := hi\<rparr>" by (simp add: wbis n_def)
  have fresh: "key (bis st ! q) \<noteq> hi" if "0 < q" "q < n" for q
    using GET_BI_iff [OF ok, of blk q] new that by (auto simp: hi_def n_def)
  obtain qs where qs: "seg (bis st) None (all_bis st) qs None" "all_bis_end st = last_opt None qs"
    "set qs = {0<..<n}" "sorted_wrt (\<lambda>p q. key (bis st ! p) < key (bis st ! q)) qs"
    using D(10) by (auto simp: n_def)
  define xs where "xs = takeWhile (\<lambda>q. key (bis st ! q) < hi) qs"
  define ys where "ys = dropWhile (\<lambda>q. key (bis st ! q) < hi) qs"
  have split: "qs = xs @ ys" by (simp add: xs_def ys_def)
  have dist: "distinct qs" using qs(4) by (induction qs) auto
  have len: "length qs \<le> n" using distinct_card [OF dist] qs(3) by simp
  have segw: "seg (bis ?w) None (all_bis st) qs None"
    using qs(1,3) old seg_cong [of qs "bis ?w" "bis st" None "all_bis st" None] by auto
  have tw: "takeWhile (\<lambda>q. key (bis ?w ! q) < hi) qs = xs" "dropWhile (\<lambda>q. key (bis ?w ! q) < hi) qs = ys"
    using qs(3) old unfolding xs_def ys_def by (auto intro!: takeWhile_cong dropWhile_cong)
  have walk: "walk_asc (bis ?w) hi (length (bis ?w)) None (all_bis ?w) = (last_opt None xs, hd_opt ys)"
    using walk_asc_split [OF segw, of "length (bis ?w)" hi None] len unfolding tw wbis(2) by (simp add: wbis(1) n_def)
  have in_qs: "q < n \<and> q \<noteq> n \<and> q \<in> set qs" if "last_opt None xs = Some q \<or> hd_opt ys = Some q" for q
  proof -
    have "q \<in> set qs" using that unfolding split
      by (cases ys; cases "xs = []") (auto simp: last_opt_last)
    with qs(3) show ?thesis by simp
  qed
  have lenw: "length (bis ?w) = Suc n" by (simp add: wbis n_def)
  have pi: "last_opt None xs = Some q \<Longrightarrow> q < length (bis ?w) \<and> q \<noteq> n" for q using in_qs [of q] lenw by auto
  have p: "hd_opt ys = Some q \<Longrightarrow> q < length (bis ?w) \<and> q \<noteq> n" for q using in_qs [of q] lenw by auto
  have nw: "n < length (bis ?w)" using lenw by simp
  note F = link_bi_fields [OF walk nw pi p, folded st'_def]
  have keys: "key (bis st' ! q) = (if q = n then hi else key (bis st ! q))" if "q \<le> n" for q
    using that old [of q] at_n by (simp add: F)
  have hash: "hash_link (bis st' ! q) = (if q = n then top_index st ! ?i else hash_link (bis st ! q))"
    and bi: "bi_index (bis st' ! q) = (if q = n then replicate BOTTOM_SZ Nil_entry else bi_index (bis st ! q))"
    if "q \<le> n" for q
    using that old [of q] at_n by (simp_all add: F nil_bi_def)
  have "seg (bis st') None (if xs = [] then Some n else all_bis st) (xs @ n # ys) None"
  proof (rule seg_insert [of "bis ?w"])
    show "seg (bis ?w) None (all_bis st) (xs @ ys) None" "distinct (xs @ ys)" "n \<notin> set (xs @ ys)"
      using segw dist qs(3) unfolding split by auto
    fix q assume "q \<in> set (xs @ ys)"
    then have q: "q \<noteq> n" using qs(3) split by auto
    show "asc_link (bis st' ! q) = (if last_opt None xs = Some q then Some n else asc_link (bis ?w ! q))"
      "desc_link (bis st' ! q) = (if hd_opt ys = Some q then Some n else desc_link (bis ?w ! q))"
      using q by (simp_all add: F)
  qed (simp_all add: F)
  moreover have allb: "all_bis st' = (if xs = [] then Some n else all_bis st)"
    using F(8) by (cases "xs = []") (simp_all add: wbis(2) last_opt_last)
  moreover have "all_bis_end st' = last_opt None (xs @ n # ys)"
    using F(9) by (cases ys) (simp_all add: wbis(3) qs(2) split)
  moreover have "set (xs @ n # ys) = {0<..<Suc n}" using qs(3) n0 unfolding split by auto
  moreover have "sorted_wrt (\<lambda>p q. key (bis st' ! p) < key (bis st' ! q)) (xs @ n # ys)"
  proof -
    have k: "key (bis st' ! q) = key (bis st ! q)" if "q \<in> set xs \<union> set ys" for q
    proof -
      have "q < n" using qs(3) that unfolding split by auto
      then show ?thesis using keys [of q] by simp
    qed
    have kn: "key (bis st' ! n) = hi" using keys [of n] by simp
    have x: "key (bis st ! q) < hi" if "q \<in> set xs" for q using that unfolding xs_def by (auto dest: set_takeWhileD)
    have sxy: "sorted_wrt (\<lambda>p q. key (bis st ! p) < key (bis st ! q)) xs" "sorted_wrt (\<lambda>p q. key (bis st ! p) < key (bis st ! q)) ys"
      "\<forall>p\<in>set xs. \<forall>q\<in>set ys. key (bis st ! p) < key (bis st ! q)"
      using qs(4) unfolding split by (simp_all add: sorted_wrt_append)
    have y: "hi < key (bis st ! q)" if "q \<in> set ys" for q
    proof -
      have "ys \<noteq> []" using that by auto
      then obtain y zs where ys: "ys = y # zs" by (metis neq_Nil_conv)
      have "y \<in> set qs" using ys split by simp
      then have "key (bis st ! y) \<noteq> hi" using fresh qs(3) by auto
      moreover have "\<not> key (bis st ! y) < hi" using ys unfolding ys_def by (metis hd_dropWhile list.distinct(1) list.sel(1))
      ultimately have "hi < key (bis st ! y)" by simp
      moreover have "q = y \<or> key (bis st ! y) < key (bis st ! q)" using sxy(2) that ys by auto
      ultimately show ?thesis by auto
    qed
    have "sorted_wrt (\<lambda>p q. key (bis st' ! p) < key (bis st' ! q)) xs"
      by (rule sorted_wrt_mono_rel [OF _ sxy(1)]) (simp add: k)
    moreover have "sorted_wrt (\<lambda>p q. key (bis st' ! p) < key (bis st' ! q)) ys"
      by (rule sorted_wrt_mono_rel [OF _ sxy(2)]) (simp add: k)
    ultimately show ?thesis using sxy(3) x y k kn by (simp add: sorted_wrt_append)
  qed
  ultimately have list: "\<exists>qs. seg (bis st') None (all_bis st') qs None \<and> all_bis_end st' = last_opt None qs \<and>
      set qs = {0<..<Suc n} \<and> sorted_wrt (\<lambda>p q. key (bis st' ! p) < key (bis st' ! q)) qs"
    unfolding allb by (intro exI [of _ "xs @ n # ys"] conjI)
  have lenb: "length (bis st') = Suc n" using F(1) lenw by simp
  have top: "top_index st' = (top_index st)[?i := n]" using F(2) wbis(6) by simp
  have i: "?i < TOP_SZ" by simp
  have old_top: "top_index st ! j < n" if "j < TOP_SZ" for j using D(7) [OF that] by (simp add: n_def)
  have chain_st: "chain (bis st') q = chain (bis ?w) q" for q by (rule chain_cong) (simp add: F(4))
  have chain_old: "chain (bis st') q = chain (bis st) q" if "q < n" for q
    unfolding chain_st wbis(1) using that D(5) by (intro chain_append) (auto simp: n_def)
  have chain_new: "chain (bis st') n = n # chain (bis st) (top_index st ! ?i)"
    using old_top [OF i] n0 hash [of n] chain_old [OF old_top [OF i]] by (simp add: chain.simps [of _ n])
  have chains: "set (chain (bis st') (top_index st' ! j)) =
      {p. 0 < p \<and> p < length (bis st') \<and> key (bis st' ! p) mod TOP_SZ = j}" if j: "j < TOP_SZ" for j
  proof -
    have "{p. 0 < p \<and> p < length (bis st') \<and> key (bis st' ! p) mod TOP_SZ = j} =
        {p. 0 < p \<and> p < n \<and> key (bis st ! p) mod TOP_SZ = j} \<union> (if j = ?i then {n} else {})"
      using lenb n0 keys by (auto simp: less_Suc_eq)
    moreover have "set (chain (bis st) (top_index st ! j)) = {p. 0 < p \<and> p < n \<and> key (bis st ! p) mod TOP_SZ = j}"
      using D(8) [OF j] by (simp add: n_def)
    ultimately show ?thesis
      using chain_new chain_old [OF old_top [OF j]] D(6) j unfolding top by (cases "j = ?i") simp_all
  qed
  have inj: "inj_on (\<lambda>p. key (bis st' ! p)) {0<..<length (bis st')}"
  proof (rule inj_onI)
    fix p q assume "p \<in> {0<..<length (bis st')}" "q \<in> {0<..<length (bis st')}" and e: "key (bis st' ! p) = key (bis st' ! q)"
    then have pq: "0 < p" "p \<le> n" "0 < q" "q \<le> n" using lenb by auto
    have e': "(if p = n then hi else key (bis st ! p)) = (if q = n then hi else key (bis st ! q))"
      using e unfolding keys [OF pq(2)] keys [OF pq(4)] .
    consider "p = n" "q = n" | "p = n" "q < n" | "p < n" "q = n" | "p < n" "q < n" using pq by linarith
    then show "p = q"
    proof cases
      case 2
      have "hi = key (bis st ! q)" using e' 2 by simp
      then show ?thesis using fresh [OF pq(3) 2(2)] by simp
    next
      case 3
      have "key (bis st ! p) = hi" using e' 3 by simp
      then show ?thesis using fresh [OF pq(1) 3(1)] by simp
    next
      case 4
      have "key (bis st ! p) = key (bis st ! q)" using e' 4 by simp
      then show ?thesis using D(9) [of p q] pq 4 unfolding n_def by blast
    qed simp
  qed
  have "index_ok st'"
    unfolding index_ok_def
  proof (intro conjI allI impI)
    show "bis st' \<noteq> []" using lenb by auto
    show "bi_index (bis st' ! 0) = replicate BOTTOM_SZ Nil_entry" using bi [of 0] n0 D(3) by simp
    fix p assume p: "p < length (bis st')"
    show "length (bi_index (bis st' ! p)) = BOTTOM_SZ" using bi [of p] p lenb D(4) [of p] by (simp add: n_def)
    show "hash_link (bis st' ! p) < p" if "p \<noteq> 0"
      using hash [of p] p lenb D(5) [of p] that old_top [OF i] by (auto simp: n_def)
  next
    show "length (top_index st') = TOP_SZ" using top D(6) by simp
    fix j assume j: "j < TOP_SZ"
    show "top_index st' ! j < length (bis st')" using j top lenb old_top [OF j] D(6) by (cases "j = ?i") simp_all
    show "set (chain (bis st') (top_index st' ! j)) = {p. 0 < p \<and> p < length (bis st') \<and> key (bis st' ! p) mod TOP_SZ = j}"
      using j by (rule chains)
  qed (use inj list lenb in simp_all)
  then show ?thesis
    using lenb keys [of n] bi [of n] keys bi F(10,11) wbis(4,5) by simp
qed

text \<open>What any of the operations on the index may do: add bottom indices of nils.\<close>

definition grown :: "'a headers_scheme \<Rightarrow> 'a headers_scheme \<Rightarrow> bool" where
  "grown st st' \<longleftrightarrow> index_ok st' \<and> (\<forall>b. HDR st' b = HDR st b) \<and> (\<forall>b. indexed st b \<longrightarrow> indexed st' b) \<and>
     hdrs st' = hdrs st \<and> hdr_free_list st' = hdr_free_list st"

lemma grown_same: "index_ok st \<Longrightarrow> same_index st' st \<Longrightarrow> grown st st'"
  using same_indexD [of st' st] by (simp add: grown_def indexed_def)

lemma grown_trans: "grown st st' \<Longrightarrow> grown st' st'' \<Longrightarrow> grown st st''"
  by (simp add: grown_def)

lemma with_bi_grown:
  assumes ok: "index_ok st" and new: "GET_BI st blk = 0"
  shows "grown st (link_bi (length (bis st)) (blk div BOTTOM_SZ) (with_bi (blk div BOTTOM_SZ) st))"
    "indexed (link_bi (length (bis st)) (blk div BOTTOM_SZ) (with_bi (blk div BOTTOM_SZ) st)) blk"
proof -
  let ?st' = "link_bi (length (bis st)) (blk div BOTTOM_SZ) (with_bi (blk div BOTTOM_SZ) st)" and ?n = "length (bis st)"
  have L: "index_ok ?st'" "length (bis ?st') = Suc ?n" "key (bis ?st' ! ?n) = blk div BOTTOM_SZ" "hdrs ?st' = hdrs st"
    "hdr_free_list ?st' = hdr_free_list st" "bi_index (bis ?st' ! ?n) = replicate BOTTOM_SZ Nil_entry"
    and same: "\<And>q. q < ?n \<Longrightarrow> key (bis ?st' ! q) = key (bis st ! q) \<and> bi_index (bis ?st' ! q) = bi_index (bis st ! q)"
    using with_bi_link [OF assms] by blast+
  have n0: "0 < ?n" using index_okD(2) [OF ok] .
  have old: "GET_BI ?st' b = GET_BI st b" if "indexed st b" for b
  proof -
    have "0 < GET_BI st b" "GET_BI st b < ?n" "key (bis st ! GET_BI st b) = b div BOTTOM_SZ"
      using GET_BI_iff [OF ok, of b "GET_BI st b"] that by (simp_all add: indexed_def)
    then show ?thesis using GET_BI_iff [OF L(1), of b "GET_BI st b"] same [of "GET_BI st b"] L(2) by simp
  qed
  have HDR: "HDR ?st' b = HDR st b" for b
  proof (cases "indexed st b")
    case True
    then show ?thesis using old [OF True] same [OF GET_BI_less [OF ok]] by (simp add: HDR_def)
  next
    case False
    have "HDR ?st' b = Nil_entry"
    proof (cases "indexed ?st' b")
      case True
      let ?q = "GET_BI ?st' b"
      have q: "0 < ?q" "?q < Suc ?n" "key (bis ?st' ! ?q) = b div BOTTOM_SZ"
        using GET_BI_iff [OF L(1), of b ?q] True L(2) by (simp_all add: indexed_def)
      have "\<not> ?q < ?n" using q same [of ?q] GET_BI_iff [OF ok, of b ?q] False by (auto simp: indexed_def)
      with q(2) have "?q = ?n" by simp
      then show ?thesis by (simp add: HDR_def L(6))
    qed (use HDR_not_indexed [OF L(1)] in blast)
    with HDR_not_indexed [OF ok False] show ?thesis by simp
  qed
  have "indexed ?st' b" if "indexed st b" for b using old [OF that] that by (simp add: indexed_def)
  with L HDR show "grown st ?st'" by (simp add: grown_def)
  show "indexed ?st' blk"
    unfolding indexed_iff [OF L(1)] by (rule bexI [of _ ?n]) (use L(2,3) n0 in simp_all)
qed

lemma get_index_ok:
  assumes "index_ok st" "get_index blk st = (ok, st')"
  shows "grown st st'" "ok \<Longrightarrow> indexed st' blk"
proof -
  obtain p st1 where s: "GC_scratch_alloc SIZEOF_BI st = (p, st1)" by fastforce
  have same: "same_index st1 st" using scratch_alloc_same [of SIZEOF_BI st] s by simp
  then have ok1: "index_ok st1" "GET_BI st1 blk = GET_BI st blk" "grown st st1"
    using same_indexD [OF same] assms(1) grown_same by auto
  show "grown st st'"
    using with_bi_grown(1) [OF ok1(1), of blk] assms ok1 grown_trans grown_same [OF assms(1), of st]
    unfolding get_index_eq [OF s] by (auto simp: same_index_def split: if_splits)
  show "indexed st' blk" if ok
    using with_bi_grown(2) [OF ok1(1), of blk] assms(2) that ok1 unfolding get_index_eq [OF s]
    by (auto simp: indexed_def split: if_splits)
qed

section \<open>Headers in use\<close>

text \<open>Every header belongs to one block, or is on the free list, not both.\<close>

definition hdrs_ok :: "'a headers_scheme \<Rightarrow> bool" where
  "hdrs_ok st \<longleftrightarrow> distinct (hdr_free_list st) \<and> set (hdr_free_list st) \<subseteq> {..<length (hdrs st)} \<and>
     (\<forall>b r. HDR st b = Hdr r \<longrightarrow> r < length (hdrs st) \<and> r \<notin> set (hdr_free_list st)) \<and>
     (\<forall>b c r. HDR st b = Hdr r \<longrightarrow> HDR st c = Hdr r \<longrightarrow> b = c)"

definition map_ok :: "'a headers_scheme \<Rightarrow> bool" where
  "map_ok st \<longleftrightarrow> index_ok st \<and> hdrs_ok st"

lemma hdrs_ok_cong:
  "(\<And>b. HDR st' b = HDR st b) \<Longrightarrow> hdrs st' = hdrs st \<Longrightarrow> hdr_free_list st' = hdr_free_list st \<Longrightarrow> hdrs_ok st' = hdrs_ok st"
  by (simp add: hdrs_ok_def)

lemma grown_map_ok: "map_ok st \<Longrightarrow> grown st st' \<Longrightarrow> map_ok st'"
  using hdrs_ok_cong [of st' st] by (simp add: map_ok_def grown_def)

lemma indexed_SET_HDR [simp]: "indexed (SET_HDR blk e st) b = indexed st b"
  by (simp add: indexed_def)

lemma free_list_update [simp]:
  "HDR (st\<lparr>hdr_free_list := fl\<rparr>) b = HDR st b" "HDR (st\<lparr>hdrs := hs\<rparr>) b = HDR st b"
  "index_ok (st\<lparr>hdr_free_list := fl\<rparr>) = index_ok st" "index_ok (st\<lparr>hdrs := hs\<rparr>) = index_ok st"
  "indexed (st\<lparr>hdr_free_list := fl\<rparr>) b = indexed st b" "indexed (st\<lparr>hdrs := hs\<rparr>) b = indexed st b"
  by (simp_all add: HDR_def GET_BI_def index_ok_def indexed_def)

text \<open>A new header is one that no block has.\<close>

lemma alloc_hdr_ok:
  assumes "map_ok st" "alloc_hdr st = (res, st')"
  shows "map_ok st'" "HDR st' b = HDR st b" "indexed st b \<Longrightarrow> indexed st' b"
    "res = Some r \<Longrightarrow> r < length (hdrs st') \<and> r \<notin> set (hdr_free_list st') \<and> (\<forall>b. HDR st b \<noteq> Hdr r)"
proof -
  obtain p st1 where s: "GC_scratch_alloc SIZEOF_HDR st = (p, st1)" by fastforce
  then have same: "same_index st1 st" using scratch_alloc_same [of SIZEOF_HDR st] by simp
  have g: "grown st st1" using grown_same [OF _ same] assms(1) by (simp add: map_ok_def)
  have ok1: "map_ok st1" using grown_map_ok [OF assms(1) g] .
  show "map_ok st'" "HDR st' b = HDR st b" "indexed st b \<Longrightarrow> indexed st' b"
    "res = Some r \<Longrightarrow> r < length (hdrs st') \<and> r \<notin> set (hdr_free_list st') \<and> (\<forall>b. HDR st b \<noteq> Hdr r)"
    using assms ok1 g s same_indexD [OF same]
    by (auto simp: alloc_hdr_def map_ok_def hdrs_ok_def grown_def less_Suc_eq split: list.splits if_splits)
qed

section \<open>The operations as updates of the map\<close>

lemma SET_HDR_map_ok:
  assumes "map_ok st" "indexed st b" "\<And>r. e = Hdr r \<Longrightarrow> r < length (hdrs st) \<and> r \<notin> set (hdr_free_list st) \<and> (\<forall>c. HDR st c \<noteq> Hdr r)"
  shows "map_ok (SET_HDR b e st)"
  using assms SET_HDR_ok [of st b e] by (auto simp: map_ok_def hdrs_ok_def HDR_SET_HDR split: if_splits)

lemma GC_install_header_ok:
  assumes "map_ok st" "GC_install_header h st = (res, st')"
  shows "map_ok st'" "indexed st b \<Longrightarrow> indexed st' b"
    "HDR st' b = (case res of Some r \<Rightarrow> if b = h then Hdr r else HDR st b | None \<Rightarrow> HDR st b)"
    "res = Some r \<Longrightarrow> indexed st' h \<and> r < length (hdrs st') \<and> (\<forall>b. HDR st b \<noteq> Hdr r)"
proof -
  obtain ok st1 where g: "get_index h st = (ok, st1)" by fastforce
  obtain r1 st2 where a: "alloc_hdr st1 = (r1, st2)" by fastforce
  have G: "grown st st1" "ok \<Longrightarrow> indexed st1 h" using get_index_ok [OF _ g] assms(1) by (simp_all add: map_ok_def)
  have ok1: "map_ok st1" using grown_map_ok [OF assms(1) G(1)] .
  note A = alloc_hdr_ok [OF ok1 a]
  have i: "index_ok st2" using A(1) by (simp add: map_ok_def)
  have res: "(res, st') = (if \<not> ok then (None, st1) else case r1 of None \<Rightarrow> (None, st2) | Some r \<Rightarrow> (Some r, SET_HDR h (Hdr r) st2))"
    unfolding assms(2) [symmetric] GC_install_header_def g Let_def prod.case a ..
  have new: "r1 = Some r \<Longrightarrow> ok \<Longrightarrow> map_ok (SET_HDR h (Hdr r) st2)" for r
    using A(1,2,4) A(3) [OF G(2)] by (intro SET_HDR_map_ok) auto
  have H: "HDR st1 b = HDR st b" for b using G(1) by (simp add: grown_def)
  show "map_ok st'" using res ok1 A(1) new by (auto split: if_splits option.splits)
  show "indexed st' b" if "indexed st b"
  proof -
    have "indexed st1 b" using G(1) that by (simp add: grown_def)
    with A(3) [OF this] res show ?thesis by (auto split: if_splits option.splits)
  qed
  show "HDR st' b = (case res of Some r \<Rightarrow> if b = h then Hdr r else HDR st b | None \<Rightarrow> HDR st b)"
    using res A(2) H HDR_SET_HDR [OF i A(3) [OF G(2)]] by (auto split: if_splits option.splits)
  show "indexed st' h \<and> r < length (hdrs st') \<and> (\<forall>b. HDR st b \<noteq> Hdr r)" if "res = Some r"
    using that res A(3) [OF G(2)] A(4) [of r] H by (auto split: if_splits option.splits)
qed

lemma GC_remove_header_ok:
  assumes "map_ok st" "HDR st h = Hdr r"
  shows "\<exists>st'. GC_remove_header h st = Inr st' \<and> map_ok st' \<and> HDR st' = (HDR st)(h := Nil_entry) \<and>
    (\<forall>b. indexed st b \<longrightarrow> indexed st' b)"
proof -
  have i: "index_ok st" using assms(1) by (simp add: map_ok_def)
  have h: "indexed st h" using HDR_not_indexed [OF i, of h] assms(2) by auto
  let ?st1 = "free_hdr r st"
  have H: "HDR (SET_HDR h Nil_entry ?st1) = (HDR st)(h := Nil_entry)"
    using HDR_SET_HDR [of ?st1 h Nil_entry] i h by (auto simp: free_hdr_def)
  have "map_ok (SET_HDR h Nil_entry ?st1)"
    using SET_HDR_ok [of ?st1 h Nil_entry] assms i h unfolding map_ok_def hdrs_ok_def H
    by (auto simp: free_hdr_def split: if_splits)
  with H assms(2) show ?thesis by (simp add: GC_remove_header_def free_hdr_def)
qed

text \<open>The bottom indices of a range of blocks.\<close>

lemma get_indices_ok:
  "map_ok st \<Longrightarrow> get_indices h lim st = (ok, st') \<Longrightarrow>
    grown st st' \<and> map_ok st' \<and> (ok \<longrightarrow> (\<forall>k. h + k * BOTTOM_SZ < lim \<longrightarrow> indexed st' (h + k * BOTTOM_SZ)))"
proof (induction h lim st arbitrary: ok st' rule: get_indices.induct)
  case (1 h lim st)
  show ?case
  proof (cases "h < lim")
    case True
    obtain ok1 st1 where g: "get_index h st = (ok1, st1)" by fastforce
    have G: "grown st st1" "ok1 \<Longrightarrow> indexed st1 h" using get_index_ok [OF _ g] 1(2) by (simp_all add: map_ok_def)
    have ok1: "map_ok st1" using grown_map_ok [OF 1(2) G(1)] .
    show ?thesis
    proof (cases ok1)
      case True
      then have r: "get_indices (h + BOTTOM_SZ) lim st1 = (ok, st')"
        using 1(3) \<open>h < lim\<close> g by (subst (asm) get_indices.simps) simp
      have IH: "grown st1 st'" "map_ok st'"
        "ok \<Longrightarrow> (\<forall>k. h + BOTTOM_SZ + k * BOTTOM_SZ < lim \<longrightarrow> indexed st' (h + BOTTOM_SZ + k * BOTTOM_SZ))"
        using "1.IH" [OF \<open>h < lim\<close> refl g [symmetric] _ ok1 r] True by auto
      have "indexed st' (h + k * BOTTOM_SZ)" if "h + k * BOTTOM_SZ < lim" ok for k
      proof (cases k)
        case 0
        then show ?thesis using G(2) [OF True] IH(1) by (simp add: grown_def)
      next
        case (Suc j)
        then show ?thesis using IH(3) that spec [of _ j] by (simp add: add.assoc)
      qed
      with IH grown_trans [OF G(1) IH(1)] show ?thesis by blast
    next
      case False
      then show ?thesis using 1(3) \<open>h < lim\<close> g G ok1 by (subst (asm) get_indices.simps) simp
    qed
  next
    case False
    then show ?thesis using 1(2,3) grown_same [of st st] by (subst (asm) get_indices.simps) (auto simp: map_ok_def same_index_def)
  qed
qed

lemma SET_HDR_fold:
  "map_ok st \<Longrightarrow> \<forall>b\<in>set bs. indexed st b \<Longrightarrow>
    map_ok (set_jumps h bs st) \<and> (\<forall>b. indexed (set_jumps h bs st) b = indexed st b) \<and>
    (\<forall>b. HDR (set_jumps h bs st) b = (if b \<in> set bs then Jump (min (b - h) MAX_JUMP) else HDR st b))"
proof (induction bs arbitrary: st)
  case (Cons c bs)
  let ?st = "SET_HDR c (Jump (if c - h > MAX_JUMP then MAX_JUMP else c - h)) st"
  have "map_ok ?st" using Cons.prems by (intro SET_HDR_map_ok) auto
  with Cons.IH [of ?st] Cons.prems show ?case
    by (auto simp: Let_def HDR_SET_HDR map_ok_def min_def)
qed simp

lemma set_nils_ok:
  "map_ok st \<Longrightarrow> \<forall>b\<in>set bs. indexed st b \<Longrightarrow>
    map_ok (set_nils bs st) \<and> (\<forall>b. indexed (set_nils bs st) b = indexed st b) \<and>
    (\<forall>b. HDR (set_nils bs st) b = (if b \<in> set bs then Nil_entry else HDR st b))"
proof (induction bs arbitrary: st)
  case (Cons c bs)
  have "map_ok (SET_HDR c Nil_entry st)" using Cons.prems by (intro SET_HDR_map_ok) auto
  with Cons.IH [of "SET_HDR c Nil_entry st"] Cons.prems show ?case by (auto simp: HDR_SET_HDR map_ok_def)
qed simp

text \<open>Every block of a range lies in one of the bottom indices that were made.\<close>

lemma range_indexed:
  assumes "index_ok st" "\<forall>k. h + k * BOTTOM_SZ < h + n \<longrightarrow> indexed st (h + k * BOTTOM_SZ)" "indexed st (h + n - 1)"
    "h \<le> b" "b < h + n"
  shows "indexed st b"
proof -
  define k where "k = b div BOTTOM_SZ - h div BOTTOM_SZ"
  have le: "h div BOTTOM_SZ \<le> b div BOTTOM_SZ" using assms(4) by (rule div_le_mono)
  then have d: "(h + k * BOTTOM_SZ) div BOTTOM_SZ = b div BOTTOM_SZ" by (simp add: k_def)
  show ?thesis
  proof (cases "h + k * BOTTOM_SZ < h + n")
    case True
    with assms(2) have "indexed st (h + k * BOTTOM_SZ)" by blast
    with d show ?thesis by (simp add: indexed_iff [OF assms(1)])
  next
    case False
    then have "h + n - 1 \<le> h + k * BOTTOM_SZ" "b \<le> h + n - 1" using assms(5) by auto
    from div_le_mono [OF this(1), of BOTTOM_SZ] div_le_mono [OF this(2), of BOTTOM_SZ] d
    have "(h + n - 1) div BOTTOM_SZ = b div BOTTOM_SZ" by simp
    with assms(3) show ?thesis by (simp add: indexed_iff [OF assms(1)])
  qed
qed

lemma GC_install_counts_ok:
  assumes "map_ok st" "0 < n" "GC_install_counts h n st = (ok, st')"
  shows "map_ok st'" "\<forall>b. indexed st b \<longrightarrow> indexed st' b"
    "\<forall>b. HDR st' b = (if ok \<and> h < b \<and> b < h + n then Jump (min (b - h) MAX_JUMP) else HDR st b)"
    "ok \<Longrightarrow> h \<le> b \<Longrightarrow> b < h + n \<Longrightarrow> indexed st' b"
proof -
  obtain ok1 st1 where g: "get_indices h (h + n) st = (ok1, st1)" by fastforce
  have G: "grown st st1" "map_ok st1" "ok1 \<longrightarrow> (\<forall>k. h + k * BOTTOM_SZ < h + n \<longrightarrow> indexed st1 (h + k * BOTTOM_SZ))"
    using get_indices_ok [OF assms(1) g] by auto
  obtain ok2 st2 where g2: "get_index (h + n - 1) st1 = (ok2, st2)" by fastforce
  have G2: "grown st1 st2" "ok2 \<Longrightarrow> indexed st2 (h + n - 1)" "map_ok st2"
    using get_index_ok [OF _ g2] grown_map_ok [OF G(2)] G(2) by (simp_all add: map_ok_def)
  have res: "(ok, st') = (if \<not> ok1 then (False, st1) else if \<not> ok2 then (False, st2) else (True, set_jumps h [Suc h..<h + n] st2))"
    unfolding assms(3) [symmetric] GC_install_counts_def g Let_def prod.case g2 ..
  have all: "indexed st2 b" if ok1 ok2 "h \<le> b" "b < h + n" for b
  proof (rule range_indexed [OF _ _ _ that(3,4)])
    show "index_ok st2" using G2(3) by (simp add: map_ok_def)
    show "\<forall>k. h + k * BOTTOM_SZ < h + n \<longrightarrow> indexed st2 (h + k * BOTTOM_SZ)"
      using G(3) that(1) G2(1) unfolding grown_def by blast
    show "indexed st2 (h + n - 1)" using G2(2) that(2) .
  qed
  have jumps: "map_ok (set_jumps h [Suc h..<h + n] st2)"
    "\<forall>b. indexed (set_jumps h [Suc h..<h + n] st2) b = indexed st2 b"
    "\<forall>b. HDR (set_jumps h [Suc h..<h + n] st2) b = (if b \<in> {Suc h..<h + n} then Jump (min (b - h) MAX_JUMP) else HDR st2 b)" if ok1 ok2
    using SET_HDR_fold [OF G2(3), of "[Suc h..<h + n]" h] all [OF that] by auto
  show "map_ok st'" using res G(2) G2(3) jumps(1) by (auto split: if_splits)
  have mono: "indexed st b \<Longrightarrow> indexed st1 b" "indexed st1 b \<Longrightarrow> indexed st2 b" "HDR st2 b = HDR st b" "HDR st1 b = HDR st b" for b
    using G(1) G2(1) by (simp_all add: grown_def)
  show "\<forall>b. indexed st b \<longrightarrow> indexed st' b"
    using res mono jumps(2) by (auto split: if_splits)
  show "\<forall>b. HDR st' b = (if ok \<and> h < b \<and> b < h + n then Jump (min (b - h) MAX_JUMP) else HDR st b)"
    using res mono(3,4) jumps(3) by (auto split: if_splits)
  show "indexed st' b" if ok "h \<le> b" "b < h + n"
    using res that all jumps(2) by (auto split: if_splits)
qed

lemma GC_remove_counts_ok:
  assumes "map_ok st" "\<forall>b. h < b \<and> b < h + n \<longrightarrow> indexed st b"
  shows "map_ok (GC_remove_counts h n st)" "\<forall>b. indexed (GC_remove_counts h n st) b = indexed st b"
    "\<forall>b. HDR (GC_remove_counts h n st) b = (if h < b \<and> b < h + n then Nil_entry else HDR st b)"
proof -
  have "\<forall>b\<in>set [Suc h..<h + n]. indexed st b" using assms(2) by auto
  from set_nils_ok [OF assms(1) this]
  show "map_ok (GC_remove_counts h n st)" "\<forall>b. indexed (GC_remove_counts h n st) b = indexed st b"
    "\<forall>b. HDR (GC_remove_counts h n st) b = (if h < b \<and> b < h + n then Nil_entry else HDR st b)"
    by (auto simp: GC_remove_counts_def)
qed

end
