(* ===== verification/GC_Search.thy ===== *)
theory GC_Search
  imports GC_Index
begin

text \<open>
  The searches in the index of block headers: the next block in use, the block before an
  address, the traversal of all blocks, and the header of the object that a pointer points
  into, with the marker's cache in front of it.
\<close>

section \<open>What the entries say\<close>

definition used :: "'a headers_scheme \<Rightarrow> nat \<Rightarrow> bool" where
  "used st b \<longleftrightarrow> (\<exists>r. HDR st b = Hdr r \<and> \<not> is_free st r)"

definition has_hdr :: "'a headers_scheme \<Rightarrow> nat \<Rightarrow> bool" where
  "has_hdr st b \<longleftrightarrow> (\<exists>r. HDR st b = Hdr r)"

text \<open>The object that starts at \<open>h\<close> with header \<open>r\<close> has forwarding counts up to block \<open>b\<close>.\<close>

definition object_upto :: "'a headers_scheme \<Rightarrow> nat \<Rightarrow> nat \<Rightarrow> nat \<Rightarrow> bool" where
  "object_upto st h r b \<longleftrightarrow> h \<le> b \<and> HDR st h = Hdr r \<and> (\<forall>c. h < c \<and> c \<le> b \<longrightarrow> HDR st c = Jump (min (c - h) MAX_JUMP))"

text \<open>
  Every forwarding count belongs to an object; no block in use starts inside a free block,
  and a free block is at least one block long.
\<close>

definition blocks_ok :: "'a headers_scheme \<Rightarrow> bool" where
  "blocks_ok st \<longleftrightarrow> map_ok st \<and>
     (\<forall>b d. HDR st b = Jump d \<longrightarrow> (\<exists>h r. h < b \<and> object_upto st h r b)) \<and>
     (\<forall>b r. HDR st b = Hdr r \<longrightarrow> is_free st r \<longrightarrow>
        HBLKSIZE \<le> hb_sz (hdrs st ! r) \<and> (\<forall>c. b < c \<and> c < b + hb_sz (hdrs st ! r) div HBLKSIZE \<longrightarrow> \<not> used st c))"

lemma MAX_JUMP_pos [simp]: "0 < MAX_JUMP"
  by (simp add: MAX_JUMP_def HBLKSIZE_def)

lemma HBLKSIZE_pos [simp]: "0 < HBLKSIZE"
  by (simp add: HBLKSIZE_def)

text \<open>A forwarding count leads back, but not over a header.\<close>

lemma blocks_ok_jump:
  assumes "blocks_ok st" "HDR st b = Jump d"
  shows "0 < d" "d \<le> b" "b - d < c \<Longrightarrow> c \<le> b \<Longrightarrow> \<not> has_hdr st c"
proof -
  obtain h r where o: "h < b" "object_upto st h r b" using assms unfolding blocks_ok_def by blast
  then have d: "d = min (b - h) MAX_JUMP" using assms(2) by (simp add: object_upto_def)
  with o(1) show "0 < d" "d \<le> b" by auto
  show "\<not> has_hdr st c" if "b - d < c" "c \<le> b"
  proof -
    have "h < c" using that(1) d o(1) by auto
    with o(2) that(2) show ?thesis by (simp add: object_upto_def has_hdr_def)
  qed
qed

lemma blocks_okD:
  assumes "blocks_ok st"
  shows "index_ok st" "map_ok st"
  using assms by (simp_all add: blocks_ok_def map_ok_def)

lemma has_hdr_indexed: "index_ok st \<Longrightarrow> has_hdr st b \<Longrightarrow> indexed st b"
  using HDR_not_indexed [of st b] by (cases "indexed st b") (auto simp: has_hdr_def)

lemma used_has_hdr: "used st b \<Longrightarrow> has_hdr st b"
  by (auto simp: used_def has_hdr_def)

lemma entry_HDR:
  assumes "index_ok st" "q \<in> {0<..<length (bis st)}" "j < BOTTOM_SZ"
  shows "bi_index (bis st ! q) ! j = HDR st (key (bis st ! q) * BOTTOM_SZ + j)"
proof -
  have "GET_BI st (key (bis st ! q) * BOTTOM_SZ + j) = q"
    using GET_BI_iff [OF assms(1), of "key (bis st ! q) * BOTTOM_SZ + j" q] assms(2,3) by simp
  with assms(3) show ?thesis by (simp add: HDR_def)
qed

text \<open>The list of all bottom indices.\<close>

lemma index_list:
  assumes "index_ok st"
  obtains qs where "seg (bis st) None (all_bis st) qs None" "all_bis_end st = last_opt None qs"
    "set qs = {0<..<length (bis st)}" "sorted_wrt (\<lambda>p q. key (bis st ! p) < key (bis st ! q)) qs"
    "length qs < length (bis st)"
proof -
  obtain qs where qs: "seg (bis st) None (all_bis st) qs None" "all_bis_end st = last_opt None qs"
    "set qs = {0<..<length (bis st)}" "sorted_wrt (\<lambda>p q. key (bis st ! p) < key (bis st ! q)) qs"
    using index_okD(10) [OF assms] by blast
  have "distinct qs" using qs(4) by (induction qs) auto
  then have "length qs = length (bis st) - 1" using distinct_card [of qs] qs(3) by simp
  then have "length qs < length (bis st)" using index_okD(2) [OF assms] by simp
  with qs that show thesis by blast
qed

text \<open>Blocks with a header lie in one of them.\<close>

lemma has_hdr_key:
  assumes "index_ok st" "set qs = {0<..<length (bis st)}" "has_hdr st b"
  shows "b div BOTTOM_SZ \<in> (\<lambda>q. key (bis st ! q)) ` set qs"
proof -
  obtain q where "q \<in> set qs" "key (bis st ! q) = b div BOTTOM_SZ"
    using has_hdr_indexed [OF assms(1,3)] unfolding indexed_iff [OF assms(1)] assms(2) by blast
  then show ?thesis by (metis imageI)
qed

lemma block_split: "(b :: nat) = b div BOTTOM_SZ * BOTTOM_SZ + b mod BOTTOM_SZ"
  by simp

lemma block_less:
  assumes "b div BOTTOM_SZ < c div BOTTOM_SZ"
  shows "b < (c :: nat)"
  using assms div_le_mono by (metis linorder_not_less)

section \<open>Upwards\<close>

lemma scan_up_ok:
  assumes "blocks_ok st" "q \<in> {0<..<length (bis st)}" "BOTTOM_SZ < j + k"
  shows "case scan_up st (bi_index (bis st ! q)) k j of
      Some c \<Rightarrow> j \<le> c \<and> c < BOTTOM_SZ \<and> used st (key (bis st ! q) * BOTTOM_SZ + c) \<and>
        (\<forall>i. j \<le> i \<and> i < c \<longrightarrow> \<not> used st (key (bis st ! q) * BOTTOM_SZ + i))
    | None \<Rightarrow> \<forall>i. j \<le> i \<and> i < BOTTOM_SZ \<longrightarrow> \<not> used st (key (bis st ! q) * BOTTOM_SZ + i)"
  using assms(3)
proof (induction k arbitrary: j)
  case (Suc k)
  let ?b = "\<lambda>i. key (bis st ! q) * BOTTOM_SZ + i" and ?es = "bi_index (bis st ! q)"
  show ?case
  proof (cases "j < BOTTOM_SZ")
    case True
    have e: "?es ! j = HDR st (?b j)" by (rule entry_HDR [OF blocks_okD(1) [OF assms(1)] assms(2) True])
    let ?goal = "case scan_up st ?es (Suc k) j of
      Some c \<Rightarrow> j \<le> c \<and> c < BOTTOM_SZ \<and> used st (?b c) \<and> (\<forall>i. j \<le> i \<and> i < c \<longrightarrow> \<not> used st (?b i))
    | None \<Rightarrow> \<forall>i. j \<le> i \<and> i < BOTTOM_SZ \<longrightarrow> \<not> used st (?b i)"
    have step: ?goal if skip: "0 < d" "scan_up st ?es (Suc k) j = scan_up st ?es k (j + d)"
      "\<And>i. j \<le> i \<Longrightarrow> i < j + d \<Longrightarrow> \<not> used st (?b i)" for d
    proof -
      have "BOTTOM_SZ < j + d + k" using Suc.prems skip(1) by linarith
      note IH = Suc.IH [OF this]
      show ?thesis
      proof (cases "scan_up st ?es k (j + d)")
        case None
        with IH have "\<not> used st (?b i)" if "j + d \<le> i" "i < BOTTOM_SZ" for i using that by simp
        then have "\<not> used st (?b i)" if "j \<le> i" "i < BOTTOM_SZ" for i
          using skip(3) [of i] that by (cases "i < j + d") auto
        with None skip(2) show ?thesis by simp
      next
        case (Some c)
        with IH have c: "j + d \<le> c" "c < BOTTOM_SZ" "used st (?b c)" "\<And>i. j + d \<le> i \<Longrightarrow> i < c \<Longrightarrow> \<not> used st (?b i)" by auto
        have "\<not> used st (?b i)" if "j \<le> i" "i < c" for i
          using skip(3) [of i] c(4) [of i] that by (cases "i < j + d") auto
        with Some skip(2) c show ?thesis by simp
      qed
    qed
    show ?thesis
    proof (cases "HDR st (?b j)")
      case (Hdr r)
      show ?thesis
      proof (cases "is_free st r")
        case False
        with Hdr True e show ?thesis by (auto simp: used_def)
      next
        case f: True
        let ?d = "hb_sz (hdrs st ! r) div HBLKSIZE"
        have fr: "HBLKSIZE \<le> hb_sz (hdrs st ! r)" "\<And>c. ?b j < c \<Longrightarrow> c < ?b j + ?d \<Longrightarrow> \<not> used st c"
          using assms(1) Hdr f unfolding blocks_ok_def by blast+
        have no: "\<not> used st (?b i)" if "j \<le> i" "i < j + ?d" for i
          using fr(2) [of "?b i"] that Hdr f by (cases "i = j") (auto simp: used_def)
        have pos: "0 < ?d" using fr(1) by (simp add: div_greater_zero_iff)
        show ?thesis by (rule step [OF pos _ no]) (simp_all add: True e Hdr f)
      qed
    next
      case (Jump d)
      then have "\<not> used st (?b i)" if "j \<le> i" "i < j + 1" for i
        using that by (cases "i = j") (simp_all add: used_def)
      then show ?thesis by (intro step [of 1]) (simp_all add: True e Jump)
    next
      case Nil_entry
      then have "\<not> used st (?b i)" if "j \<le> i" "i < j + 1" for i
        using that by (cases "i = j") (simp_all add: used_def)
      then show ?thesis by (intro step [of 1]) (simp_all add: True e Nil_entry)
    qed
  qed auto
qed auto

text \<open>The first element of a set of blocks, if there is one.\<close>

definition first_of :: "nat set \<Rightarrow> nat option \<Rightarrow> bool" where
  "first_of C r \<longleftrightarrow> (case r of Some b \<Rightarrow> b \<in> C \<and> (\<forall>c\<in>C. b \<le> c) | None \<Rightarrow> C = {})"

definition last_of :: "nat set \<Rightarrow> nat option \<Rightarrow> bool" where
  "last_of C r \<longleftrightarrow> (case r of Some b \<Rightarrow> b \<in> C \<and> (\<forall>c\<in>C. c \<le> b) | None \<Rightarrow> C = {})"

lemma next_up_ok:
  assumes "blocks_ok st"
  shows "seg (bis st) pr s qs None \<Longrightarrow> set qs \<subseteq> {0<..<length (bis st)} \<Longrightarrow>
    sorted_wrt (\<lambda>p q. key (bis st ! p) < key (bis st ! q)) qs \<Longrightarrow> length qs \<le> k \<Longrightarrow> j \<le> BOTTOM_SZ \<Longrightarrow>
    first_of {b. used st b \<and> b div BOTTOM_SZ \<in> (\<lambda>q. key (bis st ! q)) ` set qs \<and>
        (qs \<noteq> [] \<longrightarrow> b div BOTTOM_SZ = key (bis st ! hd qs) \<longrightarrow> j \<le> b mod BOTTOM_SZ)} (next_up st k s j)"
proof (induction qs arbitrary: pr s k j)
  case Nil
  then have "next_up st k s j = None" by (cases k) simp_all
  then show ?case by (simp add: first_of_def)
next
  case (Cons q qs)
  let ?K = "key (bis st ! q)" and ?C = "{b. used st b \<and> b div BOTTOM_SZ \<in> (\<lambda>q. key (bis st ! q)) ` set (q # qs) \<and>
        (q # qs \<noteq> [] \<longrightarrow> b div BOTTOM_SZ = key (bis st ! hd (q # qs)) \<longrightarrow> j \<le> b mod BOTTOM_SZ)}"
  obtain k' where k: "k = Suc k'" using Cons.prems(4) by (cases k) auto
  have s: "s = Some q" "seg (bis st) (Some q) (asc_link (bis st ! q)) qs None" using Cons.prems(1) by simp_all
  have q: "q \<in> {0<..<length (bis st)}" using Cons.prems(2) by simp
  have later: "?K < c div BOTTOM_SZ" if "c div BOTTOM_SZ \<in> (\<lambda>q. key (bis st ! q)) ` set qs" for c
    using Cons.prems(3) that by auto
  have "BOTTOM_SZ < j + Suc BOTTOM_SZ" by simp
  note scan = scan_up_ok [OF assms q this]
  show ?case
  proof (cases "scan_up st (bi_index (bis st ! q)) (Suc BOTTOM_SZ) j")
    case (Some i)
    with scan have i: "j \<le> i" "i < BOTTOM_SZ" "used st (?K * BOTTOM_SZ + i)"
      "\<And>c. j \<le> c \<Longrightarrow> c < i \<Longrightarrow> \<not> used st (?K * BOTTOM_SZ + c)" by auto
    have "?K * BOTTOM_SZ + i \<le> c" if "c \<in> ?C" for c
    proof (cases "c div BOTTOM_SZ = ?K")
      case True
      then have "c = ?K * BOTTOM_SZ + c mod BOTTOM_SZ" using block_split [of c] by simp
      moreover have "used st c" "j \<le> c mod BOTTOM_SZ" using that True by simp_all
      ultimately have "\<not> c mod BOTTOM_SZ < i" using i(4) [of "c mod BOTTOM_SZ"] by metis
      with \<open>c = ?K * BOTTOM_SZ + c mod BOTTOM_SZ\<close> show ?thesis by linarith
    next
      case False
      then have "?K < c div BOTTOM_SZ" using that later by auto
      then have "(?K * BOTTOM_SZ + i) div BOTTOM_SZ < c div BOTTOM_SZ" using i(2) by simp
      then show ?thesis using block_less by (metis less_or_eq_imp_le)
    qed
    moreover have "?K * BOTTOM_SZ + i \<in> ?C" using i by simp
    moreover have "next_up st k s j = Some (?K * BOTTOM_SZ + i)" by (simp add: k s(1) Some del: scan_up.simps)
    ultimately show ?thesis by (simp add: first_of_def del: mem_Collect_eq)
  next
    case None
    let ?D = "{b. used st b \<and> b div BOTTOM_SZ \<in> (\<lambda>q. key (bis st ! q)) ` set qs \<and>
        (qs \<noteq> [] \<longrightarrow> b div BOTTOM_SZ = key (bis st ! hd qs) \<longrightarrow> 0 \<le> b mod BOTTOM_SZ)}"
    have "first_of ?D (next_up st k' (asc_link (bis st ! q)) 0)"
      using Cons.IH [OF s(2), of k' 0] Cons.prems(2-4) k by simp
    moreover have "?C = ?D"
    proof -
      have "b div BOTTOM_SZ \<noteq> ?K" if "b \<in> ?C" for b
      proof
        assume K: "b div BOTTOM_SZ = ?K"
        then have "b = ?K * BOTTOM_SZ + b mod BOTTOM_SZ" using block_split [of b] by simp
        moreover have "\<not> used st (?K * BOTTOM_SZ + b mod BOTTOM_SZ)"
          using scan None that K by simp
        ultimately show False using that by simp
      qed
      moreover have "b div BOTTOM_SZ \<noteq> ?K" if "b \<in> ?D" for b using later that by fastforce
      ultimately show ?thesis by auto
    qed
    moreover have "next_up st k s j = next_up st k' (asc_link (bis st ! q)) 0"
      by (simp add: k s(1) None del: scan_up.simps)
    ultimately show ?thesis by simp
  qed
qed

lemma first_from_ok:
  "seg bs pr s qs None \<Longrightarrow> length qs \<le> k \<Longrightarrow> first_from bs hi k s = hd_opt (dropWhile (\<lambda>q. key (bs ! q) < hi) qs)"
proof (induction qs arbitrary: pr s k)
  case Nil
  then show ?case by (cases k) simp_all
next
  case (Cons q qs)
  then obtain k' where "k = Suc k'" by (cases k) auto
  with Cons show ?case by auto
qed

lemma seg_suffix: "seg bs pr s (xs @ ys) e \<Longrightarrow> \<exists>pr' s'. seg bs pr' s' ys e"
  by (induction xs arbitrary: pr s) auto

lemma next_used_block_first:
  assumes "blocks_ok st"
  shows "first_of {b. used st b \<and> h \<le> b} (GC_next_used_block st h)"
proof -
  note ok = blocks_okD(1) [OF assms]
  obtain qs where qs: "seg (bis st) None (all_bis st) qs None" "set qs = {0<..<length (bis st)}"
    "sorted_wrt (\<lambda>p q. key (bis st ! p) < key (bis st ! q)) qs" "length qs < length (bis st)"
    using index_list [OF ok] by metis
  let ?hi = "h div BOTTOM_SZ" and ?n = "length (bis st)"
  define xs where "xs = takeWhile (\<lambda>q. key (bis st ! q) < ?hi) qs"
  define ys where "ys = dropWhile (\<lambda>q. key (bis st ! q) < ?hi) qs"
  have split: "qs = xs @ ys" by (simp add: xs_def ys_def)
  obtain pr s where sy: "seg (bis st) pr s ys None" using seg_suffix qs(1) unfolding split by blast
  have s: "s = hd_opt ys" using seg_start [OF sy] .
  have x: "key (bis st ! q) < ?hi" if "q \<in> set xs" for q using that unfolding xs_def by (auto dest: set_takeWhileD)
  have hd: "?hi \<le> key (bis st ! hd ys)" if "ys \<noteq> []"
    using that hd_dropWhile [of "\<lambda>q. key (bis st ! q) < ?hi" qs] by (simp add: ys_def)
  have sub: "set ys \<subseteq> {0<..<?n}" "length ys \<le> ?n" "sorted_wrt (\<lambda>p q. key (bis st ! p) < key (bis st ! q)) ys"
    using qs(2-4) unfolding split by (auto simp: sorted_wrt_append)
  have y: "?hi \<le> key (bis st ! q)" "q \<noteq> hd ys \<Longrightarrow> ?hi < key (bis st ! q)" if "q \<in> set ys" for q
    using that hd sub(3) by (cases ys; auto)+
  define j where "j = (if GET_BI st h = 0 then 0 else h mod BOTTOM_SZ)"
  have at_hd: "GET_BI st h \<noteq> 0 \<Longrightarrow> ys \<noteq> [] \<and> hd ys = GET_BI st h \<and> key (bis st ! hd ys) = ?hi"
  proof -
    let ?q = "GET_BI st h"
    assume "?q \<noteq> 0"
    then have q: "?q \<in> set qs" "key (bis st ! ?q) = ?hi" using GET_BI_iff [OF ok, of h ?q] qs(2) by auto
    then have "?q \<in> set ys" using x [of ?q] split by auto
    with y(2) [of ?q] q(2) show "ys \<noteq> [] \<and> hd ys = ?q \<and> key (bis st ! hd ys) = ?hi" by (cases "?q = hd ys") auto
  qed
  have res: "GC_next_used_block st h = next_up st ?n (hd_opt ys) j"
  proof (cases "GET_BI st h = 0")
    case True
    then show ?thesis using first_from_ok [OF qs(1), of ?n ?hi] qs(4) by (simp add: GC_next_used_block_def Let_def j_def ys_def)
  next
    case False
    with at_hd [OF False] show ?thesis by (cases ys) (simp_all add: GC_next_used_block_def Let_def j_def)
  qed
  have "{b. used st b \<and> b div BOTTOM_SZ \<in> (\<lambda>q. key (bis st ! q)) ` set ys \<and>
      (ys \<noteq> [] \<longrightarrow> b div BOTTOM_SZ = key (bis st ! hd ys) \<longrightarrow> j \<le> b mod BOTTOM_SZ)} = {b. used st b \<and> h \<le> b}"
  proof (intro Collect_cong conj_cong refl iffI)
    fix b assume u: "used st b"
    show "h \<le> b" if b: "b div BOTTOM_SZ \<in> (\<lambda>q. key (bis st ! q)) ` set ys \<and>
        (ys \<noteq> [] \<longrightarrow> b div BOTTOM_SZ = key (bis st ! hd ys) \<longrightarrow> j \<le> b mod BOTTOM_SZ)"
    proof -
      obtain q where q: "q \<in> set ys" "b div BOTTOM_SZ = key (bis st ! q)" using b by blast
      then have le: "?hi \<le> b div BOTTOM_SZ" using y(1) by simp
      show ?thesis
      proof (cases "?hi < b div BOTTOM_SZ")
        case True
        then show ?thesis by (rule less_imp_le [OF block_less])
      next
        case False
        with le have e: "b div BOTTOM_SZ = ?hi" by simp
        then have hdq: "q = hd ys" using y(2) [OF q(1)] q(2) by (cases "q = hd ys") auto
        have "indexed st h"
        proof -
          have "q \<in> {0<..<?n}" using q(1) sub(1) by blast
          then show ?thesis using q(2) e unfolding indexed_iff [OF ok] by metis
        qed
        then have "j = h mod BOTTOM_SZ" by (simp add: j_def indexed_def)
        then have "h mod BOTTOM_SZ \<le> b mod BOTTOM_SZ" using b q hdq by auto
        then have "h div BOTTOM_SZ * BOTTOM_SZ + h mod BOTTOM_SZ \<le> b div BOTTOM_SZ * BOTTOM_SZ + b mod BOTTOM_SZ"
          unfolding e by (rule add_left_mono)
        then show ?thesis unfolding div_mult_mod_eq .
      qed
    qed
    show "b div BOTTOM_SZ \<in> (\<lambda>q. key (bis st ! q)) ` set ys \<and>
        (ys \<noteq> [] \<longrightarrow> b div BOTTOM_SZ = key (bis st ! hd ys) \<longrightarrow> j \<le> b mod BOTTOM_SZ)" if le: "h \<le> b"
    proof -
      obtain q where q: "q \<in> set qs" "key (bis st ! q) = b div BOTTOM_SZ"
        using has_hdr_key [OF ok qs(2) used_has_hdr [OF u]] by force
      have d: "?hi \<le> b div BOTTOM_SZ" using le by (rule div_le_mono)
      then have "q \<in> set ys" using x [of q] q split by auto
      moreover have "j \<le> b mod BOTTOM_SZ" if "b div BOTTOM_SZ = key (bis st ! hd ys)"
      proof (cases "GET_BI st h = 0")
        case False
        then have e: "b div BOTTOM_SZ = ?hi" using at_hd that by metis
        have "h div BOTTOM_SZ * BOTTOM_SZ + h mod BOTTOM_SZ \<le> b div BOTTOM_SZ * BOTTOM_SZ + b mod BOTTOM_SZ"
          using le unfolding div_mult_mod_eq .
        then show ?thesis using False unfolding e j_def by (simp only: add_le_cancel_left if_False)
      qed (simp add: j_def)
      ultimately show ?thesis using q(2) by (metis imageI)
    qed
  qed
  moreover have "j \<le> BOTTOM_SZ" by (simp add: j_def less_imp_le)
  ultimately show ?thesis
    using next_up_ok [OF assms sy sub(1,3,2), of j] unfolding res s by simp
qed

section \<open>Downwards\<close>

lemma scan_down_ok:
  assumes "blocks_ok st" "q \<in> {0<..<length (bis st)}" "j < int BOTTOM_SZ" "j < int k"
  shows "case scan_down (bi_index (bis st ! q)) k j of
      Some c \<Rightarrow> int c \<le> j \<and> has_hdr st (key (bis st ! q) * BOTTOM_SZ + c) \<and>
        (\<forall>i. c < i \<and> int i \<le> j \<longrightarrow> \<not> has_hdr st (key (bis st ! q) * BOTTOM_SZ + i))
    | None \<Rightarrow> \<forall>i. int i \<le> j \<longrightarrow> \<not> has_hdr st (key (bis st ! q) * BOTTOM_SZ + i)"
  using assms(3,4)
proof (induction k arbitrary: j)
  case (Suc k)
  let ?b = "\<lambda>i. key (bis st ! q) * BOTTOM_SZ + i" and ?es = "bi_index (bis st ! q)"
  show ?case
  proof (cases "0 \<le> j")
    case True
    have "nat j < BOTTOM_SZ" using True Suc.prems(1) by linarith
    then have e: "?es ! nat j = HDR st (?b (nat j))" using entry_HDR [OF blocks_okD(1) [OF assms(1)] assms(2)] by blast
    let ?goal = "case scan_down ?es (Suc k) j of
      Some c \<Rightarrow> int c \<le> j \<and> has_hdr st (?b c) \<and> (\<forall>i. c < i \<and> int i \<le> j \<longrightarrow> \<not> has_hdr st (?b i))
    | None \<Rightarrow> \<forall>i. int i \<le> j \<longrightarrow> \<not> has_hdr st (?b i)"
    have step: ?goal if skip: "0 < d" "scan_down ?es (Suc k) j = scan_down ?es k (j - int d)"
      "\<And>i. j - int d < int i \<Longrightarrow> int i \<le> j \<Longrightarrow> \<not> has_hdr st (?b i)" for d
    proof -
      have "j - int d < int BOTTOM_SZ" "j - int d < int k" using Suc.prems skip(1) by linarith+
      note IH = Suc.IH [OF this]
      show ?thesis
      proof (cases "scan_down ?es k (j - int d)")
        case None
        have "\<not> has_hdr st (?b i)" if "int i \<le> j" for i
          using skip(3) [of i] IH None that by (cases "j - int d < int i") auto
        with None skip(2) show ?thesis by simp
      next
        case (Some c)
        with IH have c: "int c \<le> j - int d" "has_hdr st (?b c)" "\<And>i. c < i \<Longrightarrow> int i \<le> j - int d \<Longrightarrow> \<not> has_hdr st (?b i)" by auto
        have "\<not> has_hdr st (?b i)" if "c < i" "int i \<le> j" for i
          using skip(3) [of i] c(3) [of i] that by (cases "j - int d < int i") auto
        with Some skip(1,2) c show ?thesis by simp
      qed
    qed
    show ?thesis
    proof (cases "HDR st (?b (nat j))")
      case (Hdr r)
      with True e show ?thesis by (auto simp: has_hdr_def)
    next
      case (Jump d)
      note jump = blocks_ok_jump [OF assms(1) Jump]
      have no: "\<not> has_hdr st (?b i)" if "j - int d < int i" "int i \<le> j" for i
      proof (rule jump(3))
        show "?b (nat j) - d < ?b i" using that True jump(1,2) by linarith
        show "?b i \<le> ?b (nat j)" using that by linarith
      qed
      show ?thesis by (rule step [OF jump(1) _ no]) (simp_all add: True e Jump)
    next
      case Nil_entry
      have no: "\<not> has_hdr st (?b i)" if "j - int 1 < int i" "int i \<le> j" for i
      proof -
        have "i = nat j" using that by linarith
        then show ?thesis using Nil_entry by (simp add: has_hdr_def)
      qed
      show ?thesis by (rule step [of 1, OF _ _ no]) (simp_all add: True e Nil_entry)
    qed
  qed auto
qed auto

text \<open>The backward links go through the same list.\<close>

lemma seg_desc: "seg bs pr s (xs @ q # ys) e \<Longrightarrow> desc_link (bs ! q) = last_opt pr xs"
  by (induction xs arbitrary: pr s) auto

lemma prev_down_ok:
  assumes "blocks_ok st" "seg (bis st) None (all_bis st) qs None" "set qs = {0<..<length (bis st)}"
    "sorted_wrt (\<lambda>p q. key (bis st ! p) < key (bis st ! q)) qs"
  shows "qs = xs @ ys \<Longrightarrow> length xs \<le> k \<Longrightarrow> j < BOTTOM_SZ \<Longrightarrow>
    last_of {b. has_hdr st b \<and> b div BOTTOM_SZ \<in> (\<lambda>q. key (bis st ! q)) ` set xs \<and>
        (xs \<noteq> [] \<longrightarrow> b div BOTTOM_SZ = key (bis st ! last xs) \<longrightarrow> b mod BOTTOM_SZ \<le> j)}
      (prev_down st k (last_opt None xs) j)"
proof (induction xs arbitrary: ys k j rule: rev_induct)
  case Nil
  then have "prev_down st k None j = None" by (cases k) simp_all
  then show ?case by (simp add: last_of_def)
next
  case (snoc q xs)
  let ?K = "key (bis st ! q)" and ?C = "{b. has_hdr st b \<and> b div BOTTOM_SZ \<in> (\<lambda>q. key (bis st ! q)) ` set (xs @ [q]) \<and>
        (xs @ [q] \<noteq> [] \<longrightarrow> b div BOTTOM_SZ = key (bis st ! last (xs @ [q])) \<longrightarrow> b mod BOTTOM_SZ \<le> j)}"
  obtain k' where k: "k = Suc k'" using snoc.prems(2) by (cases k) auto
  have q: "q \<in> {0<..<length (bis st)}" using assms(3) snoc.prems(1) by auto
  have d: "desc_link (bis st ! q) = last_opt None xs"
    using seg_desc [of "bis st" None "all_bis st" xs q ys None] assms(2) snoc.prems(1) by simp
  have earlier: "c div BOTTOM_SZ < ?K" if "c div BOTTOM_SZ \<in> (\<lambda>q. key (bis st ! q)) ` set xs" for c
    using assms(4) that unfolding snoc.prems(1) by (auto simp: sorted_wrt_append)
  have jb: "int j < int BOTTOM_SZ" "int j < int (Suc BOTTOM_SZ)" using snoc.prems(3) by simp_all
  note scan = scan_down_ok [OF assms(1) q jb]
  show ?case
  proof (cases "scan_down (bi_index (bis st ! q)) (Suc BOTTOM_SZ) (int j)")
    case (Some i)
    with scan have i: "i \<le> j" "has_hdr st (?K * BOTTOM_SZ + i)"
      "\<And>c. i < c \<Longrightarrow> c \<le> j \<Longrightarrow> \<not> has_hdr st (?K * BOTTOM_SZ + c)" by auto
    have iB: "i < BOTTOM_SZ" using i(1) snoc.prems(3) by simp
    have "c \<le> ?K * BOTTOM_SZ + i" if "c \<in> ?C" for c
    proof (cases "c div BOTTOM_SZ = ?K")
      case True
      then have c: "c = ?K * BOTTOM_SZ + c mod BOTTOM_SZ" using block_split [of c] by simp
      moreover have "has_hdr st c" "c mod BOTTOM_SZ \<le> j" using that True by simp_all
      ultimately have "\<not> i < c mod BOTTOM_SZ" using i(3) [of "c mod BOTTOM_SZ"] by metis
      with c show ?thesis by linarith
    next
      case False
      then have "c div BOTTOM_SZ < ?K" using that earlier by auto
      then have "c div BOTTOM_SZ < (?K * BOTTOM_SZ + i) div BOTTOM_SZ" using iB by simp
      then show ?thesis using block_less by (metis less_or_eq_imp_le)
    qed
    moreover have "?K * BOTTOM_SZ + i \<in> ?C" using i iB by simp
    moreover have "prev_down st k (last_opt None (xs @ [q])) j = Some (?K * BOTTOM_SZ + i)"
      by (simp add: k Some del: scan_down.simps)
    ultimately show ?thesis by (simp add: last_of_def del: mem_Collect_eq)
  next
    case None
    let ?D = "{b. has_hdr st b \<and> b div BOTTOM_SZ \<in> (\<lambda>q. key (bis st ! q)) ` set xs \<and>
        (xs \<noteq> [] \<longrightarrow> b div BOTTOM_SZ = key (bis st ! last xs) \<longrightarrow> b mod BOTTOM_SZ \<le> BOTTOM_SZ - 1)}"
    have "last_of ?D (prev_down st k' (last_opt None xs) (BOTTOM_SZ - 1))"
      using snoc.IH [of "q # ys" k' "BOTTOM_SZ - 1"] snoc.prems k by simp
    moreover have "?C = ?D"
    proof -
      have "b div BOTTOM_SZ \<noteq> ?K" if "b \<in> ?C" for b
      proof
        assume K: "b div BOTTOM_SZ = ?K"
        then have "b = ?K * BOTTOM_SZ + b mod BOTTOM_SZ" using block_split [of b] by simp
        moreover have "\<not> has_hdr st (?K * BOTTOM_SZ + b mod BOTTOM_SZ)" using scan None that K by simp
        ultimately show False using that by simp
      qed
      moreover have "b div BOTTOM_SZ \<noteq> ?K" if "b \<in> ?D" for b using earlier that by fastforce
      moreover have "b mod BOTTOM_SZ \<le> BOTTOM_SZ - 1" for b using mod_less_divisor [of BOTTOM_SZ b] by (simp add: BOTTOM_SZ_def)
      ultimately show ?thesis by auto
    qed
    moreover have "prev_down st k (last_opt None (xs @ [q])) j = prev_down st k' (last_opt None xs) (BOTTOM_SZ - 1)"
      by (simp add: k None d del: scan_down.simps)
    ultimately show ?thesis by simp
  qed
qed

lemma last_upto_ok:
  assumes "seg bs pr s qs None"
  shows "qs = xs @ ys \<Longrightarrow> length xs \<le> k \<Longrightarrow> sorted_wrt (\<lambda>p q. key (bs ! p) < key (bs ! q)) xs \<Longrightarrow> pr = None \<Longrightarrow>
    last_upto bs hi k (last_opt None xs) = last_opt None (takeWhile (\<lambda>q. key (bs ! q) \<le> hi) xs)"
proof (induction xs arbitrary: ys k rule: rev_induct)
  case Nil
  then show ?case by (cases k) simp_all
next
  case (snoc q xs)
  obtain k' where k: "k = Suc k'" using snoc.prems(2) by (cases k) auto
  have d: "desc_link (bs ! q) = last_opt None xs"
    using seg_desc [of bs None s xs q ys None] assms snoc.prems(1,4) by simp
  have IH: "last_upto bs hi k' (last_opt None xs) = last_opt None (takeWhile (\<lambda>q. key (bs ! q) \<le> hi) xs)"
    using snoc.IH [of "q # ys" k'] snoc.prems k by (simp add: sorted_wrt_append)
  show ?case
  proof (cases "hi < key (bs ! q)")
    case True
    then have "takeWhile (\<lambda>q. key (bs ! q) \<le> hi) (xs @ [q]) = takeWhile (\<lambda>q. key (bs ! q) \<le> hi) xs"
      by (induction xs) auto
    with True IH k d show ?thesis by simp
  next
    case False
    then have "\<forall>p\<in>set (xs @ [q]). key (bs ! p) \<le> hi"
      using snoc.prems(3) by (fastforce simp: sorted_wrt_append)
    then have "takeWhile (\<lambda>q. key (bs ! q) \<le> hi) (xs @ [q]) = xs @ [q]" by (simp add: takeWhile_eq_all_conv del: takeWhile_append)
    with False k show ?thesis by simp
  qed
qed

lemma prev_block_last:
  assumes "blocks_ok st"
  shows "last_of {b. has_hdr st b \<and> b \<le> h} (GC_prev_block st h)"
proof -
  note ok = blocks_okD(1) [OF assms]
  obtain qs where qs: "seg (bis st) None (all_bis st) qs None" "all_bis_end st = last_opt None qs" "set qs = {0<..<length (bis st)}"
    "sorted_wrt (\<lambda>p q. key (bis st ! p) < key (bis st ! q)) qs" "length qs < length (bis st)"
    using index_list [OF ok] by metis
  let ?hi = "h div BOTTOM_SZ" and ?n = "length (bis st)"
  define xs where "xs = takeWhile (\<lambda>q. key (bis st ! q) \<le> ?hi) qs"
  define ys where "ys = dropWhile (\<lambda>q. key (bis st ! q) \<le> ?hi) qs"
  have split: "qs = xs @ ys" by (simp add: xs_def ys_def)
  have x: "key (bis st ! q) \<le> ?hi" if "q \<in> set xs" for q using that unfolding xs_def by (auto dest: set_takeWhileD)
  have sxs: "sorted_wrt (\<lambda>p q. key (bis st ! p) < key (bis st ! q)) xs" "length xs \<le> ?n"
    and sys: "sorted_wrt (\<lambda>p q. key (bis st ! p) < key (bis st ! q)) ys"
    using qs(4,5) unfolding split by (auto simp: sorted_wrt_append)
  have x': "key (bis st ! q) < ?hi" if "q \<in> set xs" "q \<noteq> last xs" for q
  proof -
    have "xs \<noteq> []" using that(1) by auto
    then obtain zs z where zs: "xs = zs @ [z]" by (metis rev_exhaust)
    then have "key (bis st ! q) < key (bis st ! z)" using that sxs(1) by (auto simp: sorted_wrt_append)
    also have "\<dots> \<le> ?hi" using x [of z] zs by simp
    finally show ?thesis .
  qed
  have y: "?hi < key (bis st ! q)" if "q \<in> set ys" for q
  proof -
    have "ys \<noteq> []" using that by auto
    then obtain y zs where zs: "ys = y # zs" by (metis neq_Nil_conv)
    then have "\<not> key (bis st ! y) \<le> ?hi" using hd_dropWhile [of "\<lambda>q. key (bis st ! q) \<le> ?hi" qs] unfolding ys_def [symmetric] by simp
    moreover have "q = y \<or> key (bis st ! y) < key (bis st ! q)" using that zs sys by auto
    ultimately show ?thesis by auto
  qed
  define j where "j = (if GET_BI st h = 0 then BOTTOM_SZ - 1 else h mod BOTTOM_SZ)"
  have jB: "j < BOTTOM_SZ" by (simp add: j_def BOTTOM_SZ_def)
  have at_last: "GET_BI st h \<noteq> 0 \<Longrightarrow> xs \<noteq> [] \<and> last xs = GET_BI st h \<and> key (bis st ! last xs) = ?hi"
  proof -
    let ?q = "GET_BI st h"
    assume "?q \<noteq> 0"
    then have q: "?q \<in> set qs" "key (bis st ! ?q) = ?hi" using GET_BI_iff [OF ok, of h ?q] qs(3) by auto
    then have "?q \<in> set xs" using y [of ?q] split by auto
    with x' [of ?q] q(2) show "xs \<noteq> [] \<and> last xs = ?q \<and> key (bis st ! last xs) = ?hi" by (cases "?q = last xs") auto
  qed
  have res: "GC_prev_block st h = prev_down st ?n (last_opt None xs) j"
  proof (cases "GET_BI st h = 0")
    case True
    have "last_upto (bis st) ?hi ?n (all_bis_end st) = last_opt None xs"
      using last_upto_ok [OF qs(1), of qs "[]" ?n ?hi] qs(2,4,5) by (simp add: xs_def)
    with True show ?thesis by (simp add: GC_prev_block_def Let_def j_def)
  next
    case False
    with at_last [OF False] show ?thesis by (simp add: GC_prev_block_def Let_def j_def last_opt_last)
  qed
  have "{b. has_hdr st b \<and> b div BOTTOM_SZ \<in> (\<lambda>q. key (bis st ! q)) ` set xs \<and>
      (xs \<noteq> [] \<longrightarrow> b div BOTTOM_SZ = key (bis st ! last xs) \<longrightarrow> b mod BOTTOM_SZ \<le> j)} = {b. has_hdr st b \<and> b \<le> h}"
  proof (intro Collect_cong conj_cong refl iffI)
    fix b assume u: "has_hdr st b"
    show "b \<le> h" if b: "b div BOTTOM_SZ \<in> (\<lambda>q. key (bis st ! q)) ` set xs \<and>
        (xs \<noteq> [] \<longrightarrow> b div BOTTOM_SZ = key (bis st ! last xs) \<longrightarrow> b mod BOTTOM_SZ \<le> j)"
    proof -
      obtain q where q: "q \<in> set xs" "b div BOTTOM_SZ = key (bis st ! q)" using b by blast
      then have le: "b div BOTTOM_SZ \<le> ?hi" using x by simp
      show ?thesis
      proof (cases "b div BOTTOM_SZ < ?hi")
        case True
        then show ?thesis by (rule less_imp_le [OF block_less])
      next
        case False
        with le have e: "b div BOTTOM_SZ = ?hi" by simp
        then have hdq: "q = last xs" using x' [OF q(1)] q(2) by (cases "q = last xs") auto
        have "indexed st h"
        proof -
          have "q \<in> {0<..<?n}" using q(1) qs(3) split by auto
          then show ?thesis using q(2) e unfolding indexed_iff [OF ok] by metis
        qed
        then have "j = h mod BOTTOM_SZ" by (simp add: j_def indexed_def)
        then have "b mod BOTTOM_SZ \<le> h mod BOTTOM_SZ" using b q hdq by auto
        then have "b div BOTTOM_SZ * BOTTOM_SZ + b mod BOTTOM_SZ \<le> h div BOTTOM_SZ * BOTTOM_SZ + h mod BOTTOM_SZ"
          unfolding e by (rule add_left_mono)
        then show ?thesis unfolding div_mult_mod_eq .
      qed
    qed
    show "b div BOTTOM_SZ \<in> (\<lambda>q. key (bis st ! q)) ` set xs \<and>
        (xs \<noteq> [] \<longrightarrow> b div BOTTOM_SZ = key (bis st ! last xs) \<longrightarrow> b mod BOTTOM_SZ \<le> j)" if le: "b \<le> h"
    proof -
      obtain q where q: "q \<in> set qs" "key (bis st ! q) = b div BOTTOM_SZ"
        using has_hdr_key [OF ok qs(3) u] by force
      have d: "b div BOTTOM_SZ \<le> ?hi" using le by (rule div_le_mono)
      then have "q \<in> set xs" using y [of q] q split by auto
      moreover have "b mod BOTTOM_SZ \<le> j" if "b div BOTTOM_SZ = key (bis st ! last xs)"
      proof (cases "GET_BI st h = 0")
        case True
        then show ?thesis using mod_less_divisor [of BOTTOM_SZ b] by (simp add: j_def BOTTOM_SZ_def)
      next
        case False
        then have e: "b div BOTTOM_SZ = ?hi" using at_last that by metis
        have "b div BOTTOM_SZ * BOTTOM_SZ + b mod BOTTOM_SZ \<le> h div BOTTOM_SZ * BOTTOM_SZ + h mod BOTTOM_SZ"
          using le unfolding div_mult_mod_eq .
        then show ?thesis using False unfolding e j_def by (simp only: add_le_cancel_left if_False)
      qed
      ultimately show ?thesis using q(2) by (metis imageI)
    qed
  qed
  then show ?thesis
    using prev_down_ok [OF assms qs(1,3,4) split sxs(2) jB] unfolding res by simp
qed

section \<open>All blocks\<close>

lemma visit_down_eq:
  assumes "blocks_ok st" "q \<in> {0<..<length (bis st)}" "n \<le> BOTTOM_SZ" "n < k"
  shows "visit_down st (bi_index (bis st ! q)) k (int n - 1) =
    rev (filter (\<lambda>i. used st (key (bis st ! q) * BOTTOM_SZ + i)) [0..<n])"
  using assms(3,4)
proof (induction k arbitrary: n)
  case (Suc k)
  let ?b = "\<lambda>i. key (bis st ! q) * BOTTOM_SZ + i" and ?es = "bi_index (bis st ! q)"
  show ?case
  proof (cases n)
    case (Suc j)
    have j: "j < BOTTOM_SZ" "j < k" using Suc Suc.prems by simp_all
    have e: "?es ! j = HDR st (?b j)" using entry_HDR [OF blocks_okD(1) [OF assms(1)] assms(2) j(1)] .
    have n: "int n - 1 = int j" "nat (int n - 1) = j" using Suc by simp_all
    have IH: "visit_down st ?es k (int i - 1) = rev (filter (\<lambda>i. used st (?b i)) [0..<i])" if "i \<le> j" for i
      using Suc.IH [of i] that j by simp
    show ?thesis
    proof (cases "HDR st (?b j)")
      case (Hdr r)
      then show ?thesis using IH [of j] e by (simp add: used_def Suc)
    next
      case (Jump d)
      note jump = blocks_ok_jump [OF assms(1) Jump]
      have no: "\<not> used st (?b i)" if "j < i + d" "i \<le> j" for i
        using jump(3) [of "?b i"] that jump(2) used_has_hdr by fastforce
      have "filter (\<lambda>i. used st (?b i)) [j + 1 - d..<Suc j] = []"
        unfolding filter_empty_conv using no jump(1) by auto
      moreover have "[0..<Suc j] = [0..<j + 1 - d] @ [j + 1 - d..<Suc j]"
      proof -
        have "Suc j = (j + 1 - d) + (Suc j - (j + 1 - d))" by simp
        then show ?thesis by (metis le0 upt_add_eq_append)
      qed
      ultimately have f: "filter (\<lambda>i. used st (?b i)) [0..<Suc j] = filter (\<lambda>i. used st (?b i)) [0..<j + 1 - d]"
        by (metis append.right_neutral filter_append)
      have step: "visit_down st ?es (Suc k) (int n - 1) = visit_down st ?es k (int j - int d)"
        using e Jump n by simp
      have "visit_down st ?es k (int j - int d) = rev (filter (\<lambda>i. used st (?b i)) [0..<j + 1 - d])"
      proof (cases "d \<le> j + 1")
        case True
        then have eq: "int j - int d = int (j + 1 - d) - 1" by linarith
        have "j + 1 - d \<le> j" using jump(1) by linarith
        then show ?thesis unfolding eq by (rule IH)
      next
        case False
        then have "int j - int d < 0" "j + 1 - d = 0" by linarith+
        then have "visit_down st ?es k (int j - int d) = []" by (cases k) simp_all
        with \<open>j + 1 - d = 0\<close> show ?thesis by simp
      qed
      with f step Suc show ?thesis by simp
    next
      case Nil_entry
      then show ?thesis using IH [of j] e by (simp add: used_def Suc)
    qed
  qed simp
qed simp

lemma visit_all_eq:
  assumes "blocks_ok st"
  shows "seg (bis st) pr s qs None \<Longrightarrow> set qs \<subseteq> {0<..<length (bis st)} \<Longrightarrow> length qs \<le> k \<Longrightarrow>
    visit_all st k s = concat (map (\<lambda>q. map (\<lambda>j. key (bis st ! q) * BOTTOM_SZ + j)
      (rev (filter (\<lambda>i. used st (key (bis st ! q) * BOTTOM_SZ + i)) [0..<BOTTOM_SZ]))) qs)"
proof (induction qs arbitrary: pr s k)
  case Nil
  then show ?case by (cases k) simp_all
next
  case (Cons q qs)
  obtain k' where k: "k = Suc k'" using Cons.prems(3) by (cases k) auto
  have "BOTTOM_SZ < Suc BOTTOM_SZ" by simp
  moreover have "q \<in> {0<..<length (bis st)}" using Cons.prems(2) by simp
  ultimately have "visit_down st (bi_index (bis st ! q)) (Suc BOTTOM_SZ) (int BOTTOM_SZ - 1) =
      rev (filter (\<lambda>i. used st (key (bis st ! q) * BOTTOM_SZ + i)) [0..<BOTTOM_SZ])"
    using visit_down_eq [OF assms _ order_refl] by blast
  moreover have "visit_all st k' (asc_link (bis st ! q)) = concat (map (\<lambda>q. map (\<lambda>j. key (bis st ! q) * BOTTOM_SZ + j)
      (rev (filter (\<lambda>i. used st (key (bis st ! q) * BOTTOM_SZ + i)) [0..<BOTTOM_SZ]))) qs)"
    using Cons.IH [of "Some q" "asc_link (bis st ! q)" k'] Cons.prems k by simp
  ultimately show ?case using Cons.prems(1) k by (simp del: visit_down.simps)
qed

lemma visits_all:
  assumes "blocks_ok st"
  defines "bs \<equiv> visit_all st (length (bis st)) (all_bis st)"
  shows "distinct bs \<and> set bs = {b. used st b}"
proof -
  note ok = blocks_okD(1) [OF assms(1)]
  obtain qs where qs: "seg (bis st) None (all_bis st) qs None" "set qs = {0<..<length (bis st)}"
    "sorted_wrt (\<lambda>p q. key (bis st ! p) < key (bis st ! q)) qs" "length qs < length (bis st)"
    using index_list [OF ok] by metis
  let ?part = "\<lambda>q. map (\<lambda>j. key (bis st ! q) * BOTTOM_SZ + j)
      (rev (filter (\<lambda>i. used st (key (bis st ! q) * BOTTOM_SZ + i)) [0..<BOTTOM_SZ]))"
  have bs: "bs = concat (map ?part qs)"
    using visit_all_eq [OF assms(1) qs(1), of "length (bis st)"] qs(2,4) by (simp add: bs_def)
  have part: "set (?part q) = {b. used st b \<and> b div BOTTOM_SZ = key (bis st ! q)}" for q
  proof (intro set_eqI iffI)
    fix b assume "b \<in> {b. used st b \<and> b div BOTTOM_SZ = key (bis st ! q)}"
    then have b: "used st b" "b = key (bis st ! q) * BOTTOM_SZ + b mod BOTTOM_SZ" using block_split [of b] by auto
    then have "b mod BOTTOM_SZ \<in> {i. i < BOTTOM_SZ \<and> used st (key (bis st ! q) * BOTTOM_SZ + i)}" by simp
    with b(2) show "b \<in> set (?part q)" by force
  qed auto
  have dist: "distinct (?part q)" for q by (simp add: distinct_map inj_on_def)
  have "set (concat (map ?part qs')) = (\<Union>q\<in>set qs'. set (?part q))" for qs' by simp
  then have parts: "set (concat (map ?part qs')) = {b. used st b \<and> b div BOTTOM_SZ \<in> (\<lambda>q. key (bis st ! q)) ` set qs'}" for qs'
    unfolding part by auto
  have "distinct (concat (map ?part qs'))" if "sorted_wrt (\<lambda>p q. key (bis st ! p) < key (bis st ! q)) qs'" for qs'
    using that
  proof (induction qs')
    case (Cons q qs')
    have "set (?part q) \<inter> set (concat (map ?part qs')) = {}"
      using Cons.prems unfolding parts part by auto
    moreover have "distinct (concat (map ?part qs'))" using Cons by simp
    ultimately show ?case using dist [of q] by (simp only: list.map concat.simps distinct_append)
  qed simp
  moreover have "set (concat (map ?part qs)) = {b. used st b}"
    using has_hdr_key [OF ok qs(2) used_has_hdr] unfolding parts by blast
  ultimately show ?thesis using qs(3) unfolding bs by blast
qed

section \<open>The header of an object\<close>

lemma object_upto_le: "object_upto st h r b \<Longrightarrow> h \<le> c \<Longrightarrow> c \<le> b \<Longrightarrow> object_upto st h r c"
  by (simp add: object_upto_def)

lemma object_start_ok:
  assumes "blocks_ok st"
  shows "object_upto st h r b \<Longrightarrow> b - h < k \<Longrightarrow> object_start st k b = (h, Hdr r)"
proof (induction k arbitrary: b)
  case (Suc k)
  show ?case
  proof (cases "b = h")
    case True
    with Suc.prems show ?thesis by (simp add: object_upto_def)
  next
    case False
    let ?d = "min (b - h) MAX_JUMP"
    have b: "h < b" "HDR st b = Jump ?d" using Suc.prems(1) False by (simp_all add: object_upto_def)
    have d: "0 < ?d" "?d \<le> b - h" using b(1) by simp_all
    have "h \<le> b - ?d" "b - ?d \<le> b" using d(2) b(1) by simp_all
    then have "object_upto st h r (b - ?d)" by (rule object_upto_le [OF Suc.prems(1)])
    moreover have "b - x - h < k" if "0 < x" for x using that b(1) Suc.prems(2) by linarith
    then have "b - ?d - h < k" using d(1) by blast
    ultimately have "object_upto st h r (b - ?d)" "b - ?d - h < k" .
    then show ?thesis using Suc.IH [of "b - ?d"] b(2) by simp
  qed
qed simp

text \<open>The answer for an address in block \<open>b\<close> of the object of \<open>h\<close>.\<close>

lemma header_cache_miss_object:
  assumes "blocks_ok st" "object_upto st h r (p div HBLKSIZE)"
  shows "GC_header_cache_miss ai st p =
    (if is_free st r then
       \<lparr>cr_hdr = None, cr_blacklist = h = p div HBLKSIZE \<or> ai \<and> \<not> hb_ignore_off_page (hdrs st ! r), cr_cached = False\<rparr>
     else if h = p div HBLKSIZE then \<lparr>cr_hdr = Some r, cr_blacklist = False, cr_cached = True\<rparr>
     else if \<not> ai \<or> hb_ignore_off_page (hdrs st ! r) then \<lparr>cr_hdr = None, cr_blacklist = False, cr_cached = False\<rparr>
     else if hb_sz (hdrs st ! r) \<le> p - h * HBLKSIZE then \<lparr>cr_hdr = None, cr_blacklist = True, cr_cached = False\<rparr>
     else \<lparr>cr_hdr = Some r, cr_blacklist = False, cr_cached = False\<rparr>)"
proof (cases "h = p div HBLKSIZE")
  case True
  with assms(2) show ?thesis by (simp add: object_upto_def GC_header_cache_miss_def Let_def)
next
  case False
  let ?b = "p div HBLKSIZE" and ?d = "min (p div HBLKSIZE - h) MAX_JUMP"
  have b: "h < ?b" "HDR st ?b = Jump ?d" using assms(2) False by (simp_all add: object_upto_def)
  have d: "0 < ?d" "?d \<le> ?b - h" using b(1) by simp_all
  have le: "h \<le> ?b - ?d" "?b - ?d \<le> ?b" using d(2) b(1) by simp_all
  have "object_upto st h r (?b - ?d)" using le by (rule object_upto_le [OF assms(2)])
  moreover have "?b - ?d - h < ?b" using d(1) b(1) by simp
  ultimately have "object_upto st h r (?b - ?d)" "?b - ?d - h < ?b" .
  then have "object_start st ?b (?b - ?d) = (h, Hdr r)" using object_start_ok [OF assms(1)] by blast
  with b False show ?thesis by (simp add: GC_header_cache_miss_def Let_def)
qed

text \<open>Every block with an entry belongs to such an object.\<close>

lemma object_of:
  assumes "blocks_ok st" "HDR st b \<noteq> Nil_entry"
  obtains h r where "object_upto st h r b"
proof (cases "HDR st b")
  case (Hdr r)
  then have "object_upto st b r b" by (auto simp: object_upto_def)
  then show ?thesis by (rule that)
next
  case (Jump d)
  with assms(1) that show ?thesis unfolding blocks_ok_def by blast
qed (use assms(2) in simp)

section \<open>The cache\<close>

definition cache_ok :: "'a headers_scheme \<Rightarrow> hdr_cache_entry list \<Rightarrow> bool" where
  "cache_ok st cache \<longleftrightarrow> length cache = HDR_CACHE_SIZE \<and>
     (\<forall>e\<in>set cache. block_addr e \<noteq> 0 \<longrightarrow> (\<exists>r. hce_hdr e = Some r \<and> HDR st (block_addr e) = Hdr r \<and> \<not> is_free st r))"

lemma INIT_HDR_CACHE_ok: "cache_ok st INIT_HDR_CACHE"
  by (simp add: cache_ok_def INIT_HDR_CACHE_def)

lemma cache_miss_cached:
  "cr_cached (GC_header_cache_miss ai st p) \<Longrightarrow>
    \<exists>r. cr_hdr (GC_header_cache_miss ai st p) = Some r \<and> HDR st (p div HBLKSIZE) = Hdr r \<and> \<not> is_free st r"
  by (auto simp: GC_header_cache_miss_def Let_def split: entry.splits prod.splits if_splits)

text \<open>With a coherent cache the answer is that of the miss function; block 0 is never asked for.\<close>

lemma HC_GET_HDR_ok:
  assumes "cache_ok st cache" "HBLKSIZE \<le> p" "HC_GET_HDR ai st cache p = (res, bl, cache')"
  shows "res = cr_hdr (GC_header_cache_miss ai st p) \<and> bl = cr_blacklist (GC_header_cache_miss ai st p) \<and> cache_ok st cache'"
proof -
  let ?b = "p div HBLKSIZE" and ?i = "p div HBLKSIZE mod HDR_CACHE_SIZE"
  have i: "?i < length cache" using assms(1) by (simp add: cache_ok_def HDR_CACHE_SIZE_def)
  have b: "?b \<noteq> 0" using assms(2) by (simp add: div_greater_zero_iff)
  show ?thesis
  proof (cases "block_addr (cache ! ?i) = ?b")
    case True
    then obtain r where "hce_hdr (cache ! ?i) = Some r" "HDR st ?b = Hdr r" "\<not> is_free st r"
      using assms(1) b nth_mem [OF i] unfolding cache_ok_def by metis
    with True assms show ?thesis by (auto simp: HC_GET_HDR_def Let_def GC_header_cache_miss_def)
  next
    case False
    have "cache_ok st (cache[?i := \<lparr>block_addr = ?b, hce_hdr = cr_hdr (GC_header_cache_miss ai st p)\<rparr>])"
      if "cr_cached (GC_header_cache_miss ai st p)"
      unfolding cache_ok_def
    proof (intro conjI ballI impI)
      fix e assume "e \<in> set (cache[?i := \<lparr>block_addr = ?b, hce_hdr = cr_hdr (GC_header_cache_miss ai st p)\<rparr>])" "block_addr e \<noteq> 0"
      then show "\<exists>r. hce_hdr e = Some r \<and> HDR st (block_addr e) = Hdr r \<and> \<not> is_free st r"
        using assms(1) cache_miss_cached [OF that] set_update_subset_insert [of cache ?i] unfolding cache_ok_def by fastforce
    qed (use assms(1) in \<open>simp add: cache_ok_def\<close>)
    with False assms show ?thesis by (auto simp: HC_GET_HDR_def Let_def)
  qed
qed

end
