(* ===== verification/GC_Properties.thy ===== *)
theory GC_Properties
  imports GC_Search
begin

text \<open>
  The properties of the collector's map from heap blocks to their headers, each with its
  statement in words and an instance at a concrete state.
\<close>

section \<open>A state after initialisation\<close>

lemma init_index_ok:
  assumes "bis st = [nil_bi]" "top_index st = replicate TOP_SZ 0" "all_bis st = None" "all_bis_end st = None"
  shows "index_ok st" "HDR st b = Nil_entry"
proof -
  have e: "{0<..<length (bis st)} = {}" by (auto simp: assms(1))
  have "\<exists>qs. seg (bis st) None (all_bis st) qs None \<and> all_bis_end st = last_opt None qs \<and>
      set qs = {} \<and> sorted_wrt (\<lambda>p q. key (bis st ! p) < key (bis st ! q)) qs"
    by (rule exI [of _ "[]"]) (simp add: assms)
  moreover have "bi_index (bis st ! 0) = replicate BOTTOM_SZ Nil_entry" by (simp add: assms nil_bi_def)
  ultimately show ok: "index_ok st" unfolding index_ok_def e by (auto simp: assms(1,2))
  have "GET_BI st b = 0" using GET_BI_less [OF ok, of b] by (simp add: assms)
  then show "HDR st b = Nil_entry" by (simp add: HDR_def assms nil_bi_def)
qed

lemma GC_init_headers_ok:
  assumes "GC_init_headers st = (ok, st')" "all_bis st = None" "all_bis_end st = None" "hdr_free_list st = []"
  shows "map_ok st' \<and> (\<forall>b. HDR st' b = Nil_entry)"
proof -
  obtain p st1 where s: "GC_scratch_alloc SIZEOF_BI st = (p, st1)" by fastforce
  then have same: "same_index st1 st" using scratch_alloc_same [of SIZEOF_BI st] by simp
  have st': "st' = st1\<lparr>bis := [nil_bi], top_index := replicate TOP_SZ 0\<rparr>"
    using assms(1) s by (simp add: GC_init_headers_def)
  then have b: "bis st' = [nil_bi]" "top_index st' = replicate TOP_SZ 0" "all_bis st' = None" "all_bis_end st' = None"
    "hdr_free_list st' = []"
    using same assms(2-4) by (simp_all add: same_index_def)
  show ?thesis using init_index_ok [OF b(1-4)] b(5) by (simp add: map_ok_def hdrs_ok_def)
qed

definition start_state :: "unit headers_scheme" where
  "start_state = \<lparr>bis = [nil_bi], top_index = replicate TOP_SZ 0, all_bis = None, all_bis_end = None,
     hdrs = [], hdr_free_list = [], scratch_free = 2 ^ 20, scratch_end = 2 ^ 30, scratch_last_end = 2 ^ 30, os_mem = []\<rparr>"

lemma start_state_ok: "map_ok start_state" "HDR start_state b = Nil_entry"
  using init_index_ok [of start_state] by (simp_all add: start_state_def map_ok_def hdrs_ok_def)

lemma scratch_alloc_room:
  "scratch_free st + (n + (GRANULE_BYTES - 1)) div GRANULE_BYTES * GRANULE_BYTES \<le> scratch_end st \<Longrightarrow>
    GC_scratch_alloc n st = (scratch_free st, st\<lparr>scratch_free := scratch_free st + (n + (GRANULE_BYTES - 1)) div GRANULE_BYTES * GRANULE_BYTES\<rparr>)"
  by (subst GC_scratch_alloc.simps) (simp add: Let_def)

section \<open>Properties\<close>

text \<open>
  C22: \<open>GC_install_header\<close> and \<open>GC_install_counts\<close> for a large object of \<open>n\<close> blocks give its
  first block a header that no other block has and the other blocks forwarding counts, and
  change the entry of no other block; \<open>GC_remove_counts\<close> and \<open>GC_remove_header\<close> undo that.
\<close>

theorem header_install_remove:
  assumes "map_ok st" "0 < n" "\<forall>b. h \<le> b \<and> b < h + n \<longrightarrow> HDR st b = Nil_entry"
    "GC_install_header h st = (Some r, st1)" "GC_install_counts h n st1 = (True, st2)"
  shows "map_ok st2 \<and> (\<forall>b. HDR st b \<noteq> Hdr r) \<and>
    HDR st2 = (\<lambda>b. if b = h then Hdr r else if h < b \<and> b < h + n then Jump (min (b - h) MAX_JUMP) else HDR st b) \<and>
    (\<exists>st3. GC_remove_header h (GC_remove_counts h n st2) = Inr st3 \<and> map_ok st3 \<and> HDR st3 = HDR st)"
proof -
  note I = GC_install_header_ok [OF assms(1,4)]
  note C = GC_install_counts_ok [OF I(1) assms(2,5)]
  have H: "HDR st2 = (\<lambda>b. if b = h then Hdr r else if h < b \<and> b < h + n then Jump (min (b - h) MAX_JUMP) else HDR st b)"
    using C(3) I(3) by (auto simp: fun_eq_iff)
  have range: "\<forall>b. h < b \<and> b < h + n \<longrightarrow> indexed st2 b" using C(4) by simp
  note R = GC_remove_counts_ok [OF C(1) range]
  have Rh: "HDR (GC_remove_counts h n st2) h = Hdr r" using R(3) H by simp
  obtain st3 where st3: "GC_remove_header h (GC_remove_counts h n st2) = Inr st3" "map_ok st3"
    "HDR st3 = (HDR (GC_remove_counts h n st2))(h := Nil_entry)"
    using GC_remove_header_ok [OF R(1) Rh] by blast
  have "HDR st3 = HDR st" using R(3) H assms(3) assms(2) unfolding st3(3) by (auto simp: fun_eq_iff)
  then show ?thesis using C(1) I(4) H st3(1,2) by simp
qed

text \<open>An object of three blocks, starting at block 5.\<close>

lemma get_index_room:
  assumes "scratch_free st + 8224 \<le> scratch_end st" "0 < scratch_free st"
  shows "\<exists>st'. get_index blk st = (True, st') \<and> scratch_free st' \<le> scratch_free st + 8224 \<and> 0 < scratch_free st' \<and>
    scratch_end st' = scratch_end st \<and> hdrs st' = hdrs st \<and> hdr_free_list st' = hdr_free_list st"
proof -
  have n: "(SIZEOF_BI + (GRANULE_BYTES - 1)) div GRANULE_BYTES * GRANULE_BYTES = 8224"
    by (simp add: SIZEOF_BI_def BOTTOM_SZ_def GRANULE_BYTES_def)
  have g: "GC_scratch_alloc SIZEOF_BI st = (scratch_free st, st\<lparr>scratch_free := scratch_free st + 8224\<rparr>)"
    using scratch_alloc_room [of st SIZEOF_BI] assms(1) unfolding n by simp
  have link: "scratch_free (link_bi r hi s) = scratch_free s" "scratch_end (link_bi r hi s) = scratch_end s"
    "hdrs (link_bi r hi s) = hdrs s" "hdr_free_list (link_bi r hi s) = hdr_free_list s" for r hi and s :: "'a headers_scheme"
    by (simp_all add: link_bi_def upd_bi_def Let_def split: prod.splits option.splits)
  show ?thesis unfolding get_index_eq [OF g] using assms(2) by (simp add: link with_bi_def Let_def)
qed

lemma SET_HDR_scratch [simp]:
  "scratch_free (SET_HDR b e st) = scratch_free st" "scratch_end (SET_HDR b e st) = scratch_end st"
  by (simp_all add: SET_HDR_def upd_bi_def)

lemma set_jumps_hdrs: "hdrs (set_jumps h bs st) = hdrs st"
  by (induction bs arbitrary: st) (simp_all add: Let_def)

lemma start_install:
  "\<exists>st1 st2. GC_install_header 5 start_state = (Some 0, st1) \<and> GC_install_counts 5 3 st1 = (True, st2) \<and> hdrs st2 = [fresh_hdr]"
proof -
  obtain s1 where s1: "get_index 5 start_state = (True, s1)" "scratch_free s1 \<le> 2 ^ 20 + 8224" "0 < scratch_free s1"
    "scratch_end s1 = 2 ^ 30" "hdrs s1 = []" "hdr_free_list s1 = []"
    using get_index_room [of start_state 5] by (auto simp: start_state_def)
  have n: "(SIZEOF_HDR + (GRANULE_BYTES - 1)) div GRANULE_BYTES * GRANULE_BYTES = 112"
    by (simp add: SIZEOF_HDR_def GRANULE_BYTES_def)
  have "GC_scratch_alloc SIZEOF_HDR s1 = (scratch_free s1, s1\<lparr>scratch_free := scratch_free s1 + 112\<rparr>)"
    using scratch_alloc_room [of s1 SIZEOF_HDR] s1(2,4) unfolding n by simp
  then have "alloc_hdr s1 = (Some 0, s1\<lparr>scratch_free := scratch_free s1 + 112, hdrs := [fresh_hdr]\<rparr>)"
    using s1(3,5,6) by (simp add: alloc_hdr_def)
  then obtain st1 where st1: "GC_install_header 5 start_state = (Some 0, st1)" "hdrs st1 = [fresh_hdr]"
    "scratch_free st1 \<le> 2 ^ 20 + 8336" "0 < scratch_free st1" "scratch_end st1 = 2 ^ 30"
    using s1 by (simp add: GC_install_header_def)
  obtain s2 where s2: "get_index 5 st1 = (True, s2)" "scratch_free s2 \<le> 2 ^ 20 + 16560" "0 < scratch_free s2"
    "scratch_end s2 = 2 ^ 30" "hdrs s2 = [fresh_hdr]"
    using get_index_room [of st1 5] st1 by auto
  have "get_indices 5 8 st1 = (True, s2)"
    using s2(1) by (simp add: get_indices.simps [of 5] get_indices.simps [of "5 + BOTTOM_SZ"] BOTTOM_SZ_def)
  moreover obtain s3 where "get_index 7 s2 = (True, s3)" "hdrs s3 = [fresh_hdr]"
    using get_index_room [of s2 7] s2 by auto
  ultimately have "GC_install_counts 5 3 st1 = (True, set_jumps 5 [Suc 5..<5 + 3] s3) \<and> hdrs (set_jumps 5 [Suc 5..<5 + 3] s3) = [fresh_hdr]"
    by (simp add: GC_install_counts_def set_jumps_hdrs del: upt_Suc)
  with st1(1) show ?thesis by blast
qed

lemma header_install_remove_witness:
  "\<exists>st1 st2. GC_install_header 5 start_state = (Some 0, st1) \<and> GC_install_counts 5 3 st1 = (True, st2) \<and>
    HDR st2 5 = Hdr 0 \<and> HDR st2 7 = Jump 2 \<and> HDR st2 8 = Nil_entry"
proof -
  obtain st1 st2 where st: "GC_install_header 5 start_state = (Some 0, st1)" "GC_install_counts 5 3 st1 = (True, st2)"
    using start_install by blast
  have "HDR st2 = (\<lambda>b. if b = 5 then Hdr 0 else if 5 < b \<and> b < 5 + 3 then Jump (min (b - 5) MAX_JUMP) else HDR start_state b)"
    using header_install_remove [OF start_state_ok(1) _ _ st] start_state_ok(2) by simp
  with st show ?thesis by (simp add: start_state_ok MAX_JUMP_def HBLKSIZE_def)
qed

text \<open>A state with that object in use, for the searches below.\<close>

definition three_blocks :: "unit headers_scheme \<Rightarrow> bool" where
  "three_blocks st \<longleftrightarrow> blocks_ok st \<and> hdrs st = [fresh_hdr\<lparr>hb_sz := 3 * HBLKSIZE\<rparr>] \<and>
     HDR st = (\<lambda>b. if b = 5 then Hdr 0 else if b = 6 then Jump 1 else if b = 7 then Jump 2 else Nil_entry)"

lemma three_blocks_exists: "\<exists>st. three_blocks st"
proof -
  obtain st1 st2 where st: "GC_install_header 5 start_state = (Some 0, st1)" "GC_install_counts 5 3 st1 = (True, st2)"
    "hdrs st2 = [fresh_hdr]"
    using start_install by blast
  note I = GC_install_header_ok [OF start_state_ok(1) st(1)]
  note C = GC_install_counts_ok [OF I(1) _ st(2)]
  let ?st = "st2\<lparr>hdrs := [fresh_hdr\<lparr>hb_sz := 3 * HBLKSIZE\<rparr>]\<rparr>"
  have "HDR st2 b = (if b = 5 then Hdr 0 else if 5 < b \<and> b < 5 + 3 then Jump (min (b - 5) MAX_JUMP) else Nil_entry)" for b
    using C(3) I(3) start_state_ok(2) by simp
  then have H: "HDR st2 = (\<lambda>b. if b = 5 then Hdr 0 else if b = 6 then Jump 1 else if b = 7 then Jump 2 else Nil_entry)"
    by (auto simp: fun_eq_iff MAX_JUMP_def HBLKSIZE_def)
  have "map_ok st2" using C(1) by simp
  then have "map_ok ?st" using st(3) by (simp add: map_ok_def hdrs_ok_def)
  moreover have upto: "object_upto ?st 5 0 b" if "b = 6 \<or> b = 7" for b
    using that by (auto simp: object_upto_def H MAX_JUMP_def HBLKSIZE_def)
  moreover have "\<exists>h r. h < b \<and> object_upto ?st h r b" if "HDR ?st b = Jump d" for b d
  proof -
    have "b = 6 \<or> b = 7" using that by (simp add: H split: if_splits)
    then have "5 < b \<and> object_upto ?st 5 0 b" using upto by auto
    then show ?thesis by blast
  qed
  moreover have "r = 0 \<and> \<not> is_free ?st r" if "HDR ?st b = Hdr r" for b r
    using that by (simp add: H is_free_def fresh_hdr_def split: if_splits)
  ultimately have "blocks_ok ?st" unfolding blocks_ok_def by blast
  moreover have "HDR ?st = HDR st2" by (simp add: fun_eq_iff)
  ultimately have "three_blocks ?st" using H by (simp add: three_blocks_def)
  then show ?thesis by blast
qed

lemma three_blocks_used: "three_blocks st \<Longrightarrow> {b. used st b} = {5} \<and> {b. has_hdr st b} = {5}"
  by (auto simp: three_blocks_def used_def has_hdr_def is_free_def fresh_hdr_def split: if_splits)

text \<open>
  C23: \<open>GC_next_used_block\<close> returns the first block in use at or after \<open>h\<close>, and nothing when
  there is none, whatever bottom indices the search crosses.
\<close>

theorem next_used_block_is_first:
  assumes "blocks_ok st"
  shows "case GC_next_used_block st h of
      Some b \<Rightarrow> used st b \<and> h \<le> b \<and> (\<forall>c. h \<le> c \<and> c < b \<longrightarrow> \<not> used st c)
    | None \<Rightarrow> \<forall>c. h \<le> c \<longrightarrow> \<not> used st c"
  using next_used_block_first [OF assms, of h] by (auto simp: first_of_def leD split: option.splits)

lemma next_used_block_is_first_witness:
  "\<exists>st. three_blocks st \<and> GC_next_used_block st 2 = Some 5 \<and> GC_next_used_block st 6 = None"
proof -
  obtain st where st: "three_blocks st" using three_blocks_exists by blast
  then have ok: "blocks_ok st" by (simp add: three_blocks_def)
  have u: "used st b \<longleftrightarrow> b = 5" for b using three_blocks_used [OF st] by blast
  have "GC_next_used_block st 2 = Some 5"
    using next_used_block_is_first [OF ok, of 2] by (cases "GC_next_used_block st 2") (auto simp: u dest: spec [of _ 5])
  moreover have "GC_next_used_block st 6 = None"
    using next_used_block_is_first [OF ok, of 6] by (cases "GC_next_used_block st 6") (auto simp: u)
  ultimately show ?thesis using st by blast
qed

text \<open>
  C24: \<open>GC_prev_block\<close> returns the last block with a header, in use or free, at or before
  \<open>h\<close>, following the forwarding counts of large objects.
\<close>

theorem prev_block_is_last:
  assumes "blocks_ok st"
  shows "case GC_prev_block st h of
      Some b \<Rightarrow> has_hdr st b \<and> b \<le> h \<and> (\<forall>c. b < c \<and> c \<le> h \<longrightarrow> \<not> has_hdr st c)
    | None \<Rightarrow> \<forall>c. c \<le> h \<longrightarrow> \<not> has_hdr st c"
  using prev_block_last [OF assms, of h] by (auto simp: last_of_def leD split: option.splits)

lemma prev_block_is_last_witness:
  "\<exists>st. three_blocks st \<and> GC_prev_block st 7 = Some 5 \<and> GC_prev_block st 4 = None"
proof -
  obtain st where st: "three_blocks st" using three_blocks_exists by blast
  then have ok: "blocks_ok st" by (simp add: three_blocks_def)
  have u: "has_hdr st b \<longleftrightarrow> b = 5" for b using three_blocks_used [OF st] by blast
  have "GC_prev_block st 7 = Some 5"
    using prev_block_is_last [OF ok, of 7] by (cases "GC_prev_block st 7") (auto simp: u dest: spec [of _ 5])
  moreover have "GC_prev_block st 4 = None"
    using prev_block_is_last [OF ok, of 4] by (cases "GC_prev_block st 4") (auto simp: u)
  ultimately show ?thesis using st by blast
qed

text \<open>
  C25: \<open>GC_apply_to_all_blocks\<close> calls its function on every block in use exactly once, and
  on no other.
\<close>

theorem apply_to_all_blocks_once:
  assumes "blocks_ok st"
  shows "\<exists>bs. distinct bs \<and> set bs = {b. used st b} \<and> (\<forall>f (s :: 's). GC_apply_to_all_blocks f st s = fold f bs s)"
  using visits_all [OF assms] by (auto simp: GC_apply_to_all_blocks_def)

lemma apply_to_all_blocks_once_witness:
  "\<exists>st. three_blocks st \<and> GC_apply_to_all_blocks (\<lambda>b s. s + b) st (0 :: nat) = 5"
proof -
  obtain st where st: "three_blocks st" using three_blocks_exists by blast
  then have ok: "blocks_ok st" by (simp add: three_blocks_def)
  obtain bs where bs: "distinct bs" "set bs = {5}" "\<forall>f (s :: nat). GC_apply_to_all_blocks f st s = fold f bs s"
    using apply_to_all_blocks_once [OF ok, where ?'s = nat] three_blocks_used [OF st] by auto
  have "length bs = 1" using distinct_card [OF bs(1)] bs(2) by simp
  then have "bs = [5]" using bs(2) by (cases bs) auto
  with st bs(3) show ?thesis by auto
qed

text \<open>
  C26: for an address in an object, the lookup of the marker, through its cache or not, returns
  the header of the object if the object is in use and the address lies in its first block or,
  with interior pointers recognised and the object not exempt from them, before its end; it
  returns nothing otherwise, and it leaves the cache coherent.
\<close>

theorem marker_header_lookup:
  assumes "blocks_ok st" "cache_ok st cache" "HBLKSIZE \<le> p" "object_upto st h r (p div HBLKSIZE)"
    "HC_GET_HDR ai st cache p = (res, bl, cache')"
  shows "cache_ok st cache' \<and>
    res = (if \<not> is_free st r \<and> (h = p div HBLKSIZE \<or>
        ai \<and> \<not> hb_ignore_off_page (hdrs st ! r) \<and> p - h * HBLKSIZE < hb_sz (hdrs st ! r)) then Some r else None)"
  using HC_GET_HDR_ok [OF assms(2,3,5)] header_cache_miss_object [OF assms(1,4), of ai] by auto

lemma marker_header_lookup_witness:
  "\<exists>st. three_blocks st \<and> fst (HC_GET_HDR True st INIT_HDR_CACHE (7 * HBLKSIZE + 16)) = Some 0 \<and>
    fst (HC_GET_HDR False st INIT_HDR_CACHE (7 * HBLKSIZE + 16)) = None"
proof -
  obtain st where st: "three_blocks st" using three_blocks_exists by blast
  then have ok: "blocks_ok st" by (simp add: three_blocks_def)
  have d: "(7 * HBLKSIZE + 16) div HBLKSIZE = 7" by (simp add: HBLKSIZE_def)
  have o: "object_upto st 5 0 ((7 * HBLKSIZE + 16) div HBLKSIZE)"
    unfolding d using st by (auto simp: object_upto_def three_blocks_def MAX_JUMP_def HBLKSIZE_def)
  have le: "HBLKSIZE \<le> 7 * HBLKSIZE + 16" by simp
  have "fst (HC_GET_HDR ai st INIT_HDR_CACHE (7 * HBLKSIZE + 16)) = (if ai then Some 0 else None)" for ai
  proof -
    obtain res bl c where g: "HC_GET_HDR ai st INIT_HDR_CACHE (7 * HBLKSIZE + 16) = (res, bl, c)" by (cases "HC_GET_HDR ai st INIT_HDR_CACHE (7 * HBLKSIZE + 16)") auto
    from marker_header_lookup [OF ok INIT_HDR_CACHE_ok le o g] st show ?thesis
      unfolding g d by (simp add: three_blocks_def is_free_def fresh_hdr_def HBLKSIZE_def)
  qed
  with st show ?thesis by auto
qed

end
