(* ===== verification/GC_Blacklist.thy ===== *)
theory GC_Blacklist
  imports GC_Search
begin

text \<open>
  Black lists (\<^verbatim>\<open>libs/gc/blacklst.c\<close>): the hash tables of the pages that false references have
  pointed to, which the block allocator avoids. A table is an array of 64-bit words with one
  bit for each page number modulo \<open>PHT_ENTRIES\<close>; a null pointer to a table is \<open>None\<close>.
\<close>

section \<open>Page hash tables\<close>

definition WORDSZ :: nat where "WORDSZ = 64"
definition PHT_ENTRIES :: nat where "PHT_ENTRIES = 2 ^ 18"
definition PHT_SIZE :: nat where "PHT_SIZE = PHT_ENTRIES div WORDSZ"
definition MAXHINCR :: nat where "MAXHINCR = 2048"

type_synonym page_hash_table = "64 word list"

definition PHT_HASH :: "nat \<Rightarrow> nat" where
  "PHT_HASH addr = addr div HBLKSIZE mod PHT_ENTRIES"

definition get_pht_entry_from_index :: "page_hash_table \<Rightarrow> nat \<Rightarrow> bool" where
  "get_pht_entry_from_index bl i = bit (bl ! (i div WORDSZ)) (i mod WORDSZ)"

definition set_pht_entry_from_index :: "page_hash_table \<Rightarrow> nat \<Rightarrow> page_hash_table" where
  "set_pht_entry_from_index bl i =
     bl[i div WORDSZ := or (bl ! (i div WORDSZ)) (push_bit (i mod WORDSZ) 1)]"

record heap_sect =
  hs_start :: nat
  hs_bytes :: nat

record black_lists = headers +
  GC_old_normal_bl :: "page_hash_table option"
  GC_incomplete_normal_bl :: "page_hash_table option"
  GC_old_stack_bl :: "page_hash_table option"
  GC_incomplete_stack_bl :: "page_hash_table option"
  GC_total_stack_black_listed :: nat
  GC_black_list_spacing :: nat
  GC_all_interior_pointers :: bool
  GC_modws_valid_offsets :: "bool list"
  GC_heapsize :: nat
  GC_heap_sects :: "heap_sect list"

definition deref_bl :: "page_hash_table option \<Rightarrow> page_hash_table res" where
  "deref_bl p = (case p of None \<Rightarrow> Inl NullDeref | Some t \<Rightarrow> Inr t)"

definition GC_clear_bl :: "page_hash_table option \<Rightarrow> page_hash_table option res" where
  "GC_clear_bl p = rbind (deref_bl p) (\<lambda>_. Inr (Some (replicate PHT_SIZE 0)))"

text \<open>The new contents of the second table.\<close>

definition GC_copy_bl :: "page_hash_table option \<Rightarrow> page_hash_table option \<Rightarrow> page_hash_table option res" where
  "GC_copy_bl old_bl new_bl = rbind (deref_bl new_bl) (\<lambda>_. rbind (deref_bl old_bl) (\<lambda>t. Inr (Some t)))"

section \<open>Initialisation\<close>

text \<open>A cleared table in scratch memory, if there is memory for it.\<close>

definition new_bl :: "'a black_lists_scheme \<Rightarrow> page_hash_table option \<times> 'a black_lists_scheme" where
  "new_bl st =
     (let (p, st) = GC_scratch_alloc (8 * PHT_SIZE) st
      in (if p = 0 then None else Some (replicate PHT_SIZE 0), st))"

definition GC_bl_init_no_interiors :: "'a black_lists_scheme \<Rightarrow> 'a black_lists_scheme res" where
  "GC_bl_init_no_interiors st =
     (if GC_incomplete_normal_bl st = None then
        let (p, st) = new_bl st; st = st\<lparr>GC_old_normal_bl := p\<rparr>;
            (q, st) = new_bl st; st = st\<lparr>GC_incomplete_normal_bl := q\<rparr>
        in if p = None \<or> q = None then Inl (Abort ''Insufficient memory for black list'') else Inr st
      else Inr st)"

definition GC_bl_init :: "'a black_lists_scheme \<Rightarrow> 'a black_lists_scheme res" where
  "GC_bl_init st =
     rbind (if \<not> GC_all_interior_pointers st then GC_bl_init_no_interiors st else Inr st) (\<lambda>st.
       let (p, st) = new_bl st; st = st\<lparr>GC_old_stack_bl := p\<rparr>;
           (q, st) = new_bl st; st = st\<lparr>GC_incomplete_stack_bl := q\<rparr>
       in if p = None \<or> q = None then Inl (Abort ''Insufficient memory for black list'') else Inr st)"

section \<open>The end of a collection\<close>

text \<open>Blocks from \<open>h\<close> on, \<open>n\<close> of them, with a bit in the old stack table.\<close>

fun count_bl :: "page_hash_table \<Rightarrow> nat \<Rightarrow> nat \<Rightarrow> nat" where
  "count_bl bl h 0 = 0"
| "count_bl bl h (Suc n) =
     (if get_pht_entry_from_index bl (PHT_HASH (h * HBLKSIZE)) then 1 else 0) + count_bl bl (Suc h) n"

definition GC_number_stack_black_listed :: "'a black_lists_scheme \<Rightarrow> nat \<Rightarrow> nat \<Rightarrow> nat res" where
  "GC_number_stack_black_listed st start endp1 =
     (if start < endp1 then rbind (deref_bl (GC_old_stack_bl st)) (\<lambda>bl. Inr (count_bl bl start (endp1 - start)))
      else Inr 0)"

fun sum_sects :: "'a black_lists_scheme \<Rightarrow> heap_sect list \<Rightarrow> nat res" where
  "sum_sects st [] = Inr 0"
| "sum_sects st (s # ss) =
     rbind (GC_number_stack_black_listed st (hs_start s div HBLKSIZE) (hs_start s div HBLKSIZE + hs_bytes s div HBLKSIZE))
       (\<lambda>n. rbind (sum_sects st ss) (\<lambda>m. Inr (n + m)))"

definition total_stack_black_listed :: "'a black_lists_scheme \<Rightarrow> nat res" where
  "total_stack_black_listed st = rbind (sum_sects st (GC_heap_sects st)) (\<lambda>n. Inr (n * HBLKSIZE))"

definition black_list_spacing :: "nat \<Rightarrow> nat \<Rightarrow> nat \<Rightarrow> nat" where
  "black_list_spacing heapsize listed spacing =
     (let s = (if listed \<noteq> 0 then HBLKSIZE * (heapsize div listed) else spacing);
          s = (if s < 3 * HBLKSIZE then 3 * HBLKSIZE else s)
      in if s > MAXHINCR * HBLKSIZE then MAXHINCR * HBLKSIZE else s)"

definition GC_promote_black_lists :: "'a black_lists_scheme \<Rightarrow> 'a black_lists_scheme res" where
  "GC_promote_black_lists st =
     (let very_old_normal_bl = GC_old_normal_bl st; very_old_stack_bl = GC_old_stack_bl st;
          st = st\<lparr>GC_old_normal_bl := GC_incomplete_normal_bl st, GC_old_stack_bl := GC_incomplete_stack_bl st\<rparr>
      in rbind (if \<not> GC_all_interior_pointers st then GC_clear_bl very_old_normal_bl else Inr very_old_normal_bl) (\<lambda>n.
         rbind (GC_clear_bl very_old_stack_bl) (\<lambda>s.
         let st = st\<lparr>GC_incomplete_normal_bl := n, GC_incomplete_stack_bl := s\<rparr>
         in rbind (total_stack_black_listed st) (\<lambda>listed.
            Inr (st\<lparr>GC_total_stack_black_listed := listed,
                   GC_black_list_spacing := black_list_spacing (GC_heapsize st) listed (GC_black_list_spacing st)\<rparr>)))))"

definition GC_unpromote_black_lists :: "'a black_lists_scheme \<Rightarrow> 'a black_lists_scheme res" where
  "GC_unpromote_black_lists st =
     rbind (if \<not> GC_all_interior_pointers st then GC_copy_bl (GC_old_normal_bl st) (GC_incomplete_normal_bl st)
            else Inr (GC_incomplete_normal_bl st)) (\<lambda>n.
     rbind (GC_copy_bl (GC_old_stack_bl st) (GC_incomplete_stack_bl st)) (\<lambda>s.
     Inr (st\<lparr>GC_incomplete_normal_bl := n, GC_incomplete_stack_bl := s\<rparr>)))"

section \<open>Adding a page\<close>

definition GC_add_to_black_list_normal :: "nat \<Rightarrow> 'a black_lists_scheme \<Rightarrow> 'a black_lists_scheme res" where
  "GC_add_to_black_list_normal p st =
     (if GC_modws_valid_offsets st ! (p mod 8) then
        let index = PHT_HASH p
        in rbind (if HDR st (p div HBLKSIZE) = Nil_entry then Inr True
                  else rbind (deref_bl (GC_old_normal_bl st)) (\<lambda>bl. Inr (get_pht_entry_from_index bl index)))
             (\<lambda>add. if add then
                rbind (deref_bl (GC_incomplete_normal_bl st)) (\<lambda>bl.
                  Inr (st\<lparr>GC_incomplete_normal_bl := Some (set_pht_entry_from_index bl index)\<rparr>))
              else Inr st)
      else Inr st)"

definition GC_add_to_black_list_stack :: "nat \<Rightarrow> 'a black_lists_scheme \<Rightarrow> 'a black_lists_scheme res" where
  "GC_add_to_black_list_stack p st =
     (let index = PHT_HASH p
      in rbind (if HDR st (p div HBLKSIZE) = Nil_entry then Inr True
                else rbind (deref_bl (GC_old_stack_bl st)) (\<lambda>bl. Inr (get_pht_entry_from_index bl index)))
           (\<lambda>add. if add then
              rbind (deref_bl (GC_incomplete_stack_bl st)) (\<lambda>bl.
                Inr (st\<lparr>GC_incomplete_stack_bl := Some (set_pht_entry_from_index bl index)\<rparr>))
            else Inr st))"

section \<open>Asking\<close>

text \<open>
  The pages \<open>h + i, h + i + 1, \<dots>\<close> below \<open>h + n\<close> (the first in any case), a word of 64 entries
  at a time where both tables are zero.
\<close>

function bl_scan :: "page_hash_table \<Rightarrow> page_hash_table \<Rightarrow> nat \<Rightarrow> nat \<Rightarrow> nat \<Rightarrow> nat option" where
  "bl_scan old inc h nblocks i =
     (let index = PHT_HASH ((h + i) * HBLKSIZE)
      in if old ! (index div WORDSZ) = 0 \<and> inc ! (index div WORDSZ) = 0 then
           let i = i + (WORDSZ - index mod WORDSZ)
           in if i \<ge> nblocks then None else bl_scan old inc h nblocks i
         else if get_pht_entry_from_index old index \<or> get_pht_entry_from_index inc index then Some (h + i + 1)
         else let i = i + 1 in if i \<ge> nblocks then None else bl_scan old inc h nblocks i)"
  by pat_completeness auto
termination
  by (relation "measure (\<lambda>(_, _, _, n, i). n - i)") (auto simp: WORDSZ_def)

declare bl_scan.simps [simp del]

definition GC_is_black_listed :: "'a black_lists_scheme \<Rightarrow> nat \<Rightarrow> nat \<Rightarrow> nat option res" where
  "GC_is_black_listed st h len =
     (let index = PHT_HASH (h * HBLKSIZE)
      in rbind (if \<not> GC_all_interior_pointers st then
                  rbind (deref_bl (GC_old_normal_bl st)) (\<lambda>o_bl.
                    if get_pht_entry_from_index o_bl index then Inr True
                    else rbind (deref_bl (GC_incomplete_normal_bl st)) (\<lambda>i_bl. Inr (get_pht_entry_from_index i_bl index)))
                else Inr False)
           (\<lambda>hit. if hit then Inr (Some (h + 1))
              else rbind (deref_bl (GC_old_stack_bl st)) (\<lambda>o_bl.
                   rbind (deref_bl (GC_incomplete_stack_bl st)) (\<lambda>i_bl.
                   Inr (bl_scan o_bl i_bl h (len div HBLKSIZE) 0)))))"

section \<open>What the tables say\<close>

definition listed :: "page_hash_table \<Rightarrow> nat \<Rightarrow> bool" where
  "listed bl b = get_pht_entry_from_index bl (PHT_HASH (b * HBLKSIZE))"

definition bl_ok :: "page_hash_table option \<Rightarrow> bool" where
  "bl_ok p \<longleftrightarrow> (case p of None \<Rightarrow> False | Some bl \<Rightarrow> length bl = PHT_SIZE)"

text \<open>The tables exist: those of the stack always, the others unless all interior pointers count.\<close>

definition tables_ok :: "'a black_lists_scheme \<Rightarrow> bool" where
  "tables_ok st \<longleftrightarrow> bl_ok (GC_old_stack_bl st) \<and> bl_ok (GC_incomplete_stack_bl st) \<and>
     (\<not> GC_all_interior_pointers st \<longrightarrow> bl_ok (GC_old_normal_bl st) \<and> bl_ok (GC_incomplete_normal_bl st))"

definition in_bl :: "page_hash_table option \<Rightarrow> nat \<Rightarrow> bool" where
  "in_bl p b \<longleftrightarrow> (case p of None \<Rightarrow> False | Some bl \<Rightarrow> listed bl b)"

definition stack_listed :: "'a black_lists_scheme \<Rightarrow> nat \<Rightarrow> bool" where
  "stack_listed st b \<longleftrightarrow> in_bl (GC_old_stack_bl st) b \<or> in_bl (GC_incomplete_stack_bl st) b"

definition normal_listed :: "'a black_lists_scheme \<Rightarrow> nat \<Rightarrow> bool" where
  "normal_listed st b \<longleftrightarrow> \<not> GC_all_interior_pointers st \<and>
     (in_bl (GC_old_normal_bl st) b \<or> in_bl (GC_incomplete_normal_bl st) b)"

text \<open>A block of \<open>n\<close> pages at \<open>h\<close> is black listed for its first page, or for any page a stack
  reference pointed to.\<close>

definition range_listed :: "'a black_lists_scheme \<Rightarrow> nat \<Rightarrow> nat \<Rightarrow> bool" where
  "range_listed st h n \<longleftrightarrow> normal_listed st h \<or> (\<exists>b. h \<le> b \<and> b < h + max 1 n \<and> stack_listed st b)"

lemma PHT_HASH_block: "PHT_HASH (b * HBLKSIZE) = b mod PHT_ENTRIES"
  by (simp add: PHT_HASH_def)

lemma PHT_HASH_page: "PHT_HASH p = PHT_HASH (p div HBLKSIZE * HBLKSIZE)"
  by (simp add: PHT_HASH_def)

lemma PHT_sizes: "PHT_ENTRIES = PHT_SIZE * WORDSZ" "0 < WORDSZ" "0 < PHT_ENTRIES" "WORDSZ = 64"
  by (simp_all add: PHT_SIZE_def PHT_ENTRIES_def WORDSZ_def)

lemma PHT_HASH_word: "PHT_HASH p div WORDSZ < PHT_SIZE"
proof -
  have "PHT_HASH p < PHT_SIZE * WORDSZ" using PHT_sizes(3) by (simp add: PHT_HASH_def flip: PHT_sizes(1))
  then show ?thesis by (rule less_mult_imp_div_less)
qed

lemma get_set_pht:
  assumes "length bl = PHT_SIZE" "i div WORDSZ < PHT_SIZE"
  shows "get_pht_entry_from_index (set_pht_entry_from_index bl i) j \<longleftrightarrow> j = i \<or> get_pht_entry_from_index bl j"
proof (cases "j div WORDSZ = i div WORDSZ")
  case True
  then have "j = i \<longleftrightarrow> j mod WORDSZ = i mod WORDSZ" by (metis div_mult_mod_eq)
  moreover have "j mod WORDSZ < 64" "i mod WORDSZ < 64" by (simp_all add: WORDSZ_def)
  ultimately show ?thesis using True assms
    by (auto simp: get_pht_entry_from_index_def set_pht_entry_from_index_def bit_or_iff bit_exp_iff)
next
  case False
  then show ?thesis by (auto simp: get_pht_entry_from_index_def set_pht_entry_from_index_def)
qed

lemma listed_set:
  "length bl = PHT_SIZE \<Longrightarrow> listed (set_pht_entry_from_index bl (PHT_HASH p)) b \<longleftrightarrow>
    b mod PHT_ENTRIES = p div HBLKSIZE mod PHT_ENTRIES \<or> listed bl b"
  by (simp add: listed_def get_set_pht PHT_HASH_word PHT_HASH_block) (simp add: PHT_HASH_def)

lemma listed_zeros [simp]: "\<not> listed (replicate PHT_SIZE 0) b"
  using PHT_HASH_word [of "b * HBLKSIZE"] by (simp add: listed_def get_pht_entry_from_index_def)

section \<open>The scan\<close>

text \<open>A zero word has no bit for the pages up to the next word.\<close>

lemma zero_word:
  assumes "bl ! (PHT_HASH (b * HBLKSIZE) div WORDSZ) = 0" "d < WORDSZ - PHT_HASH (b * HBLKSIZE) mod WORDSZ"
  shows "\<not> listed bl (b + d)"
proof -
  let ?i = "b mod PHT_ENTRIES"
  have i: "?i < PHT_ENTRIES" using PHT_sizes by simp
  have d: "?i mod WORDSZ + d < WORDSZ" using assms(2) by (simp add: PHT_HASH_block)
  have "?i + d = ?i div WORDSZ * WORDSZ + (?i mod WORDSZ + d)" by simp
  then have q: "(?i + d) div WORDSZ = ?i div WORDSZ" using d by (metis PHT_sizes(2) add.right_neutral div_less div_mult_self3 not_less0 neq0_conv)
  have "?i div WORDSZ < PHT_SIZE" using i by (simp add: PHT_sizes(1) less_mult_imp_div_less)
  with q have "?i + d < PHT_SIZE * WORDSZ" using PHT_sizes(2) by (metis div_less_iff_less_mult)
  then have "(b + d) mod PHT_ENTRIES = ?i + d" unfolding PHT_sizes(1) [symmetric] by (metis mod_add_left_eq mod_less)
  with q assms(1) show ?thesis by (simp add: listed_def get_pht_entry_from_index_def PHT_HASH_block)
qed

lemma bl_scan_ok:
  "case bl_scan o_bl i_bl h n k of
     None \<Rightarrow> \<forall>j. k \<le> j \<and> j < max n (Suc k) \<longrightarrow> \<not> (listed o_bl (h + j) \<or> listed i_bl (h + j))
   | Some r \<Rightarrow> \<exists>j. k \<le> j \<and> j < max n (Suc k) \<and> r = h + j + 1 \<and> (listed o_bl (h + j) \<or> listed i_bl (h + j)) \<and>
       (\<forall>i. k \<le> i \<and> i < j \<longrightarrow> \<not> (listed o_bl (h + i) \<or> listed i_bl (h + i)))"
proof (induction "n - k" arbitrary: k rule: less_induct)
  case less
  let ?L = "\<lambda>j. listed o_bl (h + j) \<or> listed i_bl (h + j)"
  let ?P = "\<lambda>k res. case res of None \<Rightarrow> \<forall>j. k \<le> j \<and> j < max n (Suc k) \<longrightarrow> \<not> ?L j
     | Some r \<Rightarrow> \<exists>j. k \<le> j \<and> j < max n (Suc k) \<and> r = h + j + 1 \<and> ?L j \<and> (\<forall>i. k \<le> i \<and> i < j \<longrightarrow> \<not> ?L i)"
  let ?i = "PHT_HASH ((h + k) * HBLKSIZE)"
  have step: "?P k (if k + d \<ge> n then None else bl_scan o_bl i_bl h n (k + d))"
    if d: "0 < d" and no: "\<And>j. k \<le> j \<Longrightarrow> j < k + d \<Longrightarrow> \<not> ?L j" for d
  proof (cases "k + d \<ge> n")
    case True
    then show ?thesis using no d by auto
  next
    case False
    have "n - (k + d) < n - k" using d False by linarith
    from less [OF this] have IH: "?P (k + d) (bl_scan o_bl i_bl h n (k + d))" .
    show ?thesis
    proof (cases "bl_scan o_bl i_bl h n (k + d)")
      case None
      have "\<not> ?L j" if "k \<le> j" "j < max n (Suc k)" for j
        using IH None no [of j] that False d by (cases "j < k + d") auto
      with None False show ?thesis by simp
    next
      case (Some r)
      with IH obtain j where j: "k + d \<le> j" "j < max n (Suc (k + d))" "r = h + j + 1" "?L j"
        "\<And>i. k + d \<le> i \<Longrightarrow> i < j \<Longrightarrow> \<not> ?L i" by auto
      have "\<not> ?L i" if "k \<le> i" "i < j" for i using no [of i] j(5) [of i] that by (cases "i < k + d") auto
      moreover have "k \<le> j" "j < max n (Suc k)" using j(1,2) False by auto
      ultimately show ?thesis using Some False j(3,4) by auto
    qed
  qed
  show ?case
  proof (cases "o_bl ! (?i div WORDSZ) = 0 \<and> i_bl ! (?i div WORDSZ) = 0")
    case True
    let ?d = "WORDSZ - ?i mod WORDSZ"
    have pos: "0 < ?d" by (simp add: WORDSZ_def)
    have no: "\<not> ?L j" if "k \<le> j" "j < k + ?d" for j
      using zero_word [of o_bl "h + k" "j - k"] zero_word [of i_bl "h + k" "j - k"] True that by auto
    have eq: "bl_scan o_bl i_bl h n k = (if k + ?d \<ge> n then None else bl_scan o_bl i_bl h n (k + ?d))"
      using True by (subst bl_scan.simps) (simp add: Let_def)
    show ?thesis unfolding eq by (rule step [OF pos no])
  next
    case False
    show ?thesis
    proof (cases "?L k")
      case True
      with False have "bl_scan o_bl i_bl h n k = Some (h + k + 1)"
        by (subst bl_scan.simps) (auto simp: Let_def listed_def)
      with True show ?thesis by (auto intro!: exI [of _ k])
    next
      case no: False
      then have f: "\<not> (get_pht_entry_from_index o_bl ?i \<or> get_pht_entry_from_index i_bl ?i)" by (simp add: listed_def)
      have eq: "bl_scan o_bl i_bl h n k = (if k + 1 \<ge> n then None else bl_scan o_bl i_bl h n (k + 1))"
        by (subst bl_scan.simps) (simp only: Let_def False f if_False)
      have "\<not> ?L j" if "k \<le> j" "j < k + 1" for j using no that by (metis Suc_eq_plus1 le_antisym less_Suc_eq_le)
      then show ?thesis unfolding eq by (intro step) simp_all
    qed
  qed
qed

section \<open>The answers\<close>

lemma deref_bl_ok [simp]: "deref_bl (Some t) = Inr t"
  by (simp add: deref_bl_def)

lemma bl_okE:
  assumes "bl_ok p"
  obtains bl where "p = Some bl" "length bl = PHT_SIZE"
  using assms by (auto simp: bl_ok_def split: option.splits)

lemma bl_ok_Some [simp]: "bl_ok (Some bl) \<longleftrightarrow> length bl = PHT_SIZE"
  by (simp add: bl_ok_def)

lemma in_bl_Some [simp]: "in_bl (Some bl) b = listed bl b"
  by (simp add: in_bl_def)

lemma tables_okE:
  assumes "tables_ok st"
  obtains os js where "GC_old_stack_bl st = Some os" "GC_incomplete_stack_bl st = Some js"
    "length os = PHT_SIZE" "length js = PHT_SIZE"
  using assms by (auto simp: tables_ok_def elim!: bl_okE)

text \<open>The test of the first page against the tables of the heap.\<close>

lemma normal_test:
  assumes "tables_ok st"
  shows "(if \<not> GC_all_interior_pointers st then
            rbind (deref_bl (GC_old_normal_bl st)) (\<lambda>o_bl.
              if get_pht_entry_from_index o_bl (PHT_HASH (h * HBLKSIZE)) then Inr True
              else rbind (deref_bl (GC_incomplete_normal_bl st)) (\<lambda>i_bl. Inr (get_pht_entry_from_index i_bl (PHT_HASH (h * HBLKSIZE)))))
          else Inr False) = Inr (normal_listed st h)"
  using assms by (auto simp: tables_ok_def normal_listed_def listed_def elim!: bl_okE)

lemma GC_is_black_listed_ok:
  assumes "tables_ok st"
  shows "\<exists>res. GC_is_black_listed st h len = Inr res \<and>
    (case res of
       None \<Rightarrow> \<not> range_listed st h (len div HBLKSIZE)
     | Some r \<Rightarrow> h < r \<and> r \<le> h + max 1 (len div HBLKSIZE) \<and> (\<forall>x. h \<le> x \<and> x < r \<longrightarrow> range_listed st x (len div HBLKSIZE)))"
proof -
  obtain os js where t: "GC_old_stack_bl st = Some os" "GC_incomplete_stack_bl st = Some js"
    using tables_okE [OF assms] by metis
  let ?n = "len div HBLKSIZE"
  have st: "stack_listed st b \<longleftrightarrow> listed os b \<or> listed js b" for b by (simp add: stack_listed_def t)
  have eq: "GC_is_black_listed st h len = (if normal_listed st h then Inr (Some (h + 1)) else Inr (bl_scan os js h ?n 0))"
    unfolding GC_is_black_listed_def Let_def normal_test [OF assms] by (simp add: t)
  show ?thesis
  proof (cases "normal_listed st h")
    case True
    then show ?thesis by (auto simp: eq range_listed_def dest: le_antisym simp: less_Suc_eq_le)
  next
    case False
    have ans: "case bl_scan os js h ?n 0 of
        None \<Rightarrow> \<forall>j. 0 \<le> j \<and> j < max ?n (Suc 0) \<longrightarrow> \<not> stack_listed st (h + j)
      | Some r \<Rightarrow> \<exists>j. 0 \<le> j \<and> j < max ?n (Suc 0) \<and> r = h + j + 1 \<and> stack_listed st (h + j) \<and>
          (\<forall>i. 0 \<le> i \<and> i < j \<longrightarrow> \<not> stack_listed st (h + i))"
      unfolding st by (rule bl_scan_ok)
    show ?thesis
    proof (cases "bl_scan os js h ?n 0")
      case None
      have "\<not> stack_listed st b" if "h \<le> b" "b < h + max 1 ?n" for b
      proof -
        have "b - h < max ?n (Suc 0)" "b = h + (b - h)" using that by (auto simp: max_def split: if_splits)
        with ans None show ?thesis by (metis (no_types, lifting) le0 option.simps(4))
      qed
      with None False show ?thesis by (auto simp: eq range_listed_def)
    next
      case (Some r)
      with ans obtain j where j: "j < max ?n 1" "r = h + j + 1" "stack_listed st (h + j)" by auto
      have "range_listed st x ?n" if "h \<le> x" "x < r" for x
        unfolding range_listed_def using j that by (intro disjI2 exI [of _ "h + j"]) auto
      with Some False j show ?thesis by (auto simp: eq)
    qed
  qed
qed

text \<open>Adding a page sets the bit of all pages that share its entry.\<close>

definition same_entry :: "nat \<Rightarrow> nat \<Rightarrow> bool" where
  "same_entry b p \<longleftrightarrow> b mod PHT_ENTRIES = p div HBLKSIZE mod PHT_ENTRIES"

lemma GC_add_to_black_list_stack_ok:
  assumes "tables_ok st"
  shows "\<exists>st'. GC_add_to_black_list_stack p st = Inr st' \<and> tables_ok st' \<and>
    (\<forall>b. in_bl (GC_old_stack_bl st') b = in_bl (GC_old_stack_bl st) b) \<and>
    (\<forall>b. in_bl (GC_incomplete_stack_bl st') b \<longleftrightarrow> in_bl (GC_incomplete_stack_bl st) b \<or>
       same_entry b p \<and> (HDR st (p div HBLKSIZE) = Nil_entry \<or> in_bl (GC_old_stack_bl st) (p div HBLKSIZE)))"
proof -
  obtain os js where t: "GC_old_stack_bl st = Some os" "GC_incomplete_stack_bl st = Some js"
    "length os = PHT_SIZE" "length js = PHT_SIZE"
    using tables_okE [OF assms] by metis
  let ?add = "HDR st (p div HBLKSIZE) = Nil_entry \<or> listed os (p div HBLKSIZE)"
  have "GC_add_to_black_list_stack p st =
      Inr (if ?add then st\<lparr>GC_incomplete_stack_bl := Some (set_pht_entry_from_index js (PHT_HASH p))\<rparr> else st)"
    using PHT_HASH_page [of p] by (simp add: GC_add_to_black_list_stack_def Let_def t listed_def)
  moreover have "length (set_pht_entry_from_index js (PHT_HASH p)) = PHT_SIZE"
    by (simp add: set_pht_entry_from_index_def t)
  ultimately show ?thesis using assms t by (simp add: tables_ok_def listed_set same_entry_def) blast
qed

lemma GC_add_to_black_list_normal_ok:
  assumes "tables_ok st" "\<not> GC_all_interior_pointers st"
  shows "\<exists>st'. GC_add_to_black_list_normal p st = Inr st' \<and> tables_ok st' \<and>
    (\<forall>b. in_bl (GC_old_normal_bl st') b = in_bl (GC_old_normal_bl st) b) \<and>
    (\<forall>b. in_bl (GC_incomplete_normal_bl st') b \<longleftrightarrow> in_bl (GC_incomplete_normal_bl st) b \<or>
       same_entry b p \<and> GC_modws_valid_offsets st ! (p mod 8) \<and>
       (HDR st (p div HBLKSIZE) = Nil_entry \<or> in_bl (GC_old_normal_bl st) (p div HBLKSIZE)))"
proof -
  obtain on jn where t: "GC_old_normal_bl st = Some on" "GC_incomplete_normal_bl st = Some jn"
    "length on = PHT_SIZE" "length jn = PHT_SIZE"
    using assms by (auto simp: tables_ok_def elim!: bl_okE)
  let ?add = "GC_modws_valid_offsets st ! (p mod 8) \<and> (HDR st (p div HBLKSIZE) = Nil_entry \<or> listed on (p div HBLKSIZE))"
  have "GC_add_to_black_list_normal p st =
      Inr (if ?add then st\<lparr>GC_incomplete_normal_bl := Some (set_pht_entry_from_index jn (PHT_HASH p))\<rparr> else st)"
    using PHT_HASH_page [of p] by (simp add: GC_add_to_black_list_normal_def Let_def t listed_def)
  moreover have "length (set_pht_entry_from_index jn (PHT_HASH p)) = PHT_SIZE"
    by (simp add: set_pht_entry_from_index_def t)
  ultimately show ?thesis using assms t by (simp add: tables_ok_def listed_set same_entry_def) blast
qed

section \<open>Promotion\<close>

lemma count_bl_le: "count_bl bl h n \<le> n"
proof (induction n arbitrary: h)
  case (Suc n)
  show ?case using Suc.IH [of "Suc h"] by simp
qed simp

lemma sum_sects_ok: "tables_ok st \<Longrightarrow> \<exists>n. sum_sects st ss = Inr n"
proof (induction ss)
  case (Cons s ss)
  then obtain n where "sum_sects st ss = Inr n" by blast
  moreover obtain os js where "GC_old_stack_bl st = Some os" using tables_okE [OF Cons.prems] by metis
  ultimately show ?case by (simp add: GC_number_stack_black_listed_def)
qed simp

lemma black_list_spacing_bounds: "3 * HBLKSIZE \<le> black_list_spacing hs n s \<and> black_list_spacing hs n s \<le> MAXHINCR * HBLKSIZE"
  by (simp add: black_list_spacing_def Let_def MAXHINCR_def)

lemma GC_promote_black_lists_ok:
  assumes "tables_ok st"
  shows "\<exists>st'. GC_promote_black_lists st = Inr st' \<and> tables_ok st' \<and>
    (\<forall>b. stack_listed st' b = in_bl (GC_incomplete_stack_bl st) b) \<and>
    (\<forall>b. normal_listed st' b = (\<not> GC_all_interior_pointers st \<and> in_bl (GC_incomplete_normal_bl st) b)) \<and>
    3 * HBLKSIZE \<le> GC_black_list_spacing st' \<and> GC_black_list_spacing st' \<le> MAXHINCR * HBLKSIZE"
proof -
  obtain os js where t: "GC_old_stack_bl st = Some os" "GC_incomplete_stack_bl st = Some js"
    "length os = PHT_SIZE" "length js = PHT_SIZE"
    using tables_okE [OF assms] by metis
  define n where "n = (if GC_all_interior_pointers st then GC_old_normal_bl st else Some (replicate PHT_SIZE 0))"
  define st1 where "st1 = st\<lparr>GC_old_normal_bl := GC_incomplete_normal_bl st, GC_old_stack_bl := Some js,
      GC_incomplete_normal_bl := n, GC_incomplete_stack_bl := Some (replicate PHT_SIZE 0)\<rparr>"
  have ok1: "tables_ok st1" using assms t by (auto simp: tables_ok_def st1_def n_def)
  then obtain m where m: "sum_sects st1 (GC_heap_sects st1) = Inr m" using sum_sects_ok by blast
  have clear: "(if \<not> GC_all_interior_pointers st then GC_clear_bl (GC_old_normal_bl st) else Inr (GC_old_normal_bl st)) = Inr n"
    using assms by (auto simp: tables_ok_def n_def GC_clear_bl_def elim!: bl_okE)
  have "GC_promote_black_lists st = Inr (st1\<lparr>GC_total_stack_black_listed := m * HBLKSIZE,
      GC_black_list_spacing := black_list_spacing (GC_heapsize st1) (m * HBLKSIZE) (GC_black_list_spacing st1)\<rparr>)"
    using m clear by (simp add: GC_promote_black_lists_def Let_def total_stack_black_listed_def GC_clear_bl_def t st1_def)
  then show ?thesis
    using ok1 black_list_spacing_bounds
    by (auto simp: tables_ok_def stack_listed_def normal_listed_def st1_def n_def t)
qed

section \<open>Skipping listed pages\<close>

text \<open>
  The allocator's loop: from \<open>h\<close>, follow the answers of a filter of pages while the page is
  at most \<open>lim\<close>.
\<close>

fun skip_listed :: "(nat \<Rightarrow> nat option res) \<Rightarrow> nat \<Rightarrow> nat \<Rightarrow> nat \<Rightarrow> nat res" where
  "skip_listed probe 0 lim h = Inl OutOfFuel"
| "skip_listed probe (Suc k) lim h =
     (if h \<le> lim then
        rbind (probe h) (\<lambda>r. case r of None \<Rightarrow> Inr h | Some h' \<Rightarrow> skip_listed probe k lim h')
      else Inr h)"

locale page_filter =
  fixes ok :: "'s \<Rightarrow> bool"
    and probe :: "'s \<Rightarrow> nat \<Rightarrow> nat \<Rightarrow> nat option res"
    and bad :: "'s \<Rightarrow> nat \<Rightarrow> nat \<Rightarrow> bool"
  assumes answer: "ok s \<Longrightarrow> \<exists>res. probe s h len = Inr res \<and>
    (case res of None \<Rightarrow> \<not> bad s h len | Some r \<Rightarrow> h < r \<and> (\<forall>x. h \<le> x \<and> x < r \<longrightarrow> bad s x len))"
begin

text \<open>Enough fuel; the page found is the first that is not bad, or lies beyond the limit.\<close>

lemma skip_ok:
  assumes "ok s"
  shows "Suc lim < h + k \<Longrightarrow> 0 < k \<Longrightarrow> \<exists>r. skip_listed (\<lambda>h. probe s h len) k lim h = Inr r \<and> h \<le> r \<and>
    (r \<le> lim \<longrightarrow> \<not> bad s r len) \<and> (\<forall>x. h \<le> x \<and> x < r \<longrightarrow> bad s x len)"
proof (induction k arbitrary: h)
  case (Suc k)
  obtain res where p: "probe s h len = Inr res"
    "case res of None \<Rightarrow> \<not> bad s h len | Some r \<Rightarrow> h < r \<and> (\<forall>x. h \<le> x \<and> x < r \<longrightarrow> bad s x len)"
    using answer [OF assms] by blast
  show ?case
  proof (cases "h \<le> lim")
    case True
    show ?thesis
    proof (cases res)
      case (Some h')
      with p True have h': "h < h'" "\<And>x. h \<le> x \<Longrightarrow> x < h' \<Longrightarrow> bad s x len" by auto
      have "Suc lim < h' + k" "0 < k" using Suc.prems True h'(1) by auto
      from Suc.IH [OF this] obtain r where r: "skip_listed (\<lambda>h. probe s h len) k lim h' = Inr r" "h' \<le> r"
        "r \<le> lim \<longrightarrow> \<not> bad s r len" "\<forall>x. h' \<le> x \<and> x < r \<longrightarrow> bad s x len" by blast
      have "bad s x len" if "h \<le> x" "x < r" for x using h'(2) [of x] r(4) that by (cases "x < h'") auto
      with r h'(1) p(1) Some True show ?thesis by auto
    qed (use p True in auto)
  qed auto
qed simp

end

interpretation bl: page_filter "tables_ok :: 'a black_lists_scheme \<Rightarrow> bool" GC_is_black_listed
  "\<lambda>st h len. range_listed st h (len div HBLKSIZE)"
proof unfold_locales
  fix st :: "'a black_lists_scheme" and h len
  assume "tables_ok st"
  from GC_is_black_listed_ok [OF this, of h len]
  show "\<exists>res. GC_is_black_listed st h len = Inr res \<and> (case res of None \<Rightarrow> \<not> range_listed st h (len div HBLKSIZE)
      | Some r \<Rightarrow> h < r \<and> (\<forall>x. h \<le> x \<and> x < r \<longrightarrow> range_listed st x (len div HBLKSIZE)))"
    by (auto split: option.splits)
qed

end
