(* ===== verification/GC_Objects.thy ===== *)
theory GC_Objects
  imports GC_Blacklist
begin

text \<open>
  The objects inside a block: the maps of valid displacements (\<^verbatim>\<open>libs/gc/obj_map.c\<close>), the kinds
  of objects and the mark bits of a block (the start of \<^verbatim>\<open>libs/gc/mark.c\<close>), and the list of
  free objects in a new block (\<^verbatim>\<open>libs/gc/new_hblk.c\<close>).
\<close>

section \<open>Sizes\<close>

definition MAXOBJBYTES :: nat where "MAXOBJBYTES = HBLKSIZE div 2"
definition BYTES_TO_GRANULES :: "nat \<Rightarrow> nat" where "BYTES_TO_GRANULES n = n div GRANULE_BYTES"
definition GRANULES_TO_BYTES :: "nat \<Rightarrow> nat" where "GRANULES_TO_BYTES n = n * GRANULE_BYTES"
definition GRANULES_TO_WORDS :: "nat \<Rightarrow> nat" where "GRANULES_TO_WORDS n = 2 * n"
definition MAXOBJGRANULES :: nat where "MAXOBJGRANULES = BYTES_TO_GRANULES MAXOBJBYTES"
definition MAP_LEN :: nat where "MAP_LEN = BYTES_TO_GRANULES HBLKSIZE"
definition VALID_OFFSET_SZ :: nat where "VALID_OFFSET_SZ = HBLKSIZE"
definition MARK_BITS_PER_HBLK :: nat where "MARK_BITS_PER_HBLK = HBLKSIZE div GRANULE_BYTES"
definition HBLK_OBJS :: "nat \<Rightarrow> nat" where "HBLK_OBJS sz = HBLKSIZE div sz"
definition OBJ_SZ_TO_BLOCKS :: "nat \<Rightarrow> nat" where "OBJ_SZ_TO_BLOCKS sz = (sz + (HBLKSIZE - 1)) mod 2 ^ 64 div HBLKSIZE"

section \<open>Kinds of objects\<close>

text \<open>Built with \<open>ATOMIC_UNCOLLECTABLE\<close> and without \<open>STUBBORN_ALLOC\<close>, as configured by default.\<close>

definition PTRFREE :: nat where "PTRFREE = 0"
definition NORMAL :: nat where "NORMAL = 1"
definition UNCOLLECTABLE :: nat where "UNCOLLECTABLE = 2"
definition PRECISE :: nat where "PRECISE = 3"
definition AUNCOLLECTABLE :: nat where "AUNCOLLECTABLE = 4"

text \<open>\<open>(k & ~1) == UNCOLLECTABLE\<close>\<close>

definition IS_UNCOLLECTABLE :: "nat \<Rightarrow> bool" where
  "IS_UNCOLLECTABLE k \<longleftrightarrow> k - k mod 2 = UNCOLLECTABLE"

definition GC_DS_LENGTH :: nat where "GC_DS_LENGTH = 0"
definition GC_DS_PRECISE :: nat where "GC_DS_PRECISE = 5"

text \<open>\<open>ok_freelist\<close> holds the heads of the free lists, by the size of the objects in granules.\<close>

record obj_kind =
  ok_freelist :: "nat list"
  ok_descriptor :: nat
  ok_relocate_descr :: bool
  ok_init :: bool

definition new_kind :: "nat \<Rightarrow> bool \<Rightarrow> bool \<Rightarrow> obj_kind" where
  "new_kind d rel init = \<lparr>ok_freelist = replicate (MAXOBJGRANULES + 1) 0, ok_descriptor = d,
     ok_relocate_descr = rel, ok_init = init\<rparr>"

definition initial_obj_kinds :: "obj_kind list" where
  "initial_obj_kinds =
     [new_kind GC_DS_LENGTH False False, new_kind GC_DS_LENGTH True True, new_kind GC_DS_LENGTH True True,
      new_kind GC_DS_PRECISE False True, new_kind GC_DS_LENGTH False False]"

definition GC_N_KINDS_INITIAL_VALUE :: nat where "GC_N_KINDS_INITIAL_VALUE = 4"

record layouts = black_lists +
  GC_valid_offsets :: "bool list"
  GC_obj_map :: "nat list option list"
  GC_obj_kinds :: "obj_kind list"
  GC_gc_no :: nat

section \<open>Layout maps\<close>

definition GC_register_displacement_inner :: "nat \<Rightarrow> 'a layouts_scheme \<Rightarrow> 'a layouts_scheme res" where
  "GC_register_displacement_inner offset st =
     (if offset \<ge> VALID_OFFSET_SZ then Inl (Abort ''Bad argument to GC_register_displacement'')
      else if \<not> GC_valid_offsets st ! offset then
        Inr (st\<lparr>GC_valid_offsets := (GC_valid_offsets st)[offset := True],
               GC_modws_valid_offsets := (GC_modws_valid_offsets st)[offset mod 8 := True]\<rparr>)
      else Inr st)"

definition GC_initialize_offsets :: "'a layouts_scheme \<Rightarrow> 'a layouts_scheme" where
  "GC_initialize_offsets st =
     (if GC_all_interior_pointers st then st\<lparr>GC_valid_offsets := replicate VALID_OFFSET_SZ True\<rparr>
      else st\<lparr>GC_valid_offsets := replicate VALID_OFFSET_SZ False, GC_modws_valid_offsets := replicate 8 False\<rparr>)"

text \<open>The map for objects of a number of granules: the displacement inside its object of every
  granule of a block, and never 0 for large objects.\<close>

definition map_entry :: "nat \<Rightarrow> nat list" where
  "map_entry granules =
     (if granules = 0 then replicate (BYTES_TO_GRANULES HBLKSIZE) 1
      else map (\<lambda>displ. displ mod granules) [0..<BYTES_TO_GRANULES HBLKSIZE])"

definition GC_add_map_entry :: "nat \<Rightarrow> 'a layouts_scheme \<Rightarrow> bool \<times> 'a layouts_scheme" where
  "GC_add_map_entry granules st =
     (let granules = (if granules > BYTES_TO_GRANULES MAXOBJBYTES then 0 else granules)
      in if GC_obj_map st ! granules \<noteq> None then (True, st)
         else
           let (p, st) = GC_scratch_alloc (MAP_LEN * 2) st
           in if p = 0 then (False, st)
              else (True, st\<lparr>GC_obj_map := (GC_obj_map st)[granules := Some (map_entry granules)]\<rparr>))"

section \<open>Mark bits\<close>

definition FINAL_MARK_BIT :: "nat \<Rightarrow> nat" where
  "FINAL_MARK_BIT sz =
     (if sz > MAXOBJBYTES then MARK_BITS_PER_HBLK else BYTES_TO_GRANULES (sz * HBLK_OBJS sz))"

definition MARK_BIT_NO :: "nat \<Rightarrow> nat" where
  "MARK_BIT_NO offset = BYTES_TO_GRANULES offset"

definition GC_clear_hdr_marks :: "hdr \<Rightarrow> hdr" where
  "GC_clear_hdr_marks h = h\<lparr>hb_marks := {FINAL_MARK_BIT (hb_sz h)}, hb_n_marks := 0\<rparr>"

text \<open>All the words of bits up to the final one are set.\<close>

definition GC_set_hdr_marks :: "hdr \<Rightarrow> hdr" where
  "GC_set_hdr_marks h =
     (let n_marks = FINAL_MARK_BIT (hb_sz h)
      in h\<lparr>hb_marks := hb_marks h \<union> {0..<WORDSZ * ((n_marks + WORDSZ) div WORDSZ)}, hb_n_marks := HBLK_OBJS (hb_sz h)\<rparr>)"

definition upd_hdr :: "nat \<Rightarrow> (hdr \<Rightarrow> hdr) \<Rightarrow> 'a headers_scheme \<Rightarrow> 'a headers_scheme" where
  "upd_hdr r f st = st\<lparr>hdrs := (hdrs st)[r := f (hdrs st ! r)]\<rparr>"

text \<open>The header a pointer \<open>HDR(h)\<close> leads to when its fields are read or set.\<close>

definition get_hdr :: "'a headers_scheme \<Rightarrow> nat \<Rightarrow> nat res" where
  "get_hdr st h = (case HDR st h of Hdr r \<Rightarrow> Inr r | Nil_entry \<Rightarrow> Inl NullDeref | Jump d \<Rightarrow> Inl BadArg)"

definition GC_set_mark_bit :: "nat \<Rightarrow> 'a headers_scheme \<Rightarrow> 'a headers_scheme res" where
  "GC_set_mark_bit p st =
     rbind (get_hdr st (p div HBLKSIZE)) (\<lambda>r.
       let n = MARK_BIT_NO (p mod HBLKSIZE)
       in Inr (if n \<notin> hb_marks (hdrs st ! r)
               then upd_hdr r (\<lambda>h. h\<lparr>hb_marks := insert n (hb_marks h), hb_n_marks := (hb_n_marks h + 1) mod 2 ^ 64\<rparr>) st
               else st))"

definition GC_clear_mark_bit :: "nat \<Rightarrow> 'a headers_scheme \<Rightarrow> 'a headers_scheme res" where
  "GC_clear_mark_bit p st =
     rbind (get_hdr st (p div HBLKSIZE)) (\<lambda>r.
       let n = MARK_BIT_NO (p mod HBLKSIZE)
       in Inr (if n \<in> hb_marks (hdrs st ! r)
               then upd_hdr r (\<lambda>h. h\<lparr>hb_marks := hb_marks h - {n}, hb_n_marks := (hb_n_marks h + (2 ^ 64 - 1)) mod 2 ^ 64\<rparr>) st
               else st))"

definition GC_is_marked :: "nat \<Rightarrow> 'a headers_scheme \<Rightarrow> bool res" where
  "GC_is_marked p st =
     rbind (get_hdr st (p div HBLKSIZE)) (\<lambda>r. Inr (MARK_BIT_NO (p mod HBLKSIZE) \<in> hb_marks (hdrs st ! r)))"

definition clear_marks_for_block :: "nat \<Rightarrow> 'a headers_scheme \<Rightarrow> 'a headers_scheme" where
  "clear_marks_for_block h st =
     (case HDR st h of
        Hdr r \<Rightarrow> if IS_UNCOLLECTABLE (hb_obj_kind (hdrs st ! r)) then st else upd_hdr r GC_clear_hdr_marks st
      | _ \<Rightarrow> st)"

text \<open>The part of \<open>GC_clear_marks\<close> that concerns the blocks.\<close>

definition GC_clear_marks :: "'a headers_scheme \<Rightarrow> 'a headers_scheme" where
  "GC_clear_marks st = GC_apply_to_all_blocks clear_marks_for_block st st"

section \<open>The free list of a new block\<close>

text \<open>
  Memory by byte address, one word at every multiple of 8; \<open>h\<close> is a block number, \<open>ofl\<close> the
  list that follows.
\<close>

type_synonym memory = "nat \<Rightarrow> nat"

function clear2_loop :: "nat \<Rightarrow> nat \<Rightarrow> memory \<Rightarrow> nat \<times> memory" where
  "clear2_loop lim p m =
     (if p < lim then clear2_loop lim (p + 32) (m(p := p - 16, p + 8 := 0, p + 16 := p, p + 24 := 0)) else (p, m))"
  by pat_completeness auto
termination
  by (relation "measure (\<lambda>(lim, p, _). lim - p)") auto

definition GC_build_fl_clear2 :: "nat \<Rightarrow> nat \<Rightarrow> memory \<Rightarrow> nat \<times> memory" where
  "GC_build_fl_clear2 h ofl m =
     (let p = h * HBLKSIZE; lim = (h + 1) * HBLKSIZE;
          (p, m) = clear2_loop lim (p + 32) (m(p := ofl, p + 8 := 0, p + 16 := p, p + 24 := 0))
      in (p - 16, m))"

function clear4_loop :: "nat \<Rightarrow> nat \<Rightarrow> memory \<Rightarrow> nat \<times> memory" where
  "clear4_loop lim p m =
     (if p < lim then clear4_loop lim (p + 32) (m(p := p - 32, p + 8 := 0, p + 16 := 0, p + 24 := 0)) else (p, m))"
  by pat_completeness auto
termination
  by (relation "measure (\<lambda>(lim, p, _). lim - p)") auto

definition GC_build_fl_clear4 :: "nat \<Rightarrow> nat \<Rightarrow> memory \<Rightarrow> nat \<times> memory" where
  "GC_build_fl_clear4 h ofl m =
     (let p = h * HBLKSIZE; lim = (h + 1) * HBLKSIZE;
          (p, m) = clear4_loop lim (p + 32) (m(p := ofl, p + 8 := 0, p + 16 := 0, p + 24 := 0))
      in (p - 32, m))"

function fl2_loop :: "nat \<Rightarrow> nat \<Rightarrow> memory \<Rightarrow> nat \<times> memory" where
  "fl2_loop lim p m =
     (if p < lim then fl2_loop lim (p + 32) (m(p := p - 16, p + 16 := p)) else (p, m))"
  by pat_completeness auto
termination
  by (relation "measure (\<lambda>(lim, p, _). lim - p)") auto

definition GC_build_fl2 :: "nat \<Rightarrow> nat \<Rightarrow> memory \<Rightarrow> nat \<times> memory" where
  "GC_build_fl2 h ofl m =
     (let p = h * HBLKSIZE; lim = (h + 1) * HBLKSIZE;
          (p, m) = fl2_loop lim (p + 32) (m(p := ofl, p + 16 := p))
      in (p - 16, m))"

function fl4_loop :: "nat \<Rightarrow> nat \<Rightarrow> memory \<Rightarrow> nat \<times> memory" where
  "fl4_loop lim p m =
     (if p < lim then fl4_loop lim (p + 64) (m(p := p - 32, p + 32 := p)) else (p, m))"
  by pat_completeness auto
termination
  by (relation "measure (\<lambda>(lim, p, _). lim - p)") auto

definition GC_build_fl4 :: "nat \<Rightarrow> nat \<Rightarrow> memory \<Rightarrow> nat \<times> memory" where
  "GC_build_fl4 h ofl m =
     (let p = h * HBLKSIZE; lim = (h + 1) * HBLKSIZE;
          (p, m) = fl4_loop lim (p + 64) (m(p := ofl, p + 32 := p))
      in (p - 32, m))"

text \<open>The general loop; objects of no words would make it run forever, which fuel cuts off.\<close>

fun link_loop :: "nat \<Rightarrow> nat \<Rightarrow> nat \<Rightarrow> nat \<Rightarrow> nat \<Rightarrow> memory \<Rightarrow> (nat \<times> memory) res" where
  "link_loop 0 bytes last_object p prev m = Inl OutOfFuel"
| "link_loop (Suc k) bytes last_object p prev m =
     (if p \<le> last_object then link_loop k bytes last_object (p + bytes) p (m(p := prev)) else Inr (p, m))"

definition GC_build_fl :: "nat \<Rightarrow> nat \<Rightarrow> bool \<Rightarrow> nat \<Rightarrow> memory \<Rightarrow> (nat \<times> memory) res" where
  "GC_build_fl h sz clear fl m =
     (if sz = 2 then Inr (if clear then GC_build_fl_clear2 h fl m else GC_build_fl2 h fl m)
      else if sz = 4 then Inr (if clear then GC_build_fl_clear4 h fl m else GC_build_fl4 h fl m)
      else
        let m = (if clear then (\<lambda>a. if h * HBLKSIZE \<le> a \<and> a < (h + 1) * HBLKSIZE then 0 else m a) else m);
            p = h * HBLKSIZE + 8 * sz; prev = h * HBLKSIZE;
            last_object = h * HBLKSIZE + HBLKSIZE - 8 * sz
        in rbind (link_loop HBLKSIZE (8 * sz) last_object p prev m) (\<lambda>(p, m).
             let p = p - 8 * sz in Inr (p, m(h * HBLKSIZE := fl))))"

declare clear2_loop.simps [simp del] clear4_loop.simps [simp del] fl2_loop.simps [simp del] fl4_loop.simps [simp del]

section \<open>What the loops build\<close>

text \<open>Memory in which every object of \<open>b\<close> bytes from \<open>p\<close> to \<open>lim\<close> points to the object before it.\<close>

definition built :: "nat \<Rightarrow> bool \<Rightarrow> nat \<Rightarrow> nat \<Rightarrow> memory \<Rightarrow> memory" where
  "built b z p lim m = (\<lambda>a. if p \<le> a \<and> a < lim then
       (if (a - p) mod b = 0 then a - b else if z \<and> (a - p) mod 8 = 0 then 0 else m a) else m a)"

lemma built_empty [simp]: "built b z p p m = m"
  by (auto simp: built_def fun_eq_iff)

lemma built_append:
  assumes "d mod b = 0" "d mod 8 = 0"
  shows "built b z (p + d) (p + d + n) (built b z p (p + d) m) = built b z p (p + d + n) m"
proof (rule ext)
  fix a
  consider "a < p" | i where "a = p + i" "i < d" | i where "a = p + d + i"
    by (metis add.assoc le_iff_add linorder_not_less nat_add_left_cancel_less)
  then show "built b z (p + d) (p + d + n) (built b z p (p + d) m) a = built b z p (p + d + n) m a"
  proof cases
    case (3 i)
    have "(d + i) mod b = i mod b" "(d + i) mod 8 = i mod 8"
      using mod_add_left_eq [of d b i] mod_add_left_eq [of d 8 i] assms by simp_all
    moreover have "a - p = d + i" "a - (p + d) = i" using 3 by simp_all
    ultimately show ?thesis unfolding built_def using 3 by simp
  qed (simp_all add: built_def)
qed

lemma built_upd_below: "0 < d \<Longrightarrow> built b z (p + d) lim (m(p := v)) = (built b z (p + d) lim m)(p := v)"
  by (auto simp: built_def fun_eq_iff)

lemma built_one:
  assumes "0 < b"
  shows "built b False p (p + b) m = m(p := p - b)"
proof (rule ext)
  show "built b False p (p + b) m a = (m(p := p - b)) a" for a
  proof (cases "p \<le> a \<and> a < p + b")
    case True
    then have "(a - p) mod b = a - p" by (intro mod_less) linarith
    with True show ?thesis by (auto simp: built_def)
  qed (use assms in \<open>auto simp: built_def\<close>)
qed

lemma built_first:
  assumes "0 < b" "b mod 8 = 0"
  shows "(built b False (p + b) (p + b + n) m)(p := v) = (built b False p (p + b + n) m)(p := v)"
  using built_append [of b b False p n m] assms by (simp add: built_one built_upd_below) (metis fun_upd_upd)

text \<open>
  The specialised loops: each turn builds the objects of \<open>d\<close> bytes, clearing the rest of them
  if \<open>z\<close>.
\<close>

locale list_builder =
  fixes loop :: "nat \<Rightarrow> nat \<Rightarrow> memory \<Rightarrow> nat \<times> memory"
    and turn :: "nat \<Rightarrow> memory \<Rightarrow> memory"
    and d b :: nat
    and z :: bool
  assumes loop: "loop lim p m = (if p < lim then loop lim (p + d) (turn p m) else (p, m))"
    and turn: "turn p m a = built b z p (p + d) m a"
    and sizes: "0 < d" "d mod b = 0" "d mod 8 = 0"
begin

lemma loop_builds: "loop (p + d * j) p m = (p + d * j, built b z p (p + d * j) m)"
proof (induction j arbitrary: p m)
  case 0
  then show ?case by (simp add: loop [of p])
next
  case (Suc j)
  have "turn p m = built b z p (p + d) m" using turn by (rule ext)
  then have "loop (p + d * Suc j) p m = loop (p + d + d * j) (p + d) (built b z p (p + d) m)"
    using sizes(1) by (simp add: loop [of _ p] add.assoc)
  then show ?case using Suc.IH [of "p + d"] built_append [OF sizes(2,3)] by (simp add: add.assoc)
qed

text \<open>The first turn is done apart, with the link to the list that follows.\<close>

lemma list_builds:
  "loop (p + d * Suc j) (p + d) ((turn p m)(p := fl)) = (p + d * Suc j, (built b z p (p + d * Suc j) m)(p := fl))"
proof -
  have "turn p m = built b z p (p + d) m" using turn by (rule ext)
  then show ?thesis
    using loop_builds [of "p + d" j "(turn p m)(p := fl)"] built_append [OF sizes(2,3), of z p "d * j" m]
      built_upd_below [OF sizes(1)]
    by (simp add: add.assoc)
qed

end

lemma below_32: "i < 32 \<Longrightarrow> i mod 8 = 0 \<Longrightarrow> i = 0 \<or> i = 8 \<or> i = 16 \<or> i = (24 :: nat)"
  by presburger

text \<open>A turn, byte by byte: \<open>i\<close> is the place in the stretch.\<close>

lemma built_at:
  assumes "\<And>a. \<not> (p \<le> a \<and> a < p + d) \<Longrightarrow> m' a = m a"
    and "\<And>i. i < d \<Longrightarrow> m' (p + i) = (if i mod b = 0 then p + i - b else if z \<and> i mod 8 = 0 then 0 else m (p + i))"
  shows "m' a = built b z p (p + d) m a"
  using assms(1) [of a] assms(2) [of "a - p"] by (cases "p \<le> a \<and> a < p + d") (auto simp: built_def)

interpretation c2: list_builder clear2_loop "\<lambda>p m. m(p := p - 16, p + 8 := 0, p + 16 := p, p + 24 := 0)" 32 16 True
proof unfold_locales
  show "(m(p := p - 16, p + 8 := 0, p + 16 := p, p + 24 := 0)) a = built 16 True p (p + 32) m a" for p m a
  proof (rule built_at)
    fix i :: nat assume i: "i < 32"
    have "i mod 8 \<noteq> 0 \<Longrightarrow> i mod 16 \<noteq> 0" by presburger
    then show "(m(p := p - 16, p + 8 := 0, p + 16 := p, p + 24 := 0)) (p + i) =
        (if i mod 16 = 0 then p + i - 16 else if True \<and> i mod 8 = 0 then 0 else m (p + i))"
      using below_32 [OF i] by (cases "i mod 8 = 0") auto
  qed auto
qed (simp_all add: clear2_loop.simps)

interpretation c4: list_builder clear4_loop "\<lambda>p m. m(p := p - 32, p + 8 := 0, p + 16 := 0, p + 24 := 0)" 32 32 True
proof unfold_locales
  show "(m(p := p - 32, p + 8 := 0, p + 16 := 0, p + 24 := 0)) a = built 32 True p (p + 32) m a" for p m a
  proof (rule built_at)
    fix i :: nat assume i: "i < 32"
    have "i mod 8 \<noteq> 0 \<Longrightarrow> i mod 32 \<noteq> 0" by presburger
    then show "(m(p := p - 32, p + 8 := 0, p + 16 := 0, p + 24 := 0)) (p + i) =
        (if i mod 32 = 0 then p + i - 32 else if True \<and> i mod 8 = 0 then 0 else m (p + i))"
      using below_32 [OF i] by (cases "i mod 8 = 0") auto
  qed auto
qed (simp_all add: clear4_loop.simps)

interpretation f2: list_builder fl2_loop "\<lambda>p m. m(p := p - 16, p + 16 := p)" 32 16 False
proof unfold_locales
  show "(m(p := p - 16, p + 16 := p)) a = built 16 False p (p + 32) m a" for p m a
  proof (rule built_at)
    fix i :: nat assume i: "i < 32"
    then have "i mod 16 = 0 \<Longrightarrow> i = 0 \<or> i = 16" by presburger
    then show "(m(p := p - 16, p + 16 := p)) (p + i) =
        (if i mod 16 = 0 then p + i - 16 else if False \<and> i mod 8 = 0 then 0 else m (p + i))"
      by (cases "i mod 16 = 0") auto
  qed auto
qed (simp_all add: fl2_loop.simps)

interpretation f4: list_builder fl4_loop "\<lambda>p m. m(p := p - 32, p + 32 := p)" 64 32 False
proof unfold_locales
  show "(m(p := p - 32, p + 32 := p)) a = built 32 False p (p + 64) m a" for p m a
  proof (rule built_at)
    fix i :: nat assume i: "i < 64"
    then have "i mod 32 = 0 \<Longrightarrow> i = 0 \<or> i = 32" by presburger
    then show "(m(p := p - 32, p + 32 := p)) (p + i) =
        (if i mod 32 = 0 then p + i - 32 else if False \<and> i mod 8 = 0 then 0 else m (p + i))"
      by (cases "i mod 32 = 0") auto
  qed auto
qed (simp_all add: fl4_loop.simps)

section \<open>The list of a block\<close>

fun links :: "memory \<Rightarrow> nat \<Rightarrow> nat list \<Rightarrow> nat \<Rightarrow> bool" where
  "links m p [] e \<longleftrightarrow> p = e"
| "links m p (x # xs) e \<longleftrightarrow> p = x \<and> links m (m x) xs e"

text \<open>The objects of \<open>b\<close> bytes in the block at address \<open>base\<close>.\<close>

definition objects_of :: "nat \<Rightarrow> nat \<Rightarrow> nat list" where
  "objects_of base b = map (\<lambda>i. base + i * b) [0..<HBLKSIZE div b]"

text \<open>\<open>m'\<close> is \<open>m\<close> with a list of all objects of a block, in descending order, before \<open>fl\<close>.\<close>

definition fl_built :: "nat \<Rightarrow> nat \<Rightarrow> bool \<Rightarrow> nat \<Rightarrow> memory \<Rightarrow> nat \<Rightarrow> memory \<Rightarrow> bool" where
  "fl_built base b clear fl m q m' \<longleftrightarrow> links m' q (rev (objects_of base b)) fl \<and>
     (\<forall>a. \<not> (base \<le> a \<and> a < base + HBLKSIZE) \<longrightarrow> m' a = m a) \<and>
     (\<forall>i. i < HBLKSIZE \<and> i mod 8 = 0 \<and> base + i \<notin> set (objects_of base b) \<longrightarrow>
        m' (base + i) = (if clear then 0 else m (base + i)))"

lemma built_links:
  assumes "0 < b" "k < n"
  shows "links ((built b z base (base + n * b) m)(base := fl)) (base + k * b) (rev (map (\<lambda>i. base + i * b) [0..<Suc k])) fl"
  using assms(2)
proof (induction k)
  case (Suc k)
  have "Suc k * b < n * b" by (rule mult_less_mono1 [OF Suc.prems assms(1)])
  then have "built b z base (base + n * b) m (base + Suc k * b) = base + k * b" by (simp add: built_def)
  with Suc assms(1) show ?case by simp
qed simp

lemma built_fl:
  assumes "0 < b" "b \<le> HBLKSIZE" "b mod 8 = 0" "z = clear \<and> m1 = m \<and> HBLKSIZE mod b = 0 \<or>
      \<not> z \<and> m1 = (if clear then (\<lambda>a. if base \<le> a \<and> a < base + HBLKSIZE then 0 else m a) else m)"
    and M: "M = (built b z base (base + HBLKSIZE div b * b) m1)(base := fl)"
  shows "fl_built base b clear fl m (base + HBLKSIZE div b * b - b) M"
proof -
  let ?n = "HBLKSIZE div b"
  have n: "0 < ?n" using assms(1,2) by (simp add: div_greater_zero_iff)
  then obtain k where k: "?n = Suc k" by (cases ?n) auto
  have "links M (base + k * b) (rev (objects_of base b)) fl"
    using built_links [OF assms(1), of k ?n z base m1 fl] by (simp add: M objects_of_def k)
  moreover have "base + k * b = base + ?n * b - b" by (simp add: k)
  moreover have "M a = m a" if "\<not> (base \<le> a \<and> a < base + HBLKSIZE)" for a
  proof -
    have "\<not> (base \<le> a \<and> a < base + ?n * b)" using that div_times_less_eq_dividend [of HBLKSIZE b] by linarith
    moreover have "a \<noteq> base" using that assms(1,2) by auto
    ultimately have "M a = m1 a" by (auto simp: M built_def)
    also have "m1 a = m a" using assms(4) that by auto
    finally show ?thesis .
  qed
  moreover have "M (base + i) = (if clear then 0 else m (base + i))"
    if i: "i < HBLKSIZE" "i mod 8 = 0" "base + i \<notin> set (objects_of base b)" for i
  proof -
    have o: "base + i \<noteq> base + j * b" if "j < ?n" for j using i(3) that by (auto simp: objects_of_def)
    have no: "\<not> (i < ?n * b \<and> i mod b = 0)"
    proof
      assume a: "i < ?n * b \<and> i mod b = 0"
      then have "i = i div b * b" by (metis add.right_neutral div_mult_mod_eq)
      moreover have "i div b < ?n" using a by (simp add: less_mult_imp_div_less)
      ultimately show False using o by metis
    qed
    moreover have "i \<noteq> 0" using o [of 0] n by (metis add_0_right mult_0)
    ultimately show ?thesis using assms(4) i(1,2) by (auto simp: M built_def mult.commute)
  qed
  ultimately show ?thesis by (auto simp: fl_built_def)
qed

lemma link_loop_ok:
  assumes "0 < b" "b mod 8 = 0"
  shows "lo < p + n * b \<Longrightarrow> n = 0 \<or> p + n * b \<le> lo + b \<Longrightarrow> n < k \<Longrightarrow>
    link_loop k b lo p (p - b) m = Inr (p + n * b, built b False p (p + n * b) m)"
proof (induction n arbitrary: p m k)
  case 0
  then show ?case by (cases k) simp_all
next
  case (Suc n)
  obtain k' where k: "k = Suc k'" using Suc.prems(3) by (cases k) auto
  have "built b False (p + b) (p + b + n * b) (m(p := p - b)) = built b False p (p + b + n * b) m"
    using built_append [of b b False p "n * b" m] assms by (simp add: built_one)
  moreover have "link_loop k' b lo (p + b) (p + b - b) (m(p := p - b)) =
      Inr (p + b + n * b, built b False (p + b) (p + b + n * b) (m(p := p - b)))"
    by (rule Suc.IH) (use Suc.prems k in auto)
  ultimately show ?case using Suc.prems(2) by (simp add: k add.assoc)
qed

lemma GC_build_fl_ok:
  assumes "0 < sz" "sz \<le> HBLKSIZE div 8"
  shows "\<exists>q m'. GC_build_fl h sz clear fl m = Inr (q, m') \<and> fl_built (h * HBLKSIZE) (8 * sz) clear fl m q m'"
proof -
  let ?p = "h * HBLKSIZE" and ?b = "8 * sz"
  have lim: "(h + 1) * HBLKSIZE = ?p + HBLKSIZE" by simp
  have b: "0 < ?b" "?b \<le> HBLKSIZE" "?b mod 8 = 0" using assms by (simp_all add: HBLKSIZE_def)
  consider "sz = 2" | "sz = 4" | "sz \<noteq> 2" "sz \<noteq> 4" by blast
  then show ?thesis
  proof cases
    case 1
    have "fl_built ?p 16 clear fl m (?p + HBLKSIZE - 16) ((built 16 clear ?p (?p + HBLKSIZE) m)(?p := fl))"
      using built_fl [of 16 clear clear m m ?p _ fl] by (simp add: HBLKSIZE_def)
    then show ?thesis
      using c2.list_builds [of ?p 127 m fl] f2.list_builds [of ?p 127 m fl] unfolding GC_build_fl_def GC_build_fl_clear2_def GC_build_fl2_def lim
      by (cases clear) (simp_all add: 1 HBLKSIZE_def fun_upd_twist Let_def)
  next
    case 2
    have "fl_built ?p 32 clear fl m (?p + HBLKSIZE - 32) ((built 32 clear ?p (?p + HBLKSIZE) m)(?p := fl))"
      using built_fl [of 32 clear clear m m ?p _ fl] by (simp add: HBLKSIZE_def)
    then show ?thesis
      using c4.list_builds [of ?p 127 m fl] f4.list_builds [of ?p 63 m fl] unfolding GC_build_fl_def GC_build_fl_clear4_def GC_build_fl4_def lim
      by (cases clear) (simp_all add: 2 HBLKSIZE_def fun_upd_twist Let_def)
  next
    case 3
    let ?n = "HBLKSIZE div ?b" and ?m1 = "if clear then (\<lambda>a. if ?p \<le> a \<and> a < ?p + HBLKSIZE then 0 else m a) else m"
    have n: "0 < ?n" using b by (simp add: div_greater_zero_iff del: div_mult2_eq)
    have le: "?n * ?b \<le> HBLKSIZE" by (rule div_times_less_eq_dividend)
    have less: "HBLKSIZE < ?n * ?b + ?b" using dividend_less_div_times [OF b(1), of HBLKSIZE] by (simp add: add.commute)
    have nb: "(?n - 1) * ?b = ?n * ?b - ?b" by (simp add: diff_mult_distrib)
    have "?n < HBLKSIZE" using assms(1) by (intro div_less_dividend) (simp_all add: HBLKSIZE_def)
    then have nk: "?n - 1 < HBLKSIZE" by (rule le_less_trans [OF diff_le_self])
    have L: "link_loop HBLKSIZE ?b (?p + HBLKSIZE - ?b) (?p + ?b) (?p + ?b - ?b) ?m1 =
        Inr (?p + ?b + (?n - 1) * ?b, built ?b False (?p + ?b) (?p + ?b + (?n - 1) * ?b) ?m1)"
      by (rule link_loop_ok [OF b(1,3) _ _ nk]) (use less le b n nb in auto)
    have fin: "?p + ?b + (?n - 1) * ?b = ?p + ?n * ?b" using nb n by simp
    have "(built ?b False (?p + ?b) (?p + ?n * ?b) ?m1)(?p := fl) = (built ?b False ?p (?p + ?n * ?b) ?m1)(?p := fl)"
      using built_first [OF b(1,3), of ?p "?n * ?b - ?b" ?m1 fl] n nb by simp
    moreover have "fl_built ?p ?b clear fl m (?p + ?n * ?b - ?b) ((built ?b False ?p (?p + ?n * ?b) ?m1)(?p := fl))"
      by (rule built_fl) (use b in auto)
    moreover have "GC_build_fl h sz clear fl m =
        rbind (link_loop HBLKSIZE ?b (?p + HBLKSIZE - ?b) (?p + ?b) (?p + ?b - ?b) ?m1) (\<lambda>(p, m). Inr (p - ?b, m(?p := fl)))"
      using 3 unfolding GC_build_fl_def Let_def lim by simp
    ultimately show ?thesis unfolding L fin by simp
  qed
qed

end
