(* ===== verification/GC_Alloc.thy ===== *)
theory GC_Alloc
  imports GC_Objects
begin

text \<open>
  The block allocator (\<^verbatim>\<open>libs/gc/allchblk.c\<close>, with the accounting of \<^verbatim>\<open>libs/gc/alloc.c\<close> that
  decides how far it may split): free blocks on doubly linked lists by size, threaded through
  their headers, coalesced when a block is freed. Blocks are numbers, the block number 0 is
  the null pointer; a pointer to a header is its number. Built without \<open>USE_MUNMAP\<close>.
\<close>

section \<open>Free lists by size\<close>

definition MAX_BLACK_LIST_ALLOC :: nat where "MAX_BLACK_LIST_ALLOC = 2 * HBLKSIZE"
definition UNIQUE_THRESHOLD :: nat where "UNIQUE_THRESHOLD = 32"
definition HUGE_THRESHOLD :: nat where "HUGE_THRESHOLD = 256"
definition FL_COMPRESSION :: nat where "FL_COMPRESSION = 8"
definition N_HBLK_FLS :: nat where
  "N_HBLK_FLS = (HUGE_THRESHOLD - UNIQUE_THRESHOLD) div FL_COMPRESSION + UNIQUE_THRESHOLD"

text \<open>
  Counters are 64-bit words. \<open>stack_size\<close> is what \<open>min_bytes_allocd\<close> measures from the stack
  pointer, \<open>GC_drop_count\<close> the static \<open>count\<close> of \<open>GC_allochblk_nth\<close>.
\<close>

record block_heap = layouts +
  GC_hblkfreelist :: "nat list"
  GC_free_bytes :: "64 word list"
  GC_large_free_bytes :: "64 word"
  GC_large_allocd_bytes :: "64 word"
  GC_max_large_allocd_bytes :: "64 word"
  GC_bytes_allocd :: "64 word"
  GC_bytes_dropped :: "64 word"
  GC_bytes_freed :: "64 word"
  GC_bytes_finalized :: "64 word"
  GC_finalizer_bytes_freed :: "64 word"
  GC_non_gc_bytes :: "64 word"
  GC_non_gc_bytes_at_gc :: "64 word"
  GC_composite_in_use :: "64 word"
  GC_atomic_in_use :: "64 word"
  GC_root_size :: "64 word"
  stack_size :: "64 word"
  GC_free_space_divisor :: "64 word"
  GC_requested_heapsize :: "64 word"
  GC_collect_at_heapsize :: "64 word"
  last_min_bytes_allocd :: "64 word"
  last_gc_no :: nat
  GC_fail_count :: nat
  GC_drop_count :: "32 word"
  GC_large_alloc_warn_suppressed :: int
  GC_large_alloc_warn_interval :: int
  GC_use_entire_heap :: bool
  GC_dont_gc :: bool
  GC_incremental :: bool
  GC_find_leak :: bool
  GC_debugging_started :: bool
  heap_mem :: memory

text \<open>A \<open>size_t\<close> read as a \<open>signed_word\<close>.\<close>

definition signed_word :: "nat \<Rightarrow> int" where
  "signed_word n = sint (of_nat n :: 64 word)"

fun enough_from :: "64 word list \<Rightarrow> 64 word \<Rightarrow> 64 word \<Rightarrow> nat \<Rightarrow> nat" where
  "enough_from fb bytes lim 0 = 0"
| "enough_from fb bytes lim (Suc n) =
     (let bytes = bytes + fb ! n in if bytes \<ge> lim then n else enough_from fb bytes lim n)"

definition GC_enough_large_bytes_left :: "'a block_heap_scheme \<Rightarrow> nat" where
  "GC_enough_large_bytes_left st =
     enough_from (GC_free_bytes st) (GC_large_allocd_bytes st) (GC_max_large_allocd_bytes st) (N_HBLK_FLS + 1)"

definition GC_hblk_fl_from_blocks :: "nat \<Rightarrow> nat" where
  "GC_hblk_fl_from_blocks blocks_needed =
     (if blocks_needed \<le> UNIQUE_THRESHOLD then blocks_needed
      else if blocks_needed \<ge> HUGE_THRESHOLD then N_HBLK_FLS
      else (blocks_needed - UNIQUE_THRESHOLD) div FL_COMPRESSION + UNIQUE_THRESHOLD)"

section \<open>When to collect\<close>

definition min_bytes_allocd :: "'a block_heap_scheme \<Rightarrow> 64 word" where
  "min_bytes_allocd st =
     (let total_root_size = 2 * stack_size st + GC_root_size st;
          scan_size = 2 * GC_composite_in_use st + GC_atomic_in_use st div 4 + total_root_size
      in if GC_incremental st then scan_size div (2 * GC_free_space_divisor st)
         else scan_size div GC_free_space_divisor st)"

definition GC_adj_bytes_allocd :: "'a block_heap_scheme \<Rightarrow> 64 word" where
  "GC_adj_bytes_allocd st =
     (let expl_managed = GC_non_gc_bytes st - GC_non_gc_bytes_at_gc st;
          result = GC_bytes_allocd st + GC_bytes_dropped st - GC_bytes_freed st + GC_finalizer_bytes_freed st - expl_managed;
          result = (if sint result > sint (GC_bytes_allocd st) then GC_bytes_allocd st else result);
          result = result + GC_bytes_finalized st
      in if sint result < sint (drop_bit 3 (GC_bytes_allocd st)) then drop_bit 3 (GC_bytes_allocd st) else result)"

definition GC_should_collect :: "'a block_heap_scheme \<Rightarrow> bool \<times> 'a block_heap_scheme" where
  "GC_should_collect st =
     (let st = (if last_gc_no st \<noteq> GC_gc_no st
                then st\<lparr>last_gc_no := GC_gc_no st, last_min_bytes_allocd := min_bytes_allocd st\<rparr> else st)
      in (GC_adj_bytes_allocd st \<ge> last_min_bytes_allocd st \<or> of_nat (GC_heapsize st) \<ge> GC_collect_at_heapsize st, st))"

section \<open>Headers of blocks in use\<close>

definition setup_header :: "nat \<Rightarrow> nat \<Rightarrow> nat \<Rightarrow> nat \<Rightarrow> bool \<Rightarrow> 'a block_heap_scheme \<Rightarrow> (bool \<times> 'a block_heap_scheme) res" where
  "setup_header r block byte_sz kind ignore_off_page st =
     (if kind \<ge> length (GC_obj_kinds st) then Inl OutOfBounds
      else
        let k = GC_obj_kinds st ! kind;
            descr = ok_descriptor k + (if ok_relocate_descr k then byte_sz else 0);
            st = upd_hdr r (\<lambda>h. h\<lparr>hb_sz := byte_sz, hb_obj_kind := kind, hb_free := False,
                   hb_ignore_off_page := ignore_off_page, hb_block := block, hb_descr := descr,
                   hb_large_block := byte_sz > MAXOBJBYTES\<rparr>) st;
            granules = BYTES_TO_GRANULES byte_sz;
            (ok, st) = GC_add_map_entry granules st
        in if \<not> ok then
             Inr (False, upd_hdr r (\<lambda>h. h\<lparr>hb_sz := HBLKSIZE, hb_descr := 0, hb_large_block := True, hb_map := None\<rparr>) st)
           else
             let index = (if byte_sz > MAXOBJBYTES then 0 else granules)
             in Inr (True, upd_hdr r (\<lambda>h. (GC_clear_hdr_marks (h\<lparr>hb_map := GC_obj_map st ! index\<rparr>))
                    \<lparr>hb_last_reclaimed := GC_gc_no st mod 2 ^ 16\<rparr>) st))"

section \<open>Operations on the free lists\<close>

text \<open>\<open>None\<close> is \<open>FL_UNKNOWN\<close>.\<close>

definition GC_remove_from_fl :: "nat \<Rightarrow> nat option \<Rightarrow> 'a block_heap_scheme \<Rightarrow> 'a block_heap_scheme res" where
  "GC_remove_from_fl r n st =
     (let index = (case n of None \<Rightarrow> GC_hblk_fl_from_blocks (hb_sz (hdrs st ! r) div HBLKSIZE) | Some n \<Rightarrow> n)
      in rbind (if hb_prev (hdrs st ! r) = 0
                then Inr (st\<lparr>GC_hblkfreelist := (GC_hblkfreelist st)[index := hb_next (hdrs st ! r)]\<rparr>)
                else rbind (get_hdr st (hb_prev (hdrs st ! r))) (\<lambda>p.
                       Inr (upd_hdr p (\<lambda>h. h\<lparr>hb_next := hb_next (hdrs st ! r)\<rparr>) st))) (\<lambda>st.
         let st = st\<lparr>GC_free_bytes := (GC_free_bytes st)[index := GC_free_bytes st ! index - of_nat (hb_sz (hdrs st ! r))]\<rparr>
         in if hb_next (hdrs st ! r) \<noteq> 0 then
              rbind (get_hdr st (hb_next (hdrs st ! r))) (\<lambda>q.
                Inr (upd_hdr q (\<lambda>h. h\<lparr>hb_prev := hb_prev (hdrs st ! r)\<rparr>) st))
            else Inr st))"

text \<open>Following forwarding counts downwards from \<open>p\<close>.\<close>

fun forwarded :: "'a headers_scheme \<Rightarrow> nat \<Rightarrow> nat \<Rightarrow> (nat \<times> entry) res" where
  "forwarded st 0 p = Inl OutOfFuel"
| "forwarded st (Suc k) p = (case HDR st p of Jump d \<Rightarrow> forwarded st k (p - d) | e \<Rightarrow> Inr (p, e))"

definition GC_free_block_ending_at :: "nat \<Rightarrow> 'a headers_scheme \<Rightarrow> nat option res" where
  "GC_free_block_ending_at h st =
     rbind (forwarded st (h + 1) (h - 1)) (\<lambda>(p, e).
       case e of
         Hdr r \<Rightarrow> Inr (if is_free st r then Some p else None)
       | _ \<Rightarrow>
         (case GC_prev_block st (h - 1) of
            None \<Rightarrow> Inr None
          | Some p \<Rightarrow> rbind (get_hdr st p) (\<lambda>r.
              Inr (if is_free st r \<and> p * HBLKSIZE + hb_sz (hdrs st ! r) = h * HBLKSIZE then Some p else None))))"

definition GC_add_to_fl :: "nat \<Rightarrow> nat \<Rightarrow> 'a block_heap_scheme \<Rightarrow> 'a block_heap_scheme res" where
  "GC_add_to_fl h r st =
     (let index = GC_hblk_fl_from_blocks (hb_sz (hdrs st ! r) div HBLKSIZE);
          second = GC_hblkfreelist st ! index;
          st = st\<lparr>GC_hblkfreelist := (GC_hblkfreelist st)[index := h],
                  GC_free_bytes := (GC_free_bytes st)[index := GC_free_bytes st ! index + of_nat (hb_sz (hdrs st ! r))]\<rparr>;
          st = upd_hdr r (\<lambda>h. h\<lparr>hb_next := second, hb_prev := 0\<rparr>) st
      in rbind (if second \<noteq> 0 then rbind (get_hdr st second) (\<lambda>q. Inr (upd_hdr q (\<lambda>x. x\<lparr>hb_prev := h\<rparr>) st))
                else Inr st) (\<lambda>st. Inr (upd_hdr r (\<lambda>h. h\<lparr>hb_free := True\<rparr>) st)))"

text \<open>The block of \<open>bytes\<close> bytes at \<open>h\<close>, or null.\<close>

definition GC_get_first_part :: "nat \<Rightarrow> nat \<Rightarrow> nat \<Rightarrow> nat \<Rightarrow> 'a block_heap_scheme \<Rightarrow> (nat \<times> 'a block_heap_scheme) res" where
  "GC_get_first_part h r bytes index st =
     (let total_size = hb_sz (hdrs st ! r)
      in rbind (GC_remove_from_fl r (Some index) st) (\<lambda>st.
         if total_size = bytes then Inr (h, st)
         else
           let rest = (h * HBLKSIZE + bytes) div HBLKSIZE;
               (q, st) = GC_install_header rest st
           in case q of
                None \<Rightarrow> Inr (0, st)
              | Some q \<Rightarrow>
                  let st = upd_hdr q (\<lambda>x. x\<lparr>hb_sz := total_size - bytes, hb_free := False, hb_ignore_off_page := False\<rparr>) st
                  in rbind (GC_add_to_fl rest q st) (\<lambda>st. Inr (h, st))))"

definition GC_split_block :: "nat \<Rightarrow> nat \<Rightarrow> nat \<Rightarrow> nat \<Rightarrow> nat \<Rightarrow> 'a block_heap_scheme \<Rightarrow> 'a block_heap_scheme res" where
  "GC_split_block h r n q index st =
     (let total_size = hb_sz (hdrs st ! r);
          h_size = n * HBLKSIZE - h * HBLKSIZE;
          prev = hb_prev (hdrs st ! r);
          next = hb_next (hdrs st ! r);
          st = upd_hdr q (\<lambda>x. x\<lparr>hb_prev := prev, hb_next := next, hb_sz := total_size - h_size,
                 hb_free := False, hb_ignore_off_page := False\<rparr>) st
      in rbind (if prev \<noteq> 0 then rbind (get_hdr st prev) (\<lambda>p. Inr (upd_hdr p (\<lambda>x. x\<lparr>hb_next := n\<rparr>) st))
                else Inr (st\<lparr>GC_hblkfreelist := (GC_hblkfreelist st)[index := n]\<rparr>)) (\<lambda>st.
         rbind (if next \<noteq> 0 then rbind (get_hdr st next) (\<lambda>p. Inr (upd_hdr p (\<lambda>x. x\<lparr>hb_prev := n\<rparr>) st)) else Inr st) (\<lambda>st.
         let st = st\<lparr>GC_free_bytes := (GC_free_bytes st)[index := GC_free_bytes st ! index - of_nat h_size]\<rparr>;
             st = upd_hdr r (\<lambda>x. x\<lparr>hb_sz := h_size\<rparr>) st
         in rbind (GC_add_to_fl h r st) (\<lambda>st. Inr (upd_hdr q (\<lambda>x. x\<lparr>hb_free := True\<rparr>) st)))))"

section \<open>Searching a list\<close>

text \<open>A completely black listed block is given up, in chunks of one block.\<close>

fun drop_chunks :: "nat \<Rightarrow> nat \<Rightarrow> nat list \<Rightarrow> 'a block_heap_scheme \<Rightarrow> 'a block_heap_scheme res" where
  "drop_chunks hbp r [] st = Inr st"
| "drop_chunks hbp r (h # hs) st =
     (let (q, st) = (if h = hbp then (Some r, st) else GC_install_header h st)
      in case q of
           None \<Rightarrow> drop_chunks hbp r hs st
         | Some q \<Rightarrow>
             rbind (setup_header q h HBLKSIZE PTRFREE False st) (\<lambda>(_, st).
               drop_chunks hbp r hs
                 (if GC_debugging_started st
                  then st\<lparr>heap_mem := (\<lambda>a. if h * HBLKSIZE \<le> a \<and> a < (h + 1) * HBLKSIZE then 0 else heap_mem st a)\<rparr>
                  else st)))"

definition drop_block :: "nat \<Rightarrow> nat \<Rightarrow> nat \<Rightarrow> 'a block_heap_scheme \<Rightarrow> 'a block_heap_scheme res" where
  "drop_block hbp r n st =
     (let total_size = hb_sz (hdrs st ! r);
          limit = hbp + total_size div HBLKSIZE;
          st = st\<lparr>GC_large_free_bytes := GC_large_free_bytes st - of_nat total_size,
                  GC_bytes_dropped := GC_bytes_dropped st + of_nat total_size\<rparr>
      in rbind (GC_remove_from_fl r (Some n) st) (\<lambda>st. drop_chunks hbp r [hbp..<limit] st))"

text \<open>
  What the body of the loop does with a free block that is large enough: \<open>Take h r\<close> leaves the
  loop with block \<open>h\<close> (\<open>h = 0\<close> when its remainder got no header), \<open>Skip b\<close> goes on with \<open>b\<close>.
\<close>

datatype choice = Take nat nat | Skip nat

definition take_part :: "nat \<Rightarrow> nat \<Rightarrow> nat \<Rightarrow> nat \<Rightarrow> 'a block_heap_scheme \<Rightarrow> (choice \<times> 'a block_heap_scheme) res" where
  "take_part hbp r size_needed n st =
     rbind (GC_get_first_part hbp r size_needed n st) (\<lambda>(h, st). Inr (Take h r, st))"

text \<open>The black list is consulted, and the block split where it allows.\<close>

definition try_listed :: "bool \<Rightarrow> nat \<Rightarrow> nat \<Rightarrow> nat \<Rightarrow> nat \<Rightarrow> 'a block_heap_scheme \<Rightarrow> (choice \<times> 'a block_heap_scheme) res" where
  "try_listed ignore_off_page size_needed n hbp r st =
     (let orig_avail = hb_sz (hdrs st ! r);
          lim = (hbp * HBLKSIZE + orig_avail - size_needed) div HBLKSIZE;
          eff_size_needed = (if ignore_off_page then HBLKSIZE else size_needed)
      in rbind (skip_listed (\<lambda>h. GC_is_black_listed st h eff_size_needed) (lim + 2 - hbp) lim hbp) (\<lambda>lasthbp.
         let size_avail = signed_word orig_avail - int (lasthbp * HBLKSIZE - hbp * HBLKSIZE)
         in if size_avail \<ge> signed_word size_needed then
              if lasthbp \<noteq> hbp then
                let (q, st) = GC_install_header lasthbp st
                in case q of
                     None \<Rightarrow> take_part hbp r size_needed n st
                   | Some q \<Rightarrow>
                       rbind (GC_split_block hbp r lasthbp q n st) (\<lambda>st. take_part lasthbp q size_needed n st)
              else take_part hbp r size_needed n st
            else if signed_word size_needed > signed_word (GC_black_list_spacing st) \<and>
                signed_word orig_avail - signed_word size_needed > signed_word (GC_black_list_spacing st) then
              let w = GC_large_alloc_warn_suppressed st + 1;
                  st = st\<lparr>GC_large_alloc_warn_suppressed := (if w \<ge> GC_large_alloc_warn_interval st then 0 else w)\<rparr>
              in take_part hbp r size_needed n st
            else if size_avail = 0 \<and> size_needed = HBLKSIZE \<and> \<not> GC_find_leak st then
              let st = st\<lparr>GC_drop_count := GC_drop_count st + 1\<rparr>
              in if and (GC_drop_count st) 3 = 0 then
                   let prev = hb_prev (hdrs st ! r)
                   in rbind (drop_block hbp r n st) (\<lambda>st.
                      if prev = 0 then Inr (Skip (GC_hblkfreelist st ! n), st)
                      else rbind (get_hdr st prev) (\<lambda>p. Inr (Skip (hb_next (hdrs st ! p)), st)))
                 else Inr (Skip (hb_next (hdrs st ! r)), st)
            else Inr (Skip (hb_next (hdrs st ! r)), st)))"

text \<open>Is the next block on the list smaller, large enough and not black listed?\<close>

definition better_next :: "nat \<Rightarrow> nat \<Rightarrow> 'a block_heap_scheme \<Rightarrow> bool res" where
  "better_next size_needed r st =
     (let size_avail = hb_sz (hdrs st ! r); thishbp = hb_next (hdrs st ! r)
      in if thishbp \<noteq> 0 then
           rbind (get_hdr st thishbp) (\<lambda>q.
             let next_size = signed_word (hb_sz (hdrs st ! q))
             in if next_size < signed_word size_avail \<and> next_size \<ge> signed_word size_needed then
                  rbind (GC_is_black_listed st thishbp size_needed) (\<lambda>b. Inr (b = None))
                else Inr False)
         else Inr False)"

definition try_block :: "nat \<Rightarrow> nat \<Rightarrow> bool \<Rightarrow> nat \<Rightarrow> bool \<Rightarrow> nat \<Rightarrow> nat \<Rightarrow> 'a block_heap_scheme \<Rightarrow> (choice \<times> 'a block_heap_scheme) res" where
  "try_block size_needed kind ignore_off_page n may_split hbp r st =
     (let size_avail = hb_sz (hdrs st ! r); next = Inr (Skip (hb_next (hdrs st ! r)), st)
      in if signed_word size_avail < signed_word size_needed then next
         else if size_avail \<noteq> size_needed \<and> \<not> may_split then next
         else
           rbind (if size_avail \<noteq> size_needed then better_next size_needed r st else Inr False) (\<lambda>better.
             if better then next
             else if \<not> IS_UNCOLLECTABLE kind \<and> (kind \<noteq> PTRFREE \<or> size_needed > MAX_BLACK_LIST_ALLOC) then
               try_listed ignore_off_page size_needed n hbp r st
             else take_part hbp r size_needed n st))"

text \<open>The loop of \<open>GC_allochblk_nth\<close>: the block found, 0 if there is none, and its header.\<close>

fun search_list :: "nat \<Rightarrow> nat \<Rightarrow> nat \<Rightarrow> bool \<Rightarrow> nat \<Rightarrow> bool \<Rightarrow> nat \<Rightarrow> 'a block_heap_scheme \<Rightarrow> (nat \<times> nat \<times> 'a block_heap_scheme) res" where
  "search_list 0 size_needed kind ignore_off_page n may_split hbp st = Inl OutOfFuel"
| "search_list (Suc k) size_needed kind ignore_off_page n may_split hbp st =
     (if hbp = 0 then Inr (0, 0, st)
      else
        rbind (get_hdr st hbp) (\<lambda>r.
        rbind (try_block size_needed kind ignore_off_page n may_split hbp r st) (\<lambda>(c, st).
          case c of
            Take h r \<Rightarrow> Inr (h, r, st)
          | Skip b \<Rightarrow> search_list k size_needed kind ignore_off_page n may_split b st)))"

text \<open>Every block on a list has its own header, so there are at most as many turns as headers.\<close>

definition GC_allochblk_nth :: "nat \<Rightarrow> nat \<Rightarrow> bool \<Rightarrow> nat \<Rightarrow> bool \<Rightarrow> 'a block_heap_scheme \<Rightarrow> (nat \<times> 'a block_heap_scheme) res" where
  "GC_allochblk_nth sz kind ignore_off_page n may_split st =
     (let size_needed = HBLKSIZE * OBJ_SZ_TO_BLOCKS sz
      in rbind (search_list (length (hdrs st) + 1) size_needed kind ignore_off_page n may_split (GC_hblkfreelist st ! n) st)
           (\<lambda>(hbp, r, st).
         if hbp = 0 then Inr (0, st)
         else
           let (ok, st) = GC_install_counts hbp (size_needed div HBLKSIZE) st
           in if \<not> ok then Inr (0, st)
              else
                rbind (setup_header r hbp sz kind ignore_off_page st) (\<lambda>(ok, st).
                  if \<not> ok then Inr (0, GC_remove_counts hbp (size_needed div HBLKSIZE) st)
                  else
                    Inr (hbp, st\<lparr>GC_fail_count := 0,
                                 GC_large_free_bytes := GC_large_free_bytes st - of_nat size_needed\<rparr>))))"

section \<open>Allocating and freeing blocks\<close>

fun try_lists :: "nat \<Rightarrow> nat \<Rightarrow> bool \<Rightarrow> nat list \<Rightarrow> 'a block_heap_scheme \<Rightarrow> (nat \<times> 'a block_heap_scheme) res" where
  "try_lists sz kind ignore_off_page [] st = Inr (0, st)"
| "try_lists sz kind ignore_off_page (i # js) st =
     rbind (GC_allochblk_nth sz kind ignore_off_page i True st) (\<lambda>(result, st).
       if result \<noteq> 0 then Inr (result, st) else try_lists sz kind ignore_off_page js st)"

definition split_limit :: "'a block_heap_scheme \<Rightarrow> nat \<times> 'a block_heap_scheme" where
  "split_limit st =
     (if GC_use_entire_heap st \<or> GC_dont_gc st \<or>
         of_nat (GC_heapsize st) - GC_large_free_bytes st < GC_requested_heapsize st \<or> GC_incremental st
      then (N_HBLK_FLS, st)
      else
        let (should, st) = GC_should_collect st
        in if \<not> should then (N_HBLK_FLS, st)
           else if GC_finalizer_bytes_freed st > of_nat (GC_heapsize st div 16) then (0, st)
           else (GC_enough_large_bytes_left st, st))"

definition GC_allochblk :: "nat \<Rightarrow> nat \<Rightarrow> bool \<Rightarrow> 'a block_heap_scheme \<Rightarrow> (nat \<times> 'a block_heap_scheme) res" where
  "GC_allochblk sz kind ignore_off_page st =
     (let blocks = OBJ_SZ_TO_BLOCKS sz
      in if signed_word (blocks * HBLKSIZE) < 0 then Inr (0, st)
         else
           let start_list = GC_hblk_fl_from_blocks blocks
           in rbind (GC_allochblk_nth sz kind ignore_off_page start_list False st) (\<lambda>(result, st).
              if result \<noteq> 0 then Inr (result, st)
              else
                let (limit, st) = split_limit st;
                    start_list = (if start_list < UNIQUE_THRESHOLD then start_list + 1 else start_list)
                in try_lists sz kind ignore_off_page [start_list..<limit + 1] st))"

definition GC_freehblk :: "nat \<Rightarrow> 'a block_heap_scheme \<Rightarrow> 'a block_heap_scheme res" where
  "GC_freehblk hbp st =
     rbind (get_hdr st hbp) (\<lambda>r.
     let size = HBLKSIZE * OBJ_SZ_TO_BLOCKS (hb_sz (hdrs st ! r))
     in if signed_word size \<le> 0 then
          Inl (Abort ''Deallocating excessively large block.  Too large an allocation?'')
        else
          let st = GC_remove_counts hbp (size div HBLKSIZE) st;
              st = upd_hdr r (\<lambda>h. h\<lparr>hb_sz := size\<rparr>) st
          in if is_free st r then Inl (Abort ''Duplicate large block deallocation'')
             else
               let st = upd_hdr r (\<lambda>h. h\<lparr>hb_free := True\<rparr>) st;
                   next = (hbp * HBLKSIZE + size) div HBLKSIZE
               in rbind (GC_free_block_ending_at hbp st) (\<lambda>prev.
                  rbind (case HDR st next of
                           Nil_entry \<Rightarrow> Inr st
                         | Jump d \<Rightarrow> Inl BadArg
                         | Hdr q \<Rightarrow>
                             if is_free st q \<and> signed_word (hb_sz (hdrs st ! r) + hb_sz (hdrs st ! q)) > 0 then
                               rbind (GC_remove_from_fl q None st) (\<lambda>st.
                                 GC_remove_header next (upd_hdr r (\<lambda>h. h\<lparr>hb_sz := hb_sz h + hb_sz (hdrs st ! q)\<rparr>) st))
                             else Inr st) (\<lambda>st.
                  rbind (case prev of
                           None \<Rightarrow> Inr (hbp, r, st)
                         | Some prev \<Rightarrow>
                             rbind (get_hdr st prev) (\<lambda>p.
                               if signed_word (hb_sz (hdrs st ! r) + hb_sz (hdrs st ! p)) > 0 then
                                 rbind (GC_remove_from_fl p None st) (\<lambda>st.
                                 rbind (GC_remove_header hbp (upd_hdr p (\<lambda>h. h\<lparr>hb_sz := hb_sz h + hb_sz (hdrs st ! r)\<rparr>) st))
                                   (\<lambda>st. Inr (prev, p, st)))
                               else Inr (hbp, r, st))) (\<lambda>(h, r, st).
                  GC_add_to_fl h r (st\<lparr>GC_large_free_bytes := GC_large_free_bytes st + of_nat size\<rparr>)))))"

section \<open>New blocks of small objects\<close>

definition GC_new_hblk :: "nat \<Rightarrow> nat \<Rightarrow> 'a block_heap_scheme \<Rightarrow> 'a block_heap_scheme res" where
  "GC_new_hblk gran kind st =
     (if kind \<ge> length (GC_obj_kinds st) \<or> gran \<ge> length (ok_freelist (GC_obj_kinds st ! kind)) then Inl OutOfBounds
      else
        let clear = (if GC_debugging_started st then True else ok_init (GC_obj_kinds st ! kind))
        in rbind (GC_allochblk (GRANULES_TO_BYTES gran) kind False st) (\<lambda>(h, st).
           if h = 0 then Inr st
           else
             rbind (if IS_UNCOLLECTABLE kind
                    then rbind (get_hdr st h) (\<lambda>r. Inr (upd_hdr r GC_set_hdr_marks st)) else Inr st) (\<lambda>st.
             let k = GC_obj_kinds st ! kind
             in rbind (GC_build_fl h (GRANULES_TO_WORDS gran) clear (ok_freelist k ! gran) (heap_mem st)) (\<lambda>(p, m).
                Inr (st\<lparr>heap_mem := m,
                       GC_obj_kinds := (GC_obj_kinds st)[kind := k\<lparr>ok_freelist := (ok_freelist k)[gran := p]\<rparr>]\<rparr>)))))"

end
