(* ===== verification/GC_Freelist.thy ===== *)
theory GC_Freelist
  imports GC_Alloc
begin

text \<open>
  The free lists as lists: what the doubly linked lists threaded through the headers stand for,
  and what taking a block off its list and adding one does to them.
\<close>

section \<open>Headers by block\<close>

definition hdr_of :: "'a headers_scheme \<Rightarrow> nat \<Rightarrow> hdr option" where
  "hdr_of st b = (case HDR st b of Hdr r \<Rightarrow> Some (hdrs st ! r) | _ \<Rightarrow> None)"

lemma hdr_of_eq: "HDR st b = Hdr r \<Longrightarrow> hdr_of st b = Some (hdrs st ! r)"
  by (simp add: hdr_of_def)

lemma hdr_ofE:
  assumes "hdr_of st b = Some h"
  obtains r where "HDR st b = Hdr r" "hdrs st ! r = h"
  using assms by (auto simp: hdr_of_def split: entry.splits)

lemma get_hdr_eq: "HDR st b = Hdr r \<Longrightarrow> get_hdr st b = Inr r"
  by (simp add: get_hdr_def)

lemma map_ok_hdr:
  assumes "map_ok st" "HDR st b = Hdr r"
  shows "r < length (hdrs st)" "HDR st c = Hdr r \<longleftrightarrow> c = b"
  using assms by (auto simp: map_ok_def hdrs_ok_def)

lemma upd_hdr_simps [simp]:
  "HDR (upd_hdr r f st) b = HDR st b" "map_ok (upd_hdr r f st) = map_ok st"
  "length (hdrs (upd_hdr r f st)) = length (hdrs st)" "indexed (upd_hdr r f st) b = indexed st b"
  by (simp_all add: upd_hdr_def map_ok_def hdrs_ok_def)

lemma upd_hdr_lists [simp]:
  "GC_hblkfreelist (upd_hdr r f st) = GC_hblkfreelist st" "GC_free_bytes (upd_hdr r f st) = GC_free_bytes st"
  by (simp_all add: upd_hdr_def)

lemma upd_hdr_more [simp]: "headers.more (upd_hdr r f st) = headers.more st"
  by (simp add: upd_hdr_def)

lemma hdrs_upd_hdr: "r < length (hdrs st) \<Longrightarrow> hdrs (upd_hdr r f st) ! q = (if q = r then f (hdrs st ! r) else hdrs st ! q)"
  by (simp add: upd_hdr_def)

lemma hdr_of_upd:
  assumes "map_ok st" "HDR st c = Hdr r"
  shows "hdr_of (upd_hdr r f st) = (hdr_of st)(c := Some (f (hdrs st ! r)))"
proof (rule ext)
  fix b
  note ok = map_ok_hdr [OF assms]
  show "hdr_of (upd_hdr r f st) b = ((hdr_of st)(c := Some (f (hdrs st ! r)))) b"
  proof (cases "b = c")
    case False
    then have "HDR st b \<noteq> Hdr r" using ok(2) by blast
    with False show ?thesis using ok(1) by (auto simp: hdr_of_def hdrs_upd_hdr split: entry.splits)
  qed (use ok(1) assms(2) in \<open>simp add: hdr_of_def hdrs_upd_hdr\<close>)
qed

text \<open>Changes of the fields that are not part of the header map.\<close>

lemma HDR_cong: "bis st' = bis st \<Longrightarrow> top_index st' = top_index st \<Longrightarrow> HDR st' = HDR st"
  by (auto simp: HDR_def GET_BI_def fun_eq_iff)

lemma index_ok_cong:
  "bis st' = bis st \<Longrightarrow> top_index st' = top_index st \<Longrightarrow> all_bis st' = all_bis st \<Longrightarrow> all_bis_end st' = all_bis_end st \<Longrightarrow>
    index_ok st' = index_ok st"
  by (simp add: index_ok_def)

lemma hdr_of_cong: "bis st' = bis st \<Longrightarrow> top_index st' = top_index st \<Longrightarrow> hdrs st' = hdrs st \<Longrightarrow> hdr_of st' = hdr_of st"
  using HDR_cong [of st' st] by (auto simp: hdr_of_def fun_eq_iff split: entry.splits)

lemma map_ok_cong:
  assumes "bis st' = bis st" "top_index st' = top_index st" "all_bis st' = all_bis st" "all_bis_end st' = all_bis_end st"
    "hdrs st' = hdrs st" "hdr_free_list st' = hdr_free_list st"
  shows "map_ok st' = map_ok st"
  using HDR_cong [OF assms(1,2)] index_ok_cong [OF assms(1-4)] assms(5,6) by (simp add: map_ok_def hdrs_ok_def)

lemma get_hdr_cong: "bis st' = bis st \<Longrightarrow> top_index st' = top_index st \<Longrightarrow> get_hdr st' b = get_hdr st b"
  using HDR_cong [of st' st] by (simp add: get_hdr_def)

lemma fields_simps [simp]:
  fixes st :: "'a block_heap_scheme"
  shows "HDR (st\<lparr>GC_hblkfreelist := x\<rparr>) = HDR st" "HDR (st\<lparr>GC_free_bytes := y\<rparr>) = HDR st"
    "hdr_of (st\<lparr>GC_hblkfreelist := x\<rparr>) = hdr_of st" "hdr_of (st\<lparr>GC_free_bytes := y\<rparr>) = hdr_of st"
    "map_ok (st\<lparr>GC_hblkfreelist := x\<rparr>) = map_ok st" "map_ok (st\<lparr>GC_free_bytes := y\<rparr>) = map_ok st"
    "get_hdr (st\<lparr>GC_hblkfreelist := x\<rparr>) b = get_hdr st b" "get_hdr (st\<lparr>GC_free_bytes := y\<rparr>) b = get_hdr st b"
  by (rule HDR_cong hdr_of_cong get_hdr_cong map_ok_cong; simp)+

section \<open>Doubly linked lists\<close>

text \<open>A stretch of a list from \<open>s\<close>, with \<open>pr\<close> before it, up to \<open>e\<close>.\<close>

fun dlseg :: "(nat \<Rightarrow> hdr option) \<Rightarrow> nat \<Rightarrow> nat \<Rightarrow> nat list \<Rightarrow> nat \<Rightarrow> bool" where
  "dlseg H pr s [] e \<longleftrightarrow> s = e"
| "dlseg H pr s (b # bs) e \<longleftrightarrow> s = b \<and> b \<noteq> 0 \<and> (\<exists>h. H b = Some h \<and> hb_prev h = pr \<and> dlseg H b (hb_next h) bs e)"

definition last0 :: "nat \<Rightarrow> nat list \<Rightarrow> nat" where
  "last0 pr bs = (if bs = [] then pr else last bs)"

definition hd0 :: "nat list \<Rightarrow> nat \<Rightarrow> nat" where
  "hd0 bs e = (case bs of [] \<Rightarrow> e | b # _ \<Rightarrow> b)"

lemma ends_simps [simp]: "last0 pr [] = pr" "last0 pr (b # bs) = last0 b bs" "last0 pr (bs @ [b]) = b" "hd0 [] e = e" "hd0 (b # bs) e = b"
  by (simp_all add: last0_def hd0_def)

lemma dlseg_start: "dlseg H pr s bs e \<Longrightarrow> s = hd0 bs e"
  by (cases bs) auto

lemma dlseg_append: "dlseg H pr s (xs @ ys) e \<longleftrightarrow> dlseg H pr s xs (hd0 ys e) \<and> dlseg H (last0 pr xs) (hd0 ys e) ys e"
proof (induction xs arbitrary: pr s)
  case Nil
  then show ?case by (auto dest: dlseg_start)
qed auto

lemma dlseg_cong: "(\<And>b. b \<in> set bs \<Longrightarrow> H b = H' b) \<Longrightarrow> dlseg H pr s bs e = dlseg H' pr s bs e"
  by (induction bs arbitrary: pr s) auto

lemma dlseg_mem: "dlseg H pr s bs e \<Longrightarrow> b \<in> set bs \<Longrightarrow> b \<noteq> 0 \<and> (\<exists>h. H b = Some h)"
  by (induction bs arbitrary: pr s) auto

lemma dlseg_set_next:
  assumes "dlseg H pr s (xs @ [x]) e" "x \<notin> set xs" "H x = Some h" "H' x = Some (h\<lparr>hb_next := e'\<rparr>)"
    "\<And>b. b \<in> set xs \<Longrightarrow> H' b = H b"
  shows "dlseg H' pr s (xs @ [x]) e'"
  using assms dlseg_cong [of xs H' H] by (auto simp: dlseg_append)

lemma dlseg_set_prev:
  assumes "dlseg H pr s (y # ys) e" "y \<notin> set ys" "H y = Some h" "H' y = Some (h\<lparr>hb_prev := pr'\<rparr>)"
    "\<And>b. b \<in> set ys \<Longrightarrow> H' b = H b"
  shows "dlseg H' pr' s (y # ys) e"
  using assms dlseg_cong [of ys H' H] by auto

text \<open>The links of a block in the middle of a list.\<close>

lemma dlseg_middle:
  assumes "dlseg H pr s (xs @ b # ys) e"
  shows "\<exists>h. H b = Some h \<and> hb_prev h = last0 pr xs \<and> hb_next h = hd0 ys e \<and>
    dlseg H pr s xs b \<and> dlseg H b (hb_next h) ys e"
  using assms by (auto simp: dlseg_append dest: dlseg_start)

text \<open>A list without one of its blocks.\<close>

lemma dlseg_remove:
  assumes "dlseg H pr s (xs @ b # ys) e" "distinct (xs @ b # ys)"
    and "\<And>c. H' c = (if xs \<noteq> [] \<and> c = last xs then map_option (hb_next_update (\<lambda>_. hd0 ys e)) (H c)
           else if ys \<noteq> [] \<and> c = hd ys then map_option (hb_prev_update (\<lambda>_. last0 pr xs)) (H c) else H c)"
  shows "dlseg H' pr (if xs = [] then hd0 ys e else s) (xs @ ys) e"
proof -
  obtain h where h: "H b = Some h" "dlseg H pr s xs b" "dlseg H b (hd0 ys e) ys e"
    using dlseg_middle [OF assms(1)] by auto
  have "dlseg H' pr (if xs = [] then hd0 ys e else s) xs (hd0 ys e)"
  proof (cases xs rule: rev_cases)
    case (snoc zs x)
    obtain g where "H x = Some g" using h(2) snoc dlseg_mem [of H pr s xs b x] by auto
    moreover have "H' c = H c" if "c \<in> set zs" for c
      using assms(2,3) snoc that by (cases ys) auto
    ultimately show ?thesis
      using dlseg_set_next [of H pr s zs x b g H' "hd0 ys e"] h(2) assms(2,3) snoc by auto
  qed simp
  moreover have "dlseg H' (last0 pr xs) (hd0 ys e) ys e"
  proof (cases ys)
    case (Cons y zs)
    obtain g where g: "H y = Some g" using h(3) Cons by auto
    have "set xs \<inter> set ys = {}" using assms(2) by auto
    then have lx: "xs \<noteq> [] \<Longrightarrow> last xs \<notin> set ys" using last_in_set [of xs] by blast
    then have "H' c = H c" if "c \<in> set zs" for c
      using assms(2,3) Cons that by auto
    moreover have "\<not> (xs \<noteq> [] \<and> y = last xs)" using assms(2) Cons by (auto simp: last_in_set)
    ultimately show ?thesis
      using dlseg_set_prev [of H b "hd0 ys e" y zs e g H' "last0 pr xs"] g h(3) assms(2,3) Cons by auto
  qed simp
  ultimately show ?thesis by (simp add: dlseg_append)
qed

section \<open>The lists of a heap\<close>

definition bsize :: "'a headers_scheme \<Rightarrow> nat \<Rightarrow> nat" where
  "bsize st b = (case hdr_of st b of None \<Rightarrow> 0 | Some h \<Rightarrow> hb_sz h)"

definition sizes :: "'a headers_scheme \<Rightarrow> nat list \<Rightarrow> nat" where
  "sizes st bs = sum_list (map (bsize st) bs)"

definition list_ok :: "'a block_heap_scheme \<Rightarrow> nat \<Rightarrow> nat list \<Rightarrow> bool" where
  "list_ok st i bs \<longleftrightarrow> dlseg (hdr_of st) 0 (GC_hblkfreelist st ! i) bs 0 \<and> distinct bs \<and>
     GC_free_bytes st ! i = of_nat (sizes st bs)"

text \<open>\<open>L i\<close> is the list of index \<open>i\<close>; no block is on two lists.\<close>

definition lists_ok :: "'a block_heap_scheme \<Rightarrow> (nat \<Rightarrow> nat list) \<Rightarrow> bool" where
  "lists_ok st L \<longleftrightarrow> length (GC_hblkfreelist st) = N_HBLK_FLS + 1 \<and> length (GC_free_bytes st) = N_HBLK_FLS + 1 \<and>
     (\<forall>i\<le>N_HBLK_FLS. list_ok st i (L i)) \<and> (\<forall>i\<le>N_HBLK_FLS. \<forall>j\<le>N_HBLK_FLS. i \<noteq> j \<longrightarrow> set (L i) \<inter> set (L j) = {})"

definition on_list :: "(nat \<Rightarrow> nat list) \<Rightarrow> nat \<Rightarrow> bool" where
  "on_list L b \<longleftrightarrow> (\<exists>i\<le>N_HBLK_FLS. b \<in> set (L i))"

text \<open>A header without its links.\<close>

definition core :: "hdr \<Rightarrow> hdr" where
  "core h = h\<lparr>hb_next := 0, hb_prev := 0\<rparr>"

definition cores :: "'a headers_scheme \<Rightarrow> nat \<Rightarrow> hdr option" where
  "cores st b = map_option core (hdr_of st b)"

text \<open>States that differ in the links, the heads of the lists and their byte counts only.\<close>

definition relinked :: "'a block_heap_scheme \<Rightarrow> 'a block_heap_scheme \<Rightarrow> bool" where
  "relinked st st' \<longleftrightarrow> (\<exists>hs fls fb. st' = st\<lparr>hdrs := hs, GC_hblkfreelist := fls, GC_free_bytes := fb\<rparr> \<and>
     length hs = length (hdrs st)) \<and> cores st' = cores st"

lemma core_simps [simp]:
  "hb_sz (core h) = hb_sz h" "hb_free (core h) = hb_free h" "core (h\<lparr>hb_next := n\<rparr>) = core h" "core (h\<lparr>hb_prev := n\<rparr>) = core h"
  by (simp_all add: core_def)

lemma bsize_core: "bsize st b = (case cores st b of None \<Rightarrow> 0 | Some h \<Rightarrow> hb_sz h)"
  by (cases "hdr_of st b") (simp_all add: bsize_def cores_def)

lemma bsize_cores: "cores st' b = cores st b \<Longrightarrow> bsize st' b = bsize st b"
  by (simp add: bsize_core)

lemma sizes_simps [simp]: "sizes st [] = 0" "sizes st (b # bs) = bsize st b + sizes st bs" "sizes st (xs @ ys) = sizes st xs + sizes st ys"
  by (simp_all add: sizes_def)

lemma sizes_cong: "(\<And>b. b \<in> set bs \<Longrightarrow> bsize st' b = bsize st b) \<Longrightarrow> sizes st' bs = sizes st bs"
  by (induction bs) simp_all

lemma relinked_refl: "relinked st st"
  unfolding relinked_def by (intro conjI exI [of _ "hdrs st"] exI [of _ "GC_hblkfreelist st"] exI [of _ "GC_free_bytes st"]) simp_all

lemma relinked_trans:
  assumes "relinked st st1" "relinked st1 st2"
  shows "relinked st st2"
proof -
  obtain hs fls fb where st1: "st1 = st\<lparr>hdrs := hs, GC_hblkfreelist := fls, GC_free_bytes := fb\<rparr>" "length hs = length (hdrs st)"
    using assms(1) by (auto simp: relinked_def)
  obtain hs' fls' fb' where st2: "st2 = st1\<lparr>hdrs := hs', GC_hblkfreelist := fls', GC_free_bytes := fb'\<rparr>" "length hs' = length (hdrs st1)"
    using assms(2) by (auto simp: relinked_def)
  have "st2 = st\<lparr>hdrs := hs', GC_hblkfreelist := fls', GC_free_bytes := fb'\<rparr>" "length hs' = length (hdrs st)"
    using st1 st2 by simp_all
  moreover have "cores st2 = cores st" using assms by (simp add: relinked_def)
  ultimately show ?thesis unfolding relinked_def by blast
qed

lemma relinked_fields:
  fixes st :: "'a block_heap_scheme"
  shows "relinked st (st\<lparr>GC_hblkfreelist := x\<rparr>)" "relinked st (st\<lparr>GC_free_bytes := y\<rparr>)"
proof -
  have "cores (st\<lparr>GC_hblkfreelist := x\<rparr>) = cores st" "cores (st\<lparr>GC_free_bytes := y\<rparr>) = cores st"
    by (simp_all add: cores_def fun_eq_iff)
  moreover have "st\<lparr>GC_hblkfreelist := x\<rparr> = st\<lparr>hdrs := hdrs st, GC_hblkfreelist := x, GC_free_bytes := GC_free_bytes st\<rparr>"
    "st\<lparr>GC_free_bytes := y\<rparr> = st\<lparr>hdrs := hdrs st, GC_hblkfreelist := GC_hblkfreelist st, GC_free_bytes := y\<rparr>" by simp_all
  ultimately show "relinked st (st\<lparr>GC_hblkfreelist := x\<rparr>)" "relinked st (st\<lparr>GC_free_bytes := y\<rparr>)"
    unfolding relinked_def by metis+
qed

lemma relinked_upd:
  assumes "map_ok st" "HDR st b = Hdr r" "core (f (hdrs st ! r)) = core (hdrs st ! r)"
  shows "relinked st (upd_hdr r f st)"
proof -
  have "cores (upd_hdr r f st) = cores st"
    using assms(2,3) by (auto simp: cores_def fun_eq_iff hdr_of_upd [OF assms(1,2)] hdr_of_eq)
  moreover have "upd_hdr r f st = st\<lparr>hdrs := (hdrs st)[r := f (hdrs st ! r)], GC_hblkfreelist := GC_hblkfreelist st,
      GC_free_bytes := GC_free_bytes st\<rparr>" by (simp add: upd_hdr_def)
  ultimately show ?thesis unfolding relinked_def by (metis length_list_update)
qed

text \<open>What such a change keeps.\<close>

lemma relinkedD:
  assumes "relinked st st'"
  shows "HDR st' = HDR st" "map_ok st' = map_ok st" "cores st' = cores st" "bsize st' b = bsize st b"
    "indexed st' b = indexed st b" "length (hdrs st') = length (hdrs st)"
proof -
  obtain hs fls fb where st': "st' = st\<lparr>hdrs := hs, GC_hblkfreelist := fls, GC_free_bytes := fb\<rparr>" "length hs = length (hdrs st)"
    using assms by (auto simp: relinked_def)
  have b: "bis st' = bis st" "top_index st' = top_index st" "all_bis st' = all_bis st" "all_bis_end st' = all_bis_end st"
    "hdr_free_list st' = hdr_free_list st" "length (hdrs st') = length (hdrs st)"
    using st' by simp_all
  then show H: "HDR st' = HDR st" by (intro HDR_cong)
  show "map_ok st' = map_ok st" using b H index_ok_cong [OF b(1-4)] by (simp add: map_ok_def hdrs_ok_def)
  show "cores st' = cores st" using assms by (simp add: relinked_def)
  then show "bsize st' b = bsize st b" by (intro bsize_cores) simp
  show "indexed st' b = indexed st b" using b by (simp add: indexed_def GET_BI_def)
  show "length (hdrs st') = length (hdrs st)" using b by simp
qed

lemma relinked_is_free:
  assumes "relinked st st'" "HDR st b = Hdr r"
  shows "core (hdrs st' ! r) = core (hdrs st ! r)" "is_free st' r = is_free st r" "hb_sz (hdrs st' ! r) = hb_sz (hdrs st ! r)"
proof -
  have "cores st' b = cores st b" using relinkedD(3) [OF assms(1)] by simp
  then show *: "core (hdrs st' ! r) = core (hdrs st ! r)"
    using assms(2) relinkedD(1) [OF assms(1)] by (simp add: cores_def hdr_of_eq)
  show "is_free st' r = is_free st r" "hb_sz (hdrs st' ! r) = hb_sz (hdrs st ! r)"
    using arg_cong [OF *, of hb_free] arg_cong [OF *, of hb_sz] by (simp_all add: is_free_def)
qed

text \<open>The length of a list is at most the number of headers.\<close>

lemma dlseg_length:
  assumes "map_ok st" "dlseg (hdr_of st) pr s bs e" "distinct bs"
  shows "length bs \<le> length (hdrs st)"
proof -
  let ?r = "\<lambda>b. THE r. HDR st b = Hdr r"
  have r: "\<exists>r. HDR st b = Hdr r" if "b \<in> set bs" for b
    using dlseg_mem [OF assms(2) that] by (metis hdr_ofE)
  have "inj_on ?r (set bs)"
  proof (rule inj_onI)
    fix b c assume bc: "b \<in> set bs" "c \<in> set bs" "?r b = ?r c"
    obtain p q where "HDR st b = Hdr p" "HDR st c = Hdr q" using r bc by blast
    with bc(3) show "b = c" using map_ok_hdr(2) [OF assms(1)] by auto
  qed
  moreover have "?r ` set bs \<subseteq> {..<length (hdrs st)}" using r map_ok_hdr(1) [OF assms(1)] by fastforce
  ultimately have "card (set bs) \<le> card {..<length (hdrs st)}" by (intro card_inj_on_le) auto
  with distinct_card [OF assms(3)] show ?thesis by simp
qed

section \<open>Taking a block off its list\<close>

lemma lists_okD:
  assumes "lists_ok st L" "i \<le> N_HBLK_FLS"
  shows "list_ok st i (L i)" "i < length (GC_hblkfreelist st)" "i < length (GC_free_bytes st)"
    "dlseg (hdr_of st) 0 (GC_hblkfreelist st ! i) (L i) 0" "distinct (L i)"
    "j \<le> N_HBLK_FLS \<Longrightarrow> i \<noteq> j \<Longrightarrow> set (L i) \<inter> set (L j) = {}"
proof -
  show l: "list_ok st i (L i)" using assms by (simp add: lists_ok_def)
  show "dlseg (hdr_of st) 0 (GC_hblkfreelist st ! i) (L i) 0" "distinct (L i)" using l by (simp_all add: list_ok_def)
  show "i < length (GC_hblkfreelist st)" "i < length (GC_free_bytes st)" using assms by (simp_all add: lists_ok_def)
  show "set (L i) \<inter> set (L j) = {}" if "j \<le> N_HBLK_FLS" "i \<noteq> j"
    using assms that unfolding lists_ok_def by blast
qed

text \<open>One list changes; the blocks of the others keep their headers.\<close>

lemma lists_ok_change:
  assumes "lists_ok st L" "i \<le> N_HBLK_FLS" "list_ok st' i bs"
    and "\<And>j. j \<le> N_HBLK_FLS \<Longrightarrow> j \<noteq> i \<Longrightarrow> set bs \<inter> set (L j) = {}"
    and "length (GC_hblkfreelist st') = length (GC_hblkfreelist st)" "length (GC_free_bytes st') = length (GC_free_bytes st)"
    and "\<And>j. j \<noteq> i \<Longrightarrow> GC_hblkfreelist st' ! j = GC_hblkfreelist st ! j \<and> GC_free_bytes st' ! j = GC_free_bytes st ! j"
    and "\<And>j c. j \<le> N_HBLK_FLS \<Longrightarrow> j \<noteq> i \<Longrightarrow> c \<in> set (L j) \<Longrightarrow> hdr_of st' c = hdr_of st c"
  shows "lists_ok st' (L(i := bs))"
proof -
  have "list_ok st' j (L j)" if j: "j \<le> N_HBLK_FLS" "j \<noteq> i" for j
  proof -
    have "dlseg (hdr_of st') 0 (GC_hblkfreelist st ! j) (L j) 0"
      using lists_okD(4) [OF assms(1) j(1)] dlseg_cong [of "L j" "hdr_of st'" "hdr_of st"] assms(8) [OF j] by simp
    moreover have "sizes st' (L j) = sizes st (L j)"
      by (rule sizes_cong) (simp add: bsize_def assms(8) [OF j])
    ultimately show ?thesis using lists_okD(1) [OF assms(1) j(1)] assms(7) [OF j(2)] by (simp add: list_ok_def)
  qed
  moreover have "set bs \<inter> set (L j) = {}" "set (L j) \<inter> set bs = {}" if "j \<le> N_HBLK_FLS" "j \<noteq> i" for j
    using assms(4) [OF that] by blast+
  ultimately show ?thesis using assms(1,3,5,6) unfolding lists_ok_def by (auto simp del: Int_iff)
qed

lemma GC_remove_from_fl_ok:
  assumes "map_ok st" "lists_ok st L" "i \<le> N_HBLK_FLS" "L i = xs @ b # ys" "HDR st b = Hdr r"
    and n: "n = Some i \<or> n = None \<and> GC_hblk_fl_from_blocks (hb_sz (hdrs st ! r) div HBLKSIZE) = i"
  shows "\<exists>st'. GC_remove_from_fl r n st = Inr st' \<and> relinked st st' \<and> lists_ok st' (L(i := xs @ ys)) \<and>
    (\<forall>c. c \<notin> set (xs @ ys) \<longrightarrow> hdr_of st' c = hdr_of st c) \<and>
    (\<forall>q. (\<forall>c\<in>set (xs @ ys). HDR st c \<noteq> Hdr q) \<longrightarrow> hdrs st' ! q = hdrs st ! q)"
proof -
  note D = lists_okD [OF assms(2,3)]
  let ?h = "hdrs st ! r" and ?pr = "last0 0 xs" and ?nx = "hd0 ys 0"
  have h: "hb_prev ?h = ?pr" "hb_next ?h = ?nx"
    using dlseg_middle [of "hdr_of st" 0 _ xs b ys 0] D(4) assms(4,5) by (auto simp: hdr_of_eq)
  have dist: "distinct (xs @ b # ys)" using D(5) assms(4) by simp
  have mem: "c \<noteq> 0 \<and> (\<exists>q. HDR st c = Hdr q)" if "c \<in> set (xs @ b # ys)" for c
    using dlseg_mem [OF D(4), of c] that assms(4) by (metis hdr_ofE)
  have prz: "?pr = 0 \<longleftrightarrow> xs = []" using mem by (cases xs rule: rev_cases) auto
  have nxz: "?nx = 0 \<longleftrightarrow> ys = []" using mem by (cases ys) auto
  define stA where "stA = (if xs = [] then st\<lparr>GC_hblkfreelist := (GC_hblkfreelist st)[i := ?nx]\<rparr>
      else upd_hdr (THE p. HDR st (last xs) = Hdr p) (\<lambda>h. h\<lparr>hb_next := ?nx\<rparr>) st)"
  define stB where "stB = stA\<lparr>GC_free_bytes := (GC_free_bytes stA)[i := GC_free_bytes stA ! i - of_nat (hb_sz ?h)]\<rparr>"
  define stC where "stC = (if ys = [] then stB else upd_hdr (THE q. HDR st (hd ys) = Hdr q) (\<lambda>h. h\<lparr>hb_prev := ?pr\<rparr>) stB)"
  have A: "relinked st stA \<and> hdrs stA ! r = ?h \<and>
      hdr_of stA = (\<lambda>c. if xs \<noteq> [] \<and> c = last xs then map_option (hb_next_update (\<lambda>_. ?nx)) (hdr_of st c) else hdr_of st c) \<and>
      GC_hblkfreelist stA = (if xs = [] then (GC_hblkfreelist st)[i := ?nx] else GC_hblkfreelist st) \<and> GC_free_bytes stA = GC_free_bytes st \<and>
      (\<forall>q. (\<forall>c\<in>set (xs @ ys). HDR st c \<noteq> Hdr q) \<longrightarrow> hdrs stA ! q = hdrs st ! q) \<and>
      (if ?pr = 0 then Inr (st\<lparr>GC_hblkfreelist := (GC_hblkfreelist st)[i := ?nx]\<rparr>)
       else rbind (get_hdr st ?pr) (\<lambda>p. Inr (upd_hdr p (\<lambda>h. h\<lparr>hb_next := ?nx\<rparr>) st))) = Inr stA"
  proof (cases xs rule: rev_cases)
    case Nil
    then show ?thesis by (simp add: stA_def relinked_fields)
  next
    case (snoc zs x)
    then obtain p where p: "HDR st x = Hdr p" using mem [of x] by auto
    have the: "(THE p. HDR st (last xs) = Hdr p) = p" using snoc p by simp
    have "p \<noteq> r" using map_ok_hdr(2) [OF assms(1) p] assms(5) dist snoc by auto
    moreover have "hdrs stA ! q = hdrs st ! q" if "\<forall>c\<in>set (xs @ ys). HDR st c \<noteq> Hdr q" for q
      using that snoc p map_ok_hdr(1) [OF assms(1) p] by (auto simp: stA_def the hdrs_upd_hdr)
    ultimately show ?thesis
      using snoc p mem [of x] relinked_upd [OF assms(1) p] map_ok_hdr(1) [OF assms(1) p]
      by (auto simp: stA_def the get_hdr_eq hdr_of_upd [OF assms(1) p] hdrs_upd_hdr hdr_of_eq fun_eq_iff)
  qed
  have B: "relinked st stB" "hdrs stB ! r = ?h" "hdr_of stB = hdr_of stA" "HDR stB = HDR st" "map_ok stB"
    "GC_hblkfreelist stB = GC_hblkfreelist stA" "GC_free_bytes stB = (GC_free_bytes st)[i := GC_free_bytes st ! i - of_nat (hb_sz ?h)]"
    "\<And>q. (\<forall>c\<in>set (xs @ ys). HDR st c \<noteq> Hdr q) \<longrightarrow> hdrs stB ! q = hdrs st ! q"
    using A relinked_trans [of st stA stB] relinked_fields(2) [of stA] relinkedD(1,2) [of st stA] assms(1)
    by (simp_all add: stB_def)
  have C: "relinked st stC \<and>
      hdr_of stC = (\<lambda>c. if ys \<noteq> [] \<and> c = hd ys then map_option (hb_prev_update (\<lambda>_. ?pr)) (hdr_of stB c) else hdr_of stB c) \<and>
      GC_hblkfreelist stC = GC_hblkfreelist stB \<and> GC_free_bytes stC = GC_free_bytes stB \<and>
      (\<forall>q. (\<forall>c\<in>set (xs @ ys). HDR st c \<noteq> Hdr q) \<longrightarrow> hdrs stC ! q = hdrs st ! q) \<and>
      (if ?nx \<noteq> 0 then rbind (get_hdr stB ?nx) (\<lambda>q. Inr (upd_hdr q (\<lambda>h. h\<lparr>hb_prev := ?pr\<rparr>) stB)) else Inr stB) = Inr stC"
  proof (cases ys)
    case Nil
    then show ?thesis using B by (simp add: stC_def)
  next
    case (Cons y zs)
    then obtain q where q': "HDR st y = Hdr q" and q: "HDR stB y = Hdr q" using mem [of y] B(4) by auto
    have the: "(THE q. HDR st (hd ys) = Hdr q) = q" using Cons q' by simp
    have "hdrs stC ! p = hdrs st ! p" if "\<forall>c\<in>set (xs @ ys). HDR st c \<noteq> Hdr p" for p
      using that Cons q' B(8) map_ok_hdr(1) [OF B(5) q] by (auto simp: stC_def the hdrs_upd_hdr)
    then show ?thesis
      using Cons mem [of y] q q' relinked_upd [OF B(5) q] relinked_trans [OF B(1)]
      by (auto simp: stC_def the get_hdr_eq hdr_of_upd [OF B(5) q] hdr_of_eq fun_eq_iff)
  qed
  have run: "GC_remove_from_fl r n st = Inr stC"
  proof -
    have idx: "(case n of None \<Rightarrow> GC_hblk_fl_from_blocks (hb_sz ?h div HBLKSIZE) | Some n \<Rightarrow> n) = i"
      using n by auto
    have rA: "hdrs stA ! r = ?h" and eqA: "(if ?pr = 0 then Inr (st\<lparr>GC_hblkfreelist := (GC_hblkfreelist st)[i := ?nx]\<rparr>)
       else rbind (get_hdr st ?pr) (\<lambda>p. Inr (upd_hdr p (\<lambda>h. h\<lparr>hb_next := ?nx\<rparr>) st))) = Inr stA"
      and eqC: "(if ?nx \<noteq> 0 then rbind (get_hdr stB ?nx) (\<lambda>q. Inr (upd_hdr q (\<lambda>h. h\<lparr>hb_prev := ?pr\<rparr>) stB)) else Inr stB) = Inr stC"
      using A C by blast+
    show ?thesis
      by (simp only: GC_remove_from_fl_def idx Let_def h eqA rbind_Inr rA stB_def [symmetric] B(2) eqC)
  qed
  have H: "hdr_of stC c = (if xs \<noteq> [] \<and> c = last xs then map_option (hb_next_update (\<lambda>_. ?nx)) (hdr_of st c)
      else if ys \<noteq> [] \<and> c = hd ys then map_option (hb_prev_update (\<lambda>_. ?pr)) (hdr_of st c) else hdr_of st c)" for c
  proof -
    have "\<not> (xs \<noteq> [] \<and> ys \<noteq> [] \<and> last xs = hd ys)" using dist by (cases ys; cases xs rule: rev_cases) auto
    then show ?thesis using A B(3) C by auto
  qed
  have same: "hdr_of stC c = hdr_of st c" if "c \<notin> set (xs @ ys)" for c
    using that H [of c] by (cases ys; cases xs rule: rev_cases) auto
  have flC: "GC_hblkfreelist stC = (if xs = [] then (GC_hblkfreelist st)[i := ?nx] else GC_hblkfreelist st)"
    and fbC: "GC_free_bytes stC = (GC_free_bytes st)[i := GC_free_bytes st ! i - of_nat (hb_sz ?h)]" and relC: "relinked st stC"
    using A B(6,7) C by simp_all
  have "dlseg (hdr_of stC) 0 (if xs = [] then ?nx else GC_hblkfreelist st ! i) (xs @ ys) 0"
    by (rule dlseg_remove [OF _ dist H]) (use D(4) assms(4) in simp)
  then have seg: "dlseg (hdr_of stC) 0 (GC_hblkfreelist stC ! i) (xs @ ys) 0"
    using D(2) by (cases "xs = []") (simp_all add: flC)
  have sz: "bsize st b = hb_sz ?h" using assms(5) by (simp add: bsize_def hdr_of_eq)
  have "sizes stC (xs @ ys) = sizes st (xs @ ys)" using relinkedD(4) [OF relC] by (intro sizes_cong)
  then have lok: "list_ok stC i (xs @ ys)"
    using D(1,3) seg dist by (simp add: list_ok_def assms(4) sz fbC)
  have disj: "set (xs @ ys) \<inter> set (L j) = {}" if "j \<le> N_HBLK_FLS" "j \<noteq> i" for j
    using lists_okD(6) [OF assms(2,3) that(1)] that(2) assms(4) by auto
  have "lists_ok stC (L(i := xs @ ys))"
  proof (rule lists_ok_change [OF assms(2,3) lok disj])
    fix j c assume j: "j \<le> N_HBLK_FLS" "j \<noteq> i" "c \<in> set (L j)"
    show "hdr_of stC c = hdr_of st c" by (rule same) (use disj [OF j(1,2)] j(3) in blast)
  qed (simp_all add: flC fbC)
  with run C same show ?thesis by blast
qed

section \<open>Adding a block\<close>

lemma GC_hblk_fl_le: "GC_hblk_fl_from_blocks n \<le> N_HBLK_FLS"
  by (auto simp: GC_hblk_fl_from_blocks_def N_HBLK_FLS_def UNIQUE_THRESHOLD_def HUGE_THRESHOLD_def FL_COMPRESSION_def)

lemma relinkedI:
  assumes "st' = st\<lparr>hdrs := hs, GC_hblkfreelist := fls, GC_free_bytes := fb\<rparr>" "length hs = length (hdrs st)"
    "\<And>c. map_option core (hdr_of st' c) = map_option core (hdr_of st c)"
  shows "relinked st st'"
  unfolding relinked_def using assms by (auto simp: cores_def fun_eq_iff)

definition fl_index :: "'a headers_scheme \<Rightarrow> nat \<Rightarrow> nat" where
  "fl_index st b = GC_hblk_fl_from_blocks (bsize st b div HBLKSIZE)"

lemma GC_add_to_fl_ok:
  assumes "map_ok st" "lists_ok st L" "HDR st b = Hdr r" "b \<noteq> 0" "\<not> on_list L b"
  defines "i \<equiv> fl_index st b"
  shows "\<exists>st'. GC_add_to_fl b r st = Inr st' \<and> relinked (upd_hdr r (\<lambda>h. h\<lparr>hb_free := True\<rparr>) st) st' \<and>
    lists_ok st' (L(i := b # L i)) \<and> (\<forall>c. c \<noteq> b \<and> c \<notin> set (L i) \<longrightarrow> hdr_of st' c = hdr_of st c)"
proof -
  let ?h = "hdrs st ! r" and ?second = "GC_hblkfreelist st ! i"
  have sz: "bsize st b = hb_sz ?h" using assms(3) by (simp add: bsize_def hdr_of_eq)
  then have i: "GC_hblk_fl_from_blocks (hb_sz ?h div HBLKSIZE) = i" "i \<le> N_HBLK_FLS"
    using GC_hblk_fl_le by (simp_all add: i_def fl_index_def)
  note D = lists_okD [OF assms(2) i(2)] and R = map_ok_hdr [OF assms(1,3)]
  have second: "?second = hd0 (L i) 0" using dlseg_start [OF D(4)] .
  have mem: "c \<noteq> 0 \<and> c \<noteq> b \<and> (\<exists>q. HDR st c = Hdr q)" if "c \<in> set (L i)" for c
    using dlseg_mem [OF D(4) that] assms(5) i(2) that by (auto simp: on_list_def elim: hdr_ofE)
  define st1 where "st1 = st\<lparr>GC_hblkfreelist := (GC_hblkfreelist st)[i := b],
      GC_free_bytes := (GC_free_bytes st)[i := GC_free_bytes st ! i + of_nat (hb_sz ?h)]\<rparr>"
  define st2 where "st2 = upd_hdr r (\<lambda>h. h\<lparr>hb_next := ?second, hb_prev := 0\<rparr>) st1"
  define st3 where "st3 = (if L i = [] then st2 else upd_hdr (THE q. HDR st (hd (L i)) = Hdr q) (\<lambda>x. x\<lparr>hb_prev := b\<rparr>) st2)"
  define st4 where "st4 = upd_hdr r (\<lambda>h. h\<lparr>hb_free := True\<rparr>) st3"
  have ok1: "map_ok st1" "HDR st1 = HDR st" "hdr_of st1 = hdr_of st" "hdrs st1 = hdrs st"
    using assms(1) by (simp_all add: st1_def)
  have ok2: "map_ok st2" "HDR st2 = HDR st" "hdr_of st2 = (hdr_of st)(b := Some (?h\<lparr>hb_next := ?second, hb_prev := 0\<rparr>))"
    using ok1 assms(3) hdr_of_upd [OF ok1(1), of b r] by (simp_all add: st2_def fun_eq_iff)
  have 3: "map_ok st3 \<and> HDR st3 = HDR st \<and> hdrs st3 ! r = ?h\<lparr>hb_next := ?second, hb_prev := 0\<rparr> \<and>
      hdr_of st3 = (\<lambda>c. if L i \<noteq> [] \<and> c = hd (L i) then map_option (hb_prev_update (\<lambda>_. b)) (hdr_of st c) else hdr_of st2 c) \<and>
      GC_hblkfreelist st3 = GC_hblkfreelist st1 \<and> GC_free_bytes st3 = GC_free_bytes st1 \<and>
      (\<exists>hs. st3 = st1\<lparr>hdrs := hs\<rparr> \<and> length hs = length (hdrs st)) \<and>
      (if ?second \<noteq> 0 then rbind (get_hdr st2 ?second) (\<lambda>q. Inr (upd_hdr q (\<lambda>x. x\<lparr>hb_prev := b\<rparr>) st2)) else Inr st2) = Inr st3"
  proof (cases "L i")
    case Nil
    then show ?thesis using ok2 R(1) second ok1(4) by (auto simp: st3_def st2_def upd_hdr_def)
  next
    case (Cons y ys)
    then obtain q where q: "HDR st y = Hdr q" using mem [of y] by auto
    have the: "(THE q. HDR st (hd (L i)) = Hdr q) = q" using Cons q by simp
    have q2: "HDR st2 y = Hdr q" using q ok2(2) by simp
    have qr: "q \<noteq> r" using map_ok_hdr(2) [OF assms(1) q, of b] assms(3) mem [of y] Cons by auto
    have y: "y \<noteq> b" "y \<noteq> 0" using mem [of y] Cons by auto
    have "hdrs st2 ! q = hdrs st ! q" using qr R(1) ok1(4) by (simp add: st2_def hdrs_upd_hdr)
    then show ?thesis
      using Cons y qr ok2 hdr_of_upd [OF ok2(1) q2, of "\<lambda>x. x\<lparr>hb_prev := b\<rparr>"] second R(1) q map_ok_hdr(1) [OF assms(1) q] ok1(4)
      by (auto simp: st3_def the get_hdr_eq hdr_of_eq fun_eq_iff hdrs_upd_hdr [of r] hdrs_upd_hdr [of q] st2_def)
        (auto simp: upd_hdr_def)
  qed
  have run: "GC_add_to_fl b r st = Inr st4"
  proof -
    have eq3: "(if ?second \<noteq> 0 then rbind (get_hdr st2 ?second) (\<lambda>q. Inr (upd_hdr q (\<lambda>x. x\<lparr>hb_prev := b\<rparr>) st2)) else Inr st2) = Inr st3"
      using 3 by blast
    show ?thesis
      by (simp only: GC_add_to_fl_def i(1) Let_def st1_def [symmetric] st2_def [symmetric] eq3 rbind_Inr st4_def [symmetric])
  qed
  have H: "hdr_of st4 c = (if c = b then Some (?h\<lparr>hb_next := ?second, hb_prev := 0, hb_free := True\<rparr>)
      else if L i \<noteq> [] \<and> c = hd (L i) then map_option (hb_prev_update (\<lambda>_. b)) (hdr_of st c) else hdr_of st c)" for c
  proof -
    have "map_ok st3" "HDR st3 b = Hdr r" using 3 assms(3) by auto
    then show ?thesis using hdr_of_upd [of st3 b r "\<lambda>h. h\<lparr>hb_free := True\<rparr>"] 3 ok2(3) by (auto simp: st4_def)
  qed
  have rel: "relinked (upd_hdr r (\<lambda>h. h\<lparr>hb_free := True\<rparr>) st) st4"
  proof -
    obtain hs where hs: "st3 = st1\<lparr>hdrs := hs\<rparr>" "length hs = length (hdrs st)" using 3 by blast
    have "st4 = (upd_hdr r (\<lambda>h. h\<lparr>hb_free := True\<rparr>) st)\<lparr>hdrs := hs[r := (hs ! r)\<lparr>hb_free := True\<rparr>],
        GC_hblkfreelist := (GC_hblkfreelist st)[i := b], GC_free_bytes := (GC_free_bytes st)[i := GC_free_bytes st ! i + of_nat (hb_sz ?h)]\<rparr>"
      by (simp add: st4_def hs(1) upd_hdr_def st1_def)
    then show ?thesis
    proof (rule relinkedI)
      show "map_option core (hdr_of st4 c) = map_option core (hdr_of (upd_hdr r (\<lambda>h. h\<lparr>hb_free := True\<rparr>) st) c)" for c
        by (cases "hdr_of st c") (auto simp: H hdr_of_upd [OF assms(1,3)] core_def)
    qed (simp add: hs(2))
  qed
  have fl: "GC_hblkfreelist st4 = (GC_hblkfreelist st)[i := b]"
    "GC_free_bytes st4 = (GC_free_bytes st)[i := GC_free_bytes st ! i + of_nat (hb_sz ?h)]"
    using 3 by (simp_all add: st4_def st1_def)
  have seg: "dlseg (hdr_of st4) b ?second (L i) 0"
  proof (cases "L i")
    case (Cons y ys)
    then obtain g where g: "hdr_of st y = Some g" using dlseg_mem [OF D(4), of y] by auto
    have "hdr_of st4 c = hdr_of st c" if "c \<in> set ys" for c
      using that Cons mem [of c] D(5) by (auto simp: H)
    moreover have "hdr_of st4 y = Some (g\<lparr>hb_prev := b\<rparr>)" using g Cons mem [of y] by (simp add: H)
    ultimately show ?thesis
      using dlseg_set_prev [of "hdr_of st" 0 ?second y ys 0 g "hdr_of st4" b] D(4,5) g Cons by simp
  qed (simp add: second)
  have bs: "bsize st4 c = bsize st c" for c
  proof (cases "c = b")
    case False
    then show ?thesis by (cases "hdr_of st c") (auto simp: bsize_def H)
  qed (simp add: bsize_def H hdr_of_eq [OF assms(3)])
  have lok: "list_ok st4 i (b # L i)"
    using D(1,2,3) seg mem assms(4) sizes_cong [of "L i" st4 st] bs sz by (auto simp: list_ok_def fl H)
  have disj: "set (b # L i) \<inter> set (L j) = {}" if "j \<le> N_HBLK_FLS" "j \<noteq> i" for j
    using D(6) [OF that(1)] that assms(5) by (auto simp: on_list_def)
  have same: "hdr_of st4 c = hdr_of st c" if "c \<noteq> b" "c \<notin> set (L i)" for c
    using that by (cases "L i") (auto simp: H)
  have "lists_ok st4 (L(i := b # L i))"
  proof (rule lists_ok_change [OF assms(2) i(2) lok disj])
    fix j c assume j: "j \<le> N_HBLK_FLS" "j \<noteq> i" "c \<in> set (L j)"
    show "hdr_of st4 c = hdr_of st c" by (rule same) (use disj [OF j(1,2)] j(3) in auto)
  qed (simp_all add: fl)
  with run rel same show ?thesis by blast
qed

end
