(* ===== verification/GC_Heap.thy ===== *)
theory GC_Heap
  imports GC_Freelist
begin

text \<open>
  The heap of the block allocator: what the operations on the header map leave alone, the
  invariant of the free lists, and the steps that carve a block out of a free one.
\<close>

section \<open>Header operations and the rest of the state\<close>

lemma more_heap:
  fixes st st' :: "'a block_heap_scheme"
  assumes "headers.more st' = headers.more st"
  shows "GC_hblkfreelist st' = GC_hblkfreelist st" "GC_free_bytes st' = GC_free_bytes st" "GC_obj_map st' = GC_obj_map st"
    "GC_obj_kinds st' = GC_obj_kinds st" "GC_large_free_bytes st' = GC_large_free_bytes st" "tables_ok st' = tables_ok st"
    "GC_gc_no st' = GC_gc_no st"
  using assms by (cases st; cases st'; simp add: tables_ok_def)+

lemma scratch_alloc_more: "headers.more (snd (GC_scratch_alloc n st)) = headers.more st"
  by (induction n st rule: GC_scratch_alloc.induct)
    (subst GC_scratch_alloc.simps, auto simp: Let_def GET_MEM_def split: prod.splits list.splits if_splits)

lemma upd_bi_more [simp]: "headers.more (upd_bi p f st) = headers.more st"
  by (simp add: upd_bi_def)

lemma SET_HDR_more [simp]: "headers.more (SET_HDR b e st) = headers.more st"
  by (simp add: SET_HDR_def)

lemma get_index_more: "get_index b st = (ok, st') \<Longrightarrow> headers.more st' = headers.more st \<and> hdrs st' = hdrs st"
proof -
  assume g: "get_index b st = (ok, st')"
  obtain p st1 where s: "GC_scratch_alloc SIZEOF_BI st = (p, st1)" by fastforce
  then have m: "headers.more st1 = headers.more st" "hdrs st1 = hdrs st"
    using scratch_alloc_more [of SIZEOF_BI st] scratch_alloc_same [of SIZEOF_BI st] by (simp_all add: same_index_def)
  have "headers.more (link_bi r hi (with_bi hi st1)) = headers.more st1 \<and> hdrs (link_bi r hi (with_bi hi st1)) = hdrs st1" for r hi
    by (simp add: link_bi_def with_bi_def Let_def split: prod.splits option.splits)
  with g m show ?thesis unfolding get_index_eq [OF s] by (auto split: if_splits)
qed

lemma alloc_hdr_more:
  assumes "alloc_hdr st = (res, st')"
  shows "headers.more st' = headers.more st \<and> (hdrs st' = hdrs st \<or> hdrs st' = hdrs st @ [fresh_hdr])"
  using assms scratch_alloc_more [of SIZEOF_HDR st] scratch_alloc_same [of SIZEOF_HDR st]
  by (auto simp: alloc_hdr_def same_index_def split: list.splits prod.splits if_splits)

lemma GC_install_header_more:
  assumes "GC_install_header h st = (res, st')"
  shows "headers.more st' = headers.more st" "hdrs st' = hdrs st \<or> hdrs st' = hdrs st @ [fresh_hdr]"
proof -
  obtain ok st1 where g: "get_index h st = (ok, st1)" by fastforce
  obtain r st2 where a: "alloc_hdr st1 = (r, st2)" by fastforce
  show "headers.more st' = headers.more st" "hdrs st' = hdrs st \<or> hdrs st' = hdrs st @ [fresh_hdr]"
    using assms get_index_more [OF g] alloc_hdr_more [OF a]
    by (auto simp: GC_install_header_def g a split: if_splits option.splits)
qed

lemma get_indices_more: "get_indices h lim st = (ok, st') \<Longrightarrow> headers.more st' = headers.more st \<and> hdrs st' = hdrs st"
proof (induction h lim st arbitrary: ok st' rule: get_indices.induct)
  case (1 h lim st)
  obtain ok1 st1 where g: "get_index h st = (ok1, st1)" by fastforce
  show ?case
  proof (cases "h < lim \<and> ok1")
    case True
    then have "get_indices (h + BOTTOM_SZ) lim st1 = (ok, st')" using "1.prems" g by (subst (asm) get_indices.simps) simp
    then show ?thesis using "1.IH" [OF _ refl g [symmetric]] True get_index_more [OF g] by simp
  next
    case False
    then show ?thesis using "1.prems" g get_index_more [OF g] by (subst (asm) get_indices.simps) (auto split: if_splits)
  qed
qed

lemma folds_more [simp]:
  "headers.more (set_jumps h bs st) = headers.more st" "hdrs (set_jumps h bs st) = hdrs st"
  "headers.more (set_nils bs st) = headers.more st" "hdrs (set_nils bs st) = hdrs st"
  by (induction bs arbitrary: st) (simp_all add: Let_def)

lemma GC_install_counts_more:
  assumes "GC_install_counts h n st = (ok, st')"
  shows "headers.more st' = headers.more st" "hdrs st' = hdrs st"
proof -
  obtain ok1 st1 where g: "get_indices h (h + n) st = (ok1, st1)" by fastforce
  obtain ok2 st2 where g2: "get_index (h + n - 1) st1 = (ok2, st2)" by fastforce
  show "headers.more st' = headers.more st" "hdrs st' = hdrs st"
    using assms get_indices_more [OF g] get_index_more [OF g2]
    by (auto simp: GC_install_counts_def g g2 simp del: get_indices.simps One_nat_def split: if_splits)
qed

lemma GC_remove_counts_more [simp]:
  "headers.more (GC_remove_counts h n st) = headers.more st" "hdrs (GC_remove_counts h n st) = hdrs st"
  by (simp_all add: GC_remove_counts_def)

lemma GC_remove_header_more: "GC_remove_header h st = Inr st' \<Longrightarrow> headers.more st' = headers.more st \<and> hdrs st' = hdrs st"
  by (auto simp: GC_remove_header_def free_hdr_def split: entry.splits)

text \<open>A new header leaves the others as they are.\<close>

lemma hdr_of_other:
  assumes "map_ok st" "hdrs st' = hdrs st \<or> hdrs st' = hdrs st @ [fresh_hdr]" "HDR st' c = HDR st c"
  shows "hdr_of st' c = hdr_of st c"
proof (cases "HDR st c")
  case (Hdr r)
  then have "r < length (hdrs st)" using map_ok_hdr(1) [OF assms(1)] by blast
  with assms(2,3) Hdr show ?thesis by (auto simp: hdr_of_def nth_append)
qed (use assms(3) in \<open>simp_all add: hdr_of_def\<close>)

lemma GC_install_header_hdr:
  assumes "map_ok st" "GC_install_header h st = (res, st')"
  shows "case res of
      None \<Rightarrow> HDR st' = HDR st \<and> hdr_of st' = hdr_of st
    | Some r \<Rightarrow> HDR st' = (HDR st)(h := Hdr r) \<and> (\<exists>g. hdr_of st' = (hdr_of st)(h := Some g)) \<and> (\<forall>b. HDR st b \<noteq> Hdr r)"
proof -
  note I = GC_install_header_ok [OF assms] and M = GC_install_header_more [OF assms(2)]
  show ?thesis
  proof (cases res)
    case None
    then have "HDR st' = HDR st" using I(3) by (auto simp: fun_eq_iff)
    then show ?thesis using None hdr_of_other [OF assms(1) M(2)] by (auto simp: fun_eq_iff)
  next
    case (Some r)
    then have H: "HDR st' = (HDR st)(h := Hdr r)" using I(3) by (auto simp: fun_eq_iff)
    then have "hdr_of st' c = hdr_of st c" if "c \<noteq> h" for c using hdr_of_other [OF assms(1) M(2)] that by simp
    moreover have "hdr_of st' h = Some (hdrs st' ! r)" using H by (simp add: hdr_of_eq)
    ultimately have "hdr_of st' = (hdr_of st)(h := Some (hdrs st' ! r))" by (auto simp: fun_eq_iff)
    then show ?thesis using Some H I(4) by auto
  qed
qed

section \<open>Running out of memory\<close>

text \<open>
  An allocation of scratch memory fails only when the operating system has no more memory to
  give: \<open>os_mem\<close> is used up.
\<close>

definition scratch_ok :: "'a headers_scheme \<Rightarrow> bool" where
  "scratch_ok st \<longleftrightarrow> (scratch_free st = 0 \<longrightarrow> scratch_end st = 0) \<and> 0 \<notin> set (os_mem st)"

definition supplied :: "'a headers_scheme \<Rightarrow> 'a headers_scheme \<Rightarrow> bool" where
  "supplied st st' \<longleftrightarrow> (scratch_ok st \<longrightarrow> scratch_ok st') \<and> (os_mem st = [] \<longrightarrow> os_mem st' = [])"

lemma supplied_refl [simp]: "supplied st st"
  by (simp add: supplied_def)

lemma supplied_trans: "supplied st st1 \<Longrightarrow> supplied st1 st2 \<Longrightarrow> supplied st st2"
  by (simp add: supplied_def)

lemma rounded_pos: "0 < n \<Longrightarrow> 0 < (n + (GRANULE_BYTES - 1)) div GRANULE_BYTES * GRANULE_BYTES"
  by (simp add: GRANULE_BYTES_def div_greater_zero_iff)

lemma scratch_alloc_supplied:
  "supplied st (snd (GC_scratch_alloc n st)) \<and>
    (scratch_ok st \<longrightarrow> 0 < n \<longrightarrow> fst (GC_scratch_alloc n st) = 0 \<longrightarrow> os_mem (snd (GC_scratch_alloc n st)) = [])"
proof (induction "length (os_mem st)" arbitrary: n st rule: less_induct)
  case less
  let ?bytes = "(n + (GRANULE_BYTES - 1)) div GRANULE_BYTES * GRANULE_BYTES"
  let ?big = "MINHINCR * HBLKSIZE \<le> ?bytes"
  show ?case
  proof (cases "os_mem st")
    case Nil
    then have "GC_scratch_alloc n st =
        (if scratch_free st + ?bytes \<le> scratch_end st then (scratch_free st, st\<lparr>scratch_free := scratch_free st + ?bytes\<rparr>)
         else if ?big then (0, st\<lparr>scratch_free := scratch_free st, scratch_last_end := ?bytes\<rparr>) else (0, st))"
      by (subst GC_scratch_alloc.simps) (simp add: Let_def GET_MEM_def)
    then show ?thesis using Nil rounded_pos [of n] by (auto simp: supplied_def scratch_ok_def)
  next
    case (Cons a as)
    let ?st = "st\<lparr>os_mem := as, scratch_free := a, scratch_end := a + MINHINCR * HBLKSIZE, scratch_last_end := a + MINHINCR * HBLKSIZE\<rparr>"
    have eq: "GC_scratch_alloc n st =
        (if scratch_free st + ?bytes \<le> scratch_end st then (scratch_free st, st\<lparr>scratch_free := scratch_free st + ?bytes\<rparr>)
         else if ?big then (a, st\<lparr>os_mem := as, scratch_last_end := a + ?bytes\<rparr>)
         else if a = 0 then (case as of [] \<Rightarrow> (0, st\<lparr>os_mem := []\<rparr>) | b # bs \<Rightarrow> (b, st\<lparr>os_mem := bs\<rparr>))
         else GC_scratch_alloc ?bytes ?st)"
      using Cons by (subst GC_scratch_alloc.simps) (simp add: Let_def GET_MEM_def split: list.split)
    have "supplied ?st (snd (GC_scratch_alloc ?bytes ?st)) \<and>
        (scratch_ok ?st \<longrightarrow> 0 < ?bytes \<longrightarrow> fst (GC_scratch_alloc ?bytes ?st) = 0 \<longrightarrow> os_mem (snd (GC_scratch_alloc ?bytes ?st)) = [])"
      by (rule less) (simp add: Cons)
    then show ?thesis using Cons rounded_pos [of n] unfolding eq
      by (auto simp: supplied_def scratch_ok_def split: list.split)
  qed
qed

text \<open>\<open>ok\<close> tells whether an operation got the memory it needed.\<close>

definition memory_step :: "'a headers_scheme \<Rightarrow> bool \<Rightarrow> 'a headers_scheme \<Rightarrow> bool" where
  "memory_step st ok st' \<longleftrightarrow> supplied st st' \<and> (scratch_ok st \<longrightarrow> \<not> ok \<longrightarrow> os_mem st' = [])"

lemma memory_step_same: "scratch_free st' = scratch_free st \<Longrightarrow> scratch_end st' = scratch_end st \<Longrightarrow> os_mem st' = os_mem st \<Longrightarrow> memory_step st True st'"
  by (simp add: memory_step_def supplied_def scratch_ok_def)

lemma memory_step_trans: "memory_step st True st1 \<Longrightarrow> memory_step st1 ok st2 \<Longrightarrow> memory_step st ok st2"
  by (auto simp: memory_step_def supplied_def)

lemma scratch_alloc_memory: "GC_scratch_alloc n st = (p, st') \<Longrightarrow> 0 < n \<Longrightarrow> memory_step st (p \<noteq> 0) st'"
  using scratch_alloc_supplied [of st n] by (simp add: memory_step_def)

lemma upd_bi_memory [simp]:
  "scratch_free (upd_bi p f st) = scratch_free st" "scratch_end (upd_bi p f st) = scratch_end st" "os_mem (upd_bi p f st) = os_mem st"
  by (simp_all add: upd_bi_def)

lemma SET_HDR_memory [simp]:
  "scratch_free (SET_HDR b e st) = scratch_free st" "scratch_end (SET_HDR b e st) = scratch_end st" "os_mem (SET_HDR b e st) = os_mem st"
  by (simp_all add: SET_HDR_def)

lemma sizeof_pos: "0 < SIZEOF_BI" "0 < SIZEOF_HDR"
  by (simp_all add: SIZEOF_BI_def SIZEOF_HDR_def)

lemma get_index_memory:
  assumes "get_index b st = (ok, st')"
  shows "memory_step st ok st'"
proof -
  obtain p st1 where s: "GC_scratch_alloc SIZEOF_BI st = (p, st1)" by fastforce
  have m: "memory_step st (p \<noteq> 0) st1" by (rule scratch_alloc_memory [OF s sizeof_pos(1)])
  have "memory_step st1 True (link_bi r hi (with_bi hi st1))" for r hi
    by (rule memory_step_same) (simp_all add: link_bi_def with_bi_def Let_def split: prod.splits option.splits)
  then show ?thesis using assms m memory_step_same [of st st] unfolding get_index_eq [OF s]
    by (auto split: if_splits intro: memory_step_trans)
qed

lemma alloc_hdr_memory: "alloc_hdr st = (res, st') \<Longrightarrow> memory_step st (res \<noteq> None) st'"
proof -
  assume a: "alloc_hdr st = (res, st')"
  obtain p st1 where s: "GC_scratch_alloc SIZEOF_HDR st = (p, st1)" by fastforce
  have m: "memory_step st (p \<noteq> 0) st1" by (rule scratch_alloc_memory [OF s sizeof_pos(2)])
  have "memory_step st1 True (st1\<lparr>hdrs := hs\<rparr>)" "memory_step st True (st\<lparr>hdr_free_list := fl\<rparr>)" for hs fl
    by (rule memory_step_same; simp)+
  with a m show ?thesis by (auto simp: alloc_hdr_def s split: list.splits if_splits intro: memory_step_trans)
qed

lemma SET_HDR_step: "memory_step st True (SET_HDR b e st)"
  by (rule memory_step_same) simp_all

lemma GC_install_header_memory:
  assumes "GC_install_header h st = (res, st')"
  shows "memory_step st (res \<noteq> None) st'"
proof -
  obtain ok st1 where g: "get_index h st = (ok, st1)" by fastforce
  obtain r st2 where a: "alloc_hdr st1 = (r, st2)" by fastforce
  note m = get_index_memory [OF g] alloc_hdr_memory [OF a]
  show ?thesis
  proof (cases "ok \<and> r \<noteq> None")
    case True
    then have "memory_step st True st2" using m memory_step_trans by auto
    then show ?thesis using True assms SET_HDR_step memory_step_trans by (fastforce simp: GC_install_header_def g a)
  next
    case False
    then show ?thesis using assms m memory_step_trans by (auto simp: GC_install_header_def g a split: if_splits)
  qed
qed

lemma get_indices_memory: "get_indices h lim st = (ok, st') \<Longrightarrow> memory_step st ok st'"
proof (induction h lim st arbitrary: ok st' rule: get_indices.induct)
  case (1 h lim st)
  obtain ok1 st1 where g: "get_index h st = (ok1, st1)" by fastforce
  show ?case
  proof (cases "h < lim \<and> ok1")
    case True
    then have "get_indices (h + BOTTOM_SZ) lim st1 = (ok, st')" using "1.prems" g by (subst (asm) get_indices.simps) simp
    then have "memory_step st1 ok st'" using "1.IH" [OF _ refl g [symmetric]] True by simp
    moreover have "memory_step st True st1" using get_index_memory [OF g] True by simp
    ultimately show ?thesis by (rule memory_step_trans [rotated])
  next
    case False
    then show ?thesis using "1.prems" g get_index_memory [OF g] memory_step_same [of st st]
      by (subst (asm) get_indices.simps) (auto split: if_splits)
  qed
qed

lemma folds_memory:
  "memory_step st True (set_jumps h bs st)" "memory_step st True (set_nils bs st)"
proof -
  have "scratch_free (set_jumps h bs st) = scratch_free st \<and> scratch_end (set_jumps h bs st) = scratch_end st \<and> os_mem (set_jumps h bs st) = os_mem st"
    "scratch_free (set_nils bs st) = scratch_free st \<and> scratch_end (set_nils bs st) = scratch_end st \<and> os_mem (set_nils bs st) = os_mem st"
    by (induction bs arbitrary: st) (simp_all add: Let_def)
  then show "memory_step st True (set_jumps h bs st)" "memory_step st True (set_nils bs st)"
    by (auto intro: memory_step_same)
qed

lemma GC_install_counts_memory:
  assumes "GC_install_counts h n st = (ok, st')"
  shows "memory_step st ok st'"
proof -
  obtain ok1 st1 where g: "get_indices h (h + n) st = (ok1, st1)" by fastforce
  obtain ok2 st2 where g2: "get_index (h + n - 1) st1 = (ok2, st2)" by fastforce
  note m = get_indices_memory [OF g] get_index_memory [OF g2]
  show ?thesis
  proof (cases "ok1 \<and> ok2")
    case True
    then have "memory_step st True st2" using m memory_step_trans by auto
    then show ?thesis using True assms memory_step_trans [OF _ folds_memory(1)]
      by (auto simp: GC_install_counts_def g g2 simp del: get_indices.simps One_nat_def)
  next
    case False
    then show ?thesis using assms m memory_step_trans
      by (auto simp: GC_install_counts_def g g2 simp del: get_indices.simps One_nat_def split: if_splits)
  qed
qed

section \<open>Layout maps\<close>

definition layouts_ok :: "'a layouts_scheme \<Rightarrow> bool" where
  "layouts_ok st \<longleftrightarrow> length (GC_obj_map st) = MAXOBJGRANULES + 1 \<and>
     (\<forall>g\<le>MAXOBJGRANULES. GC_obj_map st ! g = None \<or> GC_obj_map st ! g = Some (map_entry g)) \<and>
     PTRFREE < length (GC_obj_kinds st)"

end
