(* ===== verification/GC_Carve.thy ===== *)
theory GC_Carve
  imports GC_Heap
begin

text \<open>
  Carving a block out of a free one: the invariant of the free lists that the search of
  \<open>GC_allochblk_nth\<close> keeps even when scratch memory runs out, and the effect of
  \<open>GC_get_first_part\<close>, \<open>GC_split_block\<close> and the dropping of a black listed block on it.
\<close>

section \<open>Free blocks\<close>

lemma HBLKSIZE_nonzero [simp]: "HBLKSIZE \<noteq> 0"
  using HBLKSIZE_pos by simp

definition free_at :: "'a headers_scheme \<Rightarrow> nat \<Rightarrow> bool" where
  "free_at st b \<longleftrightarrow> (\<exists>h. cores st b = Some h \<and> hb_free h)"

definition used_at :: "'a headers_scheme \<Rightarrow> nat \<Rightarrow> bool" where
  "used_at st b \<longleftrightarrow> (\<exists>h. cores st b = Some h \<and> \<not> hb_free h)"

definition span :: "'a headers_scheme \<Rightarrow> nat \<Rightarrow> nat" where
  "span st b = bsize st b div HBLKSIZE"

definition member_ok :: "'a headers_scheme \<Rightarrow> nat \<Rightarrow> bool" where
  "member_ok st b \<longleftrightarrow> b \<noteq> 0 \<and> free_at st b \<and> HBLKSIZE dvd bsize st b \<and> 0 < bsize st b \<and> (b + span st b) * HBLKSIZE < 2 ^ 63 \<and>
     (\<forall>c. b < c \<and> c < b + span st b \<longrightarrow> HDR st c = Nil_entry)"

definition members_ok :: "'a headers_scheme \<Rightarrow> (nat \<Rightarrow> nat list) \<Rightarrow> bool" where
  "members_ok st L \<longleftrightarrow> (\<forall>i\<le>N_HBLK_FLS. \<forall>b\<in>set (L i). member_ok st b \<and> fl_index st b = i)"

definition base_ok :: "'a block_heap_scheme \<Rightarrow> bool" where
  "base_ok st \<longleftrightarrow> map_ok st \<and> tables_ok st \<and> layouts_ok st"

definition weak_ok :: "'a block_heap_scheme \<Rightarrow> (nat \<Rightarrow> nat list) \<Rightarrow> bool" where
  "weak_ok st L \<longleftrightarrow> base_ok st \<and> lists_ok st L \<and> members_ok st L"

text \<open>Nothing changes outside the blocks from \<open>a\<close> to \<open>e\<close>.\<close>

definition outside :: "'a headers_scheme \<Rightarrow> 'a headers_scheme \<Rightarrow> nat \<Rightarrow> nat \<Rightarrow> bool" where
  "outside st st' a e \<longleftrightarrow> (\<forall>c. \<not> (a \<le> c \<and> c < e) \<longrightarrow> HDR st' c = HDR st c \<and> cores st' c = cores st c)"

text \<open>The fields other than the header map and the free lists.\<close>

definition frame :: "'a block_heap_scheme \<Rightarrow> 'a block_heap_scheme \<Rightarrow> bool" where
  "frame st st' \<longleftrightarrow> headers.more (st'\<lparr>GC_hblkfreelist := [], GC_free_bytes := []\<rparr>) =
     headers.more (st\<lparr>GC_hblkfreelist := [], GC_free_bytes := []\<rparr>)"

lemma frame_refl [simp]: "frame st st"
  by (simp add: frame_def)

lemma frame_trans: "frame st st1 \<Longrightarrow> frame st1 st2 \<Longrightarrow> frame st st2"
  by (simp add: frame_def)

lemma frameD:
  assumes "frame st st'"
  shows "GC_large_free_bytes st' = GC_large_free_bytes st" "GC_obj_kinds st' = GC_obj_kinds st" "tables_ok st' = tables_ok st"
    "layouts_ok st' = layouts_ok st" "GC_debugging_started st' = GC_debugging_started st"
  using assms unfolding frame_def by (cases st; cases st'; simp add: tables_ok_def layouts_ok_def)+

lemma frame_more: "headers.more st' = headers.more st \<Longrightarrow> frame st st'"
  unfolding frame_def by (cases st; cases st') simp

lemma frame_relinked: "relinked st st' \<Longrightarrow> frame st st'"
  unfolding relinked_def frame_def by (cases st) auto

lemma frame_upd_hdr [simp]: "frame st (upd_hdr r f st)"
  by (rule frame_more) simp

lemma member_okD:
  assumes "member_ok st b"
  shows "0 < span st b" "bsize st b = span st b * HBLKSIZE" "b \<noteq> 0" "free_at st b" "\<exists>r. HDR st b = Hdr r"
    "b < c \<Longrightarrow> c < b + span st b \<Longrightarrow> HDR st c = Nil_entry" "(b + span st b) * HBLKSIZE < 2 ^ 63"
proof -
  have d: "HBLKSIZE dvd bsize st b" "0 < bsize st b" using assms by (simp_all add: member_ok_def)
  then show sz: "bsize st b = span st b * HBLKSIZE" by (simp add: span_def)
  then show "0 < span st b" using d by (cases "span st b") auto
  show "b \<noteq> 0" "free_at st b" using assms by (simp_all add: member_ok_def)
  then show "\<exists>r. HDR st b = Hdr r" by (auto simp: free_at_def cores_def elim: hdr_ofE)
  show "HDR st c = Nil_entry" if "b < c" "c < b + span st b" using assms that by (simp add: member_ok_def)
  show "(b + span st b) * HBLKSIZE < 2 ^ 63" using assms by (simp add: member_ok_def)
qed

lemma members_disjoint:
  assumes "member_ok st b" "member_ok st c" "b \<noteq> c"
  shows "b + span st b \<le> c \<or> c + span st c \<le> b"
proof (rule ccontr)
  assume n: "\<not> ?thesis"
  obtain r q where "HDR st b = Hdr r" "HDR st c = Hdr q" using member_okD(5) assms(1,2) by blast
  then have "\<not> (b < c \<and> c < b + span st b)" "\<not> (c < b \<and> b < c + span st c)"
    using member_okD(6) [OF assms(1), of c] member_okD(6) [OF assms(2), of b] by auto
  with n assms(3) show False by linarith
qed

text \<open>A member away from the blocks that change stays one.\<close>

lemma outside_bsize: "outside st st' a e \<Longrightarrow> \<not> (a \<le> c \<and> c < e) \<Longrightarrow> bsize st' c = bsize st c"
  by (intro bsize_cores) (simp add: outside_def)

lemma member_ok_outside:
  assumes "member_ok st c" "outside st st' a e" "c + span st c \<le> a \<or> e \<le> c"
  shows "member_ok st' c" "span st' c = span st c" "fl_index st' c = fl_index st c"
proof -
  have no: "\<not> (a \<le> x \<and> x < e)" if "c \<le> x" "x < c + span st c" for x
    using assms(3) that by linarith
  have c: "\<not> (a \<le> c \<and> c < e)" using no [of c] member_okD(1) [OF assms(1)] by simp
  then have b: "bsize st' c = bsize st c" by (rule outside_bsize [OF assms(2)])
  then show s: "span st' c = span st c" by (simp add: span_def)
  show "fl_index st' c = fl_index st c" by (simp add: fl_index_def b)
  have "cores st' c = cores st c" using assms(2) c by (simp add: outside_def)
  moreover have "HDR st' x = HDR st x" if "c \<le> x" "x < c + span st c" for x
    using assms(2) no [OF that] by (simp add: outside_def)
  ultimately show "member_ok st' c"
    using assms(1) by (simp add: member_ok_def b s free_at_def)
qed

lemma weak_okD:
  assumes "weak_ok st L"
  shows "map_ok st" "tables_ok st" "layouts_ok st" "lists_ok st L" "base_ok st"
    "on_list L b \<Longrightarrow> member_ok st b" "i \<le> N_HBLK_FLS \<Longrightarrow> b \<in> set (L i) \<Longrightarrow> fl_index st b = i"
  using assms by (auto simp: weak_ok_def base_ok_def members_ok_def on_list_def)

lemma on_list_remove:
  assumes "lists_ok st L" "i \<le> N_HBLK_FLS" "L i = xs @ b # ys"
  shows "on_list (L(i := xs @ ys)) c \<longleftrightarrow> on_list L c \<and> c \<noteq> b" "on_list L b"
proof -
  have d: "distinct (L i)" by (rule lists_okD(5) [OF assms(1,2)])
  have "b \<notin> set (L j)" if "j \<le> N_HBLK_FLS" "j \<noteq> i" for j
    using lists_okD(6) [OF assms(1,2) that(1)] that(2) assms(3) by auto
  then have "(\<exists>j\<le>N_HBLK_FLS. c \<in> set ((L(i := xs @ ys)) j)) \<longleftrightarrow> (\<exists>j\<le>N_HBLK_FLS. c \<in> set (L j) \<and> c \<noteq> b)"
    using d assms(3) by (intro ex_cong1) auto
  then show "on_list (L(i := xs @ ys)) c \<longleftrightarrow> on_list L c \<and> c \<noteq> b" by (auto simp: on_list_def)
  show "on_list L b" using assms(2,3) by (auto simp: on_list_def)
qed

lemma on_list_add: "i \<le> N_HBLK_FLS \<Longrightarrow> on_list (L(i := b # L i)) c \<longleftrightarrow> c = b \<or> on_list L c"
  by (auto simp: on_list_def split: if_splits)

lemma relinked_outside: "relinked st st' \<Longrightarrow> outside st st' a e"
  using relinkedD(1,3) by (fastforce simp: outside_def)

lemma relinked_member: "relinked st st' \<Longrightarrow> member_ok st' b = member_ok st b" "relinked st st' \<Longrightarrow> fl_index st' b = fl_index st b"
  using relinkedD(1,3,4) [of st st'] by (simp_all add: member_ok_def free_at_def span_def fl_index_def)

lemma outside_trans: "outside st st1 a e \<Longrightarrow> outside st1 st2 a e \<Longrightarrow> outside st st2 a e"
  by (simp add: outside_def)

lemma outside_mono: "outside st st' a e \<Longrightarrow> a' \<le> a \<Longrightarrow> e \<le> e' \<Longrightarrow> outside st st' a' e'"
  by (auto simp: outside_def)

section \<open>Byte counts\<close>

definition free_total :: "'a block_heap_scheme \<Rightarrow> (nat \<Rightarrow> nat list) \<Rightarrow> nat" where
  "free_total st L = (\<Sum>i\<le>N_HBLK_FLS. sizes st (L i))"

lemma lists_ok_total:
  assumes "lists_ok st L"
  shows "sum_list (GC_free_bytes st) = of_nat (free_total st L)"
proof -
  have "sum_list (GC_free_bytes st) = (\<Sum>i\<le>N_HBLK_FLS. GC_free_bytes st ! i)"
    using assms by (simp add: lists_ok_def sum_list_sum_nth atLeast0LessThan lessThan_Suc_atMost)
  also have "\<dots> = (\<Sum>i\<le>N_HBLK_FLS. of_nat (sizes st (L i)))"
    using lists_okD(1) [OF assms] by (intro sum.cong) (simp_all add: list_ok_def)
  finally show ?thesis by (simp add: free_total_def)
qed

lemma free_total_change:
  assumes "i \<le> N_HBLK_FLS" "\<And>j c. j \<le> N_HBLK_FLS \<Longrightarrow> j \<noteq> i \<Longrightarrow> c \<in> set (L j) \<Longrightarrow> bsize st' c = bsize st c"
  shows "free_total st' (L(i := bs)) + sizes st (L i) = free_total st L + sizes st' bs"
proof -
  have "(\<Sum>j\<in>{..N_HBLK_FLS} - {i}. sizes st' ((L(i := bs)) j)) = (\<Sum>j\<in>{..N_HBLK_FLS} - {i}. sizes st (L j))"
    by (intro sum.cong) (auto intro!: sizes_cong assms(2))
  then show ?thesis
    using assms(1) sum.remove [of "{..N_HBLK_FLS}" i "\<lambda>j. sizes st' ((L(i := bs)) j)"]
      sum.remove [of "{..N_HBLK_FLS}" i "\<lambda>j. sizes st (L j)"]
    by (simp add: free_total_def)
qed

lemma free_total_remove:
  assumes "i \<le> N_HBLK_FLS" "L i = xs @ b # ys" "\<And>c. bsize st' c = bsize st c"
  shows "free_total st' (L(i := xs @ ys)) + bsize st b = free_total st L"
  using free_total_change [where L = L and st = st and st' = st' and bs = "xs @ ys", OF assms(1)] assms(2,3) sizes_cong [of _ st' st] by simp

lemma free_total_add:
  assumes "i \<le> N_HBLK_FLS" "\<And>j c. j \<le> N_HBLK_FLS \<Longrightarrow> c \<in> set (L j) \<Longrightarrow> bsize st' c = bsize st c"
  shows "free_total st' (L(i := b # L i)) = free_total st L + bsize st' b"
proof -
  have "sizes st' (L i) = sizes st (L i)" by (rule sizes_cong) (rule assms(2) [OF assms(1)])
  then show ?thesis using free_total_change [where L = L and st = st and st' = st' and bs = "b # L i", OF assms(1)] assms(2) by simp
qed

section \<open>Changes of state\<close>

lemma lists_ok_cong:
  assumes "lists_ok st L" "GC_hblkfreelist st' = GC_hblkfreelist st" "GC_free_bytes st' = GC_free_bytes st"
    "\<And>b. on_list L b \<Longrightarrow> hdr_of st' b = hdr_of st b"
  shows "lists_ok st' L"
proof -
  have "list_ok st' i (L i)" if i: "i \<le> N_HBLK_FLS" for i
  proof -
    have h: "hdr_of st' b = hdr_of st b" if "b \<in> set (L i)" for b using assms(4) i that by (auto simp: on_list_def)
    then have "sizes st' (L i) = sizes st (L i)" by (intro sizes_cong) (simp add: bsize_def)
    then show ?thesis using lists_okD(1) [OF assms(1) i] dlseg_cong [of "L i" "hdr_of st'" "hdr_of st"] h
      by (simp add: list_ok_def assms(2,3))
  qed
  then show ?thesis using assms(1-3) unfolding lists_ok_def by auto
qed

lemma weak_ok_cong:
  assumes "weak_ok st L" "HDR st' = HDR st" "hdr_of st' = hdr_of st" "map_ok st'" "headers.more st' = headers.more st"
  shows "weak_ok st' L" "bsize st' b = bsize st b" "cores st' = cores st"
proof -
  note m = more_heap [OF assms(5)]
  show c: "cores st' = cores st" using assms(3) by (simp add: cores_def fun_eq_iff)
  show bs: "bsize st' b = bsize st b" for b using assms(3) by (simp add: bsize_def)
  have "lists_ok st' L" by (rule lists_ok_cong [OF weak_okD(4) [OF assms(1)] m(1,2)]) (simp add: assms(3))
  moreover have "member_ok st' b = member_ok st b" "fl_index st' b = fl_index st b" for b
    by (simp_all add: member_ok_def free_at_def span_def fl_index_def c bs assms(2))
  moreover have "layouts_ok st' = layouts_ok st" using m by (simp add: layouts_ok_def)
  ultimately show "weak_ok st' L" using assms(1,4) m by (simp add: weak_ok_def base_ok_def members_ok_def)
qed

lemma relinked_base: "relinked st st' \<Longrightarrow> base_ok st' = base_ok st"
  using relinkedD(2) [of st st'] frameD(3,4) [OF frame_relinked, of st st'] by (simp add: base_ok_def)

lemma relinked_memory: "relinked st st' \<Longrightarrow> memory_step st True st'"
  by (rule memory_step_same) (auto simp: relinked_def)

lemma upd_hdr_memory: "memory_step st True (upd_hdr r f st)"
  by (rule memory_step_same) (simp_all add: upd_hdr_def)

lemma cores_upd:
  assumes "map_ok st" "HDR st c = Hdr r"
  shows "cores (upd_hdr r f st) = (cores st)(c := Some (core (f (hdrs st ! r))))"
  by (auto simp: fun_eq_iff cores_def hdr_of_upd [OF assms])

lemma cores_eq: "HDR st b = Hdr r \<Longrightarrow> cores st b = Some (core (hdrs st ! r))"
  by (simp add: cores_def hdr_of_eq)

section \<open>Giving up a member of a list\<close>

text \<open>The other members are in order; \<open>b\<close> itself may be on a list that is not that of its size.\<close>

definition others_ok :: "'a block_heap_scheme \<Rightarrow> (nat \<Rightarrow> nat list) \<Rightarrow> nat \<Rightarrow> bool" where
  "others_ok st L b \<longleftrightarrow> (\<forall>j\<le>N_HBLK_FLS. \<forall>c\<in>set (L j). c \<noteq> b \<longrightarrow> member_ok st c \<and> fl_index st c = j)"

lemma weak_ok_remove:
  assumes "base_ok st" "lists_ok st L" "others_ok st L b" "i \<le> N_HBLK_FLS" "L i = xs @ b # ys" "HDR st b = Hdr r"
    and n: "n = Some i \<or> n = None \<and> GC_hblk_fl_from_blocks (hb_sz (hdrs st ! r) div HBLKSIZE) = i"
  shows "\<exists>st'. GC_remove_from_fl r n st = Inr st' \<and> relinked st st' \<and> weak_ok st' (L(i := xs @ ys)) \<and>
    free_total st' (L(i := xs @ ys)) + bsize st b = free_total st L \<and>
    (\<forall>q. (\<forall>c\<in>set (xs @ ys). HDR st c \<noteq> Hdr q) \<longrightarrow> hdrs st' ! q = hdrs st ! q)"
proof -
  have ok: "map_ok st" using assms(1) by (simp add: base_ok_def)
  obtain st' where st': "GC_remove_from_fl r n st = Inr st'" "relinked st st'" "lists_ok st' (L(i := xs @ ys))"
    "\<forall>q. (\<forall>c\<in>set (xs @ ys). HDR st c \<noteq> Hdr q) \<longrightarrow> hdrs st' ! q = hdrs st ! q"
    using GC_remove_from_fl_ok [OF ok assms(2,4,5,6) n] by blast
  have "members_ok st' (L(i := xs @ ys))"
    unfolding members_ok_def
  proof (intro allI impI ballI)
    fix j c assume j: "j \<le> N_HBLK_FLS" "c \<in> set ((L(i := xs @ ys)) j)"
    then have "on_list (L(i := xs @ ys)) c" by (auto simp: on_list_def)
    then have "c \<noteq> b" using on_list_remove(1) [OF assms(2,4,5)] by blast
    moreover have "c \<in> set (L j)" using j(2) assms(5) by (auto split: if_splits)
    ultimately show "member_ok st' c \<and> fl_index st' c = j"
      using assms(3) j(1) relinked_member [OF st'(2)] by (simp add: others_ok_def)
  qed
  then have "weak_ok st' (L(i := xs @ ys))"
    using st'(3) relinked_base [OF st'(2)] assms(1) by (simp add: weak_ok_def)
  moreover have "free_total st' (L(i := xs @ ys)) + bsize st b = free_total st L"
    using free_total_remove [where st = st and st' = st' and L = L and xs = xs and ys = ys and b = b and i = i] assms(4,5) relinkedD(4) [OF st'(2)] by blast
  ultimately show ?thesis using st'(1,2,4) by blast
qed

text \<open>A block that is in order, on no list and apart from the others, joins its list.\<close>

lemma weak_ok_add:
  assumes "weak_ok st L" "HDR st b = Hdr r" "\<not> on_list L b" "member_ok (upd_hdr r (\<lambda>h. h\<lparr>hb_free := True\<rparr>) st) b"
  shows "\<exists>st' i. GC_add_to_fl b r st = Inr st' \<and> relinked (upd_hdr r (\<lambda>h. h\<lparr>hb_free := True\<rparr>) st) st' \<and> i \<le> N_HBLK_FLS \<and>
    weak_ok st' (L(i := b # L i)) \<and> free_total st' (L(i := b # L i)) = free_total st L + bsize st b"
proof -
  note W = weak_okD [OF assms(1)]
  let ?st = "upd_hdr r (\<lambda>h. h\<lparr>hb_free := True\<rparr>) st" and ?i = "fl_index st b"
  have b0: "b \<noteq> 0" using member_okD(3) [OF assms(4)] .
  obtain st' where st': "GC_add_to_fl b r st = Inr st'" "relinked ?st st'" "lists_ok st' (L(?i := b # L ?i))"
    using GC_add_to_fl_ok [OF W(1,4) assms(2) b0 assms(3)] by blast
  have i: "?i \<le> N_HBLK_FLS" by (simp add: fl_index_def GC_hblk_fl_le)
  have cores: "cores ?st = (cores st)(b := Some (core ((hdrs st ! r)\<lparr>hb_free := True\<rparr>)))" by (rule cores_upd [OF W(1) assms(2)])
  then have bs: "bsize ?st c = bsize st c" for c
    using assms(2) by (cases "c = b") (simp_all add: bsize_core cores_eq)
  have bs': "bsize st' c = bsize st c" for c using relinkedD(4) [OF st'(2)] bs by simp
  have other: "member_ok ?st c = member_ok st c" if "c \<noteq> b" for c
    using that by (simp add: member_ok_def free_at_def cores bs span_def)
  have idx: "fl_index ?st c = fl_index st c" for c by (simp add: fl_index_def bs)
  have "members_ok st' (L(?i := b # L ?i))"
    unfolding members_ok_def
  proof (intro allI impI ballI)
    fix j c assume j: "j \<le> N_HBLK_FLS" "c \<in> set ((L(?i := b # L ?i)) j)"
    show "member_ok st' c \<and> fl_index st' c = j"
    proof (cases "c = b")
      case True
      then have "j = ?i" using j assms(3) by (auto simp: on_list_def split: if_splits)
      then show ?thesis using True assms(4) relinked_member [OF st'(2)] idx by simp
    next
      case False
      then have "c \<in> set (L j)" using j(2) by (auto split: if_splits)
      then show ?thesis using assms(1) j(1) relinked_member [OF st'(2)] idx other [OF False]
        by (simp add: weak_ok_def members_ok_def)
    qed
  qed
  moreover have "base_ok st'"
    using relinked_base [OF st'(2)] W(1,2,3) frameD(3,4) [OF frame_upd_hdr [where st = st and r = r and f = "\<lambda>h. h\<lparr>hb_free := True\<rparr>"]] by (simp add: base_ok_def)
  ultimately have "weak_ok st' (L(?i := b # L ?i))" using st'(3) by (simp add: weak_ok_def)
  moreover have "free_total st' (L(?i := b # L ?i)) = free_total st L + bsize st b"
    using free_total_add [where st = st and st' = st' and L = L and b = b, OF i bs'] bs' by simp
  ultimately show ?thesis using st'(1,2) i by blast
qed

text \<open>Changes away from the members.\<close>

lemma weak_ok_change:
  assumes "weak_ok st L" "base_ok st'" "GC_hblkfreelist st' = GC_hblkfreelist st" "GC_free_bytes st' = GC_free_bytes st"
    "\<And>d. d \<notin> C \<Longrightarrow> HDR st' d = HDR st d \<and> hdr_of st' d = hdr_of st d"
    "\<And>d c. on_list L d \<Longrightarrow> c \<in> C \<Longrightarrow> \<not> (d \<le> c \<and> c < d + span st d)"
  shows "weak_ok st' L" "free_total st' L = free_total st L" "on_list L d \<Longrightarrow> span st' d = span st d \<and> bsize st' d = bsize st d"
proof -
  note W = weak_okD [OF assms(1)]
  have m: "hdr_of st' d = hdr_of st d" "\<And>x. d \<le> x \<Longrightarrow> x < d + span st d \<Longrightarrow> HDR st' x = HDR st x" if "on_list L d" for d
  proof -
    have "d \<notin> C" using assms(6) [OF that, of d] member_okD(1) [OF W(6) [OF that]] by auto
    then show "hdr_of st' d = hdr_of st d" using assms(5) by simp
    show "HDR st' x = HDR st x" if x: "d \<le> x" "x < d + span st d" for x
      using assms(5) [of x] assms(6) [OF \<open>on_list L d\<close>, of x] x by blast
  qed
  have bs: "bsize st' d = bsize st d" if "on_list L d" for d using m(1) [OF that] by (simp add: bsize_def)
  then have sp: "span st' d = span st d" if "on_list L d" for d using that by (simp add: span_def)
  show "on_list L d \<Longrightarrow> span st' d = span st d \<and> bsize st' d = bsize st d" using bs sp by simp
  have "member_ok st' d" "fl_index st' d = fl_index st d" if d: "on_list L d" for d
    using W(6) [OF d] m [OF d] bs [OF d] sp [OF d] by (simp_all add: member_ok_def free_at_def cores_def fl_index_def)
  then have "members_ok st' L" using W(7) by (auto simp: members_ok_def on_list_def)
  moreover have "lists_ok st' L" using lists_ok_cong [OF W(4) assms(3,4)] m(1) by blast
  ultimately show "weak_ok st' L" using assms(2) by (simp add: weak_ok_def)
  have "sizes st' (L j) = sizes st (L j)" if "j \<le> N_HBLK_FLS" for j
    by (rule sizes_cong) (use bs that in \<open>auto simp: on_list_def\<close>)
  then show "free_total st' L = free_total st L" by (simp add: free_total_def)
qed

lemma base_ok_more: "base_ok st \<Longrightarrow> map_ok st' \<Longrightarrow> headers.more st' = headers.more st \<Longrightarrow> base_ok st'"
  using more_heap [of st' st] by (simp add: base_ok_def layouts_ok_def)

section \<open>Taking the first part of a block\<close>

text \<open>
  The blocks from \<open>h\<close> on, \<open>m\<close> of them, are taken out of the free block \<open>b\<close>; what is left
  before and after them stays free.
\<close>

definition carved :: "'a block_heap_scheme \<Rightarrow> (nat \<Rightarrow> nat list) \<Rightarrow> nat \<Rightarrow> nat \<Rightarrow> nat \<Rightarrow> 'a block_heap_scheme \<Rightarrow> (nat \<Rightarrow> nat list) \<Rightarrow> bool" where
  "carved st L b h m st' L' \<longleftrightarrow>
     weak_ok st' L' \<and> frame st st' \<and> b \<le> h \<and> 0 < m \<and> h + m \<le> b + span st b \<and>
     (\<forall>c. b < h \<and> (c = b \<or> c = h) \<or> h + m < b + span st b \<and> c = h + m \<or> HDR st' c = HDR st c \<and> cores st' c = cores st c) \<and>
     HDR st' b = HDR st b \<and> free_at st' h \<and>
     (\<forall>c. on_list L' c \<longleftrightarrow> on_list L c \<and> c \<noteq> b \<or> c = b \<and> b < h \<or> c = h + m \<and> h + m < b + span st b) \<and>
     (b < h \<longrightarrow> span st' b = h - b) \<and> (h + m < b + span st b \<longrightarrow> span st' (h + m) = b + span st b - (h + m)) \<and>
     free_total st' L' + m * HBLKSIZE = free_total st L"

lemma GC_get_first_part_ok:
  assumes "base_ok st" "lists_ok st L" "others_ok st L b" "member_ok st b" "i \<le> N_HBLK_FLS" "L i = xs @ b # ys" "HDR st b = Hdr r"
    and n: "0 < n" "n \<le> span st b"
  shows "\<exists>h st' m L'. GC_get_first_part b r (n * HBLKSIZE) i st = Inr (h, st') \<and> carved st L b b m st' L' \<and>
    memory_step st (h \<noteq> 0) st' \<and> (h = b \<and> m = n \<or> h = 0 \<and> n < span st b)"
proof -
  note B = member_okD [OF assms(4)] and R = on_list_remove [OF assms(2,5,6)]
  let ?L = "L(i := xs @ ys)"
  obtain st1 where st1: "GC_remove_from_fl r (Some i) st = Inr st1" "relinked st st1" "weak_ok st1 ?L"
    "free_total st1 ?L + bsize st b = free_total st L"
    using weak_ok_remove [OF assms(1-3,5,6,7), of "Some i"] by auto
  note D = relinkedD [OF st1(2)] and W1 = weak_okD [OF st1(3)]
  have sz: "hb_sz (hdrs st ! r) = span st b * HBLKSIZE"
    using B(2) assms(7) by (simp add: bsize_def hdr_of_eq)
  have all: "carved st L b b (span st b) st2 ?L"
    if "weak_ok st2 ?L" "frame st st2" "HDR st2 = HDR st" "cores st2 = cores st" "free_total st2 ?L = free_total st1 ?L" for st2
    using that R B(1,2,4) st1(4) by (auto simp: carved_def free_at_def)
  show ?thesis
  proof (cases "n = span st b")
    case True
    then have "GC_get_first_part b r (n * HBLKSIZE) i st = Inr (b, st1)" by (simp add: GC_get_first_part_def sz st1(1))
    then show ?thesis using True all [OF st1(3) frame_relinked [OF st1(2)] D(1,3) refl] relinked_memory [OF st1(2)] B(3) by auto
  next
    case False
    then have lt: "n < span st b" using n by simp
    have rest: "(b * HBLKSIZE + n * HBLKSIZE) div HBLKSIZE = b + n" by (simp add: algebra_simps flip: add_mult_distrib)
    obtain q st2 where ins: "GC_install_header (b + n) st1 = (q, st2)" by fastforce
    note I = GC_install_header_hdr [OF W1(1) ins] and M = GC_install_header_more(1) [OF ins] and Me = GC_install_header_memory [OF ins]
      and ok2 = GC_install_header_ok(1) [OF W1(1) ins]
    have mem: "memory_step st True st1 " by (rule relinked_memory [OF st1(2)])
    show ?thesis
    proof (cases q)
      case None
      then have eq: "GC_get_first_part b r (n * HBLKSIZE) i st = Inr (0, st2)"
        using False by (simp add: GC_get_first_part_def sz st1(1) rest ins)
      have H: "HDR st2 = HDR st1" "hdr_of st2 = hdr_of st1" using I None by auto
      have w: "weak_ok st2 ?L" "free_total st2 ?L = free_total st1 ?L"
        by (rule weak_ok_change(1,2) [where C = "{}", OF st1(3) base_ok_more [OF W1(5) ok2 M] more_heap(1,2) [OF M]]; simp add: H)+
      have "frame st st2" using frame_trans [OF frame_relinked [OF st1(2)] frame_more [OF M]] .
      moreover have "HDR st2 = HDR st" "cores st2 = cores st" using H D(1,3) by (auto simp: cores_def fun_eq_iff)
      ultimately have "carved st L b b (span st b) st2 ?L" using all w by blast
      then show ?thesis using eq lt memory_step_trans [OF mem Me] None by auto
    next
      case (Some q')
      let ?f = "\<lambda>x. x\<lparr>hb_sz := span st b * HBLKSIZE - n * HBLKSIZE, hb_free := False, hb_ignore_off_page := False\<rparr>"
      define st3 where "st3 = upd_hdr q' ?f st2"
      obtain g where H2: "HDR st2 = (HDR st1)(b + n := Hdr q')" "hdr_of st2 = (hdr_of st1)(b + n := Some g)"
        using I Some by auto
      then have Hq: "HDR st2 (b + n) = Hdr q'" and g: "hdrs st2 ! q' = g" by (simp_all add: hdr_of_eq) (metis fun_upd_same hdr_of_eq option.inject)
      have H3: "HDR st3 = (HDR st1)(b + n := Hdr q')" "hdr_of st3 = (hdr_of st1)(b + n := Some (?f g))" "map_ok st3"
        using H2 ok2 hdr_of_upd [OF ok2 Hq, of ?f] g by (auto simp: st3_def fun_eq_iff)
      have more3: "headers.more st3 = headers.more st1" using M by (simp add: st3_def)
      have nil: "HDR st (b + n) = Nil_entry" using B(6) lt n by simp
      have out: "\<not> (d \<le> b + n \<and> b + n < d + span st1 d)" if d: "on_list ?L d" for d
      proof -
        have "member_ok st d" using W1(6) [OF d] relinked_member(1) [OF st1(2)] by simp
        moreover have "d \<noteq> b" using d R by blast
        ultimately have "b + span st b \<le> d \<or> d + span st d \<le> b" using members_disjoint [OF assms(4)] by blast
        moreover have "span st1 d = span st d" using D(4) by (simp add: span_def)
        ultimately show ?thesis using lt by auto
      qed
      have w3: "weak_ok st3 ?L" "free_total st3 ?L = free_total st1 ?L"
        by (rule weak_ok_change(1,2) [where C = "{b + n}", OF st1(3) base_ok_more [OF W1(5) H3(3) more3] more_heap(1,2) [OF more3]];
            use H3(1,2) out in auto)+
      have H3q: "HDR st3 (b + n) = Hdr q'" using H3 by simp
      have not_on: "\<not> on_list ?L (b + n)"
        using W1(6) member_okD(5) D(1) nil by fastforce
      let ?st = "upd_hdr q' (\<lambda>h. h\<lparr>hb_free := True\<rparr>) st3"
      have h3: "hdrs st3 ! q' = ?f g" using H3(2) hdr_of_eq [OF H3q] by simp
      have c3: "cores ?st = (cores st)(b + n := Some (core ((?f g)\<lparr>hb_free := True\<rparr>)))"
        using cores_upd [OF H3(3) H3q, of "\<lambda>h. h\<lparr>hb_free := True\<rparr>"] h3 H3(2) D(3) by (auto simp: fun_eq_iff cores_def)
      have bs: "bsize ?st (b + n) = (span st b - n) * HBLKSIZE" by (simp add: bsize_core c3 diff_mult_distrib)
      then have sp: "span ?st (b + n) = span st b - n" by (simp add: span_def)
      have "member_ok ?st (b + n)"
        using lt B(3,7) n H3(1) D(1) B(6) unfolding member_ok_def sp bs by (simp add: free_at_def c3 add.commute)
      then obtain st4 j where st4: "GC_add_to_fl (b + n) q' st3 = Inr st4" "relinked ?st st4" "j \<le> N_HBLK_FLS"
        "weak_ok st4 (?L(j := (b + n) # ?L j))" "free_total st4 (?L(j := (b + n) # ?L j)) = free_total st3 ?L + bsize st3 (b + n)"
        using weak_ok_add [OF w3(1) H3q not_on] by blast
      have bs3: "bsize st3 (b + n) = (span st b - n) * HBLKSIZE" by (simp add: bsize_def H3(2) diff_mult_distrib)
      have eq: "GC_get_first_part b r (n * HBLKSIZE) i st = Inr (b, st4)"
        using False by (simp add: GC_get_first_part_def sz st1(1) rest ins Some st3_def [symmetric] st4(1) Let_def)
      note D4 = relinkedD [OF st4(2)]
      have "frame st st4"
        using frame_trans [OF frame_relinked [OF st1(2)] frame_trans [OF frame_more [OF more3]
          frame_trans [OF frame_upd_hdr frame_relinked [OF st4(2)]]]] .
      moreover have "free_total st4 (?L(j := (b + n) # ?L j)) + n * HBLKSIZE = free_total st L"
        using st4(5) w3(2) bs3 st1(4) B(2) mult_le_mono1 [OF n(2), of HBLKSIZE] unfolding diff_mult_distrib by linarith
      moreover have "HDR st4 c = HDR st c \<and> cores st4 c = cores st c" if "c \<noteq> b + n" for c
        using that D4(1,3) H3(1) D(1) c3 by simp
      moreover have "span st4 (b + n) = span st b - n" using D4(4) sp by (simp add: span_def)
      moreover have "on_list (?L(j := (b + n) # ?L j)) c \<longleftrightarrow> on_list L c \<and> c \<noteq> b \<or> c = b + n" for c
        using on_list_add [OF st4(3), of ?L "b + n" c] R by auto
      ultimately have "carved st L b b n st4 (?L(j := (b + n) # ?L j))"
        using st4(4) lt n B(4) by (auto simp: carved_def free_at_def)
      moreover have "memory_step st True st4"
      proof -
        have s: "memory_step st1 True st2" "memory_step st2 True st3" "memory_step st3 True ?st"
          using Me Some by (simp_all add: st3_def upd_hdr_memory)
        show ?thesis
          by (rule memory_step_trans [OF mem memory_step_trans [OF s(1) memory_step_trans [OF s(2)
            memory_step_trans [OF s(3) relinked_memory [OF st4(2)]]]]])
      qed
      ultimately show ?thesis using eq B(3) by auto
    qed
  qed
qed

end
