(* ===== verification/GC_Split.thy ===== *)
theory GC_Split
  imports GC_Carve
begin

text \<open>
  Splitting a free block in two, as \<open>GC_allochblk_nth\<close> does when the first pages of a block are
  black listed, and taking blocks out of the second part.
\<close>

section \<open>Replacing a block on its list\<close>

lemma dlseg_replace:
  assumes "dlseg H pr s (xs @ b # ys) e" "distinct (xs @ b # ys)" "n \<notin> set (xs @ ys)" "n \<noteq> 0"
    and "H' n = Some g" "hb_prev g = last0 pr xs" "hb_next g = hd0 ys e"
    and "\<And>c. c \<in> set (xs @ ys) \<Longrightarrow> H' c = (if xs \<noteq> [] \<and> c = last xs then map_option (hb_next_update (\<lambda>_. n)) (H c)
           else if ys \<noteq> [] \<and> c = hd ys then map_option (hb_prev_update (\<lambda>_. n)) (H c) else H c)"
  shows "dlseg H' pr (if xs = [] then n else s) (xs @ n # ys) e"
proof -
  obtain h where h: "H b = Some h" "dlseg H pr s xs b" "dlseg H b (hd0 ys e) ys e"
    using dlseg_middle [OF assms(1)] by auto
  have "dlseg H' pr (if xs = [] then n else s) xs n"
  proof (cases xs rule: rev_cases)
    case (snoc zs x)
    obtain f where "H x = Some f" using h(2) snoc dlseg_mem [of H pr s xs b x] by auto
    moreover have "H' c = H c" if "c \<in> set zs" for c
      using assms(2) assms(8) [of c] snoc that by (cases ys) auto
    moreover have "H' x = map_option (hb_next_update (\<lambda>_. n)) (H x)" using assms(8) [of x] snoc by simp
    ultimately show ?thesis
      using dlseg_set_next [of H pr s zs x b f H' n] h(2) assms(2) snoc by auto
  qed simp
  moreover have "dlseg H' n (hd0 ys e) ys e"
  proof (cases ys)
    case (Cons y zs)
    obtain f where f: "H y = Some f" using h(3) Cons by auto
    have "set xs \<inter> set ys = {}" using assms(2) by auto
    then have lx: "xs \<noteq> [] \<Longrightarrow> last xs \<notin> set ys" using last_in_set [of xs] by blast
    then have "H' c = H c" if "c \<in> set zs" for c
      using assms(2) assms(8) [of c] Cons that by auto
    moreover have "H' y = map_option (hb_prev_update (\<lambda>_. n)) (H y)" using assms(8) [of y] lx Cons by auto
    ultimately show ?thesis
      using dlseg_set_prev [of H b "hd0 ys e" y zs e f H' n] f h(3) assms(2) Cons by auto
  qed simp
  ultimately show ?thesis using assms(4-7) by (simp add: dlseg_append)
qed

text \<open>Fields of a header that the lists do not depend on.\<close>

lemma lists_ok_upd:
  assumes "map_ok st" "lists_ok st L" "HDR st b = Hdr r"
    and f: "hb_next (f (hdrs st ! r)) = hb_next (hdrs st ! r)" "hb_prev (f (hdrs st ! r)) = hb_prev (hdrs st ! r)"
      "hb_sz (f (hdrs st ! r)) = hb_sz (hdrs st ! r)"
  shows "lists_ok (upd_hdr r f st) L"
proof -
  note H = hdr_of_upd [OF assms(1,3), of f]
  have seg: "dlseg (hdr_of (upd_hdr r f st)) pr s bs e = dlseg (hdr_of st) pr s bs e" for pr s bs e
    by (induction bs arbitrary: pr s) (auto simp: H hdr_of_eq [OF assms(3)] f)
  have "bsize (upd_hdr r f st) c = bsize st c" for c
    by (cases "c = b") (simp_all add: bsize_def H hdr_of_eq [OF assms(3)] f)
  then have "sizes (upd_hdr r f st) bs = sizes st bs" for bs by (intro sizes_cong)
  then show ?thesis using assms(2) seg by (simp add: lists_ok_def list_ok_def)
qed

text \<open>The links of the block before and of the block after are redirected to \<open>h\<close>.\<close>

lemma redirect_prev:
  assumes "map_ok st" "\<And>c. c \<in> set xs \<Longrightarrow> c \<noteq> 0 \<and> (\<exists>p. HDR st c = Hdr p)"
  shows "\<exists>st'. (if last0 0 xs \<noteq> 0 then rbind (get_hdr st (last0 0 xs)) (\<lambda>p. Inr (upd_hdr p (\<lambda>x. x\<lparr>hb_next := h\<rparr>) st))
       else Inr (st\<lparr>GC_hblkfreelist := (GC_hblkfreelist st)[i := h]\<rparr>)) = Inr st' \<and> relinked st st' \<and>
    hdr_of st' = (\<lambda>c. if xs \<noteq> [] \<and> c = last xs then map_option (hb_next_update (\<lambda>_. h)) (hdr_of st c) else hdr_of st c) \<and>
    GC_hblkfreelist st' = (if xs = [] then (GC_hblkfreelist st)[i := h] else GC_hblkfreelist st) \<and> GC_free_bytes st' = GC_free_bytes st"
proof (cases xs rule: rev_cases)
  case Nil
  then show ?thesis by (simp add: relinked_fields)
next
  case (snoc zs x)
  then obtain p where p: "HDR st x = Hdr p" "x \<noteq> 0" using assms(2) [of x] by auto
  then have "hdr_of (upd_hdr p (\<lambda>x. x\<lparr>hb_next := h\<rparr>) st) =
      (\<lambda>c. if xs \<noteq> [] \<and> c = last xs then map_option (hb_next_update (\<lambda>_. h)) (hdr_of st c) else hdr_of st c)"
    using snoc by (auto simp: hdr_of_upd [OF assms(1) p(1)] hdr_of_eq [OF p(1)] fun_eq_iff)
  then show ?thesis
    using p snoc relinked_upd [OF assms(1) p(1), of "\<lambda>x. x\<lparr>hb_next := h\<rparr>"] by (auto simp: get_hdr_eq [OF p(1)])
qed

lemma redirect_next:
  assumes "map_ok st" "\<And>c. c \<in> set ys \<Longrightarrow> c \<noteq> 0 \<and> (\<exists>p. HDR st c = Hdr p)"
  shows "\<exists>st'. (if hd0 ys 0 \<noteq> 0 then rbind (get_hdr st (hd0 ys 0)) (\<lambda>p. Inr (upd_hdr p (\<lambda>x. x\<lparr>hb_prev := h\<rparr>) st)) else Inr st) = Inr st' \<and>
    relinked st st' \<and>
    hdr_of st' = (\<lambda>c. if ys \<noteq> [] \<and> c = hd ys then map_option (hb_prev_update (\<lambda>_. h)) (hdr_of st c) else hdr_of st c) \<and>
    GC_hblkfreelist st' = GC_hblkfreelist st \<and> GC_free_bytes st' = GC_free_bytes st"
proof (cases ys)
  case Nil
  then show ?thesis by (simp add: relinked_refl)
next
  case (Cons y zs)
  then obtain p where p: "HDR st y = Hdr p" "y \<noteq> 0" using assms(2) [of y] by auto
  then have "hdr_of (upd_hdr p (\<lambda>x. x\<lparr>hb_prev := h\<rparr>) st) =
      (\<lambda>c. if ys \<noteq> [] \<and> c = hd ys then map_option (hb_prev_update (\<lambda>_. h)) (hdr_of st c) else hdr_of st c)"
    using Cons by (auto simp: hdr_of_upd [OF assms(1) p(1)] hdr_of_eq [OF p(1)] fun_eq_iff)
  then show ?thesis
    using p Cons relinked_upd [OF assms(1) p(1), of "\<lambda>x. x\<lparr>hb_prev := h\<rparr>"] by (auto simp: get_hdr_eq [OF p(1)])
qed

section \<open>Splitting\<close>

lemma GC_split_block_ok:
  assumes "map_ok st" "lists_ok st L" "i \<le> N_HBLK_FLS" "L i = xs @ b # ys" "HDR st b = Hdr r" "HDR st h = Hdr q"
    and h: "b < h" "\<not> on_list L h" "bsize st b = k * HBLKSIZE" "h < b + k" "b \<noteq> 0"
  defines "j \<equiv> GC_hblk_fl_from_blocks (h - b)" and "L1 \<equiv> L(i := xs @ h # ys)"
  shows "\<exists>st'. GC_split_block b r h q i st = Inr st' \<and> lists_ok st' (L1(j := b # L1 j)) \<and> map_ok st' \<and> HDR st' = HDR st \<and>
    frame st st' \<and> memory_step st True st' \<and>
    cores st' = (cores st)(b \<mapsto> core ((hdrs st ! r)\<lparr>hb_sz := (h - b) * HBLKSIZE, hb_free := True\<rparr>),
      h \<mapsto> core ((hdrs st ! q)\<lparr>hb_sz := (b + k - h) * HBLKSIZE, hb_free := True, hb_ignore_off_page := False\<rparr>))"
proof -
  note D = lists_okD [OF assms(2,3)] and Rb = map_ok_hdr [OF assms(1,5)] and Rh = map_ok_hdr [OF assms(1,6)]
  let ?hb = "hdrs st ! r" and ?hh = "hdrs st ! q" and ?pr = "last0 0 xs" and ?nx = "hd0 ys 0"
  have links: "hb_prev ?hb = ?pr" "hb_next ?hb = ?nx"
    using dlseg_middle [of "hdr_of st" 0 _ xs b ys 0] D(4) assms(4,5) by (auto simp: hdr_of_eq)
  have dist: "distinct (xs @ b # ys)" using D(5) assms(4) by simp
  have hn: "h \<notin> set (xs @ ys)" "h \<noteq> b" "h \<noteq> 0" using h(1,2) assms(3,4) by (auto simp: on_list_def)
  have qr: "q \<noteq> r" using Rb(2) [of h] assms(6) hn by auto
  have mem: "c \<noteq> 0 \<and> (\<exists>p. HDR st c = Hdr p)" if "c \<in> set (xs @ b # ys)" for c
    using dlseg_mem [OF D(4), of c] that assms(4) by (metis hdr_ofE)
  have sz: "hb_sz ?hb = k * HBLKSIZE" using h(3) assms(5) by (simp add: bsize_def hdr_of_eq)
  let ?f = "\<lambda>x. x\<lparr>hb_prev := ?pr, hb_next := ?nx, hb_sz := (b + k - h) * HBLKSIZE, hb_free := False, hb_ignore_off_page := False\<rparr>"
  have sizes: "h * HBLKSIZE - b * HBLKSIZE = (h - b) * HBLKSIZE" "k * HBLKSIZE - (h - b) * HBLKSIZE = (b + k - h) * HBLKSIZE"
    "k * HBLKSIZE = (h - b) * HBLKSIZE + (b + k - h) * HBLKSIZE"
    using h(1,4) by (simp_all flip: diff_mult_distrib add_mult_distrib)
  define st1 where "st1 = upd_hdr q ?f st"
  have ok1: "map_ok st1" "HDR st1 = HDR st" "hdrs st1 ! r = ?hb" "hdrs st1 ! q = ?f ?hh"
    "hdr_of st1 = (hdr_of st)(h \<mapsto> ?f ?hh)"
    using assms(1) qr Rh(1) hdr_of_upd [OF assms(1,6), of ?f] by (auto simp: st1_def hdrs_upd_hdr fun_eq_iff)
  have fl1: "GC_hblkfreelist st1 = GC_hblkfreelist st" "GC_free_bytes st1 = GC_free_bytes st" by (simp_all add: st1_def)
  obtain stA where A: "(if ?pr \<noteq> 0 then rbind (get_hdr st1 ?pr) (\<lambda>p. Inr (upd_hdr p (\<lambda>x. x\<lparr>hb_next := h\<rparr>) st1))
       else Inr (st1\<lparr>GC_hblkfreelist := (GC_hblkfreelist st1)[i := h]\<rparr>)) = Inr stA" "relinked st1 stA"
    "hdr_of stA = (\<lambda>c. if xs \<noteq> [] \<and> c = last xs then map_option (hb_next_update (\<lambda>_. h)) (hdr_of st1 c) else hdr_of st1 c)"
    "GC_hblkfreelist stA = (if xs = [] then (GC_hblkfreelist st1)[i := h] else GC_hblkfreelist st1)" "GC_free_bytes stA = GC_free_bytes st1"
    using redirect_prev [OF ok1(1), of xs h i] mem ok1(2) by auto
  note DA = relinkedD [OF A(2)]
  obtain stB where B: "(if ?nx \<noteq> 0 then rbind (get_hdr stA ?nx) (\<lambda>p. Inr (upd_hdr p (\<lambda>x. x\<lparr>hb_prev := h\<rparr>) stA)) else Inr stA) = Inr stB"
    "relinked stA stB"
    "hdr_of stB = (\<lambda>c. if ys \<noteq> [] \<and> c = hd ys then map_option (hb_prev_update (\<lambda>_. h)) (hdr_of stA c) else hdr_of stA c)"
    "GC_hblkfreelist stB = GC_hblkfreelist stA" "GC_free_bytes stB = GC_free_bytes stA"
    using redirect_next [of stA ys h] mem ok1(1,2) DA(1,2) by auto
  define stC where "stC = stB\<lparr>GC_free_bytes := (GC_free_bytes stB)[i := GC_free_bytes stB ! i - of_nat ((h - b) * HBLKSIZE)]\<rparr>"
  define stD where "stD = upd_hdr r (\<lambda>x. x\<lparr>hb_sz := (h - b) * HBLKSIZE\<rparr>) stC"
  have rel: "relinked st1 stC" using relinked_trans [OF relinked_trans [OF A(2) B(2)] relinked_fields(2)] by (simp add: stC_def)
  note DC = relinkedD [OF rel]
  have okC: "map_ok stC" "HDR stC = HDR st" "hdr_of stC = hdr_of stB"
    using DC(1,2) ok1 by (simp_all add: stC_def)
  have HC: "HDR stC b = Hdr r" "HDR stC h = Hdr q" using okC(2) assms(5,6) by simp_all
  have coreC: "core (hdrs stC ! r) = core ?hb" using relinked_is_free(1) [OF rel, of b r] ok1(2,3) assms(5) by simp
  have okD: "map_ok stD" "HDR stD = HDR st" "hdr_of stD = (hdr_of stB)(b \<mapsto> (hdrs stC ! r)\<lparr>hb_sz := (h - b) * HBLKSIZE\<rparr>)"
    using okC hdr_of_upd [OF okC(1) HC(1), of "\<lambda>x. x\<lparr>hb_sz := (h - b) * HBLKSIZE\<rparr>"] by (auto simp: stD_def fun_eq_iff)
  have notin: "\<not> (xs \<noteq> [] \<and> c = last xs) \<and> \<not> (ys \<noteq> [] \<and> c = hd ys)" if "c \<notin> set (xs @ ys)" for c
    using that by (cases ys; cases xs rule: rev_cases) auto
  have one: "\<not> (xs \<noteq> [] \<and> ys \<noteq> [] \<and> last xs = hd ys)" using dist by (cases ys; cases xs rule: rev_cases) auto
  have HD: "hdr_of stD c = (if xs \<noteq> [] \<and> c = last xs then map_option (hb_next_update (\<lambda>_. h)) (hdr_of st c)
      else if ys \<noteq> [] \<and> c = hd ys then map_option (hb_prev_update (\<lambda>_. h)) (hdr_of st c) else hdr_of st c)"
    if "c \<noteq> b" "c \<noteq> h" for c using that one by (auto simp: okD(3) B(3) A(3) ok1(5))
  have HDh: "hdr_of stD h = Some (?f ?hh)" using hn notin [OF hn(1)] by (auto simp: okD(3) B(3) A(3) ok1(5))
  have flD: "GC_hblkfreelist stD = (if xs = [] then (GC_hblkfreelist st)[i := h] else GC_hblkfreelist st)"
    "GC_free_bytes stD = (GC_free_bytes st)[i := GC_free_bytes st ! i - of_nat ((h - b) * HBLKSIZE)]"
    by (simp_all add: stD_def stC_def B(4,5) A(4,5) fl1)
  have "dlseg (hdr_of stD) 0 (if xs = [] then h else GC_hblkfreelist st ! i) (xs @ h # ys) 0"
  proof (rule dlseg_replace [where H = "hdr_of st" and b = b and H' = "hdr_of stD", OF _ dist hn(1,3) HDh])
    show "hdr_of stD c = (if xs \<noteq> [] \<and> c = last xs then map_option (hb_next_update (\<lambda>_. h)) (hdr_of st c)
      else if ys \<noteq> [] \<and> c = hd ys then map_option (hb_prev_update (\<lambda>_. h)) (hdr_of st c) else hdr_of st c)" if "c \<in> set (xs @ ys)" for c
      by (rule HD) (use that dist hn(1) in auto)
  qed (use D(4) assms(4) in simp_all)
  then have seg: "dlseg (hdr_of stD) 0 (GC_hblkfreelist stD ! i) (xs @ h # ys) 0"
    using D(2) by (cases "xs = []") (simp_all add: flD(1))
  have bsD: "bsize stD c = bsize st c" if "c \<noteq> b" "c \<noteq> h" for c
    using HD [OF that] by (cases "hdr_of st c") (auto simp: bsize_def)
  have bsh: "bsize stD h = (b + k - h) * HBLKSIZE" by (simp add: bsize_def HDh)
  have bsb: "bsize stD b = (h - b) * HBLKSIZE" by (simp add: bsize_def okD(3))
  have szs: "sizes stD xs = sizes st xs" "sizes stD ys = sizes st ys"
    by (rule sizes_cong, rule bsD, use dist hn(1) in auto)+
  have "sizes st (L i) = (h - b) * HBLKSIZE + sizes stD (xs @ h # ys)" using sizes(3) by (simp add: assms(4) szs bsh h(3))
  then have "GC_free_bytes st ! i - of_nat ((h - b) * HBLKSIZE) = of_nat (sizes stD (xs @ h # ys))"
    using D(1) unfolding list_ok_def by (simp only: of_nat_add add_diff_cancel_left')
  then have lok: "list_ok stD i (xs @ h # ys)"
    using D(3) seg dist hn(1) unfolding list_ok_def flD(2) by simp
  have disj: "set (xs @ h # ys) \<inter> set (L j) = {}" if "j \<le> N_HBLK_FLS" "j \<noteq> i" for j
    using lists_okD(6) [OF assms(2,3) that(1)] that h(2) assms(4) by (auto simp: on_list_def)
  have lD: "lists_ok stD L1"
    unfolding L1_def
  proof (rule lists_ok_change [OF assms(2,3) lok disj])
    fix j c assume j: "j \<le> N_HBLK_FLS" "j \<noteq> i" "c \<in> set (L j)"
    then have c: "c \<notin> set (xs @ h # ys)" using disj [OF j(1,2)] by blast
    moreover have "c \<noteq> b" using lists_okD(6) [OF assms(2,3) j(1)] j(2,3) assms(4) by auto
    ultimately show "hdr_of stD c = hdr_of st c" using HD [of c] notin [of c] by auto
  qed (simp_all add: flD)
  have bnot: "\<not> on_list L1 b"
  proof
    assume "on_list L1 b"
    then obtain t where t: "t \<le> N_HBLK_FLS" "b \<in> set (L1 t)" by (auto simp: on_list_def)
    then show False using lists_okD(6) [OF assms(2,3) t(1)] assms(4) dist hn(2) by (cases "t = i") (auto simp: L1_def)
  qed
  have HDb: "HDR stD b = Hdr r" "HDR stD h = Hdr q" using okD(2) assms(5,6) by simp_all
  have jD: "fl_index stD b = j" using h(1) by (simp add: fl_index_def j_def bsb)
  obtain stE where E: "GC_add_to_fl b r stD = Inr stE" "relinked (upd_hdr r (\<lambda>h. h\<lparr>hb_free := True\<rparr>) stD) stE"
    "lists_ok stE (L1(j := b # L1 j))"
    using GC_add_to_fl_ok [OF okD(1) lD HDb(1) h(5) bnot] unfolding jD by auto
  note DE = relinkedD [OF E(2)]
  let ?st' = "upd_hdr q (\<lambda>x. x\<lparr>hb_free := True\<rparr>) stE"
  have okE: "map_ok stE" "HDR stE = HDR st" "HDR stE h = Hdr q" using DE(1,2) okD(1,2) assms(6) by (simp_all add: fun_eq_iff)
  have run: "GC_split_block b r h q i st = Inr ?st'"
    unfolding GC_split_block_def Let_def links sz sizes(1,2) st1_def [symmetric]
    by (simp only: A(1) B(1) rbind_Inr stC_def [symmetric] stD_def [symmetric] E(1))
  have coreE: "core (hdrs stE ! q) = core (?f ?hh)"
  proof -
    have "cores stE h = cores stD h" using DE(3) cores_upd [OF okD(1) HDb(1)] hn(2) by simp
    then show ?thesis using HDh hdr_of_eq [OF okE(3)] by (simp add: cores_def)
  qed
  have "cores ?st' = (cores st)(b \<mapsto> core (?hb\<lparr>hb_sz := (h - b) * HBLKSIZE, hb_free := True\<rparr>),
      h \<mapsto> core (?hh\<lparr>hb_sz := (b + k - h) * HBLKSIZE, hb_free := True, hb_ignore_off_page := False\<rparr>))"
  proof (rule ext)
    fix c
    have "cores stE = (cores stD)(b \<mapsto> core ((hdrs stD ! r)\<lparr>hb_free := True\<rparr>))" using DE(3) cores_upd [OF okD(1) HDb(1)] by simp
    moreover have "hdrs stD ! r = (hdrs stC ! r)\<lparr>hb_sz := (h - b) * HBLKSIZE\<rparr>" using okD(3) hdr_of_eq [OF HDb(1)] by simp
    moreover have "core ((hdrs stC ! r)\<lparr>hb_sz := s, hb_free := True\<rparr>) = core (?hb\<lparr>hb_sz := s, hb_free := True\<rparr>)" for s
      using coreC by (cases "hdrs stC ! r"; cases ?hb) (simp add: core_def)
    moreover have "cores stD c = cores st c" if "c \<noteq> b" "c \<noteq> h"
      using HD [OF that] by (cases "hdr_of st c") (auto simp: cores_def)
    moreover have "core ((hdrs stE ! q)\<lparr>hb_free := True\<rparr>) = core (?hh\<lparr>hb_sz := (b + k - h) * HBLKSIZE, hb_free := True, hb_ignore_off_page := False\<rparr>)"
      using coreE by (cases "hdrs stE ! q"; cases ?hh) (simp add: core_def)
    ultimately show "cores ?st' c = ((cores st)(b \<mapsto> core (?hb\<lparr>hb_sz := (h - b) * HBLKSIZE, hb_free := True\<rparr>),
      h \<mapsto> core (?hh\<lparr>hb_sz := (b + k - h) * HBLKSIZE, hb_free := True, hb_ignore_off_page := False\<rparr>))) c"
      using cores_upd [OF okE(1,3), of "\<lambda>x. x\<lparr>hb_free := True\<rparr>"] hn(2) by simp
  qed
  moreover have "lists_ok ?st' (L1(j := b # L1 j))" by (rule lists_ok_upd [OF okE(1) E(3) okE(3)]) simp_all
  moreover have "frame st ?st'"
  proof -
    have "frame st st1" "frame stC stD" "frame stD (upd_hdr r (\<lambda>h. h\<lparr>hb_free := True\<rparr>) stD)" "frame stE ?st'"
      by (simp_all add: st1_def stD_def)
    then show ?thesis using frame_relinked [OF rel] frame_relinked [OF E(2)] frame_trans by blast
  qed
  moreover have "memory_step st True ?st'"
  proof -
    have s: "memory_step st True st1" "memory_step stC True stD" "memory_step stD True (upd_hdr r (\<lambda>h. h\<lparr>hb_free := True\<rparr>) stD)" "memory_step stE True ?st'"
      by (simp_all add: st1_def stD_def upd_hdr_memory)
    show ?thesis
      by (rule memory_step_trans [OF s(1) memory_step_trans [OF relinked_memory [OF rel] memory_step_trans [OF s(2) memory_step_trans [OF s(3)
        memory_step_trans [OF relinked_memory [OF E(2)] s(4)]]]]])
  qed
  ultimately show ?thesis using run okE(1,2) by auto
qed

text \<open>The list after a split.\<close>

lemma on_list_replace:
  assumes "lists_ok st L" "i \<le> N_HBLK_FLS" "L i = xs @ b # ys" "h \<noteq> b"
  shows "on_list (L(i := xs @ h # ys)) c \<longleftrightarrow> on_list L c \<and> c \<noteq> b \<or> c = h"
proof -
  have "on_list (L(i := xs @ h # ys)) c \<longleftrightarrow> on_list (L(i := xs @ ys)) c \<or> c = h"
    using assms(2) by (auto simp: on_list_def split: if_splits)
  then show ?thesis using on_list_remove(1) [OF assms(1-3)] by blast
qed

lemma free_total_split:
  assumes "i \<le> N_HBLK_FLS" "j \<le> N_HBLK_FLS" "L i = xs @ b # ys" "bsize st' b + bsize st' h = bsize st b"
    "\<And>c. on_list (L(i := xs @ ys)) c \<Longrightarrow> bsize st' c = bsize st c"
  defines "L1 \<equiv> L(i := xs @ h # ys)"
  shows "free_total st' (L1(j := b # L1 j)) = free_total st L"
proof -
  have c: "bsize st' c = bsize st c" if "t \<le> N_HBLK_FLS" "t \<noteq> i" "c \<in> set (L t)" for t c
    by (rule assms(5)) (use that in \<open>auto simp: on_list_def\<close>)
  have "sizes st' xs = sizes st xs" "sizes st' ys = sizes st ys"
    by (rule sizes_cong, rule assms(5), use assms(1) in \<open>auto simp: on_list_def\<close>)+
  moreover have "free_total st' L1 + sizes st (L i) = free_total st L + sizes st' (xs @ h # ys)"
    unfolding L1_def by (rule free_total_change [OF assms(1)]) (rule c)
  moreover have "free_total st' (L1(j := b # L1 j)) = free_total st' L1 + bsize st' b"
    by (rule free_total_add [OF assms(2) refl])
  ultimately show ?thesis using assms(3,4) by simp
qed

text \<open>Taking \<open>n\<close> blocks from the middle of a free block.\<close>

lemma take_split_ok:
  assumes "weak_ok st L" "i \<le> N_HBLK_FLS" "L i = xs @ b # ys" "HDR st b = Hdr r"
    and h: "b < h" "h + n \<le> b + span st b" "0 < n" "GC_install_header h st = (Some q, st1)"
  shows "\<exists>h' st' m L'. rbind (GC_split_block b r h q i st1) (\<lambda>st. GC_get_first_part h q (n * HBLKSIZE) i st) = Inr (h', st') \<and>
    carved st L b h m st' L' \<and> memory_step st (h' \<noteq> 0) st' \<and> HDR st' h = Hdr q \<and> (h' = h \<and> m = n \<or> h' = 0 \<and> h + n < b + span st b)"
proof -
  note W = weak_okD [OF assms(1)] and R = on_list_remove(1) [OF weak_okD(4) [OF assms(1)] assms(2,3)]
  have onb: "on_list L b" using on_list_remove(2) [OF W(4) assms(2,3)] .
  note B = member_okD [OF W(6) [OF onb]]
  let ?k = "span st b"
  obtain g where H1: "HDR st1 = (HDR st)(h := Hdr q)" "hdr_of st1 = (hdr_of st)(h := Some g)"
    using GC_install_header_hdr [OF W(1) h(4)] by auto
  have ok1: "map_ok st1" using GC_install_header_ok(1) [OF W(1) h(4)] .
  note M1 = GC_install_header_more(1) [OF h(4)] and mem1 = GC_install_header_memory [OF h(4)]
  have base1: "base_ok st1" using base_ok_more [OF W(5) ok1 M1] .
  have nil: "HDR st h = Nil_entry" using B(6) h by simp
  have hnot: "\<not> on_list L h" using W(6) member_okD(5) nil by fastforce
  then have same1: "hdr_of st1 c = hdr_of st c" if "on_list L c" for c using that H1(2) by auto
  have lists1: "lists_ok st1 L" using lists_ok_cong [OF W(4) more_heap(1,2) [OF M1]] same1 by blast
  have HDR1: "HDR st1 b = Hdr r" "HDR st1 h = Hdr q" using H1(1) assms(4) h(1) by simp_all
  have bs1: "bsize st1 b = ?k * HBLKSIZE" using B(2) same1 [OF onb] by (simp add: bsize_def)
  define j where "j = GC_hblk_fl_from_blocks (h - b)"
  define L1 where "L1 = L(i := xs @ h # ys)"
  define L2 where "L2 = L1(j := b # L1 j)"
  obtain st2 where st2: "GC_split_block b r h q i st1 = Inr st2" "lists_ok st2 L2" "map_ok st2" "HDR st2 = HDR st1"
    "frame st1 st2" "memory_step st1 True st2"
    "cores st2 = (cores st1)(b \<mapsto> core ((hdrs st1 ! r)\<lparr>hb_sz := (h - b) * HBLKSIZE, hb_free := True\<rparr>),
      h \<mapsto> core ((hdrs st1 ! q)\<lparr>hb_sz := (b + ?k - h) * HBLKSIZE, hb_free := True, hb_ignore_off_page := False\<rparr>))"
    using GC_split_block_ok [OF ok1 lists1 assms(2,3) HDR1 h(1) hnot bs1 _ B(3)] h(2,3)
    unfolding j_def L1_def L2_def by auto
  have j: "j \<le> N_HBLK_FLS" by (simp add: j_def GC_hblk_fl_le)
  have H2: "HDR st2 = (HDR st)(h := Hdr q)" using st2(4) H1(1) by simp
  have c2: "cores st2 c = cores st c" if "c \<noteq> b" "c \<noteq> h" for c using that st2(7) H1(2) by (simp add: cores_def)
  have bsb: "bsize st2 b = (h - b) * HBLKSIZE" "bsize st2 h = (b + ?k - h) * HBLKSIZE"
    using h(1) by (simp_all add: bsize_core st2(7))
  then have spb: "span st2 b = h - b" "span st2 h = b + ?k - h" by (simp_all add: span_def)
  have free2: "free_at st2 b" "free_at st2 h" using h(1) by (simp_all add: free_at_def st2(7))
  have out: "outside st st2 b (b + ?k)" using c2 H2 h by (auto simp: outside_def)
  have base2: "base_ok st2" using base1 st2(3) frameD(3,4) [OF st2(5)] by (simp add: base_ok_def)
  have on1: "on_list L1 c \<longleftrightarrow> on_list L c \<and> c \<noteq> b \<or> c = h" for c
    unfolding L1_def by (rule on_list_replace [OF W(4) assms(2,3)]) (use h(1) in simp)
  have on2: "on_list L2 c \<longleftrightarrow> on_list L c \<or> c = h" for c
    using on_list_add [OF j, of L1 b c] on1 onb by (auto simp: L2_def)
  have lim: "(b + ?k) * HBLKSIZE < 2 ^ 63" by (rule B(7))
  have limh: "h * HBLKSIZE < 2 ^ 63" using le_less_trans [OF mult_le_mono1 lim, of h] h(2) by simp
  have mb: "member_ok st2 b"
    unfolding member_ok_def spb bsb using B(3) h(1) free2(1) limh B(6) h(2,3) by (auto simp: H2)
  have mh: "member_ok st2 h"
    unfolding member_ok_def spb bsb using B(3) h free2(2) lim B(6) by (auto simp: H2)
  have others: "others_ok st2 L2 h"
    unfolding others_ok_def
  proof (intro allI impI ballI)
    fix t c assume t: "t \<le> N_HBLK_FLS" "c \<in> set (L2 t)" "c \<noteq> h"
    show "member_ok st2 c \<and> fl_index st2 c = t"
    proof (cases "c = b")
      case True
      have "b \<notin> set (L1 t)" using on1 [of b] t(1) h(1) by (auto simp: on_list_def)
      then have "t = j" using t(2) True by (auto simp: L2_def split: if_splits)
      then show ?thesis using True mb bsb(1) by (simp add: fl_index_def j_def)
    next
      case False
      then have ct: "c \<in> set (L t)" using t assms(3) by (auto simp: L2_def L1_def split: if_splits)
      then have on: "on_list L c" using t(1) by (auto simp: on_list_def)
      then have "c + span st c \<le> b \<or> b + ?k \<le> c" using members_disjoint [OF W(6) [OF on] W(6) [OF onb]] False by blast
      from member_ok_outside [OF W(6) [OF on] out this] show ?thesis using W(7) [OF t(1) ct] by simp
    qed
  qed
  define xs' where "xs' = (if j = i then b # xs else xs)"
  have Li: "L2 i = xs' @ h # ys" by (simp add: L2_def L1_def xs'_def)
  have HDR2: "HDR st2 h = Hdr q" using H2 by simp
  have n2: "n \<le> span st2 h" using spb(2) h by simp
  obtain h' st3 m L3 where p: "GC_get_first_part h q (n * HBLKSIZE) i st2 = Inr (h', st3)" "carved st2 L2 h h m st3 L3"
    "memory_step st2 (h' \<noteq> 0) st3" "h' = h \<and> m = n \<or> h' = 0 \<and> n < span st2 h"
    using GC_get_first_part_ok [OF base2 st2(2) others mh assms(2) Li HDR2 h(3) n2] by auto
  have tot: "free_total st2 L2 = free_total st L"
    unfolding L2_def L1_def
  proof (rule free_total_split [where st = st and b = b and L = L and xs = xs and ys = ys, OF assms(2) j assms(3)])
    show "bsize st2 b + bsize st2 h = bsize st b"
      unfolding bsb B(2) using h by (simp flip: add_mult_distrib)
    show "bsize st2 c = bsize st c" if "on_list (L(i := xs @ ys)) c" for c
      using R [of c] that hnot c2 by (intro bsize_cores) auto
  qed
  have e: "h + span st2 h = b + ?k" using spb(2) h by simp
  have C: "weak_ok st3 L3" "frame st2 st3" "0 < m" "h + m \<le> b + ?k"
    "\<And>c. h + m < b + ?k \<and> c = h + m \<or> HDR st3 c = HDR st2 c \<and> cores st3 c = cores st2 c" "free_at st3 h"
    "\<And>c. on_list L3 c \<longleftrightarrow> on_list L2 c \<and> c \<noteq> h \<or> c = h + m \<and> h + m < b + ?k"
    "h + m < b + ?k \<Longrightarrow> span st3 (h + m) = b + ?k - (h + m)" "free_total st3 L3 + m * HBLKSIZE = free_total st2 L2"
    using p(2) unfolding carved_def e by blast+
  have c3: "HDR st3 b = HDR st2 b \<and> cores st3 b = cores st2 b" using C(5) [of b] h(1) by auto
  have "carved st L b h m st3 L3"
    unfolding carved_def
  proof (intro conjI allI impI)
    show "frame st st3" using frame_trans [OF frame_more [OF M1] frame_trans [OF st2(5) C(2)]] .
    show "b < h \<and> (c = b \<or> c = h) \<or> h + m < b + ?k \<and> c = h + m \<or> HDR st3 c = HDR st c \<and> cores st3 c = cores st c" for c
      using C(5) [of c] c2 [of c] H2 h(1) by auto
    show "HDR st3 b = HDR st b" using c3 H2 h(1) by simp
    show "on_list L3 c \<longleftrightarrow> on_list L c \<and> c \<noteq> b \<or> c = b \<and> b < h \<or> c = h + m \<and> h + m < b + ?k" for c
      using C(7) [of c] on2 [of c] hnot onb h(1) by auto
    show "span st3 b = h - b" using c3 spb(1) by (simp add: span_def bsize_core)
    show "free_total st3 L3 + m * HBLKSIZE = free_total st L" using C(9) tot by simp
  qed (use C h(1) in auto)
  moreover have "memory_step st (h' \<noteq> 0) st3"
    using mem1 by (intro memory_step_trans [OF _ memory_step_trans [OF st2(6) p(3)]]) simp
  moreover have "HDR st3 h = Hdr q" using p(2) HDR2 by (simp add: carved_def)
  ultimately show ?thesis using st2(1) p(1,4) e by auto
qed

end
