(* ===== verification/GC_Invariant.thy ===== *)
theory GC_Invariant
  imports GC_Split
begin

text \<open>
  The invariant of the heap of blocks, and the operations of the allocator that hand nothing
  out: setting up the header of a block, and giving up a completely black listed block.
\<close>

section \<open>The invariant of the heap\<close>

text \<open>The pages of the blocks on the free lists.\<close>

definition region :: "'a headers_scheme \<Rightarrow> (nat \<Rightarrow> nat list) \<Rightarrow> nat set" where
  "region st L = {c. \<exists>b. on_list L b \<and> b \<le> c \<and> c < b + span st b}"

definition nblocks :: "hdr \<Rightarrow> nat" where
  "nblocks h = OBJ_SZ_TO_BLOCKS (hb_sz h)"

definition in_use :: "'a headers_scheme \<Rightarrow> nat \<Rightarrow> hdr \<Rightarrow> bool" where
  "in_use st b h \<longleftrightarrow> cores st b = Some h \<and> \<not> hb_free h"

text \<open>A block in use: its pages after the first have forwarding counts.\<close>

definition used_ok :: "'a headers_scheme \<Rightarrow> nat \<Rightarrow> hdr \<Rightarrow> bool" where
  "used_ok st b h \<longleftrightarrow> b \<noteq> 0 \<and> 0 < hb_sz h \<and> hb_sz h < 2 ^ 63 \<and> (b + nblocks h) * HBLKSIZE < 2 ^ 63 \<and>
     (\<forall>c. b < c \<and> c < b + nblocks h \<longrightarrow> HDR st c = Jump (min (c - b) MAX_JUMP))"

text \<open>
  \<open>B\<close> holds the free blocks that were lost: taken off their list when a header for the rest
  could not be allocated. It stays empty while there is scratch memory.
\<close>

definition heap_inv :: "'a block_heap_scheme \<Rightarrow> (nat \<Rightarrow> nat list) \<Rightarrow> nat set \<Rightarrow> bool" where
  "heap_inv st L B \<longleftrightarrow> weak_ok st L \<and> scratch_ok st \<and>
     (\<forall>c. free_at st c \<longrightarrow> on_list L c \<or> c \<in> B) \<and>
     (\<forall>c h. in_use st c h \<longrightarrow> used_ok st c h) \<and>
     (\<forall>c d. HDR st c = Jump d \<longrightarrow> (\<exists>b h. in_use st b h \<and> b < c \<and> c < b + nblocks h)) \<and>
     (\<forall>b c. on_list L b \<longrightarrow> on_list L c \<longrightarrow> c \<noteq> b + span st b)"

text \<open>What the search may do on its way: nothing outside the free pages changes, and the pages given
  up are taken out of the count of free bytes.\<close>

definition progress :: "'a block_heap_scheme \<Rightarrow> (nat \<Rightarrow> nat list) \<Rightarrow> 'a block_heap_scheme \<Rightarrow> (nat \<Rightarrow> nat list) \<Rightarrow> bool" where
  "progress st L st' L' \<longleftrightarrow> GC_obj_kinds st' = GC_obj_kinds st \<and> memory_step st True st' \<and>
     (\<forall>c. c \<notin> region st L \<longrightarrow> HDR st' c = HDR st c \<and> cores st' c = cores st c) \<and>
     region st' L' \<subseteq> region st L \<and>
     GC_large_free_bytes st' - of_nat (free_total st' L') = GC_large_free_bytes st - of_nat (free_total st L)"

lemma heap_invD:
  assumes "heap_inv st L B"
  shows "weak_ok st L" "scratch_ok st" "free_at st c \<Longrightarrow> on_list L c \<or> c \<in> B" "in_use st c h \<Longrightarrow> used_ok st c h"
    "HDR st c = Jump d \<Longrightarrow> \<exists>b h. in_use st b h \<and> b < c \<and> c < b + nblocks h"
    "on_list L b \<Longrightarrow> on_list L c \<Longrightarrow> c \<noteq> b + span st b"
  using assms by (auto simp: heap_inv_def)

lemma progress_refl [simp]: "progress st L st L"
  by (simp add: progress_def memory_step_same)

lemma progress_trans:
  assumes "progress st L st1 L1" "progress st1 L1 st2 L2"
  shows "progress st L st2 L2"
proof -
  have "memory_step st True st2" using assms memory_step_trans by (auto simp: progress_def)
  then show ?thesis using assms unfolding progress_def by (auto simp: subset_iff)
qed

lemma regionI: "on_list L b \<Longrightarrow> b \<le> c \<Longrightarrow> c < b + span st b \<Longrightarrow> c \<in> region st L"
  by (auto simp: region_def)

text \<open>Pages of free blocks are not in use.\<close>

lemma region_not_used:
  assumes "heap_inv st L B" "c \<in> region st L"
  shows "\<not> in_use st c h" "HDR st c = Nil_entry \<or> on_list L c \<and> free_at st c"
proof -
  obtain b where b: "on_list L b" "b \<le> c" "c < b + span st b" using assms(2) by (auto simp: region_def)
  note M = member_okD [OF weak_okD(6) [OF heap_invD(1) [OF assms(1)] b(1)]]
  show *: "HDR st c = Nil_entry \<or> on_list L c \<and> free_at st c" using M(4,6) b by (cases "c = b") auto
  show "\<not> in_use st c h"
  proof
    assume u: "in_use st c h"
    then have "HDR st c \<noteq> Nil_entry" by (auto simp: in_use_def cores_def hdr_of_def)
    then show False using * u by (auto simp: in_use_def free_at_def)
  qed
qed

text \<open>The pages of a block in use are not free.\<close>

lemma used_not_region:
  assumes "heap_inv st L B" "in_use st b h" "b \<le> c" "c < b + nblocks h"
  shows "c \<notin> region st L"
proof
  assume c: "c \<in> region st L"
  have "used_ok st b h" using heap_invD(4) [OF assms(1,2)] .
  then have "c \<noteq> b \<Longrightarrow> HDR st c = Jump (min (c - b) MAX_JUMP)" using assms(3,4) by (simp add: used_ok_def)
  moreover have "c \<noteq> b" using region_not_used(1) [OF assms(1) c] assms(2) by auto
  moreover have "\<exists>r. HDR st c = Hdr r" if "free_at st c" using that by (auto simp: free_at_def cores_def elim: hdr_ofE)
  ultimately show False using region_not_used(2) [OF assms(1) c] by auto
qed

text \<open>
  The invariant of a new state, from that of the old one: the free blocks are on their lists,
  what is not free was in use before or is in order, and what is in use keeps its pages.
\<close>

lemma heap_inv_step:
  assumes "heap_inv st L B" "weak_ok st' L'" "memory_step st True st'"
    and "\<And>c. c \<notin> region st L \<Longrightarrow> HDR st' c = HDR st c \<and> cores st' c = cores st c"
    and "\<And>c. c \<in> region st L \<Longrightarrow> free_at st' c \<Longrightarrow> on_list L' c \<or> c \<in> B'" "B \<subseteq> B'"
    and "\<And>c. on_list L c \<Longrightarrow> c \<notin> region st L \<Longrightarrow> on_list L' c"
    and "\<And>c h. c \<in> region st L \<Longrightarrow> in_use st' c h \<Longrightarrow> used_ok st' c h"
    and "\<And>c d. c \<in> region st L \<Longrightarrow> HDR st' c = Jump d \<Longrightarrow> \<exists>b h. in_use st' b h \<and> b < c \<and> c < b + nblocks h"
    and "\<And>b c. on_list L' b \<Longrightarrow> on_list L' c \<Longrightarrow> c \<noteq> b + span st' b"
  shows "heap_inv st' L' B'"
  unfolding heap_inv_def
proof (intro conjI allI impI)
  note I = heap_invD [OF assms(1)]
  show "weak_ok st' L'" by fact
  show "scratch_ok st'" using I(2) assms(3) by (simp add: memory_step_def supplied_def)
  have use: "in_use st' c h \<longleftrightarrow> in_use st c h" if "c \<notin> region st L" for c h
    using assms(4) [OF that] by (simp add: in_use_def)
  show "on_list L' c \<or> c \<in> B'" if "free_at st' c" for c
  proof (cases "c \<in> region st L")
    case False
    then have "free_at st c" using that assms(4) by (simp add: free_at_def)
    then show ?thesis using I(3) assms(6,7) False by blast
  qed (use assms(5) that in blast)
  show "used_ok st' c h" if u: "in_use st' c h" for c h
  proof (cases "c \<in> region st L")
    case False
    then have u': "in_use st c h" using use u by simp
    have "HDR st' d = HDR st d" if "c < d" "d < c + nblocks h" for d
      using assms(4) [of d] used_not_region [OF assms(1) u', of d] that by simp
    then show ?thesis using I(4) [OF u'] by (simp add: used_ok_def)
  qed (use assms(8) u in blast)
  show "\<exists>b h. in_use st' b h \<and> b < c \<and> c < b + nblocks h" if j: "HDR st' c = Jump d" for c d
  proof (cases "c \<in> region st L")
    case False
    then obtain b h where b: "in_use st b h" "b < c" "c < b + nblocks h" using I(5) [of c d] j assms(4) by auto
    have "b \<notin> region st L" using region_not_used(1) [OF assms(1)] b(1) by blast
    then show ?thesis using b use by blast
  qed (use assms(9) j in blast)
  show "c \<noteq> b + span st' b" if "on_list L' b" "on_list L' c" for b c using assms(10) that by blast
qed

section \<open>Setting up a header\<close>

lemma GC_add_map_entry_ok:
  fixes st :: "'a block_heap_scheme"
  assumes "map_ok st" "layouts_ok st" "GC_add_map_entry g st = (ok, st')"
  defines "i \<equiv> if g > MAXOBJGRANULES then 0 else g"
  shows "HDR st' = HDR st" "hdrs st' = hdrs st" "map_ok st'" "layouts_ok st'" "memory_step st ok st'"
    "ok \<Longrightarrow> GC_obj_map st' ! i = Some (map_entry i)"
    "\<exists>m. headers.more st' = headers.more (st\<lparr>GC_obj_map := m\<rparr>)"
proof -
  obtain p st1 where s: "GC_scratch_alloc (MAP_LEN * 2) st = (p, st1)" by fastforce
  have i: "i \<le> MAXOBJGRANULES" by (simp add: i_def)
  have same: "same_index st1 st" using scratch_alloc_same [of "MAP_LEN * 2" st] s by simp
  have more: "headers.more st1 = headers.more st" using scratch_alloc_more [of "MAP_LEN * 2" st] s by simp
  have mem: "memory_step st (p \<noteq> 0) st1" by (rule scratch_alloc_memory [OF s]) (simp add: MAP_LEN_def BYTES_TO_GRANULES_def GRANULE_BYTES_def HBLKSIZE_def)
  let ?st2 = "st1\<lparr>GC_obj_map := (GC_obj_map st)[i := Some (map_entry i)]\<rparr>"
  have eq: "(ok, st') = (if GC_obj_map st ! i \<noteq> None then (True, st) else if p = 0 then (False, st1) else (True, ?st2))"
    unfolding assms(3) [symmetric] GC_add_map_entry_def Let_def MAXOBJGRANULES_def [symmetric] i_def [symmetric] s prod.case
    using more_heap(3) [OF more] by simp
  have f: "bis st1 = bis st" "top_index st1 = top_index st" "all_bis st1 = all_bis st" "all_bis_end st1 = all_bis_end st"
    "hdrs st1 = hdrs st" "hdr_free_list st1 = hdr_free_list st" using same by (simp_all add: same_index_def)
  have m: "HDR st1 = HDR st" "map_ok st1 = map_ok st" by (rule HDR_cong map_ok_cong; simp add: f)+
  have m2: "HDR ?st2 = HDR st" "map_ok ?st2 = map_ok st" "memory_step st1 True ?st2"
    by (rule HDR_cong map_ok_cong memory_step_same; simp add: f)+
  have l: "layouts_ok st1" "layouts_ok ?st2"
    using assms(2) i more_heap(3,4) [OF more] by (auto simp: layouts_ok_def nth_list_update)
  have more2: "headers.more ?st2 = headers.more (st\<lparr>GC_obj_map := (GC_obj_map st)[i := Some (map_entry i)]\<rparr>)"
    "headers.more st1 = headers.more (st\<lparr>GC_obj_map := GC_obj_map st\<rparr>)" "headers.more st = headers.more (st\<lparr>GC_obj_map := GC_obj_map st\<rparr>)"
    using more by (cases st; cases st1; simp)+
  consider "ok" "st' = st" "GC_obj_map st ! i \<noteq> None" | "\<not> ok" "p = 0" "st' = st1" | "ok" "p \<noteq> 0" "st' = ?st2"
    using eq by (simp split: if_splits)
  note cases = this
  show "HDR st' = HDR st" by (cases rule: cases) (simp_all only: m m2)
  show "hdrs st' = hdrs st" by (cases rule: cases) (simp_all add: f(5))
  show "map_ok st'" by (cases rule: cases) (simp_all only: m m2 assms(1))
  show "layouts_ok st'" by (cases rule: cases) (simp_all only: l assms(2))
  show "memory_step st ok st'"
    by (cases rule: cases) (use mem memory_step_same [of st st] memory_step_trans [OF _ m2(3), of st] in simp_all)
  show "GC_obj_map st' ! i = Some (map_entry i)" if ok
    using that assms(2) i by (cases rule: cases) (auto simp: layouts_ok_def)
  show "\<exists>m. headers.more st' = headers.more (st\<lparr>GC_obj_map := m\<rparr>)" by (cases rule: cases) (use more2 in blast)+
qed

text \<open>The header of a block in use.\<close>

definition object_header :: "hdr \<Rightarrow> nat \<Rightarrow> nat \<Rightarrow> nat \<Rightarrow> bool \<Rightarrow> bool" where
  "object_header h b sz kind ignore_off_page \<longleftrightarrow> hb_block h = b \<and> hb_sz h = sz \<and> hb_obj_kind h = kind \<and>
     hb_ignore_off_page h = ignore_off_page \<and> hb_large_block h = (sz > MAXOBJBYTES) \<and> \<not> hb_free h \<and>
     (GRANULE_BYTES dvd sz \<longrightarrow> hb_map h = Some (map_entry (if sz > MAXOBJBYTES then 0 else BYTES_TO_GRANULES sz))) \<and>
     hb_marks h = {FINAL_MARK_BIT sz} \<and> hb_n_marks h = 0"

lemma object_header_core: "object_header (core h) b sz kind ign = object_header h b sz kind ign"
  by (simp add: object_header_def core_def)

lemma granules_index:
  assumes "GRANULE_BYTES dvd sz"
  shows "(if BYTES_TO_GRANULES sz > MAXOBJGRANULES then 0 else BYTES_TO_GRANULES sz) =
    (if sz > MAXOBJBYTES then 0 else BYTES_TO_GRANULES sz)"
  using assms by (auto simp: MAXOBJGRANULES_def BYTES_TO_GRANULES_def MAXOBJBYTES_def HBLKSIZE_def GRANULE_BYTES_def)

lemma setup_header_ok:
  fixes st :: "'a block_heap_scheme"
  assumes "base_ok st" "HDR st b = Hdr r" "kind < length (GC_obj_kinds st)"
  shows "\<exists>ok st' g. setup_header r b sz kind ign st = Inr (ok, st') \<and> HDR st' = HDR st \<and> hdr_of st' = (hdr_of st)(b \<mapsto> g) \<and>
    base_ok st' \<and> memory_step st ok st' \<and> \<not> hb_free g \<and> hb_sz g = (if ok then sz else HBLKSIZE) \<and>
    (ok \<longrightarrow> object_header g b sz kind ign) \<and> (\<exists>m. headers.more st' = headers.more (st\<lparr>GC_obj_map := m\<rparr>))"
proof -
  have W: "map_ok st" "tables_ok st" "layouts_ok st" using assms(1) by (simp_all add: base_ok_def)
  let ?k = "GC_obj_kinds st ! kind" and ?gr = "BYTES_TO_GRANULES sz"
  define f :: "hdr \<Rightarrow> hdr" where "f = (\<lambda>h. h\<lparr>hb_sz := sz, hb_obj_kind := kind, hb_free := False, hb_ignore_off_page := ign, hb_block := b,
      hb_descr := ok_descriptor ?k + (if ok_relocate_descr ?k then sz else 0), hb_large_block := sz > MAXOBJBYTES\<rparr>)"
  define st1 where "st1 = upd_hdr r f st"
  obtain ok st2 where A: "GC_add_map_entry ?gr st1 = (ok, st2)" by fastforce
  have ok1: "map_ok st1" "HDR st1 = HDR st" "hdr_of st1 = (hdr_of st)(b \<mapsto> f (hdrs st ! r))" "headers.more st1 = headers.more st" "memory_step st True st1"
    using W(1) hdr_of_upd [OF W(1) assms(2), of f] by (auto simp: st1_def fun_eq_iff upd_hdr_memory)
  have l1: "layouts_ok st1" using W(3) more_heap(3,4) [OF ok1(4)] by (simp add: layouts_ok_def)
  note G = GC_add_map_entry_ok [OF ok1(1) l1 A]
  have HDR2: "HDR st2 b = Hdr r" using G(1) ok1(2) assms(2) by simp
  have h2: "hdrs st2 ! r = f (hdrs st ! r)" using G(2) hdr_of_eq [of st1 b r] ok1(2,3) assms(2) by simp
  have of2: "hdr_of st2 = (hdr_of st)(b \<mapsto> f (hdrs st ! r))"
  proof -
    have "hdr_of st2 = hdr_of st1" by (rule ext) (simp add: hdr_of_def G(1,2) split: entry.split)
    then show ?thesis using ok1(3) by simp
  qed
  define e :: "hdr \<Rightarrow> hdr" where "e = (if ok then (\<lambda>h. (GC_clear_hdr_marks (h\<lparr>hb_map := GC_obj_map st2 ! (if sz > MAXOBJBYTES then 0 else ?gr)\<rparr>))
      \<lparr>hb_last_reclaimed := GC_gc_no st2 mod 2 ^ 16\<rparr>) else (\<lambda>h. h\<lparr>hb_sz := HBLKSIZE, hb_descr := 0, hb_large_block := True, hb_map := None\<rparr>))"
  have run: "setup_header r b sz kind ign st = Inr (ok, upd_hdr r e st2)"
    using assms(3) unfolding setup_header_def Let_def f_def [symmetric] st1_def [symmetric] A prod.case e_def by (cases ok) simp_all
  obtain m where m: "headers.more st2 = headers.more (st1\<lparr>GC_obj_map := m\<rparr>)" using G(7) by blast
  have mm: "headers.more (upd_hdr r e st2) = headers.more (st\<lparr>GC_obj_map := m\<rparr>)"
    using m ok1(4) by (cases st1; cases st) simp
  have "tables_ok (upd_hdr r e st2)" "layouts_ok (upd_hdr r e st2)"
  proof -
    have "tables_ok (upd_hdr r e st2) = tables_ok st" using mm by (cases st; cases "upd_hdr r e st2") (simp add: tables_ok_def)
    then show "tables_ok (upd_hdr r e st2)" using W(2) by simp
    have "layouts_ok (upd_hdr r e st2) = layouts_ok st2" unfolding upd_hdr_def layouts_ok_def by simp
    then show "layouts_ok (upd_hdr r e st2)" using G(4) by simp
  qed
  then have base: "base_ok (upd_hdr r e st2)" using G(3) by (simp add: base_ok_def)
  have H: "HDR (upd_hdr r e st2) = HDR st" using G(1) ok1(2) by (simp add: fun_eq_iff)
  have hof: "hdr_of (upd_hdr r e st2) = (hdr_of st)(b \<mapsto> e (f (hdrs st ! r)))"
    using hdr_of_upd [OF G(3) HDR2, of e] of2 h2 by (auto simp: fun_eq_iff)
  have "object_header (e (f (hdrs st ! r))) b sz kind ign" if ok
    using that G(6) granules_index [of sz] by (auto simp: object_header_def e_def f_def GC_clear_hdr_marks_def)
  moreover have "\<not> hb_free (e (f (hdrs st ! r)))" "hb_sz (e (f (hdrs st ! r))) = (if ok then sz else HBLKSIZE)"
    by (simp_all add: e_def f_def GC_clear_hdr_marks_def)
  moreover have "memory_step st ok (upd_hdr r e st2)"
  proof (cases ok)
    case True
    then show ?thesis using memory_step_trans [OF ok1(5) memory_step_trans [OF _ upd_hdr_memory]] G(5) by simp
  next
    case False
    have "memory_step st ok st2" using memory_step_trans [OF ok1(5) G(5)] .
    then show ?thesis using False by (simp add: memory_step_def supplied_def scratch_ok_def upd_hdr_def)
  qed
  ultimately show ?thesis using run H hof base mm by blast
qed

section \<open>Giving up a block\<close>

lemma memory_step_weaken: "memory_step st ok st' \<Longrightarrow> memory_step st True st'"
  by (simp add: memory_step_def)

lemma obj_map_more:
  fixes st st' :: "'a block_heap_scheme"
  assumes "headers.more st' = headers.more (st\<lparr>GC_obj_map := m\<rparr>)"
  shows "GC_hblkfreelist st' = GC_hblkfreelist st" "GC_free_bytes st' = GC_free_bytes st" "GC_obj_kinds st' = GC_obj_kinds st"
    "GC_large_free_bytes st' = GC_large_free_bytes st"
  using assms by (cases st; cases st'; simp)+

text \<open>The fields of the state that are not part of a heap's blocks and lists.\<close>

definition same_blocks :: "'a block_heap_scheme \<Rightarrow> 'a block_heap_scheme \<Rightarrow> bool" where
  "same_blocks st st' \<longleftrightarrow> HDR st' = HDR st \<and> hdr_of st' = hdr_of st \<and> base_ok st' = base_ok st \<and>
     GC_hblkfreelist st' = GC_hblkfreelist st \<and> GC_free_bytes st' = GC_free_bytes st \<and> GC_obj_kinds st' = GC_obj_kinds st \<and>
     memory_step st True st'"

lemma same_blocks_refl [simp]: "same_blocks st st"
  by (simp add: same_blocks_def memory_step_same)

lemma same_blocks_fields:
  "same_blocks st (st\<lparr>heap_mem := a\<rparr>)" "same_blocks st (st\<lparr>GC_large_alloc_warn_suppressed := w\<rparr>)"
  "same_blocks st (st\<lparr>GC_drop_count := n\<rparr>)" "same_blocks st (st\<lparr>GC_large_free_bytes := x, GC_bytes_dropped := y\<rparr>)"
  "same_blocks st (st\<lparr>GC_fail_count := k, GC_large_free_bytes := x\<rparr>)" "same_blocks st (st\<lparr>GC_large_free_bytes := x\<rparr>)"
proof -
  have "HDR (st\<lparr>heap_mem := a\<rparr>) = HDR st" "hdr_of (st\<lparr>heap_mem := a\<rparr>) = hdr_of st" "map_ok (st\<lparr>heap_mem := a\<rparr>) = map_ok st"
    "HDR (st\<lparr>GC_large_alloc_warn_suppressed := w\<rparr>) = HDR st" "hdr_of (st\<lparr>GC_large_alloc_warn_suppressed := w\<rparr>) = hdr_of st"
    "map_ok (st\<lparr>GC_large_alloc_warn_suppressed := w\<rparr>) = map_ok st"
    "HDR (st\<lparr>GC_drop_count := n\<rparr>) = HDR st" "hdr_of (st\<lparr>GC_drop_count := n\<rparr>) = hdr_of st" "map_ok (st\<lparr>GC_drop_count := n\<rparr>) = map_ok st"
    "HDR (st\<lparr>GC_large_free_bytes := x, GC_bytes_dropped := y\<rparr>) = HDR st" "hdr_of (st\<lparr>GC_large_free_bytes := x, GC_bytes_dropped := y\<rparr>) = hdr_of st"
    "map_ok (st\<lparr>GC_large_free_bytes := x, GC_bytes_dropped := y\<rparr>) = map_ok st"
    "HDR (st\<lparr>GC_fail_count := k, GC_large_free_bytes := x\<rparr>) = HDR st" "hdr_of (st\<lparr>GC_fail_count := k, GC_large_free_bytes := x\<rparr>) = hdr_of st"
    "map_ok (st\<lparr>GC_fail_count := k, GC_large_free_bytes := x\<rparr>) = map_ok st"
    "HDR (st\<lparr>GC_large_free_bytes := x\<rparr>) = HDR st" "hdr_of (st\<lparr>GC_large_free_bytes := x\<rparr>) = hdr_of st"
    "map_ok (st\<lparr>GC_large_free_bytes := x\<rparr>) = map_ok st"
    by (rule HDR_cong hdr_of_cong map_ok_cong; simp)+
  then show "same_blocks st (st\<lparr>heap_mem := a\<rparr>)" "same_blocks st (st\<lparr>GC_large_alloc_warn_suppressed := w\<rparr>)"
    "same_blocks st (st\<lparr>GC_drop_count := n\<rparr>)" "same_blocks st (st\<lparr>GC_large_free_bytes := x, GC_bytes_dropped := y\<rparr>)"
    "same_blocks st (st\<lparr>GC_fail_count := k, GC_large_free_bytes := x\<rparr>)" "same_blocks st (st\<lparr>GC_large_free_bytes := x\<rparr>)"
    by (simp_all add: same_blocks_def base_ok_def tables_ok_def layouts_ok_def memory_step_same)
qed

text \<open>The pages \<open>hs\<close> get headers of blocks in use of one page, or none.\<close>

definition dropped :: "'a block_heap_scheme \<Rightarrow> nat list \<Rightarrow> 'a block_heap_scheme \<Rightarrow> bool" where
  "dropped st hs st' \<longleftrightarrow> base_ok st' \<and> memory_step st True st' \<and> GC_hblkfreelist st' = GC_hblkfreelist st \<and>
     GC_free_bytes st' = GC_free_bytes st \<and> GC_obj_kinds st' = GC_obj_kinds st \<and> GC_large_free_bytes st' = GC_large_free_bytes st \<and>
     (\<forall>c. c \<notin> set hs \<longrightarrow> HDR st' c = HDR st c \<and> hdr_of st' c = hdr_of st c) \<and>
     (\<forall>c\<in>set hs. HDR st' c = Nil_entry \<or> (\<exists>g. hdr_of st' c = Some g \<and> \<not> hb_free g \<and> hb_sz g = HBLKSIZE))"

lemma drop_chunks_ok:
  assumes "base_ok st" "distinct hs" "\<And>c. c \<in> set hs \<Longrightarrow> if c = b then HDR st c = Hdr r else HDR st c = Nil_entry"
  shows "\<exists>st'. drop_chunks b r hs st = Inr st' \<and> dropped st hs st'"
  using assms
proof (induction hs arbitrary: st)
  case Nil
  then show ?case by (simp add: dropped_def memory_step_same)
next
  case (Cons h hs)
  have W: "map_ok st" "layouts_ok st" using Cons.prems(1) by (simp_all add: base_ok_def)
  obtain q st1 where I: "(if h = b then (Some r, st) else GC_install_header h st) = (q, st1)" by fastforce
  have 1: "headers.more st1 = headers.more st" "base_ok st1" "memory_step st True st1" "\<And>c. c \<noteq> h \<Longrightarrow> HDR st1 c = HDR st c \<and> hdr_of st1 c = hdr_of st c"
    "case q of None \<Rightarrow> HDR st1 h = Nil_entry | Some q \<Rightarrow> HDR st1 h = Hdr q"
  proof -
    have "headers.more st1 = headers.more st \<and> base_ok st1 \<and> memory_step st True st1 \<and>
        (\<forall>c. c \<noteq> h \<longrightarrow> HDR st1 c = HDR st c \<and> hdr_of st1 c = hdr_of st c) \<and> (case q of None \<Rightarrow> HDR st1 h = Nil_entry | Some q \<Rightarrow> HDR st1 h = Hdr q)"
    proof (cases "h = b")
      case True
      then show ?thesis using I Cons.prems(1) Cons.prems(3) [of h] by (auto simp: memory_step_same)
    next
      case False
      then have i: "GC_install_header h st = (q, st1)" using I by simp
      have nil: "HDR st h = Nil_entry" using Cons.prems(3) [of h] False by simp
      show ?thesis
        using GC_install_header_more(1) [OF i] base_ok_more [OF Cons.prems(1) GC_install_header_ok(1) [OF W(1) i] GC_install_header_more(1) [OF i]]
          memory_step_weaken [OF GC_install_header_memory [OF i]] GC_install_header_hdr [OF W(1) i] nil
        by (cases q) auto
    qed
    then show "headers.more st1 = headers.more st" "base_ok st1" "memory_step st True st1" "\<And>c. c \<noteq> h \<Longrightarrow> HDR st1 c = HDR st c \<and> hdr_of st1 c = hdr_of st c"
      "case q of None \<Rightarrow> HDR st1 h = Nil_entry | Some q \<Rightarrow> HDR st1 h = Hdr q" by blast+
  qed
  have f1: "GC_hblkfreelist st1 = GC_hblkfreelist st" "GC_free_bytes st1 = GC_free_bytes st" "GC_obj_kinds st1 = GC_obj_kinds st"
    "GC_large_free_bytes st1 = GC_large_free_bytes st" using more_heap [OF 1(1)] by simp_all
  have other: "c \<noteq> h" if "c \<in> set hs" for c using that Cons.prems(2) by auto
  show ?case
  proof (cases q)
    case None
    have "if c = b then HDR st1 c = Hdr r else HDR st1 c = Nil_entry" if "c \<in> set hs" for c
      using Cons.prems(3) [of c] 1(4) [OF other [OF that]] that by (cases "c = b") simp_all
    then obtain st' where st': "drop_chunks b r hs st1 = Inr st'" "dropped st1 hs st'"
      using Cons.IH [OF 1(2)] Cons.prems(2) by auto
    have hh: "HDR st1 h = Nil_entry" "h \<notin> set hs" using 1(5) None Cons.prems(2) by auto
    have "dropped st (h # hs) st'"
      using st'(2) 1(3,4) f1 hh memory_step_trans [OF 1(3), of True st'] by (auto simp: dropped_def)
    then show ?thesis using st'(1) I None by (auto simp: Let_def)
  next
    case (Some q')
    have H1: "HDR st1 h = Hdr q'" using 1(5) Some by simp
    have "PTRFREE < length (GC_obj_kinds st1)" using W(2) f1(3) by (simp add: layouts_ok_def)
    then obtain ok st2 g m where st2: "setup_header q' h HBLKSIZE PTRFREE False st1 = Inr (ok, st2)" "HDR st2 = HDR st1"
      "hdr_of st2 = (hdr_of st1)(h \<mapsto> g)" "base_ok st2" "memory_step st1 ok st2" "\<not> hb_free g" "hb_sz g = HBLKSIZE"
      "headers.more st2 = headers.more (st1\<lparr>GC_obj_map := m\<rparr>)"
      using setup_header_ok [OF 1(2) H1, of PTRFREE HBLKSIZE False] by auto
    define st3 where "st3 = (if GC_debugging_started st2
      then st2\<lparr>heap_mem := (\<lambda>a. if h * HBLKSIZE \<le> a \<and> a < (h + 1) * HBLKSIZE then 0 else heap_mem st2 a)\<rparr> else st2)"
    have sb: "same_blocks st2 st3" by (simp add: st3_def same_blocks_fields(1))
    have l3: "GC_large_free_bytes st3 = GC_large_free_bytes st2" by (simp add: st3_def)
    have H3: "HDR st3 = HDR st1" "hdr_of st3 = (hdr_of st1)(h \<mapsto> g)" "base_ok st3" using sb st2(2-4) by (simp_all add: same_blocks_def)
    have "if c = b then HDR st3 c = Hdr r else HDR st3 c = Nil_entry" if "c \<in> set hs" for c
      using Cons.prems(3) [of c] 1(4) [OF other [OF that]] that H3(1) by (cases "c = b") simp_all
    then obtain st' where st': "drop_chunks b r hs st3 = Inr st'" "dropped st3 hs st'"
      using Cons.IH [OF H3(3)] Cons.prems(2) by auto
    have hh: "hdr_of st3 h = Some g" "h \<notin> set hs" using H3(2) Cons.prems(2) by auto
    have mem: "memory_step st True st3"
      using memory_step_trans [OF 1(3) memory_step_trans [OF memory_step_weaken [OF st2(5)]]] sb by (simp add: same_blocks_def)
    have "dropped st (h # hs) st'"
      using st'(2) 1(4) f1 hh memory_step_trans [OF mem, of True st'] H3(1,2) st2(6,7) obj_map_more [OF st2(8)] sb l3
      by (auto simp: dropped_def same_blocks_def)
    moreover have "drop_chunks b r (h # hs) st = Inr st'"
      using st'(1) I Some st2(1) by (simp add: Let_def st3_def)
    ultimately show ?thesis by blast
  qed
qed

lemma same_blocks_inv:
  assumes "same_blocks st st'"
  shows "weak_ok st L \<Longrightarrow> weak_ok st' L" "heap_inv st L B \<Longrightarrow> heap_inv st' L B" "free_total st' L = free_total st L"
    "heap_inv st L B \<Longrightarrow> GC_large_free_bytes st' = GC_large_free_bytes st \<Longrightarrow> progress st L st' L" "region st' L = region st L"
    "span st' b = span st b" "cores st' = cores st"
proof -
  note S = assms [unfolded same_blocks_def]
  show c: "cores st' = cores st" using S by (simp add: cores_def fun_eq_iff)
  have bs: "bsize st' b = bsize st b" for b using S by (simp add: bsize_def)
  show sp: "span st' b = span st b" for b by (simp add: span_def bs)
  show r: "region st' L = region st L" by (simp add: region_def sp)
  show w: "weak_ok st' L" if "weak_ok st L"
    by (rule weak_ok_change(1) [where C = "{}", OF that]) (use S weak_okD(5) [OF that] in auto)
  show ft: "free_total st' L = free_total st L" using sizes_cong [of _ st' st] bs by (simp add: free_total_def)
  show "heap_inv st' L B" if "heap_inv st L B"
    using that w S unfolding heap_inv_def used_ok_def in_use_def free_at_def c sp
    by (auto simp: memory_step_def supplied_def)
  show "progress st L st' L" if "GC_large_free_bytes st' = GC_large_free_bytes st"
    using that S by (simp add: progress_def c r ft)
qed

lemma drop_block_ok:
  assumes "heap_inv st L B" "n \<le> N_HBLK_FLS" "L n = xs @ b # ys" "HDR st b = Hdr r"
  shows "\<exists>st'. drop_block b r n st = Inr st' \<and> heap_inv st' (L(n := xs @ ys)) B \<and> progress st L st' (L(n := xs @ ys))"
proof -
  note I = heap_invD [OF assms(1)] and W = weak_okD [OF heap_invD(1) [OF assms(1)]]
  have onb: "on_list L b" using on_list_remove(2) [OF W(4) assms(2,3)] .
  note M = member_okD [OF W(6) [OF onb]]
  let ?L = "L(n := xs @ ys)" and ?k = "span st b"
  have R: "on_list ?L c \<longleftrightarrow> on_list L c \<and> c \<noteq> b" for c using on_list_remove(1) [OF W(4) assms(2,3)] .
  have sz: "hb_sz (hdrs st ! r) = ?k * HBLKSIZE" using M(2) assms(4) by (simp add: bsize_def hdr_of_eq)
  define st0 where "st0 = st\<lparr>GC_large_free_bytes := GC_large_free_bytes st - of_nat (?k * HBLKSIZE),
      GC_bytes_dropped := GC_bytes_dropped st + of_nat (?k * HBLKSIZE)\<rparr>"
  have sb: "same_blocks st st0" by (simp add: st0_def same_blocks_fields)
  note S = sb [unfolded same_blocks_def] and SI = same_blocks_inv [OF sb]
  have W0: "weak_ok st0 L" using SI(1) I(1) .
  have H0: "HDR st0 b = Hdr r" using S assms(4) by simp
  have oth: "others_ok st0 L b" using W0 by (auto simp: others_ok_def weak_ok_def members_ok_def)
  obtain st1 where st1: "GC_remove_from_fl r (Some n) st0 = Inr st1" "relinked st0 st1" "weak_ok st1 ?L"
    "free_total st1 ?L + bsize st0 b = free_total st0 L"
    using weak_ok_remove [OF weak_okD(5,4) [OF W0] oth assms(2,3) H0, of "Some n"] by auto
  note D = relinkedD [OF st1(2)]
  have H1: "HDR st1 = HDR st" "cores st1 = cores st" using D(1,3) S SI(7) by simp_all
  have "if c = b then HDR st1 c = Hdr r else HDR st1 c = Nil_entry" if "c \<in> set [b..<b + ?k]" for c
    using that H1(1) assms(4) M(6) [of c] by auto
  then obtain st2 where st2: "drop_chunks b r [b..<b + ?k] st1 = Inr st2" "dropped st1 [b..<b + ?k] st2"
    using drop_chunks_ok [OF weak_okD(5) [OF st1(3)], of "[b..<b + ?k]" b r] by auto
  have run: "drop_block b r n st = Inr st2"
    using st1(1) st2(1) unfolding drop_block_def Let_def sz by (simp add: st0_def)
  have s1: "span st1 c = span st c" "bsize st1 c = bsize st c" for c using H1(2) by (simp_all add: span_def bsize_core)
  have apart: "\<not> (d \<le> c \<and> c < d + span st d)" if "on_list ?L d" "c \<in> {b..<b + ?k}" for d c
    using members_disjoint [OF W(6) [OF onb], of d] W(6) [of d] R [of d] that by auto
  note P = st2(2) [unfolded dropped_def]
  have w2: "weak_ok st2 ?L" "free_total st2 ?L = free_total st1 ?L" "\<And>d. on_list ?L d \<Longrightarrow> span st2 d = span st d"
  proof -
    have a: "base_ok st2" "GC_hblkfreelist st2 = GC_hblkfreelist st1" "GC_free_bytes st2 = GC_free_bytes st1" using P by simp_all
    have b: "HDR st2 d = HDR st1 d \<and> hdr_of st2 d = hdr_of st1 d" if "d \<notin> {b..<b + ?k}" for d using P that by simp
    have c: "\<not> (d \<le> c \<and> c < d + span st1 d)" if "on_list ?L d" "c \<in> {b..<b + ?k}" for d c using apart [OF that] s1 by simp
    note ch = weak_ok_change [where C = "{b..<b + ?k}", OF st1(3) a b c]
    show "weak_ok st2 ?L" "free_total st2 ?L = free_total st1 ?L" using ch(1,2) by blast+
    show "span st2 d = span st d" if "on_list ?L d" for d using ch(3) [OF _ _ _ that] s1 by simp
  qed
  have keep: "HDR st2 c = HDR st c \<and> cores st2 c = cores st c" if "c \<notin> {b..<b + ?k}" for c
    using P that H1 by (simp add: cores_def fun_eq_iff)
  have drop: "HDR st2 c = Nil_entry \<or> (\<exists>g. cores st2 c = Some g \<and> \<not> hb_free g \<and> hb_sz g = HBLKSIZE)" if "c \<in> {b..<b + ?k}" for c
  proof -
    have "HDR st2 c = Nil_entry \<or> (\<exists>g. hdr_of st2 c = Some g \<and> \<not> hb_free g \<and> hb_sz g = HBLKSIZE)" using P that by simp
    then show ?thesis by (auto simp: cores_def)
  qed
  have mem: "memory_step st True st2"
    using S memory_step_trans [OF _ memory_step_trans [OF relinked_memory [OF st1(2)]]] P by blast
  have sub: "c \<in> region st L" if "c \<in> {b..<b + ?k}" for c using that onb by (auto intro: regionI)
  have "heap_inv st2 ?L B"
  proof (rule heap_inv_step [OF assms(1) w2(1) mem])
    show "HDR st2 c = HDR st c \<and> cores st2 c = cores st c" if "c \<notin> region st L" for c using keep sub that by blast
    show "on_list ?L c \<or> c \<in> B" if "c \<in> region st L" "free_at st2 c" for c
    proof (cases "c \<in> {b..<b + ?k}")
      case True
      then show ?thesis using drop [OF True] that(2) by (auto simp: free_at_def cores_def hdr_of_def)
    next
      case False
      then have "free_at st c" "c \<noteq> b" using keep that(2) M(1) by (auto simp: free_at_def)
      then show ?thesis using I(3) R by blast
    qed
    show "on_list ?L c" if "on_list L c" "c \<notin> region st L" for c
      using that regionI [of L c c st] member_okD(1) [OF W(6)] by auto
    show "used_ok st2 c h" if "c \<in> region st L" "in_use st2 c h" for c h
    proof (cases "c \<in> {b..<b + ?k}")
      case True
      then have "hb_sz h = HBLKSIZE" using drop [OF True] that(2) by (auto simp: in_use_def cores_def hdr_of_def)
      moreover have "(c + 1) * HBLKSIZE \<le> (b + ?k) * HBLKSIZE" using True by (intro mult_le_mono1) simp
      then have "(c + 1) * HBLKSIZE < 2 ^ 63" using M(7) by (rule le_less_trans)
      moreover have "OBJ_SZ_TO_BLOCKS HBLKSIZE = 1" by (simp add: OBJ_SZ_TO_BLOCKS_def HBLKSIZE_def)
      ultimately show ?thesis using True M(3) by (auto simp: used_ok_def nblocks_def HBLKSIZE_def)
    next
      case False
      then show ?thesis using region_not_used(1) [OF assms(1) that(1)] that(2) keep by (simp add: in_use_def)
    qed
    show "\<exists>b h. in_use st2 b h \<and> b < c \<and> c < b + nblocks h" if "c \<in> region st L" "HDR st2 c = Jump d" for c d
    proof (cases "c \<in> {b..<b + ?k}")
      case True
      then show ?thesis using drop [OF True] that(2) by (auto simp: cores_def hdr_of_def)
    next
      case False
      then have "HDR st c = Jump d" using keep that(2) by simp
      then show ?thesis using region_not_used(2) [OF assms(1) that(1)] by (auto simp: free_at_def cores_def elim: hdr_ofE)
    qed
    show "d \<noteq> c + span st2 c" if "on_list ?L c" "on_list ?L d" for c d
      using I(6) w2(3) [OF that(1)] R that by simp
  qed simp
  moreover have "progress st L st2 ?L"
    unfolding progress_def
  proof (intro conjI)
    show "GC_obj_kinds st2 = GC_obj_kinds st"
      using P S frameD(2) [OF frame_relinked [OF st1(2)]] by simp
    show "\<forall>c. c \<notin> region st L \<longrightarrow> HDR st2 c = HDR st c \<and> cores st2 c = cores st c" using keep sub by blast
    show "region st2 ?L \<subseteq> region st L" using R w2(3) by (auto simp: region_def)
    have "GC_large_free_bytes st2 = GC_large_free_bytes st - of_nat (bsize st b)"
      using P frameD(1) [OF frame_relinked [OF st1(2)]] M(2) by (simp add: st0_def)
    moreover have "free_total st L = free_total st2 ?L + bsize st b"
      using st1(4) w2(2) SI(3) S by (simp add: bsize_def)
    ultimately show "GC_large_free_bytes st2 - of_nat (free_total st2 ?L) = GC_large_free_bytes st - of_nat (free_total st L)"
      by (simp only: of_nat_add) simp
  qed (rule mem)
  ultimately show ?thesis using run by blast
qed

end
