(* ===== verification/GC_Find.thy ===== *)
theory GC_Find
  imports GC_Invariant
begin

text \<open>
  The search for a free block: \<open>try_block\<close> and \<open>search_list\<close> always end, keep the invariant of the
  heap, and touch nothing but free blocks.
\<close>

section \<open>Outcomes\<close>

text \<open>After some progress, \<open>m\<close> blocks were taken from a free block; \<open>h\<close> is the first, or 0 when the
  header of the rest could not be allocated.\<close>

definition found :: "'a block_heap_scheme \<Rightarrow> (nat \<Rightarrow> nat list) \<Rightarrow> nat set \<Rightarrow> nat \<Rightarrow> nat \<Rightarrow> nat \<Rightarrow> 'a block_heap_scheme \<Rightarrow> bool" where
  "found st L B m h r st' \<longleftrightarrow> (\<exists>st1 L1 b hh m' L'. heap_inv st1 L1 B \<and> progress st L st1 L1 \<and> on_list L1 b \<and>
     carved st1 L1 b hh m' st' L' \<and> memory_step st1 (h \<noteq> 0) st' \<and> (h = hh \<and> m' = m \<and> HDR st' h = Hdr r \<or> h = 0))"

definition skipped :: "'a block_heap_scheme \<Rightarrow> (nat \<Rightarrow> nat list) \<Rightarrow> nat set \<Rightarrow> nat \<Rightarrow> nat list \<Rightarrow> nat \<Rightarrow> 'a block_heap_scheme \<Rightarrow> bool" where
  "skipped st L B n ys b st' \<longleftrightarrow> (\<exists>L' xs'. heap_inv st' L' B \<and> progress st L st' L' \<and> L' n = xs' @ ys \<and> b = hd0 ys 0)"

definition outcome :: "'a block_heap_scheme \<Rightarrow> (nat \<Rightarrow> nat list) \<Rightarrow> nat set \<Rightarrow> nat \<Rightarrow> nat \<Rightarrow> nat list \<Rightarrow> choice \<Rightarrow> 'a block_heap_scheme \<Rightarrow> bool" where
  "outcome st L B m n ys c st' \<longleftrightarrow> (case c of Take h r \<Rightarrow> found st L B m h r st' | Skip b \<Rightarrow> skipped st L B n ys b st')"

lemma found_progress: "progress st L st1 L1 \<Longrightarrow> found st1 L1 B m h r st' \<Longrightarrow> found st L B m h r st'"
  unfolding found_def by (elim exE conjE, intro exI conjI) (assumption | erule (1) progress_trans)+

lemma outcome_progress: "progress st L st1 L1 \<Longrightarrow> outcome st1 L1 B m n ys c st' \<Longrightarrow> outcome st L B m n ys c st'"
  unfolding outcome_def skipped_def by (cases c) (auto intro: found_progress progress_trans)

lemma signed_word_small: "n < 2 ^ 63 \<Longrightarrow> signed_word n = int n"
  by (simp add: signed_word_def signed_of_nat signed_take_bit_int_eq_self)

text \<open>The block and its header in a list.\<close>

lemma list_member:
  assumes "heap_inv st L B" "n \<le> N_HBLK_FLS" "L n = xs @ b # ys" "HDR st b = Hdr r"
  shows "on_list L b" "member_ok st b" "hb_sz (hdrs st ! r) = span st b * HBLKSIZE" "hb_sz (hdrs st ! r) < 2 ^ 63"
    "hb_prev (hdrs st ! r) = last0 0 xs" "hb_next (hdrs st ! r) = hd0 ys 0"
proof -
  note W = weak_okD [OF heap_invD(1) [OF assms(1)]]
  show on: "on_list L b" using on_list_remove(2) [OF W(4) assms(2,3)] .
  show M: "member_ok st b" using W(6) [OF on] .
  note M' = member_okD [OF M]
  show sz: "hb_sz (hdrs st ! r) = span st b * HBLKSIZE" using M'(2) assms(4) by (simp add: bsize_def hdr_of_eq)
  have "span st b * HBLKSIZE \<le> (b + span st b) * HBLKSIZE" by (intro mult_le_mono1) simp
  then show "hb_sz (hdrs st ! r) < 2 ^ 63" using M'(7) unfolding sz by (rule le_less_trans)
  show "hb_prev (hdrs st ! r) = last0 0 xs" "hb_next (hdrs st ! r) = hd0 ys 0"
    using dlseg_middle [of "hdr_of st" 0 _ xs b ys 0] lists_okD(4) [OF W(4) assms(2)] assms(3) hdr_of_eq [OF assms(4)] by auto
qed

lemma take_part_ok:
  assumes "heap_inv st L B" "n \<le> N_HBLK_FLS" "L n = xs @ b # ys" "HDR st b = Hdr r" "0 < m" "m \<le> span st b"
  shows "\<exists>h st'. take_part b r (m * HBLKSIZE) n st = Inr (Take h r, st') \<and> found st L B m h r st'"
proof -
  note l = list_member [OF assms(1-4)] and W = weak_okD [OF heap_invD(1) [OF assms(1)]]
  have oth: "others_ok st L b" using heap_invD(1) [OF assms(1)] by (auto simp: others_ok_def weak_ok_def members_ok_def)
  obtain h st' m' L' where p: "GC_get_first_part b r (m * HBLKSIZE) n st = Inr (h, st')" "carved st L b b m' st' L'"
    "memory_step st (h \<noteq> 0) st'" "h = b \<and> m' = m \<or> h = 0 \<and> m < span st b"
    using GC_get_first_part_ok [OF W(5,4) oth l(2) assms(2-6)] by auto
  have "HDR st' b = Hdr r" using p(2) assms(4) by (simp add: carved_def)
  then have "found st L B m h r st'" unfolding found_def using assms(1) l(1) p(2-4) progress_refl by blast
  then show ?thesis using p(1) by (simp add: take_part_def)
qed

text \<open>Trying again from a state with the same blocks.\<close>

lemma take_part_same:
  assumes "heap_inv st L B" "n \<le> N_HBLK_FLS" "L n = xs @ b # ys" "HDR st b = Hdr r" "0 < m" "m \<le> span st b"
    and "same_blocks st st1" "GC_large_free_bytes st1 = GC_large_free_bytes st"
  shows "\<exists>h st'. take_part b r (m * HBLKSIZE) n st1 = Inr (Take h r, st') \<and> found st L B m h r st'"
proof -
  note S = same_blocks_inv [OF assms(7)]
  have "HDR st1 b = Hdr r" "m \<le> span st1 b" using assms(4,6,7) S(6) by (simp_all add: same_blocks_def)
  then obtain h st' where "take_part b r (m * HBLKSIZE) n st1 = Inr (Take h r, st')" "found st1 L B m h r st'"
    using take_part_ok [OF S(2) [OF assms(1)] assms(2,3) _ assms(5)] by blast
  then show ?thesis using found_progress [OF S(4) [OF assms(1,8)]] by blast
qed

lemma install_fails_same:
  fixes st :: "'a block_heap_scheme"
  assumes "base_ok st" "GC_install_header h st = (None, st1)"
  shows "same_blocks st st1" "GC_large_free_bytes st1 = GC_large_free_bytes st"
proof -
  have ok: "map_ok st" using assms(1) by (simp add: base_ok_def)
  note M = more_heap [OF GC_install_header_more(1) [OF assms(2)]]
  have "base_ok st1 = base_ok st"
    using base_ok_more [OF assms(1) GC_install_header_ok(1) [OF ok assms(2)] GC_install_header_more(1) [OF assms(2)]] assms(1) by simp
  then show "same_blocks st st1"
    using GC_install_header_hdr [OF ok assms(2)] M memory_step_weaken [OF GC_install_header_memory [OF assms(2)]] by (simp add: same_blocks_def)
  show "GC_large_free_bytes st1 = GC_large_free_bytes st" by (rule M(5))
qed

section \<open>One block\<close>

lemma after_drop:
  assumes "heap_inv st L B" "n \<le> N_HBLK_FLS" "L n = xs @ ys" "pr = last0 0 xs"
  shows "(if pr = 0 then Inr (Skip (GC_hblkfreelist st ! n), st)
          else rbind (get_hdr st pr) (\<lambda>p. Inr (Skip (hb_next (hdrs st ! p)), st))) = Inr (Skip (hd0 ys 0), st)"
proof -
  note W = weak_okD [OF heap_invD(1) [OF assms(1)]]
  have seg: "dlseg (hdr_of st) 0 (GC_hblkfreelist st ! n) (xs @ ys) 0" using lists_okD(4) [OF W(4) assms(2)] assms(3) by simp
  show ?thesis
  proof (cases xs rule: rev_cases)
    case Nil
    then show ?thesis using seg assms(4) by (auto dest: dlseg_start)
  next
    case (snoc zs p)
    have "on_list L p" using assms(2,3) snoc by (auto simp: on_list_def)
    then obtain r where r: "HDR st p = Hdr r" "p \<noteq> 0" using member_okD(3,5) W(6) by blast
    have "hb_next (hdrs st ! r) = hd0 ys 0"
      using dlseg_middle [of "hdr_of st" 0 _ zs p ys 0] seg snoc hdr_of_eq [OF r(1)] by auto
    then show ?thesis using r snoc assms(4) by (simp add: get_hdr_eq)
  qed
qed

lemma try_listed_ok:
  assumes "heap_inv st L B" "n \<le> N_HBLK_FLS" "L n = xs @ b # ys" "HDR st b = Hdr r" "0 < m" "m \<le> span st b"
  shows "\<exists>c st'. try_listed ign (m * HBLKSIZE) n b r st = Inr (c, st') \<and> outcome st L B m n ys c st'"
proof -
  note l = list_member [OF assms(1-4)] and W = weak_okD [OF heap_invD(1) [OF assms(1)]]
  let ?k = "span st b"
  note M = member_okD [OF l(2)]
  define lim where "lim = b + ?k - m"
  define eff where "eff = (if ign then HBLKSIZE else m * HBLKSIZE)"
  have lim: "(b * HBLKSIZE + ?k * HBLKSIZE - m * HBLKSIZE) div HBLKSIZE = lim"
    by (simp add: lim_def flip: add_mult_distrib diff_mult_distrib)
  obtain l' where l': "skip_listed (\<lambda>h. GC_is_black_listed st h eff) (lim + 2 - b) lim b = Inr l'" "b \<le> l'"
  proof -
    have "b \<le> lim" using assms(6) by (simp add: lim_def)
    then have "Suc lim < b + (lim + 2 - b)" "0 < lim + 2 - b" by simp_all
    from bl.skip_ok [OF W(2) this, of eff] show thesis using that by blast
  qed
  have msz: "m * HBLKSIZE < 2 ^ 63" using l(4) mult_le_mono1 [OF assms(6), of HBLKSIZE] unfolding l(3) by linarith
  have sw: "signed_word (?k * HBLKSIZE) = int (?k * HBLKSIZE)" "signed_word (m * HBLKSIZE) = int (m * HBLKSIZE)"
    using l(4) msz unfolding l(3) by (simp_all add: signed_word_small)
  define avail where "avail = int (?k * HBLKSIZE) - int (l' * HBLKSIZE - b * HBLKSIZE)"
  have fits: "avail \<ge> int (m * HBLKSIZE) \<Longrightarrow> l' + m \<le> b + ?k"
  proof -
    assume "avail \<ge> int (m * HBLKSIZE)"
    then have "int ((m + (l' - b)) * HBLKSIZE) \<le> int (?k * HBLKSIZE)"
      unfolding avail_def by (simp add: algebra_simps diff_mult_distrib)
    then have "m + (l' - b) \<le> ?k" by (simp only: of_nat_le_iff mult_le_cancel2) simp
    then show ?thesis using l'(2) by simp
  qed
  have tk: "\<exists>c st'. take_part b r (m * HBLKSIZE) n st = Inr (c, st') \<and> outcome st L B m n ys c st'"
    using take_part_ok [OF assms] by (auto simp: outcome_def)
  have next_skip: "outcome st L B m n ys (Skip (hb_next (hdrs st ! r))) st"
    using assms(1,3) l(6) progress_refl by (auto simp: outcome_def skipped_def intro!: exI [of _ L] exI [of _ "xs @ [b]"])
  define warned where "warned = st\<lparr>GC_large_alloc_warn_suppressed :=
      (if GC_large_alloc_warn_suppressed st + 1 \<ge> GC_large_alloc_warn_interval st then 0 else GC_large_alloc_warn_suppressed st + 1)\<rparr>"
  have tw: "\<exists>c st'. take_part b r (m * HBLKSIZE) n warned = Inr (c, st') \<and> outcome st L B m n ys c st'"
  proof -
    have "same_blocks st warned" "GC_large_free_bytes warned = GC_large_free_bytes st" by (simp_all add: warned_def same_blocks_fields(2))
    from take_part_same [OF assms this] show ?thesis by (auto simp: outcome_def)
  qed
  define counted where "counted = st\<lparr>GC_drop_count := GC_drop_count st + 1\<rparr>"
  have sb: "same_blocks st counted" "GC_large_free_bytes counted = GC_large_free_bytes st" by (simp_all add: counted_def same_blocks_fields)
  note S = same_blocks_inv [OF sb(1)]
  have Ic: "heap_inv counted L B" "progress st L counted L" using S(2,4) assms(1) sb(2) by simp_all
  have hc: "hdrs counted ! r = hdrs st ! r" by (simp add: counted_def)
  have drop: "\<exists>c st'. rbind (drop_block b r n counted) (\<lambda>st.
      if hb_prev (hdrs counted ! r) = 0 then Inr (Skip (GC_hblkfreelist st ! n), st)
      else rbind (get_hdr st (hb_prev (hdrs counted ! r))) (\<lambda>p. Inr (Skip (hb_next (hdrs st ! p)), st))) = Inr (c, st') \<and> outcome st L B m n ys c st'"
  proof -
    have "HDR counted b = Hdr r" using assms(4) sb(1) by (simp add: same_blocks_def)
    then obtain st' where st': "drop_block b r n counted = Inr st'" "heap_inv st' (L(n := xs @ ys)) B" "progress counted L st' (L(n := xs @ ys))"
      using drop_block_ok [OF Ic(1) assms(2,3)] by blast
    have "hb_prev (hdrs counted ! r) = last0 0 xs" using l(5) hc by simp
    from after_drop [OF st'(2) assms(2) _ this, of ys]
    have "rbind (drop_block b r n counted) (\<lambda>st.
      if hb_prev (hdrs counted ! r) = 0 then Inr (Skip (GC_hblkfreelist st ! n), st)
      else rbind (get_hdr st (hb_prev (hdrs counted ! r))) (\<lambda>p. Inr (Skip (hb_next (hdrs st ! p)), st))) = Inr (Skip (hd0 ys 0), st')"
      by (simp add: st'(1))
    moreover have "outcome st L B m n ys (Skip (hd0 ys 0)) st'"
      unfolding outcome_def skipped_def using st'(2) progress_trans [OF Ic(2) st'(3)]
      by (auto intro!: exI [of _ "L(n := xs @ ys)"])
    ultimately show ?thesis by blast
  qed
  have next_counted: "outcome st L B m n ys (Skip (hb_next (hdrs counted ! r))) counted"
    unfolding outcome_def skipped_def using Ic assms(3) l(6) hc by (auto intro!: exI [of _ L] exI [of _ "xs @ [b]"])
  have split: "\<exists>c st'. (let (q, st) = GC_install_header l' st in case q of
        None \<Rightarrow> take_part b r (m * HBLKSIZE) n st
      | Some q \<Rightarrow> rbind (GC_split_block b r l' q n st) (\<lambda>st. take_part l' q (m * HBLKSIZE) n st)) = Inr (c, st') \<and> outcome st L B m n ys c st'"
    if ne: "l' \<noteq> b" and fit: "l' + m \<le> b + ?k"
  proof -
    obtain q st1 where ins: "GC_install_header l' st = (q, st1)" by fastforce
    show ?thesis
    proof (cases q)
      case None
      then have i: "GC_install_header l' st = (None, st1)" using ins by simp
      from take_part_same [OF assms install_fails_same [OF W(5) i]] show ?thesis by (auto simp: i outcome_def)
    next
      case (Some q')
      have "b < l'" using ne l'(2) by simp
      then obtain h' st' m' L' where t: "rbind (GC_split_block b r l' q' n st1) (\<lambda>st. GC_get_first_part l' q' (m * HBLKSIZE) n st) = Inr (h', st')"
        "carved st L b l' m' st' L'" "memory_step st (h' \<noteq> 0) st'" "h' = l' \<and> m' = m \<or> h' = 0 \<and> l' + m < b + ?k" "HDR st' l' = Hdr q'"
        using take_split_ok [OF heap_invD(1) [OF assms(1)] assms(2-4) _ fit assms(5)] ins Some by blast
      have "HDR st1 l' = Hdr q'" using GC_install_header_hdr [OF W(1) ins] Some by simp
      have "rbind (GC_split_block b r l' q' n st1) (\<lambda>st. take_part l' q' (m * HBLKSIZE) n st) = Inr (Take h' q', st')"
        using t(1) by (auto simp: take_part_def rbind_def split: sum.splits)
      moreover have "found st L B m h' q' st'"
        unfolding found_def using assms(1) l(1) t(2-5) progress_refl by blast
      ultimately show ?thesis using ins Some by (auto simp: outcome_def)
    qed
  qed
  have sk: "\<exists>c st'. Inr (Skip (hb_next (hdrs st ! r)), st) = Inr (c, st') \<and> outcome st L B m n ys c st'"
    "\<exists>c st'. Inr (Skip (hb_next (hdrs counted ! r)), counted) = Inr (c, st') \<and> outcome st L B m n ys c st'"
    using next_skip next_counted by blast+
  show ?thesis
    unfolding try_listed_def Let_def l(3) lim eff_def [symmetric] l'(1) rbind_Inr sw avail_def [symmetric]
      warned_def [symmetric] counted_def [symmetric]
    using tk tw drop split [unfolded Let_def] fits sk by (simp only: split: if_split) blast
qed

lemma better_next_ok:
  assumes "heap_inv st L B" "n \<le> N_HBLK_FLS" "L n = xs @ b # ys" "HDR st b = Hdr r"
  shows "\<exists>v. better_next s r st = Inr v"
proof (cases ys)
  case Nil
  then have "better_next s r st = Inr False" using list_member(6) [OF assms] by (simp add: better_next_def)
  then show ?thesis by blast
next
  case (Cons y zs)
  note W = weak_okD [OF heap_invD(1) [OF assms(1)]]
  have "on_list L y" using assms(2,3) Cons by (auto simp: on_list_def)
  then obtain q where "HDR st y = Hdr q" using member_okD(5) W(6) by blast
  moreover obtain res where "GC_is_black_listed st y s = Inr res" using GC_is_black_listed_ok [OF W(2)] by blast
  ultimately show ?thesis using list_member(6) [OF assms] Cons
    by (simp add: better_next_def get_hdr_eq Let_def) (intro conjI impI; rule exI [of _ False]; simp)
qed

lemma try_block_ok:
  assumes "heap_inv st L B" "n \<le> N_HBLK_FLS" "L n = xs @ b # ys" "HDR st b = Hdr r" "0 < m" "m * HBLKSIZE < 2 ^ 63"
  shows "\<exists>c st'. try_block (m * HBLKSIZE) kind ign n split b r st = Inr (c, st') \<and> outcome st L B m n ys c st'"
proof -
  note l = list_member [OF assms(1-4)]
  obtain v where v: "better_next (m * HBLKSIZE) r st = Inr v" using better_next_ok [OF assms(1-4)] by blast
  have sk: "outcome st L B m n ys (Skip (hb_next (hdrs st ! r))) st"
    using assms(1,3) l(6) progress_refl by (auto simp: outcome_def skipped_def intro!: exI [of _ L] exI [of _ "xs @ [b]"])
  show ?thesis
  proof (cases "m \<le> span st b")
    case True
    have "\<not> signed_word (hb_sz (hdrs st ! r)) < signed_word (m * HBLKSIZE)"
      using l(4) assms(6) True by (simp add: signed_word_small l(3))
    then show ?thesis
      using sk v try_listed_ok [OF assms(1-5) True, of ign] take_part_ok [OF assms(1-5) True]
      by (auto simp: try_block_def Let_def outcome_def)
  next
    case False
    then have "signed_word (hb_sz (hdrs st ! r)) < signed_word (m * HBLKSIZE)"
      using l(4) assms(6) by (simp add: signed_word_small l(3) not_le)
    then show ?thesis using sk by (auto simp: try_block_def Let_def)
  qed
qed

section \<open>The loop\<close>

lemma search_list_ok:
  assumes "heap_inv st L B" "n \<le> N_HBLK_FLS" "L n = xs @ ys" "length ys < k" "0 < m" "m * HBLKSIZE < 2 ^ 63"
  shows "\<exists>h r st'. search_list k (m * HBLKSIZE) kind ign n split (hd0 ys 0) st = Inr (h, r, st') \<and>
    (h = 0 \<and> (\<exists>L'. heap_inv st' L' B \<and> progress st L st' L') \<or> found st L B m h r st')"
  using assms(1,3,4)
proof (induction k arbitrary: st L xs ys)
  case (Suc k)
  show ?case
  proof (cases ys)
    case Nil
    then show ?thesis using Suc.prems(1) progress_refl by auto
  next
    case (Cons b zs)
    have Ln: "L n = xs @ b # zs" using Suc.prems(2) Cons by simp
    have "on_list L b" using assms(2) Ln by (auto simp: on_list_def)
    then obtain r where r: "HDR st b = Hdr r" "b \<noteq> 0"
      using member_okD(3,5) weak_okD(6) [OF heap_invD(1) [OF Suc.prems(1)]] by blast
    obtain c st1 where c: "try_block (m * HBLKSIZE) kind ign n split b r st = Inr (c, st1)" "outcome st L B m n zs c st1"
      using try_block_ok [OF Suc.prems(1) assms(2) Ln r(1) assms(5,6)] by blast
    have eq: "search_list (Suc k) (m * HBLKSIZE) kind ign n split (hd0 ys 0) st =
        (case c of Take h r \<Rightarrow> Inr (h, r, st1) | Skip b \<Rightarrow> search_list k (m * HBLKSIZE) kind ign n split b st1)"
      using r c(1) Cons by (simp add: get_hdr_eq)
    show ?thesis
    proof (cases c)
      case (Take h q)
      then show ?thesis using c(2) eq by (simp add: outcome_def)
    next
      case (Skip b')
      then obtain L1 xs1 where s: "heap_inv st1 L1 B" "progress st L st1 L1" "L1 n = xs1 @ zs" "b' = hd0 zs 0"
        using c(2) by (auto simp: outcome_def skipped_def)
      have "length zs < k" using Suc.prems(3) Cons by simp
      from Suc.IH [OF s(1,3) this] obtain h q st' where
        h: "search_list k (m * HBLKSIZE) kind ign n split b' st1 = Inr (h, q, st')"
        "h = 0 \<and> (\<exists>L'. heap_inv st' L' B \<and> progress st1 L1 st' L') \<or> found st1 L1 B m h q st'" using s(4) by auto
      then show ?thesis using eq Skip progress_trans [OF s(2)] found_progress [OF s(2)] by auto
    qed
  qed
qed simp

section \<open>What was carved out\<close>

lemma carved_spans:
  assumes "weak_ok st L" "on_list L b" "carved st L b h m st' L'"
  shows "on_list L c \<Longrightarrow> c \<noteq> b \<Longrightarrow> span st' c = span st c \<and> on_list L' c \<and> (c + span st c \<le> b \<or> b + span st b \<le> c)"
    "on_list L' d \<Longrightarrow> d + span st' d \<le> h \<or> h + m \<le> d" "region st' L' = region st L - {h..<h + m}"
    "(\<And>c d. on_list L c \<Longrightarrow> on_list L d \<Longrightarrow> d \<noteq> c + span st c) \<Longrightarrow> on_list L' c \<Longrightarrow> on_list L' d \<Longrightarrow> d \<noteq> c + span st' c"
proof -
  note W = weak_okD [OF assms(1)] and C = assms(3) [unfolded carved_def]
  have pos: "0 < span st c" if "on_list L c" for c using member_okD(1) [OF W(6) [OF that]] .
  have le: "b \<le> h" "0 < m" "h + m \<le> b + span st b" using C by blast+
  have on: "on_list L' c \<longleftrightarrow> on_list L c \<and> c \<noteq> b \<or> c = b \<and> b < h \<or> c = h + m \<and> h + m < b + span st b" for c using C by blast
  have sp: "b < h \<Longrightarrow> span st' b = h - b" "h + m < b + span st b \<Longrightarrow> span st' (h + m) = b + span st b - (h + m)" using C by blast+
  have old: "span st' c = span st c \<and> on_list L' c \<and> (c + span st c \<le> b \<or> b + span st b \<le> c)" if c: "on_list L c" "c \<noteq> b" for c
  proof -
    have apart: "c + span st c \<le> b \<or> b + span st b \<le> c" using members_disjoint [OF W(6) [OF c(1)] W(6) [OF assms(2)] c(2)] .
    then have "\<not> (b < h \<and> (c = b \<or> c = h) \<or> h + m < b + span st b \<and> c = h + m)" using pos [OF c(1)] le by auto
    then have "cores st' c = cores st c" using C by blast
    then show ?thesis using on c apart by (simp add: span_def bsize_core)
  qed
  show "on_list L c \<Longrightarrow> c \<noteq> b \<Longrightarrow> span st' c = span st c \<and> on_list L' c \<and> (c + span st c \<le> b \<or> b + span st b \<le> c)" using old .
  show out: "d + span st' d \<le> h \<or> h + m \<le> d" if "on_list L' d" for d
    using that [unfolded on] old [of d] sp le by auto
  show "region st' L' = region st L - {h..<h + m}"
  proof (rule set_eqI)
    fix x
    show "x \<in> region st' L' \<longleftrightarrow> x \<in> region st L - {h..<h + m}"
    proof
      assume "x \<in> region st' L'"
      then obtain d where d: "on_list L' d" "d \<le> x" "x < d + span st' d" by (auto simp: region_def)
      have "x \<in> region st L"
      proof (cases "on_list L d \<and> d \<noteq> b")
        case True
        then show ?thesis using old [of d] d(2,3) by (auto simp: region_def)
      next
        case False
        then have "b \<le> x \<and> x < b + span st b" using d on [of d] sp le by auto
        then show ?thesis using assms(2) by (auto simp: region_def)
      qed
      then show "x \<in> region st L - {h..<h + m}" using out [OF d(1)] d(2,3) by auto
    next
      assume x: "x \<in> region st L - {h..<h + m}"
      then obtain d where d: "on_list L d" "d \<le> x" "x < d + span st d" by (auto simp: region_def)
      show "x \<in> region st' L'"
      proof (cases "d = b")
        case False
        then show ?thesis using old [of d] d by (auto simp: region_def)
      next
        case True
        then have "x < h \<or> h + m \<le> x" using x by auto
        then show ?thesis
        proof
          assume "x < h"
          then show ?thesis using regionI [of L' b x st'] on [of b] sp(1) d(2) True by simp
        next
          assume "h + m \<le> x"
          then show ?thesis using regionI [of L' "h + m" x st'] on [of "h + m"] sp(2) d(3) True by simp
        qed
      qed
    qed
  qed
  show "d \<noteq> c + span st' c" if apart: "\<And>c d. on_list L c \<Longrightarrow> on_list L d \<Longrightarrow> d \<noteq> c + span st c" and cd: "on_list L' c" "on_list L' d" for c d
  proof -
    consider "on_list L c" "c \<noteq> b" | "c = b" "b < h" | "c = h + m" "h + m < b + span st b" using cd(1) on by blast
    note c_cases = this
    consider "on_list L d" "d \<noteq> b" | "d = b" "b < h" | "d = h + m" "h + m < b + span st b" using cd(2) on by blast
    then show ?thesis
    proof cases
      case 1
      note d = old [OF 1] and p = pos [OF 1(1)]
      show ?thesis by (cases rule: c_cases) (use old [of c] apart [of c d] apart [OF assms(2) 1(1)] 1 d p sp le in auto)
    next
      case 2
      show ?thesis by (cases rule: c_cases) (use old [of c] apart [of c b] assms(2) 2 sp le in auto)
    next
      case 3
      show ?thesis by (cases rule: c_cases) (use old [of c] 3 sp le in auto)
    qed
  qed
qed

end
