(* ===== verification/GC_Allocate.thy ===== *)
theory GC_Allocate
  imports GC_Find
begin

text \<open>
  Allocating blocks: \<open>GC_allochblk_nth\<close> and \<open>GC_allochblk\<close> always return, keep the invariant of the
  heap, and hand out pages that were free and are free no more.
\<close>

definition ledger :: "'a block_heap_scheme \<Rightarrow> (nat \<Rightarrow> nat list) \<Rightarrow> 64 word" where
  "ledger st L = GC_large_free_bytes st - of_nat (free_total st L)"

lemma free_at_hdr: "free_at st c \<Longrightarrow> \<exists>r. HDR st c = Hdr r"
  by (auto simp: free_at_def cores_def elim: hdr_ofE)

lemma in_use_hdr: "in_use st c h \<Longrightarrow> \<exists>r. HDR st c = Hdr r"
  by (auto simp: in_use_def cores_def elim: hdr_ofE)

text \<open>The state after the pages carved out have been dealt with.\<close>

definition pages_done :: "'a block_heap_scheme \<Rightarrow> nat \<Rightarrow> nat \<Rightarrow> 'a block_heap_scheme \<Rightarrow> nat set \<Rightarrow> bool" where
  "pages_done st h m st' B' \<longleftrightarrow> base_ok st' \<and> GC_hblkfreelist st' = GC_hblkfreelist st \<and> GC_free_bytes st' = GC_free_bytes st \<and>
     memory_step st True st' \<and> (\<forall>c. c \<notin> {h..<h + m} \<longrightarrow> HDR st' c = HDR st c \<and> hdr_of st' c = hdr_of st c) \<and>
     (\<forall>c\<in>{h..<h + m}. (free_at st' c \<longrightarrow> c \<in> B') \<and> (\<forall>g. in_use st' c g \<longrightarrow> used_ok st' c g) \<and>
        (\<forall>d. HDR st' c = Jump d \<longrightarrow> (\<exists>b g. in_use st' b g \<and> b < c \<and> c < b + nblocks g)))"

lemma carve_done:
  assumes "heap_inv st L B" "on_list L b" "carved st L b h m st1 L'" "memory_step st True st1"
    and "pages_done st1 h m st' B'" "B \<subseteq> B'"
  shows "heap_inv st' L' B'" "c \<notin> region st L \<Longrightarrow> HDR st' c = HDR st c \<and> cores st' c = cores st c"
    "region st' L' = region st L - {h..<h + m}" "{h..<h + m} \<subseteq> region st L" "free_total st' L' + m * HBLKSIZE = free_total st L"
    "\<And>c. c \<in> {h..<h + m} \<Longrightarrow> c \<noteq> 0 \<and> (h + m) * HBLKSIZE < 2 ^ 63"
proof -
  note I = heap_invD [OF assms(1)] and W = weak_okD [OF heap_invD(1) [OF assms(1)]]
  note C = assms(3) [unfolded carved_def] and S = carved_spans [OF I(1) assms(2,3)]
  have P: "base_ok st'" "GC_hblkfreelist st' = GC_hblkfreelist st1" "GC_free_bytes st' = GC_free_bytes st1" "memory_step st1 True st'"
    and out: "\<And>c. c \<notin> {h..<h + m} \<Longrightarrow> HDR st' c = HDR st1 c \<and> hdr_of st' c = hdr_of st1 c"
    and pg: "\<And>c. c \<in> {h..<h + m} \<Longrightarrow> free_at st' c \<Longrightarrow> c \<in> B'" "\<And>c g. c \<in> {h..<h + m} \<Longrightarrow> in_use st' c g \<Longrightarrow> used_ok st' c g"
      "\<And>c d. c \<in> {h..<h + m} \<Longrightarrow> HDR st' c = Jump d \<Longrightarrow> \<exists>b g. in_use st' b g \<and> b < c \<and> c < b + nblocks g"
    using assms(5) unfolding pages_done_def by blast+
  let ?E = "b + span st b"
  have M: "member_ok st b" using W(6) [OF assms(2)] .
  note M' = member_okD [OF M]
  have w1: "weak_ok st1 L'" and le: "b \<le> h" "0 < m" "h + m \<le> ?E"
    and upd: "\<And>c. b < h \<and> (c = b \<or> c = h) \<or> h + m < ?E \<and> c = h + m \<or> HDR st1 c = HDR st c \<and> cores st1 c = cores st c"
    and on: "\<And>c. on_list L' c \<longleftrightarrow> on_list L c \<and> c \<noteq> b \<or> c = b \<and> b < h \<or> c = h + m \<and> h + m < ?E"
    and tot: "free_total st1 L' + m * HBLKSIZE = free_total st L" using C by blast+
  have inE: "c \<in> region st L" if "b \<le> c" "c < ?E" for c using regionI [OF assms(2) that] .
  show sub: "{h..<h + m} \<subseteq> region st L" using inE le by auto
  have "\<not> (d \<le> c \<and> c < d + span st1 d)" if "on_list L' d" "c \<in> {h..<h + m}" for d c using S(2) [OF that(1)] that(2) by auto
  note ch = weak_ok_change [where C = "{h..<h + m}", OF w1 P(1-3) out this]
  have w: "weak_ok st' L'" "free_total st' L' = free_total st1 L'" using ch(1,2) by blast+
  have sp: "span st' d = span st1 d" if "on_list L' d" for d using ch(3) [OF _ _ _ that] by simp
  have "region st' L' = region st1 L'" using sp by (auto simp: region_def)
  then show reg: "region st' L' = region st L - {h..<h + m}" using S(3) by simp
  show "free_total st' L' + m * HBLKSIZE = free_total st L" using w(2) tot by simp
  show same: "HDR st' c = HDR st c \<and> cores st' c = cores st c" if c: "c \<notin> region st L" for c
  proof -
    have "\<not> (b < h \<and> (c = b \<or> c = h) \<or> h + m < ?E \<and> c = h + m)" using c inE [of c] le by auto
    then have "HDR st1 c = HDR st c \<and> cores st1 c = cores st c" using upd [of c] by blast
    moreover have "c \<notin> {h..<h + m}" using c sub by blast
    ultimately show ?thesis using out by (simp add: cores_def)
  qed
  have listed: "free_at st' c \<and> (\<exists>r. HDR st' c = Hdr r)" if "on_list L' c" for c
    using member_okD(4,5) [OF weak_okD(6) [OF w(1) that]] by blast
  have other: "HDR st' c = HDR st c \<and> cores st' c = cores st c" if "c \<notin> {h..<h + m}" "\<not> on_list L' c" for c
  proof -
    have "\<not> (b < h \<and> (c = b \<or> c = h) \<or> h + m < ?E \<and> c = h + m)" using that on [of c] le(2) by auto
    then have "HDR st1 c = HDR st c \<and> cores st1 c = cores st c" using upd [of c] by blast
    then show ?thesis using out [OF that(1)] by (simp add: cores_def)
  qed
  have mem: "memory_step st True st'" using memory_step_trans [OF assms(4) P(4)] .
  show "heap_inv st' L' B'"
  proof (rule heap_inv_step [OF assms(1) w(1) mem same])
    show "on_list L' c \<or> c \<in> B'" if "c \<in> region st L" "free_at st' c" for c
    proof (cases "c \<in> {h..<h + m} \<or> on_list L' c")
      case False
      then have "free_at st c" using other [of c] that(2) by (simp add: free_at_def)
      then have "on_list L c \<or> c \<in> B" using I(3) by blast
      moreover have "c \<noteq> b" using False on [of b] le by auto
      ultimately show ?thesis using on assms(6) by blast
    qed (use pg(1) that(2) in blast)
    show "on_list L' c" if "on_list L c" "c \<notin> region st L" for c
      using that regionI [of L c c st] member_okD(1) [OF W(6)] by auto
    show "used_ok st' c g" if "c \<in> region st L" "in_use st' c g" for c g
    proof (cases "c \<in> {h..<h + m}")
      case False
      have "\<not> on_list L' c" using listed [of c] that(2) by (auto simp: in_use_def free_at_def)
      then have "in_use st c g" using other [OF False] that(2) by (simp add: in_use_def)
      then show ?thesis using region_not_used(1) [OF assms(1) that(1)] by blast
    qed (use pg(2) that(2) in blast)
    show "\<exists>b g. in_use st' b g \<and> b < c \<and> c < b + nblocks g" if "c \<in> region st L" "HDR st' c = Jump d" for c d
    proof (cases "c \<in> {h..<h + m}")
      case False
      have "\<not> on_list L' c" using listed [of c] that(2) by auto
      then have "HDR st c = Jump d" using other [OF False] that(2) by simp
      then show ?thesis using region_not_used(2) [OF assms(1) that(1)] free_at_hdr [of st c] by auto
    qed (use pg(3) that(2) in blast)
    show "d \<noteq> c + span st' c" if "on_list L' c" "on_list L' d" for c d
      using S(4) [OF I(6) that] sp [OF that(1)] by simp
  qed (assumption | rule assms(6))+
  show "c \<noteq> 0 \<and> (h + m) * HBLKSIZE < 2 ^ 63" if "c \<in> {h..<h + m}" for c
    using M'(3,7) that le le_less_trans [OF mult_le_mono1 [OF le(3), of HBLKSIZE]] by auto
qed

section \<open>\<open>GC_allochblk_nth\<close>\<close>

text \<open>
  A step of the allocator: what was not free is untouched, and no page becomes free. While there
  is scratch memory no free block is lost and \<open>GC_large_free_bytes\<close> follows the free bytes.
\<close>

definition alloc_step :: "'a block_heap_scheme \<Rightarrow> (nat \<Rightarrow> nat list) \<Rightarrow> nat set \<Rightarrow> 'a block_heap_scheme \<Rightarrow> (nat \<Rightarrow> nat list) \<Rightarrow> nat set \<Rightarrow> bool" where
  "alloc_step st L B st' L' B' \<longleftrightarrow> heap_inv st' L' B' \<and> GC_obj_kinds st' = GC_obj_kinds st \<and> memory_step st True st' \<and> B \<subseteq> B' \<and>
     (\<forall>c. c \<notin> region st L \<longrightarrow> HDR st' c = HDR st c \<and> cores st' c = cores st c) \<and> region st' L' \<subseteq> region st L \<and>
     (os_mem st' \<noteq> [] \<longrightarrow> B' = B \<and> ledger st' L' = ledger st L)"

text \<open>Block \<open>h\<close>, with the pages an object of \<open>sz\<close> bytes takes, was free and is in use.\<close>

definition handed_out :: "'a block_heap_scheme \<Rightarrow> (nat \<Rightarrow> nat list) \<Rightarrow> nat \<Rightarrow> nat \<Rightarrow> bool \<Rightarrow> nat \<Rightarrow> 'a block_heap_scheme \<Rightarrow> (nat \<Rightarrow> nat list) \<Rightarrow> bool" where
  "handed_out st L sz kind ign h st' L' \<longleftrightarrow> (\<exists>g. in_use st' h g \<and> object_header g h sz kind ign) \<and>
     {h..<h + OBJ_SZ_TO_BLOCKS sz} \<subseteq> region st L - region st' L'"

lemma progress_step:
  assumes "progress st L st' L'" "heap_inv st' L' B"
  shows "alloc_step st L B st' L' B"
  using assms by (simp add: alloc_step_def progress_def ledger_def)

lemma alloc_step_trans:
  assumes "alloc_step st L B st1 L1 B1" "alloc_step st1 L1 B1 st2 L2 B2"
  shows "alloc_step st L B st2 L2 B2"
proof -
  have "memory_step st True st2" using assms memory_step_trans by (auto simp: alloc_step_def)
  moreover have "os_mem st2 \<noteq> [] \<Longrightarrow> os_mem st1 \<noteq> []"
    using assms(2) by (auto simp: alloc_step_def memory_step_def supplied_def)
  ultimately show ?thesis using assms unfolding alloc_step_def by (auto simp: subset_iff)
qed

lemma handed_out_trans:
  assumes "alloc_step st L B st1 L1 B1" "handed_out st1 L1 sz kind ign h st2 L2"
  shows "handed_out st L sz kind ign h st2 L2"
  using assms by (auto simp: handed_out_def alloc_step_def)

definition alloc_result :: "'a block_heap_scheme \<Rightarrow> (nat \<Rightarrow> nat list) \<Rightarrow> nat set \<Rightarrow> nat \<Rightarrow> nat \<Rightarrow> bool \<Rightarrow> nat \<Rightarrow> 'a block_heap_scheme \<Rightarrow> bool" where
  "alloc_result st L B sz kind ign h st' \<longleftrightarrow>
     (\<exists>L' B'. alloc_step st L B st' L' B' \<and> (h = 0 \<or> handed_out st L sz kind ign h st' L'))"

lemma alloc_resultI: "alloc_step st L B st' L' B' \<Longrightarrow> h = 0 \<or> handed_out st L sz kind ign h st' L' \<Longrightarrow> alloc_result st L B sz kind ign h st'"
  by (auto simp: alloc_result_def)

lemma alloc_result_trans:
  assumes "alloc_step st L B st1 L1 B1" "alloc_result st1 L1 B1 sz kind ign h st'"
  shows "alloc_result st L B sz kind ign h st'"
  using assms(2) alloc_step_trans [OF assms(1)] handed_out_trans [OF assms(1)] unfolding alloc_result_def by blast

text \<open>The block found is turned into an object.\<close>

definition finish :: "nat \<Rightarrow> nat \<Rightarrow> nat \<Rightarrow> bool \<Rightarrow> nat \<Rightarrow> nat \<Rightarrow> 'a block_heap_scheme \<Rightarrow> (nat \<times> 'a block_heap_scheme) res" where
  "finish m sz kind ign h r st =
     (let (ok, st) = GC_install_counts h m st
      in if \<not> ok then Inr (0, st)
         else rbind (setup_header r h sz kind ign st) (\<lambda>(ok, st).
                if \<not> ok then Inr (0, GC_remove_counts h m st)
                else Inr (h, st\<lparr>GC_fail_count := 0, GC_large_free_bytes := GC_large_free_bytes st - of_nat (m * HBLKSIZE)\<rparr>)))"

lemma finish_ok:
  assumes "heap_inv st L B" "on_list L b" "carved st L b h m st1 L'" "memory_step st True st1" "HDR st1 h = Hdr r"
    and sz: "m = OBJ_SZ_TO_BLOCKS sz" "0 < sz" "sz + (HBLKSIZE - 1) < 2 ^ 64" "kind < length (GC_obj_kinds st)"
  shows "\<exists>h' st' B'. finish m sz kind ign h r st1 = Inr (h', st') \<and> alloc_step st L B st' L' B' \<and>
    (h' = 0 \<and> os_mem st' = [] \<or> h' = h \<and> handed_out st L sz kind ign h st' L')"
proof -
  note I = heap_invD [OF assms(1)] and C = assms(3) [unfolded carved_def]
  have w1: "weak_ok st1 L'" and fr: "frame st st1" and m: "0 < m" and free: "free_at st1 h" using C by blast+
  note W1 = weak_okD [OF w1]
  have kinds: "GC_obj_kinds st1 = GC_obj_kinds st" and large: "GC_large_free_bytes st1 = GC_large_free_bytes st" using frameD [OF fr] by simp_all
  obtain ok st2 where ins: "GC_install_counts h m st1 = (ok, st2)" by fastforce
  note N = GC_install_counts_ok [OF W1(1) m ins] and NM = GC_install_counts_more [OF ins] and Nmem = GC_install_counts_memory [OF ins]
  have H2: "HDR st2 c = (if ok \<and> h < c \<and> c < h + m then Jump (min (c - h) MAX_JUMP) else HDR st1 c)" for c using N(3) by blast
  have of2: "hdr_of st2 c = (if ok \<and> h < c \<and> c < h + m then None else hdr_of st1 c)" for c
    by (auto simp: hdr_of_def H2 NM(2) split: entry.split)
  have base2: "base_ok st2" using base_ok_more [OF W1(5) N(1) NM(1)] .
  note f2 = more_heap [OF NM(1)]
  have mem2: "memory_step st1 True st2" using memory_step_weaken [OF Nmem] .
  have nil: "HDR st1 c = Nil_entry" if "h < c" "c < h + m" for c
  proof -
    have c: "\<not> (b < h \<and> (c = b \<or> c = h) \<or> h + m < b + span st b \<and> c = h + m)" "b < c" "c < b + span st b" using that C by auto
    then have "HDR st1 c = HDR st c" using C by blast
    then show ?thesis using member_okD(6) [OF weak_okD(6) [OF I(1) assms(2)] c(2,3)] by simp
  qed
  note Mb = member_okD [OF weak_okD(6) [OF I(1) assms(2)]]
  have bnd: "h \<noteq> 0" "(h + m) * HBLKSIZE < 2 ^ 63" "sz < 2 ^ 63"
  proof -
    have le: "b \<le> h" "h + m \<le> b + span st b" using C by blast+
    show "h \<noteq> 0" using le(1) Mb(3) by simp
    show lim: "(h + m) * HBLKSIZE < 2 ^ 63" using le_less_trans [OF mult_le_mono1 [OF le(2)] Mb(7)] .
    have "sz \<le> m * HBLKSIZE" using sz(3) unfolding sz(1) OBJ_SZ_TO_BLOCKS_def HBLKSIZE_def by simp
    then show "sz < 2 ^ 63" using lim by (simp add: add_mult_distrib)
  qed
  have not_used1: "\<not> in_use st1 c g" if "c \<in> {h..<h + m}" for c g
  proof (cases "c = h")
    case True
    then show ?thesis using free by (auto simp: in_use_def free_at_def)
  next
    case False
    then have "HDR st1 c = Nil_entry" using nil that by simp
    then show ?thesis using in_use_hdr [of st1 c g] by auto
  qed
  show ?thesis
  proof (cases ok)
    case False
    have eq: "finish m sz kind ign h r st1 = Inr (0, st2)" using False by (simp add: finish_def ins)
    have same: "HDR st2 c = HDR st1 c \<and> hdr_of st2 c = hdr_of st1 c" for c using False H2 of2 by simp
    then have "cores st2 = cores st1" by (simp add: cores_def fun_eq_iff)
    then have u: "in_use st2 c g = in_use st1 c g" "free_at st2 c = free_at st1 c" for c g by (simp_all add: in_use_def free_at_def)
    have "pages_done st1 h m st2 (B \<union> {h..<h + m})"
      unfolding pages_done_def
    proof (intro conjI ballI allI impI)
      show "used_ok st2 c g" if "c \<in> {h..<h + m}" "in_use st2 c g" for c g using not_used1 [OF that(1)] that(2) u by blast
      show "\<exists>b g. in_use st2 b g \<and> b < c \<and> c < b + nblocks g" if "c \<in> {h..<h + m}" "HDR st2 c = Jump d" for c d
        using that same assms(5) nil [of c] by (cases "c = h") simp_all
    qed (use same base2 f2(1,2) mem2 in auto)
    note cd = carve_done [OF assms(1-4) this]
    have out: "os_mem st2 = []" using False Nmem weak_okD(5) I(2) assms(4) by (simp add: memory_step_def supplied_def)
    have "alloc_step st L B st2 L' (B \<union> {h..<h + m})"
      using out cd(1-3) kinds f2(4) memory_step_trans [OF assms(4) mem2] by (auto simp: alloc_step_def)
    then show ?thesis using eq out by blast
  next
    case True
    have H2h: "HDR st2 h = Hdr r" using H2 assms(5) by simp
    have kind2: "kind < length (GC_obj_kinds st2)" using sz(4) kinds f2(4) by simp
    obtain ok' st3 g x where s3: "setup_header r h sz kind ign st2 = Inr (ok', st3)" "HDR st3 = HDR st2" "hdr_of st3 = (hdr_of st2)(h \<mapsto> g)"
      "base_ok st3" "memory_step st2 ok' st3" "\<not> hb_free g" "hb_sz g = (if ok' then sz else HBLKSIZE)"
      "ok' \<longrightarrow> object_header g h sz kind ign" "headers.more st3 = headers.more (st2\<lparr>GC_obj_map := x\<rparr>)"
      using setup_header_ok [OF base2 H2h kind2] by blast
    note f3 = obj_map_more [OF s3(9)]
    have mem3: "memory_step st1 True st3" using memory_step_trans [OF mem2 memory_step_weaken [OF s3(5)]] .
    show ?thesis
    proof (cases ok')
      case ok: True
      define st4 where "st4 = st3\<lparr>GC_fail_count := 0, GC_large_free_bytes := GC_large_free_bytes st3 - of_nat (m * HBLKSIZE)\<rparr>"
      have sb: "same_blocks st3 st4" by (simp add: st4_def same_blocks_fields)
      note S4 = sb [unfolded same_blocks_def]
      have eq: "finish m sz kind ign h r st1 = Inr (h, st4)" using True ok by (simp add: finish_def ins s3(1) st4_def)
      have H4: "HDR st4 c = (if h < c \<and> c < h + m then Jump (min (c - h) MAX_JUMP) else HDR st1 c)" for c
        using S4 s3(2) H2 True by simp
      have of4: "hdr_of st4 c = (if c = h then Some g else if h < c \<and> c < h + m then None else hdr_of st1 c)" for c
        using S4 s3(3) of2 True by simp
      have use: "in_use st4 c x \<longleftrightarrow> c = h \<and> x = core g" if "c \<in> {h..<h + m}" for c x
        using that s3(6) by (auto simp: in_use_def cores_def of4)
      have nb: "nblocks (core g) = m" "hb_sz (core g) = sz" using s3(7) ok sz(1) by (simp_all add: nblocks_def)
      have pd: "pages_done st1 h m st4 B"
        unfolding pages_done_def
      proof (intro conjI ballI allI impI)
        show "used_ok st4 c x" if "c \<in> {h..<h + m}" "in_use st4 c x" for c x
          using use [OF that(1)] that(2) nb bnd sz by (auto simp: used_ok_def H4)
        show "\<exists>b g. in_use st4 b g \<and> b < c \<and> c < b + nblocks g" if "c \<in> {h..<h + m}" "HDR st4 c = Jump d" for c d
        proof (cases "c = h")
          case True
          then show ?thesis using that(2) assms(5) by (simp add: H4)
        next
          case False
          moreover have "in_use st4 h (core g)" using use [of h] m by simp
          ultimately show ?thesis using that(1) nb(1) by (intro exI [of _ h] exI [of _ "core g"]) auto
        qed
        show "c \<in> B" if "c \<in> {h..<h + m}" "free_at st4 c" for c
          using that s3(6) by (auto simp: free_at_def cores_def of4 split: if_splits)
      qed (use S4 s3(4) f3 f2(1,2) memory_step_trans [OF mem3] H4 of4 m in auto)
      note cd = carve_done [OF assms(1-4) pd subset_refl]
      have "alloc_step st L B st4 L' B"
      proof -
        have "GC_large_free_bytes st4 = GC_large_free_bytes st - of_nat (m * HBLKSIZE)" using f3(4) f2(5) large by (simp add: st4_def)
        then have "ledger st4 L' = ledger st L" using cd(5) [symmetric] by (simp add: ledger_def)
        moreover have "memory_step st True st4" using memory_step_trans [OF assms(4) memory_step_trans [OF mem3]] S4 by blast
        ultimately show ?thesis using cd(1-3) kinds f2(4) f3(3) S4 by (auto simp: alloc_step_def)
      qed
      moreover have "handed_out st L sz kind ign h st4 L'"
        using use [of h] m s3(8) ok cd(3,4) sz(1) by (auto simp: handed_out_def object_header_core)
      ultimately show ?thesis using eq by blast
    next
      case bad: False
      define st4 where "st4 = GC_remove_counts h m st3"
      have eq: "finish m sz kind ign h r st1 = Inr (0, st4)" using True bad by (simp add: finish_def ins s3(1) st4_def)
      have ok3: "map_ok st3" "index_ok st3" using s3(4) by (simp_all add: base_ok_def map_ok_def)
      have "indexed st3 c" if "h < c \<and> c < h + m" for c
        using HDR_not_indexed [OF ok3(2), of c] that True H2 [of c] s3(2) by fastforce
      then have R: "map_ok st4" "\<forall>c. HDR st4 c = (if h < c \<and> c < h + m then Nil_entry else HDR st3 c)"
        using GC_remove_counts_ok [OF ok3(1), of h m] by (auto simp: st4_def)
      have H4: "HDR st4 c = (if h < c \<and> c < h + m then Nil_entry else HDR st1 c)" for c using R(2) s3(2) H2 by simp
      have of4: "hdr_of st4 c = (if c = h then Some g else if h < c \<and> c < h + m then None else hdr_of st1 c)" for c
      proof -
        have "hdrs st4 = hdrs st3" by (simp add: st4_def)
        then have "hdr_of st4 c = (if h < c \<and> c < h + m then None else hdr_of st3 c)"
          using R(2) by (auto simp: hdr_of_def split: entry.split)
        then show ?thesis using s3(3) of2 by simp
      qed
      have use: "in_use st4 c x \<longleftrightarrow> c = h \<and> x = core g" if "c \<in> {h..<h + m}" for c x
        using that s3(6) by (auto simp: in_use_def cores_def of4)
      have nb: "nblocks (core g) = 1" "hb_sz (core g) = HBLKSIZE"
        using s3(7) bad by (simp_all add: nblocks_def OBJ_SZ_TO_BLOCKS_def HBLKSIZE_def)
      have base4: "base_ok st4" using base_ok_more [OF s3(4) R(1)] by (simp add: st4_def)
      have f4: "GC_hblkfreelist st4 = GC_hblkfreelist st3" "GC_free_bytes st4 = GC_free_bytes st3" "GC_obj_kinds st4 = GC_obj_kinds st3"
        using more_heap(1,2,4) [of st4 st3] by (simp_all add: st4_def)
      have mem4: "memory_step st3 True st4" by (simp add: st4_def GC_remove_counts_def folds_memory)
      have bnd1: "(h + 1) * HBLKSIZE < 2 ^ 63" using le_less_trans [OF mult_le_mono1 bnd(2), of "h + 1"] m by simp
      have pd: "pages_done st1 h m st4 B"
        unfolding pages_done_def
      proof (intro conjI ballI allI impI)
        show "used_ok st4 c x" if "c \<in> {h..<h + m}" "in_use st4 c x" for c x
          using use [OF that(1)] that(2) nb bnd(1) bnd1 by (auto simp: used_ok_def HBLKSIZE_def)
        show "\<exists>b g. in_use st4 b g \<and> b < c \<and> c < b + nblocks g" if "c \<in> {h..<h + m}" "HDR st4 c = Jump d" for c d
          using that assms(5) by (cases "c = h") (simp_all add: H4)
        show "c \<in> B" if "c \<in> {h..<h + m}" "free_at st4 c" for c
          using that s3(6) by (auto simp: free_at_def cores_def of4 split: if_splits)
      qed (use base4 f4 f3 f2(1,2) memory_step_trans [OF mem3 mem4] H4 of4 m in auto)
      note cd = carve_done [OF assms(1-4) pd subset_refl]
      have out: "os_mem st4 = []"
        using bad s3(5) mem4 I(2) assms(4) mem2 by (simp add: memory_step_def supplied_def)
      have "memory_step st True st4" using memory_step_trans [OF assms(4) memory_step_trans [OF mem3 mem4]] .
      then have "alloc_step st L B st4 L' B" using out cd(1-3) kinds f2(4) f3(3) f4(3) by (auto simp: alloc_step_def)
      then show ?thesis using eq out by blast
    qed
  qed
qed

lemma allochblk_nth_finish:
  assumes "m = OBJ_SZ_TO_BLOCKS sz"
  shows "GC_allochblk_nth sz kind ign n split st =
    rbind (search_list (length (hdrs st) + 1) (m * HBLKSIZE) kind ign n split (GC_hblkfreelist st ! n) st)
      (\<lambda>(h, r, st). if h = 0 then Inr (0, st) else finish m sz kind ign h r st)"
proof -
  have e: "HBLKSIZE * m = m * HBLKSIZE" "m * HBLKSIZE div HBLKSIZE = m" by simp_all
  show ?thesis unfolding GC_allochblk_nth_def Let_def assms [symmetric] finish_def e ..
qed

lemma GC_allochblk_nth_ok:
  assumes "heap_inv st L B" "n \<le> N_HBLK_FLS" "kind < length (GC_obj_kinds st)"
    and sz: "0 < sz" "sz + (HBLKSIZE - 1) < 2 ^ 64" "OBJ_SZ_TO_BLOCKS sz * HBLKSIZE < 2 ^ 63"
  shows "\<exists>h st'. GC_allochblk_nth sz kind ign n split st = Inr (h, st') \<and> alloc_result st L B sz kind ign h st'"
proof -
  note W = weak_okD [OF heap_invD(1) [OF assms(1)]] and D = lists_okD [OF weak_okD(4) [OF heap_invD(1) [OF assms(1)]] assms(2)]
  define m where "m = OBJ_SZ_TO_BLOCKS sz"
  have m: "0 < m" using sz(1,2) by (simp add: m_def OBJ_SZ_TO_BLOCKS_def HBLKSIZE_def)
  have "length (L n) < length (hdrs st) + 1" using dlseg_length [OF W(1) D(4,5)] by simp
  then obtain h r st1 where s: "search_list (length (hdrs st) + 1) (m * HBLKSIZE) kind ign n split (GC_hblkfreelist st ! n) st = Inr (h, r, st1)"
    "h = 0 \<and> (\<exists>L'. heap_inv st1 L' B \<and> progress st L st1 L') \<or> found st L B m h r st1"
    using search_list_ok [OF assms(1,2), of "[]" "L n" "length (hdrs st) + 1" m kind ign split] m sz(3) dlseg_start [OF D(4)]
    by (auto simp: m_def)
  have eq: "GC_allochblk_nth sz kind ign n split st = (if h = 0 then Inr (0, st1) else finish m sz kind ign h r st1)"
    unfolding allochblk_nth_finish [OF m_def] s(1) by simp
  show ?thesis
  proof (cases "found st L B m h r st1")
    case False
    then obtain L' where p: "heap_inv st1 L' B" "progress st L st1 L'" "h = 0" using s(2) by blast
    then show ?thesis using eq alloc_resultI [OF progress_step [OF p(2,1)]] by auto
  next
    case True
    then obtain st0 L0 b hh m' L' where f: "heap_inv st0 L0 B" "progress st L st0 L0" "on_list L0 b" "carved st0 L0 b hh m' st1 L'"
      "memory_step st0 (h \<noteq> 0) st1" "h = hh \<and> m' = m \<and> HDR st1 h = Hdr r \<or> h = 0" unfolding found_def by blast
    note p = progress_step [OF f(2,1)]
    show ?thesis
    proof (cases "h = 0")
      case False
      then have g: "carved st0 L0 b h m st1 L'" "HDR st1 h = Hdr r" using f(4,6) by auto
      have kind: "kind < length (GC_obj_kinds st0)" using f(2) assms(3) by (simp add: progress_def)
      obtain h' st' B' where "finish m sz kind ign h r st1 = Inr (h', st')" "alloc_step st0 L0 B st' L' B'"
        "h' = 0 \<or> h' = h \<and> handed_out st0 L0 sz kind ign h st' L'"
        using finish_ok [OF f(1,3) g(1) memory_step_weaken [OF f(5)] g(2) m_def sz(1,2) kind] by blast
      then show ?thesis using eq False alloc_result_trans [OF p alloc_resultI] by auto
    next
      case True
      note C = f(4) [unfolded carved_def]
      have mem: "os_mem st1 = []" using f(5) True heap_invD(2) [OF f(1)] by (simp add: memory_step_def)
      have pd: "pages_done st1 hh m' st1 (B \<union> {hh..<hh + m'})"
        unfolding pages_done_def
      proof (intro conjI ballI allI impI)
        have inE: "hh \<le> c \<Longrightarrow> c < hh + m' \<Longrightarrow> c \<noteq> hh \<Longrightarrow> HDR st1 c = Nil_entry" for c
        proof -
          assume c: "hh \<le> c" "c < hh + m'" "c \<noteq> hh"
          have le: "b \<le> hh" "hh + m' \<le> b + span st0 b"
            and u: "b < hh \<and> (c = b \<or> c = hh) \<or> hh + m' < b + span st0 b \<and> c = hh + m' \<or> HDR st1 c = HDR st0 c" using C by blast+
          then have "HDR st1 c = HDR st0 c" "b < c" "c < b + span st0 b" using c by auto
          then show "HDR st1 c = Nil_entry" using member_okD(6) [OF weak_okD(6) [OF heap_invD(1) [OF f(1)] f(3)]] by simp
        qed
        have hh: "free_at st1 hh" using C by blast
        show "used_ok st1 c g" if "c \<in> {hh..<hh + m'}" "in_use st1 c g" for c g
          using that inE [of c] in_use_hdr [of st1 c g] hh by (cases "c = hh") (auto simp: in_use_def free_at_def)
        show "\<exists>b g. in_use st1 b g \<and> b < c \<and> c < b + nblocks g" if "c \<in> {hh..<hh + m'}" "HDR st1 c = Jump d" for c d
          using that inE [of c] free_at_hdr [OF hh] by (cases "c = hh") auto
      qed (use C weak_okD(5) in \<open>auto simp: memory_step_same\<close>)
      note cd = carve_done [OF f(1,3,4) memory_step_weaken [OF f(5)] pd]
      have "alloc_step st0 L0 B st1 L' (B \<union> {hh..<hh + m'})"
        using cd(1-3) mem memory_step_weaken [OF f(5)] frameD(2) [of st0 st1] C by (auto simp: alloc_step_def)
      then show ?thesis using eq True alloc_result_trans [OF p alloc_resultI] by auto
    qed
  qed
qed

section \<open>\<open>GC_allochblk\<close>\<close>

lemma signed_word_neg:
  assumes "n < 2 ^ 64" "\<not> signed_word n < 0"
  shows "n < 2 ^ 63"
proof (rule ccontr)
  assume "\<not> n < 2 ^ 63"
  then have "(int n + 2 ^ 63) mod 2 ^ 64 = int n - 2 ^ 63"
    using assms(1) minus_mod_self2 [of "int n + 2 ^ 63" "2 ^ 64"] by simp
  then have "signed_take_bit 63 (int n) = int n - 2 ^ 64"
    by (simp add: signed_take_bit_eq_take_bit_shift take_bit_eq_mod)
  then show False using assms by (simp add: signed_word_def signed_of_nat)
qed

lemma try_lists_ok:
  assumes "heap_inv st L B" "\<forall>i\<in>set is. i \<le> N_HBLK_FLS" "kind < length (GC_obj_kinds st)"
    and sz: "0 < sz" "sz + (HBLKSIZE - 1) < 2 ^ 64" "OBJ_SZ_TO_BLOCKS sz * HBLKSIZE < 2 ^ 63"
  shows "\<exists>h st'. try_lists sz kind ign is st = Inr (h, st') \<and> alloc_result st L B sz kind ign h st'"
  using assms(1-3)
proof (induction "is" arbitrary: st L B)
  case Nil
  then show ?case using alloc_resultI [OF progress_step [OF progress_refl Nil.prems(1)]] by auto
next
  case (Cons i js)
  obtain h st1 where a: "GC_allochblk_nth sz kind ign i True st = Inr (h, st1)" "alloc_result st L B sz kind ign h st1"
    using GC_allochblk_nth_ok [OF Cons.prems(1) _ Cons.prems(3) sz, of i ign True] Cons.prems(2) by auto
  obtain L1 B1 where a2: "alloc_step st L B st1 L1 B1" using a(2) by (auto simp: alloc_result_def)
  show ?case
  proof (cases "h = 0")
    case True
    have I1: "heap_inv st1 L1 B1" "\<forall>i\<in>set js. i \<le> N_HBLK_FLS" "kind < length (GC_obj_kinds st1)"
      using a2 Cons.prems(2,3) by (simp_all add: alloc_step_def)
    then obtain h' st' where b: "try_lists sz kind ign js st1 = Inr (h', st')" "alloc_result st1 L1 B1 sz kind ign h' st'"
      using Cons.IH [OF I1] by blast
    then show ?thesis using a(1) True alloc_result_trans [OF a2] by auto
  qed (use a in auto)
qed

lemma enough_from_le: "enough_from fb bytes lim n \<le> n - 1"
proof (induction n arbitrary: bytes)
  case (Suc n)
  show ?case using Suc.IH [of "bytes + fb ! n"] by (auto simp: Let_def)
qed simp

lemma split_limit_ok:
  assumes "split_limit st = (lim, st')"
  shows "lim \<le> N_HBLK_FLS" "same_blocks st st'" "GC_large_free_bytes st' = GC_large_free_bytes st"
proof -
  have e: "GC_enough_large_bytes_left s \<le> N_HBLK_FLS" for s :: "'a block_heap_scheme"
    using enough_from_le [of "GC_free_bytes s" _ _ "N_HBLK_FLS + 1"] unfolding GC_enough_large_bytes_left_def by simp
  let ?st = "st\<lparr>last_gc_no := GC_gc_no st, last_min_bytes_allocd := min_bytes_allocd st\<rparr>"
  have "HDR ?st = HDR st" "hdr_of ?st = hdr_of st" "map_ok ?st = map_ok st"
    by (rule HDR_cong hdr_of_cong map_ok_cong; simp)+
  then have s: "same_blocks st ?st" by (simp add: same_blocks_def base_ok_def tables_ok_def layouts_ok_def memory_step_same)
  show "lim \<le> N_HBLK_FLS" "same_blocks st st'" "GC_large_free_bytes st' = GC_large_free_bytes st"
    using assms e s by (auto simp: split_limit_def GC_should_collect_def Let_def split: if_splits)
qed

lemma GC_allochblk_ok:
  assumes "heap_inv st L B" "kind < length (GC_obj_kinds st)" "0 < sz" "sz + (HBLKSIZE - 1) < 2 ^ 64"
  shows "\<exists>h st'. GC_allochblk sz kind ign st = Inr (h, st') \<and> alloc_result st L B sz kind ign h st'"
proof (cases "signed_word (OBJ_SZ_TO_BLOCKS sz * HBLKSIZE) < 0")
  case True
  then have "GC_allochblk sz kind ign st = Inr (0, st)" by (simp add: GC_allochblk_def Let_def)
  then show ?thesis using alloc_resultI [OF progress_step [OF progress_refl assms(1)]] by auto
next
  case False
  let ?i = "GC_hblk_fl_from_blocks (OBJ_SZ_TO_BLOCKS sz)"
  have "OBJ_SZ_TO_BLOCKS sz * HBLKSIZE \<le> sz + (HBLKSIZE - 1)" using assms(4) by (simp add: OBJ_SZ_TO_BLOCKS_def)
  then have small: "OBJ_SZ_TO_BLOCKS sz * HBLKSIZE < 2 ^ 63" using signed_word_neg [OF _ False] assms(4) by linarith
  obtain h st1 where a: "GC_allochblk_nth sz kind ign ?i False st = Inr (h, st1)" "alloc_result st L B sz kind ign h st1"
    using GC_allochblk_nth_ok [OF assms(1) GC_hblk_fl_le assms(2-4) small] by blast
  obtain L1 B1 where a1: "alloc_step st L B st1 L1 B1" using a(2) by (auto simp: alloc_result_def)
  show ?thesis
  proof (cases "h = 0")
    case True
    obtain lim st2 where sl: "split_limit st1 = (lim, st2)" by fastforce
    note S = split_limit_ok [OF sl]
    have I1: "heap_inv st1 L1 B1" using a1 by (simp add: alloc_step_def)
    note SI = same_blocks_inv [OF S(2)]
    have a2: "alloc_step st L B st2 L1 B1"
      using alloc_step_trans [OF a1 progress_step [OF SI(4) [OF I1 S(3)] SI(2) [OF I1]]] .
    let ?is = "[(if ?i < UNIQUE_THRESHOLD then ?i + 1 else ?i)..<lim + 1]"
    have is_le: "\<forall>i\<in>set ?is. i \<le> N_HBLK_FLS" using S(1) by auto
    have kind2: "kind < length (GC_obj_kinds st2)" using a2 assms(2) by (simp add: alloc_step_def)
    obtain h' st' where b: "try_lists sz kind ign ?is st2 = Inr (h', st')" "alloc_result st2 L1 B1 sz kind ign h' st'"
      using try_lists_ok [OF SI(2) [OF I1] is_le kind2 assms(3,4) small] by blast
    have "GC_allochblk sz kind ign st = Inr (h', st')"
      using False a(1) True sl b(1) unfolding GC_allochblk_def Let_def by simp
    then show ?thesis using alloc_result_trans [OF a2 b(2)] by auto
  next
    case ne: False
    then have "GC_allochblk sz kind ign st = Inr (h, st1)" using False a(1) by (simp add: GC_allochblk_def Let_def)
    then show ?thesis using a(2) by auto
  qed
qed

end
