(* ===== verification/GC_Free.thy ===== *)
theory GC_Free
  imports GC_Allocate
begin

text \<open>
  Freeing a block: \<open>GC_freehblk\<close> merges it with the free blocks around it, and keeps the invariant of
  the heap.
\<close>

section \<open>Blocks in use do not overlap\<close>

lemma used_disjoint:
  assumes "heap_inv st L B" "in_use st b g" "in_use st c h" "b \<noteq> c"
  shows "b + nblocks g \<le> c \<or> c + nblocks h \<le> b"
proof (rule ccontr)
  assume n: "\<not> ?thesis"
  have u: "used_ok st b g" "used_ok st c h" using heap_invD(4) [OF assms(1)] assms(2,3) by blast+
  obtain r q where "HDR st b = Hdr r" "HDR st c = Hdr q" using in_use_hdr assms(2,3) by blast
  then have "\<not> (b < c \<and> c < b + nblocks g)" "\<not> (c < b \<and> b < c + nblocks h)"
    using u by (auto simp: used_ok_def)
  with n assms(4) show False by linarith
qed

lemma is_free_at: "HDR st b = Hdr r \<Longrightarrow> is_free st r \<longleftrightarrow> free_at st b"
  by (simp add: is_free_def free_at_def cores_eq)

section \<open>A block between two lists\<close>

text \<open>A block of \<open>k\<close> pages at \<open>x\<close> that is on no list and does not overlap one that is.\<close>

definition pending :: "'a block_heap_scheme \<Rightarrow> (nat \<Rightarrow> nat list) \<Rightarrow> nat \<Rightarrow> nat \<Rightarrow> nat \<Rightarrow> bool" where
  "pending st L x r k \<longleftrightarrow> weak_ok st L \<and> HDR st x = Hdr r \<and> bsize st x = k * HBLKSIZE \<and> 0 < k \<and> x \<noteq> 0 \<and>
     (x + k) * HBLKSIZE < 2 ^ 63 \<and> (\<forall>c. x < c \<and> c < x + k \<longrightarrow> HDR st c = Nil_entry) \<and>
     (\<forall>c. on_list L c \<longrightarrow> c + span st c \<le> x \<or> x + k \<le> c)"

lemma pendingD:
  assumes "pending st L x r k"
  shows "weak_ok st L" "HDR st x = Hdr r" "bsize st x = k * HBLKSIZE" "span st x = k" "0 < k" "x \<noteq> 0" "(x + k) * HBLKSIZE < 2 ^ 63"
    "x < c \<Longrightarrow> c < x + k \<Longrightarrow> HDR st c = Nil_entry" "on_list L c \<Longrightarrow> c + span st c \<le> x \<or> x + k \<le> c" "\<not> on_list L x"
    "hb_sz (hdrs st ! r) = k * HBLKSIZE" "k * HBLKSIZE < 2 ^ 63"
proof -
  note P = assms [unfolded pending_def]
  show "weak_ok st L" "HDR st x = Hdr r" "bsize st x = k * HBLKSIZE" "0 < k" "x \<noteq> 0" "(x + k) * HBLKSIZE < 2 ^ 63"
    "x < c \<Longrightarrow> c < x + k \<Longrightarrow> HDR st c = Nil_entry" "on_list L c \<Longrightarrow> c + span st c \<le> x \<or> x + k \<le> c" using P by blast+
  then show "span st x = k" by (simp add: span_def)
  show "\<not> on_list L x"
  proof
    assume "on_list L x"
    moreover have "0 < span st x" using member_okD(1) [OF weak_okD(6)] P \<open>on_list L x\<close> by blast
    ultimately show False using P by fastforce
  qed
  have "hdr_of st x = Some (hdrs st ! r)" using P by (intro hdr_of_eq) blast
  then have "bsize st x = hb_sz (hdrs st ! r)" by (simp add: bsize_def)
  then show "hb_sz (hdrs st ! r) = k * HBLKSIZE" using P by simp
  have "k * HBLKSIZE \<le> (x + k) * HBLKSIZE" by (intro mult_le_mono1) simp
  then show "k * HBLKSIZE < 2 ^ 63" using P by (meson le_less_trans)
qed

text \<open>Taking a listed block off its list.\<close>

lemma pending_remove:
  assumes "weak_ok st L" "on_list L x" "HDR st x = Hdr r"
  shows "\<exists>st' L'. GC_remove_from_fl r None st = Inr st' \<and> relinked st st' \<and> pending st' L' x r (span st x) \<and>
    (\<forall>c. on_list L' c \<longleftrightarrow> on_list L c \<and> c \<noteq> x) \<and> free_total st' L' + span st x * HBLKSIZE = free_total st L"
proof -
  note W = weak_okD [OF assms(1)] and M = member_okD [OF weak_okD(6) [OF assms(1,2)]]
  obtain i where i: "i \<le> N_HBLK_FLS" "x \<in> set (L i)" using assms(2) by (auto simp: on_list_def)
  obtain xs ys where L: "L i = xs @ x # ys" using split_list [OF i(2)] by blast
  have fi: "GC_hblk_fl_from_blocks (hb_sz (hdrs st ! r) div HBLKSIZE) = i"
    using W(7) [OF i] assms(3) by (simp add: fl_index_def bsize_def hdr_of_eq)
  have oth: "others_ok st L x" using assms(1) by (auto simp: others_ok_def weak_ok_def members_ok_def)
  obtain st' where st': "GC_remove_from_fl r None st = Inr st'" "relinked st st'" "weak_ok st' (L(i := xs @ ys))"
    "free_total st' (L(i := xs @ ys)) + bsize st x = free_total st L"
    using weak_ok_remove [OF W(5,4) oth i(1) L assms(3), of None] fi by auto
  note D = relinkedD [OF st'(2)] and R = on_list_remove(1) [OF W(4) i(1) L]
  have sp: "span st' c = span st c" for c by (simp add: span_def D(4))
  have "c + span st c \<le> x \<or> x + span st x \<le> c" if "on_list (L(i := xs @ ys)) c" for c
    using members_disjoint [OF W(6) [of c] W(6) [OF assms(2)]] that R by blast
  then have "pending st' (L(i := xs @ ys)) x r (span st x)"
    using st'(3) M(1,3,6,7) assms(3) D(1,4) M(2) by (simp add: pending_def sp)
  then show ?thesis using st' M(2) R by (intro exI [of _ st'] exI [of _ "L(i := xs @ ys)"]) simp
qed

lemma pending_relinked:
  assumes "pending st L x r k" "relinked st st'" "weak_ok st' L'" "\<And>c. on_list L' c \<Longrightarrow> on_list L c"
  shows "pending st' L' x r k"
proof -
  note D = relinkedD [OF assms(2)]
  have "span st' c = span st c" for c by (simp add: span_def D(4))
  then show ?thesis using assms(1,3,4) D(1,4) by (simp add: pending_def)
qed

text \<open>Two adjacent blocks become one.\<close>

lemma absorb_block_ok:
  assumes "pending st L x r k" "pending st L (x + k) q j"
  shows "\<exists>st'. GC_remove_header (x + k) (upd_hdr r (\<lambda>h. h\<lparr>hb_sz := hb_sz h + hb_sz (hdrs st ! q)\<rparr>) st) = Inr st' \<and>
    pending st' L x r (k + j) \<and> HDR st' = (HDR st)(x + k := Nil_entry) \<and> (\<forall>c. c \<noteq> x \<longrightarrow> c \<noteq> x + k \<longrightarrow> hdr_of st' c = hdr_of st c) \<and>
    free_total st' L = free_total st L \<and> headers.more st' = headers.more st \<and> memory_step st True st'"
proof -
  note X = pendingD [OF assms(1)] and Y = pendingD [OF assms(2)]
  note W = weak_okD [OF X(1)]
  let ?f = "\<lambda>h. h\<lparr>hb_sz := hb_sz h + hb_sz (hdrs st ! q)\<rparr>"
  let ?st = "upd_hdr r ?f st"
  have ok: "map_ok ?st" "HDR ?st (x + k) = Hdr q" using W(1) Y(2) by simp_all
  obtain st' where st': "GC_remove_header (x + k) ?st = Inr st'" "map_ok st'" "HDR st' = (HDR ?st)(x + k := Nil_entry)"
    using GC_remove_header_ok [OF ok] by blast
  note M = GC_remove_header_more [OF st'(1)]
  have H: "HDR st' = (HDR st)(x + k := Nil_entry)" using st'(3) by (simp add: fun_eq_iff)
  have hof: "hdr_of st' c = (if c = x + k then None else hdr_of ?st c)" for c
    using H M by (auto simp: hdr_of_def split: entry.split)
  then have hof': "hdr_of st' c = (if c = x + k then None else if c = x then Some (?f (hdrs st ! r)) else hdr_of st c)" for c
    using X(5) by (simp add: hdr_of_upd [OF W(1) X(2)])
  have more: "headers.more st' = headers.more st" using M by simp
  have C: "\<not> (d \<le> c \<and> c < d + span st d)" if "on_list L d" "c \<in> {x, x + k}" for d c
    using X(9) [OF that(1)] Y(9) [OF that(1)] X(5) Y(5) that(2) by auto
  have out: "HDR st' d = HDR st d \<and> hdr_of st' d = hdr_of st d" if "d \<notin> {x, x + k}" for d using that H hof' by simp
  note ch = weak_ok_change [where C = "{x, x + k}", OF X(1) base_ok_more [OF W(5) st'(2) more] more_heap(1,2) [OF more] out C]
  have w: "weak_ok st' L" "free_total st' L = free_total st L" using ch(1,2) by blast+
  have sp: "span st' d = span st d" if "on_list L d" for d using ch(3) [OF _ _ _ that] by simp
  have bs: "bsize st' x = (k + j) * HBLKSIZE" using X(5,11) Y(11) by (simp add: bsize_def hof' add_mult_distrib)
  have "HDR st' c = Nil_entry" if "x < c" "c < x + (k + j)" for c
    using X(8) [of c] Y(8) [of c] that H by (cases "c < x + k"; cases "c = x + k") auto
  moreover have "c + span st' c \<le> x \<or> x + (k + j) \<le> c" if "on_list L c" for c
  proof -
    have "c + span st c \<le> x \<or> x + k + j \<le> c"
      using X(9) [OF that] Y(9) [OF that] member_okD(1) [OF W(6) [OF that]] X(5) by linarith
    then show ?thesis using sp [OF that] by (simp add: add.assoc)
  qed
  moreover have "(x + (k + j)) * HBLKSIZE < 2 ^ 63" using Y(7) by (simp add: add.assoc)
  ultimately have "pending st' L x r (k + j)"
    using w(1) X(2,5,6) Y(5) bs H by (simp add: pending_def)
  moreover have "memory_step st True st'"
    using st'(1) by (intro memory_step_same) (auto simp: GC_remove_header_def free_hdr_def upd_hdr_def split: entry.splits)
  ultimately show ?thesis using st'(1) H w(2) more hof' by auto
qed

section \<open>The free block before a block\<close>

lemma forwarded_object:
  assumes "object_upto st h q c" "c - h < k"
  shows "forwarded st k c = Inr (h, Hdr q)"
  using assms
proof (induction k arbitrary: c)
  case (Suc k)
  show ?case
  proof (cases "c = h")
    case True
    then show ?thesis using Suc.prems(1) by (simp add: object_upto_def)
  next
    case False
    then have c: "h < c" using Suc.prems(1) by (simp add: object_upto_def)
    let ?d = "min (c - h) MAX_JUMP"
    have d: "0 < ?d" "h \<le> c - ?d" "c - ?d \<le> c" using c MAX_JUMP_pos by auto
    have "HDR st c = Jump ?d" using Suc.prems(1) c by (simp add: object_upto_def)
    then have "forwarded st (Suc k) c = forwarded st k (c - ?d)" by simp
    also have "\<dots> = Inr (h, Hdr q)"
    proof (rule Suc.IH)
      show "object_upto st h q (c - ?d)" using Suc.prems(1) d by (auto simp: object_upto_def)
      show "c - ?d - h < k" using Suc.prems(2) d c by linarith
    qed
    finally show ?thesis .
  qed
qed simp

lemma GC_free_block_ending_at_ok:
  assumes "blocks_ok st" "HDR st b = Hdr r" "0 < b"
    and J: "\<And>c d. HDR st c = Jump d \<Longrightarrow> \<exists>h q. object_upto st h q c \<and> \<not> is_free st q"
    and F: "\<And>c. free_at st c \<Longrightarrow> HBLKSIZE dvd bsize st c \<and> 0 < span st c \<and> (\<forall>d. c < d \<and> d < c + span st c \<longrightarrow> HDR st d = Nil_entry)"
  shows "\<exists>res. GC_free_block_ending_at b st = Inr res \<and> (\<forall>p. res = Some p \<longleftrightarrow> free_at st p \<and> p < b \<and> p + span st p = b)"
proof -
  let ?P = "\<lambda>p. free_at st p \<and> p < b \<and> p + span st p = b"
  have hd: "\<exists>q. HDR st p = Hdr q" if "free_at st p" for p using free_at_hdr [OF that] .
  have inside: "HDR st (b - 1) = Nil_entry" if "?P p" "p \<noteq> b - 1" for p using F [of p] that by auto
  show ?thesis
  proof (cases "HDR st (b - 1)")
    case (Hdr q)
    have eq: "GC_free_block_ending_at b st = Inr (if is_free st q then Some (b - 1) else None)"
      using Hdr by (simp add: GC_free_block_ending_at_def)
    have "?P p \<longleftrightarrow> p = b - 1 \<and> is_free st q" for p
    proof
      assume P: "?P p"
      then have "p = b - 1" using inside [OF P] Hdr by fastforce
      then show "p = b - 1 \<and> is_free st q" using P is_free_at [OF Hdr] by simp
    next
      assume p: "p = b - 1 \<and> is_free st q"
      then have f: "free_at st p" using is_free_at [OF Hdr] by simp
      have "\<not> b < p + span st p" using F [OF f] assms(2,3) p by fastforce
      then show "?P p" using f p assms(3) F [OF f] by auto
    qed
    then show ?thesis using eq by auto
  next
    case (Jump d)
    then obtain h q where o: "object_upto st h q (b - 1)" "\<not> is_free st q" using J by blast
    have "forwarded st (b + 1) (b - 1) = Inr (h, Hdr q)" by (rule forwarded_object [OF o(1)]) simp
    then have eq: "GC_free_block_ending_at b st = Inr None" using o(2) by (simp add: GC_free_block_ending_at_def)
    have "\<not> ?P p" for p using inside [of p] Jump hd [of p] by (cases "p = b - 1") auto
    then show ?thesis using eq by blast
  next
    case Nil_entry
    have last: "last_of {c. has_hdr st c \<and> c \<le> b - 1} (GC_prev_block st (b - 1))" by (rule prev_block_last [OF assms(1)])
    show ?thesis
    proof (cases "GC_prev_block st (b - 1)")
      case None
      then have "\<not> has_hdr st c" if "c \<le> b - 1" for c using last that by (auto simp: last_of_def)
      then have "\<not> ?P p" for p using hd [of p] assms(3) by (auto simp: has_hdr_def)
      moreover have "GC_free_block_ending_at b st = Inr None" using Nil_entry None by (simp add: GC_free_block_ending_at_def)
      ultimately show ?thesis by blast
    next
      case (Some p)
      then have p: "has_hdr st p" "p \<le> b - 1" "\<And>c. has_hdr st c \<Longrightarrow> c \<le> b - 1 \<Longrightarrow> c \<le> p" using last by (auto simp: last_of_def)
      then obtain q where q: "HDR st p = Hdr q" by (auto simp: has_hdr_def)
      have sz: "bsize st p = hb_sz (hdrs st ! q)" using q by (simp add: bsize_def hdr_of_eq)
      have eq: "GC_free_block_ending_at b st = Inr (if is_free st q \<and> p * HBLKSIZE + hb_sz (hdrs st ! q) = b * HBLKSIZE then Some p else None)"
        using Nil_entry Some q by (simp add: GC_free_block_ending_at_def get_hdr_eq)
      have only: "?P c \<Longrightarrow> c = p" for c
      proof (rule ccontr)
        assume c: "?P c" "c \<noteq> p"
        have "c \<le> b - 1" using c(1) by linarith
        then have "c < p" using p(3) [of c] hd [of c] c by (auto simp: has_hdr_def)
        then have "HDR st p = Nil_entry" using F [of c] c(1) p(2) assms(3) by auto
        then show False using q by simp
      qed
      have iff: "?P p \<longleftrightarrow> is_free st q \<and> p * HBLKSIZE + hb_sz (hdrs st ! q) = b * HBLKSIZE"
      proof (cases "free_at st p")
        case True
        then have "hb_sz (hdrs st ! q) = span st p * HBLKSIZE" using F [OF True] sz by (simp add: span_def)
        then have "p * HBLKSIZE + hb_sz (hdrs st ! q) = b * HBLKSIZE \<longleftrightarrow> p + span st p = b"
          by (metis HBLKSIZE_nonzero add_mult_distrib mult_right_cancel)
        then show ?thesis using True is_free_at [OF q] p(2) assms(3) by auto
      qed (use is_free_at [OF q] in simp)
      show ?thesis using eq only iff by auto
    qed
  qed
qed

end
