(* ===== verification/GC_Coalesce.thy ===== *)
theory GC_Coalesce
  imports GC_Free
begin

text \<open>
  \<open>GC_freehblk\<close>: the block freed is merged with its free neighbours and added to the list of its
  size.
\<close>

section \<open>Merging\<close>

text \<open>The pages from \<open>x\<close>, \<open>k\<close> of them, are those of the block \<open>b\<close> being freed and of free blocks of
  the state \<open>st0\<close> merged with it.\<close>

definition merging :: "'a block_heap_scheme \<Rightarrow> (nat \<Rightarrow> nat list) \<Rightarrow> nat \<Rightarrow> nat \<Rightarrow> 'a block_heap_scheme \<Rightarrow> (nat \<Rightarrow> nat list) \<Rightarrow>
    nat \<Rightarrow> nat \<Rightarrow> nat \<Rightarrow> bool" where
  "merging st0 L0 b n st L x r k \<longleftrightarrow> pending st L x r k \<and> GC_obj_kinds st = GC_obj_kinds st0 \<and> GC_large_free_bytes st = GC_large_free_bytes st0 \<and> memory_step st0 True st \<and> x \<le> b \<and> b + n \<le> x + k \<and>
     {x..<x + k} \<subseteq> region st0 L0 \<union> {b..<b + n} \<and>
     (\<forall>c. c \<notin> {x..<x + k} \<longrightarrow> HDR st c = HDR st0 c \<and> cores st c = cores st0 c) \<and>
     (\<forall>c. on_list L c \<longleftrightarrow> on_list L0 c \<and> c \<notin> {x..<x + k}) \<and>
     (\<forall>c. on_list L0 c \<longrightarrow> c \<in> {x..<x + k} \<longrightarrow> c + span st0 c \<le> x + k) \<and>
     free_total st L + k * HBLKSIZE = free_total st0 L0 + n * HBLKSIZE"

lemma merge_absorb:
  assumes "weak_ok st0 L0" "merging st0 L0 b n st L x r k" "on_list L0 p" "p \<notin> {x..<x + k}" "relinked st st1"
    and P: "pending st1 L1 y ry ky" "pending st1 L1 (y + ky) rz kz" "{y..<y + ky + kz} = {x..<x + k} \<union> {p..<p + span st0 p}"
    and L1: "\<And>c. on_list L1 c \<longleftrightarrow> on_list L c \<and> c \<noteq> p" "free_total st1 L1 + span st0 p * HBLKSIZE = free_total st L"
    and k: "ky + kz = k + span st0 p"
  shows "\<exists>st'. GC_remove_header (y + ky) (upd_hdr ry (\<lambda>h. h\<lparr>hb_sz := hb_sz h + hb_sz (hdrs st1 ! rz)\<rparr>) st1) = Inr st' \<and>
    merging st0 L0 b n st' L1 y ry (ky + kz)"
proof -
  note M = assms(2) [unfolded merging_def] and W0 = weak_okD [OF assms(1)]
  obtain st' where st': "GC_remove_header (y + ky) (upd_hdr ry (\<lambda>h. h\<lparr>hb_sz := hb_sz h + hb_sz (hdrs st1 ! rz)\<rparr>) st1) = Inr st'"
    "pending st' L1 y ry (ky + kz)" "HDR st' = (HDR st1)(y + ky := Nil_entry)"
    "\<forall>c. c \<noteq> y \<longrightarrow> c \<noteq> y + ky \<longrightarrow> hdr_of st' c = hdr_of st1 c" "free_total st' L1 = free_total st1 L1"
    "headers.more st' = headers.more st1" "memory_step st1 True st'"
    using absorb_block_ok [OF P(1,2)] by blast
  have pos: "0 < k" "0 < span st0 p" "0 < ky" "0 < kz"
    using pendingD(5) P(1,2) M member_okD(1) [OF W0(6) [OF assms(3)]] by blast+
  have in_y: "y \<in> {y..<y + ky + kz}" "y + ky \<in> {y..<y + ky + kz}" using pos by auto
  have union: "c \<in> {y..<y + (ky + kz)} \<longleftrightarrow> c \<in> {x..<x + k} \<or> c \<in> {p..<p + span st0 p}" for c
    using P(3) by (simp add: add.assoc set_eq_iff)
  have same: "HDR st' c = HDR st c \<and> cores st' c = cores st c" if "c \<notin> {y..<y + (ky + kz)}" for c
  proof -
    have "c \<noteq> y" "c \<noteq> y + ky" using that in_y by (auto simp: add.assoc)
    then have "hdr_of st' c = hdr_of st1 c" "HDR st' c = HDR st1 c" using st'(3,4) by simp_all
    then show ?thesis using relinkedD(1,3) [OF assms(5)] by (metis cores_def)
  qed
  have apart: "c \<notin> {p..<p + span st0 p}" if "on_list L0 c" "c \<noteq> p" for c
    using members_disjoint [OF W0(6) [OF assms(3)] W0(6) [OF that(1)]] that(2) member_okD(1) [OF W0(6) [OF that(1)]] by auto
  have inp: "p \<in> {p..<p + span st0 p}" using pos by simp
  have bx: "b \<in> {x..<x + k} \<and> b + n \<le> x + k \<or> n = 0" using M by auto
  show ?thesis
  proof (intro exI conjI)
    show "GC_remove_header (y + ky) (upd_hdr ry (\<lambda>h. h\<lparr>hb_sz := hb_sz h + hb_sz (hdrs st1 ! rz)\<rparr>) st1) = Inr st'" by fact
    show "merging st0 L0 b n st' L1 y ry (ky + kz)"
      unfolding merging_def
    proof (intro conjI allI impI)
      show "pending st' L1 y ry (ky + kz)" by fact
      have "frame st st'" using frame_trans [OF frame_relinked [OF assms(5)] frame_more [OF st'(6)]] .
      then show "GC_obj_kinds st' = GC_obj_kinds st0" "GC_large_free_bytes st' = GC_large_free_bytes st0" using M frameD by metis+
      show "memory_step st0 True st'" using M memory_step_trans [OF _ memory_step_trans [OF relinked_memory [OF assms(5)] st'(7)]] by blast
      have "x \<in> {y..<y + (ky + kz)}" "x + k - 1 \<in> {y..<y + (ky + kz)}" unfolding union using pos by auto
      then show "y \<le> b" "b + n \<le> y + (ky + kz)" using M pos by auto
      show "{y..<y + (ky + kz)} \<subseteq> region st0 L0 \<union> {b..<b + n}"
      proof
        fix c assume "c \<in> {y..<y + (ky + kz)}"
        then show "c \<in> region st0 L0 \<union> {b..<b + n}" unfolding union using M regionI [OF assms(3), of c] by auto
      qed
      show "HDR st' c = HDR st0 c" "cores st' c = cores st0 c" if "c \<notin> {y..<y + (ky + kz)}" for c
        using same [OF that] M that [unfolded union] by auto
      show "on_list L1 c \<longleftrightarrow> on_list L0 c \<and> c \<notin> {y..<y + (ky + kz)}" for c
        unfolding union using L1(1) M apart [of c] inp assms(4) by auto
      show "c + span st0 c \<le> y + (ky + kz)" if "on_list L0 c" "c \<in> {y..<y + (ky + kz)}" for c
      proof (cases "c = p")
        case True
        have "p + span st0 p - 1 \<in> {y..<y + (ky + kz)}" unfolding union using pos by auto
        then show ?thesis using True pos by auto
      next
        case False
        then have "c + span st0 c \<le> x + k" using that apart [of c] union M by blast
        moreover have "x + k - 1 \<in> {y..<y + (ky + kz)}" unfolding union using pos by auto
        ultimately show ?thesis using pos by auto
      qed
      show "free_total st' L1 + (ky + kz) * HBLKSIZE = free_total st0 L0 + n * HBLKSIZE"
        using st'(5) L1(2) M unfolding k by (simp add: add_mult_distrib)
    qed
  qed
qed

text \<open>The free block \<open>p\<close> is taken off its list.\<close>

lemma merge_remove:
  assumes "weak_ok st0 L0" "merging st0 L0 b n st L x r k" "on_list L0 p" "p \<notin> {x..<x + k}" "HDR st p = Hdr q"
  shows "\<exists>st1 L1. GC_remove_from_fl q None st = Inr st1 \<and> relinked st st1 \<and> pending st1 L1 p q (span st0 p) \<and> pending st1 L1 x r k \<and>
    (\<forall>c. on_list L1 c \<longleftrightarrow> on_list L c \<and> c \<noteq> p) \<and> free_total st1 L1 + span st0 p * HBLKSIZE = free_total st L"
proof -
  note M = assms(2) [unfolded merging_def]
  have w: "weak_ok st L" and pe: "pending st L x r k" using M pendingD(1) by blast+
  have on: "on_list L p" using M assms(3,4) by blast
  have "cores st p = cores st0 p" using M assms(4) by blast
  then have sp: "span st p = span st0 p" by (simp add: span_def bsize_core)
  obtain st1 L1 where s: "GC_remove_from_fl q None st = Inr st1" "relinked st st1" "pending st1 L1 p q (span st0 p)"
    "\<forall>c. on_list L1 c \<longleftrightarrow> on_list L c \<and> c \<noteq> p" "free_total st1 L1 + span st0 p * HBLKSIZE = free_total st L"
    using pending_remove [OF w on assms(5)] unfolding sp by blast
  have "pending st1 L1 x r k" by (rule pending_relinked [OF pe s(2) pendingD(1) [OF s(3)]]) (use s(4) in blast)
  with s show ?thesis by blast
qed

lemma merge_next:
  assumes "weak_ok st0 L0" "merging st0 L0 b n st L x r k" "on_list L0 (x + k)" "HDR st (x + k) = Hdr q"
  shows "\<exists>st1 st' L'. GC_remove_from_fl q None st = Inr st1 \<and>
    GC_remove_header (x + k) (upd_hdr r (\<lambda>h. h\<lparr>hb_sz := hb_sz h + hb_sz (hdrs st1 ! q)\<rparr>) st1) = Inr st' \<and>
    merging st0 L0 b n st' L' x r (k + span st0 (x + k))"
proof -
  obtain st1 L1 where s: "GC_remove_from_fl q None st = Inr st1" "relinked st st1" "pending st1 L1 (x + k) q (span st0 (x + k))"
    "pending st1 L1 x r k" "\<And>c. on_list L1 c \<longleftrightarrow> on_list L c \<and> c \<noteq> x + k"
    "free_total st1 L1 + span st0 (x + k) * HBLKSIZE = free_total st L"
    using merge_remove [OF assms(1,2,3) _ assms(4)] by auto
  have "{x..<x + k + span st0 (x + k)} = {x..<x + k} \<union> {x + k..<x + k + span st0 (x + k)}" by auto
  from merge_absorb [OF assms(1,2,3) _ s(2,4,3) this s(5,6) refl] show ?thesis using s(1) by auto
qed

lemma merge_prev:
  assumes "weak_ok st0 L0" "merging st0 L0 b n st L x r k" "on_list L0 p" "p + span st0 p = x" "HDR st p = Hdr q"
  shows "\<exists>st1 st' L'. GC_remove_from_fl q None st = Inr st1 \<and>
    GC_remove_header x (upd_hdr q (\<lambda>h. h\<lparr>hb_sz := hb_sz h + hb_sz (hdrs st1 ! r)\<rparr>) st1) = Inr st' \<and>
    merging st0 L0 b n st' L' p q (span st0 p + k)"
proof -
  have lt: "p \<notin> {x..<x + k}" using assms(4) member_okD(1) [OF weak_okD(6) [OF assms(1,3)]] by auto
  obtain st1 L1 where s: "GC_remove_from_fl q None st = Inr st1" "relinked st st1" "pending st1 L1 p q (span st0 p)"
    "pending st1 L1 x r k" "\<And>c. on_list L1 c \<longleftrightarrow> on_list L c \<and> c \<noteq> p"
    "free_total st1 L1 + span st0 p * HBLKSIZE = free_total st L"
    using merge_remove [OF assms(1,2,3) lt assms(5)] by auto
  have "{p..<p + span st0 p + k} = {x..<x + k} \<union> {p..<p + span st0 p}" using assms(4) by auto
  from merge_absorb [OF assms(1,2,3) lt s(2,3) _ this s(5,6), of r] s(4) show ?thesis using s(1) assms(4) by (auto simp: add.commute)
qed

section \<open>The start\<close>

text \<open>Pages that can be made a free block: those of a block in use, or ones that were never used.\<close>

definition claim :: "'a block_heap_scheme \<Rightarrow> (nat \<Rightarrow> nat list) \<Rightarrow> nat \<Rightarrow> nat \<Rightarrow> bool" where
  "claim st L b n \<longleftrightarrow> 0 < n \<and> b \<noteq> 0 \<and> (b + n) * HBLKSIZE < 2 ^ 63 \<and> region st L \<inter> {b..<b + n} = {} \<and>
     (\<forall>y h. in_use st y h \<longrightarrow> (if y = b then nblocks h = n else y + nblocks h \<le> b \<or> b + n \<le> y))"

text \<open>The state \<open>u\<close> in which they have a header, marked free, and nothing else.\<close>

definition claimed :: "'a block_heap_scheme \<Rightarrow> nat \<Rightarrow> nat \<Rightarrow> 'a block_heap_scheme \<Rightarrow> nat \<Rightarrow> bool" where
  "claimed st b n u r \<longleftrightarrow> (\<forall>c. HDR u c = (if c = b then Hdr r else if b < c \<and> c < b + n then Nil_entry else HDR st c)) \<and>
     free_at u b \<and> bsize u b = n * HBLKSIZE \<and> (\<forall>c. c \<notin> {b..<b + n} \<longrightarrow> hdr_of u c = hdr_of st c) \<and> base_ok u \<and>
     GC_hblkfreelist u = GC_hblkfreelist st \<and> GC_free_bytes u = GC_free_bytes st \<and> GC_obj_kinds u = GC_obj_kinds st \<and>
     GC_large_free_bytes u = GC_large_free_bytes st \<and> memory_step st True u"

lemma claimD:
  assumes "claim st L b n" "in_use st y h"
  shows "y \<noteq> b \<Longrightarrow> y + nblocks h \<le> b \<or> b + n \<le> y" "y = b \<Longrightarrow> nblocks h = n"
  using assms unfolding claim_def by metis+

lemma used_size:
  assumes "heap_inv st L B" "in_use st b g"
  shows "0 < nblocks g" "(b + nblocks g) * HBLKSIZE < 2 ^ 63" "b \<noteq> 0"
proof -
  have u: "used_ok st b g" using heap_invD(4) [OF assms] .
  then show "(b + nblocks g) * HBLKSIZE < 2 ^ 63" "b \<noteq> 0" by (auto simp: used_ok_def)
  have "hb_sz g + (HBLKSIZE - 1) < 2 ^ 64" "HBLKSIZE \<le> hb_sz g + (HBLKSIZE - 1)"
    using u by (auto simp: used_ok_def HBLKSIZE_def)
  then show "0 < nblocks g" by (simp add: nblocks_def OBJ_SZ_TO_BLOCKS_def div_greater_zero_iff)
qed

lemma used_claim:
  assumes "heap_inv st L B" "in_use st b g"
  shows "claim st L b (nblocks g)"
proof -
  have "h = g" if "in_use st b h" for h using that assms(2) by (simp add: in_use_def)
  moreover have "region st L \<inter> {b..<b + nblocks g} = {}" using used_not_region [OF assms] by auto
  ultimately show ?thesis using used_size [OF assms] used_disjoint [OF assms(1) _ assms(2)] by (auto simp: claim_def)
qed

lemma fresh_claim:
  assumes "heap_inv st L B" "\<And>c. c \<in> {b..<b + n} \<Longrightarrow> HDR st c = Nil_entry" "region st L \<inter> {b..<b + n} = {}"
    "0 < n" "b \<noteq> 0" "(b + n) * HBLKSIZE < 2 ^ 63"
  shows "claim st L b n"
proof -
  have "y \<noteq> b \<and> (y + nblocks h \<le> b \<or> b + n \<le> y)" if y: "in_use st y h" for y h
  proof -
    have "y \<notin> {b..<b + n}" using in_use_hdr [OF y] assms(2) [of y] by auto
    moreover have "\<not> (y < b \<and> b < y + nblocks h)"
      using heap_invD(4) [OF assms(1) y] assms(2) [of b] assms(4) by (auto simp: used_ok_def)
    ultimately show ?thesis using assms(4) by auto
  qed
  then show ?thesis using assms(3-6) by (auto simp: claim_def)
qed

lemma claim_apart:
  assumes "heap_inv st L B" "claim st L b n" "on_list L c"
  shows "c + span st c \<le> b \<or> b + n \<le> c"
proof (rule ccontr)
  assume no: "\<not> ?thesis"
  then have "max b c \<in> {b..<b + n}" "max b c \<in> {c..<c + span st c}"
    using assms(2) member_okD(1) [OF weak_okD(6) [OF heap_invD(1) [OF assms(1)] assms(3)]] by (auto simp: claim_def)
  then show False using assms(2) regionI [OF assms(3), of "max b c" st] unfolding claim_def by auto
qed

lemma claimed_merging:
  assumes "heap_inv st L {}" "claim st L b n" "claimed st b n u r"
  shows "merging st L b n u L b r n"
proof -
  note W = weak_okD [OF heap_invD(1) [OF assms(1)]] and A = claim_apart [OF assms(1,2)]
    and K = assms(2) [unfolded claim_def] and E = assms(3) [unfolded claimed_def]
  have C: "\<not> (d \<le> c \<and> c < d + span st d)" if "on_list L d" "c \<in> {b..<b + n}" for d c using A [OF that(1)] that(2) by auto
  have out: "HDR u d = HDR st d \<and> hdr_of u d = hdr_of st d" if "d \<notin> {b..<b + n}" for d
    using that E K by auto
  have f: "base_ok u" "GC_hblkfreelist u = GC_hblkfreelist st" "GC_free_bytes u = GC_free_bytes st" using E by blast+
  note ch = weak_ok_change [where C = "{b..<b + n}", OF heap_invD(1) [OF assms(1)] f out C]
  have w: "weak_ok u L" "free_total u L = free_total st L" using ch(1,2) by blast+
  have sp: "span u d = span st d" if "on_list L d" for d using ch(3) [OF _ _ _ that] by simp
  have "pending u L b r n"
    using w(1) K E A sp by (simp add: pending_def)
  moreover have "on_list L c \<longleftrightarrow> on_list L c \<and> c \<notin> {b..<b + n}" for c
    using A [of c] member_okD(1) [OF W(6) [of c]] by auto
  moreover have "cores u c = cores st c" if "c \<notin> {b..<b + n}" for c using out [OF that] by (simp add: cores_def)
  ultimately show ?thesis
    using out w(2) E unfolding merging_def by auto
qed

lemma claimed_previous:
  assumes "heap_inv st L {}" "claim st L b n" "claimed st b n u r"
  shows "\<exists>res. GC_free_block_ending_at b u = Inr res \<and> (\<forall>p. res = Some p \<longleftrightarrow> on_list L p \<and> p + span st p = b)"
proof -
  note I = heap_invD [OF assms(1)] and W = weak_okD [OF heap_invD(1) [OF assms(1)]] and A = claim_apart [OF assms(1,2)]
    and K = assms(2) [unfolded claim_def]
  have HDRu: "HDR u c = (if c = b then Hdr r else if b < c \<and> c < b + n then Nil_entry else HDR st c)"
    and cu: "c \<notin> {b..<b + n} \<Longrightarrow> cores u c = cores st c" and fu: "free_at u b" "bsize u b = n * HBLKSIZE" "map_ok u" for c
    using assms(3) by (auto simp: claimed_def cores_def base_ok_def)
  have J: "\<exists>h q. h < c \<and> object_upto u h q c \<and> \<not> is_free u q" if j: "HDR u c = Jump d" for c d
  proof -
    have c: "\<not> (b < c \<and> c < b + n)" "HDR st c = Jump d" using j HDRu by (auto split: if_splits)
    then obtain y h where y: "in_use st y h" "y < c" "c < y + nblocks h" using I(5) by blast
    then obtain q where q: "HDR st y = Hdr q" using in_use_hdr by blast
    have "y \<noteq> b"
    proof
      assume e: "y = b"
      then have "nblocks h = n" using claimD(2) [OF assms(2) y(1)] by simp
      then show False using c(1) y(2,3) e by simp
    qed
    then have d: "b + n \<le> y \<or> y + nblocks h \<le> b" using claimD(1) [OF assms(2) y(1)] by blast
    have us: "used_ok st y h" using I(4) y(1) by blast
    have "object_upto u y q c" using us q y d K unfolding object_upto_def HDRu by (auto simp: used_ok_def)
    moreover have "cores u y = cores st y" "HDR u y = Hdr q" using HDRu cu [of y] d y q K by auto
    then have "\<not> is_free u q" using y(1) by (auto simp: is_free_at free_at_def in_use_def)
    ultimately show ?thesis using y(2) by blast
  qed
  have F: "c = b \<or> on_list L c \<and> span u c = span st c" "HBLKSIZE dvd bsize u c \<and> 0 < span u c \<and> (\<forall>d. c < d \<and> d < c + span u c \<longrightarrow> HDR u d = Nil_entry)"
    if f: "free_at u c" for c
  proof -
    have nr: "\<not> (b < c \<and> c < b + n)" using free_at_hdr [OF f] HDRu [of c] by auto
    show *: "c = b \<or> on_list L c \<and> span u c = span st c"
    proof (cases "c = b")
      case False
      then have "cores u c = cores st c" using cu [of c] nr by auto
      then have "free_at st c" "span u c = span st c" using f by (simp_all add: free_at_def span_def bsize_core)
      then show ?thesis using I(3) by blast
    qed simp
    show "HBLKSIZE dvd bsize u c \<and> 0 < span u c \<and> (\<forall>d. c < d \<and> d < c + span u c \<longrightarrow> HDR u d = Nil_entry)"
    proof (cases "c = b")
      case True
      then show ?thesis using fu(2) HDRu K by (simp add: span_def)
    next
      case False
      then have c: "on_list L c" "span u c = span st c" "cores u c = cores st c" using * cu [of c] nr by auto
      note M = member_okD [OF W(6) [OF c(1)]]
      show ?thesis using c M(1,2,6) HDRu A [OF c(1)] K by (auto simp: bsize_core)
    qed
  qed
  have bo: "blocks_ok u"
    unfolding blocks_ok_def
  proof (intro conjI allI impI)
    show "map_ok u" by (rule fu(3))
    show "\<exists>h r. h < c \<and> object_upto u h r c" if "HDR u c = Jump d" for c d using J [OF that] by blast
    fix c q assume c: "HDR u c = Hdr q" "is_free u q"
    then have f: "free_at u c" by (simp add: is_free_at)
    have sz: "hb_sz (hdrs u ! q) = bsize u c" using c(1) by (simp add: bsize_def hdr_of_eq)
    then show "HBLKSIZE \<le> hb_sz (hdrs u ! q)" using F(2) [OF f] by (auto simp: span_def intro: dvd_imp_le)
    show "\<not> used u d" if "c < d \<and> d < c + hb_sz (hdrs u ! q) div HBLKSIZE" for d
      using F(2) [OF f] that by (simp add: used_def sz span_def)
  qed
  have Hb: "HDR u b = Hdr r" using HDRu by simp
  obtain res where res: "GC_free_block_ending_at b u = Inr res" "\<And>p. res = Some p \<longleftrightarrow> free_at u p \<and> p < b \<and> p + span u p = b"
    using GC_free_block_ending_at_ok [OF bo Hb _ _ F(2)] K J by blast
  have "free_at u p \<and> p < b \<and> p + span u p = b \<longleftrightarrow> on_list L p \<and> p + span st p = b" for p
  proof
    assume p: "free_at u p \<and> p < b \<and> p + span u p = b"
    then show "on_list L p \<and> p + span st p = b" using F(1) [of p] by auto
  next
    assume p: "on_list L p \<and> p + span st p = b"
    note M = member_okD [OF W(6) [of p]]
    have "p < b" using M(1) p by linarith
    moreover have "cores u p = cores st p" using cu \<open>p < b\<close> by simp
    ultimately show "free_at u p \<and> p < b \<and> p + span u p = b"
      using M(4) p by (simp add: free_at_def span_def bsize_core)
  qed
  then show ?thesis using res by blast
qed

section \<open>The end\<close>

text \<open>The pages of the block are free, what was neither is untouched, and the invariant holds.\<close>

definition freed :: "'a block_heap_scheme \<Rightarrow> (nat \<Rightarrow> nat list) \<Rightarrow> nat \<Rightarrow> nat \<Rightarrow> 'a block_heap_scheme \<Rightarrow> (nat \<Rightarrow> nat list) \<Rightarrow> bool" where
  "freed st L b n st' L' \<longleftrightarrow> heap_inv st' L' {} \<and> GC_obj_kinds st' = GC_obj_kinds st \<and> memory_step st True st' \<and>
     region st' L' = region st L \<union> {b..<b + n} \<and>
     (\<forall>c. c \<notin> region st L \<union> {b..<b + n} \<longrightarrow> HDR st' c = HDR st c \<and> cores st' c = cores st c) \<and>
     ledger st' L' = ledger st L"

lemma merged_inv:
  assumes "heap_inv st L {}" "claim st L b n" "merging st L b n st1 L1 x r k"
    and ends: "\<not> on_list L (x + k)" "\<And>c. on_list L c \<Longrightarrow> c + span st c \<noteq> x"
    and st': "weak_ok st' L'" "memory_step st True st'" "HDR st' = HDR st1" "free_at st' x" "span st' x = k"
      "\<And>c. c \<noteq> x \<Longrightarrow> cores st' c = cores st1 c" "\<And>c. on_list L' c \<longleftrightarrow> c = x \<or> on_list L1 c"
  shows "heap_inv st' L' {}" "region st' L' = region st L \<union> {b..<b + n}"
    "c \<notin> region st L \<union> {b..<b + n} \<Longrightarrow> HDR st' c = HDR st c \<and> cores st' c = cores st c"
proof -
  note I = heap_invD [OF assms(1)] and W = weak_okD [OF heap_invD(1) [OF assms(1)]]
  let ?P = "{x..<x + k}"
  have pe: "pending st1 L1 x r k" and le: "x \<le> b" "b + n \<le> x + k" and sub: "?P \<subseteq> region st L \<union> {b..<b + n}"
    and same1: "\<And>c. c \<notin> ?P \<Longrightarrow> HDR st1 c = HDR st c \<and> cores st1 c = cores st c"
    and on1: "\<And>c. on_list L1 c \<longleftrightarrow> on_list L c \<and> c \<notin> ?P"
    using assms(3) unfolding merging_def by blast+
  note P = pendingD [OF pe]
  note K = assms(2) [unfolded claim_def]
  have n: "0 < n" using K by blast
  have same: "HDR st' c = HDR st c \<and> cores st' c = cores st c" if "c \<notin> ?P" for c
    using same1 [OF that] st'(3) st'(6) [of c] that P(5) by (cases "c = x") auto
  have inP: "HDR st' x = Hdr r" "\<And>c. c \<in> ?P \<Longrightarrow> c \<noteq> x \<Longrightarrow> HDR st' c = Nil_entry" using P(2,8) st'(3) by auto
  have on: "on_list L' c \<longleftrightarrow> c = x \<or> on_list L c \<and> c \<notin> ?P" for c using st'(7) on1 by simp
  have sp: "span st' c = span st c" if "on_list L c" "c \<notin> ?P" for c using same [OF that(2)] by (simp add: span_def bsize_core)
  have whole: "c \<notin> {d..<d + span st d}" if "on_list L d" "d \<notin> ?P" "c \<in> ?P" for c d
  proof -
    have "on_list L1 d" using on1 that by blast
    then have "d + span st1 d \<le> x \<or> x + k \<le> d" using P(9) by blast
    moreover have "span st1 d = span st d" using same1 [OF that(2)] by (simp add: span_def bsize_core)
    ultimately show ?thesis using that(3) by auto
  qed
  have other: "y \<notin> ?P" if "in_use st y h" "y \<noteq> b" for y h
  proof -
    have "y + nblocks h \<le> b \<or> b + n \<le> y" using claimD(1) [OF assms(2)] that by blast
    then have "y \<notin> {b..<b + n}" using used_size(1) [OF assms(1) that(1)] by auto
    then show ?thesis using sub region_not_used(1) [OF assms(1), of y h] that(1) by auto
  qed
  have use: "in_use st' c h \<longleftrightarrow> in_use st c h \<and> c \<noteq> b" for c h
  proof (cases "c \<in> ?P")
    case True
    then have "\<not> in_use st' c h" using inP(2) [OF True] st'(4) in_use_hdr [of st' c h] by (cases "c = x") (auto simp: in_use_def free_at_def)
    then show ?thesis using other [of c h] True by blast
  next
    case False
    moreover have "b \<in> ?P" using le n by auto
    ultimately show ?thesis using same [OF False] by (auto simp: in_use_def)
  qed
  show "heap_inv st' L' {}"
    unfolding heap_inv_def
  proof (intro conjI allI impI)
    show "weak_ok st' L'" by fact
    show "scratch_ok st'" using I(2) st'(2) by (simp add: memory_step_def supplied_def)
    show "on_list L' c \<or> c \<in> {}" if "free_at st' c" for c
    proof (cases "c \<in> ?P")
      case True
      have "c = x"
      proof (rule ccontr)
        assume "c \<noteq> x"
        then show False using inP(2) [OF True] free_at_hdr [OF that] by simp
      qed
      then show ?thesis using on by blast
    next
      case False
      then have "free_at st c" using same [OF False] that by (simp add: free_at_def)
      then show ?thesis using I(3) on False by blast
    qed
    show "used_ok st' c h" if "in_use st' c h" for c h
    proof -
      have u: "in_use st c h" "c \<noteq> b" using use that by blast+
      have "HDR st' d = HDR st d" if "c < d" "d < c + nblocks h" for d
      proof -
        have "d \<notin> region st L" using used_not_region [OF assms(1) u(1)] that by simp
        moreover have "d \<notin> {b..<b + n}" using claimD(1) [OF assms(2) u] that by auto
        ultimately show ?thesis using same sub by blast
      qed
      then show ?thesis using I(4) [OF u(1)] by (simp add: used_ok_def)
    qed
    show "\<exists>y h. in_use st' y h \<and> y < c \<and> c < y + nblocks h" if j: "HDR st' c = Jump d" for c d
    proof -
      have c: "c \<notin> ?P" using j inP by (cases "c = x") auto
      then have "HDR st c = Jump d" using same j by simp
      then obtain y h where y: "in_use st y h" "y < c" "c < y + nblocks h" using I(5) by blast
      have "y \<noteq> b" using y claimD(2) [OF assms(2) y(1)] c le by auto
      then show ?thesis using y use by blast
    qed
    show "d \<noteq> c + span st' c" if "on_list L' c" "on_list L' d" for c d
    proof (cases "c = x")
      case True
      then show ?thesis using that(2) on st'(5) ends(1) P(5) by auto
    next
      case False
      then have c: "on_list L c" "c \<notin> ?P" using that(1) on by blast+
      then show ?thesis using that(2) on I(6) [OF c(1), of d] ends(2) [OF c(1)] sp by auto
    qed
  qed
  show "region st' L' = region st L \<union> {b..<b + n}"
  proof (rule set_eqI)
    fix c
    have "c \<in> region st' L' \<longleftrightarrow> c \<in> ?P \<or> (\<exists>d. on_list L d \<and> d \<notin> ?P \<and> c \<in> {d..<d + span st d})"
      unfolding region_def using on sp st'(5) by auto
    also have "\<dots> \<longleftrightarrow> c \<in> region st L \<union> {b..<b + n}"
    proof
      assume "c \<in> ?P \<or> (\<exists>d. on_list L d \<and> d \<notin> ?P \<and> c \<in> {d..<d + span st d})"
      then show "c \<in> region st L \<union> {b..<b + n}" using sub by (auto simp: region_def)
    next
      assume c: "c \<in> region st L \<union> {b..<b + n}"
      show "c \<in> ?P \<or> (\<exists>d. on_list L d \<and> d \<notin> ?P \<and> c \<in> {d..<d + span st d})"
      proof (cases "c \<in> {b..<b + n}")
        case False
        then obtain d where d: "on_list L d" "d \<le> c" "c < d + span st d" using c by (auto simp: region_def)
        show ?thesis
        proof (cases "d \<in> ?P")
          case True
          then have "d + span st d \<le> x + k" using d(1) assms(3) unfolding merging_def by blast
          then show ?thesis using True d by auto
        qed (use d in auto)
      qed (use le in auto)
    qed
    finally show "c \<in> region st' L' \<longleftrightarrow> c \<in> region st L \<union> {b..<b + n}" .
  qed
  show "HDR st' c = HDR st c \<and> cores st' c = cores st c" if "c \<notin> region st L \<union> {b..<b + n}" using same sub that by blast
qed

lemma signed_word_pos: "0 < n \<Longrightarrow> n < 2 ^ 63 \<Longrightarrow> 0 < signed_word n"
  by (simp add: signed_word_small)

lemma merged_added:
  assumes "heap_inv st L {}" "claim st L b n" "merging st L b n st1 L1 x r k"
    and ends: "\<not> on_list L (x + k)" "\<And>c. on_list L c \<Longrightarrow> c + span st c \<noteq> x"
  shows "\<exists>st' L'. GC_add_to_fl x r (st1\<lparr>GC_large_free_bytes := GC_large_free_bytes st1 + of_nat (n * HBLKSIZE)\<rparr>) = Inr st' \<and>
    freed st L b n st' L'"
proof -
  note M = assms(3) [unfolded merging_def]
  have pe: "pending st1 L1 x r k" using M by blast
  note P = pendingD [OF pe]
  define st2 where "st2 = st1\<lparr>GC_large_free_bytes := GC_large_free_bytes st1 + of_nat (n * HBLKSIZE)\<rparr>"
  have sb: "same_blocks st1 st2" by (simp add: st2_def same_blocks_fields)
  note S = sb [unfolded same_blocks_def] and SI = same_blocks_inv [OF sb]
  have w2: "weak_ok st2 L1" using SI(1) P(1) .
  have H2: "HDR st2 x = Hdr r" using S P(2) by simp
  let ?u = "upd_hdr r (\<lambda>h. h\<lparr>hb_free := True\<rparr>) st2"
  have cu: "cores ?u = (cores st2)(x := Some (core ((hdrs st2 ! r)\<lparr>hb_free := True\<rparr>)))" by (rule cores_upd [OF weak_okD(1) [OF w2] H2])
  have "bsize st2 x = hb_sz (hdrs st2 ! r)" using H2 by (simp add: bsize_def hdr_of_eq)
  moreover have "bsize st2 x = k * HBLKSIZE" using P(3) SI(7) by (simp add: bsize_core)
  ultimately have bu: "bsize ?u x = k * HBLKSIZE" by (simp add: bsize_core cu)
  have su: "span ?u x = k" using bu by (simp add: span_def)
  have "member_ok ?u x"
    unfolding member_ok_def su bu using P(5-8) S by (auto simp: free_at_def cu)
  then obtain st' i where a: "GC_add_to_fl x r st2 = Inr st'" "relinked ?u st'" "i \<le> N_HBLK_FLS" "weak_ok st' (L1(i := x # L1 i))"
    "free_total st' (L1(i := x # L1 i)) = free_total st2 L1 + bsize st2 x"
    using weak_ok_add [OF w2 H2 P(10)] by blast
  note D = relinkedD [OF a(2)]
  let ?L = "L1(i := x # L1 i)"
  have mem: "memory_step st True st'"
  proof -
    have s: "memory_step st True st1" "memory_step st1 True st2" "memory_step st2 True ?u" using M S upd_hdr_memory by blast+
    show ?thesis by (rule memory_step_trans [OF s(1) memory_step_trans [OF s(2) memory_step_trans [OF s(3) relinked_memory [OF a(2)]]]])
  qed
  have H': "HDR st' = HDR st1" using D(1) S by (simp add: fun_eq_iff)
  have f': "free_at st' x" "span st' x = k" using D(3,4) su by (simp_all add: free_at_def cu span_def)
  have c': "cores st' c = cores st1 c" if "c \<noteq> x" for c using D(3) cu SI(7) that by simp
  have on': "on_list ?L c \<longleftrightarrow> c = x \<or> on_list L1 c" for c using on_list_add [OF a(3)] .
  note inv = merged_inv [OF assms(1-3) ends a(4) mem H' f' c' on']
  have fr: "frame st2 st'" using frame_trans [OF frame_upd_hdr frame_relinked [OF a(2)]] by blast
  have kinds: "GC_obj_kinds st' = GC_obj_kinds st" using M frameD(2) [OF fr] by (simp add: st2_def)
  have "ledger st' ?L = ledger st L"
  proof -
    have "GC_large_free_bytes st' = GC_large_free_bytes st + of_nat (n * HBLKSIZE)"
      using M frameD(1) [OF fr] by (simp add: st2_def)
    moreover have "free_total st' ?L = free_total st L + n * HBLKSIZE"
      using a(5) M SI(3,7) P(3) by (simp add: bsize_core)
    ultimately show ?thesis by (simp add: ledger_def)
  qed
  then have "freed st L b n st' ?L" using inv mem kinds by (simp add: freed_def)
  then show ?thesis using a(1) unfolding st2_def by blast
qed

text \<open>\<open>GC_freehblk\<close> removes the forwarding counts and marks the header free.\<close>

definition unused :: "nat \<Rightarrow> nat \<Rightarrow> nat \<Rightarrow> 'a block_heap_scheme \<Rightarrow> 'a block_heap_scheme" where
  "unused b r n st = upd_hdr r (\<lambda>h. h\<lparr>hb_free := True\<rparr>) (upd_hdr r (\<lambda>h. h\<lparr>hb_sz := n * HBLKSIZE\<rparr>) (GC_remove_counts b n st))"

lemma GC_freehblk_claim:
  assumes "heap_inv st L {}" "claim st L b n" "claimed st b n (unused b r n st1) r"
    and b: "HDR st1 b = Hdr r" "map_ok st1" "\<not> hb_free (hdrs st1 ! r)" "nblocks (hdrs st1 ! r) = n"
  shows "\<exists>st' L'. GC_freehblk b st1 = Inr st' \<and> freed st L b n st' L'"
proof -
  note I = heap_invD [OF assms(1)] and W = weak_okD [OF heap_invD(1) [OF assms(1)]] and K = assms(2) [unfolded claim_def]
    and E = assms(3) [unfolded claimed_def]
  define u where "u = unused b r n st1"
  have HDRu: "HDR u c = (if c = b then Hdr r else if b < c \<and> c < b + n then Nil_entry else HDR st c)"
    and cu: "c \<notin> {b..<b + n} \<Longrightarrow> cores u c = cores st c" for c
    using E by (auto simp: u_def cores_def)
  have nsz: "HBLKSIZE * OBJ_SZ_TO_BLOCKS (hb_sz (hdrs st1 ! r)) = n * HBLKSIZE" using b(4) by (simp add: nblocks_def)
  have nbd: "n * HBLKSIZE < 2 ^ 63" using K le_less_trans [OF mult_le_mono1, of n "b + n" HBLKSIZE] by simp
  have sw: "signed_word (n * HBLKSIZE) = int (n * HBLKSIZE)" "0 < n * HBLKSIZE"
    using K nbd by (simp_all add: signed_word_small)
  have m0: "merging st L b n u L b r n" using claimed_merging [OF assms(1-3)] by (simp add: u_def)
  obtain res where res: "GC_free_block_ending_at b u = Inr res" "\<And>p. res = Some p \<longleftrightarrow> on_list L p \<and> p + span st p = b"
    using claimed_previous [OF assms(1-3)] unfolding u_def by blast
  have listed: "on_list L c \<longleftrightarrow> free_at st c" for c using I(3) member_okD(4) [OF W(6)] by blast
  obtain u2 L2 k where nx: "(case HDR u (b + n) of
        Nil_entry \<Rightarrow> Inr u
      | Jump d \<Rightarrow> Inl BadArg
      | Hdr q \<Rightarrow>
          if is_free u q \<and> signed_word (hb_sz (hdrs u ! r) + hb_sz (hdrs u ! q)) > 0 then
            rbind (GC_remove_from_fl q None u) (\<lambda>st. GC_remove_header (b + n) (upd_hdr r (\<lambda>h. h\<lparr>hb_sz := hb_sz h + hb_sz (hdrs st ! q)\<rparr>) st))
          else Inr u) = Inr u2" "merging st L b n u2 L2 b r k" "\<not> on_list L (b + k)"
  proof (cases "HDR u (b + n)")
    case Nil_entry
    then have "HDR st (b + n) = Nil_entry" using HDRu K by simp
    then have "\<not> on_list L (b + n)" using listed free_at_hdr by fastforce
    then show thesis using that m0 Nil_entry by simp
  next
    case (Jump d)
    then have "HDR st (b + n) = Jump d" using HDRu K by simp
    then obtain y h where y: "in_use st y h" "y < b + n" "b + n < y + nblocks h" using I(5) by blast
    then have "y \<noteq> b" using claimD(2) [OF assms(2) y(1)] by auto
    then show thesis using claimD(1) [OF assms(2) y(1)] y used_size(1) [OF assms(1) y(1)] K by auto
  next
    case (Hdr q)
    then have q: "HDR st (b + n) = Hdr q" using HDRu K by simp
    have cn: "cores u (b + n) = cores st (b + n)" using cu by simp
    have fq: "is_free u q \<longleftrightarrow> on_list L (b + n)"
      using Hdr cn listed by (simp add: is_free_at free_at_def)
    show thesis
    proof (cases "on_list L (b + n)")
      case True
      note M = member_okD [OF W(6) [OF True]]
      have "hb_sz (hdrs u ! q) = span st (b + n) * HBLKSIZE"
        using M(2) bsize_cores [OF cn] hdr_of_eq [OF Hdr] by (simp add: bsize_def)
      moreover have "hb_sz (hdrs u ! r) = n * HBLKSIZE" using pendingD(11) m0 unfolding merging_def by blast
      moreover have "(n + span st (b + n)) * HBLKSIZE < 2 ^ 63" using le_less_trans [OF mult_le_mono1 M(7)] by simp
      ultimately have "signed_word (hb_sz (hdrs u ! r) + hb_sz (hdrs u ! q)) > 0"
        using sw(2) by (intro signed_word_pos) (simp_all add: add_mult_distrib)
      moreover obtain s1 s2 L' where "GC_remove_from_fl q None u = Inr s1"
        "GC_remove_header (b + n) (upd_hdr r (\<lambda>h. h\<lparr>hb_sz := hb_sz h + hb_sz (hdrs s1 ! q)\<rparr>) s1) = Inr s2"
        "merging st L b n s2 L' b r (n + span st (b + n))"
        using merge_next [OF heap_invD(1) [OF assms(1)] m0 True Hdr] by blast
      moreover have "\<not> on_list L (b + (n + span st (b + n)))" using I(6) [OF True] by (auto simp: add.assoc)
      ultimately show thesis using that Hdr fq True by simp
    next
      case False
      then show thesis using that m0 Hdr fq by simp
    qed
  qed
  have pe2: "pending u2 L2 b r k" using nx(2) by (simp add: merging_def)
  obtain u3 L3 x r3 k3 where pv: "(case res of
        None \<Rightarrow> Inr (b, r, u2)
      | Some prev \<Rightarrow> rbind (get_hdr u2 prev) (\<lambda>p.
          if signed_word (hb_sz (hdrs u2 ! r) + hb_sz (hdrs u2 ! p)) > 0 then
            rbind (GC_remove_from_fl p None u2) (\<lambda>st.
            rbind (GC_remove_header b (upd_hdr p (\<lambda>h. h\<lparr>hb_sz := hb_sz h + hb_sz (hdrs st ! r)\<rparr>) st)) (\<lambda>st. Inr (prev, p, st)))
          else Inr (b, r, u2))) = Inr (x, r3, u3)" "merging st L b n u3 L3 x r3 k3" "x + k3 = b + k" "\<And>c. on_list L c \<Longrightarrow> c + span st c \<noteq> x"
  proof (cases res)
    case None
    then have "on_list L c \<Longrightarrow> c + span st c \<noteq> b" for c using res(2) [of c] by auto
    then show thesis using that nx(2) None by simp
  next
    case (Some p)
    then have p: "on_list L p" "p + span st p = b" using res(2) by blast+
    note M = member_okD [OF W(6) [OF p(1)]]
    have pn: "p \<notin> {b..<b + k}" using M(1) p(2) by auto
    obtain q where q: "HDR st p = Hdr q" using M(5) by blast
    have q2: "HDR u2 p = Hdr q" "cores u2 p = cores st p" using nx(2) pn q by (auto simp: merging_def)
    have "hb_sz (hdrs u2 ! q) = span st p * HBLKSIZE" using M(2) bsize_cores [OF q2(2)] hdr_of_eq [OF q2(1)] by (simp add: bsize_def)
    moreover have "hb_sz (hdrs u2 ! r) = k * HBLKSIZE" by (rule pendingD(11) [OF pe2])
    moreover have "(k + span st p) * HBLKSIZE < 2 ^ 63"
      using le_less_trans [OF mult_le_mono1 pendingD(7) [OF pe2]] p(2) by simp
    moreover have "0 < k * HBLKSIZE" using pendingD(5) [OF pe2] by simp
    ultimately have "signed_word (hb_sz (hdrs u2 ! r) + hb_sz (hdrs u2 ! q)) > 0"
      by (intro signed_word_pos) (simp_all add: add_mult_distrib)
    moreover obtain s1 s2 L' where "GC_remove_from_fl q None u2 = Inr s1"
      "GC_remove_header b (upd_hdr q (\<lambda>h. h\<lparr>hb_sz := hb_sz h + hb_sz (hdrs s1 ! r)\<rparr>) s1) = Inr s2"
      "merging st L b n s2 L' p q (span st p + k)"
      using merge_prev [OF heap_invD(1) [OF assms(1)] nx(2) p q2(1)] by blast
    moreover have "c + span st c \<noteq> p" if "on_list L c" for c using I(6) [OF that p(1)] by simp
    ultimately show thesis using that Some q2(1) p(2) by (auto simp: get_hdr_eq)
  qed
  have "\<not> on_list L (x + k3)" using nx(3) pv(3) by simp
  then obtain st' L' where fin: "GC_add_to_fl x r3 (u3\<lparr>GC_large_free_bytes := GC_large_free_bytes u3 + of_nat (n * HBLKSIZE)\<rparr>) = Inr st'"
    "freed st L b n st' L'"
    using merged_added [OF assms(1,2) pv(2) _ pv(4)] by blast
  have addr: "(b * HBLKSIZE + n * HBLKSIZE) div HBLKSIZE = b + n" by (simp flip: add_mult_distrib)
  have hd: "get_hdr st1 b = Inr r" using b(1) by (rule get_hdr_eq)
  have nf: "\<not> is_free (upd_hdr r (\<lambda>h. h\<lparr>hb_sz := n * HBLKSIZE\<rparr>) (GC_remove_counts b n st1)) r"
    using b(3) map_ok_hdr(1) [OF b(2,1)] by (simp add: is_free_def hdrs_upd_hdr)
  have pos: "\<not> signed_word (n * HBLKSIZE) \<le> 0" unfolding sw(1) using sw(2) by linarith
  have dv: "n * HBLKSIZE div HBLKSIZE = n" by simp
  have "GC_freehblk b st1 = Inr st'"
    unfolding GC_freehblk_def hd rbind_Inr Let_def nsz addr dv
    using pos nf
    by (simp only: if_False unused_def [symmetric] u_def [symmetric] res(1) rbind_Inr nx(1) pv(1) prod.case fin(1))
  then show ?thesis using fin(2) by blast
qed

text \<open>The block in use is what \<open>GC_freehblk\<close> expects.\<close>

lemma SET_NIL:
  assumes "map_ok st"
  shows "map_ok (SET_HDR c Nil_entry st)" "HDR (SET_HDR c Nil_entry st) d = (if d = c then Nil_entry else HDR st d)"
proof -
  have i: "index_ok st" using assms by (simp add: map_ok_def)
  have "map_ok (SET_HDR c Nil_entry st) \<and> HDR (SET_HDR c Nil_entry st) d = (if d = c then Nil_entry else HDR st d)"
  proof (cases "indexed st c")
    case True
    then show ?thesis using SET_HDR_map_ok [OF assms True] HDR_SET_HDR [OF i True] by auto
  next
    case False
    then have 0: "GET_BI st c = 0" by (simp add: indexed_def)
    have "(bi_index (bis st ! 0))[c mod BOTTOM_SZ := Nil_entry] = bi_index (bis st ! 0)"
      using index_okD(3) [OF i] by (simp add: list_update_same_conv BOTTOM_SZ_def)
    then have "SET_HDR c Nil_entry st = st" using 0 by (simp add: SET_HDR_def upd_bi_def)
    then show ?thesis using assms HDR_not_indexed [OF i False] by auto
  qed
  then show "map_ok (SET_HDR c Nil_entry st)" "HDR (SET_HDR c Nil_entry st) d = (if d = c then Nil_entry else HDR st d)" by simp_all
qed

lemma set_nils_nil: "map_ok st \<Longrightarrow> map_ok (set_nils bs st) \<and> HDR (set_nils bs st) c = (if c \<in> set bs then Nil_entry else HDR st c)"
proof (induction bs arbitrary: st)
  case (Cons b bs)
  show ?case using Cons.IH [OF SET_NIL(1) [OF Cons.prems]] SET_NIL(2) [OF Cons.prems] by auto
qed simp

lemma remove_counts_nil:
  assumes "map_ok st"
  shows "map_ok (GC_remove_counts b n st)" "HDR (GC_remove_counts b n st) c = (if b < c \<and> c < b + n then Nil_entry else HDR st c)"
  using set_nils_nil [OF assms] by (auto simp: GC_remove_counts_def)

lemma unused_claimed:
  assumes "base_ok st1" "HDR st1 b = Hdr r" "0 < n"
    and "\<And>c. c \<notin> {b..<b + n} \<Longrightarrow> HDR st1 c = HDR st c \<and> hdr_of st1 c = hdr_of st c"
    and "GC_hblkfreelist st1 = GC_hblkfreelist st" "GC_free_bytes st1 = GC_free_bytes st" "GC_obj_kinds st1 = GC_obj_kinds st"
      "GC_large_free_bytes st1 = GC_large_free_bytes st" "memory_step st True st1"
  shows "claimed st b n (unused b r n st1) r"
proof -
  have ok: "map_ok st1" using assms(1) by (simp add: base_ok_def)
  let ?st1 = "GC_remove_counts b n st1" and ?f = "\<lambda>h. h\<lparr>hb_sz := n * HBLKSIZE\<rparr>" and ?g = "\<lambda>h. h\<lparr>hb_free := True\<rparr>"
  let ?u = "unused b r n st1"
  note R = remove_counts_nil [OF ok, of b n]
  have H1: "HDR ?st1 b = Hdr r" using R(2) assms(2) by simp
  have of1: "hdr_of ?st1 c = (if b < c \<and> c < b + n then None else hdr_of st1 c)" for c
    by (simp add: hdr_of_def R(2) split: entry.split)
  have H2: "map_ok (upd_hdr r ?f ?st1)" "HDR (upd_hdr r ?f ?st1) b = Hdr r" using R(1) H1 by simp_all
  have of3: "hdr_of ?u = (hdr_of ?st1)(b \<mapsto> ?g (?f (hdrs st1 ! r)))"
    using hdr_of_upd [OF H2, of ?g] hdr_of_upd [OF R(1) H1, of ?f] map_ok_hdr(1) [OF R(1) H1]
    by (simp add: unused_def hdrs_upd_hdr)
  have more: "headers.more ?u = headers.more st1" by (simp add: unused_def)
  have "memory_step st1 True ?st1" by (simp add: GC_remove_counts_def folds_memory)
  then have mem: "memory_step st True ?u"
    unfolding unused_def using memory_step_trans [OF assms(9) memory_step_trans [OF _ memory_step_trans [OF upd_hdr_memory upd_hdr_memory]]] by blast
  have "HDR ?u c = (if c = b then Hdr r else if b < c \<and> c < b + n then Nil_entry else HDR st c)" for c
    using R(2) assms(2) assms(4) [of c] by (auto simp: unused_def)
  moreover have "hdr_of ?u c = hdr_of st c" if "c \<notin> {b..<b + n}" for c
    using of3 of1 assms(3) assms(4) [OF that] that by auto
  moreover have "base_ok ?u" using base_ok_more [OF assms(1) _ more] R(1) by (simp add: unused_def)
  moreover have "free_at ?u b" "bsize ?u b = n * HBLKSIZE" by (simp_all add: free_at_def cores_def bsize_def of3)
  ultimately show ?thesis using mem more_heap [OF more] assms(5-8) by (simp add: claimed_def)
qed

lemma GC_freehblk_ok:
  assumes "heap_inv st L {}" "in_use st b g"
  shows "\<exists>st' L'. GC_freehblk b st = Inr st' \<and> freed st L b (nblocks g) st' L'"
proof -
  note W = weak_okD [OF heap_invD(1) [OF assms(1)]]
  obtain r where r: "HDR st b = Hdr r" using in_use_hdr [OF assms(2)] by blast
  then have g: "g = core (hdrs st ! r)" "\<not> hb_free (hdrs st ! r)" using assms(2) by (auto simp: in_use_def cores_eq)
  have "claimed st b (nblocks g) (unused b r (nblocks g) st) r"
    by (rule unused_claimed [OF W(5) r used_size(1) [OF assms]]) (simp_all add: memory_step_same)
  then show ?thesis using GC_freehblk_claim [OF assms(1) used_claim [OF assms] _ r W(1) g(2)] by (simp add: g(1) nblocks_def)
qed

end
