(* ===== verification/GC_Expand.thy ===== *)
theory GC_Expand
  imports GC_Coalesce
begin

unbundle bit_operations_syntax

text \<open>
  Growing the heap (\<open>GC_add_to_heap\<close>, \<open>GC_expand_hp_inner\<close> and \<open>GC_expand_hp\<close> of
  \<^verbatim>\<open>libs/gc/alloc.c\<close>): memory of the operating system becomes one free block. Built without
  \<open>USE_PROC_FOR_LIBRARIES\<close>, so \<open>GC_add_to_our_memory\<close> does nothing; the collector is initialised.
\<close>

section \<open>Memory for the heap\<close>

definition MAX_HEAP_SECTS :: nat where "MAX_HEAP_SECTS = 1024"

record growing_heap = block_heap +
  GC_page_size :: "64 word"
  GC_max_heapsize :: "64 word"
  GC_least_plausible_heap_addr :: "64 word"
  GC_greatest_plausible_heap_addr :: "64 word"
  GC_last_heap_addr :: "64 word"
  GC_prev_heap_addr :: "64 word"

text \<open>Memory near the address 0 is not used: the first block and the number of bytes that are left.\<close>

function skip_low :: "nat \<Rightarrow> nat \<Rightarrow> nat \<times> nat" where
  "skip_low p bytes =
     (if p * HBLKSIZE \<le> HBLKSIZE then
        let p = p + 1; bytes = (bytes + (2 ^ 64 - HBLKSIZE)) mod 2 ^ 64
        in if bytes = 0 then (p, 0) else skip_low p bytes
      else (p, bytes))"
  by pat_completeness auto
termination
  by (relation "measure (\<lambda>(p, bytes). 2 - p)") (auto simp: HBLKSIZE_def)

declare skip_low.simps [simp del]

definition GC_add_to_heap :: "nat \<Rightarrow> nat \<Rightarrow> 'a growing_heap_scheme \<Rightarrow> 'a growing_heap_scheme res" where
  "GC_add_to_heap p bytes st =
     (if length (GC_heap_sects st) \<ge> MAX_HEAP_SECTS then
        Inl (Abort ''Too many heap sections: Increase MAXHINCR or MAX_HEAP_SECTS'')
      else
        let (p, bytes) = skip_low p bytes
        in if bytes = 0 then Inr st
           else
             let endp = (p * HBLKSIZE + bytes) mod 2 ^ 64;
                 wrapped = endp \<le> p * HBLKSIZE;
                 bytes = (if wrapped then bytes - HBLKSIZE else bytes);
                 endp = (if wrapped then (endp + (2 ^ 64 - HBLKSIZE)) mod 2 ^ 64 else endp)
             in if bytes = 0 then Inr st
                else
                  let (q, st) = GC_install_header p st
                  in case q of
                       None \<Rightarrow> Inr st
                     | Some q \<Rightarrow>
                         let st = st\<lparr>GC_heap_sects := GC_heap_sects st @ [\<lparr>hs_start = p * HBLKSIZE, hs_bytes = bytes\<rparr>]\<rparr>;
                             st = upd_hdr q (\<lambda>h. h\<lparr>hb_sz := bytes, hb_free := False, hb_ignore_off_page := False\<rparr>) st
                         in rbind (GC_freehblk p st) (\<lambda>st.
                            let st = st\<lparr>GC_heapsize := (GC_heapsize st + bytes) mod 2 ^ 64\<rparr>;
                                st = (if of_nat (p * HBLKSIZE) \<le> GC_least_plausible_heap_addr st \<or> GC_least_plausible_heap_addr st = 0
                                      then st\<lparr>GC_least_plausible_heap_addr := of_nat (p * HBLKSIZE) - 8\<rparr> else st)
                            in Inr (if of_nat (p * HBLKSIZE + bytes) \<ge> GC_greatest_plausible_heap_addr st
                                    then st\<lparr>GC_greatest_plausible_heap_addr := of_nat endp\<rparr> else st)))"

text \<open>The argument is a number of blocks; the result tells whether the heap was expanded.\<close>

definition expansion_bytes :: "'a growing_heap_scheme \<Rightarrow> 64 word \<Rightarrow> 64 word" where
  "expansion_bytes st n =
     (let n = (if n < of_nat MINHINCR then of_nat MINHINCR else n);
          bytes = n * of_nat HBLKSIZE;
          mask = GC_page_size st - 1
      in (bytes + mask) AND (NOT mask))"

definition plausible_limits :: "64 word \<Rightarrow> 64 word \<Rightarrow> 64 word \<Rightarrow> 'a growing_heap_scheme \<Rightarrow> 'a growing_heap_scheme" where
  "plausible_limits space bytes expansion_slop st =
     (if GC_last_heap_addr st = 0 \<and> \<not> bit space 63 \<or> GC_last_heap_addr st \<noteq> 0 \<and> GC_last_heap_addr st < space then
        let new_limit = space + bytes + expansion_slop
        in if new_limit > space
           then st\<lparr>GC_greatest_plausible_heap_addr := max (GC_greatest_plausible_heap_addr st) new_limit\<rparr> else st
      else
        let new_limit = space - expansion_slop
        in if new_limit < space
           then st\<lparr>GC_least_plausible_heap_addr := min (GC_least_plausible_heap_addr st) (space - expansion_slop)\<rparr> else st)"

definition GC_expand_hp_inner :: "64 word \<Rightarrow> 'a growing_heap_scheme \<Rightarrow> (bool \<times> 'a growing_heap_scheme) res" where
  "GC_expand_hp_inner n st =
     (let bytes = expansion_bytes st n
      in if GC_max_heapsize st \<noteq> 0 \<and> of_nat (GC_heapsize st) + bytes > GC_max_heapsize st then Inr (False, st)
         else
           let (space, st) = GET_MEM (unat bytes) st
           in if space = 0 then Inr (False, st)
              else
                let expansion_slop = min_bytes_allocd st + of_nat (4 * MAXHINCR * HBLKSIZE);
                    st = plausible_limits (of_nat space) bytes expansion_slop st;
                    st = st\<lparr>GC_prev_heap_addr := GC_last_heap_addr st, GC_last_heap_addr := of_nat space\<rparr>
                in rbind (GC_add_to_heap (space div HBLKSIZE) (unat bytes) st) (\<lambda>st.
                   let size = of_nat (GC_heapsize st);
                       at = size + expansion_slop - of_nat (2 * MAXHINCR * HBLKSIZE)
                   in Inr (True, st\<lparr>GC_collect_at_heapsize := (if at < size then - 1 else at)\<rparr>)))"

definition GC_expand_hp :: "64 word \<Rightarrow> 'a growing_heap_scheme \<Rightarrow> (bool \<times> 'a growing_heap_scheme) res" where
  "GC_expand_hp bytes st =
     rbind (GC_expand_hp_inner (bytes div of_nat HBLKSIZE) st) (\<lambda>(result, st).
       Inr (result, if result then st\<lparr>GC_requested_heapsize := GC_requested_heapsize st + bytes\<rparr> else st))"

section \<open>The heap as a set of pages\<close>

text \<open>Between two operations, while there was scratch memory: no free block is lost, and
  \<open>GC_large_free_bytes\<close> is the number of free bytes.\<close>

definition heap_ok :: "'a block_heap_scheme \<Rightarrow> bool" where
  "heap_ok st \<longleftrightarrow> (\<exists>L. heap_inv st L {} \<and> ledger st L = 0)"

definition free_pages :: "'a headers_scheme \<Rightarrow> nat set" where
  "free_pages st = {c. \<exists>b. free_at st b \<and> b \<le> c \<and> c < b + span st b}"

text \<open>The blocks in use, with their headers.\<close>

definition used_blocks :: "'a headers_scheme \<Rightarrow> nat \<Rightarrow> hdr option" where
  "used_blocks st b = (case cores st b of None \<Rightarrow> None | Some h \<Rightarrow> if hb_free h then None else Some h)"

lemma used_blocks_iff: "used_blocks st b = Some h \<longleftrightarrow> in_use st b h"
  by (auto simp: used_blocks_def in_use_def split: option.splits)

lemma region_free: "heap_inv st L {} \<Longrightarrow> region st L = free_pages st"
  using heap_invD(3) member_okD(4) [OF weak_okD(6) [OF heap_invD(1)]] unfolding region_def free_pages_def by blast

lemma heap_okI: "heap_inv st L {} \<Longrightarrow> ledger st L = 0 \<Longrightarrow> heap_ok st"
  by (auto simp: heap_ok_def)

lemma same_blocksI:
  fixes st st' :: "'a block_heap_scheme"
  assumes "bis st' = bis st" "top_index st' = top_index st" "all_bis st' = all_bis st" "all_bis_end st' = all_bis_end st"
    "hdrs st' = hdrs st" "hdr_free_list st' = hdr_free_list st" "scratch_free st' = scratch_free st" "scratch_end st' = scratch_end st"
    "os_mem st' = os_mem st" "tables_ok st' = tables_ok st" "layouts_ok st' = layouts_ok st"
    "GC_hblkfreelist st' = GC_hblkfreelist st" "GC_free_bytes st' = GC_free_bytes st" "GC_obj_kinds st' = GC_obj_kinds st"
  shows "same_blocks st st'"
  using assms HDR_cong [OF assms(1,2)] hdr_of_cong [OF assms(1,2,5)] map_ok_cong [OF assms(1-6)] memory_step_same [OF assms(7-9)]
  by (simp add: same_blocks_def base_ok_def)

lemma same_blocks_trans: "same_blocks st st1 \<Longrightarrow> same_blocks st1 st2 \<Longrightarrow> same_blocks st st2"
  unfolding same_blocks_def by (auto intro: memory_step_trans)

lemma freed_same:
  assumes "freed st L b n st1 L'" "same_blocks st1 st2" "GC_large_free_bytes st2 = GC_large_free_bytes st1"
  shows "freed st L b n st2 L'"
proof -
  note S = assms(2) [unfolded same_blocks_def] and SI = same_blocks_inv [OF assms(2)] and F = assms(1) [unfolded freed_def]
  have "memory_step st True st2" using F S memory_step_trans by blast
  then show ?thesis using F S SI assms(3) by (simp add: freed_def ledger_def)
qed

section \<open>Adding memory\<close>

lemma skip_low_high: "2 \<le> p \<Longrightarrow> skip_low p bytes = (p, bytes)"
  by (subst skip_low.simps) (simp add: HBLKSIZE_def)

lemma GC_add_to_heap_ok:
  fixes st :: "'a growing_heap_scheme"
  assumes "heap_inv st L {}" "length (GC_heap_sects st) < MAX_HEAP_SECTS"
    and p: "2 \<le> p" "0 < n" "(p + n) * HBLKSIZE < 2 ^ 63" "\<And>c. c \<in> {p..<p + n} \<Longrightarrow> HDR st c = Nil_entry"
      "region st L \<inter> {p..<p + n} = {}"
  shows "\<exists>st'. GC_add_to_heap p (n * HBLKSIZE) st = Inr st' \<and>
    ((\<exists>L'. freed st L p n st' L') \<or> same_blocks st st' \<and> GC_large_free_bytes st' = GC_large_free_bytes st \<and> os_mem st' = [])"
proof -
  note I = heap_invD [OF assms(1)] and W = weak_okD [OF heap_invD(1) [OF assms(1)]]
  have K: "claim st L p n" by (rule fresh_claim [OF assms(1) p(4,5,2) _ p(3)]) (use p(1) in auto)
  have sum: "p * HBLKSIZE + n * HBLKSIZE < 2 ^ 63" "0 < n * HBLKSIZE" using p(2,3) by (simp_all add: add_mult_distrib)
  have nw: "(p * HBLKSIZE + n * HBLKSIZE) mod 2 ^ 64 = p * HBLKSIZE + n * HBLKSIZE" "\<not> p * HBLKSIZE + n * HBLKSIZE \<le> p * HBLKSIZE"
    using sum by simp_all
  obtain q st1 where ins: "GC_install_header p st = (q, st1)" by fastforce
  note IH = GC_install_header_hdr [OF W(1) ins] and IM = GC_install_header_more(1) [OF ins] and mem = GC_install_header_memory [OF ins]
    and ok1 = GC_install_header_ok(1) [OF W(1) ins]
  define tail where "tail = (\<lambda>st :: 'a growing_heap_scheme.
      let st = st\<lparr>GC_heapsize := (GC_heapsize st + n * HBLKSIZE) mod 2 ^ 64\<rparr>;
          st = (if of_nat (p * HBLKSIZE) \<le> GC_least_plausible_heap_addr st \<or> GC_least_plausible_heap_addr st = 0
                then st\<lparr>GC_least_plausible_heap_addr := of_nat (p * HBLKSIZE) - 8\<rparr> else st)
      in if of_nat (p * HBLKSIZE + n * HBLKSIZE) \<ge> GC_greatest_plausible_heap_addr st
         then st\<lparr>GC_greatest_plausible_heap_addr := of_nat (p * HBLKSIZE + n * HBLKSIZE)\<rparr> else st)"
  define pre where "pre = (\<lambda>(q, st :: 'a growing_heap_scheme). upd_hdr q (\<lambda>h. h\<lparr>hb_sz := n * HBLKSIZE, hb_free := False, hb_ignore_off_page := False\<rparr>)
      (st\<lparr>GC_heap_sects := GC_heap_sects st @ [\<lparr>hs_start = p * HBLKSIZE, hs_bytes = n * HBLKSIZE\<rparr>]\<rparr>))"
  have eq: "GC_add_to_heap p (n * HBLKSIZE) st = (case q of None \<Rightarrow> Inr st1
      | Some q \<Rightarrow> rbind (GC_freehblk p (pre (q, st1))) (\<lambda>st. Inr (tail st)))"
    using assms(2) sum(2) unfolding GC_add_to_heap_def Let_def skip_low_high [OF p(1)] prod.case nw ins tail_def pre_def
    by (simp split: option.split)
  show ?thesis
  proof (cases q)
    case None
    have "same_blocks st st1" "GC_large_free_bytes st1 = GC_large_free_bytes st"
      using install_fails_same [OF W(5)] ins None by blast+
    moreover have "os_mem st1 = []" using mem None I(2) by (simp add: memory_step_def)
    ultimately show ?thesis using eq None by auto
  next
    case (Some r)
    define st2 where "st2 = st1\<lparr>GC_heap_sects := GC_heap_sects st1 @ [\<lparr>hs_start = p * HBLKSIZE, hs_bytes = n * HBLKSIZE\<rparr>]\<rparr>"
    let ?f = "\<lambda>h. h\<lparr>hb_sz := n * HBLKSIZE, hb_free := False, hb_ignore_off_page := False\<rparr>"
    define st3 where "st3 = upd_hdr r ?f st2"
    have H1: "HDR st1 = (HDR st)(p := Hdr r)" "hdr_of st1 c = hdr_of st c" if "c \<noteq> p" for c using IH Some that by auto
    have sb: "same_blocks st1 st2" "GC_large_free_bytes st2 = GC_large_free_bytes st1"
      by (auto simp: st2_def tables_ok_def layouts_ok_def intro!: same_blocksI)
    note S = sb(1) [unfolded same_blocks_def]
    have base1: "base_ok st1" using base_ok_more [OF W(5) ok1 IM] .
    have base2: "base_ok st2" using S base1 by simp
    have H2: "HDR st2 p = Hdr r" using S IH Some by simp
    have ok2: "map_ok st2" using base2 by (simp add: base_ok_def)
    have more3: "headers.more st3 = headers.more st2" by (simp add: st3_def)
    have base3: "base_ok st3" using base_ok_more [OF base2 _ more3] ok2 by (simp add: st3_def)
    have of3: "hdr_of st3 = (hdr_of st2)(p \<mapsto> ?f (hdrs st2 ! r))" using hdr_of_upd [OF ok2 H2, of ?f] by (simp add: st3_def)
    have H3: "HDR st3 p = Hdr r" "hdrs st3 ! r = ?f (hdrs st2 ! r)"
      using H2 map_ok_hdr(1) [OF ok2 H2] by (simp_all add: st3_def hdrs_upd_hdr)
    have mem3: "memory_step st True st3"
    proof -
      have "memory_step st True st1" "memory_step st1 True st2" "memory_step st2 True st3"
        using mem Some S by (simp_all add: st3_def upd_hdr_memory)
      then show ?thesis using memory_step_trans by blast
    qed
    have out: "HDR st3 c = HDR st c \<and> hdr_of st3 c = hdr_of st c" if "c \<notin> {p..<p + n}" for c
    proof -
      have "c \<noteq> p" using that p(2) by auto
      then show ?thesis using H1 [of c] S of3 by (simp add: st3_def)
    qed
    have "claimed st p n (unused p r n st3) r"
      by (rule unused_claimed [OF base3 H3(1) p(2) out _ _ _ _ mem3])
        (use more_heap [OF more3] S sb(2) more_heap [OF IM] in simp_all)
    moreover have "nblocks (hdrs st3 ! r) = n"
      using sum by (simp add: H3(2) nblocks_def OBJ_SZ_TO_BLOCKS_def HBLKSIZE_def)
    ultimately obtain st4 L' where st4: "GC_freehblk p st3 = Inr st4" "freed st L p n st4 L'"
      using GC_freehblk_claim [OF assms(1) K _ H3(1)] base3 H3(2) by (auto simp: base_ok_def)
    have "same_blocks st4 (tail st4)" "GC_large_free_bytes (tail st4) = GC_large_free_bytes st4"
      by (auto simp: tail_def Let_def tables_ok_def layouts_ok_def intro!: same_blocksI)
    then have "freed st L p n (tail st4) L'" using freed_same [OF st4(2)] by blast
    moreover have "pre (r, st1) = st3" by (simp add: pre_def st3_def st2_def)
    ultimately show ?thesis using eq Some st4(1) by auto
  qed
qed

end
