(* ===== verification/GC_Live.thy ===== *)
theory GC_Live
  imports GC_Expand
begin

text \<open>
  When an allocation succeeds: for objects whose placement the black lists do not restrict, the
  search misses no free block that is large enough.
\<close>

section \<open>The search\<close>

text \<open>Kinds and sizes for which the black lists are not consulted.\<close>

definition unlisted :: "nat \<Rightarrow> nat \<Rightarrow> bool" where
  "unlisted kind m \<longleftrightarrow> IS_UNCOLLECTABLE kind \<or> kind = PTRFREE \<and> m * HBLKSIZE \<le> MAX_BLACK_LIST_ALLOC"

text \<open>A block of \<open>k\<close> pages will do for \<open>m\<close> pages if it may be split.\<close>

definition suits :: "bool \<Rightarrow> nat \<Rightarrow> nat \<Rightarrow> bool" where
  "suits may_split m k \<longleftrightarrow> k = m \<or> may_split \<and> m < k"

lemma better_next_True:
  assumes "heap_inv st L B" "n \<le> N_HBLK_FLS" "L n = xs @ b # ys" "HDR st b = Hdr r" "m * HBLKSIZE < 2 ^ 63"
    and "better_next (m * HBLKSIZE) r st = Inr True"
  shows "\<exists>y zs. ys = y # zs \<and> m \<le> span st y"
proof (cases ys)
  case Nil
  then show ?thesis using assms(6) list_member(6) [OF assms(1-4)] by (simp add: better_next_def)
next
  case (Cons y zs)
  have Ly: "L n = (xs @ [b]) @ y # zs" using assms(3) Cons by simp
  have "on_list L y" using assms(2) Ly by (auto simp: on_list_def)
  then have M: "member_ok st y" using weak_okD(6) [OF heap_invD(1) [OF assms(1)]] by blast
  obtain q where q: "HDR st y = Hdr q" using member_okD(5) [OF M] by blast
  note l = list_member [OF assms(1,2) Ly q]
  have "signed_word (hb_sz (hdrs st ! q)) \<ge> signed_word (m * HBLKSIZE)"
    using assms(6) list_member(6) [OF assms(1-4)] Cons member_okD(3) [OF M] q
    by (auto simp: better_next_def get_hdr_eq Let_def split: if_splits)
  then have "m * HBLKSIZE \<le> span st y * HBLKSIZE" using l(4) assms(5) by (simp only: signed_word_small l(3) of_nat_le_iff)
  then show ?thesis using Cons by simp
qed

lemma try_unlisted:
  assumes "heap_inv st L B" "n \<le> N_HBLK_FLS" "L n = xs @ b # ys" "HDR st b = Hdr r" "0 < m" "m * HBLKSIZE < 2 ^ 63" "unlisted kind m"
  shows "try_block (m * HBLKSIZE) kind ign n split b r st = Inr (Skip (hd0 ys 0), st) \<and>
      (suits split m (span st b) \<longrightarrow> (\<exists>c\<in>set ys. suits split m (span st c))) \<or>
    suits split m (span st b) \<and>
      (\<exists>h st'. try_block (m * HBLKSIZE) kind ign n split b r st = Inr (Take h r, st') \<and> found st L B m h r st')"
proof -
  note l = list_member [OF assms(1-4)]
  obtain v where v: "better_next (m * HBLKSIZE) r st = Inr v" using better_next_ok [OF assms(1-4)] by blast
  have sw: "signed_word (hb_sz (hdrs st ! r)) < signed_word (m * HBLKSIZE) \<longleftrightarrow> span st b < m"
    using l(4) assms(6) by (simp add: signed_word_small l(3) not_le)
  have eq: "hb_sz (hdrs st ! r) = m * HBLKSIZE \<longleftrightarrow> span st b = m" by (simp add: l(3))
  have tst: "\<not> (\<not> IS_UNCOLLECTABLE kind \<and> (kind \<noteq> PTRFREE \<or> m * HBLKSIZE > MAX_BLACK_LIST_ALLOC))"
    using assms(7) by (auto simp: unlisted_def)
  have tb: "try_block (m * HBLKSIZE) kind ign n split b r st =
      (if span st b < m \<or> span st b \<noteq> m \<and> \<not> split \<or> span st b \<noteq> m \<and> v then Inr (Skip (hd0 ys 0), st)
       else take_part b r (m * HBLKSIZE) n st)"
    using v unfolding try_block_def Let_def if_not_P [OF tst] by (simp add: sw eq l(6))
  show ?thesis
  proof (cases "span st b < m \<or> span st b \<noteq> m \<and> \<not> split \<or> span st b \<noteq> m \<and> v")
    case True
    have "\<exists>c\<in>set ys. suits split m (span st c)" if "suits split m (span st b)"
    proof -
      have "v" "split" "m < span st b" using True that by (auto simp: suits_def)
      then obtain y zs where "ys = y # zs" "m \<le> span st y" using better_next_True [OF assms(1-4,6)] v by auto
      then show ?thesis using \<open>split\<close> by (auto simp: suits_def)
    qed
    then show ?thesis using tb True by simp
  next
    case False
    then have "suits split m (span st b)" "m \<le> span st b" by (auto simp: suits_def)
    then show ?thesis using tb False take_part_ok [OF assms(1-5)] by auto
  qed
qed

lemma search_unlisted:
  assumes "heap_inv st L B" "n \<le> N_HBLK_FLS" "L n = xs @ ys" "length ys < k" "0 < m" "m * HBLKSIZE < 2 ^ 63" "unlisted kind m"
  shows "if \<exists>c\<in>set ys. suits split m (span st c)
    then \<exists>h r st'. search_list k (m * HBLKSIZE) kind ign n split (hd0 ys 0) st = Inr (h, r, st') \<and> found st L B m h r st'
    else search_list k (m * HBLKSIZE) kind ign n split (hd0 ys 0) st = Inr (0, 0, st)"
  using assms(3,4)
proof (induction k arbitrary: xs ys)
  case (Suc k)
  show ?case
  proof (cases ys)
    case (Cons b zs)
    have Ln: "L n = xs @ b # zs" "L n = (xs @ [b]) @ zs" using Suc.prems(1) Cons by simp_all
    have "on_list L b" using assms(2) Ln by (auto simp: on_list_def)
    then obtain r where r: "HDR st b = Hdr r" "b \<noteq> 0"
      using member_okD(3,5) weak_okD(6) [OF heap_invD(1) [OF assms(1)]] by blast
    have IH: "if \<exists>c\<in>set zs. suits split m (span st c)
      then \<exists>h r st'. search_list k (m * HBLKSIZE) kind ign n split (hd0 zs 0) st = Inr (h, r, st') \<and> found st L B m h r st'
      else search_list k (m * HBLKSIZE) kind ign n split (hd0 zs 0) st = Inr (0, 0, st)"
      by (rule Suc.IH [OF Ln(2)]) (use Suc.prems(2) Cons in simp)
    from try_unlisted [OF assms(1,2) Ln(1) r(1) assms(5-7), of ign split] show ?thesis
    proof
      assume t: "try_block (m * HBLKSIZE) kind ign n split b r st = Inr (Skip (hd0 zs 0), st) \<and>
        (suits split m (span st b) \<longrightarrow> (\<exists>c\<in>set zs. suits split m (span st c)))"
      then have eq: "search_list (Suc k) (m * HBLKSIZE) kind ign n split (hd0 ys 0) st = search_list k (m * HBLKSIZE) kind ign n split (hd0 zs 0) st"
        using r Cons by (simp add: get_hdr_eq)
      have "(\<exists>c\<in>set ys. suits split m (span st c)) \<longleftrightarrow> (\<exists>c\<in>set zs. suits split m (span st c))" using t Cons by auto
      then show ?thesis using IH unfolding eq by simp
    next
      assume "suits split m (span st b) \<and>
        (\<exists>h st'. try_block (m * HBLKSIZE) kind ign n split b r st = Inr (Take h r, st') \<and> found st L B m h r st')"
      then show ?thesis using r Cons by (auto simp: get_hdr_eq)
    qed
  qed simp
qed simp

section \<open>Allocation\<close>

lemma nth_unlisted:
  assumes "heap_inv st L B" "n \<le> N_HBLK_FLS" "kind < length (GC_obj_kinds st)"
    and sz: "0 < sz" "sz + (HBLKSIZE - 1) < 2 ^ 64" "OBJ_SZ_TO_BLOCKS sz * HBLKSIZE < 2 ^ 63"
    and "unlisted kind (OBJ_SZ_TO_BLOCKS sz)"
  shows "if \<exists>c\<in>set (L n). suits split (OBJ_SZ_TO_BLOCKS sz) (span st c)
    then \<exists>h st'. GC_allochblk_nth sz kind ign n split st = Inr (h, st') \<and> (h = 0 \<longrightarrow> os_mem st' = [])
    else GC_allochblk_nth sz kind ign n split st = Inr (0, st)"
proof -
  note W = weak_okD [OF heap_invD(1) [OF assms(1)]] and D = lists_okD [OF weak_okD(4) [OF heap_invD(1) [OF assms(1)]] assms(2)]
  define m where "m = OBJ_SZ_TO_BLOCKS sz"
  have m: "0 < m" "m * HBLKSIZE < 2 ^ 63" using sz by (simp_all add: m_def OBJ_SZ_TO_BLOCKS_def HBLKSIZE_def)
  have len: "length (L n) < length (hdrs st) + 1" using dlseg_length [OF W(1) D(4,5)] by simp
  have hd: "GC_hblkfreelist st ! n = hd0 (L n) 0" using dlseg_start [OF D(4)] .
  note S = search_unlisted [OF assms(1,2), of "[]" "L n" "length (hdrs st) + 1" m kind split ign, OF _ len m assms(7) [folded m_def], simplified]
  note F = allochblk_nth_finish [OF m_def, of kind ign n split st, unfolded hd]
  show ?thesis
  proof (cases "\<exists>c\<in>set (L n). suits split m (span st c)")
    case False
    then show ?thesis using S F by (auto simp: m_def)
  next
    case True
    then obtain h r st1 where s: "search_list (length (hdrs st) + 1) (m * HBLKSIZE) kind ign n split (hd0 (L n) 0) st = Inr (h, r, st1)"
      "found st L B m h r st1" using S by auto
    obtain st0 L0 b hh m' L' where f: "heap_inv st0 L0 B" "progress st L st0 L0" "on_list L0 b" "carved st0 L0 b hh m' st1 L'"
      "memory_step st0 (h \<noteq> 0) st1" "h = hh \<and> m' = m \<and> HDR st1 h = Hdr r \<or> h = 0" using s(2) unfolding found_def by blast
    show ?thesis
    proof (cases "h = 0")
      case h: True
      have "os_mem st1 = []" using f(5) h heap_invD(2) [OF f(1)] by (simp add: memory_step_def)
      then show ?thesis using True F s(1) h by (simp add: m_def)
    next
      case h: False
      then have g: "carved st0 L0 b h m st1 L'" "HDR st1 h = Hdr r" using f(4,6) by auto
      have kind: "kind < length (GC_obj_kinds st0)" using f(2) assms(3) by (simp add: progress_def)
      obtain h' st' where "finish m sz kind ign h r st1 = Inr (h', st')" "h' = 0 \<longrightarrow> os_mem st' = []"
        using finish_ok [OF f(1,3) g(1) memory_step_weaken [OF f(5)] g(2) m_def sz(1,2) kind] h by blast
      then show ?thesis using True F s(1) h by (auto simp: m_def)
    qed
  qed
qed

lemma alloc_result_memory: "alloc_result st L B sz kind ign h st' \<Longrightarrow> os_mem st = [] \<Longrightarrow> os_mem st' = []"
  by (auto simp: alloc_result_def alloc_step_def memory_step_def supplied_def)

lemma try_lists_unlisted:
  assumes "heap_inv st L B" "\<forall>i\<in>set is. i \<le> N_HBLK_FLS" "kind < length (GC_obj_kinds st)"
    and sz: "0 < sz" "sz + (HBLKSIZE - 1) < 2 ^ 64" "OBJ_SZ_TO_BLOCKS sz * HBLKSIZE < 2 ^ 63"
    and "unlisted kind (OBJ_SZ_TO_BLOCKS sz)" "j \<in> set is" "c \<in> set (L j)" "OBJ_SZ_TO_BLOCKS sz \<le> span st c"
  shows "\<exists>h st'. try_lists sz kind ign is st = Inr (h, st') \<and> (h = 0 \<longrightarrow> os_mem st' = [])"
  using assms(2,8)
proof (induction "is")
  case (Cons i js)
  let ?found = "\<exists>c\<in>set (L i). suits True (OBJ_SZ_TO_BLOCKS sz) (span st c)"
  have i: "i \<le> N_HBLK_FLS" using Cons.prems(1) by simp
  note N = nth_unlisted [OF assms(1) i assms(3) sz assms(7), of True ign]
  show ?case
  proof (cases ?found)
    case True
    then obtain h st1 where h: "GC_allochblk_nth sz kind ign i True st = Inr (h, st1)" "h = 0 \<longrightarrow> os_mem st1 = []" using N by auto
    obtain L1 B1 where a: "alloc_step st L B st1 L1 B1"
      using GC_allochblk_nth_ok [OF assms(1) i assms(3) sz, of ign True] h(1) by (auto simp: alloc_result_def)
    have I1: "heap_inv st1 L1 B1" "\<forall>i\<in>set js. i \<le> N_HBLK_FLS" "kind < length (GC_obj_kinds st1)"
      using a Cons.prems(1) assms(3) by (simp_all add: alloc_step_def)
    obtain h' st' where "try_lists sz kind ign js st1 = Inr (h', st')" "alloc_result st1 L1 B1 sz kind ign h' st'"
      using try_lists_ok [OF I1 sz] by blast
    then show ?thesis using h alloc_result_memory by (cases "h = 0") auto
  next
    case False
    have "j \<noteq> i"
    proof
      assume "j = i"
      then show False using False assms(9,10) by (auto simp: suits_def le_less)
    qed
    then have "j \<in> set js" using Cons.prems(2) by simp
    then obtain h st' where "try_lists sz kind ign js st = Inr (h, st')" "h = 0 \<longrightarrow> os_mem st' = []"
      using Cons.IH Cons.prems(1) by auto
    moreover have "GC_allochblk_nth sz kind ign i True st = Inr (0, st)" using N False by simp
    ultimately show ?thesis by simp
  qed
qed simp

lemma fl_mono: "m \<le> k \<Longrightarrow> GC_hblk_fl_from_blocks m \<le> GC_hblk_fl_from_blocks k"
  by (auto simp: GC_hblk_fl_from_blocks_def N_HBLK_FLS_def UNIQUE_THRESHOLD_def HUGE_THRESHOLD_def FL_COMPRESSION_def)

lemma fl_unique: "GC_hblk_fl_from_blocks k = GC_hblk_fl_from_blocks m \<Longrightarrow> GC_hblk_fl_from_blocks m < UNIQUE_THRESHOLD \<Longrightarrow> k = m"
  by (auto simp: GC_hblk_fl_from_blocks_def N_HBLK_FLS_def UNIQUE_THRESHOLD_def HUGE_THRESHOLD_def FL_COMPRESSION_def split: if_splits)

lemma GC_allochblk_succeeds:
  assumes "heap_inv st L B" "kind < length (GC_obj_kinds st)" "0 < sz" "sz + (HBLKSIZE - 1) < 2 ^ 64" "unlisted kind (OBJ_SZ_TO_BLOCKS sz)"
    and c: "on_list L c" "OBJ_SZ_TO_BLOCKS sz \<le> span st c" and "fst (split_limit st) = N_HBLK_FLS"
  shows "\<exists>h st'. GC_allochblk sz kind ign st = Inr (h, st') \<and> (h = 0 \<longrightarrow> os_mem st' = [])"
proof -
  note W = weak_okD [OF heap_invD(1) [OF assms(1)]] and M = member_okD [OF weak_okD(6) [OF heap_invD(1) [OF assms(1)] c(1)]]
  let ?m = "OBJ_SZ_TO_BLOCKS sz"
  let ?i = "GC_hblk_fl_from_blocks ?m"
  have "?m * HBLKSIZE \<le> (c + span st c) * HBLKSIZE" using c(2) by (intro mult_le_mono1) simp
  then have small: "?m * HBLKSIZE < 2 ^ 63" using M(7) by (rule le_less_trans)
  obtain j where j: "j \<le> N_HBLK_FLS" "c \<in> set (L j)" using c(1) by (auto simp: on_list_def)
  have jc: "j = GC_hblk_fl_from_blocks (span st c)" using W(7) [OF j] by (simp add: fl_index_def span_def)
  then have ij: "?i \<le> j" using fl_mono [OF c(2)] by simp
  have nn: "\<not> signed_word (?m * HBLKSIZE) < 0" by (simp only: signed_word_small [OF small] of_nat_less_0_iff not_False_eq_True)
  obtain h st1 where a: "GC_allochblk_nth sz kind ign ?i False st = Inr (h, st1)" "alloc_result st L B sz kind ign h st1"
    using GC_allochblk_nth_ok [OF assms(1) GC_hblk_fl_le assms(2-4) small] by blast
  show ?thesis
  proof (cases "h = 0")
    case False
    then show ?thesis using a(1) nn by (simp add: GC_allochblk_def Let_def)
  next
    case h: True
    let ?is = "[(if ?i < UNIQUE_THRESHOLD then ?i + 1 else ?i)..<N_HBLK_FLS + 1]"
    show ?thesis
    proof (cases "\<exists>c\<in>set (L ?i). suits False ?m (span st c)")
      case True
      then have mem: "os_mem st1 = []"
        using nth_unlisted [OF assms(1) GC_hblk_fl_le assms(2-4) small assms(5), of ?m False ign] a(1) h by auto
      obtain lim st2 where sl: "split_limit st1 = (lim, st2)" by fastforce
      note S = split_limit_ok [OF sl]
      obtain L1 B1 where a1: "alloc_step st L B st1 L1 B1" using a(2) by (auto simp: alloc_result_def)
      have I1: "heap_inv st1 L1 B1" using a1 by (simp add: alloc_step_def)
      have I2: "heap_inv st2 L1 B1" using same_blocks_inv(2) [OF S(2) I1] .
      have kind2: "kind < length (GC_obj_kinds st2)" using a1 S(2) assms(2) by (simp add: alloc_step_def same_blocks_def)
      have il: "\<forall>i\<in>set [(if ?i < UNIQUE_THRESHOLD then ?i + 1 else ?i)..<lim + 1]. i \<le> N_HBLK_FLS" using S(1) by auto
      obtain h' st' where t: "try_lists sz kind ign [(if ?i < UNIQUE_THRESHOLD then ?i + 1 else ?i)..<lim + 1] st2 = Inr (h', st')"
        "alloc_result st2 L1 B1 sz kind ign h' st'" using try_lists_ok [OF I2 il kind2 assms(3,4) small] by blast
      have "os_mem st2 = []" using mem S(2) by (simp add: same_blocks_def memory_step_def supplied_def)
      then have "os_mem st' = []" using alloc_result_memory [OF t(2)] by blast
      then show ?thesis using nn a(1) h sl t(1) by (simp add: GC_allochblk_def Let_def)
    next
      case False
      then have st1: "st1 = st"
        using nth_unlisted [OF assms(1) GC_hblk_fl_le assms(2-4) small assms(5), of ?m False ign] a(1) by auto
      have "j \<in> set ?is"
      proof (cases "?i = j")
        case True
        have "\<not> ?i < UNIQUE_THRESHOLD"
        proof
          assume "?i < UNIQUE_THRESHOLD"
          then have "span st c = ?m" using fl_unique jc True by metis
          then show False using False j(2) True by (auto simp: suits_def)
        qed
        then show ?thesis using j(1) True by auto
      qed (use ij j(1) in auto)
      moreover have "\<forall>i\<in>set ?is. i \<le> N_HBLK_FLS" by auto
      moreover obtain st2 where sl: "split_limit st = (N_HBLK_FLS, st2)" using assms(8) by (metis prod.collapse)
      note S = split_limit_ok(2) [OF sl]
      have "kind < length (GC_obj_kinds st2)" "OBJ_SZ_TO_BLOCKS sz \<le> span st2 c"
        using assms(2) c(2) S same_blocks_inv(6) [OF S] by (simp_all add: same_blocks_def)
      ultimately obtain h' st' where t: "try_lists sz kind ign ?is st2 = Inr (h', st')" "h' = 0 \<longrightarrow> os_mem st' = []"
        using try_lists_unlisted [OF same_blocks_inv(2) [OF S assms(1)] _ _ assms(3,4) small assms(5) _ j(2)] by blast
      have "GC_allochblk sz kind ign st = Inr (h', st')"
        using nn a(1) h st1 sl t(1) by (simp add: GC_allochblk_def Let_def)
      then show ?thesis using t(2) by blast
    qed
  qed
qed

end
