(* ===== verification/GC_Supply.thy ===== *)
theory GC_Supply
  imports GC_Live
begin

text \<open>
  How much scratch memory the block operations take: with that much at hand they never ask the
  operating system for memory, and so never fail.
\<close>

section \<open>Accounting\<close>

definition roomy :: "nat \<Rightarrow> 'a headers_scheme \<Rightarrow> bool" where
  "roomy n st \<longleftrightarrow> 0 < scratch_free st \<and> scratch_free st + n \<le> scratch_end st"

definition takes :: "nat \<Rightarrow> 'a headers_scheme \<Rightarrow> 'a headers_scheme \<Rightarrow> bool" where
  "takes n st st' \<longleftrightarrow> os_mem st' = os_mem st \<and> scratch_end st' = scratch_end st \<and>
     scratch_free st \<le> scratch_free st' \<and> scratch_free st' \<le> scratch_free st + n"

lemma takes_refl [simp]: "takes n st st"
  by (simp add: takes_def)

lemma takes_same: "os_mem st' = os_mem st \<Longrightarrow> scratch_end st' = scratch_end st \<Longrightarrow> scratch_free st' = scratch_free st \<Longrightarrow> takes n st st'"
  by (simp add: takes_def)

lemma takes_trans: "takes m st st1 \<Longrightarrow> takes n st1 st2 \<Longrightarrow> takes (m + n) st st2"
  by (simp add: takes_def)

lemma takes_trans0: "takes 0 st st1 \<Longrightarrow> takes 0 st1 st2 \<Longrightarrow> takes 0 st st2"
  by (simp add: takes_def)

lemma takes_mono: "takes m st st' \<Longrightarrow> m \<le> n \<Longrightarrow> takes n st st'"
  by (simp add: takes_def)

lemma roomy_takes: "roomy (m + n) st \<Longrightarrow> takes m st st' \<Longrightarrow> roomy n st'"
  by (simp add: roomy_def takes_def)

lemma roomy_mono: "roomy n st \<Longrightarrow> m \<le> n \<Longrightarrow> roomy m st"
  by (simp add: roomy_def)

lemma takes0_iff: "takes 0 st st' \<longleftrightarrow> os_mem st' = os_mem st \<and> scratch_end st' = scratch_end st \<and> scratch_free st' = scratch_free st"
  by (auto simp: takes_def)

section \<open>Header operations\<close>

definition BI_COST :: nat where "BI_COST = 8224"
definition HDR_COST :: nat where "HDR_COST = 112"
definition MAP_COST :: nat where "MAP_COST = 512"

lemma scratch_takes:
  assumes "roomy c st" "c = (n + (GRANULE_BYTES - 1)) div GRANULE_BYTES * GRANULE_BYTES" "GC_scratch_alloc n st = (p, st')"
  shows "p \<noteq> 0 \<and> takes c st st'"
  using assms unfolding roomy_def takes_def assms(2)
  by (auto simp: GC_scratch_alloc.simps [of n st] Let_def)

lemma costs:
  "BI_COST = (SIZEOF_BI + (GRANULE_BYTES - 1)) div GRANULE_BYTES * GRANULE_BYTES"
  "HDR_COST = (SIZEOF_HDR + (GRANULE_BYTES - 1)) div GRANULE_BYTES * GRANULE_BYTES"
  "MAP_COST = (MAP_LEN * 2 + (GRANULE_BYTES - 1)) div GRANULE_BYTES * GRANULE_BYTES"
  by (simp_all add: BI_COST_def HDR_COST_def MAP_COST_def SIZEOF_BI_def SIZEOF_HDR_def MAP_LEN_def BYTES_TO_GRANULES_def
      BOTTOM_SZ_def GRANULE_BYTES_def HBLKSIZE_def)

lemma get_index_takes:
  assumes "roomy BI_COST st" "get_index b st = (ok, st')"
  shows "ok" "takes BI_COST st st'"
proof -
  obtain p st1 where s: "GC_scratch_alloc SIZEOF_BI st = (p, st1)" by fastforce
  note T = scratch_takes [OF assms(1) costs(1) s]
  have "takes 0 st1 (link_bi r hi (with_bi hi st1))" for r hi
    by (rule takes_same) (simp_all add: link_bi_def with_bi_def Let_def split: prod.splits option.splits)
  then have "takes BI_COST st (link_bi r hi (with_bi hi st1))" for r hi
    using takes_trans [of BI_COST st st1 0] T by simp
  then show "ok" "takes BI_COST st st'" using assms(2) T unfolding get_index_eq [OF s] by (auto split: if_splits)
qed

lemma alloc_hdr_takes:
  assumes "roomy HDR_COST st" "alloc_hdr st = (res, st')"
  shows "res \<noteq> None" "takes HDR_COST st st'"
proof -
  obtain p st1 where s: "GC_scratch_alloc SIZEOF_HDR st = (p, st1)" by fastforce
  note T = scratch_takes [OF assms(1) costs(2) s]
  then have "takes HDR_COST st (st1\<lparr>hdrs := hs\<rparr>)" "takes HDR_COST st (st\<lparr>hdr_free_list := fl\<rparr>)" for hs fl
    by (simp_all add: takes_def)
  then show "res \<noteq> None" "takes HDR_COST st st'"
    using assms(2) T by (auto simp: alloc_hdr_def s split: list.splits if_splits)
qed

lemma SET_HDR_takes [simp]: "takes n st (SET_HDR b e st) = True"
  by (simp add: takes_same)

lemma upd_hdr_takes [simp]: "takes n st (upd_hdr r f st)"
  by (rule takes_same) (simp_all add: upd_hdr_def)

lemma GC_install_header_takes:
  assumes "roomy (BI_COST + HDR_COST) st" "GC_install_header h st = (res, st')"
  shows "res \<noteq> None" "takes (BI_COST + HDR_COST) st st'"
proof -
  obtain ok st1 where g: "get_index h st = (ok, st1)" by fastforce
  obtain r st2 where a: "alloc_hdr st1 = (r, st2)" by fastforce
  note G = get_index_takes [OF roomy_mono [OF assms(1) le_add1] g]
  note A = alloc_hdr_takes [OF roomy_takes [OF assms(1) G(2)] a]
  have "takes (BI_COST + HDR_COST) st st2" using takes_trans [OF G(2) A(2)] .
  then have "takes (BI_COST + HDR_COST) st (SET_HDR h e st2)" for e using takes_trans [of "BI_COST + HDR_COST" st st2 0] by simp
  then show "res \<noteq> None" "takes (BI_COST + HDR_COST) st st'"
    using assms(2) G(1) A(1) by (auto simp: GC_install_header_def g a)
qed

text \<open>The index entries for the blocks from \<open>h\<close> to \<open>lim\<close>.\<close>

definition index_cost :: "nat \<Rightarrow> nat" where
  "index_cost n = BI_COST * ((n + BOTTOM_SZ - 1) div BOTTOM_SZ)"

lemma get_indices_takes:
  "roomy (index_cost (lim - h)) st \<Longrightarrow> get_indices h lim st = (ok, st') \<Longrightarrow> ok \<and> takes (index_cost (lim - h)) st st'"
proof (induction h lim st arbitrary: ok st' rule: get_indices.induct)
  case (1 h lim st)
  show ?case
  proof (cases "h < lim")
    case True
    have "(lim - h + BOTTOM_SZ - 1) div BOTTOM_SZ = Suc ((lim - (h + BOTTOM_SZ) + BOTTOM_SZ - 1) div BOTTOM_SZ)"
    proof (cases "h + BOTTOM_SZ \<le> lim")
      case le: True
      then obtain d where "lim = h + BOTTOM_SZ + d" using le_Suc_ex by blast
      then show ?thesis by (simp add: BOTTOM_SZ_def)
    next
      case False
      then obtain d where "lim = Suc (h + d)" "d < BOTTOM_SZ" using True less_imp_Suc_add [OF True] by auto
      then show ?thesis by (simp add: BOTTOM_SZ_def)
    qed
    then have c: "index_cost (lim - h) = BI_COST + index_cost (lim - (h + BOTTOM_SZ))" by (simp add: index_cost_def)
    obtain ok1 st1 where g: "get_index h st = (ok1, st1)" by fastforce
    note G = get_index_takes [OF roomy_mono [OF "1.prems"(1) [unfolded c] le_add1] g]
    have "get_indices (h + BOTTOM_SZ) lim st1 = (ok, st')" using "1.prems"(2) True g G(1) unfolding get_indices.simps [of h lim st] by (simp del: get_indices.simps)
    then have "ok \<and> takes (index_cost (lim - (h + BOTTOM_SZ))) st1 st'"
      using "1.IH" [OF True refl g [symmetric]] roomy_takes [OF "1.prems"(1) [unfolded c] G(2)] G(1) by simp
    then show ?thesis unfolding c using takes_trans [OF G(2)] by blast
  next
    case False
    then show ?thesis using "1.prems"(2) unfolding get_indices.simps [of h lim st] by (simp del: get_indices.simps)
  qed
qed

lemma folds_takes: "takes n st (set_jumps h bs st)" "takes n st (set_nils bs st)"
proof -
  have "scratch_free (set_jumps h bs st) = scratch_free st \<and> scratch_end (set_jumps h bs st) = scratch_end st \<and> os_mem (set_jumps h bs st) = os_mem st"
    "scratch_free (set_nils bs st) = scratch_free st \<and> scratch_end (set_nils bs st) = scratch_end st \<and> os_mem (set_nils bs st) = os_mem st"
    by (induction bs arbitrary: st) (simp_all add: Let_def)
  then show "takes n st (set_jumps h bs st)" "takes n st (set_nils bs st)" by (auto intro: takes_same)
qed

lemma GC_install_counts_takes:
  assumes "roomy (index_cost n + BI_COST) st" "GC_install_counts h n st = (ok, st')"
  shows "ok" "takes (index_cost n + BI_COST) st st'"
proof -
  obtain ok1 st1 where g: "get_indices h (h + n) st = (ok1, st1)" by fastforce
  obtain ok2 st2 where g2: "get_index (h + n - 1) st1 = (ok2, st2)" by fastforce
  have G: "ok1" "takes (index_cost n) st st1" using get_indices_takes [OF _ g] roomy_mono [OF assms(1) le_add1] by simp_all
  note G2 = get_index_takes [OF roomy_takes [OF assms(1) G(2)] g2]
  have "takes (index_cost n + BI_COST) st st2" using takes_trans [OF G(2) G2(2)] .
  then have "takes (index_cost n + BI_COST) st (set_jumps h bs st2)" for bs using takes_trans [of _ st st2 0] folds_takes(1) by fastforce
  then show "ok" "takes (index_cost n + BI_COST) st st'"
    using assms(2) G(1) G2(1) by (auto simp: GC_install_counts_def g g2 simp del: get_indices.simps One_nat_def)
qed

lemma GC_remove_counts_takes [simp]: "takes n st (GC_remove_counts h m st)"
  by (simp add: GC_remove_counts_def folds_takes)

lemma GC_remove_header_takes: "GC_remove_header h st = Inr st' \<Longrightarrow> takes n st st'"
  by (auto simp: GC_remove_header_def free_hdr_def split: entry.splits intro!: takes_same)

lemma GC_add_map_entry_takes:
  assumes "roomy MAP_COST st" "GC_add_map_entry g st = (ok, st')"
  shows "ok" "takes MAP_COST st st'"
proof -
  obtain p st1 where s: "GC_scratch_alloc (MAP_LEN * 2) st = (p, st1)" by fastforce
  note T = scratch_takes [OF assms(1) costs(3) s]
  have "takes MAP_COST st (st1\<lparr>GC_obj_map := m\<rparr>)" for m using T by (simp add: takes_def)
  then show "ok" "takes MAP_COST st st'" using assms(2) T by (auto simp: GC_add_map_entry_def Let_def s split: if_splits)
qed

lemma setup_header_takes:
  assumes "roomy MAP_COST st" "setup_header r b sz kind ign st = Inr (ok, st')"
  shows "ok" "takes MAP_COST st st'"
proof -
  let ?f = "\<lambda>h. h\<lparr>hb_sz := sz, hb_obj_kind := kind, hb_free := False, hb_ignore_off_page := ign, hb_block := b,
      hb_descr := ok_descriptor (GC_obj_kinds st ! kind) + (if ok_relocate_descr (GC_obj_kinds st ! kind) then sz else 0),
      hb_large_block := sz > MAXOBJBYTES\<rparr>"
  obtain ok1 st1 where a: "GC_add_map_entry (BYTES_TO_GRANULES sz) (upd_hdr r ?f st) = (ok1, st1)" by fastforce
  have "roomy MAP_COST (upd_hdr r ?f st)" by (rule roomy_takes [of 0 _ st]) (simp add: assms(1), rule upd_hdr_takes)
  note A = GC_add_map_entry_takes [OF this a]
  have t: "takes MAP_COST st (upd_hdr r g st1)" for g
    using A(2) by (simp add: takes_def upd_hdr_def)
  show "ok" "takes MAP_COST st st'"
    using assms(2) A(1) t unfolding setup_header_def Let_def a prod.case by (auto split: if_splits)
qed

section \<open>Free lists\<close>

lemma GC_remove_from_fl_takes: "GC_remove_from_fl r n st = Inr st' \<Longrightarrow> takes 0 st st'"
  by (auto simp: GC_remove_from_fl_def Let_def takes0_iff upd_hdr_def elim!: rbind_InrE split: if_splits)

lemma GC_add_to_fl_takes: "GC_add_to_fl h r st = Inr st' \<Longrightarrow> takes 0 st st'"
  by (auto simp: GC_add_to_fl_def Let_def takes0_iff upd_hdr_def elim!: rbind_InrE split: if_splits)

lemma GC_get_first_part_takes:
  assumes "roomy (BI_COST + HDR_COST) st" "GC_get_first_part h r bytes n st = Inr (h', st')"
  shows "takes (BI_COST + HDR_COST) st st'"
proof -
  let ?rest = "(h * HBLKSIZE + bytes) div HBLKSIZE"
  obtain st1 where f: "GC_remove_from_fl r (Some n) st = Inr st1"
    using assms(2) by (auto simp: GC_get_first_part_def Let_def elim: rbind_InrE)
  note F = GC_remove_from_fl_takes [OF f]
  obtain q st2 where i: "GC_install_header ?rest st1 = (q, st2)" by fastforce
  have "roomy (BI_COST + HDR_COST) st1" using roomy_takes [of 0 _ st] F assms(1) by simp
  note I = GC_install_header_takes [OF this i]
  have 2: "takes (BI_COST + HDR_COST) st st2" "takes (BI_COST + HDR_COST) st st1"
    using takes_trans [OF F I(2)] takes_mono [OF F] by simp_all
  show ?thesis
  proof (cases "hb_sz (hdrs st ! r) = bytes")
    case True
    then show ?thesis using assms(2) f 2 by (simp add: GC_get_first_part_def)
  next
    case False
    obtain p where p: "q = Some p" using I(1) by blast
    let ?f = "\<lambda>x. x\<lparr>hb_sz := hb_sz (hdrs st ! r) - bytes, hb_free := False, hb_ignore_off_page := False\<rparr>"
    have "GC_add_to_fl ?rest p (upd_hdr p ?f st2) = Inr st'"
      using assms(2) f i p False by (auto simp: GC_get_first_part_def Let_def elim!: rbind_InrE)
    then have "takes 0 (upd_hdr p ?f st2) st'" by (rule GC_add_to_fl_takes)
    then have "takes 0 st2 st'" by (simp add: takes_def upd_hdr_def)
    then show ?thesis using takes_trans [OF 2(1)] by fastforce
  qed
qed

lemma remove_counts_same:
  "os_mem (GC_remove_counts h n st) = os_mem st" "scratch_end (GC_remove_counts h n st) = scratch_end st"
  "scratch_free (GC_remove_counts h n st) = scratch_free st"
  using GC_remove_counts_takes [of 0 st h n] unfolding takes0_iff by blast+

lemma GC_freehblk_takes:
  assumes "GC_freehblk b st = Inr st'"
  shows "takes 0 st st'"
  using assms unfolding GC_freehblk_def Let_def
  by (auto elim!: rbind_InrE split: if_splits entry.splits option.splits
      dest!: GC_remove_from_fl_takes GC_remove_header_takes [where n = 0] GC_add_to_fl_takes
      simp: takes0_iff upd_hdr_def remove_counts_same)

section \<open>Allocation\<close>

lemma try_block_takes:
  assumes "roomy (BI_COST + HDR_COST) st" "unlisted kind m"
    and "try_block (m * HBLKSIZE) kind ign n split b r st = Inr (c, st')"
  shows "case c of Skip _ \<Rightarrow> st' = st | Take _ _ \<Rightarrow> takes (BI_COST + HDR_COST) st st'"
proof -
  have tst: "\<not> (\<not> IS_UNCOLLECTABLE kind \<and> (kind \<noteq> PTRFREE \<or> m * HBLKSIZE > MAX_BLACK_LIST_ALLOC))"
    using assms(2) by (auto simp: unlisted_def)
  show ?thesis using assms(3) GC_get_first_part_takes [OF assms(1)] unfolding try_block_def Let_def if_not_P [OF tst]
    by (auto simp: take_part_def elim!: rbind_InrE split: if_splits)
qed

lemma search_list_takes:
  assumes "roomy (BI_COST + HDR_COST) st" "unlisted kind m"
  shows "search_list k (m * HBLKSIZE) kind ign n split b st = Inr (h, r, st') \<Longrightarrow> takes (BI_COST + HDR_COST) st st'"
proof (induction k arbitrary: b)
  case (Suc k)
  show ?case
  proof (cases "b = 0")
    case False
    obtain q c st1 where t: "try_block (m * HBLKSIZE) kind ign n split b q st = Inr (c, st1)"
      "(case c of Take h r \<Rightarrow> Inr (h, r, st1)
        | Skip b \<Rightarrow> search_list k (m * HBLKSIZE) kind ign n split b st1) = Inr (h, r, st')"
      using Suc.prems False by (auto elim!: rbind_InrE)
    note T = try_block_takes [OF assms t(1)]
    then show ?thesis using t(2) Suc.IH by (cases c) auto
  qed (use Suc.prems in simp)
qed simp

text \<open>What a search takes, and what the object found takes.\<close>

definition alloc_cost :: "nat \<Rightarrow> nat" where
  "alloc_cost m = (BI_COST + HDR_COST) + ((index_cost m + BI_COST) + MAP_COST)"

lemma nth_takes:
  assumes "roomy (alloc_cost (OBJ_SZ_TO_BLOCKS sz)) st" "unlisted kind (OBJ_SZ_TO_BLOCKS sz)"
    and "GC_allochblk_nth sz kind ign n split st = Inr (h, st')"
  shows "takes (alloc_cost (OBJ_SZ_TO_BLOCKS sz)) st st'"
proof -
  define m where "m = OBJ_SZ_TO_BLOCKS sz"
  note F = allochblk_nth_finish [OF m_def, of kind ign n split st]
  have room: "roomy ((BI_COST + HDR_COST) + ((index_cost m + BI_COST) + MAP_COST)) st" using assms(1) by (simp add: m_def alloc_cost_def)
  obtain h1 r st1 where s: "search_list (length (hdrs st) + 1) (m * HBLKSIZE) kind ign n split (GC_hblkfreelist st ! n) st = Inr (h1, r, st1)"
    using assms(3) unfolding F by (auto elim!: rbind_InrE)
  have S: "takes (BI_COST + HDR_COST) st st1"
    by (rule search_list_takes [OF roomy_mono [OF room le_add1] assms(2) [folded m_def] s])
  show ?thesis
  proof (cases "h1 = 0")
    case True
    then show ?thesis using assms(3) s S takes_mono [OF S] unfolding F by (auto simp: alloc_cost_def)
  next
    case False
    then have f: "finish m sz kind ign h1 r st1 = Inr (h, st')" using assms(3) s unfolding F by simp
    obtain ok st2 where c: "GC_install_counts h1 m st1 = (ok, st2)" by fastforce
    have room1: "roomy ((index_cost m + BI_COST) + MAP_COST) st1" by (rule roomy_takes [OF room S])
    note C = GC_install_counts_takes [OF roomy_mono [OF room1 le_add1] c]
    obtain ok2 st3 where h: "setup_header r h1 sz kind ign st2 = Inr (ok2, st3)"
      using f c C(1) by (auto simp: finish_def elim: rbind_InrE)
    note H = setup_header_takes [OF roomy_takes [OF room1 C(2)] h]
    have "takes 0 st3 st'" using f c C(1) h H(1) by (auto simp: finish_def takes0_iff)
    then have "takes (alloc_cost m + 0) st st'" unfolding alloc_cost_def
      by (intro takes_trans [OF takes_trans [OF S takes_trans [OF C(2) H(2)]]])
    then show ?thesis by (simp add: m_def)
  qed
qed

text \<open>Enough memory: the search of a list finds a block or leaves the state as it is.\<close>

lemma nth_supplied:
  assumes "heap_inv st L B" "n \<le> N_HBLK_FLS" "kind < length (GC_obj_kinds st)"
    and sz: "0 < sz" "sz + (HBLKSIZE - 1) < 2 ^ 64" "OBJ_SZ_TO_BLOCKS sz * HBLKSIZE < 2 ^ 63"
    and "unlisted kind (OBJ_SZ_TO_BLOCKS sz)" "roomy (alloc_cost (OBJ_SZ_TO_BLOCKS sz)) st" "os_mem st \<noteq> []"
    and "GC_allochblk_nth sz kind ign n split st = Inr (h, st')"
  shows "h = 0 \<and> st' = st \<or> h \<noteq> 0 \<and> os_mem st' = os_mem st"
proof -
  have t: "os_mem st' = os_mem st" using nth_takes [OF assms(8,7,10)] by (simp add: takes_def)
  then show ?thesis using nth_unlisted [OF assms(1-3) sz assms(7), of split ign] assms(9,10) by (auto split: if_splits)
qed

lemma try_lists_supplied:
  assumes "heap_inv st L B" "\<forall>i\<in>set is. i \<le> N_HBLK_FLS" "kind < length (GC_obj_kinds st)"
    and sz: "0 < sz" "sz + (HBLKSIZE - 1) < 2 ^ 64" "OBJ_SZ_TO_BLOCKS sz * HBLKSIZE < 2 ^ 63"
    and "unlisted kind (OBJ_SZ_TO_BLOCKS sz)" "roomy (alloc_cost (OBJ_SZ_TO_BLOCKS sz)) st" "os_mem st \<noteq> []"
    and "try_lists sz kind ign is st = Inr (h, st')"
  shows "os_mem st' = os_mem st"
  using assms(2,10)
proof (induction "is")
  case (Cons i js)
  obtain h1 st1 where n: "GC_allochblk_nth sz kind ign i True st = Inr (h1, st1)"
    using Cons.prems(2) by (auto elim: rbind_InrE)
  have "i \<le> N_HBLK_FLS" using Cons.prems(1) by simp
  from nth_supplied [OF assms(1) this assms(3) sz assms(7-9) n] show ?case using n Cons by (cases "h1 = 0") auto
qed simp

lemma GC_allochblk_supplied:
  assumes "heap_inv st L B" "kind < length (GC_obj_kinds st)" "0 < sz" "sz + (HBLKSIZE - 1) < 2 ^ 64"
    and "unlisted kind (OBJ_SZ_TO_BLOCKS sz)" "roomy (alloc_cost (OBJ_SZ_TO_BLOCKS sz)) st" "os_mem st \<noteq> []"
    and "GC_use_entire_heap st" "GC_allochblk sz kind ign st = Inr (h, st')"
  shows "os_mem st' = os_mem st"
proof (cases "signed_word (OBJ_SZ_TO_BLOCKS sz * HBLKSIZE) < 0")
  case False
  have "OBJ_SZ_TO_BLOCKS sz * HBLKSIZE \<le> sz + (HBLKSIZE - 1)" using assms(4) by (simp add: OBJ_SZ_TO_BLOCKS_def)
  then have small: "OBJ_SZ_TO_BLOCKS sz * HBLKSIZE < 2 ^ 63" using signed_word_neg [OF _ False] assms(4) by linarith
  let ?i = "GC_hblk_fl_from_blocks (OBJ_SZ_TO_BLOCKS sz)"
  let ?j = "if ?i < UNIQUE_THRESHOLD then ?i + 1 else ?i"
  obtain h1 st1 where n: "GC_allochblk_nth sz kind ign ?i False st = Inr (h1, st1)"
    using assms(9) False by (auto simp: GC_allochblk_def Let_def elim: rbind_InrE)
  have run: "GC_allochblk sz kind ign st = (if h1 \<noteq> 0 then Inr (h1, st1)
      else let (limit, st) = split_limit st1 in try_lists sz kind ign [?j..<limit + 1] st)"
    using False n by (simp add: GC_allochblk_def Let_def)
  from nth_supplied [OF assms(1) GC_hblk_fl_le assms(2-4) small assms(5-7) n] show ?thesis
  proof
    assume z: "h1 = 0 \<and> st1 = st"
    have "split_limit st = (N_HBLK_FLS, st)" using assms(8) by (simp add: split_limit_def)
    then have t: "try_lists sz kind ign [?j..<N_HBLK_FLS + 1] st = Inr (h, st')" using run z assms(9) by simp
    have "\<forall>i\<in>set [?j..<N_HBLK_FLS + 1]. i \<le> N_HBLK_FLS" by auto
    then show ?thesis using try_lists_supplied [OF assms(1) _ assms(2-4) small assms(5-7) t] by blast
  qed (use run assms(9) in simp)
qed (use assms(9) in \<open>simp add: GC_allochblk_def\<close>)

section \<open>Growing the heap\<close>

lemma GC_add_to_heap_takes:
  fixes st :: "'a growing_heap_scheme"
  assumes "roomy (BI_COST + HDR_COST) st" "GC_add_to_heap p bytes st = Inr st'"
  shows "takes (BI_COST + HDR_COST) st st'"
proof -
  obtain p1 b1 where s: "skip_low p bytes = (p1, b1)" by fastforce
  obtain q st1 where i: "GC_install_header p1 st = (q, st1)" by fastforce
  note I = GC_install_header_takes [OF assms(1) i]
  have "takes (BI_COST + HDR_COST) st st'" if "GC_freehblk p1 (upd_hdr r f (st1\<lparr>GC_heap_sects := ss\<rparr>)) = Inr st2"
    "os_mem st' = os_mem st2" "scratch_end st' = scratch_end st2" "scratch_free st' = scratch_free st2" for r f ss st2
    using GC_freehblk_takes [OF that(1)] that(2-4) I(2) by (simp add: takes_def upd_hdr_def)
  then show ?thesis using assms(2) I by (auto simp: GC_add_to_heap_def Let_def s i elim!: rbind_InrE split: if_splits)
qed

end
