(* ===== verification/GC_Blocks.thy ===== *)
theory GC_Blocks
  imports GC_Supply
begin

text \<open>
  What the block allocator promises, over the set of free pages and the map of the blocks in
  use: the contract of \<open>GC_allochblk\<close>, \<open>GC_freehblk\<close> and \<open>GC_expand_hp_inner\<close>, and that every
  sequence of these operations from an empty heap keeps the heap in order.
\<close>

section \<open>Contracts\<close>

lemma used_cong: "cores st' c = cores st c \<Longrightarrow> used_blocks st' c = used_blocks st c"
  by (simp add: used_blocks_def)

lemma used_none: "heap_inv st L B \<Longrightarrow> c \<in> region st L \<Longrightarrow> used_blocks st c = None"
  using region_not_used(1) used_blocks_iff by (metis option.exhaust)

text \<open>
  Allocation: a block handed out takes free pages only and gets the header of the object; pages
  may get lost, but the blocks in use stay as they are.
\<close>

definition alloc_spec :: "nat set \<Rightarrow> (nat \<Rightarrow> hdr option) \<Rightarrow> nat \<Rightarrow> nat \<Rightarrow> bool \<Rightarrow> nat \<Rightarrow> nat set \<Rightarrow> (nat \<Rightarrow> hdr option) \<Rightarrow> bool" where
  "alloc_spec F U sz kind ign h F' U' \<longleftrightarrow> F' \<subseteq> F \<and> (\<forall>b. b \<notin> F - F' \<longrightarrow> U' b = U b) \<and> (\<forall>b\<in>F - F'. U b = None) \<and>
     (h \<noteq> 0 \<longrightarrow> {h..<h + OBJ_SZ_TO_BLOCKS sz} \<subseteq> F - F' \<and> (\<exists>g. U' h = Some g \<and> object_header g h sz kind ign))"

lemma alloc_result_spec:
  assumes "heap_inv st L {}" "ledger st L = 0" "alloc_result st L {} sz kind ign h st'" "os_mem st' \<noteq> []"
  shows "heap_ok st'" "alloc_spec (free_pages st) (used_blocks st) sz kind ign h (free_pages st') (used_blocks st')"
proof -
  obtain L' B' where a: "alloc_step st L {} st' L' B'" "h = 0 \<or> handed_out st L sz kind ign h st' L'"
    using assms(3) by (auto simp: alloc_result_def)
  then have I': "heap_inv st' L' {}" "ledger st' L' = 0" "region st' L' \<subseteq> region st L"
    and same: "\<And>c. c \<notin> region st L \<Longrightarrow> cores st' c = cores st c"
    using assms(2,4) by (auto simp: alloc_step_def)
  show "heap_ok st'" using heap_okI [OF I'(1,2)] .
  have "used_blocks st' b = used_blocks st b" if "b \<notin> region st L - region st' L'" for b
  proof (cases "b \<in> region st L")
    case True
    then show ?thesis using that used_none [OF assms(1)] used_none [OF I'(1)] by simp
  qed (use used_cong same in blast)
  moreover have "used_blocks st b = None" if "b \<in> region st L" for b using used_none [OF assms(1) that] .
  ultimately show "alloc_spec (free_pages st) (used_blocks st) sz kind ign h (free_pages st') (used_blocks st')"
    using a(2) I'(3) used_blocks_iff [of st' h]
    unfolding alloc_spec_def handed_out_def region_free [OF assms(1), symmetric] region_free [OF I'(1), symmetric] by blast
qed

lemma GC_allochblk_heap:
  assumes "heap_ok st" "kind < length (GC_obj_kinds st)" "0 < sz" "sz + (HBLKSIZE - 1) < 2 ^ 64"
  shows "\<exists>h st'. GC_allochblk sz kind ign st = Inr (h, st') \<and> (os_mem st' \<noteq> [] \<longrightarrow> heap_ok st' \<and>
    alloc_spec (free_pages st) (used_blocks st) sz kind ign h (free_pages st') (used_blocks st'))"
proof -
  obtain L where L: "heap_inv st L {}" "ledger st L = 0" using assms(1) by (auto simp: heap_ok_def)
  obtain h st' where "GC_allochblk sz kind ign st = Inr (h, st')" "alloc_result st L {} sz kind ign h st'"
    using GC_allochblk_ok [OF L(1) assms(2-4)] by blast
  then show ?thesis using alloc_result_spec [OF L] by blast
qed

text \<open>Freeing the \<open>n\<close> pages from \<open>b\<close> on.\<close>

definition free_spec :: "nat set \<Rightarrow> (nat \<Rightarrow> hdr option) \<Rightarrow> nat \<Rightarrow> nat \<Rightarrow> nat set \<Rightarrow> (nat \<Rightarrow> hdr option) \<Rightarrow> bool" where
  "free_spec F U b n F' U' \<longleftrightarrow> F' = F \<union> {b..<b + n} \<and> U' = U(b := None)"

lemma freed_spec:
  assumes "heap_inv st L {}" "ledger st L = 0" "freed st L b n st' L'" "0 < n"
    and "\<And>c g. b < c \<Longrightarrow> c < b + n \<Longrightarrow> \<not> in_use st c g"
  shows "heap_ok st'" "free_spec (free_pages st) (used_blocks st) b n (free_pages st') (used_blocks st')"
proof -
  have I': "heap_inv st' L' {}" "ledger st' L' = 0" "region st' L' = region st L \<union> {b..<b + n}"
    and same: "\<And>c. c \<notin> region st L \<union> {b..<b + n} \<Longrightarrow> cores st' c = cores st c"
    using assms(2,3) by (auto simp: freed_def)
  show "heap_ok st'" using heap_okI [OF I'(1,2)] .
  have "used_blocks st' c = ((used_blocks st)(b := None)) c" for c
  proof (cases "c \<in> region st L \<union> {b..<b + n}")
    case True
    then have "used_blocks st' c = None" using used_none [OF I'(1)] I'(3) by simp
    moreover have "used_blocks st c = None" if "c \<noteq> b"
    proof (cases "c \<in> region st L")
      case False
      then have "\<not> in_use st c g" for g using assms(5) [of c g] True that by simp
      then show ?thesis using used_blocks_iff by (metis option.exhaust)
    qed (use used_none [OF assms(1)] in simp)
    ultimately show ?thesis by simp
  next
    case False
    then show ?thesis using used_cong [OF same [OF False]] assms(4) by auto
  qed
  then show "free_spec (free_pages st) (used_blocks st) b n (free_pages st') (used_blocks st')"
    using I'(3) unfolding free_spec_def region_free [OF assms(1), symmetric] region_free [OF I'(1), symmetric] by (simp add: fun_eq_iff)
qed

lemma GC_freehblk_heap:
  assumes "heap_ok st" "used_blocks st b = Some g"
  shows "\<exists>st'. GC_freehblk b st = Inr st' \<and> heap_ok st' \<and>
    free_spec (free_pages st) (used_blocks st) b (nblocks g) (free_pages st') (used_blocks st')"
proof -
  obtain L where L: "heap_inv st L {}" "ledger st L = 0" using assms(1) by (auto simp: heap_ok_def)
  have u: "in_use st b g" using assms(2) used_blocks_iff by blast
  obtain st' L' where st': "GC_freehblk b st = Inr st'" "freed st L b (nblocks g) st' L'" using GC_freehblk_ok [OF L(1) u] by blast
  have "\<not> in_use st c h" if "b < c" "c < b + nblocks g" for c h
  proof
    assume "in_use st c h"
    then show False using that heap_invD(4) [OF L(1) u] in_use_hdr [of st c h] by (auto simp: used_ok_def)
  qed
  then show ?thesis using freed_spec [OF L st'(2) used_size(1) [OF L(1) u]] st'(1) by blast
qed


section \<open>Growing the heap\<close>

lemma same_blocks_heap:
  assumes "same_blocks st st'" "GC_large_free_bytes st' = GC_large_free_bytes st" "heap_inv st L {}" "ledger st L = 0"
  shows "heap_inv st' L {}" "ledger st' L = 0" "region st' L = region st L" "cores st' = cores st" "HDR st' = HDR st"
  using same_blocks_inv(2) [OF assms(1,3)] same_blocks_inv(3,5,7) [OF assms(1)] assms(1,2,4) by (simp_all add: ledger_def same_blocks_def)

text \<open>The operating system gives memory that holds no block of the heap, above the first page.\<close>

definition fresh_memory :: "64 word \<Rightarrow> 'a block_heap_scheme \<Rightarrow> nat \<Rightarrow> nat \<Rightarrow> bool" where
  "fresh_memory bytes st p k \<longleftrightarrow> os_mem st \<noteq> [] \<and> hd (os_mem st) = p * HBLKSIZE \<and> unat bytes = k * HBLKSIZE \<and>
     2 \<le> p \<and> 0 < k \<and> (p + k) * HBLKSIZE < 2 ^ 63 \<and> (\<forall>c\<in>{p..<p + k}. HDR st c = Nil_entry \<and> c \<notin> free_pages st)"

lemma got_memory_same: "same_blocks st (st\<lparr>os_mem := tl (os_mem st)\<rparr>)"
proof -
  have "HDR (st\<lparr>os_mem := tl (os_mem st)\<rparr>) = HDR st" "hdr_of (st\<lparr>os_mem := tl (os_mem st)\<rparr>) = hdr_of st"
    "map_ok (st\<lparr>os_mem := tl (os_mem st)\<rparr>) = map_ok st"
    by (rule HDR_cong hdr_of_cong map_ok_cong; simp)+
  moreover have "0 \<notin> set (os_mem st) \<Longrightarrow> 0 \<notin> set (tl (os_mem st))" by (cases "os_mem st") simp_all
  ultimately show ?thesis
    by (auto simp: same_blocks_def base_ok_def tables_ok_def layouts_ok_def memory_step_def supplied_def scratch_ok_def)
qed

lemma plausible_same:
  fixes st :: "'a growing_heap_scheme"
  shows "same_blocks st (plausible_limits space bytes slop st)" "GC_large_free_bytes (plausible_limits space bytes slop st) = GC_large_free_bytes st"
    "GC_heap_sects (plausible_limits space bytes slop st) = GC_heap_sects st" "os_mem (plausible_limits space bytes slop st) = os_mem st"
  by (auto simp: plausible_limits_def Let_def tables_ok_def layouts_ok_def intro!: same_blocksI)

text \<open>The state in which the memory is added.\<close>

definition got_memory :: "64 word \<Rightarrow> 'a growing_heap_scheme \<Rightarrow> 'a growing_heap_scheme" where
  "got_memory bytes st =
     (let space = hd (os_mem st);
          st1 = plausible_limits (of_nat space) bytes (min_bytes_allocd (st\<lparr>os_mem := tl (os_mem st)\<rparr>) + of_nat (4 * MAXHINCR * HBLKSIZE))
                  (st\<lparr>os_mem := tl (os_mem st)\<rparr>)
      in st1\<lparr>GC_prev_heap_addr := GC_last_heap_addr st1, GC_last_heap_addr := of_nat space\<rparr>)"

lemma got_memory_ok:
  fixes st :: "'a growing_heap_scheme"
  shows "same_blocks st (got_memory bytes st)" "GC_large_free_bytes (got_memory bytes st) = GC_large_free_bytes st"
    "GC_heap_sects (got_memory bytes st) = GC_heap_sects st" "os_mem (got_memory bytes st) = tl (os_mem st)"
proof -
  let ?st = "st\<lparr>os_mem := tl (os_mem st)\<rparr>"
  have "same_blocks st1 (st1\<lparr>GC_prev_heap_addr := a, GC_last_heap_addr := b\<rparr>)" for a b and st1 :: "'a growing_heap_scheme"
    by (auto simp: tables_ok_def layouts_ok_def intro!: same_blocksI)
  from same_blocks_trans [OF got_memory_same same_blocks_trans [OF plausible_same(1) this]]
  show "same_blocks st (got_memory bytes st)" by (simp add: got_memory_def Let_def)
  show "GC_large_free_bytes (got_memory bytes st) = GC_large_free_bytes st"
    "GC_heap_sects (got_memory bytes st) = GC_heap_sects st" "os_mem (got_memory bytes st) = tl (os_mem st)"
    by (simp_all add: got_memory_def Let_def plausible_same)
qed

lemma expand_eq:
  fixes st :: "'a growing_heap_scheme"
  assumes "fresh_memory (expansion_bytes st n) st p k" "\<not> (GC_max_heapsize st \<noteq> 0 \<and> of_nat (GC_heapsize st) + expansion_bytes st n > GC_max_heapsize st)"
  shows "\<exists>at. GC_expand_hp_inner n st =
    rbind (GC_add_to_heap p (k * HBLKSIZE) (got_memory (expansion_bytes st n) st)) (\<lambda>st. Inr (True, st\<lparr>GC_collect_at_heapsize := at st\<rparr>))"
proof -
  obtain a as where os: "os_mem st = a # as" using assms(1) by (auto simp: fresh_memory_def neq_Nil_conv)
  then have a: "a = p * HBLKSIZE" "a \<noteq> 0" "a div HBLKSIZE = p" "unat (expansion_bytes st n) = k * HBLKSIZE"
    using assms(1) by (simp_all add: fresh_memory_def)
  show ?thesis
    unfolding GC_expand_hp_inner_def GET_MEM_def Let_def if_not_P [OF assms(2)] os list.case prod.case if_not_P [OF a(2)] a(3,4)
      got_memory_def list.sel by (rule exI) (rule refl)
qed

lemma GC_expand_hp_inner_heap:
  fixes st :: "'a growing_heap_scheme"
  assumes "heap_ok st" "length (GC_heap_sects st) < MAX_HEAP_SECTS" "fresh_memory (expansion_bytes st n) st p k"
    and "\<not> (GC_max_heapsize st \<noteq> 0 \<and> of_nat (GC_heapsize st) + expansion_bytes st n > GC_max_heapsize st)"
  shows "\<exists>st'. GC_expand_hp_inner n st = Inr (True, st') \<and> heap_ok st' \<and> GC_obj_kinds st' = GC_obj_kinds st \<and>
    (os_mem st' \<noteq> [] \<longrightarrow> free_spec (free_pages st) (used_blocks st) p k (free_pages st') (used_blocks st'))"
proof -
  let ?st1 = "got_memory (expansion_bytes st n) st"
  obtain L where L: "heap_inv st L {}" "ledger st L = 0" using assms(1) by (auto simp: heap_ok_def)
  note S = same_blocks_heap [OF got_memory_ok(1,2) L, of "expansion_bytes st n"]
  have fp: "free_pages ?st1 = free_pages st" using region_free [OF S(1)] region_free [OF L(1)] S(3) by simp
  have ub: "used_blocks ?st1 = used_blocks st" using used_cong [of ?st1 _ st] S(4) by (simp add: fun_eq_iff)
  have kinds: "GC_obj_kinds ?st1 = GC_obj_kinds st" using got_memory_ok(1) [of st] by (simp add: same_blocks_def)
  have F: "2 \<le> p" "0 < k" "(p + k) * HBLKSIZE < 2 ^ 63" "\<And>c. c \<in> {p..<p + k} \<Longrightarrow> HDR ?st1 c = Nil_entry"
    "region ?st1 L \<inter> {p..<p + k} = {}"
    using assms(3) S(5) fp unfolding region_free [OF S(1)] fresh_memory_def by auto
  have sects: "length (GC_heap_sects ?st1) < MAX_HEAP_SECTS" using assms(2) by (simp add: got_memory_ok(3))
  obtain st2 where st2: "GC_add_to_heap p (k * HBLKSIZE) ?st1 = Inr st2"
    "(\<exists>L'. freed ?st1 L p k st2 L') \<or> same_blocks ?st1 st2 \<and> GC_large_free_bytes st2 = GC_large_free_bytes ?st1 \<and> os_mem st2 = []"
    using GC_add_to_heap_ok [OF S(1) sects F] by blast
  obtain at where at: "GC_expand_hp_inner n st = Inr (True, st2\<lparr>GC_collect_at_heapsize := at\<rparr>)"
    using expand_eq [OF assms(3,4)] st2(1) by auto
  let ?st3 = "st2\<lparr>GC_collect_at_heapsize := at\<rparr>"
  have sb: "same_blocks st2 ?st3" "GC_large_free_bytes ?st3 = GC_large_free_bytes st2"
    by (auto simp: tables_ok_def layouts_ok_def intro!: same_blocksI)
  from st2(2) show ?thesis
  proof
    assume "\<exists>L'. freed ?st1 L p k st2 L'"
    then obtain L' where f: "freed ?st1 L p k ?st3 L'" using freed_same [OF _ sb] by blast
    have "\<not> in_use ?st1 c g" if "p < c" "c < p + k" for c g using in_use_hdr [of ?st1 c g] F(4) [of c] that by auto
    then show ?thesis using at freed_spec [OF S(1,2) f F(2)] fp ub f kinds by (simp add: freed_def)
  next
    assume s: "same_blocks ?st1 st2 \<and> GC_large_free_bytes st2 = GC_large_free_bytes ?st1 \<and> os_mem st2 = []"
    have "heap_ok ?st3" by (rule heap_okI; rule same_blocks_heap(1,2) [OF same_blocks_trans [OF _ sb(1)] _ S(1,2)]) (use s sb(2) in auto)
    then show ?thesis using at s kinds by (simp add: same_blocks_def)
  qed
qed

section \<open>Sequences of operations\<close>

text \<open>An empty heap: the collector's tables exist, no block has a header.\<close>

definition heap_start :: "'a growing_heap_scheme \<Rightarrow> bool" where
  "heap_start st \<longleftrightarrow> map_ok st \<and> (\<forall>b. HDR st b = Nil_entry) \<and> tables_ok st \<and> layouts_ok st \<and> scratch_ok st \<and>
     GC_hblkfreelist st = replicate (N_HBLK_FLS + 1) 0 \<and> GC_free_bytes st = replicate (N_HBLK_FLS + 1) 0 \<and> GC_large_free_bytes st = 0"

text \<open>
  A step of the mutator: it allocates a block, frees one, or the heap grows by fresh memory. Of
  the allocations, those are considered after which the operating system still has memory to give.
\<close>

inductive heap_step :: "'a growing_heap_scheme \<Rightarrow> 'a growing_heap_scheme \<Rightarrow> bool" where
  allocate: "kind < length (GC_obj_kinds st) \<Longrightarrow> 0 < sz \<Longrightarrow> sz + (HBLKSIZE - 1) < 2 ^ 64 \<Longrightarrow>
    GC_allochblk sz kind ign st = Inr (h, st') \<Longrightarrow> os_mem st' \<noteq> [] \<Longrightarrow> heap_step st st'"
| free: "used_blocks st b \<noteq> None \<Longrightarrow> GC_freehblk b st = Inr st' \<Longrightarrow> heap_step st st'"
| grow: "length (GC_heap_sects st) < MAX_HEAP_SECTS \<Longrightarrow> fresh_memory (expansion_bytes st n) st p k \<Longrightarrow>
    \<not> (GC_max_heapsize st \<noteq> 0 \<and> of_nat (GC_heapsize st) + expansion_bytes st n > GC_max_heapsize st) \<Longrightarrow>
    GC_expand_hp_inner n st = Inr (result, st') \<Longrightarrow> heap_step st st'"

inductive heap_reachable :: "'a growing_heap_scheme \<Rightarrow> 'a growing_heap_scheme \<Rightarrow> bool" for st0 where
  start: "heap_start st0 \<Longrightarrow> heap_reachable st0 st0"
| step: "heap_reachable st0 st \<Longrightarrow> heap_step st st' \<Longrightarrow> heap_reachable st0 st'"

lemma heap_start_ok:
  assumes "heap_start st"
  shows "heap_ok st" "free_pages st = {}" "used_blocks st = Map.empty"
proof -
  note S = assms [unfolded heap_start_def]
  have h: "hdr_of st b = None" "cores st b = None" for b using S by (simp_all add: hdr_of_def cores_def)
  have "lists_ok st (\<lambda>_. [])" using S by (simp add: lists_ok_def list_ok_def nth_Cons split: nat.split)
  then have "weak_ok st (\<lambda>_. [])" using S by (simp add: weak_ok_def base_ok_def members_ok_def)
  then have "heap_inv st (\<lambda>_. []) {}" using S h by (simp add: heap_inv_def free_at_def in_use_def on_list_def)
  moreover have "ledger st (\<lambda>_. []) = 0" using S by (simp add: ledger_def free_total_def)
  ultimately show "heap_ok st" by (rule heap_okI)
  show "free_pages st = {}" "used_blocks st = Map.empty" using h by (auto simp: free_pages_def free_at_def used_blocks_def)
qed

lemma heap_step_ok:
  assumes "heap_step st st'" "heap_ok st"
  shows "heap_ok st'"
  using assms(1)
proof (cases rule: heap_step.cases)
  case (allocate kind sz ign h)
  then show ?thesis using GC_allochblk_heap [OF assms(2) allocate(1-3), of ign] by auto
next
  case (free b)
  then show ?thesis using GC_freehblk_heap [OF assms(2)] by fastforce
next
  case (grow n p k result)
  then show ?thesis using GC_expand_hp_inner_heap [OF assms(2) grow(1-3)] by auto
qed

end
