(* ===== verification/GC_New.thy ===== *)
theory GC_New
  imports GC_Blocks
begin

text \<open>
  New blocks of small objects: what the block operations leave alone beside the blocks, and the
  contract of \<open>GC_new_hblk\<close>, which puts the objects of a new block on the free list of their size.
\<close>

section \<open>Memory and settings\<close>

text \<open>Only a debugging collector writes to the memory of the blocks it drops.\<close>

definition settings :: "'a block_heap_scheme \<Rightarrow> bool \<times> memory option" where
  "settings st = (GC_use_entire_heap st, if GC_debugging_started st then None else Some (heap_mem st))"

lemma settings_more: "headers.more st' = headers.more st \<Longrightarrow> settings st' = settings st"
  by (cases st; cases st') (simp add: settings_def)

lemma settings_fields:
  "GC_use_entire_heap st' = GC_use_entire_heap st \<Longrightarrow> GC_debugging_started st' = GC_debugging_started st \<Longrightarrow>
    heap_mem st' = heap_mem st \<Longrightarrow> settings st' = settings st"
  by (simp add: settings_def)

lemma settings_simps [simp]:
  "settings (upd_hdr r f st) = settings st" "settings (GC_remove_counts h n st) = settings st"
  "settings (st\<lparr>GC_obj_map := m\<rparr>) = settings st" "settings (st\<lparr>GC_large_alloc_warn_suppressed := i\<rparr>) = settings st"
  "settings (st\<lparr>GC_drop_count := c\<rparr>) = settings st" "settings (st\<lparr>GC_large_free_bytes := x\<rparr>) = settings st"
  "settings (st\<lparr>GC_bytes_dropped := y\<rparr>) = settings st" "settings (st\<lparr>GC_fail_count := k\<rparr>) = settings st"
  "settings (st\<lparr>GC_hblkfreelist := l\<rparr>) = settings st" "settings (st\<lparr>GC_free_bytes := fb\<rparr>) = settings st"
  "settings (st\<lparr>GC_heap_sects := ss\<rparr>) = settings st"
  by (rule settings_more settings_fields; simp)+

lemma remove_from_fl_settings: "GC_remove_from_fl r n st = Inr st' \<Longrightarrow> settings st' = settings st"
  by (auto simp: GC_remove_from_fl_def Let_def elim!: rbind_InrE split: if_splits)

lemma add_to_fl_settings: "GC_add_to_fl h r st = Inr st' \<Longrightarrow> settings st' = settings st"
  by (auto simp: GC_add_to_fl_def Let_def elim!: rbind_InrE split: if_splits)

lemma split_block_settings: "GC_split_block h r n q i st = Inr st' \<Longrightarrow> settings st' = settings st"
  by (auto simp: GC_split_block_def Let_def elim!: rbind_InrE split: if_splits dest!: add_to_fl_settings)

lemma install_header_settings: "GC_install_header h st = (q, st') \<Longrightarrow> settings st' = settings st"
  by (rule settings_more) (rule GC_install_header_more(1))

lemma install_counts_settings: "GC_install_counts h n st = (ok, st') \<Longrightarrow> settings st' = settings st"
  by (rule settings_more) (rule GC_install_counts_more(1))

lemma remove_header_settings: "GC_remove_header h st = Inr st' \<Longrightarrow> settings st' = settings st"
  using GC_remove_header_more by (intro settings_more) blast

lemma get_first_part_settings: "GC_get_first_part h r bytes n st = Inr (h', st') \<Longrightarrow> settings st' = settings st"
  by (auto simp: GC_get_first_part_def Let_def elim!: rbind_InrE split: if_splits prod.splits option.splits
      dest!: remove_from_fl_settings install_header_settings add_to_fl_settings)

lemma add_map_entry_settings:
  fixes st :: "'a block_heap_scheme"
  assumes "GC_add_map_entry g st = (ok, st')"
  shows "settings st' = settings st"
proof -
  obtain p st1 where s: "GC_scratch_alloc (MAP_LEN * 2) st = (p, st1)" by fastforce
  have "settings st1 = settings st" using settings_more [OF scratch_alloc_more [of "MAP_LEN * 2" st]] s by simp
  then show ?thesis using assms by (auto simp: GC_add_map_entry_def Let_def s split: if_splits)
qed

lemma setup_header_settings: "setup_header r b sz kind ign st = Inr (ok, st') \<Longrightarrow> settings st' = settings st"
  by (auto simp: setup_header_def Let_def split: if_splits prod.splits dest!: add_map_entry_settings)

lemma drop_chunks_settings: "drop_chunks hbp r hs st = Inr st' \<Longrightarrow> settings st' = settings st"
proof (induction hs arbitrary: st)
  case (Cons h hs)
  obtain q st1 where q: "(if h = hbp then (Some r, st) else GC_install_header h st) = (q, st1)" by fastforce
  have k1: "settings st1 = settings st" using q install_header_settings by (auto split: if_splits)
  show ?case
  proof (cases q)
    case None
    then show ?thesis using Cons q k1 by (simp split: if_splits)
  next
    case (Some p)
    let ?clear = "\<lambda>st2. if GC_debugging_started st2
         then st2\<lparr>heap_mem := (\<lambda>a. if h * HBLKSIZE \<le> a \<and> a < (h + 1) * HBLKSIZE then 0 else heap_mem st2 a)\<rparr> else st2"
    obtain ok st2 where s: "setup_header p h HBLKSIZE PTRFREE False st1 = Inr (ok, st2)" "drop_chunks hbp r hs (?clear st2) = Inr st'"
      using Cons.prems q Some by (auto elim!: rbind_InrE split: if_splits)
    have "settings (?clear st2) = settings st2" by (simp add: settings_def)
    then show ?thesis using Cons.IH [OF s(2)] k1 setup_header_settings [OF s(1)] by simp
  qed
qed simp

lemma drop_block_settings: "drop_block hbp r n st = Inr st' \<Longrightarrow> settings st' = settings st"
  by (auto simp: drop_block_def Let_def elim!: rbind_InrE dest!: remove_from_fl_settings drop_chunks_settings)

lemma take_part_settings: "take_part h r m n st = Inr (c, st') \<Longrightarrow> settings st' = settings st"
  by (auto simp: take_part_def elim!: rbind_InrE dest!: get_first_part_settings)

lemma try_listed_settings: "try_listed ign m n hbp r st = Inr (c, st') \<Longrightarrow> settings st' = settings st"
  by (auto simp: try_listed_def Let_def elim!: rbind_InrE split: if_splits prod.splits option.splits
      dest!: take_part_settings install_header_settings split_block_settings drop_block_settings)

lemma try_block_settings: "try_block m kind ign n split b r st = Inr (c, st') \<Longrightarrow> settings st' = settings st"
  by (auto simp: try_block_def Let_def elim!: rbind_InrE split: if_splits dest!: take_part_settings try_listed_settings)

lemma search_list_settings: "search_list k m kind ign n split b st = Inr (h, r, st') \<Longrightarrow> settings st' = settings st"
proof (induction k arbitrary: b st)
  case (Suc k)
  show ?case
  proof (cases "b = 0")
    case False
    obtain q c st1 where t: "try_block m kind ign n split b q st = Inr (c, st1)"
      "(case c of Take h r \<Rightarrow> Inr (h, r, st1) | Skip b \<Rightarrow> search_list k m kind ign n split b st1) = Inr (h, r, st')"
      using Suc.prems False by (auto elim!: rbind_InrE)
    then show ?thesis using Suc.IH try_block_settings [OF t(1)] by (cases c) auto
  qed (use Suc.prems in simp)
qed simp

lemma allochblk_nth_settings: "GC_allochblk_nth sz kind ign n split st = Inr (h, st') \<Longrightarrow> settings st' = settings st"
  by (auto simp: GC_allochblk_nth_def Let_def simp del: search_list.simps elim!: rbind_InrE split: if_splits prod.splits
      dest!: search_list_settings install_counts_settings setup_header_settings)

lemma try_lists_settings: "try_lists sz kind ign is st = Inr (h, st') \<Longrightarrow> settings st' = settings st"
  by (induction "is" arbitrary: st) (auto elim!: rbind_InrE split: if_splits dest!: allochblk_nth_settings)

lemma split_limit_settings: "split_limit st = (lim, st') \<Longrightarrow> settings st' = settings st"
  by (auto simp: split_limit_def GC_should_collect_def Let_def settings_def split: if_splits)

lemma GC_allochblk_settings: "GC_allochblk sz kind ign st = Inr (h, st') \<Longrightarrow> settings st' = settings st"
  by (auto simp: GC_allochblk_def Let_def elim!: rbind_InrE split: if_splits prod.splits
      dest!: allochblk_nth_settings try_lists_settings split_limit_settings)

lemma GC_freehblk_settings: "GC_freehblk b st = Inr st' \<Longrightarrow> settings st' = settings st"
  by (auto simp: GC_freehblk_def Let_def elim!: rbind_InrE split: if_splits entry.splits option.splits
      dest!: remove_from_fl_settings remove_header_settings add_to_fl_settings)

lemma GC_add_to_heap_settings:
  fixes st :: "'a growing_heap_scheme"
  assumes "GC_add_to_heap p bytes st = Inr st'"
  shows "settings st' = settings st"
proof -
  obtain p1 b1 where s: "skip_low p bytes = (p1, b1)" by fastforce
  obtain q st1 where i: "GC_install_header p1 st = (q, st1)" by fastforce
  have "settings st' = settings st" if "GC_freehblk p1 (upd_hdr r f (st1\<lparr>GC_heap_sects := ss\<rparr>)) = Inr st2"
    "GC_use_entire_heap st' = GC_use_entire_heap st2" "GC_debugging_started st' = GC_debugging_started st2" "heap_mem st' = heap_mem st2" for r f ss st2
    using GC_freehblk_settings [OF that(1)] settings_fields [OF that(2-4)] install_header_settings [OF i] by simp
  then show ?thesis using assms install_header_settings [OF i]
    by (auto simp: GC_add_to_heap_def Let_def s i elim!: rbind_InrE split: if_splits option.splits)
qed

lemma GC_expand_hp_inner_settings:
  fixes st :: "'a growing_heap_scheme"
  assumes "GC_expand_hp_inner n st = Inr (result, st')"
  shows "settings st' = settings st"
proof -
  have "settings (snd (GET_MEM m st)) = settings st" for m by (auto simp: GET_MEM_def settings_def split: list.split)
  moreover have "settings (plausible_limits a b c st1) = settings st1" for a b c and st1 :: "'a growing_heap_scheme"
    by (simp add: plausible_limits_def Let_def settings_def)
  moreover have "settings (st1\<lparr>GC_prev_heap_addr := a, GC_last_heap_addr := b\<rparr>) = settings st1"
    "settings (st1\<lparr>GC_collect_at_heapsize := c\<rparr>) = settings st1" for a b c and st1 :: "'a growing_heap_scheme"
    by (simp_all add: settings_def)
  ultimately show ?thesis using assms
    by (auto simp: GC_expand_hp_inner_def Let_def elim!: rbind_InrE split: prod.splits if_splits
        dest!: GC_add_to_heap_settings) (metis snd_conv)+
qed

section \<open>New objects\<close>

lemma GC_set_hdr_marks_same [simp]:
  "hb_free (GC_set_hdr_marks h) = hb_free h" "hb_sz (GC_set_hdr_marks h) = hb_sz h" "hb_block (GC_set_hdr_marks h) = hb_block h"
  "hb_obj_kind (GC_set_hdr_marks h) = hb_obj_kind h" "hb_next (GC_set_hdr_marks h) = hb_next h" "hb_prev (GC_set_hdr_marks h) = hb_prev h"
  by (simp_all add: GC_set_hdr_marks_def Let_def)

text \<open>Changes of the header of a block in use that keep its size.\<close>

lemma used_hdr_change:
  fixes st :: "'a block_heap_scheme"
  assumes "heap_inv st L B" "in_use st h g" "HDR st h = Hdr r" "\<And>x. hb_free (f x) = hb_free x" "\<And>x. hb_sz (f x) = hb_sz x"
  shows "heap_inv (upd_hdr r f st) L B" "ledger (upd_hdr r f st) L = ledger st L"
    "free_pages (upd_hdr r f st) = free_pages st" "used_blocks (upd_hdr r f st) = (used_blocks st)(h \<mapsto> core (f (hdrs st ! r)))"
proof -
  let ?st = "upd_hdr r f st"
  note I = heap_invD [OF assms(1)] and W = weak_okD [OF heap_invD(1) [OF assms(1)]]
  have g: "g = core (hdrs st ! r)" "\<not> hb_free (hdrs st ! r)" using assms(2,3) by (auto simp: in_use_def cores_eq)
  have c: "cores ?st = (cores st)(h \<mapsto> core (f (hdrs st ! r)))" using cores_upd [OF W(1) assms(3)] by (simp add: fun_eq_iff)
  have bs: "bsize ?st b = bsize st b" for b
    using hdr_of_upd [OF W(1) assms(3), of f] hdr_of_eq [OF assms(3)] assms(5) by (simp add: bsize_def)
  have sp: "span ?st b = span st b" for b by (simp add: span_def bs)
  have fr: "free_at ?st b = free_at st b" for b
    using c g(2) assms(2,4) by (auto simp: free_at_def in_use_def)
  have use: "in_use ?st b x \<Longrightarrow> \<exists>y. in_use st b y \<and> hb_sz y = hb_sz x" for b x
    using c g assms(2,5) by (auto simp: in_use_def split: if_splits)
  show "free_pages ?st = free_pages st" by (simp add: free_pages_def fr sp)
  show "used_blocks ?st = (used_blocks st)(h \<mapsto> core (f (hdrs st ! r)))"
    using c g(2) assms(4) by (auto simp: used_blocks_def fun_eq_iff)
  show "ledger ?st L = ledger st L" using sizes_cong [of _ ?st st] bs more_heap(5) [of ?st st] by (simp add: ledger_def free_total_def)
  have use2: "in_use st b x \<Longrightarrow> \<exists>y. in_use ?st b y \<and> hb_sz y = hb_sz x" for b x
    using c g assms(2,4,5) by (cases "b = h") (auto simp: in_use_def)
  have uo: "used_ok ?st b x = used_ok st b y" if "hb_sz y = hb_sz x" for b x y using that by (simp add: used_ok_def nblocks_def)
  have w: "weak_ok ?st L"
  proof (rule weak_ok_change(1) [OF heap_invD(1) [OF assms(1)], where C = "{h}"])
    show "base_ok ?st" using base_ok_more [OF W(5), of ?st] W(1) by simp
    show "HDR ?st d = HDR st d \<and> hdr_of ?st d = hdr_of st d" if "d \<notin> {h}" for d using hdr_of_upd [OF W(1) assms(3), of f] that by simp
    show "\<not> (d \<le> c \<and> c < d + span st d)" if "on_list L d" "c \<in> {h}" for d c
      using regionI [OF that(1)] region_not_used(1) [OF assms(1)] assms(2) that(2) by blast
  qed simp_all
  have sc: "scratch_ok ?st" using I(2) by (simp add: scratch_ok_def upd_hdr_def)
  show "heap_inv ?st L B"
    unfolding heap_inv_def fr sp
  proof (intro conjI allI impI w sc)
    show "used_ok ?st b x" if "in_use ?st b x" for b x using use [OF that] I(4) uo by metis
    show "\<exists>b x. in_use ?st b x \<and> b < e \<and> e < b + nblocks x" if j: "HDR ?st e = Jump d" for e d
    proof -
      have "HDR st e = Jump d" using j by simp
      then obtain b x where b: "in_use st b x" "b < e" "e < b + nblocks x" using I(5) by blast
      obtain y where y: "in_use ?st b y" "hb_sz y = hb_sz x" using use2 [OF b(1)] by blast
      then have "e < b + nblocks y" using b(3) by (simp add: nblocks_def)
      then show ?thesis using y(1) b(2) by blast
    qed
  qed (use I(3,6) in auto)
qed

lemma kinds_change:
  fixes st :: "'a block_heap_scheme"
  assumes "heap_inv st L B" "length ks = length (GC_obj_kinds st)"
  shows "heap_inv (st\<lparr>heap_mem := m, GC_obj_kinds := ks\<rparr>) L B" "ledger (st\<lparr>heap_mem := m, GC_obj_kinds := ks\<rparr>) L = ledger st L"
    "free_pages (st\<lparr>heap_mem := m, GC_obj_kinds := ks\<rparr>) = free_pages st"
    "used_blocks (st\<lparr>heap_mem := m, GC_obj_kinds := ks\<rparr>) = used_blocks st"
proof -
  let ?st = "st\<lparr>heap_mem := m, GC_obj_kinds := ks\<rparr>"
  note W = weak_okD [OF heap_invD(1) [OF assms(1)]]
  have H: "HDR ?st = HDR st" "hdr_of ?st = hdr_of st" "map_ok ?st = map_ok st"
    by (rule HDR_cong hdr_of_cong map_ok_cong; simp)+
  then have c: "cores ?st = cores st" by (simp add: cores_def fun_eq_iff)
  have bs: "bsize ?st b = bsize st b" for b using H by (simp add: bsize_def)
  have sp: "span ?st b = span st b" for b by (simp add: span_def bs)
  have fr: "free_at ?st b = free_at st b" "in_use ?st b h = in_use st b h" for b h by (simp_all add: free_at_def in_use_def c)
  have base: "base_ok ?st" using W(5) H(3) assms(2) by (simp add: base_ok_def tables_ok_def layouts_ok_def)
  have w: "weak_ok ?st L"
    by (rule weak_ok_change(1) [OF heap_invD(1) [OF assms(1)] base, where C = "{}"]) (use H in simp_all)
  have "used_ok ?st b h = used_ok st b h" for b h by (simp add: used_ok_def H)
  then show "heap_inv ?st L B" using assms(1) w unfolding heap_inv_def fr sp H by (simp add: scratch_ok_def)
  show "free_pages ?st = free_pages st" "used_blocks ?st = used_blocks st"
    by (simp_all add: free_pages_def fr sp used_blocks_def c fun_eq_iff)
  show "ledger ?st L = ledger st L" using sizes_cong [of _ ?st st] bs by (simp add: ledger_def free_total_def)
qed

lemma links_cong: "(\<And>x. x \<in> set xs \<Longrightarrow> m' x = m x) \<Longrightarrow> links m' p xs e = links m p xs e"
  by (induction xs arbitrary: p) auto

lemma links_append: "links m p xs q \<Longrightarrow> links m q ys e \<Longrightarrow> links m p (xs @ ys) e"
  by (induction xs arbitrary: p) auto

text \<open>
  \<open>GC_new_hblk\<close> finds no block, or the objects of the block \<open>h\<close>, which was free, are on the list
  before those that were there.
\<close>

definition new_objects :: "'a block_heap_scheme \<Rightarrow> nat \<Rightarrow> nat \<Rightarrow> nat \<Rightarrow> 'a block_heap_scheme \<Rightarrow> bool" where
  "new_objects st gran kind h st' \<longleftrightarrow>
     h \<in> free_pages st - free_pages st' \<and>
     (\<exists>g. used_blocks st' h = Some g \<and> hb_sz g = GRANULES_TO_BYTES gran \<and> hb_obj_kind g = kind) \<and>
     GC_obj_kinds st' = (GC_obj_kinds st)[kind := (GC_obj_kinds st ! kind)\<lparr>ok_freelist :=
       (ok_freelist (GC_obj_kinds st ! kind))[gran := ok_freelist (GC_obj_kinds st' ! kind) ! gran]\<rparr>] \<and>
     links (heap_mem st') (ok_freelist (GC_obj_kinds st' ! kind) ! gran)
       (rev (objects_of (h * HBLKSIZE) (GRANULES_TO_BYTES gran))) (ok_freelist (GC_obj_kinds st ! kind) ! gran) \<and>
     (\<not> GC_debugging_started st \<longrightarrow> (\<forall>a. \<not> (h * HBLKSIZE \<le> a \<and> a < h * HBLKSIZE + HBLKSIZE) \<longrightarrow> heap_mem st' a = heap_mem st a))"

text \<open>The marks of a block of objects that are never collected.\<close>

definition with_marks :: "nat \<Rightarrow> nat \<Rightarrow> nat \<Rightarrow> 'a block_heap_scheme \<Rightarrow> 'a block_heap_scheme" where
  "with_marks kind h r st = (if IS_UNCOLLECTABLE kind then upd_hdr r GC_set_hdr_marks st else st)"

lemma with_marks_ok:
  assumes "heap_inv st L {}" "ledger st L = 0" "used_blocks st h = Some g" "HDR st h = Hdr r"
  shows "heap_inv (with_marks kind h r st) L {}" "ledger (with_marks kind h r st) L = 0" "free_pages (with_marks kind h r st) = free_pages st"
    "\<exists>g'. used_blocks (with_marks kind h r st) h = Some g' \<and> hb_sz g' = hb_sz g \<and> hb_obj_kind g' = hb_obj_kind g"
proof -
  have u: "in_use st h g" using assms(3) used_blocks_iff by blast
  note C = used_hdr_change [OF assms(1) u assms(4), of GC_set_hdr_marks, OF GC_set_hdr_marks_same(1,2)]
  have "g = core (hdrs st ! r)" using u assms(4) by (auto simp: in_use_def cores_eq)
  then have "hb_sz (core (GC_set_hdr_marks (hdrs st ! r))) = hb_sz g" "hb_obj_kind (core (GC_set_hdr_marks (hdrs st ! r))) = hb_obj_kind g"
    by (simp_all add: core_def)
  then show "heap_inv (with_marks kind h r st) L {}" "ledger (with_marks kind h r st) L = 0" "free_pages (with_marks kind h r st) = free_pages st"
    "\<exists>g'. used_blocks (with_marks kind h r st) h = Some g' \<and> hb_sz g' = hb_sz g \<and> hb_obj_kind g' = hb_obj_kind g"
    using C assms by (simp_all add: with_marks_def)
qed

lemma GC_new_hblk_eq:
  assumes "kind < length (GC_obj_kinds st)" "gran < length (ok_freelist (GC_obj_kinds st ! kind))"
    and "GC_allochblk (GRANULES_TO_BYTES gran) kind False st = Inr (h, st1)" "h \<noteq> 0" "HDR st1 h = Hdr r"
  shows "GC_new_hblk gran kind st =
    (let st2 = with_marks kind h r st1; k = GC_obj_kinds st2 ! kind;
         clear = (if GC_debugging_started st then True else ok_init (GC_obj_kinds st ! kind))
     in rbind (GC_build_fl h (GRANULES_TO_WORDS gran) clear (ok_freelist k ! gran) (heap_mem st2)) (\<lambda>(p, m).
          Inr (st2\<lparr>heap_mem := m, GC_obj_kinds := (GC_obj_kinds st2)[kind := k\<lparr>ok_freelist := (ok_freelist k)[gran := p]\<rparr>]\<rparr>)))"
  using assms by (simp add: GC_new_hblk_def Let_def with_marks_def get_hdr_eq)

lemma GC_new_hblk_memory:
  assumes "GC_new_hblk gran kind st = Inr st'" "GC_allochblk (GRANULES_TO_BYTES gran) kind False st = Inr (h, st1)"
  shows "os_mem st' = os_mem st1"
  using assms by (auto simp: GC_new_hblk_def Let_def upd_hdr_def elim!: rbind_InrE split: if_splits)

lemma GC_new_hblk_heap:
  assumes "heap_ok st" "kind < length (GC_obj_kinds st)" "gran < length (ok_freelist (GC_obj_kinds st ! kind))"
    and gran: "0 < gran" "gran \<le> MAXOBJGRANULES"
  shows "\<exists>st'. GC_new_hblk gran kind st = Inr st' \<and> (os_mem st' \<noteq> [] \<longrightarrow> heap_ok st' \<and>
    (GC_allochblk (GRANULES_TO_BYTES gran) kind False st = Inr (0, st') \<or> (\<exists>h. new_objects st gran kind h st')))"
proof -
  let ?sz = "GRANULES_TO_BYTES gran"
  have sz: "0 < ?sz" "?sz + (HBLKSIZE - 1) < 2 ^ 64" "?sz \<le> MAXOBJBYTES"
    using gran by (simp_all add: GRANULES_TO_BYTES_def GRANULE_BYTES_def MAXOBJGRANULES_def BYTES_TO_GRANULES_def MAXOBJBYTES_def HBLKSIZE_def)
  have one: "OBJ_SZ_TO_BLOCKS ?sz = 1" using sz by (simp add: OBJ_SZ_TO_BLOCKS_def MAXOBJBYTES_def HBLKSIZE_def)
  have words: "0 < GRANULES_TO_WORDS gran" "GRANULES_TO_WORDS gran \<le> HBLKSIZE div 8" "8 * GRANULES_TO_WORDS gran = ?sz"
    using gran by (simp_all add: GRANULES_TO_WORDS_def GRANULES_TO_BYTES_def GRANULE_BYTES_def MAXOBJGRANULES_def BYTES_TO_GRANULES_def MAXOBJBYTES_def HBLKSIZE_def)
  obtain L where L: "heap_inv st L {}" "ledger st L = 0" using assms(1) by (auto simp: heap_ok_def)
  obtain h st1 where a: "GC_allochblk ?sz kind False st = Inr (h, st1)" "alloc_result st L {} ?sz kind False h st1"
    using GC_allochblk_ok [OF L(1) assms(2) sz(1,2)] by blast
  note S = alloc_result_spec [OF L a(2)]
  show ?thesis
  proof (cases "h = 0")
    case True
    then have "GC_new_hblk gran kind st = Inr st1" using a(1) assms(2,3) by (simp add: GC_new_hblk_def Let_def)
    then show ?thesis using S(1) a(1) True by blast
  next
    case False
    obtain L1 B1 where a1: "alloc_step st L {} st1 L1 B1" "handed_out st L ?sz kind False h st1 L1"
      using a(2) False by (auto simp: alloc_result_def)
    then obtain g r where g: "in_use st1 h g" "object_header g h ?sz kind False" "HDR st1 h = Hdr r"
      using in_use_hdr by (fastforce simp: handed_out_def)
    have kinds: "GC_obj_kinds st1 = GC_obj_kinds st" using a1(1) by (simp add: alloc_step_def)
    let ?st2 = "with_marks kind h r st1" and ?k = "GC_obj_kinds st ! kind"
    let ?clear = "if GC_debugging_started st then True else ok_init ?k"
    have kinds2: "GC_obj_kinds ?st2 = GC_obj_kinds st" by (simp add: with_marks_def kinds upd_hdr_def)
    have set2: "settings ?st2 = settings st" using GC_allochblk_settings [OF a(1)] by (simp add: with_marks_def)
    obtain p m where b: "GC_build_fl h (GRANULES_TO_WORDS gran) ?clear (ok_freelist ?k ! gran) (heap_mem ?st2) = Inr (p, m)"
      "fl_built (h * HBLKSIZE) ?sz ?clear (ok_freelist ?k ! gran) (heap_mem ?st2) p m"
      using GC_build_fl_ok [OF words(1,2)] unfolding words(3) by blast
    let ?ks = "(GC_obj_kinds st)[kind := ?k\<lparr>ok_freelist := (ok_freelist ?k)[gran := p]\<rparr>]"
    let ?st3 = "?st2\<lparr>heap_mem := m, GC_obj_kinds := ?ks\<rparr>"
    have run: "GC_new_hblk gran kind st = Inr ?st3"
      using b(1) unfolding GC_new_hblk_eq [OF assms(2,3) a(1) False g(3)] Let_def kinds2 by simp
    have "heap_ok ?st3 \<and> new_objects st gran kind h ?st3" if "os_mem ?st3 \<noteq> []"
    proof -
      have os: "os_mem st1 \<noteq> []" using that by (simp add: with_marks_def upd_hdr_def split: if_splits)
      then have I1: "heap_inv st1 L1 {}" "ledger st1 L1 = 0" using a1(1) L(2) by (auto simp: alloc_step_def)
      note M = with_marks_ok [OF I1 _ g(3), of g kind, unfolded used_blocks_iff, OF g(1)]
      note K = kinds_change [OF M(1), of ?ks m, unfolded kinds2, OF length_list_update]
      have "h \<in> free_pages st - free_pages st1" using S(2) [OF os] False one by (auto simp: alloc_spec_def)
      moreover have "links m p (rev (objects_of (h * HBLKSIZE) ?sz)) (ok_freelist ?k ! gran)" using b(2) by (simp add: fl_built_def)
      moreover have "\<not> GC_debugging_started st \<longrightarrow> (\<forall>a. \<not> (h * HBLKSIZE \<le> a \<and> a < h * HBLKSIZE + HBLKSIZE) \<longrightarrow> m a = heap_mem st a)"
        using b(2) set2 by (auto simp: fl_built_def settings_def split: if_splits)
      ultimately have "new_objects st gran kind h ?st3"
        using M(3,4) K(3,4) g(2) assms(2,3) by (auto simp: new_objects_def object_header_def used_blocks_iff)
      then show ?thesis using heap_okI [OF K(1)] K(2) M(2) by simp
    qed
    then show ?thesis using run by blast
  qed
qed

section \<open>The heap in terms of pages\<close>

text \<open>Blocks in use overlap neither one another nor free pages.\<close>

definition blocks_apart :: "'a headers_scheme \<Rightarrow> bool" where
  "blocks_apart st \<longleftrightarrow> (\<forall>b g. used_blocks st b = Some g \<longrightarrow> {b..<b + nblocks g} \<inter> free_pages st = {} \<and>
     (\<forall>c h. used_blocks st c = Some h \<longrightarrow> c \<noteq> b \<longrightarrow> {b..<b + nblocks g} \<inter> {c..<c + nblocks h} = {}))"

lemma heap_ok_apart:
  assumes "heap_ok st"
  shows "blocks_apart st"
  unfolding blocks_apart_def used_blocks_iff
proof (intro allI impI conjI)
  obtain L where L: "heap_inv st L {}" using assms by (auto simp: heap_ok_def)
  fix b g
  assume b: "in_use st b g"
  show "{b..<b + nblocks g} \<inter> free_pages st = {}"
    using used_not_region [OF L b] unfolding region_free [OF L, symmetric] by auto
  show "{b..<b + nblocks g} \<inter> {c..<c + nblocks h} = {}" if c: "in_use st c h" "c \<noteq> b" for c h
    using used_disjoint [OF L b c(1)] c(2) by auto
qed

lemma blocks_pos: "0 < sz \<Longrightarrow> sz + (HBLKSIZE - 1) < 2 ^ 64 \<Longrightarrow> 0 < OBJ_SZ_TO_BLOCKS sz"
  by (simp add: OBJ_SZ_TO_BLOCKS_def HBLKSIZE_def)

text \<open>Consecutive free pages belong to one free block, since free neighbours are merged.\<close>

lemma free_run:
  assumes "heap_inv st L {}" "0 < m" "{c..<c + m} \<subseteq> free_pages st"
  shows "\<exists>b. on_list L b \<and> m \<le> span st b"
proof -
  have block: "\<exists>b. on_list L b \<and> b \<le> x \<and> x < b + span st b" if "x \<in> {c..<c + m}" for x
    using that assms(3) unfolding region_free [OF assms(1), symmetric] region_def by blast
  obtain b where b: "on_list L b" "b \<le> c" "c < b + span st b" using block [of c] assms(2) by auto
  have "c + m \<le> b + span st b"
  proof (rule ccontr)
    let ?e = "b + span st b"
    assume "\<not> c + m \<le> ?e"
    then obtain d where d: "on_list L d" "d \<le> ?e" "?e < d + span st d" using block [of ?e] b(3) by auto
    note M = weak_okD(6) [OF heap_invD(1) [OF assms(1)]]
    have "d \<noteq> b" using d(3) by auto
    then have "?e \<le> d" using members_disjoint [OF M [OF b(1)] M [OF d(1)]] d(3) by linarith
    then show False using heap_invD(6) [OF assms(1) b(1) d(1)] d(2) by simp
  qed
  then show ?thesis using b by (intro exI [of _ b]) simp
qed

text \<open>A free block is recognised when it is to be freed.\<close>

lemma freehblk_free_at:
  assumes "heap_ok st" "free_at st b"
  shows "GC_freehblk b st = Inl (Abort ''Duplicate large block deallocation'')"
proof -
  obtain L where L: "heap_inv st L {}" using assms(1) by (auto simp: heap_ok_def)
  have "on_list L b" using heap_invD(3) [OF L assms(2)] by simp
  note M = member_okD [OF weak_okD(6) [OF heap_invD(1) [OF L] this]] and W = weak_okD(1) [OF heap_invD(1) [OF L]]
  obtain r where r: "HDR st b = Hdr r" using M(5) by blast
  have h: "hb_free (hdrs st ! r)" "hb_sz (hdrs st ! r) = span st b * HBLKSIZE"
    using assms(2) M(2) hdr_of_eq [OF r] by (auto simp: free_at_def cores_def core_def bsize_def)
  have small: "span st b * HBLKSIZE < 2 ^ 63" using M(7) by (simp add: add_mult_distrib)
  have blocks: "HBLKSIZE * OBJ_SZ_TO_BLOCKS (hb_sz (hdrs st ! r)) = span st b * HBLKSIZE"
    using h(2) small by (simp add: OBJ_SZ_TO_BLOCKS_def HBLKSIZE_def)
  have "\<not> signed_word (span st b * HBLKSIZE) \<le> 0" using signed_word_pos [OF _ small] M(1) by simp
  then show ?thesis
    using r h(1) map_ok_hdr(1) [OF W r] by (simp add: GC_freehblk_def get_hdr_eq Let_def blocks is_free_def hdrs_upd_hdr)
qed

end
