(* ===== verification/GC_Block_Properties.thy ===== *)
theory GC_Block_Properties
  imports GC_New GC_Properties
begin

text \<open>
  The properties of the block allocator, each with its statement in words and an instance at a
  concrete heap.
\<close>

section \<open>A concrete heap\<close>

definition empty_heap :: "unit growing_heap_scheme" where
  "empty_heap = \<lparr>bis = [nil_bi], top_index = replicate TOP_SZ 0, all_bis = None, all_bis_end = None,
     hdrs = [], hdr_free_list = [], scratch_free = 2 ^ 20, scratch_end = 2 ^ 30, scratch_last_end = 2 ^ 30,
     os_mem = [2 ^ 31, 2 ^ 32],
     GC_old_normal_bl = None, GC_incomplete_normal_bl = None,
     GC_old_stack_bl = Some (replicate PHT_SIZE 0), GC_incomplete_stack_bl = Some (replicate PHT_SIZE 0),
     GC_total_stack_black_listed = 0, GC_black_list_spacing = MINHINCR * HBLKSIZE,
     GC_all_interior_pointers = True, GC_modws_valid_offsets = replicate 8 False, GC_heapsize = 0, GC_heap_sects = [],
     GC_valid_offsets = replicate VALID_OFFSET_SZ True, GC_obj_map = replicate (MAXOBJGRANULES + 1) None,
     GC_obj_kinds = initial_obj_kinds, GC_gc_no = 0,
     GC_hblkfreelist = replicate (N_HBLK_FLS + 1) 0, GC_free_bytes = replicate (N_HBLK_FLS + 1) 0,
     GC_large_free_bytes = 0, GC_large_allocd_bytes = 0, GC_max_large_allocd_bytes = 0, GC_bytes_allocd = 0,
     GC_bytes_dropped = 0, GC_bytes_freed = 0, GC_bytes_finalized = 0, GC_finalizer_bytes_freed = 0,
     GC_non_gc_bytes = 0, GC_non_gc_bytes_at_gc = 0, GC_composite_in_use = 0, GC_atomic_in_use = 0, GC_root_size = 0,
     stack_size = 0, GC_free_space_divisor = 3, GC_requested_heapsize = 0, GC_collect_at_heapsize = - 1,
     last_min_bytes_allocd = 0, last_gc_no = 0, GC_fail_count = 0, GC_drop_count = 0, GC_large_alloc_warn_suppressed = 0,
     GC_large_alloc_warn_interval = 5, GC_use_entire_heap = True, GC_dont_gc = False, GC_incremental = False,
     GC_find_leak = False, GC_debugging_started = False, heap_mem = (\<lambda>_. 0),
     GC_page_size = 4096, GC_max_heapsize = 0, GC_least_plausible_heap_addr = - 1, GC_greatest_plausible_heap_addr = 0,
     GC_last_heap_addr = 0, GC_prev_heap_addr = 0\<rparr>"

text \<open>One expansion adds the 16 blocks from this one on.\<close>

definition first_block :: nat where "first_block = 2 ^ 19"

lemma empty_heap_start: "heap_start empty_heap" "HDR empty_heap b = Nil_entry"
proof -
  have i: "index_ok empty_heap" "HDR empty_heap b = Nil_entry" for b
    using init_index_ok [of empty_heap] by (simp_all add: empty_heap_def)
  then have "map_ok empty_heap" by (simp add: map_ok_def hdrs_ok_def) (simp add: empty_heap_def)
  moreover have "layouts_ok empty_heap"
    by (simp add: layouts_ok_def empty_heap_def initial_obj_kinds_def PTRFREE_def nth_Cons split: nat.split)
  ultimately show "heap_start empty_heap" "HDR empty_heap b = Nil_entry"
    using i by (simp_all add: heap_start_def) (simp add: empty_heap_def tables_ok_def scratch_ok_def)
qed

lemma empty_heap_memory: "fresh_memory (expansion_bytes empty_heap 0) empty_heap first_block 16"
proof -
  have "expansion_bytes empty_heap 0 = 65536"
    by (simp add: expansion_bytes_def empty_heap_def MINHINCR_def HBLKSIZE_def)
  then show ?thesis using empty_heap_start(2) heap_start_ok(2) [OF empty_heap_start(1)]
    by (simp add: fresh_memory_def first_block_def HBLKSIZE_def) (simp add: empty_heap_def)
qed

definition grown_heap :: "unit growing_heap_scheme \<Rightarrow> bool" where
  "grown_heap st \<longleftrightarrow> heap_reachable empty_heap st \<and> heap_ok st \<and> free_pages st = {first_block..<first_block + 16} \<and> used_blocks st = Map.empty \<and>
     os_mem st = [2 ^ 32] \<and> roomy (2 ^ 29) st \<and> GC_obj_kinds st = initial_obj_kinds \<and> settings st = (True, Some (\<lambda>_. 0))"

lemma grown_heap_exists: "\<exists>st. grown_heap st \<and> GC_expand_hp_inner 0 empty_heap = Inr (True, st)"
proof -
  let ?st = empty_heap
  note O = heap_start_ok [OF empty_heap_start(1)]
  have lim: "\<not> (GC_max_heapsize ?st \<noteq> 0 \<and> of_nat (GC_heapsize ?st) + expansion_bytes ?st 0 > GC_max_heapsize ?st)"
    and sects: "length (GC_heap_sects ?st) < MAX_HEAP_SECTS" by (simp_all add: empty_heap_def MAX_HEAP_SECTS_def)
  obtain st where st: "GC_expand_hp_inner 0 ?st = Inr (True, st)" "heap_ok st" "GC_obj_kinds st = GC_obj_kinds ?st"
    "os_mem st \<noteq> [] \<longrightarrow> free_spec (free_pages ?st) (used_blocks ?st) first_block 16 (free_pages st) (used_blocks st)"
    using GC_expand_hp_inner_heap [OF O(1) sects empty_heap_memory lim] by blast
  let ?st1 = "got_memory (expansion_bytes ?st 0) ?st"
  obtain at where e: "GC_expand_hp_inner 0 ?st =
      rbind (GC_add_to_heap first_block (16 * HBLKSIZE) ?st1) (\<lambda>st. Inr (True, st\<lparr>GC_collect_at_heapsize := at st\<rparr>))"
    using expand_eq [OF empty_heap_memory lim] by (rule exE)
  obtain st2 where st2: "GC_add_to_heap first_block (16 * HBLKSIZE) ?st1 = Inr st2"
    "Inr (True, st2\<lparr>GC_collect_at_heapsize := at st2\<rparr>) = (Inr (True, st) :: (bool \<times> unit growing_heap_scheme) res)"
    by (rule rbind_InrE [OF trans [OF e [symmetric] st(1)]])
  then have st_eq: "st = st2\<lparr>GC_collect_at_heapsize := at st2\<rparr>" by (simp only: sum.inject prod.inject)
  have mem: "os_mem ?st1 = [2 ^ 32]" "scratch_free ?st1 = 2 ^ 20" "scratch_end ?st1 = 2 ^ 30"
    by (simp_all add: got_memory_def plausible_limits_def Let_def) (simp_all add: empty_heap_def)
  have "roomy (BI_COST + HDR_COST) ?st1" using mem by (simp add: roomy_def BI_COST_def HDR_COST_def)
  from GC_add_to_heap_takes [OF this st2(1)] have t: "os_mem st = [2 ^ 32]" "roomy (2 ^ 29) st"
    using mem st_eq by (simp_all add: takes_def roomy_def BI_COST_def HDR_COST_def)
  have F: "free_spec (free_pages ?st) (used_blocks ?st) first_block 16 (free_pages st) (used_blocks st)" using st(4) t(1) by simp
  have "heap_reachable ?st st"
    by (rule heap_reachable.step [OF heap_reachable.start [OF empty_heap_start(1)] heap_step.grow [OF sects empty_heap_memory lim st(1)]])
  moreover have "settings st = (True, Some (\<lambda>_. 0))"
    using GC_expand_hp_inner_settings [OF st(1)] by (simp add: settings_def) (simp add: empty_heap_def)
  ultimately have "grown_heap st"
    using st(2,3) t F O(2,3) by (simp add: grown_heap_def free_spec_def fun_eq_iff) (simp add: empty_heap_def)
  then show ?thesis using st(1) by blast
qed

lemma entire_heap_splits: "GC_use_entire_heap st \<Longrightarrow> fst (split_limit st) = N_HBLK_FLS"
  by (simp add: split_limit_def)

text \<open>Allocations of at most 16 blocks succeed in the grown heap.\<close>

lemma grown_alloc:
  assumes "grown_heap st" "kind < 5" "0 < sz" "sz \<le> 16 * HBLKSIZE" and u: "OBJ_SZ_TO_BLOCKS sz = n" "unlisted kind n"
  shows "heap_ok st" "kind < length (GC_obj_kinds st)" "sz + (HBLKSIZE - 1) < 2 ^ 64" "GC_use_entire_heap st"
    "{first_block..<first_block + n} \<subseteq> free_pages st"
    "\<exists>h st'. GC_allochblk sz kind False st = Inr (h, st') \<and> h \<noteq> 0 \<and> os_mem st' = [2 ^ 32]"
proof -
  note G = assms(1) [unfolded grown_heap_def]
  show ok: "heap_ok st" and k: "kind < length (GC_obj_kinds st)" and use: "GC_use_entire_heap st"
    using G assms(2) by (simp_all add: initial_obj_kinds_def settings_def)
  show sz: "sz + (HBLKSIZE - 1) < 2 ^ 64" using assms(4) by (simp add: HBLKSIZE_def)
  have m: "n \<le> 16" using assms(4) unfolding u(1) [symmetric] by (simp add: OBJ_SZ_TO_BLOCKS_def HBLKSIZE_def)
  then show free: "{first_block..<first_block + n} \<subseteq> free_pages st" using G by auto
  obtain L where L: "heap_inv st L {}" using ok by (auto simp: heap_ok_def)
  have "(n + BOTTOM_SZ - 1) div BOTTOM_SZ \<le> 1" using less_mult_imp_div_less [of "n + BOTTOM_SZ - 1" 2 BOTTOM_SZ] m by (simp add: BOTTOM_SZ_def)
  then have "index_cost n \<le> BI_COST * 1" unfolding index_cost_def by (rule mult_le_mono2)
  then have "alloc_cost n \<le> 2 ^ 29" by (simp add: alloc_cost_def BI_COST_def HDR_COST_def MAP_COST_def)
  then have room: "roomy (alloc_cost n) st" using G roomy_mono by blast
  obtain b where b: "on_list L b" "n \<le> span st b" using free_run [OF L blocks_pos [OF assms(3) sz], unfolded u(1), OF free] by blast
  obtain h st' where a: "GC_allochblk sz kind False st = Inr (h, st')" "h = 0 \<longrightarrow> os_mem st' = []"
    using GC_allochblk_succeeds [OF L k assms(3) sz, unfolded u(1), OF u(2) b entire_heap_splits [OF use]] by blast
  have "os_mem st' = os_mem st" by (rule GC_allochblk_supplied [OF L k assms(3) sz, unfolded u(1), OF u(2) room _ use a(1)]) (use G in simp)
  then show "\<exists>h st'. GC_allochblk sz kind False st = Inr (h, st') \<and> h \<noteq> 0 \<and> os_mem st' = [2 ^ 32]" using G a by auto
qed

text \<open>An object of three blocks that is never collected, and one of two without pointers.\<close>

lemma sample_sizes:
  "OBJ_SZ_TO_BLOCKS 10000 = 3" "unlisted UNCOLLECTABLE 3" "10000 \<le> 16 * HBLKSIZE" "UNCOLLECTABLE < 5" "(0 :: nat) < 10000"
  "OBJ_SZ_TO_BLOCKS 8000 = 2" "unlisted PTRFREE 2" "8000 \<le> 16 * HBLKSIZE" "PTRFREE < 5" "(0 :: nat) < 8000"
  "OBJ_SZ_TO_BLOCKS 32 = 1" "unlisted PTRFREE 1" "32 \<le> 16 * HBLKSIZE" "(0 :: nat) < 32" "GRANULES_TO_BYTES 2 = 32"
  by (simp_all add: OBJ_SZ_TO_BLOCKS_def HBLKSIZE_def unlisted_def UNCOLLECTABLE_def IS_UNCOLLECTABLE_def PTRFREE_def
      MAX_BLACK_LIST_ALLOC_def GRANULES_TO_BYTES_def GRANULE_BYTES_def)

section \<open>Properties\<close>

text \<open>
  C27: in every heap that is reached from an empty one by deallocations of blocks in use, by
  expansions into fresh memory, and by allocations after which the operating system still has memory
  (\<open>os_mem st' \<noteq> []\<close> in \<open>heap_step\<close>), the blocks in use do not overlap one another or a free page,
  and the free lists are in order: each free block is on the list of its size, no two of them are
  neighbours, and \<open>GC_large_free_bytes\<close> is the number of their bytes. Allocations that use up the
  memory are excluded: when there is none for the header of the rest of a split block,
  allchblk.c:509 leaves a free block on no list.
\<close>

theorem reachable_heap_sound:
  assumes "heap_reachable st0 st"
  shows "heap_ok st \<and> blocks_apart st"
proof -
  have "heap_ok st" using assms by induction (auto intro: heap_start_ok(1) heap_step_ok)
  then show ?thesis using heap_ok_apart by blast
qed

lemma reachable_heap_sound_witness:
  "\<exists>st. heap_reachable empty_heap st \<and> free_pages st = {first_block..<first_block + 16} \<and> blocks_apart st"
proof -
  obtain st where "grown_heap st" using grown_heap_exists by blast
  then have st: "heap_reachable empty_heap st" "free_pages st = {first_block..<first_block + 16}" by (simp_all add: grown_heap_def)
  then show ?thesis using reachable_heap_sound [OF st(1)] by blast
qed



text \<open>
  C29: \<open>GC_freehblk\<close> on a block in use never fails and implements the deallocation: its pages are
  added to the free ones, whatever neighbours it is merged with, and no other block changes.
\<close>

theorem freehblk_refines:
  assumes "heap_ok st" "used_blocks st b = Some g"
  shows "\<exists>st'. GC_freehblk b st = Inr st' \<and> free_spec (free_pages st) (used_blocks st) b (nblocks g) (free_pages st') (used_blocks st')"
  using GC_freehblk_heap [OF assms] by blast

lemma freehblk_refines_witness:
  "\<exists>st h st1 st2. grown_heap st \<and> GC_allochblk 10000 UNCOLLECTABLE False st = Inr (h, st1) \<and> h \<noteq> 0 \<and>
    GC_freehblk h st1 = Inr st2 \<and> free_pages st2 = free_pages st1 \<union> {h..<h + 3}"
proof -
  obtain st where st: "grown_heap st" using grown_heap_exists by blast
  note A = grown_alloc [OF st sample_sizes(4,5,3,1,2)]
  obtain h st1 where s: "GC_allochblk 10000 UNCOLLECTABLE False st = Inr (h, st1)" "h \<noteq> 0" "heap_ok st1"
    "alloc_spec (free_pages st) (used_blocks st) 10000 UNCOLLECTABLE False h (free_pages st1) (used_blocks st1)"
    using GC_allochblk_heap [OF A(1,2) sample_sizes(5) A(3), of False] A(6) by auto
  then obtain g where g: "used_blocks st1 h = Some g" "object_header g h 10000 UNCOLLECTABLE False" by (auto simp: alloc_spec_def)
  then have n: "nblocks g = 3" by (simp add: object_header_def nblocks_def sample_sizes(1))
  show ?thesis using freehblk_refines [OF s(3) g(1)] s st n by (auto simp: free_spec_def)
qed

text \<open>
  \<open>GC_freehblk\<close> aborts when the block is free already.
\<close>

theorem freehblk_twice_aborts:
  assumes "heap_ok st" "free_at st b"
  shows "GC_freehblk b st = Inl (Abort ''Duplicate large block deallocation'')"
  by (rule freehblk_free_at [OF assms])

lemma freehblk_twice_aborts_witness:
  "\<exists>st b. grown_heap st \<and> b \<in> free_pages st \<and> GC_freehblk b st = Inl (Abort ''Duplicate large block deallocation'')"
proof -
  obtain st where st: "grown_heap st" using grown_heap_exists by blast
  then have ok: "heap_ok st" and f: "first_block \<in> free_pages st" by (simp_all add: grown_heap_def)
  obtain b where "free_at st b" "first_block < b + span st b" using f by (auto simp: free_pages_def)
  then have b: "free_at st b" "b \<in> free_pages st"
    using ok heap_invD(3) weak_okD(6) [OF heap_invD(1)] member_okD(1) by (fastforce simp: heap_ok_def free_pages_def)+
  show ?thesis using freehblk_twice_aborts [OF ok b(1)] st b(2) by blast
qed

text \<open>
  C30: when blocks of every list may be split, that is when the split limit that \<open>GC_allochblk\<close>
  computes is the last list, as it is with \<open>GC_use_entire_heap\<close> or while no collection is due,
  \<open>GC_allochblk\<close> finds a block if there are enough consecutive free pages, for objects whose
  placement the black lists do not restrict (\<open>unlisted\<close>), unless the operating system is out of
  memory afterwards.
\<close>

theorem allochblk_finds_free_pages:
  assumes "heap_ok st" "kind < length (GC_obj_kinds st)" "0 < sz" "sz + (HBLKSIZE - 1) < 2 ^ 64"
    and "unlisted kind (OBJ_SZ_TO_BLOCKS sz)" "fst (split_limit st) = N_HBLK_FLS" "{c..<c + OBJ_SZ_TO_BLOCKS sz} \<subseteq> free_pages st"
  shows "\<exists>h st'. GC_allochblk sz kind ign st = Inr (h, st') \<and> (h \<noteq> 0 \<or> os_mem st' = [])"
proof -
  obtain L where L: "heap_inv st L {}" using assms(1) by (auto simp: heap_ok_def)
  obtain b where b: "on_list L b" "OBJ_SZ_TO_BLOCKS sz \<le> span st b"
    using free_run [OF L blocks_pos [OF assms(3,4)] assms(7)] by blast
  then show ?thesis using GC_allochblk_succeeds [OF L assms(2-5) b assms(6)] by blast
qed

lemma allochblk_finds_free_pages_witness:
  "\<exists>st h st'. grown_heap st \<and> GC_allochblk 8000 PTRFREE False st = Inr (h, st') \<and> h \<noteq> 0"
proof -
  obtain st where st: "grown_heap st" using grown_heap_exists by blast
  note A = grown_alloc [OF st sample_sizes(9,10,8,6,7)]
  show ?thesis
    using allochblk_finds_free_pages [OF A(1,2) sample_sizes(10) A(3), unfolded sample_sizes(6), OF sample_sizes(7) entire_heap_splits [OF A(4)] A(5), of False] A(6) st by auto
qed

text \<open>
  C31: \<open>GC_new_hblk\<close> never fails on a heap in order; if the allocator finds a block, that block
  was free, and its objects, all of them and in descending order, precede the old free list.
\<close>

theorem new_hblk_links_objects:
  assumes "heap_ok st" "kind < length (GC_obj_kinds st)" "gran < length (ok_freelist (GC_obj_kinds st ! kind))"
    and "0 < gran" "gran \<le> MAXOBJGRANULES"
  shows "\<exists>st'. GC_new_hblk gran kind st = Inr st' \<and> (os_mem st' = [] \<or>
    GC_allochblk (GRANULES_TO_BYTES gran) kind False st = Inr (0, st') \<or> (\<exists>h. new_objects st gran kind h st'))"
  using GC_new_hblk_heap [OF assms] by blast

lemma new_hblk_links_objects_witness:
  "\<exists>st st' h. grown_heap st \<and> GC_new_hblk 2 PTRFREE st = Inr st' \<and> new_objects st 2 PTRFREE h st'"
proof -
  obtain st where st: "grown_heap st" using grown_heap_exists by blast
  note A = grown_alloc [OF st sample_sizes(9,14,13,11,12)]
  have l: "2 < length (ok_freelist (GC_obj_kinds st ! PTRFREE))" "2 \<le> MAXOBJGRANULES"
    using st by (simp_all add: grown_heap_def PTRFREE_def initial_obj_kinds_def new_kind_def MAXOBJGRANULES_def
        BYTES_TO_GRANULES_def MAXOBJBYTES_def HBLKSIZE_def GRANULE_BYTES_def)
  obtain h st1 where a: "GC_allochblk (GRANULES_TO_BYTES 2) PTRFREE False st = Inr (h, st1)" "h \<noteq> 0" "os_mem st1 = [2 ^ 32]"
    using A(6) by (auto simp: sample_sizes)
  obtain st' where s: "GC_new_hblk 2 PTRFREE st = Inr st'" "os_mem st' = [] \<or>
      GC_allochblk (GRANULES_TO_BYTES 2) PTRFREE False st = Inr (0, st') \<or> (\<exists>h. new_objects st 2 PTRFREE h st')"
    using new_hblk_links_objects [OF A(1,2) l(1) _ l(2)] by auto
  then show ?thesis using GC_new_hblk_memory [OF s(1) a(1)] a st by auto
qed

text \<open>
  C32: \<open>GC_is_black_listed\<close>, which reads the tables a word at a time, agrees with a look at every
  page: it returns nothing just when no page of the block is listed, and otherwise a block
  before which no allowed block starts.
\<close>

theorem black_listed_page_by_page:
  assumes "tables_ok st"
  shows "\<exists>res. GC_is_black_listed st h len = Inr res \<and>
    (case res of
       None \<Rightarrow> \<not> range_listed st h (len div HBLKSIZE)
     | Some r \<Rightarrow> h < r \<and> r \<le> h + max 1 (len div HBLKSIZE) \<and> (\<forall>x. h \<le> x \<and> x < r \<longrightarrow> range_listed st x (len div HBLKSIZE)))"
  by (rule GC_is_black_listed_ok [OF assms])

lemma black_listed_page_by_page_witness: "GC_is_black_listed empty_heap 7 20000 = Inr None"
proof -
  have t: "tables_ok empty_heap" using empty_heap_start(1) by (simp add: heap_start_def)
  have "\<not> range_listed empty_heap b n" for b n
    by (simp add: range_listed_def normal_listed_def stack_listed_def) (simp add: empty_heap_def)
  moreover obtain res where r: "GC_is_black_listed empty_heap 7 20000 = Inr res"
    "case res of None \<Rightarrow> \<not> range_listed empty_heap 7 (20000 div HBLKSIZE)
     | Some r \<Rightarrow> 7 < r \<and> r \<le> 7 + max 1 (20000 div HBLKSIZE) \<and> (\<forall>x. 7 \<le> x \<and> x < r \<longrightarrow> range_listed empty_heap x (20000 div HBLKSIZE))"
    using black_listed_page_by_page [OF t] by blast
  ultimately have "res = None" by (cases res) auto
  with r(1) show ?thesis by simp
qed

end
