(* ===== verification/GC_Roots.thy ===== *)
theory GC_Roots
  imports Prelude
begin

unbundle bit_operations_syntax

text \<open>
  The static roots of the collector (\<^verbatim>\<open>libs/gc/mark_rts.c\<close>): the table of root sets with the hash
  index that finds a set by its start, the sorted table of ranges that are excluded from the
  roots, and the ranges that are pushed for marking. Addresses are numbers, a pointer to an
  element of a table is its index. Built for a Unix without threads, so root sets may overlap.
\<close>

section \<open>Tables\<close>

definition LOG_RT_SIZE :: nat where "LOG_RT_SIZE = 6"
definition RT_SIZE :: nat where "RT_SIZE = 2 ^ LOG_RT_SIZE"
definition MAX_ROOT_SETS :: nat where "MAX_ROOT_SETS = 2048"
definition MAX_EXCLUSIONS :: nat where "MAX_EXCLUSIONS = MAX_ROOT_SETS div 4"

record root_set =
  r_start :: nat
  r_end :: nat
  r_next :: "nat option"
  r_tmp :: bool

record exclusion =
  e_start :: nat
  e_end :: nat

text \<open>\<open>last_root_set\<close> is the static of \<open>GC_is_static_root\<close>.\<close>

record root_tables =
  GC_static_roots :: "root_set list"
  n_root_sets :: nat
  GC_root_index :: "nat option list"
  GC_root_size :: "64 word"
  roots_were_cleared :: bool
  last_root_set :: nat
  GC_excl_table :: "exclusion list"
  GC_excl_table_entries :: nat

section \<open>Root sets\<close>

text \<open>Pointers are 64 bits wide, so all four steps of mixing apply.\<close>

definition rt_hash :: "nat \<Rightarrow> nat" where
  "rt_hash addr =
     (let r = of_nat addr :: 64 word;
          r = r XOR drop_bit (8 * LOG_RT_SIZE) r;
          r = r XOR drop_bit (4 * LOG_RT_SIZE) r;
          r = r XOR drop_bit (2 * LOG_RT_SIZE) r;
          r = r XOR drop_bit LOG_RT_SIZE r
      in unat (r AND of_nat (RT_SIZE - 1)))"

text \<open>The chain of a hash value; a chain is not longer than the table.\<close>

fun find_root :: "nat \<Rightarrow> root_set list \<Rightarrow> nat \<Rightarrow> nat option \<Rightarrow> nat option res" where
  "find_root 0 rs b p = Inl OutOfFuel"
| "find_root (Suc k) rs b p =
     (case p of
        None \<Rightarrow> Inr None
      | Some i \<Rightarrow> if r_start (rs ! i) = b then Inr (Some i) else find_root k rs b (r_next (rs ! i)))"

definition GC_roots_present :: "nat \<Rightarrow> root_tables \<Rightarrow> nat option res" where
  "GC_roots_present b st = find_root (n_root_sets st + 1) (GC_static_roots st) b (GC_root_index st ! rt_hash b)"

definition add_roots_to_index :: "nat \<Rightarrow> root_tables \<Rightarrow> root_tables" where
  "add_roots_to_index p st =
     (let h = rt_hash (r_start (GC_static_roots st ! p))
      in st\<lparr>GC_static_roots := (GC_static_roots st)[p := (GC_static_roots st ! p)\<lparr>r_next := GC_root_index st ! h\<rparr>],
            GC_root_index := (GC_root_index st)[h := Some p]\<rparr>)"

definition word_down :: "nat \<Rightarrow> nat" where
  "word_down e = e - e mod 8"

definition GC_add_roots_inner :: "nat \<Rightarrow> nat \<Rightarrow> bool \<Rightarrow> root_tables \<Rightarrow> root_tables res" where
  "GC_add_roots_inner b e tmp st =
     (let e = word_down e
      in if b = e then Inr st
         else
           rbind (GC_roots_present b st) (\<lambda>old.
             case old of
               Some i \<Rightarrow>
                 let r = GC_static_roots st ! i
                 in if e \<le> r_end r then Inr st
                    else Inr (st\<lparr>GC_root_size := GC_root_size st + of_nat (e - r_end r),
                                 GC_static_roots := (GC_static_roots st)[i := r\<lparr>r_end := e\<rparr>]\<rparr>)
             | None \<Rightarrow>
                 if n_root_sets st = MAX_ROOT_SETS then Inl (Abort ''Too many root sets'')
                 else
                   let n = n_root_sets st;
                       st = st\<lparr>GC_static_roots := (GC_static_roots st)[n := \<lparr>r_start = b, r_end = e, r_next = None, r_tmp = tmp\<rparr>]\<rparr>;
                       st = add_roots_to_index n st
                   in Inr (st\<lparr>GC_root_size := GC_root_size st + (of_nat e - of_nat b), n_root_sets := n + 1\<rparr>)))"

definition GC_add_roots :: "nat \<Rightarrow> nat \<Rightarrow> root_tables \<Rightarrow> root_tables res" where
  "GC_add_roots b e st = GC_add_roots_inner b e False st"

definition GC_clear_roots :: "root_tables \<Rightarrow> root_tables" where
  "GC_clear_roots st = st\<lparr>roots_were_cleared := True, n_root_sets := 0, GC_root_size := 0, GC_root_index := replicate RT_SIZE None\<rparr>"

definition GC_remove_root_at_pos :: "nat \<Rightarrow> root_tables \<Rightarrow> root_tables" where
  "GC_remove_root_at_pos i st =
     (let r = GC_static_roots st ! i; l = GC_static_roots st ! (n_root_sets st - 1)
      in st\<lparr>GC_root_size := GC_root_size st - (of_nat (r_end r) - of_nat (r_start r)),
            GC_static_roots := (GC_static_roots st)[i := r\<lparr>r_start := r_start l, r_end := r_end l, r_tmp := r_tmp l\<rparr>],
            n_root_sets := n_root_sets st - 1\<rparr>)"

definition GC_rebuild_root_index :: "root_tables \<Rightarrow> root_tables" where
  "GC_rebuild_root_index st =
     fold add_roots_to_index [0..<n_root_sets st] (st\<lparr>GC_root_index := replicate RT_SIZE None\<rparr>)"

text \<open>The loops of \<open>GC_remove_tmp_roots\<close> and \<open>GC_remove_roots_inner\<close>, for their tests.\<close>

function remove_roots_loop :: "(root_set \<Rightarrow> bool) \<Rightarrow> nat \<Rightarrow> root_tables \<Rightarrow> root_tables" where
  "remove_roots_loop P i st =
     (if i < n_root_sets st then
        if P (GC_static_roots st ! i) then remove_roots_loop P i (GC_remove_root_at_pos i st)
        else remove_roots_loop P (i + 1) st
      else st)"
  by pat_completeness auto
termination
  by (relation "measure (\<lambda>(_, i, st). n_root_sets st - i)") (auto simp: GC_remove_root_at_pos_def Let_def)

declare remove_roots_loop.simps [simp del]

definition GC_remove_tmp_roots :: "root_tables \<Rightarrow> root_tables" where
  "GC_remove_tmp_roots st = GC_rebuild_root_index (remove_roots_loop r_tmp 0 st)"

definition GC_remove_roots_inner :: "nat \<Rightarrow> nat \<Rightarrow> root_tables \<Rightarrow> root_tables" where
  "GC_remove_roots_inner b e st = GC_rebuild_root_index (remove_roots_loop (\<lambda>r. r_start r \<ge> b \<and> r_end r \<le> e) 0 st)"

definition GC_remove_roots :: "nat \<Rightarrow> nat \<Rightarrow> root_tables \<Rightarrow> root_tables" where
  "GC_remove_roots b e st =
     (if word_down ((b + 7) mod 2 ^ 64) \<ge> word_down e then st else GC_remove_roots_inner b e st)"

text \<open>The set found last is tried first.\<close>

definition in_root :: "root_tables \<Rightarrow> nat \<Rightarrow> nat \<Rightarrow> bool" where
  "in_root st p i \<longleftrightarrow> r_start (GC_static_roots st ! i) \<le> p \<and> p < r_end (GC_static_roots st ! i)"

definition GC_is_static_root :: "nat \<Rightarrow> root_tables \<Rightarrow> bool \<times> root_tables" where
  "GC_is_static_root p st =
     (if last_root_set st < n_root_sets st \<and> in_root st p (last_root_set st) then (True, st)
      else
        case find (in_root st p) [0..<n_root_sets st] of
          Some i \<Rightarrow> (True, st\<lparr>last_root_set := i\<rparr>)
        | None \<Rightarrow> (False, st))"

section \<open>Exclusions\<close>

text \<open>The binary search; a table without entries makes it read outside the table.\<close>

function excl_search :: "exclusion list \<Rightarrow> nat \<Rightarrow> nat \<Rightarrow> nat \<Rightarrow> nat res" where
  "excl_search tbl start_addr low high =
     (if high > low then
        let mid = (low + high) div 2
        in if mid \<ge> length tbl then Inl OutOfBounds
           else if e_end (tbl ! mid) \<le> start_addr then excl_search tbl start_addr (mid + 1) high
           else excl_search tbl start_addr low mid
      else Inr low)"
  by pat_completeness auto
termination
  by (relation "measure (\<lambda>(_, _, low, high). high - low)") auto

declare excl_search.simps [simp del]

definition GC_next_exclusion :: "nat \<Rightarrow> root_tables \<Rightarrow> nat option res" where
  "GC_next_exclusion start_addr st =
     rbind (excl_search (GC_excl_table st) start_addr 0 ((GC_excl_table_entries st + (2 ^ 64 - 1)) mod 2 ^ 64)) (\<lambda>low.
       if low \<ge> length (GC_excl_table st) then Inl OutOfBounds
       else Inr (if e_end (GC_excl_table st ! low) \<le> start_addr then None else Some low))"

fun excl_shift :: "exclusion list \<Rightarrow> nat \<Rightarrow> nat \<Rightarrow> exclusion list res" where
  "excl_shift tbl next_index 0 = Inr tbl"
| "excl_shift tbl next_index (Suc i) =
     (if Suc i > next_index then
        if Suc i \<ge> length tbl then Inl OutOfBounds
        else excl_shift (tbl[Suc i := tbl ! i]) next_index i
      else Inr tbl)"

definition GC_exclude_static_roots_inner :: "nat \<Rightarrow> nat \<Rightarrow> root_tables \<Rightarrow> root_tables res" where
  "GC_exclude_static_roots_inner start finish st =
     (let n = GC_excl_table_entries st;
          insert_at = (\<lambda>tbl next_index.
            if n = MAX_EXCLUSIONS then Inl (Abort ''Too many exclusions'')
            else Inr (st\<lparr>GC_excl_table := tbl[next_index := \<lparr>e_start = start, e_end = finish\<rparr>], GC_excl_table_entries := n + 1\<rparr>))
      in rbind (if n = 0 then Inr None else GC_next_exclusion start st) (\<lambda>next.
         case next of
           Some i \<Rightarrow>
             let x = GC_excl_table st ! i
             in if e_start x < finish then Inl (Abort ''Exclusion ranges overlap'')
                else if e_start x = finish then Inr (st\<lparr>GC_excl_table := (GC_excl_table st)[i := x\<lparr>e_start := start\<rparr>]\<rparr>)
                else rbind (excl_shift (GC_excl_table st) i n) (\<lambda>tbl. insert_at tbl i)
         | None \<Rightarrow> insert_at (GC_excl_table st) n))"

definition GC_exclude_static_roots :: "nat \<Rightarrow> nat \<Rightarrow> root_tables \<Rightarrow> root_tables res" where
  "GC_exclude_static_roots b e st =
     (let e = word_down e in if b = e then Inr st else GC_exclude_static_roots_inner b e st)"

section \<open>Pushing the roots\<close>

text \<open>The calls of \<open>GC_push_conditional\<close>, in order.\<close>

lemma next_exclusion_beyond: "GC_next_exclusion a st = Inr (Some i) \<Longrightarrow> a < e_end (GC_excl_table st ! i)"
  by (auto simp: GC_next_exclusion_def elim!: rbind_InrE split: if_splits)

function GC_push_conditional_with_exclusions :: "root_tables \<Rightarrow> nat \<Rightarrow> nat \<Rightarrow> (nat \<times> nat) list res" where
  "GC_push_conditional_with_exclusions st bottom top1 =
     (if bottom < top1 then
        case GC_next_exclusion bottom st of
          Inl err \<Rightarrow> Inl err
        | Inr None \<Rightarrow> Inr [(bottom, top1)]
        | Inr (Some i) \<Rightarrow>
            let x = GC_excl_table st ! i
            in if e_start x \<ge> top1 then Inr [(bottom, top1)]
               else
                 rbind (GC_push_conditional_with_exclusions st (e_end x) top1) (\<lambda>rest.
                   Inr (if e_start x > bottom then (bottom, e_start x) # rest else rest))
      else Inr [])"
  by pat_completeness auto
termination
  by (relation "measure (\<lambda>(_, bottom, top1). top1 - bottom)") (auto dest!: next_exclusion_beyond)

declare GC_push_conditional_with_exclusions.simps [simp del]

text \<open>The part of \<open>GC_push_roots\<close> that pushes the static data.\<close>

fun push_root_sets :: "root_tables \<Rightarrow> root_set list \<Rightarrow> (nat \<times> nat) list res" where
  "push_root_sets st [] = Inr []"
| "push_root_sets st (r # rs) =
     rbind (GC_push_conditional_with_exclusions st (r_start r) (r_end r)) (\<lambda>xs.
     rbind (push_root_sets st rs) (\<lambda>ys. Inr (xs @ ys)))"

definition push_static_roots :: "root_tables \<Rightarrow> (nat \<times> nat) list res" where
  "push_static_roots st = push_root_sets st (take (n_root_sets st) (GC_static_roots st))"

section \<open>Pushing the stack\<close>

text \<open>
  The stack grows down. A traced section is a part of the stack that a client has asked to skip: its address
  and the saved stack pointer, from the hottest one. \<open>cold_gc_frame\<close> is 0 for the null pointer.
\<close>

datatype push = Push_all nat nat | Push_all_eager nat nat | Push_all_stack nat nat

definition GC_push_all_stack_partially_eager :: "bool \<Rightarrow> nat \<Rightarrow> nat \<Rightarrow> nat \<Rightarrow> push list" where
  "GC_push_all_stack_partially_eager all_interior bottom top1 cold_gc_frame =
     (if all_interior then
        if cold_gc_frame = 0 then [Push_all_stack bottom top1]
        else [Push_all (cold_gc_frame - 8) top1, Push_all_eager bottom cold_gc_frame]
      else [Push_all_eager bottom top1])"

fun GC_push_all_stack_part_eager_sections :: "bool \<Rightarrow> nat \<Rightarrow> nat \<Rightarrow> nat \<Rightarrow> (nat \<times> nat) list \<Rightarrow> push list" where
  "GC_push_all_stack_part_eager_sections all_interior lo hi cold_gc_frame [] =
     GC_push_all_stack_partially_eager all_interior lo hi cold_gc_frame"
| "GC_push_all_stack_part_eager_sections all_interior lo hi cold_gc_frame ((sect, saved_stack_ptr) # sects) =
     GC_push_all_stack_partially_eager all_interior lo sect cold_gc_frame @
     GC_push_all_stack_part_eager_sections all_interior saved_stack_ptr hi 0 sects"

definition GC_push_current_stack :: "bool \<Rightarrow> nat \<Rightarrow> nat \<Rightarrow> (nat \<times> nat) list \<Rightarrow> nat \<Rightarrow> push list" where
  "GC_push_current_stack all_interior sp GC_stackbottom GC_traced_stack_sect cold_gc_frame =
     GC_push_all_stack_part_eager_sections all_interior sp GC_stackbottom cold_gc_frame GC_traced_stack_sect"

text \<open>With dynamic loading; the registration of the libraries is a parameter.\<close>

definition GC_cond_register_dynamic_libraries :: "(root_tables \<Rightarrow> root_tables res) \<Rightarrow> bool \<Rightarrow> root_tables \<Rightarrow> root_tables res" where
  "GC_cond_register_dynamic_libraries GC_register_dynamic_libraries GC_no_dls st =
     (let st = GC_remove_tmp_roots st
      in if \<not> GC_no_dls then GC_register_dynamic_libraries st else Inr st)"

end
