(* ===== verification/GC_Root_Facts.thy ===== *)
theory GC_Root_Facts
  imports GC_Roots "HOL-Library.Multiset"
begin

text \<open>
  The tables of roots: the exclusions as a set of addresses, which the pushed ranges avoid and
  otherwise cover, and the root sets as a map from their starts.
\<close>

section \<open>The table of exclusions\<close>

definition excl_ok :: "root_tables \<Rightarrow> bool" where
  "excl_ok st \<longleftrightarrow> length (GC_excl_table st) = MAX_EXCLUSIONS \<and> GC_excl_table_entries st \<le> MAX_EXCLUSIONS \<and>
     (\<forall>i < GC_excl_table_entries st. e_start (GC_excl_table st ! i) < e_end (GC_excl_table st ! i)) \<and>
     (\<forall>i j. i < j \<longrightarrow> j < GC_excl_table_entries st \<longrightarrow> e_end (GC_excl_table st ! i) \<le> e_start (GC_excl_table st ! j))"

definition excluded :: "root_tables \<Rightarrow> nat set" where
  "excluded st = (\<Union>i < GC_excl_table_entries st. {e_start (GC_excl_table st ! i)..<e_end (GC_excl_table st ! i)})"

lemma excl_okD:
  assumes "excl_ok st"
  shows "length (GC_excl_table st) = MAX_EXCLUSIONS" "GC_excl_table_entries st \<le> MAX_EXCLUSIONS"
    "i < GC_excl_table_entries st \<Longrightarrow> e_start (GC_excl_table st ! i) < e_end (GC_excl_table st ! i)"
    "i < j \<Longrightarrow> j < GC_excl_table_entries st \<Longrightarrow> e_end (GC_excl_table st ! i) \<le> e_start (GC_excl_table st ! j)"
  using assms by (auto simp: excl_ok_def)

lemma excl_ends_sorted:
  assumes "excl_ok st" "i \<le> j" "j < GC_excl_table_entries st"
  shows "e_end (GC_excl_table st ! i) \<le> e_end (GC_excl_table st ! j)"
  using excl_okD(4) [OF assms(1), of i j] excl_okD(3) [OF assms(1), of j] assms(2,3) by (cases "i = j") auto

text \<open>The binary search keeps everything below \<open>low\<close> at or before the address, and everything from \<open>high\<close> on beyond it.\<close>

lemma excl_search_ok:
  assumes "low \<le> high" "high < length tbl"
    and "\<And>i j. i \<le> j \<Longrightarrow> j \<le> high \<Longrightarrow> e_end (tbl ! i) \<le> e_end (tbl ! j)"
    and "\<And>i. i < low \<Longrightarrow> e_end (tbl ! i) \<le> a"
  shows "\<exists>k. excl_search tbl a low high = Inr k \<and> k \<le> high \<and> (\<forall>i<k. e_end (tbl ! i) \<le> a) \<and>
    (k < high \<longrightarrow> a < e_end (tbl ! k))"
  using assms
proof (induction tbl a low high rule: excl_search.induct)
  case (1 tbl a low high)
  show ?case
  proof (cases "low < high")
    case False
    then show ?thesis using 1 by (auto simp: excl_search.simps)
  next
    case True
    define mid where "mid = (low + high) div 2"
    have m: "low \<le> mid" "mid < high" using True by (auto simp: mid_def)
    have lt: "\<not> length tbl \<le> mid" using m 1(4) by simp
    show ?thesis
    proof (cases "e_end (tbl ! mid) \<le> a")
      case le: True
      have "\<exists>k. excl_search tbl a (mid + 1) high = Inr k \<and> k \<le> high \<and> (\<forall>i<k. e_end (tbl ! i) \<le> a) \<and>
          (k < high \<longrightarrow> a < e_end (tbl ! k))"
        proof (rule 1(1) [OF True mid_def lt le])
        show "e_end (tbl ! i) \<le> a" if "i < mid + 1" for i
          using that le 1(5) [of i mid] m by auto
      qed (use m 1(4,5) in auto)
      then show ?thesis using True m le 1(4) by (simp add: excl_search.simps [of tbl a low] mid_def [symmetric])
    next
      case gt: False
      have "\<exists>k. excl_search tbl a low mid = Inr k \<and> k \<le> mid \<and> (\<forall>i<k. e_end (tbl ! i) \<le> a) \<and>
          (k < mid \<longrightarrow> a < e_end (tbl ! k))"
        using m 1(4-) by (intro 1(2) [OF True mid_def lt gt]) auto
      then obtain k where "excl_search tbl a low mid = Inr k" "k \<le> mid" "\<forall>i<k. e_end (tbl ! i) \<le> a" "k < mid \<longrightarrow> a < e_end (tbl ! k)"
        by blast
      then show ?thesis using True m gt 1(4)
        by (cases "k = mid") (auto simp: excl_search.simps [of tbl a low] mid_def [symmetric])
    qed
  qed
qed

lemma next_exclusion_ok:
  assumes "excl_ok st" "0 < GC_excl_table_entries st"
  shows "case GC_next_exclusion a st of
      Inl err \<Rightarrow> False
    | Inr None \<Rightarrow> \<forall>i < GC_excl_table_entries st. e_end (GC_excl_table st ! i) \<le> a
    | Inr (Some k) \<Rightarrow> k < GC_excl_table_entries st \<and> a < e_end (GC_excl_table st ! k) \<and>
        (\<forall>i<k. e_end (GC_excl_table st ! i) \<le> a)"
proof -
  let ?n = "GC_excl_table_entries st"
  have n: "(?n + (2 ^ 64 - 1)) mod 2 ^ 64 = ?n - 1"
    using assms(2) excl_okD(2) [OF assms(1)] by (cases ?n) (simp_all add: MAX_EXCLUSIONS_def MAX_ROOT_SETS_def)
  have "\<exists>k. excl_search (GC_excl_table st) a 0 (?n - 1) = Inr k \<and> k \<le> ?n - 1 \<and>
      (\<forall>i<k. e_end (GC_excl_table st ! i) \<le> a) \<and> (k < ?n - 1 \<longrightarrow> a < e_end (GC_excl_table st ! k))"
    using excl_okD(1,2) [OF assms(1)] assms(2) excl_ends_sorted [OF assms(1)]
    by (intro excl_search_ok) auto
  then obtain k where k: "excl_search (GC_excl_table st) a 0 (?n - 1) = Inr k" "k \<le> ?n - 1"
      "\<forall>i<k. e_end (GC_excl_table st ! i) \<le> a" "k < ?n - 1 \<longrightarrow> a < e_end (GC_excl_table st ! k)" by blast
  have l: "k < length (GC_excl_table st)" using k(2) assms(2) excl_okD(1,2) [OF assms(1)] by simp
  have "\<forall>i < ?n. e_end (GC_excl_table st ! i) \<le> a" if "e_end (GC_excl_table st ! k) \<le> a"
  proof -
    have "k = ?n - 1" using k(2,4) that by auto
    then show ?thesis using k(3) that by (metis Suc_pred' assms(2) less_Suc_eq)
  qed
  then show ?thesis using k l assms(2) unfolding GC_next_exclusion_def n by auto
qed

section \<open>The ranges pushed\<close>

definition spans :: "(nat \<times> nat) list \<Rightarrow> nat set" where
  "spans xs = (\<Union>(l, h) \<in> set xs. {l..<h})"

lemma spans_simps [simp]: "spans [] = {}" "spans ((l, h) # xs) = {l..<h} \<union> spans xs" "spans (xs @ ys) = spans xs \<union> spans ys"
  by (auto simp: spans_def)

text \<open>No exclusion begins before the next one ends, so nothing between the address and the next exclusion is excluded.\<close>

lemma excluded_next:
  assumes "excl_ok st" "0 < GC_excl_table_entries st" "GC_next_exclusion a st = Inr (Some k)"
    "a \<le> x" "x < e_end (GC_excl_table st ! k)"
  shows "x \<in> excluded st \<longleftrightarrow> e_start (GC_excl_table st ! k) \<le> x"
proof
  have k: "k < GC_excl_table_entries st" "\<forall>i<k. e_end (GC_excl_table st ! i) \<le> a"
    using next_exclusion_ok [OF assms(1,2), of a] assms(3) by auto
  then show "x \<in> excluded st" if "e_start (GC_excl_table st ! k) \<le> x"
    using that assms(5) by (auto simp: excluded_def)
  assume "x \<in> excluded st"
  then obtain i where i: "i < GC_excl_table_entries st" "e_start (GC_excl_table st ! i) \<le> x" "x < e_end (GC_excl_table st ! i)"
    by (auto simp: excluded_def)
  then have "k \<le> i" using k(2) assms(4) by (meson le_trans not_le)
  then show "e_start (GC_excl_table st ! k) \<le> x"
    using excl_okD(4) [OF assms(1), of k i] i assms(5) by (cases "k = i") auto
qed

lemma excluded_none:
  assumes "excl_ok st" "0 < GC_excl_table_entries st" "GC_next_exclusion a st = Inr None"
  shows "{a..} \<inter> excluded st = {}"
proof -
  have *: "\<forall>i < GC_excl_table_entries st. e_end (GC_excl_table st ! i) \<le> a"
    using next_exclusion_ok [OF assms(1,2), of a] assms(3) by simp
  show ?thesis unfolding excluded_def
  proof (intro equals0I, elim IntE UN_E)
    fix x i assume "x \<in> {a..}" "i \<in> {..<GC_excl_table_entries st}" "x \<in> {e_start (GC_excl_table st ! i)..<e_end (GC_excl_table st ! i)}"
    with * have "e_end (GC_excl_table st ! i) \<le> a" "a \<le> x" "x < e_end (GC_excl_table st ! i)" by auto
    then show False by simp
  qed
qed

definition in_order :: "nat \<Rightarrow> (nat \<times> nat) list \<Rightarrow> bool" where
  "in_order a xs \<longleftrightarrow> sorted_wrt (\<lambda>p q. snd p \<le> fst q) xs \<and> (\<forall>(l, h) \<in> set xs. a \<le> l \<and> l < h)"

lemma in_order_simps [simp]:
  "in_order a []"
  "in_order a ((l, h) # xs) \<longleftrightarrow> a \<le> l \<and> l < h \<and> in_order a xs \<and> in_order h xs"
  by (auto simp: in_order_def)

lemma in_order_mono: "in_order b xs \<Longrightarrow> a \<le> b \<Longrightarrow> in_order a xs"
  by (auto simp: in_order_def)

lemma push_conditional_exact:
  assumes "excl_ok st" "0 < GC_excl_table_entries st"
  shows "\<exists>xs. GC_push_conditional_with_exclusions st bottom top1 = Inr xs \<and> spans xs = {bottom..<top1} - excluded st \<and>
    in_order bottom xs"
  using assms
proof (induction st bottom top1 rule: GC_push_conditional_with_exclusions.induct)
  case (1 st bottom top1)
  note ok = 1(2,3)
  show ?case
  proof (cases "bottom < top1")
    case False
    then show ?thesis by (simp add: GC_push_conditional_with_exclusions.simps)
  next
    case True
    show ?thesis
    proof (cases "GC_next_exclusion bottom st")
      case (Inl err)
      then show ?thesis using next_exclusion_ok [OF ok, of bottom] by simp
    next
      case (Inr opt)
      show ?thesis
      proof (cases opt)
        case None
        then show ?thesis using excluded_none [OF ok, of bottom] Inr True
          by (auto simp: GC_push_conditional_with_exclusions.simps [of st bottom])
      next
        case (Some k)
        let ?x = "GC_excl_table st ! k"
        have n: "GC_next_exclusion bottom st = Inr (Some k)" using Inr Some by simp
        note ex = excluded_next [OF ok n]
        have k: "bottom < e_end ?x" "e_start ?x < e_end ?x"
          using next_exclusion_ok [OF ok, of bottom] n excl_okD(3) [OF ok(1), of k] by auto
        show ?thesis
        proof (cases "top1 \<le> e_start ?x")
          case past: True
          then show ?thesis using n True ex k
            by (force simp: GC_push_conditional_with_exclusions.simps [of st bottom])
        next
          case inside: False
          from 1(1) [OF True Inr Some refl inside ok] obtain xs where
            xs: "GC_push_conditional_with_exclusions st (e_end ?x) top1 = Inr xs" "spans xs = {e_end ?x..<top1} - excluded st"
              "in_order (e_end ?x) xs" by blast
          have *: "{bottom..<e_start ?x} \<union> ({e_end ?x..<top1} - excluded st) = {bottom..<top1} - excluded st"
            using ex inside k True by (auto simp: set_eq_iff)
          have "{bottom..<e_start ?x} = {}" if "\<not> bottom < e_start ?x" using that by simp
          then show ?thesis using n True inside xs * k in_order_mono [OF xs(3)]
            by (auto simp: GC_push_conditional_with_exclusions.simps [of st bottom] Let_def)
        qed
      qed
    qed
  qed
qed

section \<open>Adding an exclusion\<close>

text \<open>The operations on the root sets leave the exclusions alone, and the other way round.\<close>

definition excl_part :: "root_tables \<Rightarrow> exclusion list \<times> nat" where
  "excl_part st = (GC_excl_table st, GC_excl_table_entries st)"

definition root_part :: "root_tables \<Rightarrow> root_set list \<times> nat \<times> nat option list \<times> 64 word" where
  "root_part st = (GC_static_roots st, n_root_sets st, GC_root_index st, GC_root_size st)"

lemma root_part_excl [simp]:
  "root_part (st\<lparr>GC_excl_table := tbl, GC_excl_table_entries := n\<rparr>) = root_part st"
  "root_part (st\<lparr>GC_excl_table := tbl\<rparr>) = root_part st"
  by (simp_all add: root_part_def)

lemma excl_shift_ok:
  "n < length tbl \<Longrightarrow> k \<le> n \<Longrightarrow> \<exists>tbl'. excl_shift tbl k n = Inr tbl' \<and> length tbl' = length tbl \<and>
     (\<forall>i. tbl' ! i = (if k < i \<and> i \<le> n then tbl ! (i - 1) else tbl ! i))"
proof (induction tbl k n rule: excl_shift.induct)
  case (2 tbl k i)
  show ?case
  proof (cases "k < Suc i")
    case True
    then obtain tbl' where "excl_shift (tbl[Suc i := tbl ! i]) k i = Inr tbl'" "length tbl' = length tbl"
        "\<forall>j. tbl' ! j = (if k < j \<and> j \<le> i then tbl[Suc i := tbl ! i] ! (j - 1) else tbl[Suc i := tbl ! i] ! j)"
      using 2 by auto
    then show ?thesis using True 2(2) by (auto simp: nth_list_update)
  next
    case False
    then have "k = Suc i" using 2(3) by simp
    then show ?thesis by auto
  qed
qed auto

lemma inserted_ok:
  assumes ok: "excl_ok st" and n: "GC_excl_table_entries st = n" "k \<le> n" "n < MAX_EXCLUSIONS" and se: "start < finish"
    and len: "length tbl = MAX_EXCLUSIONS"
    and tbl: "\<And>i. i \<le> n \<Longrightarrow> tbl ! i = (if i < k then GC_excl_table st ! i
        else if i = k then \<lparr>e_start = start, e_end = finish\<rparr> else GC_excl_table st ! (i - 1))"
    and lo: "\<And>i. i < k \<Longrightarrow> e_end (GC_excl_table st ! i) \<le> start"
    and hi: "\<And>i. k \<le> i \<Longrightarrow> i < n \<Longrightarrow> finish \<le> e_start (GC_excl_table st ! i)"
  shows "excl_ok (st\<lparr>GC_excl_table := tbl, GC_excl_table_entries := n + 1\<rparr>)" (is ?ok)
    and "excluded (st\<lparr>GC_excl_table := tbl, GC_excl_table_entries := n + 1\<rparr>) = excluded st \<union> {start..<finish}" (is ?ex)
    and "excluded st \<inter> {start..<finish} = {}" (is ?apart)
proof -
  have len_ok: "e_start (GC_excl_table st ! i) < e_end (GC_excl_table st ! i)" if "i < n" for i
    using excl_okD(3) [OF ok] n(1) that by simp
  have gap: "e_end (GC_excl_table st ! i) \<le> e_start (GC_excl_table st ! j)" if "i < j" "j < n" for i j
    using excl_okD(4) [OF ok] n(1) that by simp
  have "e_start (tbl ! i) < e_end (tbl ! i)" if "i \<le> n" for i
    using that len_ok [of i] len_ok [of "i - 1"] se n(2) by (simp add: tbl)
  moreover have "e_end (tbl ! i) \<le> e_start (tbl ! j)" if "i < j" "j \<le> n" for i j
    using that gap [of i j] gap [of i "j - 1"] gap [of "i - 1" "j - 1"] lo [of i] hi [of "j - 1"] n(2)
      len_ok [of i] len_ok [of "j - 1"] se
    by (simp add: tbl)
  ultimately show ?ok using len n(3) by (simp add: excl_ok_def less_Suc_eq_le)
  have img: "(\<lambda>i. tbl ! i) ` {..n} = (\<lambda>i. GC_excl_table st ! i) ` {..<n} \<union> {\<lparr>e_start = start, e_end = finish\<rparr>}"
  proof
    show "(!) tbl ` {..n} \<subseteq> (!) (GC_excl_table st) ` {..<n} \<union> {\<lparr>e_start = start, e_end = finish\<rparr>}"
      using n(2) by (auto simp: tbl)
    have "GC_excl_table st ! i \<in> (!) tbl ` {..n}" if "i < n" for i
    proof (cases "i < k")
      case True
      then show ?thesis using that tbl [of i] by (intro image_eqI [of _ _ i]) auto
    next
      case False
      then show ?thesis using that tbl [of "Suc i"] by (intro image_eqI [of _ _ "Suc i"]) auto
    qed
    moreover have "\<lparr>e_start = start, e_end = finish\<rparr> \<in> (!) tbl ` {..n}"
      using tbl [of k] n(2) by (intro image_eqI [of _ _ k]) auto
    ultimately show "(!) (GC_excl_table st) ` {..<n} \<union> {\<lparr>e_start = start, e_end = finish\<rparr>} \<subseteq> (!) tbl ` {..n}"
      by auto
  qed
  have "excluded (st\<lparr>GC_excl_table := tbl, GC_excl_table_entries := n + 1\<rparr>) = (\<Union>x \<in> (!) tbl ` {..n}. {e_start x..<e_end x})"
    by (auto simp: excluded_def less_Suc_eq_le lessThan_Suc_atMost)
  then show ?ex unfolding img by (auto simp: excluded_def n(1))
  show ?apart
  proof (intro equals0I, elim IntE)
    fix x assume x: "x \<in> excluded st" "x \<in> {start..<finish}"
    then obtain i where "i < n" "e_start (GC_excl_table st ! i) \<le> x" "x < e_end (GC_excl_table st ! i)"
      by (auto simp: excluded_def n(1))
    with x(2) lo [of i] hi [of i] show False by (cases "i < k") auto
  qed
qed

lemma excl_shift_full: "k < length tbl \<Longrightarrow> excl_shift tbl k (length tbl) = Inl OutOfBounds"
  by (cases "length tbl") auto

text \<open>An exclusion that ends where the next one starts extends it backwards.\<close>

lemma extended_ok:
  assumes ok: "excl_ok st" and k: "k < GC_excl_table_entries st" and se: "start < e_start (GC_excl_table st ! k)"
    and lo: "\<And>i. i < k \<Longrightarrow> e_end (GC_excl_table st ! i) \<le> start"
  shows "excl_ok (st\<lparr>GC_excl_table := (GC_excl_table st)[k := (GC_excl_table st ! k)\<lparr>e_start := start\<rparr>]\<rparr>)" (is "excl_ok ?st")
    and "excluded (st\<lparr>GC_excl_table := (GC_excl_table st)[k := (GC_excl_table st ! k)\<lparr>e_start := start\<rparr>]\<rparr>) =
      excluded st \<union> {start..<e_start (GC_excl_table st ! k)}" (is "?ex")
    and "excluded st \<inter> {start..<e_start (GC_excl_table st ! k)} = {}" (is ?apart)
proof -
  let ?t = "GC_excl_table st" and ?n = "GC_excl_table_entries st"
  have l: "k < length ?t" using k excl_okD(1,2) [OF ok] by simp
  have nth: "?t[k := (?t ! k)\<lparr>e_start := start\<rparr>] ! i = (if i = k then (?t ! k)\<lparr>e_start := start\<rparr> else ?t ! i)" for i
    using l by (simp add: nth_list_update)
  show "excl_ok ?st"
    using ok l k se lo unfolding excl_ok_def by (auto simp: nth)
  have len: "e_start (?t ! k) < e_end (?t ! k)" using excl_okD(3) [OF ok k] .
  show ?ex
  proof (intro set_eqI iffI)
    fix x assume "x \<in> excluded ?st"
    then obtain i where "i < ?n" "e_start (?t[k := (?t ! k)\<lparr>e_start := start\<rparr>] ! i) \<le> x" "x < e_end (?t[k := (?t ! k)\<lparr>e_start := start\<rparr>] ! i)"
      by (auto simp: excluded_def)
    then show "x \<in> excluded st \<union> {start..<e_start (?t ! k)}"
      using k by (cases "i = k"; cases "x < e_start (?t ! k)") (auto simp: nth excluded_def intro: bexI [of _ k])
  next
    fix x assume "x \<in> excluded st \<union> {start..<e_start (?t ! k)}"
    then consider i where "i < ?n" "e_start (?t ! i) \<le> x" "x < e_end (?t ! i)" | "start \<le> x" "x < e_start (?t ! k)"
      by (auto simp: excluded_def)
    then show "x \<in> excluded ?st"
    proof cases
      case 1
      then show ?thesis using se by (auto simp: excluded_def nth intro!: bexI [of _ i])
    next
      case 2
      then show ?thesis using len k by (auto simp: excluded_def nth intro!: bexI [of _ k])
    qed
  qed
  show ?apart
  proof (intro equals0I, elim IntE)
    fix x assume x: "x \<in> excluded st" "x \<in> {start..<e_start (?t ! k)}"
    then obtain i where i: "i < ?n" "e_start (?t ! i) \<le> x" "x < e_end (?t ! i)" by (auto simp: excluded_def)
    with x(2) lo [of i] have "k \<le> i" by (meson atLeastLessThan_iff le_less_trans not_le)
    then show False using i x(2) excl_okD(4) [OF ok, of k i] len by (cases "i = k") auto
  qed
qed

lemma exclude_inner_ok:
  assumes ok: "excl_ok st" and se: "start < finish"
  shows "case GC_exclude_static_roots_inner start finish st of
      Inr st' \<Rightarrow> excl_ok st' \<and> excluded st' = excluded st \<union> {start..<finish} \<and> excluded st \<inter> {start..<finish} = {} \<and>
        0 < GC_excl_table_entries st' \<and>
        root_part st' = root_part st
    | Inl e \<Rightarrow> excluded st \<inter> {start..<finish} \<noteq> {} \<or> GC_excl_table_entries st = MAX_EXCLUSIONS"
proof -
  let ?n = "GC_excl_table_entries st" and ?t = "GC_excl_table st"
  define nxt where "nxt = (if ?n = 0 then Inr None else GC_next_exclusion start st)"
  have bounds: "length ?t = MAX_EXCLUSIONS" "?n \<le> MAX_EXCLUSIONS" using excl_okD [OF ok] by auto
  have gap: "e_end (?t ! i) \<le> e_start (?t ! j)" if "i < j" "j < ?n" for i j using excl_okD(4) [OF ok that] .
  have len: "e_start (?t ! i) < e_end (?t ! i)" if "i < ?n" for i using excl_okD(3) [OF ok that] .
  consider (none) "nxt = Inr None" "\<forall>i<?n. e_end (?t ! i) \<le> start"
    | (some) k where "nxt = Inr (Some k)" "k < ?n" "start < e_end (?t ! k)" "\<forall>i<k. e_end (?t ! i) \<le> start"
    using next_exclusion_ok [OF ok, of start] by (cases "?n = 0") (auto simp: nxt_def split: sum.splits option.splits)
  then show ?thesis
  proof cases
    case none
    show ?thesis
    proof (cases "?n = MAX_EXCLUSIONS")
      case True
      then show ?thesis using none unfolding GC_exclude_static_roots_inner_def Let_def nxt_def [symmetric] by simp
    next
      case False
      have "GC_exclude_static_roots_inner start finish st =
          Inr (st\<lparr>GC_excl_table := ?t[?n := \<lparr>e_start = start, e_end = finish\<rparr>], GC_excl_table_entries := ?n + 1\<rparr>)"
        using none False unfolding GC_exclude_static_roots_inner_def Let_def nxt_def [symmetric] by simp
      then show ?thesis
        using inserted_ok [OF ok refl le_refl _ se, of "?t[?n := \<lparr>e_start = start, e_end = finish\<rparr>]"] False bounds none(2) by auto
    qed
  next
    case (some k)
    let ?x = "?t ! k"
    consider "e_start ?x < finish" | "e_start ?x = finish" | "finish < e_start ?x" by linarith
    then show ?thesis
    proof cases
      case 1
      have "max start (e_start ?x) \<in> excluded st \<inter> {start..<finish}"
        using 1 some se len [of k] by (auto simp: excluded_def max_def intro!: bexI [of _ k])
      then show ?thesis using 1 some unfolding GC_exclude_static_roots_inner_def Let_def nxt_def [symmetric] by auto
    next
      case 2
      have "GC_exclude_static_roots_inner start finish st = Inr (st\<lparr>GC_excl_table := ?t[k := ?x\<lparr>e_start := start\<rparr>]\<rparr>)"
        using 2 some unfolding GC_exclude_static_roots_inner_def Let_def nxt_def [symmetric] by simp
      then show ?thesis using extended_ok [OF ok some(2), of start] 2 se some(2,4) by simp
    next
      case 3
      show ?thesis
      proof (cases "?n = MAX_EXCLUSIONS")
        case True
        then have "excl_shift ?t k ?n = Inl OutOfBounds" using excl_shift_full [of k ?t] bounds(1) some(2) by simp
        then show ?thesis using 3 some True
          unfolding GC_exclude_static_roots_inner_def Let_def nxt_def [symmetric] by auto
      next
        case False
        then obtain tbl where tbl: "excl_shift ?t k ?n = Inr tbl" "length tbl = length ?t"
            "\<forall>i. tbl ! i = (if k < i \<and> i \<le> ?n then ?t ! (i - 1) else ?t ! i)"
          using excl_shift_ok [of ?n ?t k] bounds some(2) by auto
        let ?t' = "tbl[k := \<lparr>e_start = start, e_end = finish\<rparr>]"
        have hi: "finish \<le> e_start (?t ! i)" if "k \<le> i" "i < ?n" for i
          using that 3 gap [of k i] len [of k] some(2) by (cases "i = k") auto
        have nth: "?t' ! i = (if i < k then ?t ! i else if i = k then \<lparr>e_start = start, e_end = finish\<rparr> else ?t ! (i - 1))"
          if "i \<le> ?n" for i using that tbl(2,3) bounds some(2) by (auto simp: nth_list_update)
        have "GC_exclude_static_roots_inner start finish st = Inr (st\<lparr>GC_excl_table := ?t', GC_excl_table_entries := ?n + 1\<rparr>)"
          using 3 some tbl(1) False unfolding GC_exclude_static_roots_inner_def Let_def nxt_def [symmetric] by simp
        then show ?thesis
          using inserted_ok [OF ok refl _ _ se _ nth] hi some(2,4) False bounds tbl(2) by auto
      qed
    qed
  qed
qed

section \<open>Root sets\<close>

lemma rt_hash_less: "rt_hash b < RT_SIZE"
proof -
  have "(63 :: 64 word) = mask 6" by (simp add: mask_eq_exp_minus_1)
  then have "x AND 63 = take_bit 6 x" for x :: "64 word" by (simp add: take_bit_eq_mask)
  then show ?thesis using take_bit_nat_less_exp [of 6]
    by (simp add: rt_hash_def RT_SIZE_def LOG_RT_SIZE_def Let_def unsigned_take_bit_eq)
qed

text \<open>The root sets that a chain of the index leads through.\<close>

fun root_chain :: "root_set list \<Rightarrow> nat option \<Rightarrow> nat list \<Rightarrow> bool" where
  "root_chain rs p [] \<longleftrightarrow> p = None"
| "root_chain rs p (i # is') \<longleftrightarrow> p = Some i \<and> root_chain rs (r_next (rs ! i)) is'"

definition root_indexed :: "nat \<Rightarrow> root_tables \<Rightarrow> bool" where
  "root_indexed n st \<longleftrightarrow> length (GC_root_index st) = RT_SIZE \<and>
     (\<forall>h < RT_SIZE. \<exists>is'. root_chain (GC_static_roots st) (GC_root_index st ! h) is' \<and> distinct is' \<and>
        set is' = {i. i < n \<and> rt_hash (r_start (GC_static_roots st ! i)) = h})"

text \<open>The sets in use, and the map they stand for.\<close>

definition root_entry :: "root_set \<Rightarrow> nat \<times> nat \<times> bool" where
  "root_entry r = (r_start r, r_end r, r_tmp r)"

definition root_list :: "root_tables \<Rightarrow> (nat \<times> nat \<times> bool) list" where
  "root_list st = map root_entry (take (n_root_sets st) (GC_static_roots st))"

definition roots_map :: "root_tables \<Rightarrow> nat \<rightharpoonup> nat \<times> bool" where
  "roots_map st = map_of (root_list st)"

definition root_bytes :: "(nat \<times> nat \<times> bool) list \<Rightarrow> 64 word" where
  "root_bytes rs = (\<Sum>(s, e, t) \<leftarrow> rs. of_nat e - of_nat s)"

definition sets_ok :: "root_tables \<Rightarrow> bool" where
  "sets_ok st \<longleftrightarrow> length (GC_static_roots st) = MAX_ROOT_SETS \<and> n_root_sets st \<le> MAX_ROOT_SETS \<and>
     distinct (map fst (root_list st)) \<and> (\<forall>(s, e, t) \<in> set (root_list st). s < e) \<and> GC_root_size st = root_bytes (root_list st)"

definition roots_ok :: "root_tables \<Rightarrow> bool" where
  "roots_ok st \<longleftrightarrow> sets_ok st \<and> root_indexed (n_root_sets st) st"

lemma root_chain_update:
  "i \<notin> set is' \<Longrightarrow> root_chain (rs[i := r]) p is' = root_chain rs p is'"
  by (induction rs p is' rule: root_chain.induct) auto

lemma root_chain_same_next:
  "r_next r = r_next (rs ! i) \<Longrightarrow> root_chain (rs[i := r]) p is' = root_chain rs p is'"
  by (cases "i < length rs") (induction rs p is' rule: root_chain.induct, auto simp: nth_list_update list_update_beyond)

lemma find_root_chain:
  "root_chain rs p is' \<Longrightarrow> length is' < k \<Longrightarrow> find_root k rs b p = Inr (find (\<lambda>i. r_start (rs ! i) = b) is')"
proof (induction is' arbitrary: k p)
  case (Nil k p) then show ?case by (cases k) auto
next
  case (Cons i is' k p) then show ?case by (cases k) auto
qed

lemma find_Some_in: "find P xs = Some x \<Longrightarrow> P x \<and> x \<in> set xs"
  by (induction xs) (auto split: if_splits)

lemma find_None_all: "find P xs = None \<Longrightarrow> x \<in> set xs \<Longrightarrow> \<not> P x"
  by (induction xs) (auto split: if_splits)

lemma roots_present_ok:
  assumes "root_indexed (n_root_sets st) st"
  shows "case GC_roots_present b st of
      Inl e \<Rightarrow> False
    | Inr None \<Rightarrow> \<forall>i < n_root_sets st. r_start (GC_static_roots st ! i) \<noteq> b
    | Inr (Some i) \<Rightarrow> i < n_root_sets st \<and> r_start (GC_static_roots st ! i) = b"
proof -
  from assms obtain is' where c: "root_chain (GC_static_roots st) (GC_root_index st ! rt_hash b) is'" "distinct is'"
      "set is' = {i. i < n_root_sets st \<and> rt_hash (r_start (GC_static_roots st ! i)) = rt_hash b}"
    using rt_hash_less unfolding root_indexed_def by blast
  have "card (set is') \<le> card {..<n_root_sets st}" using c(3) by (intro card_mono) auto
  then have "length is' < n_root_sets st + 1" using c(2) by (simp add: distinct_card)
  from find_root_chain [OF c(1) this, of b]
  have p: "GC_roots_present b st = Inr (find (\<lambda>i. r_start (GC_static_roots st ! i) = b) is')" (is "_ = Inr ?f")
    by (simp add: GC_roots_present_def)
  show ?thesis
  proof (cases ?f)
    case None
    then have "r_start (GC_static_roots st ! i) \<noteq> b" if "i < n_root_sets st" for i
      using that c(3) find_None_all [OF None, of i] by auto
    then show ?thesis using p None by simp
  next
    case (Some i)
    then show ?thesis using p c(3) find_Some_in [OF Some] by auto
  qed
qed

lemma add_to_index_indexed:
  assumes "root_indexed n st" "n < length (GC_static_roots st)"
  shows "root_indexed (n + 1) (add_roots_to_index n st)"
proof -
  let ?rs = "GC_static_roots st" and ?h = "rt_hash (r_start (GC_static_roots st ! n))"
  let ?rs' = "?rs[n := (?rs ! n)\<lparr>r_next := GC_root_index st ! ?h\<rparr>]"
  have start: "r_start (?rs' ! i) = r_start (?rs ! i)" for i
    using assms(2) by (simp add: nth_list_update)
  have "\<exists>is'. root_chain ?rs' ((GC_root_index st)[?h := Some n] ! h) is' \<and> distinct is' \<and>
      set is' = {i. i < n + 1 \<and> rt_hash (r_start (?rs ! i)) = h}" if "h < RT_SIZE" for h
  proof -
    from assms(1) that obtain is' where c: "root_chain ?rs (GC_root_index st ! h) is'" "distinct is'"
        "set is' = {i. i < n \<and> rt_hash (r_start (?rs ! i)) = h}"
      unfolding root_indexed_def by blast
    have l: "length (GC_root_index st) = RT_SIZE" using assms(1) by (simp add: root_indexed_def)
    have n: "root_chain ?rs' p is' = root_chain ?rs p is'" for p by (rule root_chain_update) (simp add: c(3))
    show ?thesis
    proof (cases "h = ?h")
      case True
      then show ?thesis using c n l that assms(2)
        by (intro exI [of _ "n # is'"]) (auto simp: less_Suc_eq)
    next
      case False
      then show ?thesis using c n by (intro exI [of _ is']) (auto simp: less_Suc_eq)
    qed
  qed
  then show ?thesis using assms(1) by (simp add: root_indexed_def add_roots_to_index_def Let_def start)
qed

section \<open>Adding a root set\<close>

lemma root_list_length [simp]: "sets_ok st \<Longrightarrow> length (root_list st) = n_root_sets st"
  by (simp add: root_list_def sets_ok_def)

lemma root_list_nth: "i < n_root_sets st \<Longrightarrow> n_root_sets st \<le> length (GC_static_roots st) \<Longrightarrow>
    root_list st ! i = root_entry (GC_static_roots st ! i)"
  by (simp add: root_list_def)

lemma root_list_take: "root_list st = take (n_root_sets st) (map root_entry (GC_static_roots st))"
  by (simp add: root_list_def take_map)

lemma add_to_index_entries [simp]:
  "map root_entry (GC_static_roots (add_roots_to_index p st)) = map root_entry (GC_static_roots st)"
  by (cases "p < length (GC_static_roots st)")
    (auto intro!: nth_equalityI simp: nth_list_update list_update_beyond root_entry_def add_roots_to_index_def Let_def)

lemma add_to_index_rest [simp]:
  "root_list (add_roots_to_index p st) = root_list st"
  "n_root_sets (add_roots_to_index p st) = n_root_sets st"
  "GC_root_size (add_roots_to_index p st) = GC_root_size st"
  "length (GC_static_roots (add_roots_to_index p st)) = length (GC_static_roots st)"
proof -
  show n: "n_root_sets (add_roots_to_index p st) = n_root_sets st" by (simp add: add_roots_to_index_def Let_def)
  show "root_list (add_roots_to_index p st) = root_list st" unfolding root_list_take n by simp
qed (simp_all add: add_roots_to_index_def Let_def)

lemma add_to_index_sets [simp]: "sets_ok (add_roots_to_index p st) = sets_ok st"
  by (simp add: sets_ok_def)

text \<open>What adding \<open>[b, e)\<close> does to the map: a set with this start keeps its kind and may grow.\<close>

definition add_root :: "nat \<Rightarrow> nat \<Rightarrow> bool \<Rightarrow> (nat \<rightharpoonup> nat \<times> bool) \<Rightarrow> nat \<rightharpoonup> nat \<times> bool" where
  "add_root b e tmp M =
     (if b = e then M
      else case M b of None \<Rightarrow> M(b \<mapsto> (e, tmp)) | Some (e', tmp') \<Rightarrow> M(b \<mapsto> (max e e', tmp')))"

lemma map_of_distinct_update:
  "distinct (map fst xs) \<Longrightarrow> i < length xs \<Longrightarrow> fst (xs ! i) = k \<Longrightarrow> map_of (xs[i := (k, v)]) = (map_of xs)(k \<mapsto> v)"
proof (induction xs arbitrary: i)
  case (Cons x xs)
  show ?case
  proof (cases i)
    case 0
    then show ?thesis using Cons(4) by (auto simp: fun_eq_iff)
  next
    case (Suc j)
    then have "fst x \<noteq> k" using Cons(2,3,4) by auto
    then show ?thesis using Cons Suc by (auto simp: fun_eq_iff)
  qed
qed simp

lemma sum_list_update:
  fixes f :: "'a \<Rightarrow> 'b :: ab_group_add"
  shows "i < length xs \<Longrightarrow> (\<Sum>x \<leftarrow> xs[i := y]. f x) = (\<Sum>x \<leftarrow> xs. f x) - f (xs ! i) + f y"
proof (induction xs arbitrary: i)
  case (Cons x xs) then show ?case by (cases i) (auto simp: algebra_simps)
qed simp

lemma map_of_root_list:
  assumes "sets_ok st"
  shows "i < n_root_sets st \<Longrightarrow> roots_map st (r_start (GC_static_roots st ! i)) = Some (r_end (GC_static_roots st ! i), r_tmp (GC_static_roots st ! i))"
    and "(\<forall>i < n_root_sets st. r_start (GC_static_roots st ! i) \<noteq> b) \<Longrightarrow> roots_map st b = None"
proof -
  have n: "n_root_sets st \<le> length (GC_static_roots st)" "distinct (map fst (root_list st))"
    using assms by (auto simp: sets_ok_def)
  show "roots_map st (r_start (GC_static_roots st ! i)) = Some (r_end (GC_static_roots st ! i), r_tmp (GC_static_roots st ! i))"
    if "i < n_root_sets st"
  proof -
    have "root_list st ! i \<in> set (root_list st)" using that assms by (intro nth_mem) simp
    then show ?thesis using n that by (simp add: roots_map_def root_list_nth root_entry_def)
  qed
  show "roots_map st b = None" if "\<forall>i < n_root_sets st. r_start (GC_static_roots st ! i) \<noteq> b"
    using that n(1) by (auto simp: roots_map_def map_of_eq_None_iff root_list_def root_entry_def in_set_conv_nth) blast
qed

lemma word_down_le: "word_down e \<le> e"
  by (simp add: word_down_def)

lemma grown_root_ok:
  assumes ok: "roots_ok st" and i: "i < n_root_sets st" and e: "r_end (GC_static_roots st ! i) < e"
  defines "r \<equiv> GC_static_roots st ! i"
  defines "st' \<equiv> st\<lparr>GC_root_size := GC_root_size st + of_nat (e - r_end r), GC_static_roots := (GC_static_roots st)[i := r\<lparr>r_end := e\<rparr>]\<rparr>"
  shows "roots_ok st'" "roots_map st' = (roots_map st)(r_start r \<mapsto> (e, r_tmp r))"
proof -
  have s: "sets_ok st" "root_indexed (n_root_sets st) st" using ok by (auto simp: roots_ok_def)
  then have n: "n_root_sets st \<le> length (GC_static_roots st)" "distinct (map fst (root_list st))"
      "\<forall>(s, e, t) \<in> set (root_list st). s < e" "GC_root_size st = root_bytes (root_list st)"
    by (auto simp: sets_ok_def)
  have nth: "root_list st ! i = (r_start r, r_end r, r_tmp r)" using i n(1) by (simp add: root_list_nth root_entry_def r_def)
  have li: "i < length (root_list st)" using i s(1) by simp
  have rl: "root_list st' = (root_list st)[i := (r_start r, e, r_tmp r)]"
    by (simp add: root_list_def st'_def take_update_swap map_update root_entry_def)
  have lt: "r_start r < r_end r" using n(3) nth_mem [OF li] nth by auto
  have "root_indexed (n_root_sets st') st'"
  proof -
    have "root_chain (GC_static_roots st') p is' = root_chain (GC_static_roots st) p is'" for p is'
      by (simp add: st'_def r_def root_chain_same_next)
    moreover have "r_start (GC_static_roots st' ! j) = r_start (GC_static_roots st ! j)" for j
      using i n(1) by (simp add: st'_def r_def nth_list_update)
    ultimately show ?thesis using s(2) by (simp add: root_indexed_def) (simp add: st'_def)
  qed
  moreover have "map fst (root_list st') = map fst (root_list st)"
    using nth li by (simp add: rl map_update list_update_same_conv)
  moreover have "\<forall>(s, e, t) \<in> set (root_list st'). s < e"
    using n(3) e lt by (auto simp: rl r_def dest!: set_update_subset_insert [THEN subsetD])
  moreover have "GC_root_size st' = root_bytes (root_list st')"
    unfolding rl using e n(4) li nth by (simp add: st'_def root_bytes_def sum_list_update r_def of_nat_diff)
  ultimately show "roots_ok st'"
    using s(1) by (simp add: roots_ok_def sets_ok_def) (simp add: st'_def)
  show "roots_map st' = (roots_map st)(r_start r \<mapsto> (e, r_tmp r))"
    using n(2) li nth by (simp add: roots_map_def rl map_of_distinct_update)
qed

lemma new_root_ok:
  fixes tmp :: bool
  assumes ok: "roots_ok st" and n: "n_root_sets st < MAX_ROOT_SETS" and be: "b < e"
    and new: "\<forall>i < n_root_sets st. r_start (GC_static_roots st ! i) \<noteq> b"
  defines "n \<equiv> n_root_sets st"
  defines "st1 \<equiv> st\<lparr>GC_static_roots := (GC_static_roots st)[n := \<lparr>r_start = b, r_end = e, r_next = None, r_tmp = tmp\<rparr>]\<rparr>"
  defines "st' \<equiv> (add_roots_to_index n st1)\<lparr>GC_root_size := GC_root_size st + (of_nat e - of_nat b), n_root_sets := n + 1\<rparr>"
  shows "roots_ok st'" "roots_map st' = (roots_map st)(b \<mapsto> (e, tmp))"
proof -
  have s: "sets_ok st" "root_indexed n st" using ok by (auto simp: roots_ok_def n_def)
  have len: "n < length (GC_static_roots st)" using n s(1) by (simp add: sets_ok_def n_def)
  have "root_indexed n st1"
  proof -
    have start: "r_start (GC_static_roots st1 ! i) = r_start (GC_static_roots st ! i)" if "i < n" for i
      using that len by (simp add: st1_def)
    have "\<exists>is'. root_chain (GC_static_roots st1) (GC_root_index st ! h) is' \<and> distinct is' \<and>
        set is' = {i. i < n \<and> rt_hash (r_start (GC_static_roots st1 ! i)) = h}" if h: "h < RT_SIZE" for h
    proof -
      from s(2) h obtain is' where c: "root_chain (GC_static_roots st) (GC_root_index st ! h) is'" "distinct is'"
          "set is' = {i. i < n \<and> rt_hash (r_start (GC_static_roots st ! i)) = h}"
        unfolding root_indexed_def by blast
      have "root_chain (GC_static_roots st1) (GC_root_index st ! h) is'"
        using c(1,3) by (simp add: st1_def root_chain_update)
      moreover have "set is' = {i. i < n \<and> rt_hash (r_start (GC_static_roots st1 ! i)) = h}"
        unfolding c(3) using start by auto
      ultimately show ?thesis using c(2) by blast
    qed
    then show ?thesis using s(2) by (simp add: root_indexed_def) (simp add: st1_def)
  qed
  then have "root_indexed (n + 1) (add_roots_to_index n st1)" using len by (intro add_to_index_indexed) (simp_all add: st1_def)
  then have ix: "root_indexed (n_root_sets st') st'" by (simp add: st'_def root_indexed_def)
  have rl: "root_list st' = root_list st @ [(b, e, tmp)]"
  proof -
    have "map root_entry (GC_static_roots st1) = (map root_entry (GC_static_roots st))[n := (b, e, tmp)]"
      by (simp add: st1_def map_update root_entry_def)
    then show ?thesis using len
      by (simp add: root_list_take st'_def n_def [symmetric] take_Suc_conv_app_nth del: add_to_index_rest)
  qed
  have mb: "roots_map st b = None" using map_of_root_list(2) [OF s(1) new] .
  have "length (GC_static_roots st') = length (GC_static_roots st)" "n_root_sets st' = n + 1"
      "GC_root_size st' = GC_root_size st + (of_nat e - of_nat b)"
    by (simp_all add: st'_def st1_def)
  moreover have "b \<notin> fst ` set (root_list st)"
    using mb by (simp add: roots_map_def map_of_eq_None_iff)
  ultimately show "roots_ok st'"
    using ix s(1) n be by (auto simp: roots_ok_def sets_ok_def rl root_bytes_def n_def)
  show "roots_map st' = (roots_map st)(b \<mapsto> (e, tmp))" 
    using mb unfolding roots_map_def rl by (auto simp: map_of_append fun_eq_iff map_add_def split: option.split)
qed

text \<open>\<open>GC_add_roots_inner\<close> fails only when the table is full.\<close>

lemma add_roots_ok:
  assumes ok: "roots_ok st" and be: "b \<le> word_down e"
  shows "case GC_add_roots_inner b e tmp st of
      Inr st' \<Rightarrow> roots_ok st' \<and> roots_map st' = add_root b (word_down e) tmp (roots_map st)
    | Inl err \<Rightarrow> n_root_sets st = MAX_ROOT_SETS \<and> roots_map st b = None"
proof (cases "b = word_down e")
  case True
  then show ?thesis using ok by (simp add: GC_add_roots_inner_def add_root_def)
next
  case False
  let ?e = "word_down e"
  have s: "sets_ok st" "root_indexed (n_root_sets st) st" using ok by (auto simp: roots_ok_def)
  consider (none) "GC_roots_present b st = Inr None" "\<forall>i < n_root_sets st. r_start (GC_static_roots st ! i) \<noteq> b"
    | (some) i where "GC_roots_present b st = Inr (Some i)" "i < n_root_sets st" "r_start (GC_static_roots st ! i) = b"
    using roots_present_ok [OF s(2), of b] by (auto split: sum.splits option.splits)
  then show ?thesis
  proof cases
    case none
    then have m: "roots_map st b = None" using map_of_root_list(2) [OF s(1)] by blast
    show ?thesis
    proof (cases "n_root_sets st = MAX_ROOT_SETS")
      case True
      then show ?thesis using none(1) m False by (simp add: GC_add_roots_inner_def Let_def)
    next
      case nfull: False
      then have "n_root_sets st < MAX_ROOT_SETS" using s(1) by (simp add: sets_ok_def)
      from new_root_ok [OF ok this _ none(2), of ?e tmp] False be none(1) m nfull show ?thesis
        by (simp add: GC_add_roots_inner_def add_root_def Let_def)
    qed
  next
    case (some i)
    let ?r = "GC_static_roots st ! i"
    have m: "roots_map st b = Some (r_end ?r, r_tmp ?r)" using map_of_root_list(1) [OF s(1) some(2)] some(3) by simp
    show ?thesis
    proof (cases "?e \<le> r_end ?r")
      case True
      then show ?thesis using some m ok False
        by (simp add: GC_add_roots_inner_def add_root_def Let_def max_absorb2 fun_upd_idem)
    next
      case grow: False
      with grown_root_ok [OF ok some(2), of ?e] some m False show ?thesis
        by (simp add: GC_add_roots_inner_def add_root_def Let_def max_absorb1)
    qed
  qed
qed

section \<open>Removing root sets\<close>

lemma remove_at_list:
  assumes "sets_ok st" "i < n_root_sets st"
  shows "root_list (GC_remove_root_at_pos i st) = butlast ((root_list st)[i := last (root_list st)])"
proof -
  let ?n = "n_root_sets st" and ?rs = "GC_static_roots st"
  have n: "?n \<le> length ?rs" using assms(1) by (simp add: sets_ok_def)
  have "last (root_list st) = root_entry (?rs ! (?n - 1))"
    using assms root_list_length [OF assms(1)] n by (simp add: last_conv_nth root_list_nth flip: length_greater_0_conv)
  then have e: "map root_entry (GC_static_roots (GC_remove_root_at_pos i st)) = (map root_entry ?rs)[i := last (root_list st)]"
    by (simp add: GC_remove_root_at_pos_def Let_def map_update root_entry_def)
  have "butlast ((root_list st)[i := x]) = take (?n - 1) ((map root_entry ?rs)[i := x])" for x
    using n butlast_take [of ?n "(map root_entry ?rs)[i := x]"] by (simp add: root_list_take take_update_swap)
  moreover have "n_root_sets (GC_remove_root_at_pos i st) = ?n - 1" by (simp add: GC_remove_root_at_pos_def Let_def)
  ultimately show ?thesis unfolding root_list_take [of "GC_remove_root_at_pos i st"] e by simp
qed

lemma mset_replace_last:
  assumes "i < length xs"
  shows "mset (butlast (xs[i := last xs])) = mset xs - {# xs ! i #}"
proof -
  have ne: "xs \<noteq> []" using assms by auto
  have l: "last (xs[i := last xs]) = last xs"
    using ne by (auto simp: last_list_update)
  have "mset (xs[i := last xs]) = add_mset (last xs) (mset xs - {# xs ! i #})" using assms by (simp add: mset_update)
  moreover have "mset (xs[i := last xs]) = add_mset (last xs) (mset (butlast (xs[i := last xs])))"
    using append_butlast_last_id [of "xs[i := last xs]"] ne l
    by (metis list_update_nonempty mset_append add_mset_add_single mset.simps(1) mset.simps(2))
  ultimately show ?thesis by simp
qed

lemma root_bytes_mset: "root_bytes rs = (\<Sum>(s, e, t) \<in># mset rs. of_nat e - of_nat s)"
  by (simp add: root_bytes_def sum_mset_sum_list flip: mset_map)

lemma distinct_submset:
  assumes "mset xs \<subseteq># mset ys" "distinct ys"
  shows "distinct xs"
  unfolding distinct_count_atmost_1
proof
  fix a
  have "count (mset xs) a \<le> count (mset ys) a" using assms(1) by (rule mset_subset_eq_count)
  also have "\<dots> \<le> 1" using assms(2) by (auto simp: distinct_count_atmost_1)
  finally have le: "count (mset xs) a \<le> 1" .
  show "count (mset xs) a = (if a \<in> set xs then 1 else 0)"
  proof (cases "a \<in> set xs")
    case True
    then have "0 < count (mset xs) a" by simp
    then show ?thesis unfolding if_P [OF True] using le by linarith
  qed simp
qed

lemma remove_at_ok:
  assumes "sets_ok st" "i < n_root_sets st"
  shows "sets_ok (GC_remove_root_at_pos i st)"
    and "mset (root_list (GC_remove_root_at_pos i st)) = mset (root_list st) - {# root_entry (GC_static_roots st ! i) #}"
proof -
  let ?st = "GC_remove_root_at_pos i st" and ?r = "GC_static_roots st ! i"
  have n: "n_root_sets st \<le> length (GC_static_roots st)" "length (GC_static_roots st) = MAX_ROOT_SETS"
    using assms(1) by (auto simp: sets_ok_def)
  have i: "i < length (root_list st)" "root_list st ! i = root_entry ?r"
    using assms n(1) by (simp_all add: root_list_nth)
  then have mem: "root_entry ?r \<in># mset (root_list st)" using nth_mem [OF i(1)] by simp
  show m: "mset (root_list ?st) = mset (root_list st) - {# root_entry ?r #}"
    using mset_replace_last [OF i(1)] i(2) by (simp add: remove_at_list [OF assms])
  have sub: "mset (root_list ?st) \<subseteq># mset (root_list st)" by (simp add: m)
  have "distinct (map fst (root_list ?st))"
  proof (rule distinct_submset)
    show "mset (map fst (root_list ?st)) \<subseteq># mset (map fst (root_list st))"
      using image_mset_subseteq_mono [OF sub, of fst] by simp
  qed (use assms(1) in \<open>simp add: sets_ok_def\<close>)
  moreover have "\<forall>(s, e, t) \<in> set (root_list ?st). s < e"
    using assms(1) set_mset_mono [OF sub] by (auto simp: sets_ok_def)
  moreover have "GC_root_size ?st = root_bytes (root_list ?st)"
  proof -
    obtain M where M: "mset (root_list st) = add_mset (root_entry ?r) M" using multi_member_split [OF mem] by blast
    have b: "GC_root_size ?st = root_bytes (root_list st) - (of_nat (r_end ?r) - of_nat (r_start ?r))"
      using assms(1) by (simp add: GC_remove_root_at_pos_def Let_def sets_ok_def)
    show ?thesis unfolding b root_bytes_mset m M by (simp add: root_entry_def)
  qed
  ultimately show "sets_ok ?st"
    using n assms by (simp add: sets_ok_def) (simp add: GC_remove_root_at_pos_def Let_def)
qed

lemma remove_loop_ok:
  assumes "sets_ok st" "P = (\<lambda>r. Q (root_entry r))"
    "\<And>j. j < i \<Longrightarrow> j < n_root_sets st \<Longrightarrow> \<not> Q (root_entry (GC_static_roots st ! j))"
  shows "sets_ok (remove_roots_loop P i st) \<and>
    mset (root_list (remove_roots_loop P i st)) = filter_mset (\<lambda>x. \<not> Q x) (mset (root_list st))"
  using assms
proof (induction P i st rule: remove_roots_loop.induct)
  case (1 P i st)
  let ?r = "GC_static_roots st ! i"
  have n: "n_root_sets st \<le> length (GC_static_roots st)" using 1(3) by (simp add: sets_ok_def)
  consider "\<not> i < n_root_sets st" | "i < n_root_sets st" "Q (root_entry ?r)" | "i < n_root_sets st" "\<not> Q (root_entry ?r)"
    by blast
  then show ?case
  proof cases
    case 1
    then have "\<not> Q x" if "x \<in># mset (root_list st)" for x
      using that "1.prems"(3) n by (auto simp: root_list_def in_set_conv_nth)
    then have "filter_mset (\<lambda>x. \<not> Q x) (mset (root_list st)) = mset (root_list st)"
      by (simp add: filter_mset_eq_conv)
    then show ?thesis using 1 "1.prems"(1) by (simp add: remove_roots_loop.simps [of P i])
  next
    case 2
    note rm = remove_at_ok [OF "1.prems"(1) 2(1)]
    have "\<not> Q (root_entry (GC_static_roots (GC_remove_root_at_pos i st) ! j))"
      if "j < i" "j < n_root_sets (GC_remove_root_at_pos i st)" for j
      using that "1.prems"(3) [of j] by (simp add: GC_remove_root_at_pos_def Let_def)
    moreover have P: "P ?r" using 2 "1.prems"(2) by simp
    ultimately show ?thesis
      using "1.IH"(1) [OF 2(1) P rm(1) "1.prems"(2)] 2 rm(2) by (simp add: remove_roots_loop.simps [of P i st])
  next
    case 3
    then have "\<not> Q (root_entry (GC_static_roots st ! j))" if "j < i + 1" "j < n_root_sets st" for j
      using that "1.prems"(3) [of j] by (cases "j = i") auto
    moreover have P: "\<not> P ?r" using 3 "1.prems"(2) by simp
    ultimately show ?thesis
      using "1.IH"(2) [OF 3(1) P "1.prems"(1,2)] 3 by (simp add: remove_roots_loop.simps [of P i st])
  qed
qed

lemma rebuild_ok:
  assumes "sets_ok st"
  shows "roots_ok (GC_rebuild_root_index st)" "root_list (GC_rebuild_root_index st) = root_list st"
proof -
  let ?st = "\<lambda>k. fold add_roots_to_index [0..<k] (st\<lparr>GC_root_index := replicate RT_SIZE None\<rparr>)"
  have "sets_ok (?st k) \<and> root_list (?st k) = root_list st \<and> n_root_sets (?st k) = n_root_sets st \<and>
      length (GC_static_roots (?st k)) = length (GC_static_roots st) \<and> root_indexed k (?st k)"
    if "k \<le> n_root_sets st" for k
    using that
  proof (induction k)
    case 0
    have "\<forall>h < RT_SIZE. root_chain rs (replicate RT_SIZE None ! h) []" for rs by simp
    then show ?case using assms
      by (simp add: root_indexed_def sets_ok_def root_list_def)
  next
    case (Suc k)
    then have "k < length (GC_static_roots (?st k))" using assms by (simp add: sets_ok_def)
    with Suc add_to_index_indexed [of k "?st k"] show ?case by simp
  qed
  from this [of "n_root_sets st"] show "roots_ok (GC_rebuild_root_index st)" "root_list (GC_rebuild_root_index st) = root_list st"
    by (simp_all add: roots_ok_def GC_rebuild_root_index_def)
qed

lemma option_eq_by_Some: "(\<And>v. x = Some v \<longleftrightarrow> y = Some v) \<Longrightarrow> x = y"
  by (cases x; cases y) auto

lemma remove_roots_map:
  assumes "roots_ok st" "P = (\<lambda>r. Q (root_entry r))"
  defines "st' \<equiv> GC_rebuild_root_index (remove_roots_loop P 0 st)"
  shows "roots_ok st'"
    and "roots_map st' = (\<lambda>b. case roots_map st b of None \<Rightarrow> None | Some v \<Rightarrow> if Q (b, v) then None else Some v)"
proof -
  have s: "sets_ok st" using assms(1) by (simp add: roots_ok_def)
  have l: "sets_ok (remove_roots_loop P 0 st)"
      "mset (root_list (remove_roots_loop P 0 st)) = filter_mset (\<lambda>x. \<not> Q x) (mset (root_list st))"
    using remove_loop_ok [OF s assms(2), of 0] by simp_all
  show "roots_ok st'" using rebuild_ok(1) [OF l(1)] by (simp add: st'_def)
  have e: "root_list st' = root_list (remove_roots_loop P 0 st)" using rebuild_ok(2) [OF l(1)] by (simp add: st'_def)
  have d: "distinct (map fst (root_list st))" "distinct (map fst (root_list st'))"
    using s l(1) by (simp_all add: sets_ok_def e)
  have m: "set (root_list st') = {x \<in> set (root_list st). \<not> Q x}"
    using arg_cong [OF l(2), of set_mset] by (simp add: e)
  have "roots_map st' b = Some v \<longleftrightarrow> roots_map st b = Some v \<and> \<not> Q (b, v)" for b v
    using d m by (simp add: roots_map_def)
  then show "roots_map st' = (\<lambda>b. case roots_map st b of None \<Rightarrow> None | Some v \<Rightarrow> if Q (b, v) then None else Some v)"
    by (intro ext option_eq_by_Some) (auto split: option.split)
qed

section \<open>The addresses of the roots\<close>

definition root_addresses :: "root_tables \<Rightarrow> nat set" where
  "root_addresses st = (\<Union>(s, e, t) \<in> set (root_list st). {s..<e})"

lemma root_addresses_nth:
  assumes "n_root_sets st \<le> length (GC_static_roots st)"
  shows "p \<in> root_addresses st \<longleftrightarrow> (\<exists>i < n_root_sets st. in_root st p i)"
proof -
  have l: "length (root_list st) = n_root_sets st" using assms by (simp add: root_list_def)
  have "p \<in> root_addresses st \<longleftrightarrow> (\<exists>x \<in> set (root_list st). fst x \<le> p \<and> p < fst (snd x))"
    by (auto simp: root_addresses_def split: prod.splits) force
  also have "\<dots> \<longleftrightarrow> (\<exists>i < n_root_sets st. fst (root_list st ! i) \<le> p \<and> p < fst (snd (root_list st ! i)))"
    unfolding l [symmetric] by (metis in_set_conv_nth)
  finally show ?thesis using assms by (auto simp: in_root_def root_list_nth root_entry_def)
qed

lemma is_static_root_ok:
  assumes "sets_ok st"
  shows "fst (GC_is_static_root p st) \<longleftrightarrow> p \<in> root_addresses st"
    and "root_part (snd (GC_is_static_root p st)) = root_part st" "excl_part (snd (GC_is_static_root p st)) = excl_part st"
proof -
  have n: "n_root_sets st \<le> length (GC_static_roots st)" using assms by (simp add: sets_ok_def)
  have f: "find (in_root st p) [0..<n_root_sets st] = None \<longleftrightarrow> (\<forall>i < n_root_sets st. \<not> in_root st p i)"
    by (auto simp: find_None_iff)
  show "fst (GC_is_static_root p st) \<longleftrightarrow> p \<in> root_addresses st"
    using f by (auto simp: GC_is_static_root_def root_addresses_nth [OF n] split: option.split)
qed (simp_all add: GC_is_static_root_def root_part_def excl_part_def split: option.split)

lemma push_root_sets_ok:
  assumes "excl_ok st" "0 < GC_excl_table_entries st"
  shows "\<exists>xs. push_root_sets st rs = Inr xs \<and> spans xs = (\<Union>r \<in> set rs. {r_start r..<r_end r}) - excluded st"
proof (induction rs)
  case (Cons r rs)
  from push_conditional_exact [OF assms, of "r_start r" "r_end r"] Cons show ?case by (auto simp: Un_Diff)
qed simp

lemma push_static_roots_ok:
  assumes "excl_ok st" "0 < GC_excl_table_entries st"
  shows "\<exists>xs. push_static_roots st = Inr xs \<and> spans xs = root_addresses st - excluded st"
  using push_root_sets_ok [OF assms, of "take (n_root_sets st) (GC_static_roots st)"]
  by (simp add: push_static_roots_def root_addresses_def root_list_def root_entry_def)

section \<open>The tables that the collector reaches\<close>

definition no_roots :: "root_tables \<Rightarrow> bool" where
  "no_roots st \<longleftrightarrow> length (GC_static_roots st) = MAX_ROOT_SETS \<and> n_root_sets st = 0 \<and>
     GC_root_index st = replicate RT_SIZE None \<and> GC_root_size st = 0 \<and>
     length (GC_excl_table st) = MAX_EXCLUSIONS \<and> GC_excl_table_entries st = 0"

inductive roots_step :: "root_tables \<Rightarrow> root_tables \<Rightarrow> bool" where
  Add: "b \<le> word_down e \<Longrightarrow> GC_add_roots_inner b e tmp st = Inr st' \<Longrightarrow> roots_step st st'"
| Remove: "roots_step st (GC_remove_roots b e st)"
| Remove_tmp: "roots_step st (GC_remove_tmp_roots st)"
| Clear: "roots_step st (GC_clear_roots st)"
| Exclude: "b \<le> word_down e \<Longrightarrow> GC_exclude_static_roots b e st = Inr st' \<Longrightarrow> roots_step st st'"
| Query: "roots_step st (snd (GC_is_static_root p st))"

inductive roots_reachable :: "root_tables \<Rightarrow> bool" where
  Start: "no_roots st \<Longrightarrow> roots_reachable st"
| Step: "roots_reachable st \<Longrightarrow> roots_step st st' \<Longrightarrow> roots_reachable st'"

lemma no_index: "length (GC_root_index st) = RT_SIZE \<Longrightarrow> GC_root_index st = replicate RT_SIZE None \<Longrightarrow> root_indexed 0 st"
  by (auto simp: root_indexed_def intro: exI [of _ "[]"])

lemma no_roots_ok: "no_roots st \<Longrightarrow> roots_ok st \<and> excl_ok st"
  by (auto simp: no_roots_def roots_ok_def sets_ok_def root_list_def root_bytes_def excl_ok_def intro: no_index)

lemma clear_roots_ok: "roots_ok st \<Longrightarrow> roots_ok (GC_clear_roots st)"
  by (auto simp: GC_clear_roots_def roots_ok_def sets_ok_def root_list_def root_bytes_def intro: no_index)

lemma excl_part_ok: "excl_part st' = excl_part st \<Longrightarrow> excl_ok st' = excl_ok st" "excl_part st' = excl_part st \<Longrightarrow> excluded st' = excluded st"
  by (simp_all add: excl_part_def excl_ok_def excluded_def)

lemma add_to_index_excl [simp]: "excl_part (add_roots_to_index p st) = excl_part st"
  by (simp add: add_roots_to_index_def Let_def excl_part_def)

lemma add_roots_excl: "GC_add_roots_inner b e tmp st = Inr st' \<Longrightarrow> excl_part st' = excl_part st"
  using add_to_index_excl [unfolded excl_part_def]
  by (auto simp: GC_add_roots_inner_def Let_def excl_part_def elim!: rbind_InrE split: if_splits option.splits)

lemma remove_loop_excl [simp]: "excl_part (remove_roots_loop P i st) = excl_part st"
proof (induction P i st rule: remove_roots_loop.induct)
  case (1 P i st)
  then show ?case
    by (subst remove_roots_loop.simps) (simp add: GC_remove_root_at_pos_def Let_def excl_part_def)
qed

lemma rebuild_excl [simp]: "excl_part (GC_rebuild_root_index st) = excl_part st"
proof -
  have "excl_part (fold add_roots_to_index xs st) = excl_part st" for xs and st :: root_tables
    by (induction xs arbitrary: st) simp_all
  then show ?thesis by (simp add: GC_rebuild_root_index_def) (simp add: excl_part_def)
qed

lemma root_part_ok:
  assumes "root_part st' = root_part st"
  shows "roots_ok st' = roots_ok st" "root_list st' = root_list st"
  using assms by (simp_all add: root_part_def roots_ok_def sets_ok_def root_indexed_def root_list_def)

lemma exclude_static_roots_ok:
  assumes ok: "excl_ok st" and be: "b \<le> word_down e"
  shows "case GC_exclude_static_roots b e st of
      Inr st' \<Rightarrow> excl_ok st' \<and> excluded st' = excluded st \<union> {b..<word_down e} \<and> excluded st \<inter> {b..<word_down e} = {} \<and>
        root_part st' = root_part st \<and> (b < word_down e \<longrightarrow> 0 < GC_excl_table_entries st')
    | Inl err \<Rightarrow> excluded st \<inter> {b..<word_down e} \<noteq> {} \<or> GC_excl_table_entries st = MAX_EXCLUSIONS"
proof (cases "b = word_down e")
  case True
  then show ?thesis using ok by (simp add: GC_exclude_static_roots_def)
next
  case False
  then have "b < word_down e" using be by simp
  from exclude_inner_ok [OF ok this] False show ?thesis
    by (simp add: GC_exclude_static_roots_def Let_def split: sum.splits)
qed

lemma roots_reachable_ok: "roots_reachable st \<Longrightarrow> roots_ok st \<and> excl_ok st"
proof (induction rule: roots_reachable.induct)
  case (Start st) then show ?case by (rule no_roots_ok)
next
  case (Step st st')
  then have ok: "roots_ok st" "excl_ok st" by auto
  from Step(2) show ?case
  proof cases
    case (Add b e tmp)
    have "roots_ok st'" using add_roots_ok [OF ok(1) Add(1), of tmp] unfolding Add(2) by simp
    moreover have "excl_ok st'" using excl_part_ok(1) [OF add_roots_excl [OF Add(2)]] ok(2) by simp
    ultimately show ?thesis by simp
  next
    case (Remove b e)
    have "(\<lambda>r. b \<le> r_start r \<and> r_end r \<le> e) = (\<lambda>r. (\<lambda>(s, t, _). b \<le> s \<and> t \<le> e) (root_entry r))"
      by (simp add: root_entry_def)
    from remove_roots_map(1) [OF ok(1) this] have "roots_ok (GC_remove_roots_inner b e st)" by (simp add: GC_remove_roots_inner_def)
    moreover have "excl_part (GC_remove_roots_inner b e st) = excl_part st" by (simp add: GC_remove_roots_inner_def)
    ultimately show ?thesis using Remove ok excl_part_ok(1) [of "GC_remove_roots_inner b e st" st] by (simp add: GC_remove_roots_def)
  next
    case Remove_tmp
    have "r_tmp = (\<lambda>r. (\<lambda>(s, t, u). u) (root_entry r))" by (auto simp: root_entry_def)
    from remove_roots_map(1) [OF ok(1) this] have "roots_ok st'" by (simp add: Remove_tmp GC_remove_tmp_roots_def)
    moreover have "excl_part st' = excl_part st" by (simp add: Remove_tmp GC_remove_tmp_roots_def)
    ultimately show ?thesis using ok excl_part_ok(1) [of st' st] by simp
  next
    case Clear
    then show ?thesis using clear_roots_ok ok by (auto simp: GC_clear_roots_def excl_ok_def)
  next
    case (Exclude b e)
    have "excl_ok st' \<and> root_part st' = root_part st"
      using exclude_static_roots_ok [OF ok(2) Exclude(1)] unfolding Exclude(2) by simp
    then show ?thesis using root_part_ok(1) [of st' st] ok(1) by simp
  next
    case (Query p)
    have "sets_ok st" using ok(1) by (simp add: roots_ok_def)
    note q = is_static_root_ok(2,3) [OF this, of p]
    show ?thesis using ok root_part_ok(1) [OF q(1)] excl_part_ok(1) [OF q(2)] by (simp add: Query)
  qed
qed

section \<open>The stack\<close>

fun push_range :: "push \<Rightarrow> nat set" where
  "push_range (Push_all lo hi) = {lo..<hi}"
| "push_range (Push_all_eager lo hi) = {lo..<hi}"
| "push_range (Push_all_stack lo hi) = {lo..<hi}"

definition pushed :: "push list \<Rightarrow> nat set" where
  "pushed ps = (\<Union>p \<in> set ps. push_range p)"

lemma pushed_simps [simp]: "pushed [] = {}" "pushed (p # ps) = push_range p \<union> pushed ps" "pushed (ps @ qs) = pushed ps \<union> pushed qs"
  by (auto simp: pushed_def)

text \<open>
  The sections that are skipped lie apart and in order between the stack pointer and the bottom of
  the stack; the cold frame, if any, lies in the hottest part.
\<close>

fun sections_ok :: "nat \<Rightarrow> nat \<Rightarrow> nat \<Rightarrow> (nat \<times> nat) list \<Rightarrow> bool" where
  "sections_ok lo hi cold [] \<longleftrightarrow> lo \<le> hi \<and> (cold = 0 \<or> lo + 8 \<le> cold \<and> cold \<le> hi)"
| "sections_ok lo hi cold ((sect, saved) # sects) \<longleftrightarrow>
     lo \<le> sect \<and> sect \<le> saved \<and> (cold = 0 \<or> lo + 8 \<le> cold \<and> cold \<le> sect) \<and> sections_ok saved hi 0 sects"

lemma partially_eager_range:
  "cold = 0 \<or> lo + 8 \<le> cold \<and> cold \<le> hi \<Longrightarrow>
    pushed (GC_push_all_stack_partially_eager all_interior lo hi cold) = {lo..<hi}"
  by (auto simp: GC_push_all_stack_partially_eager_def)

lemma sections_above: "sections_ok lo hi cold sects \<Longrightarrow> lo \<le> hi \<and> spans sects \<subseteq> {lo..<hi}"
proof (induction lo hi cold sects rule: sections_ok.induct)
  case (2 lo hi cold sect saved sects)
  then have "saved \<le> hi \<and> spans sects \<subseteq> {saved..<hi}" by simp
  then show ?case using 2(2) by fastforce
qed auto

lemma part_eager_sections_exact:
  "sections_ok lo hi cold sects \<Longrightarrow>
    pushed (GC_push_all_stack_part_eager_sections all_interior lo hi cold sects) = {lo..<hi} - spans sects"
proof (induction lo hi cold sects rule: sections_ok.induct)
  case (1 lo hi cold)
  then show ?case by (simp add: partially_eager_range)
next
  case (2 lo hi cold sect saved sects)
  have "sections_ok saved hi 0 sects" using 2(2) by simp
  then have "saved \<le> hi" "spans sects \<subseteq> {saved..<hi}" using sections_above by blast+
  then show ?case using 2 by (auto simp: partially_eager_range)
qed

lemma root_addresses_map:
  assumes "sets_ok st"
  shows "p \<in> root_addresses st \<longleftrightarrow> (\<exists>b e t. roots_map st b = Some (e, t) \<and> b \<le> p \<and> p < e)"
proof -
  have "distinct (map fst (root_list st))" using assms by (simp add: sets_ok_def)
  then show ?thesis by (fastforce simp: root_addresses_def roots_map_def)
qed

end
