(* ===== verification/GC_Root_Properties.thy ===== *)
theory GC_Root_Properties
  imports GC_Root_Facts
begin

text \<open>
  The properties of the roots, each with its statement in words and an instance at a concrete
  table.
\<close>

section \<open>A concrete table\<close>

definition empty_roots :: root_tables where
  "empty_roots = \<lparr>GC_static_roots = replicate MAX_ROOT_SETS \<lparr>r_start = 0, r_end = 0, r_next = None, r_tmp = False\<rparr>,
     n_root_sets = 0, GC_root_index = replicate RT_SIZE None, GC_root_size = 0, roots_were_cleared = False,
     last_root_set = MAX_ROOT_SETS, GC_excl_table = replicate MAX_EXCLUSIONS \<lparr>e_start = 0, e_end = 0\<rparr>,
     GC_excl_table_entries = 0\<rparr>"

lemma empty_roots_ok:
  "no_roots empty_roots" "roots_reachable empty_roots" "roots_ok empty_roots" "excl_ok empty_roots"
  "roots_map empty_roots = Map.empty" "excluded empty_roots = {}" "n_root_sets empty_roots = 0"
  "GC_excl_table_entries empty_roots = 0"
proof -
  show n: "no_roots empty_roots" by (simp add: no_roots_def empty_roots_def)
  show "roots_reachable empty_roots" by (rule roots_reachable.Start [OF n])
  show "roots_ok empty_roots" "excl_ok empty_roots" using no_roots_ok [OF n] by auto
qed (simp_all add: roots_map_def root_list_def excluded_def empty_roots_def)

text \<open>The root set \<open>[8, 32)\<close>, of which \<open>[8, 16)\<close> is excluded.\<close>

definition sample_roots :: "root_tables \<Rightarrow> bool" where
  "sample_roots st \<longleftrightarrow> roots_reachable st \<and> roots_ok st \<and> excl_ok st \<and> 0 < GC_excl_table_entries st \<and>
     excluded st = {8..<16} \<and> roots_map st = [8 \<mapsto> (32, True)] \<and> n_root_sets st = 1"

lemma sample_roots_exist: "\<exists>st. sample_roots st"
proof -
  have w: "word_down 16 = 16" "word_down 32 = 32" by (simp_all add: word_down_def)
  have "GC_excl_table_entries empty_roots \<noteq> MAX_EXCLUSIONS"
    by (simp add: empty_roots_ok MAX_EXCLUSIONS_def MAX_ROOT_SETS_def)
  then obtain st1 where 1: "GC_exclude_static_roots 8 16 empty_roots = Inr st1" "excl_ok st1" "excluded st1 = {8..<16}"
      "root_part st1 = root_part empty_roots" "0 < GC_excl_table_entries st1"
    using exclude_static_roots_ok [OF empty_roots_ok(4), of 8 16] by (auto simp: w empty_roots_ok split: sum.splits)
  have r1: "roots_ok st1" "roots_map st1 = Map.empty" "n_root_sets st1 = 0"
    using root_part_ok [OF 1(4)] 1(4) empty_roots_ok by (simp_all add: roots_map_def root_part_def)
  obtain st2 where 2: "GC_add_roots_inner 8 32 True st1 = Inr st2" "roots_ok st2" "roots_map st2 = [8 \<mapsto> (32, True)]"
    using add_roots_ok [OF r1(1), of 8 32 True] by (auto simp: w r1 add_root_def MAX_ROOT_SETS_def split: sum.splits)
  have e: "excl_part st2 = excl_part st1" by (rule add_roots_excl [OF 2(1)])
  have "roots_reachable st1" using 1(1) w by (intro roots_reachable.Step [OF empty_roots_ok(2)] roots_step.Exclude [of 8 16]) auto
  then have "roots_reachable st2" using 2(1) w by (rule_tac roots_reachable.Step [OF _ roots_step.Add [of 8 32 True]]) auto
  moreover have "n_root_sets st2 = 1"
  proof -
    have "distinct (map fst (root_list st2))" "length (root_list st2) = n_root_sets st2"
      using 2(2) by (auto simp: roots_ok_def sets_ok_def root_list_def)
    moreover have "fst ` set (root_list st2) = {8}"
      using arg_cong [OF 2(3), of dom] by (simp add: roots_map_def dom_map_of_conv_image_fst)
    ultimately show ?thesis using distinct_card [of "map fst (root_list st2)"] by simp
  qed
  ultimately have "sample_roots st2"
    using 1 2 e excl_part_ok [OF e] by (simp add: sample_roots_def excl_part_def)
  then show ?thesis by blast
qed

section \<open>Properties\<close>

text \<open>
  C33: in every state of the tables that registrations, removals and exclusions of roots
  reach, the marker is handed exactly the addresses in the registered root sets that are not excluded.
\<close>

theorem static_roots_pushed:
  assumes "roots_reachable st" "0 < GC_excl_table_entries st"
  shows "\<exists>xs. push_static_roots st = Inr xs \<and> spans xs = root_addresses st - excluded st"
  using push_static_roots_ok assms roots_reachable_ok by blast

lemma static_roots_pushed_witness:
  "\<exists>st xs. roots_reachable st \<and> push_static_roots st = Inr xs \<and> spans xs = {16..<32}"
proof -
  obtain st where st: "sample_roots st" using sample_roots_exist by blast
  then have "p \<in> root_addresses st \<longleftrightarrow> 8 \<le> p \<and> p < 32" for p
    using root_addresses_map [of st p] by (auto simp: sample_roots_def roots_ok_def)
  then have "root_addresses st - excluded st = {16..<32}" using st by (auto simp: sample_roots_def)
  with static_roots_pushed [of st] st show ?thesis by (auto simp: sample_roots_def)
qed

text \<open>
  C34: \<open>GC_add_roots\<close> implements an update of the map from the start of a root set to its end:
  a new start is added, a known one keeps the larger end, the index finds each set afterwards, and the only error is
  a full table.
\<close>

theorem GC_add_roots_refines:
  assumes "roots_ok st" "b \<le> word_down e"
  shows "case GC_add_roots b e st of
      Inr st' \<Rightarrow> roots_ok st' \<and> roots_map st' = add_root b (word_down e) False (roots_map st)
    | Inl err \<Rightarrow> n_root_sets st = MAX_ROOT_SETS \<and> roots_map st b = None"
  using add_roots_ok [OF assms, of False] by (simp add: GC_add_roots_def)

text \<open>The set that was temporary grows, and stays temporary.\<close>

lemma GC_add_roots_refines_witness:
  "\<exists>st st'. roots_map st = [8 \<mapsto> (32, True)] \<and> GC_add_roots 8 45 st = Inr st' \<and> roots_map st' = [8 \<mapsto> (40, True)]"
proof -
  obtain st where st: "sample_roots st" using sample_roots_exist by blast
  then have "\<exists>st'. GC_add_roots 8 45 st = Inr st' \<and> roots_map st' = [8 \<mapsto> (40, True)]"
    using GC_add_roots_refines [of st 8 45] by (auto simp: sample_roots_def word_down_def add_root_def split: sum.splits)
  then show ?thesis using st by (auto simp: sample_roots_def)
qed

text \<open>
  \<open>GC_remove_roots\<close> deletes exactly the root sets that lie between the two addresses, and
  leaves the index in order.
\<close>

theorem GC_remove_roots_exact:
  assumes "roots_ok st" "word_down ((b + 7) mod 2 ^ 64) < word_down e"
  shows "roots_ok (GC_remove_roots b e st) \<and>
    roots_map (GC_remove_roots b e st) s = (case roots_map st s of
        None \<Rightarrow> None
      | Some (t, tmp) \<Rightarrow> if b \<le> s \<and> t \<le> e then None else Some (t, tmp))"
proof -
  have "(\<lambda>r. b \<le> r_start r \<and> r_end r \<le> e) = (\<lambda>r. (\<lambda>(s, t, _). b \<le> s \<and> t \<le> e) (root_entry r))"
    by (simp add: root_entry_def)
  from remove_roots_map [OF assms(1) this] assms(2) show ?thesis
    by (auto simp: GC_remove_roots_def GC_remove_roots_inner_def split: option.splits)
qed

lemma GC_remove_roots_exact_witness:
  "\<exists>st. roots_map st 8 = Some (32, True) \<and> roots_map (GC_remove_roots 8 31 st) 8 = Some (32, True) \<and>
    roots_map (GC_remove_roots 8 32 st) 8 = None"
proof -
  obtain st where st: "sample_roots st" using sample_roots_exist by blast
  with GC_remove_roots_exact [of st 8 31 8] GC_remove_roots_exact [of st 8 32 8] show ?thesis
    by (intro exI [of _ st]) (simp add: sample_roots_def word_down_def)
qed

text \<open>
  \<open>GC_exclude_static_roots\<close> adds the range to the excluded addresses and keeps the table sorted;
  it fails only when the range overlaps an exclusion or the table is full.
\<close>

theorem GC_exclude_static_roots_exact:
  assumes "excl_ok st" "b \<le> word_down e"
  shows "case GC_exclude_static_roots b e st of
      Inr st' \<Rightarrow> excl_ok st' \<and> excluded st' = excluded st \<union> {b..<word_down e} \<and> excluded st \<inter> {b..<word_down e} = {}
    | Inl err \<Rightarrow> excluded st \<inter> {b..<word_down e} \<noteq> {} \<or> GC_excl_table_entries st = MAX_EXCLUSIONS"
  using exclude_static_roots_ok [OF assms] by (simp split: sum.splits)

lemma GC_exclude_static_roots_exact_witness:
  "\<exists>st err. excluded st = {8..<16} \<and> GC_exclude_static_roots 12 24 st = Inl err"
proof -
  obtain st where st: "sample_roots st" using sample_roots_exist by blast
  have "12 \<in> {8..<16::nat} \<inter> {12..<24}" by simp
  with GC_exclude_static_roots_exact [of st 12 24] st show ?thesis
    by (intro exI [of _ st]) (auto simp: sample_roots_def word_down_def split: sum.splits)
qed

text \<open>
  C35: the ranges pushed for the stack of the program cover it from the stack pointer to its bottom, but
  for the sections that clients asked to skip, which are not touched.
\<close>

theorem stack_pushed:
  assumes "sections_ok sp bottom cold sects"
  shows "pushed (GC_push_current_stack all_interior sp bottom sects cold) = {sp..<bottom} - spans sects"
  using part_eager_sections_exact [OF assms] by (simp add: GC_push_current_stack_def)

lemma stack_pushed_witness:
  "pushed (GC_push_current_stack True 1000 2000 [(1200, 1500)] 1040) = {1000..<2000} - {1200..<1500}"
  using stack_pushed [of 1000 2000 1040 "[(1200, 1500)]" True] by simp

end
