(* ===== verification/GC_Finalize.thy ===== *)
theory GC_Finalize
  imports Prelude
begin

unbundle bit_operations_syntax

text \<open>
  Disappearing links and finalizers (\<^verbatim>\<open>libs/gc/finalize.c\<close>): two hash tables whose chains are
  lists of their entries, and the queue of the objects that wait for their finalizer. Addresses
  are 64-bit words. The marker, \<open>GC_base\<close>, the size in the header of an object and the functions
  of the client are parameters; the results of the allocator are a list in the state. A
  collection that an allocation triggers is a step of its own before the operation. Built
  without threads.
\<close>

section \<open>Tables\<close>

type_synonym addr = "64 word"

definition ALIGNMENT :: addr where "ALIGNMENT = 8"
definition GC_SUCCESS :: nat where "GC_SUCCESS = 0"
definition GC_DUPLICATE :: nat where "GC_DUPLICATE = 1"
definition GC_NO_MEMORY :: nat where "GC_NO_MEMORY = 2"

definition GC_HIDE_POINTER :: "addr \<Rightarrow> addr" where "GC_HIDE_POINTER p = NOT p"
definition GC_REVEAL_POINTER :: "addr \<Rightarrow> addr" where "GC_REVEAL_POINTER p = GC_HIDE_POINTER p"

text \<open>The address of an entry is the field \<open>entry_at\<close>; its place in the chain stands for \<open>next\<close>.\<close>

record hash_chain_entry =
  entry_at :: addr
  hidden_key :: addr

record disappearing_link = hash_chain_entry +
  dl_hidden_obj :: addr

datatype finalization_mark_proc = Normal_proc | Ignore_self_proc | Null_proc | Unreachable_proc

text \<open>Functions of the client are addresses, 0 is the null pointer.\<close>

record finalizable_object = hash_chain_entry +
  fo_fn :: addr
  fo_client_data :: addr
  fo_object_size :: addr
  fo_mark_proc :: finalization_mark_proc

text \<open>A table that was never allocated has the logarithm -1 and no chains.\<close>

record fin_state =
  dl_head :: "disappearing_link list list"
  log_dl_table_size :: int
  GC_dl_entries :: addr
  fo_head :: "finalizable_object list list"
  log_fo_table_size :: int
  GC_fo_entries :: addr
  GC_finalize_now :: "finalizable_object list"
  GC_java_finalization :: bool
  need_unreachable_finalization :: bool
  GC_finalize_on_demand :: bool
  GC_finalizer_nested :: "8 word"
  GC_finalizer_skipped :: "32 word"
  GC_old_dl_entries :: addr
  GC_bytes_finalized :: addr
  GC_bytes_freed :: addr
  GC_finalizer_bytes_freed :: addr
  GC_fail_count :: addr
  GC_gc_no :: addr
  last_finalizer_notification :: addr
  GC_finalizer_notifier :: addr
  marks :: "addr set"
  words :: "addr \<Rightarrow> 64 word"
  malloc_results :: "addr list"
  freed :: "addr list"

definition HASH3 :: "addr \<Rightarrow> 64 word \<Rightarrow> nat \<Rightarrow> nat" where
  "HASH3 addr sz log_size = unat ((drop_bit 3 addr XOR drop_bit (3 + log_size) addr) AND (sz - 1))"

text \<open>The shift \<open>1 << log_size\<close> is an \<open>int\<close>.\<close>

definition HASH2 :: "addr \<Rightarrow> int \<Rightarrow> nat res" where
  "HASH2 addr log_size =
     (if log_size < 0 \<or> log_size > 30 then Inl Overflow
      else Inr (HASH3 addr (2 ^ nat log_size) (nat log_size)))"

definition GC_INTERNAL_MALLOC :: "fin_state \<Rightarrow> addr \<times> fin_state" where
  "GC_INTERNAL_MALLOC st =
     (case malloc_results st of [] \<Rightarrow> (0, st) | p # ps \<Rightarrow> (p, st\<lparr>malloc_results := ps\<rparr>))"

definition GC_free :: "addr \<Rightarrow> fin_state \<Rightarrow> fin_state" where
  "GC_free p st = st\<lparr>freed := p # freed st\<rparr>"

text \<open>The chains of the old table in order, each entry to the front of its new chain.\<close>

definition rehash :: "nat \<Rightarrow> 'a hash_chain_entry_scheme \<Rightarrow> 'a hash_chain_entry_scheme list list \<Rightarrow> 'a hash_chain_entry_scheme list list" where
  "rehash log_new_size p new_table =
     (let real_key = GC_REVEAL_POINTER (hidden_key p);
          new_hash = HASH3 real_key (2 ^ log_new_size) log_new_size
      in new_table[new_hash := p # (new_table ! new_hash)])"

text \<open>\<open>new_addr\<close> is the address of the new table.\<close>

definition GC_grow_table ::
  "addr \<Rightarrow> 'a hash_chain_entry_scheme list list \<Rightarrow> int \<Rightarrow> ('a hash_chain_entry_scheme list list \<times> int) res" where
  "GC_grow_table new_addr table log_old_size =
     (if log_old_size > 30 then Inl Overflow
      else
        let log_new_size = log_old_size + 1;
            old_size = (if log_old_size = - 1 then 0 else 2 ^ nat log_old_size);
            new_size = 2 ^ nat log_new_size
        in if new_addr = 0 then
             if table = [] then Inl (Abort ''Insufficient space for initial table allocation'')
             else Inr (table, log_old_size)
           else Inr (fold (rehash (nat log_new_size)) (concat (take old_size table)) (replicate new_size []), log_new_size))"

text \<open>The first entry of a chain with a key is changed or taken out; \<open>None\<close> when there is none.\<close>

fun chain_update :: "addr \<Rightarrow> ('a hash_chain_entry_scheme \<Rightarrow> 'a hash_chain_entry_scheme) \<Rightarrow> 'a hash_chain_entry_scheme list \<Rightarrow>
    ('a hash_chain_entry_scheme \<times> 'a hash_chain_entry_scheme list) option" where
  "chain_update k f [] = None"
| "chain_update k f (p # ps) =
     (if hidden_key p = k then Some (p, f p # ps)
      else case chain_update k f ps of None \<Rightarrow> None | Some (q, qs) \<Rightarrow> Some (q, p # qs))"

fun chain_remove :: "addr \<Rightarrow> 'a hash_chain_entry_scheme list \<Rightarrow> ('a hash_chain_entry_scheme \<times> 'a hash_chain_entry_scheme list) option" where
  "chain_remove k [] = None"
| "chain_remove k (p # ps) =
     (if hidden_key p = k then Some (p, ps)
      else case chain_remove k ps of None \<Rightarrow> None | Some (q, qs) \<Rightarrow> Some (q, p # qs))"

section \<open>Disappearing links\<close>

definition grow_dl :: "fin_state \<Rightarrow> fin_state res" where
  "grow_dl st =
     (if log_dl_table_size st = - 1 \<or> GC_dl_entries st > push_bit (nat (log_dl_table_size st)) 1 then
        let (new_addr, st) = GC_INTERNAL_MALLOC st
        in rbind (GC_grow_table new_addr (dl_head st) (log_dl_table_size st)) (\<lambda>(table, log_size).
             Inr (st\<lparr>dl_head := table, log_dl_table_size := log_size\<rparr>))
      else Inr st)"

text \<open>The search for a registered link; one that is found gets the new object.\<close>

definition dl_replace :: "addr \<Rightarrow> addr \<Rightarrow> fin_state \<Rightarrow> (bool \<times> fin_state) res" where
  "dl_replace link obj st =
     rbind (HASH2 link (log_dl_table_size st)) (\<lambda>index.
       if index \<ge> length (dl_head st) then Inl OutOfBounds
       else
         case chain_update (GC_HIDE_POINTER link) (\<lambda>p. p\<lparr>dl_hidden_obj := GC_HIDE_POINTER obj\<rparr>) (dl_head st ! index) of
           None \<Rightarrow> Inr (False, st)
         | Some (_, chain) \<Rightarrow> Inr (True, st\<lparr>dl_head := (dl_head st)[index := chain]\<rparr>))"

definition dl_insert :: "addr \<Rightarrow> addr \<Rightarrow> addr \<Rightarrow> fin_state \<Rightarrow> fin_state res" where
  "dl_insert new_dl link obj st =
     rbind (HASH2 link (log_dl_table_size st)) (\<lambda>index.
       if index \<ge> length (dl_head st) then Inl OutOfBounds
       else
         let p = \<lparr>entry_at = new_dl, hidden_key = GC_HIDE_POINTER link, dl_hidden_obj = GC_HIDE_POINTER obj\<rparr>
         in Inr (st\<lparr>dl_head := (dl_head st)[index := p # (dl_head st ! index)], GC_dl_entries := GC_dl_entries st + 1\<rparr>))"

definition GC_general_register_disappearing_link ::
  "(fin_state \<Rightarrow> addr \<times> fin_state) \<Rightarrow> addr \<Rightarrow> addr \<Rightarrow> fin_state \<Rightarrow> (nat \<times> fin_state) res" where
  "GC_general_register_disappearing_link oom_fn link obj st =
     (if link AND (ALIGNMENT - 1) \<noteq> 0 \<or> link = 0 then Inl (Abort ''Bad arg to GC_general_register_disappearing_link'')
      else
        rbind (grow_dl st) (\<lambda>st.
        rbind (dl_replace link obj st) (\<lambda>(found, st).
          if found then Inr (GC_DUPLICATE, st)
          else
            let (new_dl, st) = GC_INTERNAL_MALLOC st
            in if new_dl \<noteq> 0 then rbind (dl_insert new_dl link obj st) (\<lambda>st. Inr (GC_SUCCESS, st))
               else
                 let (new_dl, st) = oom_fn st
                 in if new_dl = 0 then Inr (GC_NO_MEMORY, st)
                    else
                      rbind (dl_replace link obj st) (\<lambda>(found, st).
                        if found then Inr (GC_DUPLICATE, GC_free new_dl st)
                        else rbind (dl_insert new_dl link obj st) (\<lambda>st. Inr (GC_SUCCESS, st))))))"

definition GC_register_disappearing_link ::
  "(addr \<Rightarrow> addr) \<Rightarrow> (fin_state \<Rightarrow> addr \<times> fin_state) \<Rightarrow> addr \<Rightarrow> fin_state \<Rightarrow> (nat \<times> fin_state) res" where
  "GC_register_disappearing_link GC_base oom_fn link st =
     (let base = GC_base link
      in if base = 0 then Inl (Abort ''Bad arg to GC_register_disappearing_link'')
         else GC_general_register_disappearing_link oom_fn link base st)"

definition GC_unregister_disappearing_link :: "addr \<Rightarrow> fin_state \<Rightarrow> (bool \<times> fin_state) res" where
  "GC_unregister_disappearing_link link st =
     (if link AND (ALIGNMENT - 1) \<noteq> 0 then Inr (False, st)
      else
        rbind (HASH2 link (log_dl_table_size st)) (\<lambda>index.
          if index \<ge> length (dl_head st) then Inl OutOfBounds
          else
            case chain_remove (GC_HIDE_POINTER link) (dl_head st ! index) of
              None \<Rightarrow> Inr (False, st)
            | Some (curr_dl, chain) \<Rightarrow>
                Inr (True, GC_free (entry_at curr_dl)
                  (st\<lparr>dl_head := (dl_head st)[index := chain], GC_dl_entries := GC_dl_entries st - 1\<rparr>))))"

section \<open>Registering finalizers\<close>

definition grow_fo :: "fin_state \<Rightarrow> fin_state res" where
  "grow_fo st =
     (if log_fo_table_size st = - 1 \<or> GC_fo_entries st > push_bit (nat (log_fo_table_size st)) 1 then
        let (new_addr, st) = GC_INTERNAL_MALLOC st
        in rbind (GC_grow_table new_addr (fo_head st) (log_fo_table_size st)) (\<lambda>(table, log_size).
             Inr (st\<lparr>fo_head := table, log_fo_table_size := log_size\<rparr>))
      else Inr st)"

text \<open>
  The search for a registered object, whose entry is removed when \<open>fn\<close> is null and replaced
  otherwise; the result holds the old function and its data.
\<close>

definition fo_replace ::
  "addr \<Rightarrow> addr \<Rightarrow> addr \<Rightarrow> finalization_mark_proc \<Rightarrow> fin_state \<Rightarrow> ((addr \<times> addr) option \<times> fin_state) res" where
  "fo_replace base fn cd mp st =
     rbind (HASH2 base (log_fo_table_size st)) (\<lambda>index.
       if index \<ge> length (fo_head st) then Inl OutOfBounds
       else if fn = 0 then
         case chain_remove (GC_HIDE_POINTER base) (fo_head st ! index) of
           None \<Rightarrow> Inr (None, st)
         | Some (curr_fo, chain) \<Rightarrow>
             Inr (Some (fo_fn curr_fo, fo_client_data curr_fo), GC_free (entry_at curr_fo)
               (st\<lparr>fo_head := (fo_head st)[index := chain], GC_fo_entries := GC_fo_entries st - 1\<rparr>))
       else
         case chain_update (GC_HIDE_POINTER base) (\<lambda>p. p\<lparr>fo_fn := fn, fo_client_data := cd, fo_mark_proc := mp\<rparr>) (fo_head st ! index) of
           None \<Rightarrow> Inr (None, st)
         | Some (curr_fo, chain) \<Rightarrow>
             Inr (Some (fo_fn curr_fo, fo_client_data curr_fo), st\<lparr>fo_head := (fo_head st)[index := chain]\<rparr>))"

definition fo_insert :: "addr \<Rightarrow> addr \<Rightarrow> addr \<Rightarrow> addr \<Rightarrow> addr \<Rightarrow> finalization_mark_proc \<Rightarrow> fin_state \<Rightarrow> fin_state res" where
  "fo_insert new_fo base fn cd sz mp st =
     rbind (HASH2 base (log_fo_table_size st)) (\<lambda>index.
       if index \<ge> length (fo_head st) then Inl OutOfBounds
       else
         let p = \<lparr>entry_at = new_fo, hidden_key = GC_HIDE_POINTER base, fo_fn = fn, fo_client_data = cd,
                  fo_object_size = sz, fo_mark_proc = mp\<rparr>
         in Inr (st\<lparr>fo_head := (fo_head st)[index := p # (fo_head st ! index)], GC_fo_entries := GC_fo_entries st + 1\<rparr>))"

text \<open>
  \<open>object_size\<close> is the size in the header of an object, if it has one. The result holds what is
  stored through \<open>ofn\<close> and \<open>ocd\<close>, and is \<open>None\<close> when they are left alone.
\<close>

definition GC_register_finalizer_inner ::
  "(fin_state \<Rightarrow> addr \<times> fin_state) \<Rightarrow> (addr \<Rightarrow> addr option) \<Rightarrow> addr \<Rightarrow> addr \<Rightarrow> addr \<Rightarrow> finalization_mark_proc \<Rightarrow> fin_state \<Rightarrow>
     ((addr \<times> addr) option \<times> fin_state) res" where
  "GC_register_finalizer_inner oom_fn object_size obj fn cd mp st =
     rbind (grow_fo st) (\<lambda>st.
     rbind (fo_replace obj fn cd mp st) (\<lambda>(old, st).
       case old of
         Some ofd \<Rightarrow> Inr (Some ofd, st)
       | None \<Rightarrow>
           if fn = 0 then Inr (Some (0, 0), st)
           else
             case object_size obj of
               None \<Rightarrow> Inr (Some (0, 0), st)
             | Some sz \<Rightarrow>
                 let (new_fo, st) = GC_INTERNAL_MALLOC st
                 in if new_fo \<noteq> 0 then rbind (fo_insert new_fo obj fn cd sz mp st) (\<lambda>st. Inr (Some (0, 0), st))
                    else
                      let (new_fo, st) = oom_fn st
                      in if new_fo = 0 then Inr (None, st)
                         else
                           rbind (fo_replace obj fn cd mp st) (\<lambda>(old, st).
                             case old of
                               Some ofd \<Rightarrow> Inr (Some ofd, GC_free new_fo st)
                             | None \<Rightarrow> rbind (fo_insert new_fo obj fn cd sz mp st) (\<lambda>st. Inr (Some (0, 0), st)))))"

definition GC_register_finalizer ::
  "(fin_state \<Rightarrow> addr \<times> fin_state) \<Rightarrow> (addr \<Rightarrow> addr option) \<Rightarrow> addr \<Rightarrow> addr \<Rightarrow> addr \<Rightarrow> fin_state \<Rightarrow> ((addr \<times> addr) option \<times> fin_state) res" where
  "GC_register_finalizer oom_fn object_size obj fn cd st =
     GC_register_finalizer_inner oom_fn object_size obj fn cd Normal_proc st"

definition GC_register_finalizer_ignore_self ::
  "(fin_state \<Rightarrow> addr \<times> fin_state) \<Rightarrow> (addr \<Rightarrow> addr option) \<Rightarrow> addr \<Rightarrow> addr \<Rightarrow> addr \<Rightarrow> fin_state \<Rightarrow> ((addr \<times> addr) option \<times> fin_state) res" where
  "GC_register_finalizer_ignore_self oom_fn object_size obj fn cd st =
     GC_register_finalizer_inner oom_fn object_size obj fn cd Ignore_self_proc st"

definition GC_register_finalizer_no_order ::
  "(fin_state \<Rightarrow> addr \<times> fin_state) \<Rightarrow> (addr \<Rightarrow> addr option) \<Rightarrow> addr \<Rightarrow> addr \<Rightarrow> addr \<Rightarrow> fin_state \<Rightarrow> ((addr \<times> addr) option \<times> fin_state) res" where
  "GC_register_finalizer_no_order oom_fn object_size obj fn cd st =
     GC_register_finalizer_inner oom_fn object_size obj fn cd Null_proc st"

definition GC_register_finalizer_unreachable ::
  "(fin_state \<Rightarrow> addr \<times> fin_state) \<Rightarrow> (addr \<Rightarrow> addr option) \<Rightarrow> addr \<Rightarrow> addr \<Rightarrow> addr \<Rightarrow> fin_state \<Rightarrow> ((addr \<times> addr) option \<times> fin_state) res" where
  "GC_register_finalizer_unreachable oom_fn object_size obj fn cd st =
     GC_register_finalizer_inner oom_fn object_size obj fn cd Unreachable_proc (st\<lparr>need_unreachable_finalization := True\<rparr>)"

section \<open>Finalization\<close>

text \<open>
  A walk over a chain or a table that takes some entries out: the step says whether the entry
  stays, and changes the rest of the state.
\<close>

fun sweep_chain :: "('e \<Rightarrow> 's \<Rightarrow> bool \<times> 's) \<Rightarrow> 'e list \<Rightarrow> 's \<Rightarrow> 'e list \<times> 's" where
  "sweep_chain f [] st = ([], st)"
| "sweep_chain f (p # ps) st =
     (let (keep, st) = f p st; (qs, st) = sweep_chain f ps st
      in (if keep then p # qs else qs, st))"

fun sweep_table :: "('e \<Rightarrow> 's \<Rightarrow> bool \<times> 's) \<Rightarrow> 'e list list \<Rightarrow> 's \<Rightarrow> 'e list list \<times> 's" where
  "sweep_table f [] st = ([], st)"
| "sweep_table f (c # cs) st =
     (let (c, st) = sweep_chain f c st; (cs, st) = sweep_table f cs st in (c # cs, st))"

definition real_key :: "'a hash_chain_entry_scheme \<Rightarrow> addr" where
  "real_key p = GC_REVEAL_POINTER (hidden_key p)"

definition unlink_dl :: "disappearing_link \<Rightarrow> fin_state \<Rightarrow> fin_state" where
  "unlink_dl p st = st\<lparr>marks := marks st - {entry_at p}, GC_dl_entries := GC_dl_entries st - 1\<rparr>"

definition clear_link :: "disappearing_link \<Rightarrow> fin_state \<Rightarrow> bool \<times> fin_state" where
  "clear_link p st =
     (if GC_REVEAL_POINTER (dl_hidden_obj p) \<notin> marks st
      then (False, unlink_dl p (st\<lparr>words := (words st)(real_key p := 0)\<rparr>))
      else (True, st))"

definition dangling_link :: "(addr \<Rightarrow> addr) \<Rightarrow> disappearing_link \<Rightarrow> fin_state \<Rightarrow> bool \<times> fin_state" where
  "dangling_link GC_base p st =
     (let real_link = GC_base (real_key p)
      in if real_link \<noteq> 0 \<and> real_link \<notin> marks st then (False, unlink_dl p st) else (True, st))"

definition sweep_dl :: "(disappearing_link \<Rightarrow> fin_state \<Rightarrow> bool \<times> fin_state) \<Rightarrow> fin_state \<Rightarrow> fin_state" where
  "sweep_dl f st = (let (table, st) = sweep_table f (dl_head st) st in st\<lparr>dl_head := table\<rparr>)"

text \<open>\<open>mark_fo proc p M\<close> is what \<open>GC_MARK_FO(p, proc)\<close> leaves marked when \<open>M\<close> was.\<close>

definition mark_from :: "(finalization_mark_proc \<Rightarrow> addr \<Rightarrow> addr set \<Rightarrow> addr set) \<Rightarrow> finalizable_object \<Rightarrow> fin_state \<Rightarrow> fin_state" where
  "mark_from mark_fo p st =
     (if real_key p \<notin> marks st then st\<lparr>marks := mark_fo (fo_mark_proc p) (real_key p) (marks st)\<rparr> else st)"

text \<open>\<open>sizeof(struct finalizable_object)\<close> is 48.\<close>

definition to_queue :: "finalizable_object \<Rightarrow> fin_state \<Rightarrow> fin_state" where
  "to_queue p st =
     st\<lparr>GC_fo_entries := GC_fo_entries st - 1,
        GC_finalize_now := p\<lparr>hidden_key := real_key p\<rparr> # GC_finalize_now st,
        GC_bytes_finalized := GC_bytes_finalized st + fo_object_size p + 48\<rparr>"

definition enqueue :: "finalizable_object \<Rightarrow> fin_state \<Rightarrow> bool \<times> fin_state" where
  "enqueue p st =
     (if real_key p \<notin> marks st
      then (False, to_queue p (if GC_java_finalization st then st else st\<lparr>marks := insert (real_key p) (marks st)\<rparr>))
      else (True, st))"

definition sweep_fo :: "(finalizable_object \<Rightarrow> fin_state \<Rightarrow> bool \<times> fin_state) \<Rightarrow> fin_state \<Rightarrow> fin_state" where
  "sweep_fo f st = (let (table, st) = sweep_table f (fo_head st) st in st\<lparr>fo_head := table\<rparr>)"

text \<open>The queue holds its objects unhidden.\<close>

definition mark_queued :: "(finalization_mark_proc \<Rightarrow> addr \<Rightarrow> addr set \<Rightarrow> addr set) \<Rightarrow> finalizable_object \<Rightarrow> fin_state \<Rightarrow> fin_state" where
  "mark_queued mark_fo p st =
     (let real_ptr = hidden_key p
      in if real_ptr \<notin> marks st then
           let st = (if fo_mark_proc p = Null_proc then st\<lparr>marks := mark_fo Normal_proc real_ptr (marks st)\<rparr> else st)
           in if fo_mark_proc p \<noteq> Unreachable_proc then st\<lparr>marks := insert real_ptr (marks st)\<rparr> else st
         else st)"

text \<open>Objects that another finalizable object reaches go back to the table.\<close>

fun revive :: "finalizable_object list \<Rightarrow> fin_state \<Rightarrow> (finalizable_object list \<times> fin_state) res" where
  "revive [] st = Inr ([], st)"
| "revive (p # ps) st =
     (if fo_mark_proc p = Unreachable_proc then
        if hidden_key p \<notin> marks st then
          rbind (revive ps (st\<lparr>marks := insert (hidden_key p) (marks st)\<rparr>)) (\<lambda>(qs, st). Inr (p # qs, st))
        else
          rbind (HASH2 (hidden_key p) (log_fo_table_size st)) (\<lambda>i.
            if i \<ge> length (fo_head st) then Inl OutOfBounds
            else
              let q = p\<lparr>hidden_key := GC_HIDE_POINTER (hidden_key p)\<rparr>
              in revive ps (st\<lparr>GC_bytes_finalized := GC_bytes_finalized st - (fo_object_size p + 48),
                               fo_head := (fo_head st)[i := q # (fo_head st ! i)], GC_fo_entries := GC_fo_entries st + 1\<rparr>))
      else rbind (revive ps st) (\<lambda>(qs, st). Inr (p # qs, st)))"

definition java_queue :: "(finalization_mark_proc \<Rightarrow> addr \<Rightarrow> addr set \<Rightarrow> addr set) \<Rightarrow> fin_state \<Rightarrow> fin_state res" where
  "java_queue mark_fo st =
     (if GC_java_finalization st then
        let st = fold (mark_queued mark_fo) (GC_finalize_now st) st
        in if need_unreachable_finalization st then
             rbind (revive (GC_finalize_now st) st) (\<lambda>(queue, st). Inr (st\<lparr>GC_finalize_now := queue\<rparr>))
           else Inr st
      else Inr st)"

definition GC_finalize ::
  "(addr \<Rightarrow> addr) \<Rightarrow> (finalization_mark_proc \<Rightarrow> addr \<Rightarrow> addr set \<Rightarrow> addr set) \<Rightarrow> fin_state \<Rightarrow> fin_state res" where
  "GC_finalize GC_base mark_fo st =
     (let st = st\<lparr>GC_old_dl_entries := GC_dl_entries st\<rparr>;
          st = sweep_dl clear_link st;
          st = fold (mark_from mark_fo) (concat (fo_head st)) st;
          st = sweep_fo enqueue (st\<lparr>GC_bytes_finalized := 0\<rparr>)
      in rbind (java_queue mark_fo st) (\<lambda>st.
           let st = sweep_dl (dangling_link GC_base) st
           in Inr (if GC_fail_count st \<noteq> 0 then st\<lparr>GC_finalizer_nested := 0\<rparr> else st)))"

section \<open>Running finalizers\<close>

text \<open>The level of nesting; \<open>1U << nesting_level\<close> is undefined from level 32 on.\<close>

definition GC_check_finalizer_nested :: "fin_state \<Rightarrow> (bool \<times> fin_state) res" where
  "GC_check_finalizer_nested st =
     (let nesting_level = GC_finalizer_nested st;
          enter = (\<lambda>st. Inr (True, st\<lparr>GC_finalizer_nested := nesting_level + 1\<rparr>))
      in if nesting_level \<noteq> 0 then
           if nesting_level \<ge> 32 then Inl Overflow
           else
             let skipped = GC_finalizer_skipped st + 1
             in if skipped < push_bit (unat nesting_level) 1 then Inr (False, st\<lparr>GC_finalizer_skipped := skipped\<rparr>)
                else enter (st\<lparr>GC_finalizer_skipped := 0\<rparr>)
         else enter st)"

definition GC_should_invoke_finalizers :: "fin_state \<Rightarrow> bool" where
  "GC_should_invoke_finalizers st \<longleftrightarrow> GC_finalize_now st \<noteq> []"

text \<open>
  \<open>invoke fn obj data\<close> is what the client's function does to the state; it may register and
  queue more objects, so the loop need not end.
\<close>

partial_function (option) invoke_loop ::
  "(addr \<Rightarrow> addr \<Rightarrow> addr \<Rightarrow> fin_state \<Rightarrow> fin_state) \<Rightarrow> nat \<Rightarrow> fin_state \<Rightarrow> (nat \<times> fin_state) option" where
  "invoke_loop invoke count st =
     (case GC_finalize_now st of
        [] \<Rightarrow> Some (count, st)
      | curr_fo # queue \<Rightarrow>
          invoke_loop invoke (count + 1)
            (invoke (fo_fn curr_fo) (hidden_key curr_fo) (fo_client_data curr_fo) (st\<lparr>GC_finalize_now := queue\<rparr>)))"

definition GC_invoke_finalizers ::
  "(addr \<Rightarrow> addr \<Rightarrow> addr \<Rightarrow> fin_state \<Rightarrow> fin_state) \<Rightarrow> fin_state \<Rightarrow> (nat \<times> fin_state) option" where
  "GC_invoke_finalizers invoke st0 =
     (case invoke_loop invoke 0 st0 of
        None \<Rightarrow> None
      | Some (count, st) \<Rightarrow>
          Some (count,
            if count \<noteq> 0 \<and> GC_bytes_freed st0 \<noteq> GC_bytes_freed st
            then st\<lparr>GC_finalizer_bytes_freed := GC_finalizer_bytes_freed st + (GC_bytes_freed st - GC_bytes_freed st0)\<rparr>
            else st))"

definition enqueue_always ::
  "(finalization_mark_proc \<Rightarrow> addr \<Rightarrow> addr set \<Rightarrow> addr set) \<Rightarrow> finalizable_object \<Rightarrow> fin_state \<Rightarrow> bool \<times> fin_state" where
  "enqueue_always mark_fo p st =
     (False, to_queue p (st\<lparr>marks := insert (real_key p) (mark_fo Normal_proc (real_key p) (marks st))\<rparr>))"

definition GC_enqueue_all_finalizers ::
  "(finalization_mark_proc \<Rightarrow> addr \<Rightarrow> addr set \<Rightarrow> addr set) \<Rightarrow> fin_state \<Rightarrow> fin_state" where
  "GC_enqueue_all_finalizers mark_fo st = sweep_fo (enqueue_always mark_fo) (st\<lparr>GC_bytes_finalized := 0\<rparr>)"

partial_function (option) GC_finalize_all ::
  "(finalization_mark_proc \<Rightarrow> addr \<Rightarrow> addr set \<Rightarrow> addr set) \<Rightarrow> (addr \<Rightarrow> addr \<Rightarrow> addr \<Rightarrow> fin_state \<Rightarrow> fin_state) \<Rightarrow>
     fin_state \<Rightarrow> fin_state option" where
  "GC_finalize_all mark_fo invoke st =
     (if GC_fo_entries st > 0 then
        case GC_invoke_finalizers invoke (GC_enqueue_all_finalizers mark_fo st) of
          None \<Rightarrow> None
        | Some (_, st) \<Rightarrow> GC_finalize_all mark_fo invoke st
      else Some st)"

text \<open>The outer sum is the shift in \<open>GC_check_finalizer_nested\<close>, the option the loop over the queue.\<close>

definition GC_notify_or_invoke_finalizers ::
  "(addr \<Rightarrow> addr \<Rightarrow> addr \<Rightarrow> fin_state \<Rightarrow> fin_state) \<Rightarrow> (addr \<Rightarrow> fin_state \<Rightarrow> fin_state) \<Rightarrow> fin_state \<Rightarrow> fin_state option res" where
  "GC_notify_or_invoke_finalizers invoke notify st =
     (if GC_finalize_now st = [] then Inr (Some st)
      else if \<not> GC_finalize_on_demand st then
        rbind (GC_check_finalizer_nested st) (\<lambda>(entered, st).
          if entered then
            Inr (map_option (\<lambda>(_, st). st\<lparr>GC_finalizer_nested := 0\<rparr>) (GC_invoke_finalizers invoke st))
          else Inr (Some st))
      else if last_finalizer_notification st \<noteq> GC_gc_no st then
        let st = st\<lparr>last_finalizer_notification := GC_gc_no st\<rparr>
        in Inr (Some (if GC_finalizer_notifier st \<noteq> 0 then notify (GC_finalizer_notifier st) st else st))
      else Inr (Some st))"

end
