(* ===== verification/GC_Finalize_Tables.thy ===== *)
theory GC_Finalize_Tables
  imports GC_Finalize "HOL-Library.Multiset"
begin

unbundle bit_operations_syntax

text \<open>
  The hash tables of links and of finalizers as maps: looking an entry up, changing it, taking it
  out, adding one, and growing the table.
\<close>

section \<open>Hash tables\<close>

lemma real_key_hide [simp]: "GC_REVEAL_POINTER (GC_HIDE_POINTER p) = p" "GC_HIDE_POINTER (GC_REVEAL_POINTER p) = p"
  by (simp_all add: GC_REVEAL_POINTER_def GC_HIDE_POINTER_def)

lemma hidden_key_eq: "hidden_key p = GC_HIDE_POINTER k \<longleftrightarrow> real_key p = k"
  by (metis real_key_def real_key_hide)

lemma HASH3_less: "k < 64 \<Longrightarrow> HASH3 p (2 ^ k) k < 2 ^ k"
proof -
  have "x AND (2 ^ k - 1) = take_bit k x" for x :: "64 word"
    by (simp add: take_bit_eq_mask mask_eq_exp_minus_1)
  then show ?thesis unfolding HASH3_def by (simp only: unsigned_take_bit_eq take_bit_nat_less_exp)
qed

definition table_ok :: "'a hash_chain_entry_scheme list list \<Rightarrow> int \<Rightarrow> addr \<Rightarrow> bool" where
  "table_ok table log_size n \<longleftrightarrow>
     (if log_size = - 1 then table = []
      else 0 \<le> log_size \<and> log_size \<le> 30 \<and> length table = 2 ^ nat log_size \<and>
        (\<forall>i < length table. \<forall>p \<in> set (table ! i). HASH3 (real_key p) (2 ^ nat log_size) (nat log_size) = i)) \<and>
     distinct (map real_key (concat table)) \<and> n = of_nat (length (concat table))"

definition table_map :: "('a hash_chain_entry_scheme \<Rightarrow> 'v) \<Rightarrow> 'a hash_chain_entry_scheme list list \<Rightarrow> addr \<rightharpoonup> 'v" where
  "table_map val table = map_of (map (\<lambda>p. (real_key p, val p)) (concat table))"

lemma map_of_mset:
  assumes "distinct (map fst xs)" "mset xs = mset ys"
  shows "map_of xs = map_of ys"
proof -
  have "distinct (map fst ys)" using assms by (metis mset_eq_imp_distinct_iff mset_map)
  then show ?thesis using assms by (metis map_of_inject_set mset_eq_setD)
qed

lemma mset_concat_update:
  "i < length cs \<Longrightarrow> mset (concat (cs[i := c])) + mset (cs ! i) = mset (concat cs) + mset c"
proof (induction cs arbitrary: i)
  case (Cons d cs) then show ?case by (cases i) (auto simp: ac_simps)
qed simp

lemma set_nth_concat: "i < length cs \<Longrightarrow> set (cs ! i) \<subseteq> set (concat cs)"
  by (auto intro: nth_mem)

lemma chain_update_Some:
  "chain_update k f ps = Some (q, qs) \<Longrightarrow> hidden_key q = k \<and> (\<exists>rest. mset ps = add_mset q rest \<and> mset qs = add_mset (f q) rest)"
proof (induction k f ps arbitrary: q qs rule: chain_update.induct)
  case (2 k f p ps)
  then show ?case
  proof (cases "hidden_key p = k")
    case False
    with 2(2) obtain rs where rs: "chain_update k f ps = Some (q, rs)" "qs = p # rs" by (auto split: option.splits)
    from 2(1) [OF False rs(1)] obtain rest where "hidden_key q = k" "mset ps = add_mset q rest" "mset rs = add_mset (f q) rest" by blast
    then show ?thesis using rs(2) by (auto intro!: exI [of _ "add_mset p rest"])
  qed auto
qed simp

lemma chain_update_None: "chain_update k f ps = None \<longleftrightarrow> (\<forall>p \<in> set ps. hidden_key p \<noteq> k)"
  by (induction k f ps rule: chain_update.induct) (auto split: option.splits)

lemma chain_remove_Some:
  "chain_remove k ps = Some (q, qs) \<Longrightarrow> hidden_key q = k \<and> mset ps = add_mset q (mset qs)"
  by (induction k ps arbitrary: q qs rule: chain_remove.induct) (auto split: if_splits option.splits)

lemma chain_remove_None: "chain_remove k ps = None \<longleftrightarrow> (\<forall>p \<in> set ps. hidden_key p \<noteq> k)"
  by (induction k ps rule: chain_remove.induct) (auto split: option.splits)

lemma table_okD:
  assumes "table_ok table log_size n" "log_size \<noteq> - 1"
  shows "0 \<le> log_size" "log_size \<le> 30" "length table = 2 ^ nat log_size" "HASH2 k log_size = Inr (HASH3 k (2 ^ nat log_size) (nat log_size))"
    "HASH3 k (2 ^ nat log_size) (nat log_size) < length table"
    "distinct (map real_key (concat table))" "n = of_nat (length (concat table))"
    "p \<in> set (concat table) \<Longrightarrow> p \<in> set (table ! HASH3 (real_key p) (2 ^ nat log_size) (nat log_size))"
proof -
  show s: "0 \<le> log_size" "log_size \<le> 30" "length table = 2 ^ nat log_size"
    "distinct (map real_key (concat table))" "n = of_nat (length (concat table))"
    using assms by (auto simp: table_ok_def)
  show "HASH2 k log_size = Inr (HASH3 k (2 ^ nat log_size) (nat log_size))" using s by (simp add: HASH2_def)
  show "HASH3 k (2 ^ nat log_size) (nat log_size) < length table" unfolding s(3) using s(2) by (intro HASH3_less) simp
  show "p \<in> set (table ! HASH3 (real_key p) (2 ^ nat log_size) (nat log_size))" if p: "p \<in> set (concat table)"
  proof -
    obtain c where "c \<in> set table" "p \<in> set c" using p by auto
    then obtain i where "i < length table" "p \<in> set (table ! i)" by (metis in_set_conv_nth)
    then show ?thesis using assms by (auto simp: table_ok_def)
  qed
qed

lemma table_map_None: "table_map val table k = None \<longleftrightarrow> (\<forall>p \<in> set (concat table). real_key p \<noteq> k)"
  by (simp add: table_map_def map_of_eq_None_iff image_image del: set_concat) blast

text \<open>An entry is in the table exactly when it is in the chain of its hash.\<close>

lemma no_entry_in_chain:
  assumes "table_ok table log_size n" "log_size \<noteq> - 1" "i = HASH3 k (2 ^ nat log_size) (nat log_size)"
  shows "(\<forall>p \<in> set (table ! i). hidden_key p \<noteq> GC_HIDE_POINTER k) \<longleftrightarrow> table_map val table k = None"
proof -
  have "(\<forall>p \<in> set (table ! i). real_key p \<noteq> k) \<longleftrightarrow> (\<forall>p \<in> set (concat table). real_key p \<noteq> k)"
    using table_okD(8) [OF assms(1,2)] set_nth_concat [of i table] table_okD(5) [OF assms(1,2), of k] assms(3) by blast
  then show ?thesis by (simp only: hidden_key_eq table_map_None)
qed

text \<open>A chain that is replaced by one with the same or other entries.\<close>

lemma table_replace_ok:
  assumes ok: "table_ok table log_size n" "log_size \<noteq> - 1" and i: "i < length table"
    and h: "\<And>p. p \<in> set c \<Longrightarrow> HASH3 (real_key p) (2 ^ nat log_size) (nat log_size) = i"
    and d: "distinct (map real_key (concat (table[i := c])))"
  shows "table_ok (table[i := c]) log_size (of_nat (length (concat (table[i := c]))))"
  using ok i h d unfolding table_ok_def by (auto simp: nth_list_update)

lemma table_map_mset:
  assumes "distinct (map real_key (concat table))" "mset (concat table) = add_mset p M"
  shows "\<exists>ps. mset ps = M \<and> table_map val table = (map_of (map (\<lambda>p. (real_key p, val p)) ps))(real_key p \<mapsto> val p) \<and>
    real_key p \<notin> real_key ` set ps"
proof -
  obtain ps where ps: "mset ps = M" using ex_mset by blast
  then have m: "mset (concat table) = mset (p # ps)" using assms(2) by simp
  let ?f = "\<lambda>p. (real_key p, val p)"
  have "distinct (map fst (map ?f (concat table)))" using assms(1) by (simp add: comp_def)
  moreover have "mset (map ?f (concat table)) = mset (map ?f (p # ps))" using m by (simp only: mset_map)
  ultimately have "map_of (map ?f (concat table)) = map_of (map ?f (p # ps))" by (rule map_of_mset)
  moreover have "distinct (map real_key (p # ps))"
    using assms(1) m by (metis mset_eq_imp_distinct_iff mset_map)
  ultimately show ?thesis using ps by (auto simp: table_map_def)
qed

lemma table_update_ok:
  assumes ok: "table_ok table log_size n" "log_size \<noteq> - 1" and i: "i = HASH3 k (2 ^ nat log_size) (nat log_size)"
    and u: "chain_update (GC_HIDE_POINTER k) f (table ! i) = Some (q, c)" and f: "\<And>p. hidden_key (f p) = hidden_key p"
  shows "table_ok (table[i := c]) log_size n" "table_map val (table[i := c]) = (table_map val table)(k \<mapsto> val (f q))"
    "table_map val table k = Some (val q)"
proof -
  note t = table_okD [OF ok]
  obtain rest where r: "real_key q = k" "mset (table ! i) = add_mset q rest" "mset c = add_mset (f q) rest"
    using chain_update_Some [OF u] by (auto simp: hidden_key_eq)
  have i': "i < length table" using i t(5) by simp
  have rk: "real_key (f p) = real_key p" for p by (simp add: real_key_def f)
  have q: "q \<in> set (table ! i)" using r(2) by (metis union_single_eq_member set_mset_mset)
  then have "q \<in> set (concat table)" using set_nth_concat [OF i'] by blast
  then obtain M where M: "mset (concat table) = add_mset q M" by (metis multi_member_split set_mset_mset)
  have M': "mset (concat (table[i := c])) = add_mset (f q) M"
    using mset_concat_update [OF i', of c] r(2,3) M by simp
  have d: "distinct (map real_key (concat (table[i := c])))"
  proof -
    have "mset (map real_key (concat (table[i := c]))) = mset (map real_key (concat table))"
      unfolding mset_map M M' by (simp add: rk)
    then show ?thesis using t(6) mset_eq_imp_distinct_iff by blast
  qed
  have "HASH3 (real_key p) (2 ^ nat log_size) (nat log_size) = i" if "p \<in> set c" for p
  proof -
    have "p = f q \<or> p \<in># rest" using that r(3) by (metis insert_iff set_mset_add_mset_insert set_mset_mset)
    then have "p = f q \<or> p \<in> set (table ! i)" using r(2) by (metis insert_iff set_mset_add_mset_insert set_mset_mset)
    then show ?thesis using r(1) i rk ok i' by (auto simp: table_ok_def)
  qed
  from table_replace_ok [OF ok i' this d] have "table_ok (table[i := c]) log_size (of_nat (length (concat (table[i := c]))))" .
  moreover have "length (concat (table[i := c])) = length (concat table)"
    using arg_cong [OF M, of size] arg_cong [OF M', of size] by simp
  ultimately show "table_ok (table[i := c]) log_size n" using t(7) by simp
  obtain ps where ps: "mset ps = M" "table_map val table = (map_of (map (\<lambda>p. (real_key p, val p)) ps))(k \<mapsto> val q)"
    using table_map_mset [OF t(6) M, of val] r(1) by auto
  obtain ps' where ps': "mset ps' = M" "table_map val (table[i := c]) = (map_of (map (\<lambda>p. (real_key p, val p)) ps'))(k \<mapsto> val (f q))"
    using table_map_mset [OF d M', of val] r(1) rk by auto
  have "map_of (map (\<lambda>p. (real_key p, val p)) ps) = map_of (map (\<lambda>p. (real_key p, val p)) ps')"
  proof (rule map_of_mset)
    have "distinct (map real_key ps)" using t(6) M ps(1)
      by (metis mset.simps(2) mset_eq_imp_distinct_iff mset_map list.simps(9) distinct.simps(2))
    then show "distinct (map fst (map (\<lambda>p. (real_key p, val p)) ps))" by (simp add: comp_def)
  qed (simp only: mset_map ps(1) ps'(1))
  then show "table_map val (table[i := c]) = (table_map val table)(k \<mapsto> val (f q))" using ps(2) ps'(2) by simp
  show "table_map val table k = Some (val q)" using ps(2) by simp
qed

lemma table_remove_ok:
  assumes ok: "table_ok table log_size n" "log_size \<noteq> - 1" and i: "i = HASH3 k (2 ^ nat log_size) (nat log_size)"
    and u: "chain_remove (GC_HIDE_POINTER k) (table ! i) = Some (q, c)"
  shows "table_ok (table[i := c]) log_size (n - 1)" "table_map val (table[i := c]) = (table_map val table)(k := None)"
    "table_map val table k = Some (val q)"
proof -
  note t = table_okD [OF ok]
  have r: "real_key q = k" "mset (table ! i) = add_mset q (mset c)"
    using chain_remove_Some [OF u] by (auto simp: hidden_key_eq)
  have i': "i < length table" using i t(5) by simp
  have M: "mset (concat table) = add_mset q (mset (concat (table[i := c])))"
    using mset_concat_update [OF i', of c] r(2) by simp
  have d: "distinct (map real_key (concat (table[i := c])))"
    using t(6) mset_eq_imp_distinct_iff [of "map real_key (concat table)" "map real_key (q # concat (table[i := c]))"] M
    unfolding mset_map by simp
  have "HASH3 (real_key p) (2 ^ nat log_size) (nat log_size) = i" if "p \<in> set c" for p
  proof -
    have "p \<in># mset (table ! i)" unfolding r(2) using that by simp
    then show ?thesis using ok i' by (simp add: table_ok_def split: if_splits)
  qed
  from table_replace_ok [OF ok i' this d] have "table_ok (table[i := c]) log_size (of_nat (length (concat (table[i := c]))))" .
  moreover have "n - 1 = of_nat (length (concat (table[i := c])))"
    using arg_cong [OF M, of size] t(7) by simp
  ultimately show "table_ok (table[i := c]) log_size (n - 1)" by simp
  obtain ps where ps: "mset ps = mset (concat (table[i := c]))" "real_key q \<notin> real_key ` set ps"
      "table_map val table = (map_of (map (\<lambda>p. (real_key p, val p)) ps))(k \<mapsto> val q)"
    using table_map_mset [OF t(6) M, of val] r(1) by auto
  have "map_of (map (\<lambda>p. (real_key p, val p)) (concat (table[i := c]))) = map_of (map (\<lambda>p. (real_key p, val p)) ps)"
    using d ps(1) by (intro map_of_mset) (simp_all add: comp_def)
  moreover have "map_of (map (\<lambda>p. (real_key p, val p)) ps) k = None"
    using ps(2) r(1) by (simp add: map_of_eq_None_iff image_image)
  ultimately show "table_map val (table[i := c]) = (table_map val table)(k := None)"
    using ps(3) by (auto simp: table_map_def fun_eq_iff)
  show "table_map val table k = Some (val q)" using ps(3) by simp
qed

lemma table_insert_ok:
  assumes ok: "table_ok table log_size n" "log_size \<noteq> - 1" and i: "i = HASH3 (real_key p) (2 ^ nat log_size) (nat log_size)"
    and new: "table_map val table (real_key p) = None"
  shows "table_ok (table[i := p # table ! i]) log_size (n + 1)"
    "table_map val (table[i := p # table ! i]) = (table_map val table)(real_key p \<mapsto> val p)"
proof -
  note t = table_okD [OF ok]
  have i': "i < length table" using i t(5) by simp
  have M: "mset (concat (table[i := p # table ! i])) = add_mset p (mset (concat table))"
    using mset_concat_update [OF i', of "p # table ! i"] by simp
  have "\<forall>q \<in> set (concat table). real_key q \<noteq> real_key p" using new by (simp only: table_map_None)
  then have d: "distinct (map real_key (concat (table[i := p # table ! i])))"
    using t(6) mset_eq_imp_distinct_iff [of "map real_key (concat (table[i := p # table ! i]))" "map real_key (p # concat table)"] M
    unfolding mset_map by auto
  have "HASH3 (real_key q) (2 ^ nat log_size) (nat log_size) = i" if "q \<in> set (p # table ! i)" for q
    using that i ok i' by (auto simp: table_ok_def split: if_splits)
  from table_replace_ok [OF ok i' this d]
  have "table_ok (table[i := p # table ! i]) log_size (of_nat (length (concat (table[i := p # table ! i]))))" .
  moreover have "n + 1 = of_nat (length (concat (table[i := p # table ! i])))"
    using arg_cong [OF M, of size] t(7) by simp
  ultimately show "table_ok (table[i := p # table ! i]) log_size (n + 1)" by simp
  have "map_of (map (\<lambda>p. (real_key p, val p)) (concat (table[i := p # table ! i]))) =
      map_of (map (\<lambda>p. (real_key p, val p)) (p # concat table))"
    using d M by (intro map_of_mset) (simp_all add: comp_def)
  then show "table_map val (table[i := p # table ! i]) = (table_map val table)(real_key p \<mapsto> val p)"
    by (simp add: table_map_def)
qed

section \<open>Growing a table\<close>

lemma rehash_ok:
  assumes "length t = 2 ^ k" "k < 64"
    and "\<forall>i < length t. \<forall>p \<in> set (t ! i). HASH3 (real_key p) (2 ^ k) k = i"
  shows "length (fold (rehash k) ps t) = 2 ^ k \<and> mset (concat (fold (rehash k) ps t)) = mset ps + mset (concat t) \<and>
    (\<forall>i < 2 ^ k. \<forall>p \<in> set (fold (rehash k) ps t ! i). HASH3 (real_key p) (2 ^ k) k = i)"
  using assms
proof (induction ps arbitrary: t)
  case (Cons p ps)
  let ?h = "HASH3 (real_key p) (2 ^ k) k"
  have h: "?h < length t" using Cons.prems(1,2) by (simp add: HASH3_less)
  have r: "rehash k p t = t[?h := p # t ! ?h]" by (simp add: rehash_def real_key_def Let_def)
  have M: "mset (concat (rehash k p t)) = add_mset p (mset (concat t))"
    using mset_concat_update [OF h, of "p # t ! ?h"] by (simp add: r)
  have H: "\<forall>i < length (rehash k p t). \<forall>q \<in> set (rehash k p t ! i). HASH3 (real_key q) (2 ^ k) k = i"
  proof (intro allI ballI impI)
    fix i q assume "i < length (rehash k p t)" "q \<in> set (rehash k p t ! i)"
    then have "i < length t" "i = ?h \<and> q = p \<or> q \<in> set (t ! i)"
      unfolding r using h by (cases "i = ?h"; simp)+
    then show "HASH3 (real_key q) (2 ^ k) k = i" using Cons.prems(3) by blast
  qed
  have "length (rehash k p t) = 2 ^ k" using Cons.prems(1) by (simp add: r)
  note IH = Cons.IH [OF this Cons.prems(2) H]
  have f: "fold (rehash k) (p # ps) t = fold (rehash k) ps (rehash k p t)" by simp
  have m: "mset ps + mset (concat (rehash k p t)) = mset (p # ps) + mset (concat t)" unfolding M by simp
  from IH show ?case unfolding f m .
qed simp

lemma grow_table_ok:
  assumes ok: "table_ok table log_size n" and l: "log_size < 30"
  shows "case GC_grow_table new_addr table log_size of
      Inr (table', log_size') \<Rightarrow> table_ok table' log_size' n \<and> table_map val table' = table_map val table \<and> log_size' \<noteq> - 1
    | Inl e \<Rightarrow> new_addr = 0 \<and> log_size = - 1"
proof -
  have s: "log_size = - 1 \<and> table = [] \<or> 0 \<le> log_size \<and> length table = 2 ^ nat log_size"
    "distinct (map real_key (concat table))" "n = of_nat (length (concat table))"
    using ok by (auto simp: table_ok_def split: if_splits)
  then have old: "take (if log_size = - 1 then 0 else 2 ^ nat log_size) table = table" by auto
  let ?k = "nat (log_size + 1)"
  let ?t = "fold (rehash ?k) (concat table) (replicate (2 ^ ?k) [])"
  have e: "concat (replicate m []) = []" for m by (induction m) simp_all
  have t: "length ?t = 2 ^ ?k" "mset (concat ?t) = mset (concat table)"
      "\<forall>i < 2 ^ ?k. \<forall>p \<in> set (?t ! i). HASH3 (real_key p) (2 ^ ?k) ?k = i"
    using rehash_ok [of "replicate (2 ^ ?k) []" ?k "concat table"] l by (simp_all add: e)
  have "distinct (map real_key (concat ?t))" using s(2) t(2) by (metis mset_eq_imp_distinct_iff mset_map)
  moreover have "length (concat ?t) = length (concat table)" using t(2) by (metis size_mset)
  ultimately have "table_ok ?t (log_size + 1) n" using t(1,3) s l by (auto simp: table_ok_def)
  moreover have "table_map val ?t = table_map val table"
    using s(2) t(2) unfolding table_map_def by (intro map_of_mset [symmetric]) (simp_all add: comp_def)
  moreover have "GC_grow_table new_addr table log_size = Inr (?t, log_size + 1)" if "new_addr \<noteq> 0"
    using that l unfolding GC_grow_table_def Let_def old by simp
  moreover have "log_size + 1 \<noteq> - 1" using s(1) by auto
  moreover have "table = [] \<longleftrightarrow> log_size = - 1" using s(1) by auto
  moreover have "GC_grow_table 0 table log_size = (if table = [] then Inl (Abort ''Insufficient space for initial table allocation'') else Inr (table, log_size))"
    using l unfolding GC_grow_table_def Let_def by simp
  ultimately show ?thesis using ok by (cases "new_addr = 0"; cases "table = []") simp_all
qed

end
