(* ===== verification/GC_Registration.thy ===== *)
theory GC_Registration
  imports GC_Finalize_Tables
begin

unbundle bit_operations_syntax

text \<open>
  Registering and unregistering disappearing links and finalizers, over the maps that the tables
  stand for.
\<close>

section \<open>Links\<close>

definition dl_ok :: "fin_state \<Rightarrow> bool" where
  "dl_ok st \<longleftrightarrow> table_ok (dl_head st) (log_dl_table_size st) (GC_dl_entries st)"

definition dl_map :: "fin_state \<Rightarrow> addr \<rightharpoonup> addr" where
  "dl_map st = table_map (\<lambda>p. GC_REVEAL_POINTER (dl_hidden_obj p)) (dl_head st)"

definition memory_left :: "fin_state \<Rightarrow> bool" where
  "memory_left st \<longleftrightarrow> fst (GC_INTERNAL_MALLOC st) \<noteq> 0"

lemma malloc_same [simp]:
  assumes "GC_INTERNAL_MALLOC st = (p, st')"
  shows "dl_ok st' = dl_ok st" "dl_map st' = dl_map st" "log_dl_table_size st' = log_dl_table_size st"
    "dl_head st' = dl_head st" "GC_dl_entries st' = GC_dl_entries st"
    "fo_head st' = fo_head st" "GC_fo_entries st' = GC_fo_entries st" "log_fo_table_size st' = log_fo_table_size st"
  using assms by (auto simp: GC_INTERNAL_MALLOC_def dl_ok_def dl_map_def split: list.splits)

lemma grow_dl_ok:
  assumes "dl_ok st" "log_dl_table_size st < 30"
  shows "case grow_dl st of
      Inr st' \<Rightarrow> dl_ok st' \<and> dl_map st' = dl_map st \<and> log_dl_table_size st' \<noteq> - 1
    | Inl e \<Rightarrow> log_dl_table_size st = - 1 \<and> \<not> memory_left st"
proof (cases "log_dl_table_size st = - 1 \<or> GC_dl_entries st > push_bit (nat (log_dl_table_size st)) 1")
  case True
  obtain p st1 where m: "GC_INTERNAL_MALLOC st = (p, st1)" by fastforce
  have "table_ok (dl_head st1) (log_dl_table_size st1) (GC_dl_entries st)" "log_dl_table_size st1 < 30"
    using assms m by (simp_all add: dl_ok_def)
  from grow_table_ok [OF this, where new_addr = p and val = "\<lambda>p. GC_REVEAL_POINTER (dl_hidden_obj p)"] m assms(1)
  show ?thesis unfolding grow_dl_def if_P [OF True]
    by (auto simp: memory_left_def dl_ok_def dl_map_def split: sum.splits)
next
  case False
  then show ?thesis using assms by (simp add: grow_dl_def)
qed

lemma dl_replace_ok:
  assumes "dl_ok st" "log_dl_table_size st \<noteq> - 1"
  shows "\<exists>st'. dl_replace link obj st = Inr (dl_map st link \<noteq> None, st') \<and> dl_ok st' \<and>
    log_dl_table_size st' = log_dl_table_size st \<and> (dl_map st link = None \<longrightarrow> st' = st) \<and>
    (dl_map st link \<noteq> None \<longrightarrow> dl_map st' = (dl_map st)(link \<mapsto> obj))"
proof -
  have ok: "table_ok (dl_head st) (log_dl_table_size st) (GC_dl_entries st)" using assms(1) by (simp add: dl_ok_def)
  let ?k = "nat (log_dl_table_size st)"
  let ?i = "HASH3 link (2 ^ ?k) ?k" and ?f = "\<lambda>p :: disappearing_link. p\<lparr>dl_hidden_obj := GC_HIDE_POINTER obj\<rparr>"
  note t = table_okD [OF ok assms(2)]
  note none = no_entry_in_chain [OF ok assms(2) refl, of link "\<lambda>p. GC_REVEAL_POINTER (dl_hidden_obj p)", folded dl_map_def]
  show ?thesis
  proof (cases "chain_update (GC_HIDE_POINTER link) ?f (dl_head st ! ?i)")
    case None
    then have "dl_map st link = None" using none by (simp only: chain_update_None)
    then show ?thesis using None t(4) [of link] t(5) [of link] assms(1) by (simp add: dl_replace_def)
  next
    case (Some qc)
    obtain q c where qc: "qc = (q, c)" by fastforce
    note u = table_update_ok(1) [OF ok assms(2) refl Some [unfolded qc]]
      table_update_ok(2,3) [OF ok assms(2) refl Some [unfolded qc], where val = "\<lambda>p. GC_REVEAL_POINTER (dl_hidden_obj p)"]
    have "dl_map st link \<noteq> None" using u(3) by (simp add: dl_map_def)
    then show ?thesis using Some qc t(4) [of link] t(5) [of link] u
      by (auto simp: dl_replace_def dl_ok_def dl_map_def)
  qed
qed

lemma dl_insert_ok:
  assumes "dl_ok st" "log_dl_table_size st \<noteq> - 1" "dl_map st link = None"
  shows "\<exists>st'. dl_insert new_dl link obj st = Inr st' \<and> dl_ok st' \<and> dl_map st' = (dl_map st)(link \<mapsto> obj)"
proof -
  have ok: "table_ok (dl_head st) (log_dl_table_size st) (GC_dl_entries st)" using assms(1) by (simp add: dl_ok_def)
  let ?p = "\<lparr>entry_at = new_dl, hidden_key = GC_HIDE_POINTER link, dl_hidden_obj = GC_HIDE_POINTER obj\<rparr>"
  have rk: "real_key ?p = link" by (simp add: real_key_def)
  note t = table_okD [OF ok assms(2)]
  from table_insert_ok [OF ok assms(2) refl, of "\<lambda>p. GC_REVEAL_POINTER (dl_hidden_obj p)" ?p] assms(3) t(4) [of link] t(5) [of link] rk
  show ?thesis by (simp add: dl_insert_def dl_ok_def dl_map_def)
qed

text \<open>The function that the client installs for the case that memory runs out leaves the table alone.\<close>

definition leaves_links :: "(fin_state \<Rightarrow> addr \<times> fin_state) \<Rightarrow> bool" where
  "leaves_links oom_fn \<longleftrightarrow> (\<forall>st p st'. oom_fn st = (p, st') \<longrightarrow>
     dl_head st' = dl_head st \<and> log_dl_table_size st' = log_dl_table_size st \<and> GC_dl_entries st' = GC_dl_entries st)"

lemma register_link_ok:
  assumes ok: "dl_ok st" "log_dl_table_size st < 30" and oom: "leaves_links oom_fn"
    and link: "link AND (ALIGNMENT - 1) = 0" "link \<noteq> 0"
  shows "case GC_general_register_disappearing_link oom_fn link obj st of
      Inr (r, st') \<Rightarrow> dl_ok st' \<and>
        (r = GC_SUCCESS \<and> dl_map st link = None \<and> dl_map st' = (dl_map st)(link \<mapsto> obj) \<or>
         r = GC_DUPLICATE \<and> dl_map st link \<noteq> None \<and> dl_map st' = (dl_map st)(link \<mapsto> obj) \<or>
         r = GC_NO_MEMORY \<and> dl_map st link = None \<and> dl_map st' = dl_map st)
    | Inl e \<Rightarrow> log_dl_table_size st = - 1 \<and> \<not> memory_left st"
proof (cases "grow_dl st")
  case (Inl e)
  then show ?thesis using grow_dl_ok [OF ok] link by (simp add: GC_general_register_disappearing_link_def)
next
  case (Inr st1)
  then have st1: "dl_ok st1" "dl_map st1 = dl_map st" "log_dl_table_size st1 \<noteq> - 1" using grow_dl_ok [OF ok] by simp_all
  obtain st2 where st2: "dl_replace link obj st1 = Inr (dl_map st link \<noteq> None, st2)" "dl_ok st2"
      "log_dl_table_size st2 = log_dl_table_size st1" "dl_map st link = None \<longrightarrow> st2 = st1"
      "dl_map st link \<noteq> None \<longrightarrow> dl_map st2 = (dl_map st)(link \<mapsto> obj)"
    using dl_replace_ok [OF st1(1,3), of link obj] st1(2) by auto
  show ?thesis
  proof (cases "dl_map st link = None")
    case False
    then show ?thesis using Inr st2 link by (simp add: GC_general_register_disappearing_link_def)
  next
    case True
    then have e: "st2 = st1" using st2(4) by simp
    obtain p st3 where m: "GC_INTERNAL_MALLOC st1 = (p, st3)" by fastforce
    obtain q st4 where q: "oom_fn st3 = (q, st4)" by fastforce
    have st3: "dl_ok st3" "dl_map st3 = dl_map st" "log_dl_table_size st3 \<noteq> - 1" using m st1 by simp_all
    have st4: "dl_ok st4" "dl_map st4 = dl_map st" "log_dl_table_size st4 \<noteq> - 1"
      using oom q st3 by (auto simp: leaves_links_def dl_ok_def dl_map_def)
    obtain a where a: "dl_insert p link obj st3 = Inr a" "dl_ok a" "dl_map a = (dl_map st)(link \<mapsto> obj)"
      using dl_insert_ok [OF st3(1,3), of link p obj] st3(2) True by auto
    obtain b where b: "dl_insert q link obj st4 = Inr b" "dl_ok b" "dl_map b = (dl_map st)(link \<mapsto> obj)"
      using dl_insert_ok [OF st4(1,3), of link q obj] st4(2) True by auto
    have r4: "dl_replace link obj st4 = Inr (False, st4)"
      using dl_replace_ok [OF st4(1,3), of link obj] st4(2) True by auto
    show ?thesis using Inr st2(1) e True m q a b r4 link st4
      by (auto simp: GC_general_register_disappearing_link_def)
  qed
qed

lemma unregister_link_ok:
  assumes "dl_ok st" "log_dl_table_size st \<noteq> - 1"
  shows "\<exists>st'. GC_unregister_disappearing_link link st = Inr (link AND (ALIGNMENT - 1) = 0 \<and> dl_map st link \<noteq> None, st') \<and>
    dl_ok st' \<and> dl_map st' = (if link AND (ALIGNMENT - 1) = 0 then (dl_map st)(link := None) else dl_map st)"
proof -
  have ok: "table_ok (dl_head st) (log_dl_table_size st) (GC_dl_entries st)" using assms(1) by (simp add: dl_ok_def)
  let ?k = "nat (log_dl_table_size st)"
  let ?i = "HASH3 link (2 ^ ?k) ?k"
  note t = table_okD [OF ok assms(2)]
  note none = no_entry_in_chain [OF ok assms(2) refl, of link "\<lambda>p. GC_REVEAL_POINTER (dl_hidden_obj p)", folded dl_map_def]
  show ?thesis
  proof (cases "chain_remove (GC_HIDE_POINTER link) (dl_head st ! ?i)")
    case None
    then have "dl_map st link = None" using none by (simp only: chain_remove_None)
    moreover then have "(dl_map st)(link := None) = dl_map st" by auto
    ultimately show ?thesis using None t(4) [of link] t(5) [of link] assms(1)
      by (simp add: GC_unregister_disappearing_link_def)
  next
    case (Some qc)
    obtain q c where qc: "qc = (q, c)" by fastforce
    note u = table_remove_ok(1) [OF ok assms(2) refl Some [unfolded qc]]
      table_remove_ok(2,3) [OF ok assms(2) refl Some [unfolded qc], where val = "\<lambda>p. GC_REVEAL_POINTER (dl_hidden_obj p)"]
    have "dl_map st link \<noteq> None" using u(3) by (simp add: dl_map_def)
    then show ?thesis using Some qc t(4) [of link] t(5) [of link] u assms(1)
      by (auto simp: GC_unregister_disappearing_link_def GC_free_def dl_ok_def dl_map_def)
  qed
qed

section \<open>Finalizers\<close>

definition fo_ok :: "fin_state \<Rightarrow> bool" where
  "fo_ok st \<longleftrightarrow> table_ok (fo_head st) (log_fo_table_size st) (GC_fo_entries st)"

definition fo_val :: "finalizable_object \<Rightarrow> addr \<times> addr \<times> finalization_mark_proc" where
  "fo_val p = (fo_fn p, fo_client_data p, fo_mark_proc p)"

definition fo_map :: "fin_state \<Rightarrow> addr \<rightharpoonup> addr \<times> addr \<times> finalization_mark_proc" where
  "fo_map st = table_map fo_val (fo_head st)"

text \<open>The old function and its data, null when there are none.\<close>

definition old_finalizer :: "(addr \<times> addr \<times> finalization_mark_proc) option \<Rightarrow> addr \<times> addr" where
  "old_finalizer v = (case v of None \<Rightarrow> (0, 0) | Some (fn, cd, mp) \<Rightarrow> (fn, cd))"

lemma grow_fo_ok:
  assumes "fo_ok st" "log_fo_table_size st < 30"
  shows "case grow_fo st of
      Inr st' \<Rightarrow> fo_ok st' \<and> fo_map st' = fo_map st \<and> log_fo_table_size st' \<noteq> - 1
    | Inl e \<Rightarrow> log_fo_table_size st = - 1 \<and> \<not> memory_left st"
proof (cases "log_fo_table_size st = - 1 \<or> GC_fo_entries st > push_bit (nat (log_fo_table_size st)) 1")
  case True
  obtain p st1 where m: "GC_INTERNAL_MALLOC st = (p, st1)" by fastforce
  have "table_ok (fo_head st1) (log_fo_table_size st1) (GC_fo_entries st)" "log_fo_table_size st1 < 30"
    using assms m by (simp_all add: fo_ok_def)
  from grow_table_ok [OF this, where new_addr = p and val = fo_val] m assms(1)
  show ?thesis unfolding grow_fo_def if_P [OF True]
    by (auto simp: memory_left_def fo_ok_def fo_map_def split: sum.splits)
next
  case False
  then show ?thesis using assms by (simp add: grow_fo_def)
qed

lemma fo_replace_ok:
  assumes "fo_ok st" "log_fo_table_size st \<noteq> - 1"
  shows "\<exists>st'. fo_replace base fn cd mp st = Inr (map_option (\<lambda>(fn, cd, mp). (fn, cd)) (fo_map st base), st') \<and> fo_ok st' \<and>
    log_fo_table_size st' = log_fo_table_size st \<and> (fo_map st base = None \<longrightarrow> st' = st) \<and>
    (fo_map st base \<noteq> None \<longrightarrow> fo_map st' = (fo_map st)(base := if fn = 0 then None else Some (fn, cd, mp)))"
proof -
  have ok: "table_ok (fo_head st) (log_fo_table_size st) (GC_fo_entries st)" using assms(1) by (simp add: fo_ok_def)
  let ?k = "nat (log_fo_table_size st)"
  let ?i = "HASH3 base (2 ^ ?k) ?k" and ?f = "\<lambda>p :: finalizable_object. p\<lparr>fo_fn := fn, fo_client_data := cd, fo_mark_proc := mp\<rparr>"
  note t = table_okD [OF ok assms(2)]
  note none = no_entry_in_chain [OF ok assms(2) refl, of base fo_val, folded fo_map_def]
  show ?thesis
  proof (cases "fo_map st base = None")
    case True
    then have "chain_update (GC_HIDE_POINTER base) ?f (fo_head st ! ?i) = None" "chain_remove (GC_HIDE_POINTER base) (fo_head st ! ?i) = None"
      using none by (simp_all only: chain_update_None chain_remove_None)
    then show ?thesis using True t(4) [of base] t(5) [of base] assms(1) by (simp add: fo_replace_def)
  next
    case False
    then have "chain_update (GC_HIDE_POINTER base) ?f (fo_head st ! ?i) \<noteq> None" "chain_remove (GC_HIDE_POINTER base) (fo_head st ! ?i) \<noteq> None"
      using none by (simp_all only: chain_update_None chain_remove_None not_False_eq_True)
    then obtain q c r d where some: "chain_update (GC_HIDE_POINTER base) ?f (fo_head st ! ?i) = Some (q, c)"
        "chain_remove (GC_HIDE_POINTER base) (fo_head st ! ?i) = Some (r, d)" by auto
    note u = table_update_ok(1) [OF ok assms(2) refl some(1)] table_update_ok(2,3) [OF ok assms(2) refl some(1), where val = fo_val]
    note v = table_remove_ok(1) [OF ok assms(2) refl some(2)] table_remove_ok(2,3) [OF ok assms(2) refl some(2), where val = fo_val]
    show ?thesis using some t(4) [of base] t(5) [of base] u v
      by (auto simp: fo_replace_def fo_ok_def fo_map_def fo_val_def GC_free_def fun_upd_def)
  qed
qed

lemma fo_insert_ok:
  assumes "fo_ok st" "log_fo_table_size st \<noteq> - 1" "fo_map st base = None"
  shows "\<exists>st'. fo_insert new_fo base fn cd sz mp st = Inr st' \<and> fo_ok st' \<and> fo_map st' = (fo_map st)(base \<mapsto> (fn, cd, mp))"
proof -
  have ok: "table_ok (fo_head st) (log_fo_table_size st) (GC_fo_entries st)" using assms(1) by (simp add: fo_ok_def)
  let ?p = "\<lparr>entry_at = new_fo, hidden_key = GC_HIDE_POINTER base, fo_fn = fn, fo_client_data = cd, fo_object_size = sz, fo_mark_proc = mp\<rparr>"
  have rk: "real_key ?p = base" by (simp add: real_key_def)
  note t = table_okD [OF ok assms(2)]
  from table_insert_ok [OF ok assms(2) refl, of fo_val ?p] assms(3) t(4) [of base] t(5) [of base] rk
  show ?thesis by (simp add: fo_insert_def fo_ok_def fo_map_def fo_val_def)
qed

definition leaves_finalizers :: "(fin_state \<Rightarrow> addr \<times> fin_state) \<Rightarrow> bool" where
  "leaves_finalizers oom_fn \<longleftrightarrow> (\<forall>st p st'. oom_fn st = (p, st') \<longrightarrow>
     fo_head st' = fo_head st \<and> log_fo_table_size st' = log_fo_table_size st \<and> GC_fo_entries st' = GC_fo_entries st)"

lemma malloc_fo [simp]:
  "GC_INTERNAL_MALLOC st = (p, st') \<Longrightarrow> fo_ok st' = fo_ok st" "GC_INTERNAL_MALLOC st = (p, st') \<Longrightarrow> fo_map st' = fo_map st"
  by (simp_all add: fo_ok_def fo_map_def)

text \<open>An object outside the collected heap gets no finalizer.\<close>

lemma register_finalizer_ok:
  assumes ok: "fo_ok st" "log_fo_table_size st < 30" and oom: "leaves_finalizers oom_fn"
  shows "case GC_register_finalizer_inner oom_fn object_size obj fn cd mp st of
      Inr (out, st') \<Rightarrow> fo_ok st' \<and>
        (out = Some (old_finalizer (fo_map st obj)) \<and>
           fo_map st' = (if fo_map st obj = None \<and> object_size obj = None then fo_map st
             else (fo_map st)(obj := if fn = 0 then None else Some (fn, cd, mp))) \<or>
         out = None \<and> fo_map st obj = None \<and> fn \<noteq> 0 \<and> fo_map st' = fo_map st)
    | Inl e \<Rightarrow> log_fo_table_size st = - 1 \<and> \<not> memory_left st"
proof (cases "grow_fo st")
  case (Inl e)
  then show ?thesis using grow_fo_ok [OF ok] by (simp add: GC_register_finalizer_inner_def)
next
  case (Inr st1)
  then have st1: "fo_ok st1" "fo_map st1 = fo_map st" "log_fo_table_size st1 \<noteq> - 1" using grow_fo_ok [OF ok] by simp_all
  obtain st2 where st2: "fo_replace obj fn cd mp st1 = Inr (map_option (\<lambda>(fn, cd, mp). (fn, cd)) (fo_map st obj), st2)" "fo_ok st2"
      "log_fo_table_size st2 = log_fo_table_size st1" "fo_map st obj = None \<longrightarrow> st2 = st1"
      "fo_map st obj \<noteq> None \<longrightarrow> fo_map st2 = (fo_map st)(obj := if fn = 0 then None else Some (fn, cd, mp))"
    using fo_replace_ok [OF st1(1,3), of obj fn cd mp] st1(2) by auto
  show ?thesis
  proof (cases "fo_map st obj")
    case (Some v)
    then show ?thesis using Inr st2 by (cases v) (simp add: GC_register_finalizer_inner_def old_finalizer_def)
  next
    case None
    then have e: "st2 = st1" "(fo_map st)(obj := None) = fo_map st" using st2(4) by auto
    show ?thesis
    proof (cases "fn = 0 \<or> object_size obj = None")
      case True
      then show ?thesis using Inr st2(1) e None st1
        by (auto simp: GC_register_finalizer_inner_def old_finalizer_def)
    next
      case False
      then obtain sz where sz: "object_size obj = Some sz" "fn \<noteq> 0" by auto
      obtain p st3 where m: "GC_INTERNAL_MALLOC st1 = (p, st3)" by fastforce
      obtain q st4 where q: "oom_fn st3 = (q, st4)" by fastforce
      have st3: "fo_ok st3" "fo_map st3 = fo_map st" "log_fo_table_size st3 \<noteq> - 1" using m st1 by simp_all
      have st4: "fo_ok st4" "fo_map st4 = fo_map st" "log_fo_table_size st4 \<noteq> - 1"
        using oom q st3 by (auto simp: leaves_finalizers_def fo_ok_def fo_map_def)
      obtain a where a: "fo_insert p obj fn cd sz mp st3 = Inr a" "fo_ok a" "fo_map a = (fo_map st)(obj \<mapsto> (fn, cd, mp))"
        using fo_insert_ok [OF st3(1,3), of obj p fn cd sz mp] st3(2) None by auto
      obtain b where b: "fo_insert q obj fn cd sz mp st4 = Inr b" "fo_ok b" "fo_map b = (fo_map st)(obj \<mapsto> (fn, cd, mp))"
        using fo_insert_ok [OF st4(1,3), of obj q fn cd sz mp] st4(2) None by auto
      have r4: "fo_replace obj fn cd mp st4 = Inr (None, st4)"
        using fo_replace_ok [OF st4(1,3), of obj fn cd mp] st4(2) None by auto
      show ?thesis using Inr st2(1) e None m q a b r4 st4 sz
        by (auto simp: GC_register_finalizer_inner_def old_finalizer_def)
    qed
  qed
qed

end
