(* ===== verification/GC_Finalization.thy ===== *)
theory GC_Finalization
  imports GC_Registration
begin

text \<open>
  A round of finalization: which links it clears, which objects it queues for their finalizers,
  and the running of the queue.
\<close>

section \<open>Sweeping a table\<close>

text \<open>
  A sweep whose decisions are known beforehand: \<open>I\<close> holds of the entries that are left and the
  state.
\<close>

lemma sweep_chain_ok:
  assumes step: "\<And>p rem st. I (p # rem) st \<Longrightarrow>
      f p st = (if D p then (False, act p st) else (True, st)) \<and> I rem (if D p then act p st else st)"
    and I: "I (ps @ rem) st"
  shows "sweep_chain f ps st = (filter (\<lambda>p. \<not> D p) ps, fold act (filter D ps) st) \<and> I rem (fold act (filter D ps) st)"
  using I
proof (induction ps arbitrary: st)
  case (Cons p ps)
  then have "I (p # (ps @ rem)) st" by simp
  from step [OF this] Cons.IH [of "if D p then act p st else st"] show ?case by auto
qed simp

lemma sweep_table_ok:
  assumes step: "\<And>p rem st. I (p # rem) st \<Longrightarrow>
      f p st = (if D p then (False, act p st) else (True, st)) \<and> I rem (if D p then act p st else st)"
    and I: "I (concat t @ rem) st"
  shows "sweep_table f t st = (map (filter (\<lambda>p. \<not> D p)) t, fold act (filter D (concat t)) st) \<and> I rem (fold act (filter D (concat t)) st)"
  using I
proof (induction t arbitrary: st)
  case (Cons c t)
  then have "I (c @ (concat t @ rem)) st" by simp
  from sweep_chain_ok [of I f D act, OF step this] Cons.IH show ?case by auto
qed simp

lemma table_map_Some:
  assumes "distinct (map real_key (concat table))"
  shows "table_map val table k = Some v \<longleftrightarrow> (\<exists>p \<in> set (concat table). real_key p = k \<and> val p = v)"
proof -
  have "distinct (map fst (map (\<lambda>p. (real_key p, val p)) (concat table)))" using assms by (simp add: comp_def)
  then have "table_map val table k = Some v \<longleftrightarrow> (k, v) \<in> set (map (\<lambda>p. (real_key p, val p)) (concat table))"
    unfolding table_map_def by (rule map_of_eq_Some_iff)
  then show ?thesis by (simp only: set_map image_iff prod.inject) metis
qed

lemma table_ok_distinct: "table_ok table log_size n \<Longrightarrow> distinct (map real_key (concat table))"
  by (simp add: table_ok_def)

lemma concat_filter: "concat (map (filter P) t) = filter P (concat t)"
  by (induction t) simp_all

lemma table_filter_ok:
  assumes ok: "table_ok table log_size n"
  shows "table_ok (map (filter P) table) log_size (n - of_nat (length (filter (\<lambda>p. \<not> P p) (concat table))))"
    and "table_map val (map (filter P) table) k = Some v \<longleftrightarrow> (\<exists>p \<in> set (concat table). P p \<and> real_key p = k \<and> val p = v)"
proof -
  have d: "distinct (map real_key (filter P (concat table)))"
    using table_ok_distinct [OF ok] by (rule distinct_map_filter)
  have "length (filter P (concat table)) + length (filter (\<lambda>p. \<not> P p) (concat table)) = length (concat table)"
    by (rule sum_length_filter_compl)
  then have "(of_nat (length (concat table)) :: addr) = of_nat (length (filter P (concat table))) + of_nat (length (filter (\<lambda>p. \<not> P p) (concat table)))"
    by (metis of_nat_add)
  moreover have "\<forall>p \<in> set (map (filter P) table ! i). p \<in> set (table ! i)" if "i < length table" for i
    using that by simp
  ultimately show "table_ok (map (filter P) table) log_size (n - of_nat (length (filter (\<lambda>p. \<not> P p) (concat table))))"
    using ok d unfolding table_ok_def concat_filter by (simp split: if_splits)
  show "table_map val (map (filter P) table) k = Some v \<longleftrightarrow> (\<exists>p \<in> set (concat table). P p \<and> real_key p = k \<and> val p = v)"
    using d by (subst table_map_Some) (auto simp: concat_filter simp del: set_concat)
qed

section \<open>Links that are cleared\<close>

definition dl_obj :: "disappearing_link \<Rightarrow> addr" where
  "dl_obj p = GC_REVEAL_POINTER (dl_hidden_obj p)"

text \<open>Entries of the table of links are no objects of clients.\<close>

definition links_apart :: "(addr \<Rightarrow> addr) \<Rightarrow> fin_state \<Rightarrow> bool" where
  "links_apart GC_base st \<longleftrightarrow> (\<forall>p \<in> set (concat (dl_head st)).
     (\<forall>q \<in> set (concat (dl_head st)). entry_at p \<noteq> dl_obj q \<and> entry_at p \<noteq> GC_base (real_key q)) \<and>
     (\<forall>q \<in> set (concat (fo_head st)). entry_at p \<noteq> real_key q))"

definition drop_links :: "disappearing_link list \<Rightarrow> fin_state \<Rightarrow> fin_state" where
  "drop_links ps st = st\<lparr>marks := marks st - entry_at ` set ps, GC_dl_entries := GC_dl_entries st - of_nat (length ps)\<rparr>"

lemma drop_links_Cons: "drop_links (p # ps) st = drop_links ps (unlink_dl p st)"
proof -
  have "marks st - insert (entry_at p) (entry_at ` set ps) = marks st - {entry_at p} - entry_at ` set ps" by blast
  then show ?thesis by (simp add: drop_links_def unlink_dl_def diff_diff_eq)
qed

lemma fold_unlink: "fold unlink_dl ps st = drop_links ps st"
  by (induction ps arbitrary: st) (simp_all add: drop_links_Cons, simp add: drop_links_def)

lemma fold_clear:
  "fold (\<lambda>p st. unlink_dl p (st\<lparr>words := (words st)(real_key p := 0)\<rparr>)) ps st =
     drop_links ps (st\<lparr>words := (\<lambda>a. if a \<in> real_key ` set ps then 0 else words st a)\<rparr>)"
proof (induction ps arbitrary: st)
  case (Cons p ps)
  have "(\<lambda>a. if a \<in> real_key ` set ps then 0 else ((words st)(real_key p := 0)) a) =
      (\<lambda>a. if a \<in> real_key ` set (p # ps) then 0 else words st a)" by auto
  moreover let ?g = "unlink_dl p (st\<lparr>words := (words st)(real_key p := 0)\<rparr>)"
  have "words ?g = (words st)(real_key p := 0)" by (simp add: unlink_dl_def)
  moreover have "?g\<lparr>words := h\<rparr> = unlink_dl p (st\<lparr>words := h\<rparr>)" for h by (simp add: unlink_dl_def)
  ultimately show ?case by (simp only: fold_simps Cons drop_links_Cons)
qed (simp add: drop_links_def)

lemma clear_links_ok:
  assumes "links_apart GC_base st"
  defines "D \<equiv> \<lambda>p. dl_obj p \<notin> marks st"
  defines "ps \<equiv> filter D (concat (dl_head st))"
  shows "sweep_dl clear_link st =
    (drop_links ps (st\<lparr>words := (\<lambda>a. if a \<in> real_key ` set ps then 0 else words st a)\<rparr>))
      \<lparr>dl_head := map (filter (\<lambda>p. \<not> D p)) (dl_head st)\<rparr>"
proof -
  let ?I = "\<lambda>rem s. set rem \<subseteq> set (concat (dl_head st)) \<and> (\<forall>q \<in> set (concat (dl_head st)). dl_obj q \<in> marks s \<longleftrightarrow> dl_obj q \<in> marks st)"
  let ?act = "\<lambda>p st. unlink_dl p (st\<lparr>words := (words st)(real_key p := 0)\<rparr>)"
  have step: "clear_link p s = (if D p then (False, ?act p s) else (True, s)) \<and> ?I rem (if D p then ?act p s else s)"
    if "?I (p # rem) s" for p rem s
  proof -
    have "dl_obj q \<noteq> entry_at p" if "q \<in> set (concat (dl_head st))" for q
      using assms(1) \<open>?I (p # rem) s\<close> that by (metis links_apart_def list.set_intros(1) subsetD)
    then show ?thesis using that
      by (auto simp: clear_link_def D_def dl_obj_def [symmetric] unlink_dl_def simp del: set_concat)
  qed
  have "?I (concat (dl_head st) @ []) st" by simp
  from sweep_table_ok [of ?I clear_link D ?act, OF step this] show ?thesis
    by (simp add: sweep_dl_def fold_clear ps_def)
qed

lemma dangling_links_ok:
  assumes "\<And>p q. p \<in> set (concat (dl_head st)) \<Longrightarrow> q \<in> set (concat (dl_head st)) \<Longrightarrow> GC_base (real_key q) \<noteq> entry_at p"
  defines "D \<equiv> \<lambda>p. GC_base (real_key p) \<noteq> 0 \<and> GC_base (real_key p) \<notin> marks st"
  shows "sweep_dl (dangling_link GC_base) st =
    (drop_links (filter D (concat (dl_head st))) st)\<lparr>dl_head := map (filter (\<lambda>p. \<not> D p)) (dl_head st)\<rparr>"
proof -
  let ?I = "\<lambda>rem s. set rem \<subseteq> set (concat (dl_head st)) \<and>
    (\<forall>q \<in> set (concat (dl_head st)). GC_base (real_key q) \<in> marks s \<longleftrightarrow> GC_base (real_key q) \<in> marks st)"
  have step: "dangling_link GC_base p s = (if D p then (False, unlink_dl p s) else (True, s)) \<and> ?I rem (if D p then unlink_dl p s else s)"
    if "?I (p # rem) s" for p rem s
    using that assms(1) [of p]
    by (auto simp: dangling_link_def D_def Let_def unlink_dl_def simp del: set_concat)
  have "?I (concat (dl_head st) @ []) st" by simp
  from sweep_table_ok [of ?I "dangling_link GC_base" D unlink_dl, OF step this] show ?thesis
    by (simp add: sweep_dl_def fold_unlink)
qed

section \<open>Objects that are queued\<close>

text \<open>
  \<open>points_to\<close> is the graph of the pointers between the objects of clients. \<open>reached_by\<close> is what
  each of the four procedures marks from an object: everything its pointers lead to, everything that
  the pointers to other objects lead to, or nothing. Outside of the Java mode
  \<open>GC_unreachable_finalize_mark_proc\<close> is the normal one.
\<close>

fun reached_by :: "finalization_mark_proc \<Rightarrow> (addr \<times> addr) set \<Rightarrow> addr \<Rightarrow> addr set" where
  "reached_by Normal_proc points_to p = points_to\<^sup>+ `` {p}"
| "reached_by Ignore_self_proc points_to p = points_to\<^sup>* `` (points_to `` {p} - {p})"
| "reached_by Null_proc points_to p = {}"
| "reached_by Unreachable_proc points_to p = points_to\<^sup>+ `` {p}"

text \<open>
  The marker: once the marked objects point to marked objects only, \<open>GC_MARK_FO\<close> marks what its
  procedure reaches. The mark stack does not overflow: otherwise \<open>GC_MARK_FO\<close> sets the mark bit of
  the object itself, too (gc_pmark.h:435), which leaves it to the next collection.
\<close>

definition traces :: "(addr \<times> addr) set \<Rightarrow> (finalization_mark_proc \<Rightarrow> addr \<Rightarrow> addr set \<Rightarrow> addr set) \<Rightarrow> bool" where
  "traces points_to mark_fo \<longleftrightarrow>
     (\<forall>mp p N. points_to `` N \<subseteq> N \<longrightarrow> mark_fo mp p N = N \<union> reached_by mp points_to p)"

lemma reached_by_closed: "R `` reached_by mp R p \<subseteq> reached_by mp R p"
  by (cases mp) (auto intro: trancl_into_trancl rtrancl_into_rtrancl)

lemma reached_by_trancl: "reached_by mp R p \<subseteq> R\<^sup>+ `` {p}"
  by (cases mp) (auto intro: rtrancl_into_trancl2)

lemma closed_trancl:
  assumes "R `` N \<subseteq> N" "p \<in> N"
  shows "R\<^sup>+ `` {p} \<subseteq> N"
proof
  fix b assume "b \<in> R\<^sup>+ `` {p}"
  then have "(p, b) \<in> R\<^sup>+" by simp
  then show "b \<in> N" using assms by induction auto
qed

definition mark_step ::
  "(finalization_mark_proc \<Rightarrow> addr \<Rightarrow> addr set \<Rightarrow> addr set) \<Rightarrow> finalizable_object \<Rightarrow> addr set \<Rightarrow> addr set" where
  "mark_step mark_fo p N = (if real_key p \<notin> N then mark_fo (fo_mark_proc p) (real_key p) N else N)"

lemma fold_mark: "fold (mark_from mark_fo) ps st = st\<lparr>marks := fold (mark_step mark_fo) ps (marks st)\<rparr>"
  by (induction ps arbitrary: st) (simp_all add: mark_from_def mark_step_def)

lemma mark_all:
  assumes "traces R mark_fo" "R `` N \<subseteq> N"
  shows "fold (mark_step mark_fo) ps N =
    N \<union> (\<Union>p \<in> {p \<in> set ps. real_key p \<notin> N}. reached_by (fo_mark_proc p) R (real_key p))"
  using assms(2)
proof (induction ps arbitrary: N)
  case (Cons p ps)
  let ?r = "\<lambda>p. reached_by (fo_mark_proc p) R (real_key p)"
  show ?case
  proof (cases "real_key p \<in> N")
    case True
    then have "{q \<in> set (p # ps). real_key q \<notin> N} = {q \<in> set ps. real_key q \<notin> N}" by auto
    then show ?thesis using Cons True by (simp add: mark_step_def)
  next
    case False
    let ?N = "N \<union> ?r p"
    have m: "mark_step mark_fo p N = ?N"
      using False Cons.prems assms(1) by (simp add: mark_step_def traces_def)
    have closed: "R `` ?N \<subseteq> ?N" using Cons.prems reached_by_closed [of R] by blast
    have "?r q \<subseteq> ?N" if "real_key q \<in> ?N" for q
      using closed_trancl [OF closed that] reached_by_trancl [of "fo_mark_proc q" R "real_key q"] by blast
    then have "?N \<union> (\<Union>q \<in> {q \<in> set ps. real_key q \<notin> ?N}. ?r q) = N \<union> (\<Union>q \<in> {q \<in> set (p # ps). real_key q \<notin> N}. ?r q)"
      using False by auto
    then show ?thesis using Cons.IH [OF closed] m by simp
  qed
qed simp

lemma fold_queue:
  defines "act \<equiv> \<lambda>p st. to_queue p (st\<lparr>marks := insert (real_key p) (marks st)\<rparr>)"
  shows "GC_finalize_now (fold act ps st) = rev (map (\<lambda>p. p\<lparr>hidden_key := real_key p\<rparr>) ps) @ GC_finalize_now st"
    "marks (fold act ps st) = marks st \<union> real_key ` set ps"
    "GC_fo_entries (fold act ps st) = GC_fo_entries st - of_nat (length ps)"
    "dl_head (fold act ps st) = dl_head st" "GC_dl_entries (fold act ps st) = GC_dl_entries st"
    "log_dl_table_size (fold act ps st) = log_dl_table_size st" "log_fo_table_size (fold act ps st) = log_fo_table_size st"
    "words (fold act ps st) = words st" "GC_java_finalization (fold act ps st) = GC_java_finalization st"
  by (induction ps arbitrary: st) (simp_all add: act_def to_queue_def)

lemma enqueue_ok:
  assumes "\<not> GC_java_finalization st" "distinct (map real_key (concat (fo_head st)))"
  defines "D \<equiv> \<lambda>p. real_key p \<notin> marks st"
  defines "act \<equiv> \<lambda>p st. to_queue p (st\<lparr>marks := insert (real_key p) (marks st)\<rparr>)"
  shows "sweep_fo enqueue st =
    (fold act (filter D (concat (fo_head st))) st)\<lparr>fo_head := map (filter (\<lambda>p. \<not> D p)) (fo_head st)\<rparr>"
proof -
  let ?I = "\<lambda>rem s. \<not> GC_java_finalization s \<and> distinct (map real_key rem) \<and> (\<forall>q \<in> set rem. real_key q \<in> marks s \<longleftrightarrow> real_key q \<in> marks st)"
  have step: "enqueue p s = (if D p then (False, act p s) else (True, s)) \<and> ?I rem (if D p then act p s else s)"
    if "?I (p # rem) s" for p rem s
  proof -
    have "real_key q \<noteq> real_key p" if "q \<in> set rem" for q using that \<open>?I (p # rem) s\<close> by (metis distinct.simps(2) image_eqI list.set_map list.simps(9))
    then show ?thesis using that by (auto simp: enqueue_def D_def act_def to_queue_def)
  qed
  have "?I (concat (fo_head st) @ []) st" using assms(1,2) by simp
  from sweep_table_ok [of ?I enqueue D act, OF step this] show ?thesis by (simp add: sweep_fo_def)
qed

section \<open>A whole round\<close>

definition finalizable :: "(addr \<times> addr) set \<Rightarrow> fin_state \<Rightarrow> addr \<Rightarrow> bool" where
  "finalizable points_to st b \<longleftrightarrow> b \<notin> marks st \<and>
     (\<forall>q fn cd mp. fo_map st q = Some (fn, cd, mp) \<longrightarrow> q \<notin> marks st \<longrightarrow> b \<notin> reached_by mp points_to q)"

text \<open>The tables are in order, no entry of a table is an object of a client, and the Java mode is off.\<close>

definition round_ok :: "(addr \<Rightarrow> addr) \<Rightarrow> fin_state \<Rightarrow> bool" where
  "round_ok GC_base st \<longleftrightarrow> dl_ok st \<and> fo_ok st \<and> links_apart GC_base st \<and> \<not> GC_java_finalization st"

text \<open>
  The heap after marking: marked objects point to marked objects, and no pointer of a client leads
  to an entry of the tables.
\<close>

definition marked_heap :: "(addr \<Rightarrow> addr) \<Rightarrow> (addr \<times> addr) set \<Rightarrow> fin_state \<Rightarrow> bool" where
  "marked_heap GC_base points_to st \<longleftrightarrow> round_ok GC_base st \<and> points_to `` marks st \<subseteq> marks st \<and>
     (\<forall>p \<in> set (concat (dl_head st)). entry_at p \<notin> Range points_to)"

lemma drop_links_rest [simp]:
  "fo_head (drop_links ps st) = fo_head st" "dl_head (drop_links ps st) = dl_head st" "words (drop_links ps st) = words st"
  "marks (drop_links ps st) = marks st - entry_at ` set ps"
  "GC_dl_entries (drop_links ps st) = GC_dl_entries st - of_nat (length ps)" "GC_fo_entries (drop_links ps st) = GC_fo_entries st"
  "log_dl_table_size (drop_links ps st) = log_dl_table_size st" "log_fo_table_size (drop_links ps st) = log_fo_table_size st"
  "GC_finalize_now (drop_links ps st) = GC_finalize_now st" "GC_java_finalization (drop_links ps st) = GC_java_finalization st"
  by (simp_all add: drop_links_def)

text \<open>The marks from which the finalizable objects are traced, and what is marked after that.\<close>

definition marks_after ::
  "(finalization_mark_proc \<Rightarrow> addr \<Rightarrow> addr set \<Rightarrow> addr set) \<Rightarrow> fin_state \<Rightarrow> addr set" where
  "marks_after mark_fo st = fold (mark_step mark_fo) (concat (fo_head st))
     (marks st - entry_at ` set (filter (\<lambda>p. dl_obj p \<notin> marks st) (concat (dl_head st))))"

text \<open>A round, whatever the marker does.\<close>

lemma finalize_round:
  fixes mark_fo :: "finalization_mark_proc \<Rightarrow> addr \<Rightarrow> addr set \<Rightarrow> addr set"
  assumes heap: "round_ok GC_base st"
  defines "F \<equiv> \<lambda>p :: finalizable_object. real_key p \<notin> marks_after mark_fo st"
  shows "\<exists>st'. GC_finalize GC_base mark_fo st = Inr st' \<and>
    GC_finalize_now st' = rev (map (\<lambda>p. p\<lparr>hidden_key := real_key p\<rparr>) (filter F (concat (fo_head st)))) @ GC_finalize_now st \<and>
    fo_head st' = map (filter (\<lambda>p. \<not> F p)) (fo_head st) \<and> log_fo_table_size st' = log_fo_table_size st \<and>
    GC_fo_entries st' = GC_fo_entries st - of_nat (length (filter F (concat (fo_head st)))) \<and>
    words st' = (\<lambda>a. if \<exists>obj. dl_map st a = Some obj \<and> obj \<notin> marks st then 0 else words st a) \<and>
    dl_ok st' \<and>
    (\<forall>l obj. dl_map st' l = Some obj \<longleftrightarrow>
      dl_map st l = Some obj \<and> obj \<in> marks st \<and> (GC_base l = 0 \<or> GC_base l \<in> marks st'))"
proof -
  have ok: "dl_ok st" "fo_ok st" "links_apart GC_base st" "\<not> GC_java_finalization st"
    using heap by (auto simp: round_ok_def simp del: set_concat)
  have d: "distinct (map real_key (concat (dl_head st)))" "distinct (map real_key (concat (fo_head st)))"
    using ok(1,2) table_ok_distinct by (auto simp: dl_ok_def fo_ok_def)
  let ?dl = "set (concat (dl_head st))" and ?fos = "concat (fo_head st)"
  define st0 where "st0 = st\<lparr>GC_old_dl_entries := GC_dl_entries st\<rparr>"
  define C where "C = (\<lambda>p. dl_obj p \<notin> marks st)"
  define ps1 where "ps1 = filter C (concat (dl_head st))"
  define st1 where "st1 = sweep_dl clear_link st0"
  have "links_apart GC_base st0" using ok(3) by (simp add: st0_def links_apart_def)
  note clear = clear_links_ok [OF this]
  have s0: "dl_head st0 = dl_head st" "marks st0 = marks st" "words st0 = words st" by (simp_all add: st0_def)
  have st1: "st1 = (drop_links ps1 (st0\<lparr>words := (\<lambda>a. if a \<in> real_key ` set ps1 then 0 else words st a)\<rparr>))
      \<lparr>dl_head := map (filter (\<lambda>p. \<not> C p)) (dl_head st)\<rparr>"
    using clear unfolding s0 st1_def ps1_def C_def .
  have ps1: "set ps1 \<subseteq> ?dl" by (auto simp: ps1_def)
  have m1: "marks st1 = marks st - entry_at ` set ps1" "fo_head st1 = fo_head st" "\<not> GC_java_finalization st1"
      "GC_finalize_now st1 = GC_finalize_now st" "GC_fo_entries st1 = GC_fo_entries st" "log_fo_table_size st1 = log_fo_table_size st"
      "log_dl_table_size st1 = log_dl_table_size st" "GC_dl_entries st1 = GC_dl_entries st - of_nat (length ps1)"
      "dl_head st1 = map (filter (\<lambda>p. \<not> C p)) (dl_head st)"
      "words st1 = (\<lambda>a. if a \<in> real_key ` set ps1 then 0 else words st a)"
    using ok(4) by (simp_all add: st1 st0_def)
  define N where "N = fold (mark_step mark_fo) ?fos (marks st1)"
  have F: "F p \<longleftrightarrow> real_key p \<notin> N" for p
    unfolding F_def N_def m1(1) marks_after_def ps1_def C_def ..
  define act where "act = (\<lambda>p st. to_queue p (st\<lparr>marks := insert (real_key p) (marks st)\<rparr>))"
  define st2 where "st2 = (fold (mark_from mark_fo) (concat (fo_head st1)) st1)\<lparr>GC_bytes_finalized := 0\<rparr>"
  have st2: "st2 = st1\<lparr>marks := N, GC_bytes_finalized := 0\<rparr>"
    unfolding st2_def fold_mark m1(2) N_def by simp
  define st3 where "st3 = sweep_fo enqueue st2"
  have "\<not> GC_java_finalization st2" "distinct (map real_key (concat (fo_head st2)))" "fo_head st2 = fo_head st" "marks st2 = N"
    using m1(2,3) d(2) by (simp_all add: st2)
  note q = enqueue_ok [OF this(1,2), unfolded this(3,4), folded act_def]
  have f: "filter (\<lambda>p. real_key p \<notin> N) ?fos = filter F ?fos" using F by (intro filter_cong) auto
  have f': "map (filter (\<lambda>p. \<not> real_key p \<notin> N)) (fo_head st) = map (filter (\<lambda>p. \<not> F p)) (fo_head st)"
    using F by (intro map_cong filter_cong) auto
  have st3: "st3 = (fold act (filter F ?fos) st2)\<lparr>fo_head := map (filter (\<lambda>p. \<not> F p)) (fo_head st)\<rparr>"
    unfolding st3_def q f f' by simp
  note fq = fold_queue [folded act_def, of "filter F ?fos" st2]
  have m3: "GC_finalize_now st3 = rev (map (\<lambda>p. p\<lparr>hidden_key := real_key p\<rparr>) (filter F ?fos)) @ GC_finalize_now st"
      "GC_fo_entries st3 = GC_fo_entries st - of_nat (length (filter F ?fos))" "dl_head st3 = dl_head st1" "GC_dl_entries st3 = GC_dl_entries st1"
      "log_dl_table_size st3 = log_dl_table_size st" "log_fo_table_size st3 = log_fo_table_size st" "words st3 = words st1"
      "\<not> GC_java_finalization st3" "fo_head st3 = map (filter (\<lambda>p. \<not> F p)) (fo_head st)"
    using m1 by (simp_all add: st3 fq) (simp_all add: st2)
  have "GC_base (real_key b) \<noteq> entry_at a" if "a \<in> set (concat (dl_head st3))" "b \<in> set (concat (dl_head st3))" for a b
  proof -
    have "a \<in> ?dl" "b \<in> ?dl" using that unfolding m3(3) m1(9) concat_filter by auto
    then show ?thesis using ok(3) unfolding links_apart_def by metis
  qed
  note dang = dangling_links_ok [of st3 GC_base, OF this]
  define st4 where "st4 = sweep_dl (dangling_link GC_base) st3"
  define G where "G = (\<lambda>p :: disappearing_link. GC_base (real_key p) \<noteq> 0 \<and> GC_base (real_key p) \<notin> marks st3)"
  have st4: "st4 = (drop_links (filter G (concat (dl_head st3))) st3)\<lparr>dl_head := map (filter (\<lambda>p. \<not> G p)) (dl_head st3)\<rparr>"
    using dang unfolding st4_def G_def .
  have fin: "GC_finalize GC_base mark_fo st = Inr (if GC_fail_count st4 \<noteq> 0 then st4\<lparr>GC_finalizer_nested := 0\<rparr> else st4)"
    using m3(8) unfolding GC_finalize_def Let_def st0_def [symmetric] st1_def [symmetric] st2_def [symmetric] st3_def [symmetric]
    by (simp add: java_queue_def st4_def)
  have dm: "dl_map st l = Some obj \<longleftrightarrow> (\<exists>p \<in> ?dl. real_key p = l \<and> dl_obj p = obj)" for l obj
    unfolding dl_map_def using table_map_Some [OF d(1)] by (simp add: dl_obj_def del: set_concat)
  have t1: "table_ok (dl_head st3) (log_dl_table_size st3) (GC_dl_entries st3)"
    using table_filter_ok(1) [OF ok(1) [unfolded dl_ok_def], of "\<lambda>p. \<not> C p"] m1 m3(3,4,5) by (simp add: ps1_def)
  have t4: "table_ok (dl_head st4) (log_dl_table_size st4) (GC_dl_entries st4)"
    using table_filter_ok(1) [OF t1, of "\<lambda>p. \<not> G p"] by (simp add: st4)
  have mem3: "p \<in> set (concat (dl_head st3)) \<longleftrightarrow> p \<in> ?dl \<and> \<not> C p" for p
    unfolding m3(3) m1(9) concat_filter by (simp del: set_concat)
  have dm4: "dl_map st4 l = Some obj \<longleftrightarrow> (\<exists>p \<in> set (concat (dl_head st3)). \<not> G p \<and> real_key p = l \<and> dl_obj p = obj)" for l obj
    using table_filter_ok(2) [OF t1, of "\<lambda>p. GC_REVEAL_POINTER (dl_hidden_obj p)" "\<lambda>p. \<not> G p" l obj]
    unfolding dl_map_def st4 by (simp add: dl_obj_def del: set_concat)
  have b4: "GC_base (real_key p) \<in> marks st4 \<longleftrightarrow> GC_base (real_key p) \<in> marks st3" if "p \<in> ?dl" for p
  proof -
    have "GC_base (real_key p) \<notin> entry_at ` set (filter G (concat (dl_head st3)))"
    proof
      assume "GC_base (real_key p) \<in> entry_at ` set (filter G (concat (dl_head st3)))"
      then obtain q where q: "q \<in> set (concat (dl_head st3))" "GC_base (real_key p) = entry_at q"
        unfolding set_filter by blast
      then have "q \<in> ?dl" using mem3 by blast
      then have "entry_at q \<noteq> GC_base (real_key p)" using ok(3) that unfolding links_apart_def by blast
      then show False using q(2) by simp
    qed
    then show ?thesis by (simp add: st4)
  qed
  have links: "dl_map st4 l = Some obj \<longleftrightarrow>
      dl_map st l = Some obj \<and> obj \<in> marks st \<and> (GC_base l = 0 \<or> GC_base l \<in> marks st4)" for l obj
    unfolding dm dm4 mem3 Bex_def using b4 by (auto simp: C_def G_def simp del: set_concat)
  have words: "words st4 = (\<lambda>a. if \<exists>obj. dl_map st a = Some obj \<and> obj \<notin> marks st then 0 else words st a)"
  proof -
    have "a \<in> real_key ` set ps1 \<longleftrightarrow> (\<exists>obj. dl_map st a = Some obj \<and> obj \<notin> marks st)" for a
      unfolding dm ps1_def by (auto simp: C_def simp del: set_concat)
    then show ?thesis by (simp add: st4 m3(7) m1(10))
  qed
  have "GC_finalize_now st4 = GC_finalize_now st3" "fo_head st4 = fo_head st3" "log_fo_table_size st4 = log_fo_table_size st3"
      "GC_fo_entries st4 = GC_fo_entries st3"
    by (simp_all add: st4)
  note m4 = this [unfolded m3]
  have "dl_map (st4\<lparr>GC_finalizer_nested := n\<rparr>) = dl_map st4" "dl_ok (st4\<lparr>GC_finalizer_nested := n\<rparr>) = dl_ok st4" for n
    by (simp_all add: dl_map_def dl_ok_def)
  with fin m4 links words t4 show ?thesis by (cases "GC_fail_count st4 = 0") (simp_all add: dl_ok_def)
qed

text \<open>With a marker that traces the pointers, the objects that stay unmarked are the finalizable ones.\<close>

lemma finalize_ok:
  assumes heap: "marked_heap GC_base points_to st" and tr: "traces points_to mark_fo"
    and p: "p \<in> set (concat (fo_head st))"
  shows "real_key p \<notin> marks_after mark_fo st \<longleftrightarrow> finalizable points_to st (real_key p)"
proof -
  define fos where "fos = concat (fo_head st)"
  define es where "es = entry_at ` set (filter (\<lambda>p. dl_obj p \<notin> marks st) (concat (dl_head st)))"
  have ok: "fo_ok st" "links_apart GC_base st" "points_to `` marks st \<subseteq> marks st"
      "\<forall>p \<in> set (concat (dl_head st)). entry_at p \<notin> Range points_to"
    using heap by (auto simp: marked_heap_def round_ok_def simp del: set_concat)
  have es: "es \<subseteq> entry_at ` set (concat (dl_head st))" by (auto simp: es_def)
  then have "points_to `` (marks st - es) \<subseteq> marks st - es" using ok(3,4) by blast
  note M = mark_all [OF tr this, of fos]
  have base: "real_key q \<in> marks st - es \<longleftrightarrow> real_key q \<in> marks st" if "q \<in> set fos" for q
  proof -
    have "real_key q \<notin> es" using ok(2) es that unfolding links_apart_def fos_def by (metis imageE subsetD)
    then show ?thesis by simp
  qed
  then have traced: "{q \<in> set fos. real_key q \<notin> marks st - es} = {q \<in> set fos. real_key q \<notin> marks st}" by blast
  have after: "marks_after mark_fo st = (marks st - es) \<union>
      (\<Union>q \<in> {q \<in> set fos. real_key q \<notin> marks st}. reached_by (fo_mark_proc q) points_to (real_key q))"
    unfolding marks_after_def fos_def [symmetric] es_def [symmetric] M traced ..
  note regd = table_map_Some [OF table_ok_distinct [OF ok(1) [unfolded fo_ok_def]], of fo_val, folded fo_map_def fos_def]
  have "real_key p \<notin> marks_after mark_fo st \<longleftrightarrow> real_key p \<notin> marks st \<and>
      (\<forall>q \<in> set fos. real_key q \<notin> marks st \<longrightarrow> real_key p \<notin> reached_by (fo_mark_proc q) points_to (real_key q))"
    unfolding after using base [of p] p [folded fos_def] by blast
  also have "\<dots> \<longleftrightarrow> finalizable points_to st (real_key p)"
    unfolding finalizable_def regd fo_val_def prod.inject by blast
  finally show ?thesis .
qed

section \<open>Running the queue\<close>

text \<open>Functions of the client that queue nothing themselves.\<close>

definition leaves_queue :: "(addr \<Rightarrow> addr \<Rightarrow> addr \<Rightarrow> fin_state \<Rightarrow> fin_state) \<Rightarrow> bool" where
  "leaves_queue invoke \<longleftrightarrow> (\<forall>fn obj cd st. GC_finalize_now (invoke fn obj cd st) = GC_finalize_now st)"

definition run_next :: "(addr \<Rightarrow> addr \<Rightarrow> addr \<Rightarrow> fin_state \<Rightarrow> fin_state) \<Rightarrow> finalizable_object \<Rightarrow> fin_state \<Rightarrow> fin_state" where
  "run_next invoke p st =
     invoke (fo_fn p) (hidden_key p) (fo_client_data p) (st\<lparr>GC_finalize_now := tl (GC_finalize_now st)\<rparr>)"

lemma invoke_loop_ok:
  assumes "leaves_queue invoke" "GC_finalize_now st = ps"
  shows "invoke_loop invoke n st = Some (n + length ps, fold (run_next invoke) ps st) \<and>
    GC_finalize_now (fold (run_next invoke) ps st) = []"
  using assms(2)
proof (induction ps arbitrary: n st)
  case Nil
  then show ?case by (simp add: invoke_loop.simps [of invoke n st])
next
  case (Cons p ps)
  have "GC_finalize_now (run_next invoke p st) = ps"
    using assms(1) Cons(2) by (simp add: leaves_queue_def run_next_def)
  from Cons.IH [OF this, of "n + 1"] show ?case
    using Cons(2) by (simp add: invoke_loop.simps [of invoke n st] run_next_def)
qed

end
