(* ===== verification/GC_Finalize_Properties.thy ===== *)
theory GC_Finalize_Properties
  imports GC_Finalization
begin

unbundle bit_operations_syntax

text \<open>
  The properties of disappearing links and finalizers, each with its statement in words and an
  instance at a concrete state.
\<close>

section \<open>A concrete heap\<close>

text \<open>
  The object at 4096 points to the object at 8192, both have finalizers, and the word at 12288 is a
  disappearing link to the first one. Nothing is marked but the entry of the link.
\<close>

definition fo_of :: "addr \<Rightarrow> addr \<Rightarrow> finalizable_object" where
  "fo_of p fn = \<lparr>entry_at = p + 32, hidden_key = GC_HIDE_POINTER p, fo_fn = fn, fo_client_data = 0,
     fo_object_size = 16, fo_mark_proc = Normal_proc\<rparr>"

definition sample_link :: disappearing_link where
  "sample_link = \<lparr>entry_at = 256, hidden_key = GC_HIDE_POINTER 12288, dl_hidden_obj = GC_HIDE_POINTER 4096\<rparr>"

definition sample_fin :: fin_state where
  "sample_fin = \<lparr>dl_head = [[sample_link]], log_dl_table_size = 0, GC_dl_entries = 1,
     fo_head = [[fo_of 8192 9, fo_of 4096 7]], log_fo_table_size = 0, GC_fo_entries = 2, GC_finalize_now = [],
     GC_java_finalization = False, need_unreachable_finalization = False, GC_finalize_on_demand = False,
     GC_finalizer_nested = 0, GC_finalizer_skipped = 0, GC_old_dl_entries = 0, GC_bytes_finalized = 0,
     GC_bytes_freed = 0, GC_finalizer_bytes_freed = 0, GC_fail_count = 0, GC_gc_no = 1, last_finalizer_notification = 0,
     GC_finalizer_notifier = 0, marks = {256}, words = (\<lambda>_. 5), malloc_results = [512], freed = []\<rparr>"

definition sample_points :: "(addr \<times> addr) set" where
  "sample_points = {(4096, 8192)}"

definition sample_mark :: "finalization_mark_proc \<Rightarrow> addr \<Rightarrow> addr set \<Rightarrow> addr set" where
  "sample_mark mp p N = N \<union> (if p = 4096 \<and> mp \<noteq> Null_proc then {8192} else {})"

lemma HASH3_one: "HASH3 p 1 0 = 0"
  by (simp add: HASH3_def)

lemma sample_keys [simp]:
  "real_key (fo_of p fn) = p" "real_key sample_link = 12288" "dl_obj sample_link = 4096" "entry_at sample_link = 256"
  "fo_mark_proc (fo_of p fn) = Normal_proc" "fo_val (fo_of p fn) = (fn, 0, Normal_proc)"
  "GC_REVEAL_POINTER (dl_hidden_obj sample_link) = 4096"
  by (simp_all add: fo_of_def sample_link_def real_key_def dl_obj_def fo_val_def)

lemma sample_tables:
  "dl_ok sample_fin" "fo_ok sample_fin" "dl_map sample_fin = [12288 \<mapsto> 4096]"
  "fo_map sample_fin = [8192 \<mapsto> (9, 0, Normal_proc), 4096 \<mapsto> (7, 0, Normal_proc)]"
  by (auto simp: dl_ok_def fo_ok_def table_ok_def sample_fin_def HASH3_one dl_map_def fo_map_def table_map_def fun_eq_iff)

lemma sample_trancl: "sample_points\<^sup>+ = sample_points"
  by (rule trancl_id) (simp add: sample_points_def trans_def)

lemma sample_traces: "traces sample_points sample_mark"
proof -
  have "sample_points\<^sup>* `` {8192} = {8192}" "sample_points\<^sup>* `` {} = {}"
    by (auto simp: sample_points_def elim: converse_rtranclE)
  moreover have s: "sample_points `` {p} = (if p = 4096 then {8192} else {})" for p
    by (auto simp: sample_points_def)
  ultimately have t: "sample_points\<^sup>* `` (sample_points `` {p} - {p}) = (if p = 4096 then {8192} else {})"
      "sample_points\<^sup>+ `` {p} = (if p = 4096 then {8192} else {})" for p
    by (simp_all add: sample_trancl)
  have "sample_mark mp p N = N \<union> reached_by mp sample_points p" for mp p N
    using s t by (cases mp) (simp_all add: sample_mark_def)
  then show ?thesis by (simp add: traces_def)
qed

lemma sample_round: "round_ok (\<lambda>_. 0) sample_fin"
  using sample_tables(1,2) unfolding round_ok_def links_apart_def by (auto simp: sample_fin_def)

lemma sample_heap: "marked_heap (\<lambda>_. 0) sample_points sample_fin"
  using sample_round unfolding marked_heap_def by (auto simp: sample_points_def sample_fin_def)

section \<open>Properties\<close>

text \<open>
  C36: \<open>GC_general_register_disappearing_link\<close> implements an update of the map from links to
  objects, whatever the table grows to; its result says whether the link was new, and it fails only without memory.
\<close>

theorem register_link_refines:
  assumes "dl_ok st" "log_dl_table_size st < 30" "leaves_links oom_fn" "link AND (ALIGNMENT - 1) = 0" "link \<noteq> 0"
  shows "case GC_general_register_disappearing_link oom_fn link obj st of
      Inr (r, st') \<Rightarrow> dl_ok st' \<and>
        (r = GC_SUCCESS \<and> dl_map st link = None \<and> dl_map st' = (dl_map st)(link \<mapsto> obj) \<or>
         r = GC_DUPLICATE \<and> dl_map st link \<noteq> None \<and> dl_map st' = (dl_map st)(link \<mapsto> obj) \<or>
         r = GC_NO_MEMORY \<and> dl_map st link = None \<and> dl_map st' = dl_map st)
    | Inl e \<Rightarrow> log_dl_table_size st = - 1 \<and> \<not> memory_left st"
  using assms by (rule register_link_ok)

lemma register_link_refines_witness:
  "\<exists>st'. GC_general_register_disappearing_link (\<lambda>st. (0, st)) 12288 8192 sample_fin = Inr (GC_DUPLICATE, st') \<and>
    dl_map st' = [12288 \<mapsto> 8192]"
proof -
  have "leaves_links (\<lambda>st. (0, st))" by (simp add: leaves_links_def)
  moreover have "log_dl_table_size sample_fin = 0" by (simp add: sample_fin_def)
  ultimately show ?thesis
    using register_link_refines [where st = sample_fin and oom_fn = "\<lambda>st. (0, st)" and link = 12288 and obj = 8192] sample_tables(1,3)
    by (auto simp: ALIGNMENT_def split: sum.splits)
qed

text \<open>
  C37: \<open>GC_register_finalizer_inner\<close> implements an update of the map from objects to their
  finalizers, a null function removes one, and the old function and data are handed back; without memory for an entry nothing
  changes.
\<close>

theorem register_finalizer_refines:
  assumes "fo_ok st" "log_fo_table_size st < 30" "leaves_finalizers oom_fn"
  shows "case GC_register_finalizer_inner oom_fn object_size obj fn cd mp st of
      Inr (out, st') \<Rightarrow> fo_ok st' \<and>
        (out = Some (old_finalizer (fo_map st obj)) \<and>
           fo_map st' = (if fo_map st obj = None \<and> object_size obj = None then fo_map st
             else (fo_map st)(obj := if fn = 0 then None else Some (fn, cd, mp))) \<or>
         out = None \<and> fo_map st obj = None \<and> fn \<noteq> 0 \<and> fo_map st' = fo_map st)
    | Inl e \<Rightarrow> log_fo_table_size st = - 1 \<and> \<not> memory_left st"
  using assms by (rule register_finalizer_ok)

lemma register_finalizer_refines_witness:
  "\<exists>st'. GC_register_finalizer_inner (\<lambda>st. (0, st)) (\<lambda>_. Some 16) 4096 0 0 Normal_proc sample_fin = Inr (Some (7, 0), st') \<and>
    fo_map st' = [8192 \<mapsto> (9, 0, Normal_proc)]"
proof -
  have "leaves_finalizers (\<lambda>st. (0, st))" by (simp add: leaves_finalizers_def)
  moreover have "log_fo_table_size sample_fin = 0" by (simp add: sample_fin_def)
  ultimately show ?thesis
    using register_finalizer_refines [where st = sample_fin and oom_fn = "\<lambda>st. (0, st)" and object_size = "\<lambda>_. Some 16"
      and obj = 4096 and fn = 0 and cd = 0 and mp = Normal_proc] sample_tables(2,4)
    by (auto simp: old_finalizer_def fun_upd_twist split: sum.splits)
qed

text \<open>
  C38: outside of the Java mode, when the mark stack does not overflow, \<open>GC_finalize\<close> queues exactly
  the registered objects that are unmarked and that no unmarked registered object reaches by its own
  mark procedure, each once and with its own finalizer, and takes them out of the table. A normal
  finalizer keeps back all objects that its object reaches, itself included when it is on a cycle; one
  registered with \<open>ignore_self\<close> those that the pointers to other objects reach; one registered with
  \<open>no_order\<close> none.
\<close>

theorem finalize_in_order:
  assumes "marked_heap GC_base points_to st" "traces points_to mark_fo"
  shows "\<exists>st' new. GC_finalize GC_base mark_fo st = Inr st' \<and> GC_finalize_now st' = new @ GC_finalize_now st \<and>
    distinct (map hidden_key new) \<and>
    (\<forall>b v. (\<exists>p \<in> set new. hidden_key p = b \<and> fo_val p = v) \<longleftrightarrow> fo_map st b = Some v \<and> finalizable points_to st b) \<and>
    fo_ok st' \<and> (\<forall>b v. fo_map st' b = Some v \<longleftrightarrow> fo_map st b = Some v \<and> \<not> finalizable points_to st b)"
proof -
  let ?F = "\<lambda>p. finalizable points_to st (real_key p)" and ?u = "\<lambda>p :: finalizable_object. p\<lparr>hidden_key := real_key p\<rparr>"
  have ok: "round_ok GC_base st" "fo_ok st" using assms(1) by (simp_all add: marked_heap_def round_ok_def)
  note d = table_ok_distinct [OF ok(2) [unfolded fo_ok_def]]
  note m = table_map_Some [OF d, of fo_val, folded fo_map_def]
  note F = finalize_ok [OF assms]
  have f: "filter (\<lambda>p. real_key p \<notin> marks_after mark_fo st) (concat (fo_head st)) = filter ?F (concat (fo_head st))"
    using F by (intro filter_cong) auto
  have f': "map (filter (\<lambda>p. \<not> real_key p \<notin> marks_after mark_fo st)) (fo_head st) = map (filter (\<lambda>p. \<not> ?F p)) (fo_head st)"
    using F by (intro map_cong filter_cong) auto
  obtain st' where st': "GC_finalize GC_base mark_fo st = Inr st'"
      "GC_finalize_now st' = rev (map ?u (filter ?F (concat (fo_head st)))) @ GC_finalize_now st"
      "fo_head st' = map (filter (\<lambda>p. \<not> ?F p)) (fo_head st)" "log_fo_table_size st' = log_fo_table_size st"
      "GC_fo_entries st' = GC_fo_entries st - of_nat (length (filter ?F (concat (fo_head st))))"
    using finalize_round [OF ok(1), of mark_fo] unfolding f f' by blast
  note t = table_filter_ok [OF ok(2) [unfolded fo_ok_def], where P = "\<lambda>p. \<not> ?F p"]
  let ?new = "rev (map ?u (filter ?F (concat (fo_head st))))"
  have "map hidden_key ?new = rev (map real_key (filter ?F (concat (fo_head st))))" by (simp add: rev_map)
  then have "distinct (map hidden_key ?new)" using d distinct_map_filter by (metis distinct_rev)
  moreover have "(\<exists>p \<in> set ?new. hidden_key p = b \<and> fo_val p = v) \<longleftrightarrow> fo_map st b = Some v \<and> finalizable points_to st b" for b v
    unfolding m by (auto simp: fo_val_def simp del: set_concat)
  moreover have "fo_map st' b = Some v \<longleftrightarrow> fo_map st b = Some v \<and> \<not> finalizable points_to st b" for b v
    unfolding m using t(2) [where val = fo_val and k = b and v = v] unfolding fo_map_def st'(3) by blast
  moreover have "fo_ok st'" using t(1) st'(3-5) by (simp add: fo_ok_def)
  ultimately show ?thesis using st'(1,2) by blast
qed

text \<open>The object that the other one points to has to wait for the next round.\<close>

lemma finalize_in_order_witness:
  "\<exists>st'. GC_finalize (\<lambda>_. 0) sample_mark sample_fin = Inr st' \<and>
    (\<exists>p \<in> set (GC_finalize_now st'). hidden_key p = 4096 \<and> fo_fn p = 7) \<and> fo_map st' 8192 = Some (9, 0, Normal_proc)"
proof -
  have "finalizable sample_points sample_fin 4096"
    unfolding finalizable_def sample_tables by (simp add: sample_trancl) (auto simp: sample_points_def sample_fin_def)
  moreover have "8192 \<in> reached_by Normal_proc sample_points 4096" "4096 \<notin> marks sample_fin"
    by (simp_all add: sample_trancl) (simp_all add: sample_points_def sample_fin_def)
  then have "\<not> finalizable sample_points sample_fin 8192"
    unfolding finalizable_def by (metis sample_tables(4) fun_upd_same)
  from finalize_in_order [OF sample_heap sample_traces] obtain st' new where s:
      "GC_finalize (\<lambda>_. 0) sample_mark sample_fin = Inr st'" "GC_finalize_now st' = new @ GC_finalize_now sample_fin"
      "\<forall>b v. (\<exists>p \<in> set new. hidden_key p = b \<and> fo_val p = v) \<longleftrightarrow> fo_map sample_fin b = Some v \<and> finalizable sample_points sample_fin b"
      "\<forall>b v. fo_map st' b = Some v \<longleftrightarrow> fo_map sample_fin b = Some v \<and> \<not> finalizable sample_points sample_fin b"
    by blast
  have "fo_map st' 8192 = Some (9, 0, Normal_proc)" using s(4) \<open>\<not> finalizable sample_points sample_fin 8192\<close> by (simp add: sample_tables)
  moreover obtain p where "p \<in> set new" "hidden_key p = 4096" "fo_val p = (7, 0, Normal_proc)"
    using s(3) [rule_format, of 4096 "(7, 0, Normal_proc)"] \<open>finalizable sample_points sample_fin 4096\<close>
    unfolding sample_tables by (metis fun_upd_same)
  ultimately show ?thesis using s(1,2) by (auto simp: fo_val_def)
qed

text \<open>
  C39: outside of the Java mode, whatever the marker does, \<open>GC_finalize\<close> clears exactly the links to unmarked objects, changes no other word, and
  forgets those links and the ones that lie in unmarked objects.
\<close>

theorem finalize_clears_links:
  assumes "round_ok GC_base st"
  shows "\<exists>st'. GC_finalize GC_base mark_fo st = Inr st' \<and>
    words st' = (\<lambda>a. if \<exists>obj. dl_map st a = Some obj \<and> obj \<notin> marks st then 0 else words st a) \<and>
    dl_ok st' \<and> (\<forall>l obj. dl_map st' l = Some obj \<longleftrightarrow>
      dl_map st l = Some obj \<and> obj \<in> marks st \<and> (GC_base l = 0 \<or> GC_base l \<in> marks st'))"
  using finalize_round [OF assms, of mark_fo] by blast

lemma finalize_clears_links_witness:
  "\<exists>st'. GC_finalize (\<lambda>_. 0) sample_mark sample_fin = Inr st' \<and> words st' 12288 = 0 \<and> words st' 16384 = 5 \<and>
    dl_map st' 12288 = None"
proof -
  have "4096 \<notin> marks sample_fin" "words sample_fin 16384 = 5" by (simp_all add: sample_fin_def)
  moreover obtain st' where s: "GC_finalize (\<lambda>_. 0) sample_mark sample_fin = Inr st'"
      "words st' = (\<lambda>a. if \<exists>obj. dl_map sample_fin a = Some obj \<and> obj \<notin> marks sample_fin then 0 else words sample_fin a)"
      "\<forall>l obj. dl_map st' l = Some obj \<longrightarrow> obj \<in> marks sample_fin \<and> dl_map sample_fin l = Some obj"
    using finalize_clears_links [OF sample_round, of sample_mark] by blast
  ultimately have "words st' 12288 = 0" "words st' 16384 = 5" "dl_map st' 12288 \<noteq> Some obj" for obj
    using s(3) [rule_format, of 12288 obj] by (auto simp: s(2) sample_tables)
  then show ?thesis using s(1) by (metis not_None_eq)
qed

text \<open>
  C40: when the finalizers queue nothing themselves, \<open>GC_invoke_finalizers\<close> returns, having called
  each queued finalizer once, in the order of the queue, and its result is their number.
\<close>

theorem invoke_finalizers_once:
  assumes "leaves_queue invoke"
  shows "\<exists>st'. GC_invoke_finalizers invoke st = Some (length (GC_finalize_now st), st') \<and>
    (st' = fold (run_next invoke) (GC_finalize_now st) st \<or>
     (\<exists>n. st' = (fold (run_next invoke) (GC_finalize_now st) st)\<lparr>GC_finalizer_bytes_freed := n\<rparr>)) \<and>
    \<not> GC_should_invoke_finalizers st'"
  using invoke_loop_ok [OF assms refl, of 0 st]
  by (auto simp: GC_invoke_finalizers_def GC_should_invoke_finalizers_def)

text \<open>Finalizers that write their argument to memory: the last one called wins.\<close>

lemma invoke_finalizers_once_witness:
  "\<exists>st'. GC_invoke_finalizers (\<lambda>fn obj cd st. st\<lparr>words := (words st)(0 := obj)\<rparr>)
      (sample_fin\<lparr>GC_finalize_now := [(fo_of 4096 7)\<lparr>hidden_key := 4096\<rparr>, (fo_of 8192 9)\<lparr>hidden_key := 8192\<rparr>]\<rparr>) = Some (2, st') \<and>
    words st' 0 = 8192"
proof -
  let ?i = "\<lambda>fn obj cd st. st\<lparr>words := (words st)(0 := obj)\<rparr>"
  have "leaves_queue ?i" by (simp add: leaves_queue_def)
  from invoke_finalizers_once [OF this, of "sample_fin\<lparr>GC_finalize_now := [(fo_of 4096 7)\<lparr>hidden_key := 4096\<rparr>, (fo_of 8192 9)\<lparr>hidden_key := 8192\<rparr>]\<rparr>"]
  show ?thesis by (auto simp: run_next_def)
qed

end
