(* ===== verification/Spec2Isabelle.thy ===== *)
theory Spec2Isabelle
  imports Cord_Properties Iron_Properties GC_Properties GC_Block_Properties
    GC_Root_Properties GC_Finalize_Properties
begin

text \<open>
  A verification library for Ironclad C++: the safe pointer and container headers
  (\<^verbatim>\<open>include/ironclad\<close>) and the Boehm-Demers-Weiser collector with its cord library that they
  ship with (\<^verbatim>\<open>libs/gc\<close>). Paths below are relative to the source tree.

  \<^bold>\<open>The program.\<close> A program written against the headers holds every pointer in one of four
  class templates: \<open>ptr\<close> and \<open>aptr\<close> for the heap and globals, \<open>lptr\<close> and \<open>laptr\<close> for addresses
  that may lie on the stack. The array pointers check the index of each access; the pointers to
  the stack compare addresses with the stack pointer at their creation, so that none outlives
  its frame. Containers, memory and string functions, allocation and stream wrappers are built on
  these pointers. Memory comes from \<open>malloc\<close> or from the collector, which finds the object that
  an address belongs to through a map from heap blocks to block headers. Cords are immutable
  strings kept as balanced trees in memory of the collector.

  \<^bold>\<open>Theories.\<close> \<open>Prelude\<close> holds what all share: the outcomes of a C function (\<open>'a res\<close>, an error
  or a value), \<open>rbind\<close>, C strings and the conversions between \<open>size_t\<close> and \<open>int\<close>.

  Cords (\<^verbatim>\<open>libs/gc/cord\<close>, \<^verbatim>\<open>libs/gc/include/cord.h\<close>, \<^verbatim>\<open>ec.h\<close>, \<^verbatim>\<open>private/cord_pos.h\<close>):
  \<^item> \<open>Cord_Rep\<close> (node layout, lengths, depths, function nodes), \<open>Cord_Cat\<close> (\<open>CORD_cat\<close>,
    \<open>CORD_cat_char_star\<close>, the forest and \<open>CORD_balance\<close>), \<open>Cord_Substr\<close>, \<open>Cord_Iter\<close>, \<open>Cord_Pos\<close>
    (positions and their caches) model \<^verbatim>\<open>cordbscs.c\<close>; \<open>Cord_Cat_Facts\<close> and \<open>Cord_Balance\<close> prove
    that concatenation refines the append of the texts and that balancing bounds the depth.
  \<^item> \<open>Cord_Cursor\<close> (the loops over positions, in the locale of a cursor), \<open>Cord_Build\<close>,
    \<open>Cord_Client\<close>, \<open>Cord_Str\<close> and \<open>Cord_File\<close> model \<^verbatim>\<open>cordxtra.c\<close>; \<open>Cord_Print\<close> models
    \<^verbatim>\<open>cordprnt.c\<close>. \<open>Cord_Limits\<close> evaluates the model where the code fails.
  \<^item> \<open>Cord_Properties\<close> states C1 to C11. The abstract view of a cord is its list of characters
    (\<open>cord_chars\<close>); \<open>cord_ok\<close> is the invariant of a cord that a client can hold.

  Ironclad (\<^verbatim>\<open>include/ironclad\<close>):
  \<^item> \<open>Iron_Mem\<close>: the memory the headers point into, blocks of bytes with reads and writes that
    fail outside a live block, and the functions of the C library over it.
  \<^item> \<open>Iron_Ptr\<close> (\<^verbatim>\<open>ptr.hpp\<close>, \<^verbatim>\<open>lptr.hpp\<close>), \<open>Iron_Aptr\<close> (\<^verbatim>\<open>aptr.hpp\<close>, \<^verbatim>\<open>laptr.hpp\<close>, \<^verbatim>\<open>common.hpp\<close>):
    one record per class, one definition per constructor, operator and method. \<open>Iron_Aptr\<close> ends
    with the locale \<open>checked_array\<close>, what the memory functions rely on, interpreted on both
    classes.
  \<^item> \<open>Iron_Stack\<close>: programs as sequences of calls, returns, declarations and assignments of
    pointers, a step relation over a stack of frames, with its invariant by rule induction.
  \<^item> \<open>Iron_Memops\<close> (\<^verbatim>\<open>safe_mem.hpp\<close>; the locale \<open>array_copy\<close> extends \<open>checked_array\<close> to two arrays),
    \<open>Iron_Array\<close> (\<^verbatim>\<open>array.hpp\<close>, \<^verbatim>\<open>matrix.hpp\<close>, \<^verbatim>\<open>varray.hpp\<close>), \<open>Iron_String\<close> (\<^verbatim>\<open>safe_string.hpp\<close>),
    \<open>Iron_Util\<close> (\<^verbatim>\<open>util.hpp\<close>, \<^verbatim>\<open>casts.hpp\<close>, \<^verbatim>\<open>safe_io.hpp\<close>).
  \<^item> \<open>Iron_Limits\<close> evaluates the model on inputs where the code breaks its promise;
    \<open>Iron_Properties\<close> states C12 to C21.

  Collector (\<^verbatim>\<open>libs/gc\<close>, configured for 64-bit Linux: hashed top level, blocks of 4096 bytes,
  granules of 16, one marking thread, no unmapping). A block is its number, a header is a number
  in the order of allocation, and the state of each theory extends the record of the one before:
  \<^item> \<open>GC_Headers\<close> models \<^verbatim>\<open>headers.c\<close> and \<^verbatim>\<open>include/private/gc_hdrs.h\<close>: the two-level index, the
    list of bottom indices, scratch memory, the searches, the header cache. \<open>GC_Index\<close> shows that
    every operation keeps the invariant of the index and is an update of a map from blocks to
    entries; \<open>GC_Search\<close> characterises the searches over that map; \<open>GC_Properties\<close> states C22 to
    C26.
  \<^item> \<open>GC_Blacklist\<close> models \<^verbatim>\<open>blacklst.c\<close>. Its locale \<open>page_filter\<close> is what the block allocator
    relies on when it skips black listed pages.
  \<^item> \<open>GC_Objects\<close> models \<^verbatim>\<open>obj_map.c\<close>, \<^verbatim>\<open>new_hblk.c\<close> and the mark bits of \<^verbatim>\<open>mark.c\<close>. Its locale
    \<open>list_builder\<close> covers the four loops that link the objects of a new block.
  \<^item> \<open>GC_Alloc\<close> models \<^verbatim>\<open>allchblk.c\<close>, the free lists threaded through the headers, and the
    accounting of \<^verbatim>\<open>alloc.c\<close>; \<open>GC_Expand\<close> models the growth of the heap in \<^verbatim>\<open>alloc.c\<close>.
  \<^item> \<open>GC_Freelist\<close>, \<open>GC_Heap\<close>, \<open>GC_Carve\<close>, \<open>GC_Split\<close>, \<open>GC_Invariant\<close> show what the steps of the
    allocator do to the free lists seen as lists of block numbers (\<open>lists_ok\<close>), up to the invariant
    \<open>heap_inv\<close>: free blocks lie in their list, do not overlap, have no free neighbour, and the
    counts of free bytes agree. \<open>GC_Find\<close> and \<open>GC_Allocate\<close> prove \<open>GC_allochblk\<close>, \<open>GC_Free\<close> and
    \<open>GC_Coalesce\<close> prove \<open>GC_freehblk\<close>, \<open>GC_Live\<close> that the search misses no block that is large
    enough, \<open>GC_Supply\<close> how much scratch memory each operation takes.
  \<^item> \<open>GC_Blocks\<close> states the contract of the allocator over the set of free pages and the map of
    blocks in use, and the heaps that sequences of operations reach; \<open>GC_New\<close> adds the objects of
    a new block. \<open>GC_Block_Properties\<close> states C27 to C32.
  \<^item> \<open>GC_Roots\<close> models \<^verbatim>\<open>mark_rts.c\<close>: the table of root sets with its hash index, the table of
    exclusions with its binary search, the ranges pushed for static data and for the stack.
    \<open>GC_Root_Facts\<close> reads the tables as a map and as a set of addresses, for every state that the
    operations reach; \<open>GC_Root_Properties\<close> states C33 to C35.
  \<^item> \<open>GC_Finalize\<close> models \<^verbatim>\<open>finalize.c\<close>: two hash tables that grow, the registrations, the phases of
    \<open>GC_finalize\<close>, the queue. A chain is a list of its entries. \<open>GC_Finalize_Tables\<close> reads a table as
    a map, \<open>GC_Registration\<close> proves the registrations to be updates of it, \<open>GC_Finalization\<close>
    characterises a round; \<open>GC_Finalize_Properties\<close> states C36 to C40.

  \<^bold>\<open>Conventions.\<close> An \<open>assert\<close> that fails is \<open>Inl (Abort msg)\<close>; every other \<open>Inl\<close> is behaviour
  that C leaves undefined, and the theorems of safety exclude it. A \<open>size_t\<close> is a natural number
  with the reductions modulo \<open>2 ^ 64\<close> written out, a \<open>long\<close> an integer that \<open>long_wrap\<close> keeps in
  its range, bytes are \<open>8 word\<close>. The element type of a template is its size in bytes. Code that is
  not in the tree is an argument: the allocator, constructors, \<open>strtok\<close>, \<open>vsprintf\<close>, \<open>dynamic_cast\<close>;
  so is, for finalization, the marker with the functions of the client.
  The value of the stack pointer in a constructor is an argument too.

  \<^bold>\<open>Fuel.\<close> The mutual recursion of \<open>CORD_cat\<close> and \<open>CORD_balance\<close> runs on fuel that its
  theorems show to be enough for every legal cord. The walks of \<open>GC_Headers\<close> take the number of
  bottom indices or of entries as fuel; chains and lists have fewer links by the invariant. The
  search of a free list takes one more than the number of headers; the theorems show that the fuel
  never runs out. The loop that links the objects of a block runs at most once for each of its
  4096 bytes. \<open>invoke_loop\<close> and \<open>GC_finalize_all\<close> run functions of the client that may queue more
  objects, so they are partial functions; C40 says when the first returns.

  \<^bold>\<open>Limits of the statements.\<close> Where the code breaks a promise for some inputs, the theorem has a
  hypothesis that excludes them, its text names it, and a lemma of \<open>Cord_Limits\<close> or \<open>Iron_Limits\<close>
  evaluates the code there: long texts and wrapping ranges in C3, texts with NULs in C7 and C8,
  assignments from pointers that were assigned to in C12, \<open>copy<int>\<close> in C15, negative indices in C19,
  sizes that wrap and failed allocations in C20, the generic cast in C21. The theorems of the block
  allocator stop where the operating system has no memory left for a header (C27, C28, C30, C31),
  and C38 and C39 are about rounds outside of the Java mode; C38 holds for all four mark procedures
  of finalizers.

  \<^bold>\<open>Not modelled.\<close> Of the collector, marking and sweeping and the allocators of objects, its
  support for operating systems and threads, its debugging functions and statistics; of the headers, the precise mode (\<open>_ENABLE_PRECISE_GC\<close>), the wrappers of pthreads
  and the functions that only forward to stdio, \<^verbatim>\<open>global_array.hpp\<close>, whose conversions do not
  compile; the Clang-based tools under \<^verbatim>\<open>tools\<close>, which are visitors over the compiler's syntax
  trees, third-party code (googletest, libatomic_ops) and the tests. The manifest lists each part
  with the reason.
\<close>

end
